(* ===== verification/Prelude.thy ===== *)
theory Prelude
  imports Main "HOL-Library.Multiset" "HOL-Library.Monad_Syntax"
begin

text \<open>
  Shared vocabulary of the development: C arrays as lists with checked access, the
  permutation and sortedness predicates of the array algorithms, and the contract that all
  sorting routines of \<open>c++/algos/sort\<close> are measured against.

  An access \<open>a[i]\<close> outside the array is undefined behaviour in C++.  The model
  makes it visible: \<open>rd\<close> and \<open>wr\<close> return \<open>None\<close>, and a routine that may reach
  such an access returns \<open>None\<close> as a whole.  Array indices are C \<open>int\<close>s that the
  routines keep within \<open>-1 .. 2 n + 2\<close>; they are modelled by unbounded integers, which is
  exact for arrays of fewer than \<open>2 ^ 30\<close> elements.
\<close>

named_theorems arr \<open>rules for checked array access and update at integer indices\<close>

section \<open>Checked array access\<close>

definition rd :: "'a list \<Rightarrow> int \<Rightarrow> 'a option" where
  "rd a i = (if 0 \<le> i \<and> i < int (length a) then Some (a ! nat i) else None)"

definition wr :: "'a list \<Rightarrow> int \<Rightarrow> 'a \<Rightarrow> 'a list option" where
  "wr a i x = (if 0 \<le> i \<and> i < int (length a) then Some (a[nat i := x]) else None)"

text \<open>The \<open>Swap(int &a, int &b)\<close> of the sorting files, applied to two array cells.\<close>

definition Swap :: "'a list \<Rightarrow> int \<Rightarrow> int \<Rightarrow> 'a list option" where
  "Swap a i j = do {
     c \<leftarrow> rd a i;
     y \<leftarrow> rd a j;
     a1 \<leftarrow> wr a i y;
     wr a1 j c }"

definition swp :: "'a list \<Rightarrow> int \<Rightarrow> int \<Rightarrow> 'a list" where
  "swp a i j = a[nat i := a ! nat j, nat j := a ! nat i]"

lemma rd_in [arr]: "0 \<le> i \<Longrightarrow> i < int (length a) \<Longrightarrow> rd a i = Some (a ! nat i)"
  by (simp add: rd_def)

lemma rd_out: "i < 0 \<or> int (length a) \<le> i \<Longrightarrow> rd a i = None"
  by (auto simp: rd_def)

lemma rd_eq_Some: "rd a i = Some x \<longleftrightarrow> 0 \<le> i \<and> i < int (length a) \<and> x = a ! nat i"
  by (auto simp: rd_def)

lemma wr_in [arr]: "0 \<le> i \<Longrightarrow> i < int (length a) \<Longrightarrow> wr a i x = Some (a[nat i := x])"
  by (simp add: wr_def)

lemma wr_out: "i < 0 \<or> int (length a) \<le> i \<Longrightarrow> wr a i x = None"
  by (auto simp: wr_def)

lemma wr_length: "wr a i x = Some b \<Longrightarrow> length b = length a"
  by (auto simp: wr_def split: if_splits)

lemma nth_upd [arr]:
  "0 \<le> i \<Longrightarrow> i < int (length a) \<Longrightarrow> 0 \<le> j \<Longrightarrow>
   a[nat i := x] ! nat j = (if i = j then x else a ! nat j)"
  by (auto simp: nth_list_update)

lemma Swap_in [arr]:
  "0 \<le> i \<Longrightarrow> i < int (length a) \<Longrightarrow> 0 \<le> j \<Longrightarrow> j < int (length a) \<Longrightarrow>
   Swap a i j = Some (swp a i j)"
  by (simp add: Swap_def swp_def arr)

lemma length_swp [simp]: "length (swp a i j) = length a"
  by (simp add: swp_def)

lemma swp_commute: "swp a i j = swp a j i"
  by (cases "nat i = nat j") (auto simp: swp_def list_update_swap)

lemma mset_swp [simp]:
  "0 \<le> i \<Longrightarrow> i < int (length a) \<Longrightarrow> 0 \<le> j \<Longrightarrow> j < int (length a) \<Longrightarrow>
   mset (swp a i j) = mset a"
  unfolding swp_def by (rule mset_swap) auto

lemma nth_swp [arr]:
  "0 \<le> i \<Longrightarrow> i < int (length a) \<Longrightarrow> 0 \<le> j \<Longrightarrow> j < int (length a) \<Longrightarrow> 0 \<le> k \<Longrightarrow>
   swp a i j ! nat k = (if k = j then a ! nat i else if k = i then a ! nat j else a ! nat k)"
  by (auto simp: swp_def nth_list_update)

text \<open>
  Moving a hole: the routines that keep one element in a temporary copy a cell into the hole
  and go on with the copied cell as the hole.  With the temporary written back this is a swap.
\<close>

lemma hole_move:
  assumes "0 \<le> i" "i < int (length a)" "0 \<le> j" "j < int (length a)" "i \<noteq> j"
  shows "(a[nat i := a ! nat j])[nat j := t] = swp (a[nat i := t]) i j"
  using assms by (auto simp: swp_def nth_list_update list_update_swap intro!: nth_equalityI)

section \<open>Counting loops\<close>

text \<open>
  \<open>for (i = lo; i < hi; i++) body\<close>, \<open>for (i = lo; i < hi; i += d) body\<close> with \<open>d > 0\<close> and
  \<open>for (i = hi; i >= lo; i--) body\<close>, for a body that works on a state and may fail.  The guard
  \<open>0 < d\<close> is what makes the second loop end; all callers establish it.
\<close>

function for_up :: "int \<Rightarrow> int \<Rightarrow> (int \<Rightarrow> 's \<Rightarrow> 's option) \<Rightarrow> 's \<Rightarrow> 's option" where
  "for_up i hi body s =
     (if i < hi then do { t \<leftarrow> body i s; for_up (i + 1) hi body t } else Some s)"
  by pat_completeness auto
termination by (relation "measure (\<lambda>(i, hi, body, s). nat (hi - i))") auto

function for_by :: "int \<Rightarrow> int \<Rightarrow> int \<Rightarrow> (int \<Rightarrow> 's \<Rightarrow> 's option) \<Rightarrow> 's \<Rightarrow> 's option" where
  "for_by i hi d body s =
     (if i < hi \<and> 0 < d then do { t \<leftarrow> body i s; for_by (i + d) hi d body t } else Some s)"
  by pat_completeness auto
termination by (relation "measure (\<lambda>(i, hi, d, body, s). nat (hi - i))") auto

function for_down :: "int \<Rightarrow> int \<Rightarrow> (int \<Rightarrow> 's \<Rightarrow> 's option) \<Rightarrow> 's \<Rightarrow> 's option" where
  "for_down i lo body s =
     (if lo \<le> i then do { t \<leftarrow> body i s; for_down (i - 1) lo body t } else Some s)"
  by pat_completeness auto
termination by (relation "measure (\<lambda>(i, lo, body, s). nat (i - lo + 1))") auto

declare for_up.simps [simp del] for_by.simps [simp del] for_down.simps [simp del]

lemma for_up_done [simp]: "hi \<le> i \<Longrightarrow> for_up i hi body s = Some s"
  by (simp add: for_up.simps)

lemma for_down_done [simp]: "i < lo \<Longrightarrow> for_down i lo body s = Some s"
  by (simp add: for_down.simps)

text \<open>Loop rules: an invariant of the loop variable and the state.\<close>

lemma for_up_rule:
  assumes "I lo s" "lo \<le> hi"
    and body: "\<And>i s. lo \<le> i \<Longrightarrow> i < hi \<Longrightarrow> I i s \<Longrightarrow> \<exists>t. body i s = Some t \<and> I (i + 1) t"
  shows "\<exists>t. for_up lo hi body s = Some t \<and> I hi t"
proof -
  have "\<exists>t. for_up i hi body s = Some t \<and> I hi t" if "I i s" "lo \<le> i" "i \<le> hi" for i s
    using that
  proof (induction "nat (hi - i)" arbitrary: i s)
    case 0
    then show ?case by (cases "i = hi") auto
  next
    case (Suc m)
    then have i: "i < hi" by simp
    obtain t where t: "body i s = Some t" "I (i + 1) t" using body [OF _ i] Suc.prems by blast
    have "m = nat (hi - (i + 1))" using Suc.hyps(2) i by simp
    then show ?case using Suc.hyps(1) [of "i + 1" t] Suc.prems t i
      by (simp add: for_up.simps [of i hi body s])
  qed
  then show ?thesis using assms by blast
qed

lemma for_by_rule:
  assumes "I s" and body: "\<And>i s. lo \<le> i \<Longrightarrow> i < hi \<Longrightarrow> I s \<Longrightarrow> \<exists>t. body i s = Some t \<and> I t"
  shows "\<exists>t. for_by lo hi d body s = Some t \<and> I t"
proof -
  have "\<exists>t. for_by i hi d body s = Some t \<and> I t" if "I s" "lo \<le> i" for i s
    using that
  proof (induction "nat (hi - i)" arbitrary: i s rule: less_induct)
    case less
    show ?case
    proof (cases "i < hi \<and> 0 < d")
      case False
      then show ?thesis using less.prems by (auto simp: for_by.simps [of i hi d body s])
    next
      case True
      then obtain t where "body i s = Some t" "I t" using body [of i s] less.prems by blast
      then show ?thesis using less.hyps [of "i + d" t] less.prems True
        by (simp add: for_by.simps [of i hi d body s])
    qed
  qed
  then show ?thesis using assms by blast
qed

lemma for_by_1: "for_by i hi 1 body s = for_up i hi body s"
proof (induction "nat (hi - i)" arbitrary: i s)
  case 0
  then show ?case by (subst for_by.simps) simp
next
  case (Suc m)
  then have i: "i < hi" and "m = nat (hi - (i + 1))" by simp_all
  then have "for_by (i + 1) hi 1 body t = for_up (i + 1) hi body t" for t by (rule_tac Suc.hyps(1))
  then show ?case using i
    by (simp add: for_by.simps [of i hi 1 body s] for_up.simps [of i hi body s]
        cong: bind_option_cong)
qed

lemma for_down_rule:
  assumes "I hi s" "lo \<le> hi + 1"
    and body: "\<And>i s. lo \<le> i \<Longrightarrow> i \<le> hi \<Longrightarrow> I i s \<Longrightarrow> \<exists>t. body i s = Some t \<and> I (i - 1) t"
  shows "\<exists>t. for_down hi lo body s = Some t \<and> I (lo - 1) t"
proof -
  have "\<exists>t. for_down i lo body s = Some t \<and> I (lo - 1) t"
    if "I i s" "i \<le> hi" "lo \<le> i + 1" for i s
    using that
  proof (induction "nat (i - lo + 1)" arbitrary: i s)
    case 0
    then have "i = lo - 1" by simp
    then show ?case using 0 by simp
  next
    case (Suc m)
    then have i: "lo \<le> i" by simp
    obtain t where t: "body i s = Some t" "I (i - 1) t" using body [OF i] Suc.prems by blast
    have "m = nat (i - 1 - lo + 1)" using Suc.hyps(2) i by simp
    then show ?case using Suc.hyps(1) [of "i - 1" t] Suc.prems t i
      by (simp add: for_down.simps [of i lo body s])
  qed
  then show ?thesis using assms by blast
qed

section \<open>Permutations inside a segment\<close>

definition perm_in :: "int \<Rightarrow> int \<Rightarrow> 'a list \<Rightarrow> 'a list \<Rightarrow> bool" where
  "perm_in lo hi a b \<longleftrightarrow> length b = length a \<and> mset b = mset a \<and>
     (\<forall>k. 0 \<le> k \<longrightarrow> k < int (length a) \<longrightarrow> k < lo \<or> hi \<le> k \<longrightarrow> b ! nat k = a ! nat k)"

lemma perm_in_refl [simp]: "perm_in lo hi a a"
  by (simp add: perm_in_def)

lemma perm_in_trans [trans]: "perm_in lo hi a b \<Longrightarrow> perm_in lo hi b c \<Longrightarrow> perm_in lo hi a c"
  by (simp add: perm_in_def)

lemma perm_in_mono: "perm_in lo hi a b \<Longrightarrow> lo' \<le> lo \<Longrightarrow> hi \<le> hi' \<Longrightarrow> perm_in lo' hi' a b"
  by (auto simp: perm_in_def)

lemma perm_in_length: "perm_in lo hi a b \<Longrightarrow> length b = length a"
  by (simp add: perm_in_def)

lemma perm_in_mset: "perm_in lo hi a b \<Longrightarrow> mset b = mset a"
  by (simp add: perm_in_def)

lemma perm_in_out:
  "perm_in lo hi a b \<Longrightarrow> 0 \<le> k \<Longrightarrow> k < int (length a) \<Longrightarrow> k < lo \<or> hi \<le> k \<Longrightarrow>
   b ! nat k = a ! nat k"
  by (auto simp: perm_in_def)

lemma perm_in_swp:
  "0 \<le> i \<Longrightarrow> i < int (length a) \<Longrightarrow> 0 \<le> j \<Longrightarrow> j < int (length a) \<Longrightarrow>
   lo \<le> i \<Longrightarrow> i < hi \<Longrightarrow> lo \<le> j \<Longrightarrow> j < hi \<Longrightarrow> perm_in lo hi a (swp a i j)"
  by (auto simp: perm_in_def arr)

definition seg :: "int \<Rightarrow> int \<Rightarrow> 'a list \<Rightarrow> 'a list" where
  "seg lo hi a = take (nat (hi - lo)) (drop (nat lo) a)"

lemma seg_split:
  assumes "0 \<le> lo" "lo \<le> hi" "hi \<le> int (length a)"
  shows "a = take (nat lo) a @ seg lo hi a @ drop (nat hi) a"
proof -
  have "drop (nat hi) a = drop (nat (hi - lo)) (drop (nat lo) a)"
    using assms by (simp add: nat_diff_distrib)
  then have "seg lo hi a @ drop (nat hi) a = drop (nat lo) a"
    by (metis append_take_drop_id seg_def)
  then show ?thesis by simp
qed

lemma nth_seg:
  assumes "0 \<le> lo" "lo \<le> hi" "hi \<le> int (length a)" "k < nat (hi - lo)"
  shows "seg lo hi a ! k = a ! nat (lo + int k)"
proof -
  have "nat (lo + int k) = nat lo + k" using assms by simp
  then show ?thesis using assms by (simp add: seg_def)
qed

lemma length_seg:
  "0 \<le> lo \<Longrightarrow> lo \<le> hi \<Longrightarrow> hi \<le> int (length a) \<Longrightarrow> length (seg lo hi a) = nat (hi - lo)"
  by (simp add: seg_def)

lemma set_seg:
  assumes "0 \<le> lo" "lo \<le> hi" "hi \<le> int (length a)"
  shows "set (seg lo hi a) = {a ! nat k | k. lo \<le> k \<and> k < hi}"
proof -
  have "set (seg lo hi a) = {seg lo hi a ! k | k. k < nat (hi - lo)}"
    using assms by (auto simp: set_conv_nth length_seg)
  also have "\<dots> = {a ! nat (lo + int k) | k. k < nat (hi - lo)}"
    using nth_seg [OF assms] by metis
  also have "\<dots> = {a ! nat k | k. lo \<le> k \<and> k < hi}" (is "?L = ?R")
  proof
    show "?L \<subseteq> ?R" using assms by force
    show "?R \<subseteq> ?L"
    proof
      fix x assume "x \<in> ?R"
      then obtain k where k: "x = a ! nat k" "lo \<le> k" "k < hi" by auto
      then have "x = a ! nat (lo + int (nat (k - lo))) \<and> nat (k - lo) < nat (hi - lo)" by simp
      then show "x \<in> ?L" by blast
    qed
  qed
  finally show ?thesis .
qed

lemma perm_in_take:
  assumes "perm_in lo hi a b" "0 \<le> lo" "lo \<le> int (length a)"
  shows "take (nat lo) b = take (nat lo) a"
proof (rule nth_equalityI)
  show "length (take (nat lo) b) = length (take (nat lo) a)"
    using assms by (simp add: perm_in_length)
  fix k assume "k < length (take (nat lo) b)"
  then have "k < nat lo" "int k < int (length a)" "int k < lo"
    using assms(1) by (auto simp: perm_in_length)
  then show "take (nat lo) b ! k = take (nat lo) a ! k"
    using perm_in_out [OF assms(1), of "int k"] by simp
qed

lemma perm_in_drop:
  assumes "perm_in lo hi a b" "0 \<le> hi" "hi \<le> int (length a)"
  shows "drop (nat hi) b = drop (nat hi) a"
proof (rule nth_equalityI)
  show "length (drop (nat hi) b) = length (drop (nat hi) a)"
    using assms by (simp add: perm_in_length)
  fix k assume "k < length (drop (nat hi) b)"
  then have "nat hi + k < length a" using assms(1) by (auto simp: perm_in_length)
  then show "drop (nat hi) b ! k = drop (nat hi) a ! k"
    using perm_in_out [OF assms(1), of "int (nat hi + k)"] assms perm_in_length [OF assms(1)]
    by (simp add: nat_add_distrib)
qed

lemma perm_in_seg:
  assumes "perm_in lo hi a b" "0 \<le> lo" "lo \<le> hi" "hi \<le> int (length a)"
  shows "mset (seg lo hi b) = mset (seg lo hi a)"
proof -
  have l: "length b = length a" and m: "mset b = mset a"
    using assms(1) by (auto simp: perm_in_def)
  have "mset b = mset (take (nat lo) b) + mset (seg lo hi b) + mset (drop (nat hi) b)"
    by (subst seg_split [of lo hi b]) (use assms l in auto)
  moreover have "mset a = mset (take (nat lo) a) + mset (seg lo hi a) + mset (drop (nat hi) a)"
    by (subst seg_split [of lo hi a]) (use assms in auto)
  moreover have "take (nat lo) b = take (nat lo) a" and "drop (nat hi) b = drop (nat hi) a"
    using assms by (simp_all add: perm_in_take [of lo hi] perm_in_drop [of lo hi])
  ultimately show ?thesis using m by simp
qed

lemma seg_append:
  assumes "0 \<le> lo" "lo \<le> mid" "mid \<le> hi"
  shows "seg lo mid a @ seg mid hi a = seg lo hi a"
proof -
  have "nat (hi - lo) = nat (mid - lo) + nat (hi - mid)" "nat mid = nat (mid - lo) + nat lo"
    using assms by auto
  then show ?thesis by (simp add: seg_def take_add)
qed

lemma seg_empty [simp]: "hi \<le> lo \<Longrightarrow> seg lo hi a = []"
  by (simp add: seg_def)

lemma seg_Cons:
  assumes "0 \<le> lo" "lo < hi" "hi \<le> int (length a)"
  shows "seg lo hi a = a ! nat lo # seg (lo + 1) hi a"
proof -
  have "nat lo < length a" "nat (lo + 1) = Suc (nat lo)" "nat (hi - lo) = Suc (nat (hi - (lo + 1)))"
    using assms by auto
  then show ?thesis by (simp add: seg_def Cons_nth_drop_Suc [symmetric])
qed

lemma perm_in_segI:
  assumes "length b = length a" "0 \<le> lo" "lo \<le> hi" "hi \<le> int (length a)"
    and out: "\<And>k. 0 \<le> k \<Longrightarrow> k < int (length a) \<Longrightarrow> k < lo \<or> hi \<le> k \<Longrightarrow> b ! nat k = a ! nat k"
    and "mset (seg lo hi b) = mset (seg lo hi a)"
  shows "perm_in lo hi a b"
proof -
  have "take (nat lo) b = take (nat lo) a"
  proof (intro nth_equalityI)
    fix k assume "k < length (take (nat lo) b)"
    then have "int k < int (length a)" "int k < lo" using assms(1) by auto
    then show "take (nat lo) b ! k = take (nat lo) a ! k" using out [of "int k"] by simp
  qed (use assms(1) in simp)
  moreover have "drop (nat hi) b = drop (nat hi) a"
  proof (intro nth_equalityI)
    fix k assume "k < length (drop (nat hi) b)"
    then have "int (nat hi + k) < int (length a)" unfolding assms(1) [symmetric] by (simp, linarith)
    then show "drop (nat hi) b ! k = drop (nat hi) a ! k"
      using out [of "int (nat hi + k)"] assms(1,2,3) by (simp add: nat_add_distrib)
  qed (use assms(1) in simp)
  moreover have "mset b = mset (take (nat lo) b) + mset (seg lo hi b) + mset (drop (nat hi) b)"
    by (subst seg_split [of lo hi b]) (use assms in auto)
  moreover have "mset a = mset (take (nat lo) a) + mset (seg lo hi a) + mset (drop (nat hi) a)"
    by (subst seg_split [of lo hi a]) (use assms in auto)
  ultimately have "mset b = mset a" using assms(6) by simp
  then show ?thesis using assms(1) out by (simp add: perm_in_def)
qed

text \<open>What holds of every element of the segment before holds of every one after.\<close>

lemma perm_in_all:
  assumes "perm_in lo hi a b" "0 \<le> lo" "hi \<le> int (length a)"
    and "\<And>k. lo \<le> k \<Longrightarrow> k < hi \<Longrightarrow> P (a ! nat k)" and "lo \<le> k" "k < hi"
  shows "P (b ! nat k)"
proof -
  have r: "lo \<le> hi" using assms(5,6) by simp
  have "set (seg lo hi b) = set (seg lo hi a)"
    using perm_in_seg [OF assms(1,2) r assms(3)] by (metis set_mset_mset)
  moreover have "b ! nat k \<in> set (seg lo hi b)"
    using assms r by (auto simp: set_seg perm_in_length)
  ultimately have "b ! nat k \<in> {a ! nat j | j. lo \<le> j \<and> j < hi}"
    using set_seg [OF assms(2) r assms(3)] by simp
  then show ?thesis using assms(4) by auto
qed

section \<open>Sorted segments\<close>

definition seg_sorted :: "int list \<Rightarrow> int \<Rightarrow> int \<Rightarrow> bool" where
  "seg_sorted a lo hi \<longleftrightarrow>
     (\<forall>i j. lo \<le> i \<longrightarrow> i \<le> j \<longrightarrow> j < hi \<longrightarrow> a ! nat i \<le> a ! nat j)"

lemma seg_sortedD: "seg_sorted a lo hi \<Longrightarrow> lo \<le> i \<Longrightarrow> i \<le> j \<Longrightarrow> j < hi \<Longrightarrow> a ! nat i \<le> a ! nat j"
  by (simp add: seg_sorted_def)

lemma seg_sorted_trivial [simp]:
  assumes "hi \<le> lo + 1"
  shows "seg_sorted a lo hi"
  unfolding seg_sorted_def
proof (intro allI impI)
  fix i j assume "lo \<le> i" "i \<le> j" "j < hi"
  then have "i = j" using assms by simp
  then show "a ! nat i \<le> a ! nat j" by simp
qed

lemma seg_sorted_iff:
  assumes "0 \<le> lo" "hi \<le> int (length a)"
  shows "seg_sorted a lo hi \<longleftrightarrow> sorted (seg lo hi a)"
proof (cases "lo \<le> hi")
  case True
  note n = nth_seg [OF assms(1) True assms(2)] length_seg [OF assms(1) True assms(2)]
  show ?thesis
  proof
    assume s: "seg_sorted a lo hi"
    show "sorted (seg lo hi a)"
      unfolding sorted_iff_nth_mono
    proof (intro allI impI)
      fix i j assume "i \<le> j" "j < length (seg lo hi a)"
      then show "seg lo hi a ! i \<le> seg lo hi a ! j"
        using seg_sortedD [OF s, of "lo + int i" "lo + int j"] n True by simp
    qed
  next
    assume s: "sorted (seg lo hi a)"
    show "seg_sorted a lo hi"
      unfolding seg_sorted_def
    proof (intro allI impI)
      fix i j assume "lo \<le> i" "i \<le> j" "j < hi"
      then show "a ! nat i \<le> a ! nat j"
        using sorted_nth_mono [OF s, of "nat (i - lo)" "nat (j - lo)"] n(1) [of "nat (i - lo)"]
          n(1) [of "nat (j - lo)"] n(2) by simp
    qed
  qed
qed simp

lemma seg_sorted_take:
  assumes "seg_sorted a 0 n" "0 \<le> n" "n \<le> int (length a)"
  shows "sorted (take (nat n) a)"
  unfolding sorted_iff_nth_mono
proof (intro allI impI)
  fix i j assume "i \<le> j" "j < length (take (nat n) a)"
  then show "take (nat n) a ! i \<le> take (nat n) a ! j"
    using assms seg_sortedD [OF assms(1), of "int i" "int j"] by simp
qed

text \<open>From position \<open>k\<close> on, every cell below \<open>n\<close> is at least everything before it.\<close>

definition tail_ok :: "int list \<Rightarrow> int \<Rightarrow> int \<Rightarrow> bool" where
  "tail_ok a k n \<longleftrightarrow> (\<forall>i j. 0 \<le> i \<longrightarrow> i \<le> j \<longrightarrow> k \<le> j \<longrightarrow> j < n \<longrightarrow> a ! nat i \<le> a ! nat j)"

lemma tail_okD: "tail_ok a k n \<Longrightarrow> 0 \<le> i \<Longrightarrow> i \<le> j \<Longrightarrow> k \<le> j \<Longrightarrow> j < n \<Longrightarrow> a ! nat i \<le> a ! nat j"
  by (simp add: tail_ok_def)

lemma tail_ok_empty: "n \<le> k \<Longrightarrow> tail_ok a k n"
  by (auto simp: tail_ok_def)

lemma tail_ok_sorted: "tail_ok a k n \<Longrightarrow> k \<le> 1 \<Longrightarrow> seg_sorted a 0 n"
  unfolding seg_sorted_def
proof (intro allI impI)
  fix i j assume t: "tail_ok a k n" "k \<le> 1" and ij: "0 \<le> i" "i \<le> j" "j < n"
  show "a ! nat i \<le> a ! nat j"
  proof (cases "j = 0")
    case True
    then show ?thesis using ij by simp
  next
    case False
    then show ?thesis using tail_okD [OF t(1) ij(1,2) _ ij(3)] t(2) ij by simp
  qed
qed

text \<open>A permutation of the first \<open>k\<close> cells keeps the ordered suffix, and may extend it.\<close>

lemma tail_ok_extend:
  assumes "tail_ok a k n" "perm_in 0 k a b" "tail_ok b g k" "k \<le> n" "n \<le> int (length a)"
    "0 \<le> g" "g \<le> k"
  shows "tail_ok b g n"
  unfolding tail_ok_def
proof (intro allI impI)
  fix i j assume ij: "0 \<le> i" "i \<le> j" "g \<le> j" "j < n"
  show "b ! nat i \<le> b ! nat j"
  proof (cases "j < k")
    case True
    then show ?thesis using tail_okD [OF assms(3), of i j] ij by simp
  next
    case False
    have bj: "b ! nat j = a ! nat j" using perm_in_out [OF assms(2), of j] ij assms False by simp
    show ?thesis
    proof (cases "i < k")
      case True
      have "b ! nat i \<le> a ! nat j"
        by (rule perm_in_all [OF assms(2)])
          (use True False ij assms tail_okD [OF assms(1)] in auto)
      then show ?thesis using bj by simp
    next
      case ge: False
      have "b ! nat i = a ! nat i" using perm_in_out [OF assms(2), of i] ij assms ge by simp
      then show ?thesis using bj tail_okD [OF assms(1) ij(1,2) _ ij(4)] False by simp
    qed
  qed
qed

section \<open>The contract of the sorting routines\<close>

text \<open>
  Every routine \<open>f(int a[], int n)\<close> of \<open>c++/algos/sort\<close> promises: for an array of at
  least \<open>n\<close> cells it returns without touching a cell outside the array, the first \<open>n\<close> cells
  are then sorted, and the array is a permutation that leaves the cells from \<open>n\<close> on alone.
\<close>

locale array_sorter =
  fixes srt :: "int list \<Rightarrow> int \<Rightarrow> int list option"
  assumes sorts: "0 \<le> n \<Longrightarrow> n \<le> int (length a) \<Longrightarrow>
    \<exists>b. srt a n = Some b \<and> seg_sorted b 0 n \<and> perm_in 0 n a b"
begin

lemma prefix:
  assumes "n \<le> length a"
  shows "srt a (int n) = Some (sort (take n a) @ drop n a)"
proof -
  obtain b where b: "srt a (int n) = Some b" "seg_sorted b 0 (int n)" "perm_in 0 (int n) a b"
    using sorts [of "int n" a] assms by auto
  have l: "length b = length a" using b(3) by (rule perm_in_length)
  have "mset (take n b) = mset (take n a)"
    using perm_in_seg [OF b(3)] assms by (simp add: seg_def)
  moreover have "sorted (take n b)" using seg_sorted_take [OF b(2)] assms l by simp
  ultimately have "sort (take n a) = take n b" by (intro properties_for_sort) auto
  moreover have "drop n b = drop n a" using perm_in_drop [OF b(3)] assms by simp
  ultimately show ?thesis using b(1) by (metis append_take_drop_id)
qed

lemma whole: "srt a (int (length a)) = Some (sort a)"
  using prefix [of "length a" a] by simp

lemma idempotent:
  "n \<le> length a \<Longrightarrow> srt a (int n) = Some b \<Longrightarrow> srt b (int n) = Some b"
  using prefix [of n a] prefix [of n b] by (auto simp: sorted_sort_id)

end

text \<open>Two routines under the contract compute the same array.\<close>

lemma array_sorters_agree:
  assumes "array_sorter f" "array_sorter g" "n \<le> length a"
  shows "f a (int n) = g a (int n)"
  using array_sorter.prefix [OF assms(1,3)] array_sorter.prefix [OF assms(2,3)] by simp

end
