(* ===== verification/Bubble_Select.thy ===== *)
theory Bubble_Select
  imports Prelude
begin

text \<open>
  \<open>c++/algos/sort/bubbleSort.cpp\<close> and \<open>c++/algos/sort/selectSort.cpp\<close>: the two bubble sorts
  (stop after a pass without a swap; remember the place of the last swap) and the selection
  sort.  Each loop of the source is one recursive function over the loop variables; the
  arrays are read and written through \<open>rd\<close>, \<open>wr\<close> and \<open>Swap\<close>, so a result
  \<open>Some b\<close> also says that no access left the array.
\<close>

section \<open>Definitions\<close>

text \<open>\<open>for (j = 1; j < k; j++) if (a[j - 1] > a[j]) { Swap(a[j - 1], a[j]); flag = true; }\<close>\<close>

function bubble_pass :: "int list \<Rightarrow> int \<Rightarrow> int \<Rightarrow> bool \<Rightarrow> (int list \<times> bool) option" where
  "bubble_pass a j k flag =
     (if j < k then do {
        x \<leftarrow> rd a (j - 1);
        y \<leftarrow> rd a j;
        if x > y then do { b \<leftarrow> Swap a (j - 1) j; bubble_pass b (j + 1) k True }
        else bubble_pass a (j + 1) k flag }
      else Some (a, flag))"
  by pat_completeness auto
termination by (relation "measure (\<lambda>(a, j, k, flag). nat (k - j))") auto

declare bubble_pass.simps [simp del]

lemma bubble_pass_done [simp]: "k \<le> j \<Longrightarrow> bubble_pass a j k flag = Some (a, flag)"
  by (simp add: bubble_pass.simps)

text \<open>\<open>while (flag) { flag = false; ... k--; }\<close>\<close>

function bubble_loop :: "int list \<Rightarrow> int \<Rightarrow> bool \<Rightarrow> int list option" where
  "bubble_loop a k flag =
     (if flag then do {
        (b, f) \<leftarrow> bubble_pass a 1 k False;
        bubble_loop b (k - 1) f }
      else Some a)"
  by pat_completeness auto
termination
  by (relation "measure (\<lambda>(a, k, flag). if flag then nat k + 1 else 0)")
    (auto intro: ccontr)

declare bubble_loop.simps [simp del]

lemma bubble_loop_done [simp]: "bubble_loop a k False = Some a"
  by (simp add: bubble_loop.simps)

definition BubbleSort :: "int list \<Rightarrow> int \<Rightarrow> int list option" where
  "BubbleSort a n = bubble_loop a n True"

text \<open>The second version: \<open>flag = j\<close> remembers the last swap, the next pass ends there.\<close>

function bubble_pass2 :: "int list \<Rightarrow> int \<Rightarrow> int \<Rightarrow> int \<Rightarrow> (int list \<times> int) option" where
  "bubble_pass2 a j k flag =
     (if j < k then do {
        x \<leftarrow> rd a (j - 1);
        y \<leftarrow> rd a j;
        if x > y then do { b \<leftarrow> Swap a (j - 1) j; bubble_pass2 b (j + 1) k j }
        else bubble_pass2 a (j + 1) k flag }
      else Some (a, flag))"
  by pat_completeness auto
termination by (relation "measure (\<lambda>(a, j, k, flag). nat (k - j))") auto

declare bubble_pass2.simps [simp del]

lemma bubble_pass2_done [simp]: "k \<le> j \<Longrightarrow> bubble_pass2 a j k flag = Some (a, flag)"
  by (simp add: bubble_pass2.simps)

lemma bubble_pass2_less:
  "bubble_pass2 a j k flag = Some (b, f) \<Longrightarrow> flag < k \<Longrightarrow> f < k"
  by (induction a j k flag rule: bubble_pass2.induct)
    (subst (asm) (3) bubble_pass2.simps, auto split: if_splits Option.bind_splits)

function bubble_loop2 :: "int list \<Rightarrow> int \<Rightarrow> int list option" where
  "bubble_loop2 a flag =
     (if flag > 0 then do {
        (b, f) \<leftarrow> bubble_pass2 a 1 flag 0;
        bubble_loop2 b f }
      else Some a)"
  by pat_completeness auto
termination
  by (relation "measure (\<lambda>(a, flag). nat flag)") (auto dest: bubble_pass2_less)

declare bubble_loop2.simps [simp del]

lemma bubble_loop2_done [simp]: "flag \<le> 0 \<Longrightarrow> bubble_loop2 a flag = Some a"
  by (simp add: bubble_loop2.simps)

definition BubbleSort2 :: "int list \<Rightarrow> int \<Rightarrow> int list option" where
  "BubbleSort2 a n = bubble_loop2 a n"

text \<open>Selection sort: \<open>for (j = i + 1; j < n; j++) if (a[j] < a[nMinIndex]) nMinIndex = j;\<close>\<close>

function find_min :: "int list \<Rightarrow> int \<Rightarrow> int \<Rightarrow> int \<Rightarrow> int option" where
  "find_min a j n nMinIndex =
     (if j < n then do {
        x \<leftarrow> rd a j;
        y \<leftarrow> rd a nMinIndex;
        find_min a (j + 1) n (if x < y then j else nMinIndex) }
      else Some nMinIndex)"
  by pat_completeness auto
termination by (relation "measure (\<lambda>(a, j, n, m). nat (n - j))") auto

declare find_min.simps [simp del]

lemma find_min_done [simp]: "n \<le> j \<Longrightarrow> find_min a j n m = Some m"
  by (simp add: find_min.simps)

function select_loop :: "int list \<Rightarrow> int \<Rightarrow> int \<Rightarrow> int list option" where
  "select_loop a i n =
     (if i < n then do {
        m \<leftarrow> find_min a (i + 1) n i;
        b \<leftarrow> Swap a i m;
        select_loop b (i + 1) n }
      else Some a)"
  by pat_completeness auto
termination by (relation "measure (\<lambda>(a, i, n). nat (n - i))") auto

declare select_loop.simps [simp del]

lemma select_loop_done [simp]: "n \<le> i \<Longrightarrow> select_loop a i n = Some a"
  by (simp add: select_loop.simps)

definition Selectsort :: "int list \<Rightarrow> int \<Rightarrow> int list option" where
  "Selectsort a n = select_loop a 0 n"

section \<open>Bubble sort\<close>

text \<open>
  One step of a pass: the next cell joins the suffix that begins at the last swap \<open>f\<close>, and
  cell \<open>j\<close> then holds the maximum of the first \<open>j + 1\<close>.
\<close>

lemma pass_step_keep:
  assumes "tail_ok a f j" "f < j" "1 \<le> j" "a ! nat (j - 1) \<le> a ! nat j"
  shows "tail_ok a f (j + 1)"
  unfolding tail_ok_def
proof (intro allI impI)
  fix i k assume ik: "0 \<le> i" "i \<le> k" "f \<le> k" "k < j + 1"
  show "a ! nat i \<le> a ! nat k"
  proof (cases "k = j \<and> i < j")
    case True
    have "a ! nat i \<le> a ! nat (j - 1)"
      using tail_okD [OF assms(1), of i "j - 1"] assms(2) ik True by simp
    then show ?thesis using assms(4) True by simp
  next
    case False
    show ?thesis
    proof (cases "k = j")
      case True
      then show ?thesis using False ik by simp
    next
      case False
      then show ?thesis using tail_okD [OF assms(1), of i k] ik by simp
    qed
  qed
qed

lemma pass_step_swap:
  assumes "tail_ok a f j" "f < j" "1 \<le> j" "j < int (length a)" "a ! nat j < a ! nat (j - 1)"
  shows "tail_ok (swp a (j - 1) j) j (j + 1)"
  unfolding tail_ok_def
proof (intro allI impI)
  fix i k assume ik: "0 \<le> i" "i \<le> k" "j \<le> k" "k < j + 1"
  then have k: "k = j" by simp
  have "i < j \<Longrightarrow> a ! nat i \<le> a ! nat (j - 1)"
    using tail_okD [OF assms(1), of i "j - 1"] assms(2) ik by simp
  then show "swp a (j - 1) j ! nat i \<le> swp a (j - 1) j ! nat k"
    using assms ik by (auto simp: k arr)
qed

lemma bubble_pass2_spec:
  "1 \<le> j \<Longrightarrow> k \<le> int (length a) \<Longrightarrow> tail_ok a f j \<Longrightarrow> 0 \<le> f \<Longrightarrow> f < j \<Longrightarrow> j \<le> k \<Longrightarrow>
   \<exists>b g. bubble_pass2 a j k f = Some (b, g) \<and> perm_in 0 k a b \<and> tail_ok b g k \<and> 0 \<le> g \<and> g < k"
proof (induction a j k f rule: bubble_pass2.induct)
  case (1 a j k f)
  note prems = "1.prems"
  show ?case
  proof (cases "j < k")
    case False
    then have "j = k" using prems by simp
    then show ?thesis using prems by auto
  next
    case True
    have r: "rd a (j - 1) = Some (a ! nat (j - 1))" "rd a j = Some (a ! nat j)"
      "Swap a (j - 1) j = Some (swp a (j - 1) j)"
      using True prems by (simp_all add: arr)
    show ?thesis
    proof (cases "a ! nat (j - 1) > a ! nat j")
      case gt: True
      have p: "perm_in 0 k a (swp a (j - 1) j)"
        using True prems by (intro perm_in_swp) auto
      have "tail_ok (swp a (j - 1) j) j (j + 1)"
        using True prems gt by (intro pass_step_swap) auto
      then obtain b g where "bubble_pass2 (swp a (j - 1) j) (j + 1) k j = Some (b, g)"
          "perm_in 0 k (swp a (j - 1) j) b" "tail_ok b g k" "0 \<le> g" "g < k"
        using "1.IH"(1) [OF True r(1,2) gt r(3)] True prems by auto
      then show ?thesis using True r gt p
        by (auto simp: bubble_pass2.simps [of a j k f] intro: perm_in_trans)
    next
      case le: False
      have "tail_ok a f (j + 1)" using prems le by (intro pass_step_keep) auto
      then show ?thesis
        using "1.IH"(2) [OF True r(1,2) le] True prems r le
        by (auto simp: bubble_pass2.simps [of a j k f])
    qed
  qed
qed

lemma bubble_loop2_spec:
  "0 \<le> f \<Longrightarrow> f \<le> n \<Longrightarrow> n \<le> int (length a) \<Longrightarrow> tail_ok a f n \<Longrightarrow>
   \<exists>b. bubble_loop2 a f = Some b \<and> seg_sorted b 0 n \<and> perm_in 0 n a b"
proof (induction a f rule: bubble_loop2.induct)
  case (1 a f)
  note prems = "1.prems"
  show ?case
  proof (cases "f > 0")
    case False
    then show ?thesis using prems tail_ok_sorted [OF prems(4)]
      by auto
  next
    case True
    have "tail_ok a 0 1" by (auto simp: tail_ok_def)
    then obtain b g where b: "bubble_pass2 a 1 f 0 = Some (b, g)" "perm_in 0 f a b"
        "tail_ok b g f" "0 \<le> g" "g < f"
      using bubble_pass2_spec [of 1 f a 0] True prems by auto
    have "tail_ok b g n" using tail_ok_extend [OF prems(4) b(2,3)] prems b by simp
    moreover have "perm_in 0 n a b" using perm_in_mono [OF b(2), of 0 n] prems by simp
    ultimately show ?thesis
      using "1.IH" [OF True b(1) refl] prems b True
      by (auto simp: bubble_loop2.simps [of a f] perm_in_length intro: perm_in_trans)
  qed
qed

text \<open>
  The first version is the second with the position of the last swap forgotten: its flag is
  \<open>true\<close> exactly if that position is not 0.
\<close>

lemma bubble_pass_pass2:
  "1 \<le> j \<Longrightarrow> 0 \<le> f \<Longrightarrow>
   bubble_pass a j k (f \<noteq> 0) = map_option (\<lambda>(b, g). (b, g \<noteq> 0)) (bubble_pass2 a j k f)"
proof (induction a j k f rule: bubble_pass2.induct)
  case (1 a j k f)
  show ?case
    using "1.IH" "1.prems"
    by (subst bubble_pass.simps, subst bubble_pass2.simps)
      (auto simp: map_option_case split: Option.bind_splits if_splits)
qed

lemma bubble_loop_spec:
  "0 \<le> k \<Longrightarrow> k \<le> n \<Longrightarrow> n \<le> int (length a) \<Longrightarrow> tail_ok a k n \<Longrightarrow> flag \<or> seg_sorted a 0 n \<Longrightarrow>
   \<exists>b. bubble_loop a k flag = Some b \<and> seg_sorted b 0 n \<and> perm_in 0 n a b"
proof (induction a k flag rule: bubble_loop.induct)
  case (1 a k flag)
  note prems = "1.prems"
  show ?case
  proof (cases "flag \<and> k > 0")
    case False
    then have "flag \<Longrightarrow> seg_sorted a 0 n \<and> k = 0" using tail_ok_sorted prems by auto
    then show ?thesis using prems
      by (cases flag) (auto simp: bubble_loop.simps [of a 0 True])
  next
    case True
    have "tail_ok a 0 1" by (auto simp: tail_ok_def)
    then obtain b g where b: "bubble_pass2 a 1 k 0 = Some (b, g)" "perm_in 0 k a b"
        "tail_ok b g k" "0 \<le> g" "g < k"
      using bubble_pass2_spec [of 1 k a 0] True prems by auto
    have pass: "bubble_pass a 1 k False = Some (b, g \<noteq> 0)"
      using bubble_pass_pass2 [of 1 0 a k] b(1) by simp
    have t: "tail_ok b g n" using tail_ok_extend [OF prems(4) b(2,3)] prems b by simp
    have "tail_ok b (k - 1) n" using t b(5) by (auto simp: tail_ok_def)
    moreover have "perm_in 0 n a b" using perm_in_mono [OF b(2), of 0 n] prems by simp
    moreover have "g \<noteq> 0 \<or> seg_sorted b 0 n" using tail_ok_sorted [OF t] by auto
    ultimately obtain c where "bubble_loop b (k - 1) (g \<noteq> 0) = Some c" "seg_sorted c 0 n"
        "perm_in 0 n a c"
      using "1.IH" [OF _ pass refl] prems True by (auto simp: perm_in_length intro: perm_in_trans)
    moreover have "bubble_loop a k flag = bubble_loop b (k - 1) (g \<noteq> 0)"
      using True pass by (simp add: bubble_loop.simps [of a k True])
    ultimately show ?thesis by simp
  qed
qed

interpretation bubble: array_sorter BubbleSort
  by unfold_locales (auto simp: BubbleSort_def intro: bubble_loop_spec tail_ok_empty)

interpretation bubble2: array_sorter BubbleSort2
  by unfold_locales (auto simp: BubbleSort2_def intro: bubble_loop2_spec tail_ok_empty)

section \<open>Selection sort\<close>

lemma find_min_spec:
  "0 \<le> m \<Longrightarrow> m < j \<Longrightarrow> lo \<le> m \<Longrightarrow> j \<le> n \<Longrightarrow> n \<le> int (length a) \<Longrightarrow>
   (\<And>k. lo \<le> k \<Longrightarrow> k < j \<Longrightarrow> a ! nat m \<le> a ! nat k) \<Longrightarrow>
   \<exists>p. find_min a j n m = Some p \<and> lo \<le> p \<and> p < n \<and>
       (\<forall>k. lo \<le> k \<longrightarrow> k < n \<longrightarrow> a ! nat p \<le> a ! nat k)"
proof (induction a j n m rule: find_min.induct)
  case (1 a j n m)
  note prems = "1.prems"
  show ?case
  proof (cases "j < n")
    case False
    then show ?thesis using prems by auto
  next
    case True
    let ?m = "if a ! nat j < a ! nat m then j else m"
    have r: "rd a j = Some (a ! nat j)" "rd a m = Some (a ! nat m)"
      using True prems by (simp_all add: arr)
    have le: "a ! nat ?m \<le> a ! nat k" if "lo \<le> k" "k < j + 1" for k
    proof (cases "k = j")
      case True
      then show ?thesis by auto
    next
      case False
      then show ?thesis using prems(6) [of k] that by auto
    qed
    have "0 \<le> ?m" "?m < j + 1" "lo \<le> ?m" "j + 1 \<le> n" using True prems by auto
    then obtain p where "find_min a (j + 1) n ?m = Some p \<and> lo \<le> p \<and> p < n \<and>
        (\<forall>k. lo \<le> k \<longrightarrow> k < n \<longrightarrow> a ! nat p \<le> a ! nat k)"
      using "1.IH" [OF True r] prems(5) le by blast
    then show ?thesis using True r by (simp add: find_min.simps [of a j n m])
  qed
qed

text \<open>The first \<open>i\<close> cells are sorted and at most everything after them.\<close>

definition head_ok :: "int list \<Rightarrow> int \<Rightarrow> int \<Rightarrow> bool" where
  "head_ok a i n \<longleftrightarrow> (\<forall>p q. 0 \<le> p \<longrightarrow> p < i \<longrightarrow> p \<le> q \<longrightarrow> q < n \<longrightarrow> a ! nat p \<le> a ! nat q)"

lemma head_okD: "head_ok a i n \<Longrightarrow> 0 \<le> p \<Longrightarrow> p < i \<Longrightarrow> p \<le> q \<Longrightarrow> q < n \<Longrightarrow> a ! nat p \<le> a ! nat q"
  by (simp add: head_ok_def)

lemma head_ok_step:
  assumes "head_ok a i n" "0 \<le> i" "i \<le> m" "m < n" "n \<le> int (length a)"
    "\<And>k. i \<le> k \<Longrightarrow> k < n \<Longrightarrow> a ! nat m \<le> a ! nat k"
  shows "head_ok (swp a i m) (i + 1) n"
  unfolding head_ok_def
proof (intro allI impI)
  fix p q assume pq: "0 \<le> p" "p < i + 1" "p \<le> q" "q < n"
  have h: "a ! nat p \<le> a ! nat k" if "p < i" "p \<le> k" "k < n" for k
    using head_okD [OF assms(1)] pq that by blast
  have "a ! nat m \<le> a ! nat i" "i \<le> q \<Longrightarrow> a ! nat m \<le> a ! nat q"
    using assms pq by auto
  then show "swp a i m ! nat p \<le> swp a i m ! nat q"
    using h [of i] h [of m] h [of q] assms pq by (auto simp: arr)
qed

lemma select_loop_spec:
  "0 \<le> i \<Longrightarrow> i \<le> n \<Longrightarrow> n \<le> int (length a) \<Longrightarrow> head_ok a i n \<Longrightarrow>
   \<exists>b. select_loop a i n = Some b \<and> seg_sorted b 0 n \<and> perm_in 0 n a b"
proof (induction a i n rule: select_loop.induct)
  case (1 a i n)
  note prems = "1.prems"
  show ?case
  proof (cases "i < n")
    case False
    then have "seg_sorted a 0 n" using prems by (auto simp: seg_sorted_def head_ok_def)
    then show ?thesis using False by auto
  next
    case True
    obtain m where m: "find_min a (i + 1) n i = Some m" "i \<le> m" "m < n"
        "\<And>k. i \<le> k \<Longrightarrow> k < n \<Longrightarrow> a ! nat m \<le> a ! nat k"
      using find_min_spec [of i "i + 1" i n a] True prems by force
    have s: "Swap a i m = Some (swp a i m)" using m prems True by (simp add: arr)
    have "perm_in 0 n a (swp a i m)" using m prems True by (intro perm_in_swp) auto
    moreover have "head_ok (swp a i m) (i + 1) n"
      by (rule head_ok_step) (use m prems in auto)
    ultimately show ?thesis
      using "1.IH" [OF True m(1) s] True prems m(1) s
      by (auto simp: select_loop.simps [of a i n] intro: perm_in_trans)
  qed
qed

interpretation select: array_sorter Selectsort
  by unfold_locales (auto simp: Selectsort_def head_ok_def intro: select_loop_spec)

section \<open>Properties\<close>

text \<open>Both bubble sorts (stop after a pass without a swap; shrink to the last swap) and the
  selection sort compute the same array, the sorted one, on the first \<open>n\<close> cells.\<close>

theorem bubble_select_correct:
  assumes "n \<le> length a"
  shows "BubbleSort a (int n) = Some (sort (take n a) @ drop n a) \<and>
    BubbleSort2 a (int n) = BubbleSort a (int n) \<and> Selectsort a (int n) = BubbleSort a (int n)"
  using assms by (simp only: bubble.prefix bubble2.prefix select.prefix simp_thms)

lemma bubble_select_correct_witness: "BubbleSort [3, 1, 2, 1] 3 = Some ([1, 2, 3] @ [1])"
  using bubble_select_correct [of 3 "[3, 1, 2, 1]"] by simp

end
