(* ===== verification/Insertion_Shell.thy ===== *)
theory Insertion_Shell
  imports Prelude
begin

text \<open>
  \<open>c++/algos/sort/insertSort.cpp\<close> (three insertion sorts) and \<open>c++/algos/sort/shellSort.cpp\<close>
  (three shell sorts).  The routines that shift cells with one element held in \<open>temp\<close> are
  reduced to the ones that swap (\<open>shell_shift_sink\<close>); sortedness is the work of the last
  pass alone, whose gap is 1.
\<close>

section \<open>Definitions: insertSort.cpp\<close>

text \<open>\<open>for (j = i - 1; j >= 0; j--) if (a[j] < a[i]) break;\<close> returns \<open>j\<close>.\<close>

function ins1_find :: "int list \<Rightarrow> int \<Rightarrow> int \<Rightarrow> int option" where
  "ins1_find a j i =
     (if 0 \<le> j then do {
        x \<leftarrow> rd a j;
        y \<leftarrow> rd a i;
        if x < y then Some j else ins1_find a (j - 1) i }
      else Some j)"
  by pat_completeness auto
termination by (relation "measure (\<lambda>(a, j, i). nat (j + 1))") auto

declare ins1_find.simps [simp del]

text \<open>\<open>for (k = i - 1; k > j; k--) a[k + 1] = a[k]; a[k + 1] = temp;\<close>\<close>

definition ins1_shift :: "int list \<Rightarrow> int \<Rightarrow> int \<Rightarrow> int list option" where
  "ins1_shift a i j = do {
     temp \<leftarrow> rd a i;
     b \<leftarrow> for_down (i - 1) (j + 1) (\<lambda>k b. do { x \<leftarrow> rd b k; wr b (k + 1) x }) a;
     wr b (j + 1) temp }"

definition Insertsort1 :: "int list \<Rightarrow> int \<Rightarrow> int list option" where
  "Insertsort1 a n = for_up 1 n (\<lambda>i a. do {
     j \<leftarrow> ins1_find a (i - 1) i;
     if j \<noteq> i - 1 then ins1_shift a i j else Some a }) a"

text \<open>\<open>for (j = i - 1; j >= 0 && a[j] > temp; j--) a[j + 1] = a[j]; a[j + 1] = temp;\<close>\<close>

function ins2_shift :: "int list \<Rightarrow> int \<Rightarrow> int \<Rightarrow> int list option" where
  "ins2_shift a j temp =
     (if 0 \<le> j then do {
        x \<leftarrow> rd a j;
        if x > temp then do { b \<leftarrow> wr a (j + 1) x; ins2_shift b (j - 1) temp }
        else wr a (j + 1) temp }
      else wr a (j + 1) temp)"
  by pat_completeness auto
termination by (relation "measure (\<lambda>(a, j, temp). nat (j + 1))") auto

declare ins2_shift.simps [simp del]

definition Insertsort2 :: "int list \<Rightarrow> int \<Rightarrow> int list option" where
  "Insertsort2 a n = for_up 1 n (\<lambda>i a. do {
     x \<leftarrow> rd a i;
     y \<leftarrow> rd a (i - 1);
     if x < y then do { temp \<leftarrow> rd a i; ins2_shift a (i - 1) temp } else Some a }) a"

text \<open>\<open>for (j = i - 1; j >= 0 && a[j] > a[j + 1]; j--) Swap(a[j], a[j + 1]);\<close>\<close>

function ins3_sink :: "int list \<Rightarrow> int \<Rightarrow> int list option" where
  "ins3_sink a j =
     (if 0 \<le> j then do {
        x \<leftarrow> rd a j;
        y \<leftarrow> rd a (j + 1);
        if x > y then do { b \<leftarrow> Swap a j (j + 1); ins3_sink b (j - 1) } else Some a }
      else Some a)"
  by pat_completeness auto
termination by (relation "measure (\<lambda>(a, j). nat (j + 1))") auto

declare ins3_sink.simps [simp del]

definition Insertsort3 :: "int list \<Rightarrow> int \<Rightarrow> int list option" where
  "Insertsort3 a n = for_up 1 n (\<lambda>i a. ins3_sink a (i - 1)) a"

section \<open>Definitions: shellSort.cpp\<close>

text \<open>
  \<open>while (k >= 0 && a[k] > temp) { a[k + gap] = a[k]; k -= gap; } a[k + gap] = temp;\<close> and
  \<open>for (j = i - gap; j >= 0 && a[j] > a[j + gap]; j -= gap) Swap(a[j], a[j + gap]);\<close>.
  Both loops end because \<open>gap > 0\<close>, which is the condition of the enclosing loop.
\<close>

function shell_shift :: "int list \<Rightarrow> int \<Rightarrow> int \<Rightarrow> int \<Rightarrow> int list option" where
  "shell_shift a k gap temp =
     (if 0 \<le> k \<and> 0 < gap then do {
        x \<leftarrow> rd a k;
        if x > temp then do { b \<leftarrow> wr a (k + gap) x; shell_shift b (k - gap) gap temp }
        else wr a (k + gap) temp }
      else wr a (k + gap) temp)"
  by pat_completeness auto
termination by (relation "measure (\<lambda>(a, k, gap, temp). nat (k + 1))") auto

function shell_sink :: "int list \<Rightarrow> int \<Rightarrow> int \<Rightarrow> int list option" where
  "shell_sink a j gap =
     (if 0 \<le> j \<and> 0 < gap then do {
        x \<leftarrow> rd a j;
        y \<leftarrow> rd a (j + gap);
        if x > y then do { b \<leftarrow> Swap a j (j + gap); shell_sink b (j - gap) gap } else Some a }
      else Some a)"
  by pat_completeness auto
termination by (relation "measure (\<lambda>(a, j, gap). nat (j + 1))") auto

declare shell_shift.simps [simp del] shell_sink.simps [simp del]

text \<open>\<open>if (a[j] < a[j - gap]) { int temp = a[j]; int k = j - gap; while ... }\<close>\<close>

definition shell_insert :: "int \<Rightarrow> int \<Rightarrow> int list \<Rightarrow> int list option" where
  "shell_insert gap j a = do {
     x \<leftarrow> rd a j;
     y \<leftarrow> rd a (j - gap);
     if x < y then do { temp \<leftarrow> rd a j; shell_shift a (j - gap) gap temp } else Some a }"

text \<open>\<open>for (gap = n / 2; gap > 0; gap /= 2) body\<close>\<close>

function gap_loop :: "int \<Rightarrow> (int \<Rightarrow> int list \<Rightarrow> int list option) \<Rightarrow> int list \<Rightarrow> int list option" where
  "gap_loop gap body a =
     (if 0 < gap then do { b \<leftarrow> body gap a; gap_loop (gap div 2) body b } else Some a)"
  by pat_completeness auto
termination by (relation "measure (\<lambda>(gap, body, a). nat gap)") auto

declare gap_loop.simps [simp del]

lemma gap_loop_done [simp]: "gap \<le> 0 \<Longrightarrow> gap_loop gap body a = Some a"
  by (simp add: gap_loop.simps)

definition shellsort1 :: "int list \<Rightarrow> int \<Rightarrow> int list option" where
  "shellsort1 a n = gap_loop (n div 2) (\<lambda>gap.
     for_up 0 gap (\<lambda>i. for_by (i + gap) n gap (shell_insert gap))) a"

definition shellsort2 :: "int list \<Rightarrow> int \<Rightarrow> int list option" where
  "shellsort2 a n = gap_loop (n div 2) (\<lambda>gap. for_up gap n (shell_insert gap)) a"

definition shellsort3 :: "int list \<Rightarrow> int \<Rightarrow> int list option" where
  "shellsort3 a n = gap_loop (n div 2) (\<lambda>gap.
     for_up gap n (\<lambda>i a. shell_sink a (i - gap) gap)) a"

section \<open>Shifting with a temporary is swapping\<close>

lemma shell_shift_sink:
  "0 < gap \<Longrightarrow> 0 \<le> k + gap \<Longrightarrow> k + gap < int (length a) \<Longrightarrow>
   shell_shift a k gap t = shell_sink (a[nat (k + gap) := t]) k gap"
proof (induction a k gap t rule: shell_shift.induct)
  case (1 a k gap t)
  note prems = "1.prems"
  let ?b = "a[nat (k + gap) := a ! nat k]" and ?v = "a[nat (k + gap) := t]"
  show ?case
  proof (cases "0 \<le> k")
    case False
    then show ?thesis using prems
      by (simp add: shell_shift.simps [of a k gap t] shell_sink.simps [of ?v k gap] arr)
  next
    case True
    have r: "rd a k = Some (a ! nat k)" "rd ?v k = Some (a ! nat k)" "rd ?v (k + gap) = Some t"
      "wr a (k + gap) (a ! nat k) = Some ?b" "wr a (k + gap) t = Some ?v"
      "Swap ?v k (k + gap) = Some (swp ?v k (k + gap))"
      using True prems by (simp_all add: arr)
    have "?b[nat k := t] = swp ?v k (k + gap)"
      using hole_move [of "k + gap" a k t] True prems by (simp add: swp_commute)
    then have "shell_shift ?b (k - gap) gap t = shell_sink (swp ?v k (k + gap)) (k - gap) gap"
      if "a ! nat k > t"
      using "1.IH" [OF _ r(1) that r(4)] True prems by simp
    then show ?thesis using True prems r
      by (simp add: shell_shift.simps [of a k gap t] shell_sink.simps [of ?v k gap])
  qed
qed

lemma shell_insert_sink:
  assumes "0 < gap" "gap \<le> j" "j < int (length a)"
  shows "shell_insert gap j a = shell_sink a (j - gap) gap"
proof -
  have r: "rd a j = Some (a ! nat j)" "rd a (j - gap) = Some (a ! nat (j - gap))"
    using assms by (simp_all add: arr)
  show ?thesis
  proof (cases "a ! nat j < a ! nat (j - gap)")
    case True
    then show ?thesis using assms r by (simp add: shell_insert_def shell_shift_sink)
  next
    case False
    then show ?thesis using assms r
      by (simp add: shell_insert_def shell_sink.simps [of a "j - gap" gap])
  qed
qed

lemma ins2_shift_shell: "ins2_shift a j t = shell_shift a j 1 t"
  by (induction a j t rule: ins2_shift.induct)
    (subst ins2_shift.simps, subst shell_shift.simps, auto intro!: Option.bind_cong [OF refl])

lemma ins2_shift_eq: "ins2_shift a j = shell_shift a j 1"
  by (rule ext) (rule ins2_shift_shell)

lemma ins3_sink_eq: "ins3_sink a j = shell_sink a j 1"
  by (induction a j rule: ins3_sink.induct)
    (subst ins3_sink.simps, subst shell_sink.simps, auto intro!: Option.bind_cong [OF refl])

section \<open>One element sinks to its place\<close>

text \<open>
  The first \<open>i + 1\<close> cells are sorted but for cell \<open>h\<close>, whose element is at most everything
  right of it.
\<close>

definition hole_sorted :: "int list \<Rightarrow> int \<Rightarrow> int \<Rightarrow> bool" where
  "hole_sorted a h i \<longleftrightarrow>
     (\<forall>p q. 0 \<le> p \<longrightarrow> p \<le> q \<longrightarrow> q \<le> i \<longrightarrow> p \<noteq> h \<longrightarrow> q \<noteq> h \<longrightarrow> a ! nat p \<le> a ! nat q) \<and>
     (\<forall>q. h < q \<longrightarrow> q \<le> i \<longrightarrow> a ! nat h \<le> a ! nat q)"

lemma hole_sorted_start: "seg_sorted a 0 i \<Longrightarrow> hole_sorted a i i"
  by (auto simp: hole_sorted_def seg_sorted_def)

lemma hole_sorted_end:
  assumes "hole_sorted a h i" "0 \<le> h" "h \<le> i" "h = 0 \<or> a ! nat (h - 1) \<le> a ! nat h"
  shows "seg_sorted a 0 (i + 1)"
  unfolding seg_sorted_def
proof (intro allI impI)
  fix p q assume pq: "0 \<le> p" "p \<le> q" "q < i + 1"
  have b: "a ! nat p \<le> a ! nat (h - 1)" if "p < h"
    using assms(1) that pq assms(2,3) unfolding hole_sorted_def by auto
  show "a ! nat p \<le> a ! nat q"
  proof (cases "q = h")
    case True
    then show ?thesis using b assms pq by (cases "p = h") auto
  next
    case False
    then show ?thesis using assms(1) pq unfolding hole_sorted_def by (cases "p = h") auto
  qed
qed

lemma hole_sorted_step:
  assumes "hole_sorted a h i" "1 \<le> h" "h \<le> i" "i < int (length a)" "a ! nat h \<le> a ! nat (h - 1)"
  shows "hole_sorted (swp a (h - 1) h) (h - 1) i"
proof -
  have s: "a ! nat p \<le> a ! nat q" if "0 \<le> p" "p \<le> q" "q \<le> i" "p \<noteq> h" "q \<noteq> h" for p q
    using assms(1) that unfolding hole_sorted_def by blast
  have t: "a ! nat h \<le> a ! nat q" if "h < q" "q \<le> i" for q
    using assms(1) that unfolding hole_sorted_def by blast
  show ?thesis
    unfolding hole_sorted_def
    using assms(2-5) s t by (auto simp: arr)
qed

lemma shell_sink_perm:
  "0 < gap \<Longrightarrow> 0 \<le> j + gap \<Longrightarrow> j + gap < n \<Longrightarrow> n \<le> int (length a) \<Longrightarrow>
   \<exists>b. shell_sink a j gap = Some b \<and> perm_in 0 n a b"
proof (induction a j gap rule: shell_sink.induct)
  case (1 a j gap)
  note prems = "1.prems"
  show ?case
  proof (cases "0 \<le> j \<and> a ! nat j > a ! nat (j + gap)")
    case False
    then show ?thesis using prems
      by (auto simp: shell_sink.simps [of a j gap] arr)
  next
    case True
    have r: "rd a j = Some (a ! nat j)" "rd a (j + gap) = Some (a ! nat (j + gap))"
      "Swap a j (j + gap) = Some (swp a j (j + gap))"
      using True prems by (simp_all add: arr)
    have "perm_in 0 n a (swp a j (j + gap))" using True prems by (intro perm_in_swp) auto
    then show ?thesis using "1.IH" [OF _ r(1,2) _ r(3)] True prems r
      by (auto simp: shell_sink.simps [of a j gap] intro: perm_in_trans)
  qed
qed

lemma shell_sink_sorted:
  "hole_sorted a (j + 1) i \<Longrightarrow> 0 \<le> j + 1 \<Longrightarrow> j + 1 \<le> i \<Longrightarrow> i < int (length a) \<Longrightarrow>
   shell_sink a j 1 = Some b \<Longrightarrow> seg_sorted b 0 (i + 1)"
proof (induction a j "1 :: int" arbitrary: b rule: shell_sink.induct)
  case (1 a j)
  note prems = "1.prems"
  show ?case
  proof (cases "0 \<le> j \<and> a ! nat j > a ! nat (j + 1)")
    case False
    then have "b = a" using prems by (auto simp: shell_sink.simps [of a j 1] arr split: if_splits)
    then show ?thesis using hole_sorted_end [OF prems(1,2,3)] False by auto
  next
    case True
    have r: "rd a j = Some (a ! nat j)" "rd a (j + 1) = Some (a ! nat (j + 1))"
      "Swap a j (j + 1) = Some (swp a j (j + 1))"
      using True prems by (simp_all add: arr)
    have "hole_sorted (swp a j (j + 1)) j i"
      using hole_sorted_step [of a "j + 1" i] True prems by simp
    then show ?thesis using "1.hyps" [OF _ r(1,2) _ r(3)] True prems r
      by (simp add: shell_sink.simps [of a j 1])
  qed
qed

lemma sink_step:
  assumes "1 \<le> i" "i < n" "n \<le> int (length a)" "seg_sorted a 0 i"
  shows "\<exists>b. shell_sink a (i - 1) 1 = Some b \<and> seg_sorted b 0 (i + 1) \<and> perm_in 0 n a b"
proof -
  obtain b where "shell_sink a (i - 1) 1 = Some b" "perm_in 0 n a b"
    using shell_sink_perm [of 1 "i - 1" n a] assms by auto
  moreover have "seg_sorted b 0 (i + 1)"
    using shell_sink_sorted [of a "i - 1" i b] hole_sorted_start [OF assms(4)] assms calculation
    by simp
  ultimately show ?thesis by blast
qed

section \<open>Insertion passes\<close>

text \<open>A step that extends the sorted prefix by one, run over all cells, sorts.\<close>

lemma insertion_pass:
  assumes step: "\<And>a i. 1 \<le> i \<Longrightarrow> i < n \<Longrightarrow> n \<le> int (length a) \<Longrightarrow> seg_sorted a 0 i \<Longrightarrow>
      \<exists>b. body i a = Some b \<and> seg_sorted b 0 (i + 1) \<and> perm_in 0 n a b"
    and n: "0 \<le> n" "n \<le> int (length a)"
  shows "\<exists>b. for_up 1 n body a = Some b \<and> seg_sorted b 0 n \<and> perm_in 0 n a b"
proof (cases "1 \<le> n")
  case False
  then show ?thesis using n by simp
next
  case True
  have "\<exists>b. for_up 1 n body a = Some b \<and> (seg_sorted b 0 n \<and> perm_in 0 n a b)"
  proof (rule for_up_rule [where I = "\<lambda>i b. seg_sorted b 0 i \<and> perm_in 0 n a b"])
    fix i s assume i: "1 \<le> i" "i < n" and I: "seg_sorted s 0 i \<and> perm_in 0 n a s"
    have "length s = length a" using I by (auto dest: perm_in_length)
    then have "n \<le> int (length s)" using n by simp
    then obtain b where "body i s = Some b" "seg_sorted b 0 (i + 1)" "perm_in 0 n s b"
      using step [OF i] I by blast
    then show "\<exists>t. body i s = Some t \<and> seg_sorted t 0 (i + 1) \<and> perm_in 0 n a t"
      using I by (blast intro: perm_in_trans)
  qed (use True in auto)
  then show ?thesis by blast
qed

text \<open>Insertsort1: the search stops left of all cells that are at least \<open>a[i]\<close>.\<close>

lemma ins1_find_spec:
  "0 \<le> i \<Longrightarrow> i < int (length a) \<Longrightarrow> -1 \<le> j \<Longrightarrow> j < i \<Longrightarrow>
   (\<And>k. j < k \<Longrightarrow> k < i \<Longrightarrow> a ! nat i \<le> a ! nat k) \<Longrightarrow>
   \<exists>p. ins1_find a j i = Some p \<and> -1 \<le> p \<and> p < i \<and>
       (\<forall>k. p < k \<longrightarrow> k < i \<longrightarrow> a ! nat i \<le> a ! nat k) \<and> (0 \<le> p \<longrightarrow> a ! nat p < a ! nat i)"
proof (induction a j i rule: ins1_find.induct)
  case (1 a j i)
  note prems = "1.prems"
  show ?case
  proof (cases "0 \<le> j \<and> \<not> a ! nat j < a ! nat i")
    case False
    then show ?thesis using prems by (auto simp: ins1_find.simps [of a j i] arr)
  next
    case True
    have r: "rd a j = Some (a ! nat j)" "rd a i = Some (a ! nat i)"
      using True prems by (simp_all add: arr)
    have le: "a ! nat i \<le> a ! nat k" if "j - 1 < k" "k < i" for k
    proof (cases "k = j")
      case True
      then show ?thesis using \<open>0 \<le> j \<and> \<not> a ! nat j < a ! nat i\<close> by simp
    next
      case False
      then show ?thesis using prems(5) [of k] that by simp
    qed
    have "ins1_find a j i = ins1_find a (j - 1) i"
      using True r by (simp add: ins1_find.simps [of a j i])
    then show ?thesis using "1.IH" [OF _ r] True prems(1,2,3,4) le by simp
  qed
qed

lemma ins1_shift_spec:
  assumes i: "1 \<le> i" "i < n" "n \<le> int (length a)" "seg_sorted a 0 i" "-1 \<le> p" "p < i"
    and above: "\<And>k. p < k \<Longrightarrow> k < i \<Longrightarrow> a ! nat i \<le> a ! nat k"
    and below: "0 \<le> p \<Longrightarrow> a ! nat p < a ! nat i"
  shows "\<exists>b. ins1_shift a i p = Some b \<and> seg_sorted b 0 (i + 1) \<and> perm_in 0 n a b"
proof -
  define t where "t = a ! nat i"
  define I where "I k b \<longleftrightarrow> length b = length a \<and> perm_in 0 n a (b[nat (k + 1) := t]) \<and>
      hole_sorted (b[nat (k + 1) := t]) (k + 1) i \<and>
      (\<forall>q. 0 \<le> q \<longrightarrow> q \<le> k \<longrightarrow> b ! nat q = a ! nat q)" for k b
  have "\<exists>b. for_down (i - 1) (p + 1) (\<lambda>k b. do { x \<leftarrow> rd b k; wr b (k + 1) x }) a = Some b
      \<and> I (p + 1 - 1) b"
  proof (rule for_down_rule)
    show "I (i - 1) a" using i hole_sorted_start [OF i(4)] by (simp add: I_def t_def)
  next
    fix k b assume k: "p + 1 \<le> k" "k \<le> i - 1" and I: "I k b"
    let ?c = "b[nat (k + 1) := b ! nat k]" and ?v = "b[nat (k + 1) := t]"
    have l: "length b = length a" and bk: "b ! nat k = a ! nat k"
      using I k i by (auto simp: I_def)
    have w: "rd b k = Some (b ! nat k)" "wr b (k + 1) (b ! nat k) = Some ?c"
      using l k i by (simp_all add: arr)
    have e: "?c[nat k := t] = swp ?v k (k + 1)"
      using hole_move [of "k + 1" b k t] l k i by (simp add: swp_commute)
    have "perm_in 0 n ?v (swp ?v k (k + 1))" using l k i by (intro perm_in_swp) auto
    moreover have "hole_sorted (swp ?v k (k + 1)) k i"
      using hole_sorted_step [of ?v "k + 1" i] I above [of k] l k i bk
      by (simp add: I_def arr t_def)
    moreover have "\<forall>q. 0 \<le> q \<longrightarrow> q \<le> k - 1 \<longrightarrow> ?c ! nat q = a ! nat q"
      using I l k i by (auto simp: I_def arr)
    ultimately have "I (k - 1) ?c" using I l e by (auto simp: I_def intro: perm_in_trans)
    then show "\<exists>u. do { x \<leftarrow> rd b k; wr b (k + 1) x } = Some u \<and> I (k - 1) u" using w by simp
  qed (use i in auto)
  then obtain b where b: "for_down (i - 1) (p + 1) (\<lambda>k b. do { x \<leftarrow> rd b k; wr b (k + 1) x }) a
      = Some b" "I p b" by auto
  have l: "length b = length a" using b(2) by (simp add: I_def)
  have "p + 1 = 0 \<or> b[nat (p + 1) := t] ! nat (p + 1 - 1) \<le> b[nat (p + 1) := t] ! nat (p + 1)"
  proof (cases "0 \<le> p")
    case True
    then show ?thesis using b(2) below l i by (simp add: I_def arr t_def)
  qed (use i in simp)
  then have "seg_sorted (b[nat (p + 1) := t]) 0 (i + 1)"
    using hole_sorted_end [of "b[nat (p + 1) := t]" "p + 1" i] b(2) i by (simp add: I_def)
  then show ?thesis using b l i
    by (auto simp: ins1_shift_def I_def arr t_def)
qed

lemma ins1_step:
  assumes "1 \<le> i" "i < n" "n \<le> int (length a)" "seg_sorted a 0 i"
  shows "\<exists>b. do { j \<leftarrow> ins1_find a (i - 1) i; if j \<noteq> i - 1 then ins1_shift a i j else Some a } =
      Some b \<and> seg_sorted b 0 (i + 1) \<and> perm_in 0 n a b"
proof -
  obtain p where p: "ins1_find a (i - 1) i = Some p" "-1 \<le> p" "p < i"
      "\<And>k. p < k \<Longrightarrow> k < i \<Longrightarrow> a ! nat i \<le> a ! nat k" "0 \<le> p \<Longrightarrow> a ! nat p < a ! nat i"
    using ins1_find_spec [of i a "i - 1"] assms by auto
  show ?thesis
  proof (cases "p = i - 1")
    case False
    then show ?thesis using ins1_shift_spec [OF assms p(2,3) p(4,5)] p(1) by simp
  next
    case True
    have "seg_sorted a 0 (i + 1)"
      by (rule hole_sorted_end [OF hole_sorted_start [OF assms(4)]])
        (use True p(5) assms(1) in auto)
    then show ?thesis using True p(1) by simp
  qed
qed

interpretation insert1: array_sorter Insertsort1
  by unfold_locales (auto simp: Insertsort1_def intro!: insertion_pass ins1_step)

lemma ins2_step:
  assumes "1 \<le> i" "i < int (length a)"
  shows "do { x \<leftarrow> rd a i; y \<leftarrow> rd a (i - 1);
      if x < y then do { temp \<leftarrow> rd a i; ins2_shift a (i - 1) temp } else Some a } =
      shell_sink a (i - 1) 1"
  using shell_insert_sink [of 1 i a] assms unfolding shell_insert_def ins2_shift_eq by simp

interpretation insert2: array_sorter Insertsort2
  by unfold_locales
    (auto simp: Insertsort2_def ins2_step intro!: insertion_pass sink_step)

interpretation insert3: array_sorter Insertsort3
  by unfold_locales
    (auto simp: Insertsort3_def ins3_sink_eq intro!: insertion_pass sink_step)

section \<open>Shell sorts\<close>

text \<open>All passes permute, and the last one, with gap 1, sorts.\<close>

lemma gap_loop_spec:
  assumes perm: "\<And>gap a. 0 < gap \<Longrightarrow> gap \<le> n \<Longrightarrow> n \<le> int (length a) \<Longrightarrow>
      \<exists>b. body gap a = Some b \<and> perm_in 0 n a b"
    and last: "\<And>a b. n \<le> int (length a) \<Longrightarrow> body 1 a = Some b \<Longrightarrow> seg_sorted b 0 n"
  shows "0 \<le> gap \<Longrightarrow> gap \<le> n \<Longrightarrow> n \<le> int (length a) \<Longrightarrow> gap = 0 \<longrightarrow> seg_sorted a 0 n \<Longrightarrow>
    \<exists>b. gap_loop gap body a = Some b \<and> seg_sorted b 0 n \<and> perm_in 0 n a b"
  using perm last
proof (induction gap body a rule: gap_loop.induct)
  case (1 gap body a)
  show ?case
  proof (cases "0 < gap")
    case False
    then show ?thesis using "1.prems" by auto
  next
    case True
    then obtain b where b: "body gap a = Some b" "perm_in 0 n a b"
      using "1.prems"(2,3,5) by blast
    have l: "n \<le> int (length b)" using "1.prems"(3) b by (simp add: perm_in_length)
    have "gap div 2 = 0 \<longrightarrow> seg_sorted b 0 n"
    proof
      assume "gap div 2 = 0"
      then have "gap = 1" using True by linarith
      then show "seg_sorted b 0 n" using "1.prems"(3,6) b by blast
    qed
    moreover have "0 \<le> gap div 2" "gap div 2 \<le> n" using True "1.prems"(2) by linarith+
    ultimately obtain c where "gap_loop (gap div 2) body b = Some c" "seg_sorted c 0 n"
        "perm_in 0 n b c"
      using "1.IH" [OF True b(1)] l "1.prems"(5,6) by blast
    then show ?thesis using True b
      by (auto simp: gap_loop.simps [of gap body a] intro: perm_in_trans)
  qed
qed

lemma gap_sorter:
  assumes "\<And>gap a n. 0 < gap \<Longrightarrow> gap \<le> n \<Longrightarrow> n \<le> int (length a) \<Longrightarrow>
      \<exists>b. body n gap a = Some b \<and> perm_in 0 n a b"
    and "\<And>a n b. 0 \<le> n \<Longrightarrow> n \<le> int (length a) \<Longrightarrow> body n 1 a = Some b \<Longrightarrow> seg_sorted b 0 n"
  shows "array_sorter (\<lambda>a n. gap_loop (n div 2) (body n) a)"
proof
  fix n :: int and a :: "int list" assume n: "0 \<le> n" "n \<le> int (length a)"
  have "n div 2 = 0 \<longrightarrow> seg_sorted a 0 n"
  proof
    assume "n div 2 = 0"
    then have "n \<le> 0 + 1" by linarith
    then show "seg_sorted a 0 n" by (rule seg_sorted_trivial)
  qed
  moreover have "0 \<le> n div 2" "n div 2 \<le> n" using n by linarith+
  ultimately show "\<exists>b. gap_loop (n div 2) (body n) a = Some b \<and> seg_sorted b 0 n \<and> perm_in 0 n a b"
    using gap_loop_spec [of n "body n" "n div 2" a] assms n by blast
qed

lemma sink_pass_perm:
  assumes "0 < gap" "gap \<le> n" "n \<le> int (length a)"
  shows "\<exists>b. for_up gap n (\<lambda>i a. shell_sink a (i - gap) gap) a = Some b \<and> perm_in 0 n a b"
proof (rule for_up_rule [where I = "\<lambda>i b. perm_in 0 n a b"])
  fix i s assume "gap \<le> i" "i < n" "perm_in 0 n a s"
  then show "\<exists>t. shell_sink s (i - gap) gap = Some t \<and> perm_in 0 n a t"
    using shell_sink_perm [of gap "i - gap" n s] assms
    by (auto simp: perm_in_length intro: perm_in_trans)
qed (use assms in auto)

lemma sink_pass_sorted:
  assumes "0 \<le> n" "n \<le> int (length a)" "for_up 1 n (\<lambda>i a. shell_sink a (i - 1) 1) a = Some b"
  shows "seg_sorted b 0 n"
  using insertion_pass [of n "\<lambda>i a. shell_sink a (i - 1) 1" a] sink_step assms by auto

interpretation shell3: array_sorter shellsort3
  using gap_sorter [of "\<lambda>n gap. for_up gap n (\<lambda>i a. shell_sink a (i - gap) gap)",
      OF sink_pass_perm sink_pass_sorted]
  by (simp add: shellsort3_def [abs_def])

lemma insert_pass_sink:
  "0 < gap \<Longrightarrow> gap \<le> lo \<Longrightarrow> n \<le> int (length a) \<Longrightarrow>
   for_up lo n (shell_insert gap) a = for_up lo n (\<lambda>i a. shell_sink a (i - gap) gap) a"
proof (induction lo n "shell_insert gap" a rule: for_up.induct)
  case (1 lo n a)
  show ?case
  proof (cases "lo < n")
    case True
    then have e: "shell_insert gap lo a = shell_sink a (lo - gap) gap"
      using "1.prems" by (simp add: shell_insert_sink)
    obtain b where "shell_sink a (lo - gap) gap = Some b" "perm_in 0 n a b"
      using shell_sink_perm [of gap "lo - gap" n a] "1.prems" True by auto
    then show ?thesis using "1.hyps" [OF True, of b] "1.prems" e True
      by (simp add: for_up.simps [of lo n] perm_in_length)
  qed simp
qed

interpretation shell2: array_sorter shellsort2
proof -
  have "array_sorter (\<lambda>a n. gap_loop (n div 2) (\<lambda>gap. for_up gap n (shell_insert gap)) a)"
    by (rule gap_sorter) (auto simp: insert_pass_sink intro: sink_pass_perm sink_pass_sorted)
  then show "array_sorter shellsort2" by (simp add: shellsort2_def [abs_def])
qed

lemma shell1_pass_perm:
  assumes "0 < gap" "n \<le> int (length a)"
  shows "\<exists>b. for_up 0 gap (\<lambda>i. for_by (i + gap) n gap (shell_insert gap)) a = Some b \<and>
      perm_in 0 n a b"
proof (rule for_up_rule [where I = "\<lambda>i b. perm_in 0 n a b"])
  fix i :: int and s assume i: "0 \<le> i" and p: "perm_in 0 n a s"
  show "\<exists>t. for_by (i + gap) n gap (shell_insert gap) s = Some t \<and> perm_in 0 n a t"
  proof (rule for_by_rule [where I = "perm_in 0 n a"])
    fix j u assume j: "i + gap \<le> j" "j < n" and pu: "perm_in 0 n a u"
    then have "shell_insert gap j u = shell_sink u (j - gap) gap"
      using assms i by (simp add: shell_insert_sink perm_in_length)
    then show "\<exists>t. shell_insert gap j u = Some t \<and> perm_in 0 n a t"
      using shell_sink_perm [of gap "j - gap" n u] assms i j pu
      by (auto simp: perm_in_length intro: perm_in_trans)
  qed (rule p)
qed (use assms in auto)

lemma shell1_last_pass:
  "for_up 0 1 (\<lambda>i. for_by (i + 1) n 1 (shell_insert 1)) a = for_up 1 n (shell_insert 1) a"
  by (cases "for_up 1 n (shell_insert 1) a") (simp_all add: for_up.simps [of 0 1] for_by_1)

interpretation shell1: array_sorter shellsort1
proof -
  have "array_sorter (\<lambda>a n. gap_loop (n div 2)
      (\<lambda>gap. for_up 0 gap (\<lambda>i. for_by (i + gap) n gap (shell_insert gap))) a)"
  proof (rule gap_sorter)
    fix a b :: "int list" and n :: int
    assume "0 \<le> n" "n \<le> int (length a)"
      "for_up 0 1 (\<lambda>i. for_by (i + 1) n 1 (shell_insert 1)) a = Some b"
    then show "seg_sorted b 0 n"
      using shell1_last_pass insert_pass_sink [of 1 1 n a] sink_pass_sorted by simp
  qed (rule shell1_pass_perm)
  then show "array_sorter shellsort1" by (simp add: shellsort1_def [abs_def])
qed

section \<open>Properties\<close>

text \<open>The three shell sorts (by groups, by position, by swaps) compute the same array, the
  sorted one, on the first \<open>n\<close> cells of every array.\<close>

theorem shellsorts_correct:
  assumes "n \<le> length a"
  shows "shellsort1 a (int n) = Some (sort (take n a) @ drop n a) \<and>
    shellsort2 a (int n) = shellsort1 a (int n) \<and> shellsort3 a (int n) = shellsort1 a (int n)"
  using assms by (simp only: shell1.prefix shell2.prefix shell3.prefix simp_thms)

lemma shellsorts_correct_witness: "shellsort1 [3, 1, 2, 1] 3 = Some ([1, 2, 3] @ [1])"
  using shellsorts_correct [of 3 "[3, 1, 2, 1]"] by simp

text \<open>The three insertion sorts (search and shift, shift, swap) compute the same array, the
  sorted one, on the first \<open>n\<close> cells of every array.\<close>

theorem insertsorts_correct:
  assumes "n \<le> length a"
  shows "Insertsort1 a (int n) = Some (sort (take n a) @ drop n a) \<and>
    Insertsort2 a (int n) = Insertsort1 a (int n) \<and> Insertsort3 a (int n) = Insertsort1 a (int n)"
  using assms by (simp only: insert1.prefix insert2.prefix insert3.prefix simp_thms)

lemma insertsorts_correct_witness: "Insertsort1 [3, 1, 2, 1] 3 = Some ([1, 2, 3] @ [1])"
  using insertsorts_correct [of 3 "[3, 1, 2, 1]"] by simp

end
