(* ===== verification/Heap_Sort.thy ===== *)
theory Heap_Sort
  imports Prelude
begin

text \<open>
  \<open>c++/algos/sort/heapSort.cpp\<close>.  The functions are called \<open>MinHeap...\<close> and the comments
  speak of a min-heap, but the comparisons build a max-heap, which is why the result is
  ascending; the heap predicate below is therefore the one of a max-heap.
\<close>

section \<open>Definitions\<close>

text \<open>
  The loop of \<open>MinHeapFixdown\<close>: \<open>i\<close> is the hole, \<open>j = 2 * i + 1\<close> its left child.  The
  larger child is compared with \<open>temp\<close>; \<open>a[i] = temp\<close> closes the hole.
\<close>

definition larger_child :: "int list \<Rightarrow> int \<Rightarrow> int \<Rightarrow> int option" where
  "larger_child a j n =
     (if j + 1 < n then do {
        y \<leftarrow> rd a (j + 1);
        x \<leftarrow> rd a j;
        Some (if y > x then j + 1 else j) }
      else Some j)"

function fixdown_loop :: "int list \<Rightarrow> int \<Rightarrow> int \<Rightarrow> int \<Rightarrow> int \<Rightarrow> int list option" where
  "fixdown_loop a i j n temp =
     (if j < n then do {
        m \<leftarrow> larger_child a j n;
        x \<leftarrow> rd a m;
        if x \<le> temp then wr a i temp
        else do { b \<leftarrow> wr a i x; fixdown_loop b m (2 * m + 1) n temp } }
      else wr a i temp)"
  by pat_completeness auto
termination
  by (relation "measure (\<lambda>(a, i, j, n, temp). nat (n - j))")
    (auto simp: larger_child_def rd_eq_Some split: if_splits Option.bind_splits)

declare fixdown_loop.simps [simp del]

definition MinHeapFixdown :: "int list \<Rightarrow> int \<Rightarrow> int \<Rightarrow> int list option" where
  "MinHeapFixdown a i n = do { temp \<leftarrow> rd a i; fixdown_loop a i (2 * i + 1) n temp }"

definition MakeMinHeap :: "int list \<Rightarrow> int \<Rightarrow> int list option" where
  "MakeMinHeap a n = for_down (n div 2 - 1) 0 (\<lambda>i a. MinHeapFixdown a i n) a"

definition Minheapsort :: "int list \<Rightarrow> int \<Rightarrow> int list option" where
  "Minheapsort a n = for_down (n - 1) 1 (\<lambda>i a. do {
     b \<leftarrow> Swap a i 0;
     MinHeapFixdown b 0 i }) a"

text \<open>The two calls of \<open>main\<close>.\<close>

definition heap_sort :: "int list \<Rightarrow> int \<Rightarrow> int list option" where
  "heap_sort a n = do { b \<leftarrow> MakeMinHeap a n; Minheapsort b n }"

section \<open>Max-heaps with a hole\<close>

definition child :: "int \<Rightarrow> int \<Rightarrow> bool" where
  "child p c \<longleftrightarrow> c = 2 * p + 1 \<or> c = 2 * p + 2"

definition heap_on :: "int list \<Rightarrow> int \<Rightarrow> int \<Rightarrow> bool" where
  "heap_on a lo n \<longleftrightarrow> (\<forall>p c. lo \<le> p \<longrightarrow> child p c \<longrightarrow> c < n \<longrightarrow> a ! nat c \<le> a ! nat p)"

text \<open>A heap but for position \<open>h\<close>, whose children are still at most the parent of \<open>h\<close>.\<close>

definition heap_but :: "int list \<Rightarrow> int \<Rightarrow> int \<Rightarrow> int \<Rightarrow> bool" where
  "heap_but a lo n h \<longleftrightarrow>
     (\<forall>p c. lo \<le> p \<longrightarrow> p \<noteq> h \<longrightarrow> child p c \<longrightarrow> c < n \<longrightarrow> a ! nat c \<le> a ! nat p) \<and>
     (\<forall>g c. lo \<le> g \<longrightarrow> child g h \<longrightarrow> child h c \<longrightarrow> c < n \<longrightarrow> a ! nat c \<le> a ! nat g)"

lemma heap_onD: "heap_on a lo n \<Longrightarrow> lo \<le> p \<Longrightarrow> child p c \<Longrightarrow> c < n \<Longrightarrow> a ! nat c \<le> a ! nat p"
  by (simp add: heap_on_def)

lemma heap_butD:
  "heap_but a lo n h \<Longrightarrow> lo \<le> p \<Longrightarrow> p \<noteq> h \<Longrightarrow> child p c \<Longrightarrow> c < n \<Longrightarrow> a ! nat c \<le> a ! nat p"
  by (simp add: heap_but_def)

lemma heap_butD2:
  "heap_but a lo n h \<Longrightarrow> lo \<le> g \<Longrightarrow> child g h \<Longrightarrow> child h c \<Longrightarrow> c < n \<Longrightarrow> a ! nat c \<le> a ! nat g"
  by (simp add: heap_but_def)

lemma child_unique: "child p c \<Longrightarrow> child q c \<Longrightarrow> p = q"
  unfolding child_def by presburger

lemma child_greater: "child p c \<Longrightarrow> 0 \<le> p \<Longrightarrow> p < c"
  by (auto simp: child_def)

lemma heap_but_close:
  assumes "heap_but a lo n h" "\<And>c. child h c \<Longrightarrow> c < n \<Longrightarrow> a ! nat c \<le> a ! nat h"
  shows "heap_on a lo n"
  using assms by (auto simp: heap_on_def heap_but_def)

lemma heap_but_swap:
  assumes h: "heap_but a lo n h" "0 \<le> lo" "lo \<le> h" "n \<le> int (length a)"
    and m: "child h m" "m < n" "a ! nat h < a ! nat m"
    and max: "\<And>c. child h c \<Longrightarrow> c < n \<Longrightarrow> a ! nat c \<le> a ! nat m"
  shows "heap_but (swp a h m) lo n m"
  unfolding heap_but_def
proof (intro conjI allI impI)
  have hm: "0 \<le> h" "h < m" using h m child_greater by auto
  have s: "swp a h m ! nat k = (if k = m then a ! nat h else if k = h then a ! nat m else a ! nat k)"
    if "0 \<le> k" for k using that hm m h by (simp add: arr)
  fix p c assume p: "lo \<le> p" "child p c" "c < n"
  have pc: "0 \<le> p" "p < c" using p h child_greater by auto
  show "swp a h m ! nat c \<le> swp a h m ! nat p" if "p \<noteq> m"
  proof (cases "p = h")
    case True
    then show ?thesis using s [of c] s [of p] pc hm m max [of c] p by auto
  next
    case False
    have "c \<noteq> m" using child_unique [OF m(1)] p False by auto
    moreover have "a ! nat m \<le> a ! nat p" if "c = h"
      using heap_butD2 [OF h(1) p(1) _ m(1,2)] p that by simp
    ultimately show ?thesis
      using s [of c] s [of p] pc False \<open>p \<noteq> m\<close> heap_butD [OF h(1) p(1) False p(2,3)] by auto
  qed
next
  have hm: "0 \<le> h" "h < m" using h m child_greater by auto
  fix g c assume g: "lo \<le> g" "child g m" "child m c" "c < n"
  have "g = h" using child_unique [OF g(2) m(1)] .
  moreover have "m < c" using child_greater [OF g(3)] hm by simp
  moreover have "a ! nat c \<le> a ! nat m" using heap_butD [OF h(1) _ _ g(3,4)] hm h by simp
  ultimately show "swp a h m ! nat c \<le> swp a h m ! nat g"
    using hm g(4) h(4) m(2) by (simp add: arr)
qed

lemma heap_root_max:
  assumes "heap_on a 0 n" "0 \<le> k" "k < n"
  shows "a ! nat k \<le> a ! 0"
  using assms(2,3)
proof (induction "nat k" arbitrary: k rule: less_induct)
  case less
  show ?case
  proof (cases "k = 0")
    case False
    have p: "0 \<le> (k - 1) div 2" "(k - 1) div 2 < k" "child ((k - 1) div 2) k"
      using less.prems False by (simp_all add: child_def) presburger+
    have "a ! nat k \<le> a ! nat ((k - 1) div 2)" using heap_onD [OF assms(1) p(1,3)] less.prems by simp
    also have "\<dots> \<le> a ! 0" using less.hyps [of "(k - 1) div 2"] p less.prems by simp
    finally show ?thesis .
  qed simp
qed

section \<open>Sifting down\<close>

lemma larger_child_spec:
  assumes "0 \<le> i" "2 * i + 1 < n" "n \<le> int (length a)"
  shows "\<exists>m. larger_child a (2 * i + 1) n = Some m \<and> child i m \<and> m < n \<and>
      (\<forall>c. child i c \<longrightarrow> c < n \<longrightarrow> a ! nat c \<le> a ! nat m)"
  using assms by (auto simp: larger_child_def child_def arr add.commute)

lemma larger_child_cong:
  assumes "0 \<le> i" "i < int (length a)"
  shows "larger_child (a[nat i := t]) (2 * i + 1) n = larger_child a (2 * i + 1) n"
  using assms by (simp add: larger_child_def rd_def nth_list_update)

lemma fixdown_loop_spec:
  "heap_but (a[nat i := t]) lo n i \<Longrightarrow> 0 \<le> lo \<Longrightarrow> lo \<le> i \<Longrightarrow> i < n \<Longrightarrow> n \<le> int (length a) \<Longrightarrow>
   j = 2 * i + 1 \<Longrightarrow>
   \<exists>b. fixdown_loop a i j n t = Some b \<and> perm_in lo n (a[nat i := t]) b \<and> heap_on b lo n"
proof (induction a i j n t rule: fixdown_loop.induct)
  case (1 a i j n t)
  note prems = "1.prems"
  let ?v = "a[nat i := t]"
  have vi: "?v ! nat i = t" and w: "wr a i t = Some ?v" using prems by (simp_all add: arr)
  show ?case
  proof (cases "j < n")
    case False
    have "heap_on ?v lo n"
      by (rule heap_but_close [OF prems(1)]) (use False prems in \<open>auto simp: child_def\<close>)
    then show ?thesis using False w by (simp add: fixdown_loop.simps [of a i j n t])
  next
    case True
    obtain m where m: "larger_child ?v j n = Some m" "child i m" "m < n"
        "\<And>c. child i c \<Longrightarrow> c < n \<Longrightarrow> ?v ! nat c \<le> ?v ! nat m"
      using larger_child_spec [of i n ?v] True prems by auto
    have im: "i < m" using child_greater m(2) prems by simp
    have lc: "larger_child a j n = Some m" using larger_child_cong [of i a t n] m prems by simp
    have r: "rd a m = Some (a ! nat m)" and vm: "?v ! nat m = a ! nat m"
      using m im prems by (simp_all add: arr)
    show ?thesis
    proof (cases "a ! nat m \<le> t")
      case le: True
      have "heap_on ?v lo n"
        by (rule heap_but_close [OF prems(1)]) (use m(4) le vi vm in fastforce)
      then show ?thesis using True lc r le w by (simp add: fixdown_loop.simps [of a i j n t])
    next
      case False
      let ?b = "a[nat i := a ! nat m]"
      have wb: "wr a i (a ! nat m) = Some ?b" using prems by (simp add: arr)
      have e: "?b[nat m := t] = swp ?v i m" using hole_move [of i a m t] m im prems by simp
      have "heap_but (swp ?v i m) lo n m"
        by (rule heap_but_swap) (use prems m False vi vm in auto)
      then have "\<exists>c. fixdown_loop ?b m (2 * m + 1) n t = Some c \<and>
          perm_in lo n (swp ?v i m) c \<and> heap_on c lo n"
        using "1.IH" [OF True lc r False wb] e prems im m by simp
      moreover have "perm_in lo n ?v (swp ?v i m)" using im m prems by (intro perm_in_swp) auto
      ultimately show ?thesis using True lc r False wb
        by (auto simp: fixdown_loop.simps [of a i j n t] intro: perm_in_trans)
    qed
  qed
qed

lemma MinHeapFixdown_spec:
  assumes "heap_but a lo n i" "0 \<le> lo" "lo \<le> i" "i < n" "n \<le> int (length a)"
  shows "\<exists>b. MinHeapFixdown a i n = Some b \<and> perm_in lo n a b \<and> heap_on b lo n"
  using fixdown_loop_spec [of a i "a ! nat i" lo n] assms
  by (simp add: MinHeapFixdown_def arr)

section \<open>Building the heap and sorting\<close>

lemma MakeMinHeap_spec:
  assumes "0 \<le> n" "n \<le> int (length a)"
  shows "\<exists>b. MakeMinHeap a n = Some b \<and> heap_on b 0 n \<and> perm_in 0 n a b"
proof -
  have "\<exists>b. for_down (n div 2 - 1) 0 (\<lambda>i a. MinHeapFixdown a i n) a = Some b \<and>
      (heap_on b (0 - 1 + 1) n \<and> perm_in 0 n a b)"
  proof (rule for_down_rule [where I = "\<lambda>i b. heap_on b (i + 1) n \<and> perm_in 0 n a b"])
    show "heap_on a (n div 2 - 1 + 1) n \<and> perm_in 0 n a a"
      by (auto simp: heap_on_def child_def)
  next
    fix i s assume i: "0 \<le> i" "i \<le> n div 2 - 1" and I: "heap_on s (i + 1) n \<and> perm_in 0 n a s"
    have l: "length s = length a" using I by (auto dest: perm_in_length)
    have "heap_but s i n i"
      unfolding heap_but_def
    proof (intro conjI allI impI)
      fix p c assume "i \<le> p" "p \<noteq> i" "child p c" "c < n"
      then show "s ! nat c \<le> s ! nat p" using I by (auto simp: heap_on_def)
    next
      fix g c assume "i \<le> g" "child g i"
      then show "s ! nat c \<le> s ! nat g" using child_greater [of g i] i by simp
    qed
    moreover have "i < n" using i by linarith
    ultimately obtain b where "MinHeapFixdown s i n = Some b" "perm_in i n s b" "heap_on b i n"
      using MinHeapFixdown_spec [of s i n i] i l assms by auto
    moreover have "perm_in 0 n s b" using perm_in_mono [OF calculation(2), of 0 n] i by simp
    ultimately show "\<exists>t. MinHeapFixdown s i n = Some t \<and> heap_on t (i - 1 + 1) n \<and> perm_in 0 n a t"
      using I by (auto intro: perm_in_trans)
  qed (use assms in simp)
  then show ?thesis by (auto simp: MakeMinHeap_def)
qed

text \<open>One round: the maximum moves behind the heap, the rest becomes a heap again.\<close>

lemma heapsort_round:
  assumes h: "heap_on a 0 (i + 1)" and t: "tail_ok a (i + 1) n"
    and i: "1 \<le> i" "i < n" "n \<le> int (length a)"
  shows "\<exists>b. do { b \<leftarrow> Swap a i 0; MinHeapFixdown b 0 i } = Some b \<and>
      heap_on b 0 i \<and> tail_ok b i n \<and> perm_in 0 n a b"
proof -
  let ?s = "swp a i 0"
  have s: "Swap a i 0 = Some ?s" by (rule Swap_in) (use i in auto)
  have p: "perm_in 0 (i + 1) a ?s" using i by (intro perm_in_swp) auto
  have nth: "?s ! nat k = (if k = 0 then a ! nat i else if k = i then a ! 0 else a ! nat k)"
    if "0 \<le> k" for k
  proof -
    have "0 < int (length a)" "i < int (length a)" using i by linarith+
    then show ?thesis using nth_swp [of i a 0 k] that i by simp
  qed
  have top: "?s ! nat k \<le> ?s ! nat i" if "0 \<le> k" "k \<le> i" for k
    using nth [of k] nth [of i] heap_root_max [OF h, of k] heap_root_max [OF h, of i] that i
    by auto
  have "tail_ok ?s i (i + 1)"
    unfolding tail_ok_def
  proof (intro allI impI)
    fix p q assume "0 \<le> p" "p \<le> q" "i \<le> q" "q < i + 1"
    then show "?s ! nat p \<le> ?s ! nat q" using top [of p] by (cases "q = i") auto
  qed
  then have ts: "tail_ok ?s i n" using tail_ok_extend [OF t p] i by simp
  have "heap_but ?s 0 i 0"
    unfolding heap_but_def
  proof (intro conjI allI impI)
    fix p c assume "0 \<le> p" "p \<noteq> 0" "child p c" "c < i"
    then show "?s ! nat c \<le> ?s ! nat p"
      using nth [of p] nth [of c] child_greater [of p c] heap_onD [OF h, of p c] by auto
  qed (auto simp: child_def)
  then obtain b where b: "MinHeapFixdown ?s 0 i = Some b" "perm_in 0 i ?s b" "heap_on b 0 i"
    using MinHeapFixdown_spec [of ?s 0 i 0] i by auto
  have "tail_ok b i n"
    using tail_ok_extend [OF ts b(2) tail_ok_empty [of i i]] i by simp
  moreover have "perm_in 0 n a b"
    using perm_in_trans [OF perm_in_mono [OF p, of 0 n] perm_in_mono [OF b(2), of 0 n]] i by simp
  ultimately show ?thesis using s b by simp
qed

lemma Minheapsort_spec:
  assumes "0 \<le> n" "n \<le> int (length a)" "heap_on a 0 n"
  shows "\<exists>b. Minheapsort a n = Some b \<and> seg_sorted b 0 n \<and> perm_in 0 n a b"
proof (cases "1 \<le> n")
  case False
  then show ?thesis using assms by (simp add: Minheapsort_def)
next
  case True
  have "\<exists>b. for_down (n - 1) 1 (\<lambda>i a. do { b \<leftarrow> Swap a i 0; MinHeapFixdown b 0 i }) a = Some b \<and>
      (heap_on b 0 (1 - 1 + 1) \<and> tail_ok b (1 - 1 + 1) n \<and> perm_in 0 n a b)"
  proof (rule for_down_rule
      [where I = "\<lambda>i b. heap_on b 0 (i + 1) \<and> tail_ok b (i + 1) n \<and> perm_in 0 n a b"])
    fix i s assume i: "1 \<le> i" "i \<le> n - 1"
      and I: "heap_on s 0 (i + 1) \<and> tail_ok s (i + 1) n \<and> perm_in 0 n a s"
    have "length s = length a" using I by (auto dest: perm_in_length)
    then show "\<exists>t. do { b \<leftarrow> Swap s i 0; MinHeapFixdown b 0 i } = Some t \<and>
        heap_on t 0 (i - 1 + 1) \<and> tail_ok t (i - 1 + 1) n \<and> perm_in 0 n a t"
      using heapsort_round [of s i n] I i assms by (auto intro: perm_in_trans)
  qed (use True assms in \<open>auto intro: tail_ok_empty\<close>)
  then show ?thesis by (auto simp: Minheapsort_def intro: tail_ok_sorted)
qed

interpretation heapsort: array_sorter heap_sort
proof
  fix n :: int and a :: "int list" assume n: "0 \<le> n" "n \<le> int (length a)"
  obtain b where b: "MakeMinHeap a n = Some b" "heap_on b 0 n" "perm_in 0 n a b"
    using MakeMinHeap_spec [OF n] by blast
  have "n \<le> int (length b)" using n perm_in_length [OF b(3)] by simp
  then show "\<exists>c. heap_sort a n = Some c \<and> seg_sorted c 0 n \<and> perm_in 0 n a c"
    using Minheapsort_spec [OF n(1) _ b(2)] b by (auto simp: heap_sort_def intro: perm_in_trans)
qed

section \<open>Properties\<close>

text \<open>Heap sort, run as \<open>main\<close> runs it (\<open>MakeMinHeap\<close>, then \<open>Minheapsort\<close>), returns
  for every array and every length within it; the first \<open>n\<close> cells then hold their own values
  in ascending order, the cells behind them are untouched, and no access is out of range.\<close>

theorem heap_sort_correct:
  assumes "n \<le> length a"
  shows "heap_sort a (int n) = Some (sort (take n a) @ drop n a)"
  using assms by (rule heapsort.prefix)

lemma heap_sort_correct_witness:
  "heap_sort [3, 2, 1, 5, 2, 0, 9, 7] 7 = Some ([0, 1, 2, 2, 3, 5, 9] @ [7])"
  using heap_sort_correct [of 7 "[3, 2, 1, 5, 2, 0, 9, 7]"] by simp

text \<open>\<open>MakeMinHeap\<close> rearranges the first \<open>n\<close> cells into a heap in which no child is above
  its parent, so the largest of them is at index 0.  (The names and the comments of the file
  say minimum heap; the heap that is built has its maximum at the root.)\<close>

theorem MakeMinHeap_builds_max_heap:
  assumes "n \<le> length a" "0 < n"
  shows "\<exists>b. MakeMinHeap a (int n) = Some b \<and> heap_on b 0 (int n) \<and>
    mset (take n b) = mset (take n a) \<and> drop n b = drop n a \<and> b ! 0 = Max (set (take n a))"
proof -
  obtain b where b: "MakeMinHeap a (int n) = Some b" "heap_on b 0 (int n)" "perm_in 0 (int n) a b"
    using MakeMinHeap_spec [of "int n" a] assms by auto
  have l: "length b = length a" using b(3) by (rule perm_in_length)
  have m: "mset (take n b) = mset (take n a)"
    using perm_in_seg [OF b(3)] assms by (simp add: seg_def)
  have "b ! 0 = Max (set (take n b))"
  proof (rule Max_eqI [symmetric])
    show "b ! 0 \<in> set (take n b)" using assms l by (auto simp: in_set_conv_nth intro!: exI [of _ 0])
    fix y assume "y \<in> set (take n b)"
    then obtain k where "k < n" "y = b ! k" by (auto simp: in_set_conv_nth)
    then show "y \<le> b ! 0" using heap_root_max [OF b(2), of "int k"] by simp
  qed simp
  then show ?thesis using b m mset_eq_setD [OF m] perm_in_drop [OF b(3)] assms by auto
qed

lemma MakeMinHeap_builds_max_heap_witness:
  "\<exists>b. MakeMinHeap [1, 3, 2] 3 = Some b \<and> heap_on b 0 3 \<and> b ! 0 = 3"
  using MakeMinHeap_builds_max_heap [of 3 "[1, 3, 2]"] by auto

end
