(* ===== verification/Quick_Merge.thy ===== *)
theory Quick_Merge
  imports Prelude
begin

text \<open>
  \<open>c++/algos/sort/quickSort.cpp\<close> and \<open>c++/algos/sort/mergeSort.cpp\<close>.  The buffer that
  \<open>MergeSort\<close> allocates with \<open>new int[n]\<close> starts uninitialised: its cells are \<open>int option\<close>,
  and reading a \<open>None\<close> cell is an error of the model.
\<close>

section \<open>Definitions: quickSort.cpp\<close>

text \<open>\<open>while (i < j && a[j] > temp) --j;\<close> and \<open>while (i < j && a[i] < temp) ++i;\<close>\<close>

function scan_down :: "int list \<Rightarrow> int \<Rightarrow> int \<Rightarrow> int \<Rightarrow> int option" where
  "scan_down a i j temp =
     (if i < j then do {
        x \<leftarrow> rd a j;
        if x > temp then scan_down a i (j - 1) temp else Some j }
      else Some j)"
  by pat_completeness auto
termination by (relation "measure (\<lambda>(a, i, j, t). nat (j - i))") auto

function scan_up :: "int list \<Rightarrow> int \<Rightarrow> int \<Rightarrow> int \<Rightarrow> int option" where
  "scan_up a i j temp =
     (if i < j then do {
        x \<leftarrow> rd a i;
        if x < temp then scan_up a (i + 1) j temp else Some i }
      else Some i)"
  by pat_completeness auto
termination by (relation "measure (\<lambda>(a, i, j, t). nat (j - i))") auto

declare scan_down.simps [simp del] scan_up.simps [simp del]

lemma scan_down_done [simp]: "j \<le> i \<Longrightarrow> scan_down a i j t = Some j"
  by (simp add: scan_down.simps)

lemma scan_down_bounds: "scan_down a i j t = Some k \<Longrightarrow> i \<le> j \<Longrightarrow> i \<le> k \<and> k \<le> j"
proof (induction a i j t rule: scan_down.induct)
  case (1 a i j t)
  then show ?case
    by (cases "i < j")
      (fastforce simp: scan_down.simps [of a i j t] split: if_splits Option.bind_splits)+
qed

lemma scan_up_done [simp]: "j \<le> i \<Longrightarrow> scan_up a i j t = Some i"
  by (simp add: scan_up.simps)

lemma scan_up_bounds: "scan_up a i j t = Some k \<Longrightarrow> i \<le> j \<Longrightarrow> i \<le> k \<and> k \<le> j"
proof (induction a i j t rule: scan_up.induct)
  case (1 a i j t)
  then show ?case
    by (cases "i < j")
      (fastforce simp: scan_up.simps [of a i j t] split: if_splits Option.bind_splits)+
qed

text \<open>The two guarded moves \<open>if (i < j) { a[i] = a[j]; i++; }\<close> and \<open>{ a[j] = a[i]; j--; }\<close>\<close>

definition move_left :: "int list \<Rightarrow> int \<Rightarrow> int \<Rightarrow> (int list \<times> int) option" where
  "move_left a i j =
     (if i < j then do { x \<leftarrow> rd a j; b \<leftarrow> wr a i x; Some (b, i + 1) } else Some (a, i))"

definition move_right :: "int list \<Rightarrow> int \<Rightarrow> int \<Rightarrow> (int list \<times> int) option" where
  "move_right a i j =
     (if i < j then do { x \<leftarrow> rd a i; b \<leftarrow> wr a j x; Some (b, j - 1) } else Some (a, j))"

text \<open>
  \<open>while (i != j) ...\<close>.  From \<open>i > j\<close> the loop would never end, as none of its statements
  changes anything then; the model has no result there.
\<close>

function partition_loop :: "int list \<Rightarrow> int \<Rightarrow> int \<Rightarrow> int \<Rightarrow> (int list \<times> int) option" where
  "partition_loop a i j temp =
     (if i = j then Some (a, i)
      else if j < i then None
      else do {
        j1 \<leftarrow> scan_down a i j temp;
        (a1, i1) \<leftarrow> move_left a i j1;
        i2 \<leftarrow> scan_up a1 i1 j1 temp;
        (a2, j2) \<leftarrow> move_right a1 i2 j1;
        partition_loop a2 i2 j2 temp })"
  by pat_completeness auto
termination
proof (relation "measure (\<lambda>(a, i, j, t). nat (j - i))", goal_cases)
  case (2 a i j t j1 p a1 i1 i2 q a2 j2)
  then have j1: "i \<le> j1" "j1 \<le> j" and ij: "i < j" using scan_down_bounds [of a i j t j1] by auto
  have i1: "i1 \<le> j1" "i \<le> i1" "i1 = i \<Longrightarrow> i = j1"
    using 2 j1 by (auto simp: move_left_def split: if_splits Option.bind_splits)
  have "i1 \<le> i2" "i2 \<le> j1" using scan_up_bounds [of a1 i1 j1 t i2] 2 i1 by auto
  moreover have "j2 \<le> j1"
    using 2 by (auto simp: move_right_def split: if_splits Option.bind_splits)
  ultimately have "j2 - i2 < j - i" using i1 j1 ij by linarith
  then show ?case using ij by simp
qed simp

declare partition_loop.simps [simp del]

lemma move_left_bounds:
  "move_left a i j = Some (b, k) \<Longrightarrow> i \<le> j \<Longrightarrow> i \<le> k \<and> k \<le> j \<and> length b = length a"
  by (auto simp: move_left_def dest: wr_length split: if_splits Option.bind_splits)

lemma move_right_bounds:
  "move_right a i j = Some (b, k) \<Longrightarrow> i \<le> j \<Longrightarrow> i \<le> k \<and> k \<le> j \<and> length b = length a"
  by (auto simp: move_right_def dest: wr_length split: if_splits Option.bind_splits)

lemma partition_loop_bounds:
  "partition_loop a i j t = Some (b, k) \<Longrightarrow> i \<le> k \<and> k \<le> j"
proof (induction a i j t rule: partition_loop.induct)
  case (1 a i j t)
  show ?case
  proof (cases "i < j")
    case False
    then show ?thesis using "1.prems"
      by (auto simp: partition_loop.simps [of a i j t] split: if_splits)
  next
    case True
    then obtain j1 a1 i1 i2 a2 j2 where
      s: "scan_down a i j t = Some j1" "move_left a i j1 = Some (a1, i1)"
        "scan_up a1 i1 j1 t = Some i2" "move_right a1 i2 j1 = Some (a2, j2)"
        "partition_loop a2 i2 j2 t = Some (b, k)"
      using "1.prems"
      by (auto simp: partition_loop.simps [of a i j t] split: if_splits Option.bind_splits)
    have j1: "i \<le> j1" "j1 \<le> j" using scan_down_bounds [OF s(1)] True by auto
    have i1: "i \<le> i1" "i1 \<le> j1" using move_left_bounds [OF s(2)] j1 by auto
    have i2: "i1 \<le> i2" "i2 \<le> j1" using scan_up_bounds [OF s(3)] i1 by auto
    have j2: "j2 \<le> j1" using move_right_bounds [OF s(4)] i2 by auto
    have "i2 \<le> k \<and> k \<le> j2"
      using "1.IH" [OF _ _ s(1,2) refl s(3,4) refl s(5)] True by simp
    then show ?thesis using i1 i2 j1 j2 by linarith
  qed
qed

function quicksort :: "int list \<Rightarrow> int \<Rightarrow> int \<Rightarrow> int list option" where
  "quicksort a l r =
     (if l > r then Some a
      else do {
        temp \<leftarrow> rd a l;
        (b, i) \<leftarrow> partition_loop a l r temp;
        c \<leftarrow> wr b i temp;
        d \<leftarrow> quicksort c l (i - 1);
        quicksort d (i + 1) r })"
  by pat_completeness auto
termination
  by (relation "measure (\<lambda>(a, l, r). nat (r - l + 1))") (auto dest: partition_loop_bounds)

declare quicksort.simps [simp del]

lemma quicksort_done [simp]: "r < l \<Longrightarrow> quicksort a l r = Some a"
  by (simp add: quicksort.simps)

section \<open>Definitions: mergeSort.cpp\<close>

text \<open>\<open>while (i <= m && j <= n) if (a[i] < a[j]) temp[k++] = a[i++]; else temp[k++] = a[j++];\<close>\<close>

function merge_both ::
    "int list \<Rightarrow> int \<Rightarrow> int \<Rightarrow> int \<Rightarrow> int \<Rightarrow> int option list \<Rightarrow> int \<Rightarrow> (int \<times> int \<times> int option list \<times> int) option" where
  "merge_both a i m j n temp k =
     (if i \<le> m \<and> j \<le> n then do {
        x \<leftarrow> rd a i;
        y \<leftarrow> rd a j;
        if x < y then do { t \<leftarrow> wr temp k (Some x); merge_both a (i + 1) m j n t (k + 1) }
        else do { t \<leftarrow> wr temp k (Some y); merge_both a i m (j + 1) n t (k + 1) } }
      else Some (i, j, temp, k))"
  by pat_completeness auto
termination
  by (relation "measure (\<lambda>(a, i, m, j, n, t, k). nat (m - i + 1) + nat (n - j + 1))") auto

text \<open>\<open>while (i <= m) temp[k++] = a[i++];\<close>\<close>

function copy_run ::
    "int list \<Rightarrow> int \<Rightarrow> int \<Rightarrow> int option list \<Rightarrow> int \<Rightarrow> (int option list \<times> int) option" where
  "copy_run a i m temp k =
     (if i \<le> m then do {
        x \<leftarrow> rd a i;
        t \<leftarrow> wr temp k (Some x);
        copy_run a (i + 1) m t (k + 1) }
      else Some (temp, k))"
  by pat_completeness auto
termination by (relation "measure (\<lambda>(a, i, m, t, k). nat (m - i + 1))") auto

declare merge_both.simps [simp del] copy_run.simps [simp del]

definition mergearray ::
    "int list \<Rightarrow> int \<Rightarrow> int \<Rightarrow> int \<Rightarrow> int option list \<Rightarrow> (int list \<times> int option list) option" where
  "mergearray a first mid lst temp = do {
     (i, j, t1, k1) \<leftarrow> merge_both a first mid (mid + 1) lst temp 0;
     (t2, k2) \<leftarrow> copy_run a i mid t1 k1;
     (t3, k3) \<leftarrow> copy_run a j lst t2 k2;
     b \<leftarrow> for_up 0 k3 (\<lambda>i b. do { v \<leftarrow> rd t3 i; x \<leftarrow> v; wr b (first + i) x }) a;
     Some (b, t3) }"

function mergesort ::
    "int list \<Rightarrow> int \<Rightarrow> int \<Rightarrow> int option list \<Rightarrow> (int list \<times> int option list) option" where
  "mergesort a first lst temp =
     (if first < lst then do {
        (b, t1) \<leftarrow> mergesort a first ((first + lst) div 2) temp;
        (c, t2) \<leftarrow> mergesort b ((first + lst) div 2 + 1) lst t1;
        mergearray c first ((first + lst) div 2) lst t2 }
      else Some (a, temp))"
  by pat_completeness auto
termination by (relation "measure (\<lambda>(a, first, lst, t). nat (lst - first))") auto

declare mergesort.simps [simp del]

text \<open>\<open>new int[n]\<close> does not return \<open>NULL\<close> (it throws), so the result is always \<open>true\<close>.\<close>

definition MergeSort :: "int list \<Rightarrow> int \<Rightarrow> (int list \<times> bool) option" where
  "MergeSort a n = do {
     (b, p) \<leftarrow> mergesort a 0 (n - 1) (replicate (nat n) None);
     Some (b, True) }"

section \<open>Quicksort\<close>

lemma scan_down_spec:
  "0 \<le> i \<Longrightarrow> i \<le> j \<Longrightarrow> j < int (length a) \<Longrightarrow>
   \<exists>k. scan_down a i j t = Some k \<and> i \<le> k \<and> k \<le> j \<and>
     (\<forall>q. k < q \<longrightarrow> q \<le> j \<longrightarrow> t < a ! nat q) \<and> (i < k \<longrightarrow> a ! nat k \<le> t)"
proof (induction a i j t rule: scan_down.induct)
  case (1 a i j t)
  show ?case
  proof (cases "i < j \<and> a ! nat j > t")
    case False
    have "scan_down a i j t = Some j"
      using False "1.prems" by (cases "i < j") (auto simp: scan_down.simps [of a i j t] arr)
    then show ?thesis using False "1.prems" by auto
  next
    case True
    have r: "rd a j = Some (a ! nat j)" using True "1.prems" by (simp add: arr)
    obtain k where k: "scan_down a i (j - 1) t = Some k" "i \<le> k" "k \<le> j - 1"
        "\<And>q. k < q \<Longrightarrow> q \<le> j - 1 \<Longrightarrow> t < a ! nat q" "i < k \<longrightarrow> a ! nat k \<le> t"
      using "1.IH" [OF _ r] True "1.prems" by auto
    have "t < a ! nat q" if "k < q" "q \<le> j" for q
      using k(4) [of q] that True by (cases "q = j") auto
    then show ?thesis using k True r by (auto simp: scan_down.simps [of a i j t])
  qed
qed

lemma scan_up_spec:
  "0 \<le> i \<Longrightarrow> i \<le> j \<Longrightarrow> j < int (length a) \<Longrightarrow>
   \<exists>k. scan_up a i j t = Some k \<and> i \<le> k \<and> k \<le> j \<and>
     (\<forall>q. i \<le> q \<longrightarrow> q < k \<longrightarrow> a ! nat q < t) \<and> (k < j \<longrightarrow> t \<le> a ! nat k)"
proof (induction a i j t rule: scan_up.induct)
  case (1 a i j t)
  show ?case
  proof (cases "i < j \<and> a ! nat i < t")
    case False
    have "scan_up a i j t = Some i"
      using False "1.prems" by (cases "i < j") (auto simp: scan_up.simps [of a i j t] arr)
    then show ?thesis using False "1.prems" by auto
  next
    case True
    have r: "rd a i = Some (a ! nat i)" using True "1.prems" by (simp add: arr)
    obtain k where k: "scan_up a (i + 1) j t = Some k" "i + 1 \<le> k" "k \<le> j"
        "\<And>q. i + 1 \<le> q \<Longrightarrow> q < k \<Longrightarrow> a ! nat q < t" "k < j \<longrightarrow> t \<le> a ! nat k"
      using "1.IH" [OF _ r] True "1.prems" by auto
    have "a ! nat q < t" if "i \<le> q" "q < k" for q
      using k(4) [of q] that True by (cases "q = i") auto
    then show ?thesis using k True r by (auto simp: scan_up.simps [of a i j t])
  qed
qed

text \<open>
  The state of a partition with pivot \<open>t\<close>: cells left of \<open>i\<close> are at most \<open>t\<close>, cells
  right of \<open>j\<close> at least \<open>t\<close>, and \<open>h\<close> is the hole that \<open>t\<close> was taken from.
\<close>

definition part_inv :: "int list \<Rightarrow> int list \<Rightarrow> int \<Rightarrow> int \<Rightarrow> int \<Rightarrow> int \<Rightarrow> int \<Rightarrow> int \<Rightarrow> bool" where
  "part_inv a0 a l r i j h t \<longleftrightarrow>
     length a = length a0 \<and> 0 \<le> l \<and> l \<le> i \<and> i \<le> h \<and> h \<le> j \<and> j \<le> r \<and> r < int (length a) \<and>
     perm_in l (r + 1) a0 (a[nat h := t]) \<and>
     (\<forall>q. l \<le> q \<longrightarrow> q < i \<longrightarrow> a ! nat q \<le> t) \<and> (\<forall>q. j < q \<longrightarrow> q \<le> r \<longrightarrow> t \<le> a ! nat q)"

lemma part_left:
  assumes "part_inv a0 a l r i j i t"
  shows "\<exists>j1 a1 i1. scan_down a i j t = Some j1 \<and> move_left a i j1 = Some (a1, i1) \<and>
      part_inv a0 a1 l r i1 j1 j1 t"
proof -
  have b: "0 \<le> l" "l \<le> i" "i \<le> j" "j \<le> r" "r < int (length a)"
    and low: "\<And>q. l \<le> q \<Longrightarrow> q < i \<Longrightarrow> a ! nat q \<le> t"
    and high: "\<And>q. j < q \<Longrightarrow> q \<le> r \<Longrightarrow> t \<le> a ! nat q"
    using assms by (auto simp: part_inv_def)
  obtain j1 where j1: "scan_down a i j t = Some j1" "i \<le> j1" "j1 \<le> j"
      "\<And>q. j1 < q \<Longrightarrow> q \<le> j \<Longrightarrow> t < a ! nat q" "i < j1 \<longrightarrow> a ! nat j1 \<le> t"
    using scan_down_spec [of i j a t] b by auto
  have high1: "t \<le> a ! nat q" if "j1 < q" "q \<le> r" for q
    using j1(4) [of q] high [of q] that by (cases "q \<le> j") auto
  show ?thesis
  proof (cases "i < j1")
    case False
    then have "part_inv a0 a l r i j1 j1 t"
      using assms j1 b high1 by (auto simp: part_inv_def)
    then show ?thesis using False j1(1) by (auto simp: move_left_def)
  next
    case True
    let ?a1 = "a[nat i := a ! nat j1]"
    have m: "move_left a i j1 = Some (?a1, i + 1)"
      using True b j1 by (simp add: move_left_def arr)
    have e: "?a1[nat j1 := t] = swp (a[nat i := t]) i j1"
      using hole_move [of i a j1 t] True b j1 by simp
    have "perm_in l (r + 1) (a[nat i := t]) (swp (a[nat i := t]) i j1)"
      using True b j1 by (intro perm_in_swp) auto
    then have "perm_in l (r + 1) a0 (?a1[nat j1 := t])"
      using assms e by (auto simp: part_inv_def intro: perm_in_trans)
    moreover have "?a1 ! nat q \<le> t" if "l \<le> q" "q < i + 1" for q
      using that low [of q] True j1(5) b by (simp add: arr)
    moreover have "t \<le> ?a1 ! nat q" if "j1 < q" "q \<le> r" for q
      using that high1 [of q] True b by (simp add: arr)
    ultimately have "part_inv a0 ?a1 l r (i + 1) j1 j1 t"
      using assms True j1 b by (auto simp: part_inv_def)
    then show ?thesis using j1(1) m by blast
  qed
qed

lemma part_right:
  assumes "part_inv a0 a l r i j j t"
  shows "\<exists>i2 a2 j2. scan_up a i j t = Some i2 \<and> move_right a i2 j = Some (a2, j2) \<and>
      part_inv a0 a2 l r i2 j2 i2 t"
proof -
  have b: "0 \<le> l" "l \<le> i" "i \<le> j" "j \<le> r" "r < int (length a)"
    and low: "\<And>q. l \<le> q \<Longrightarrow> q < i \<Longrightarrow> a ! nat q \<le> t"
    and high: "\<And>q. j < q \<Longrightarrow> q \<le> r \<Longrightarrow> t \<le> a ! nat q"
    using assms by (auto simp: part_inv_def)
  obtain i2 where i2: "scan_up a i j t = Some i2" "i \<le> i2" "i2 \<le> j"
      "\<And>q. i \<le> q \<Longrightarrow> q < i2 \<Longrightarrow> a ! nat q < t" "i2 < j \<longrightarrow> t \<le> a ! nat i2"
    using scan_up_spec [of i j a t] b by auto
  have low1: "a ! nat q \<le> t" if "l \<le> q" "q < i2" for q
    using i2(4) [of q] low [of q] that by (cases "i \<le> q") auto
  show ?thesis
  proof (cases "i2 < j")
    case False
    then have "part_inv a0 a l r i2 j i2 t"
      using assms i2 b low1 by (auto simp: part_inv_def)
    then show ?thesis using False i2(1) by (auto simp: move_right_def)
  next
    case True
    let ?a2 = "a[nat j := a ! nat i2]"
    have m: "move_right a i2 j = Some (?a2, j - 1)"
      using True b i2 by (simp add: move_right_def arr)
    have e: "?a2[nat i2 := t] = swp (a[nat j := t]) j i2"
      using hole_move [of j a i2 t] True b i2 by simp
    have "perm_in l (r + 1) (a[nat j := t]) (swp (a[nat j := t]) j i2)"
      using True b i2 by (intro perm_in_swp) auto
    then have "perm_in l (r + 1) a0 (?a2[nat i2 := t])"
      using assms e by (auto simp: part_inv_def intro: perm_in_trans)
    moreover have "?a2 ! nat q \<le> t" if "l \<le> q" "q < i2" for q
      using that low1 [of q] True b by (simp add: arr)
    moreover have "t \<le> ?a2 ! nat q" if "j - 1 < q" "q \<le> r" for q
      using that high [of q] True i2(5) b by (simp add: arr)
    ultimately have "part_inv a0 ?a2 l r i2 (j - 1) i2 t"
      using assms True i2 b by (auto simp: part_inv_def)
    then show ?thesis using i2(1) m by blast
  qed
qed

lemma partition_loop_spec:
  "part_inv a0 a l r i j i t \<Longrightarrow>
   \<exists>b k. partition_loop a i j t = Some (b, k) \<and> part_inv a0 b l r k k k t"
proof (induction a i j t rule: partition_loop.induct)
  case (1 a i j t)
  have ij: "i \<le> j" using "1.prems" by (auto simp: part_inv_def)
  show ?case
  proof (cases "i = j")
    case True
    then show ?thesis using "1.prems" by (auto simp: partition_loop.simps [of a j j t])
  next
    case False
    obtain j1 a1 i1 where l: "scan_down a i j t = Some j1" "move_left a i j1 = Some (a1, i1)"
        "part_inv a0 a1 l r i1 j1 j1 t"
      using part_left [OF "1.prems"] by blast
    obtain i2 a2 j2 where r: "scan_up a1 i1 j1 t = Some i2" "move_right a1 i2 j1 = Some (a2, j2)"
        "part_inv a0 a2 l r i2 j2 i2 t"
      using part_right [OF l(3)] by blast
    show ?thesis
      using "1.IH" [OF False _ l(1,2) refl r(1,2) refl r(3)] False ij l r
      by (simp add: partition_loop.simps [of a i j t])
  qed
qed

text \<open>Sorted halves around a pivot that separates them.\<close>

lemma sorted_around:
  assumes "seg_sorted d l k" "seg_sorted d (k + 1) r"
    and "\<And>q. l \<le> q \<Longrightarrow> q < k \<Longrightarrow> d ! nat q \<le> d ! nat k"
    and "\<And>q. k < q \<Longrightarrow> q < r \<Longrightarrow> d ! nat k \<le> d ! nat q"
  shows "seg_sorted d l r"
  unfolding seg_sorted_def
proof (intro allI impI)
  fix p q assume pq: "l \<le> p" "p \<le> q" "q < r"
  consider "q < k" | "k < p" | "p \<le> k" "k \<le> q" by linarith
  then show "d ! nat p \<le> d ! nat q"
  proof cases
    case 1
    then show ?thesis using seg_sortedD [OF assms(1)] pq by simp
  next
    case 2
    then show ?thesis using seg_sortedD [OF assms(2)] pq by simp
  next
    case 3
    have "d ! nat p \<le> d ! nat k" using assms(3) [of p] 3 pq by (cases "p = k") auto
    also have "\<dots> \<le> d ! nat q" using assms(4) [of q] 3 pq by (cases "q = k") auto
    finally show ?thesis .
  qed
qed

lemma quicksort_spec:
  "0 \<le> l \<Longrightarrow> r < int (length a) \<Longrightarrow>
   \<exists>b. quicksort a l r = Some b \<and> seg_sorted b l (r + 1) \<and> perm_in l (r + 1) a b"
proof (induction a l r rule: quicksort.induct)
  case (1 a l r)
  show ?case
  proof (cases "l > r")
    case False
    let ?t = "a ! nat l"
    have rl: "rd a l = Some ?t" using False "1.prems" by (simp add: arr)
    have "part_inv a a l r l r l ?t" using False "1.prems" by (auto simp: part_inv_def)
    then obtain b k where b: "partition_loop a l r ?t = Some (b, k)" "part_inv a b l r k k k ?t"
      using partition_loop_spec by blast
    let ?c = "b[nat k := ?t]"
    have k: "l \<le> k" "k \<le> r" and lb: "length b = length a" and pc: "perm_in l (r + 1) a ?c"
      and low: "\<And>q. l \<le> q \<Longrightarrow> q < k \<Longrightarrow> b ! nat q \<le> ?t"
      and high: "\<And>q. k < q \<Longrightarrow> q \<le> r \<Longrightarrow> ?t \<le> b ! nat q"
      using b(2) by (auto simp: part_inv_def)
    have w: "wr b k ?t = Some ?c" using k lb "1.prems" by (simp add: arr)
    have ck: "?c ! nat q = (if q = k then ?t else b ! nat q)" if "0 \<le> q" for q
      using that k lb "1.prems" by (simp add: arr)
    obtain d where d: "quicksort ?c l (k - 1) = Some d" "seg_sorted d l k" "perm_in l k ?c d"
      using "1.IH"(1) [OF False rl b(1) refl w] k lb "1.prems" by auto
    have ld: "length d = length a" using d(3) lb by (simp add: perm_in_length)
    obtain e where e: "quicksort d (k + 1) r = Some e" "seg_sorted e (k + 1) (r + 1)"
        "perm_in (k + 1) (r + 1) d e"
      using "1.IH"(2) [OF False rl b(1) refl w d(1)] k ld "1.prems" by auto
    have dq: "d ! nat q = ?c ! nat q" if "k \<le> q" "q \<le> r" for q
      using perm_in_out [OF d(3), of q] that k lb "1.prems" by simp
    have eq: "e ! nat q = d ! nat q" if "l \<le> q" "q \<le> k" for q
      using perm_in_out [OF e(3), of q] that k ld "1.prems" by simp
    have ek: "e ! nat k = ?t" using eq [of k] dq [of k] ck [of k] k "1.prems" by simp
    have "seg_sorted e l (r + 1)"
    proof (rule sorted_around [OF _ e(2)])
      show "seg_sorted e l k" using d(2) eq by (simp add: seg_sorted_def)
    next
      fix q assume q: "l \<le> q" "q < k"
      have "d ! nat q \<le> ?t"
        by (rule perm_in_all [OF d(3)]) (use q k lb low ck "1.prems" in auto)
      then show "e ! nat q \<le> e ! nat k" using eq q ek by simp
    next
      fix q assume q: "k < q" "q < r + 1"
      have "?t \<le> e ! nat q"
        by (rule perm_in_all [OF e(3)]) (use q k ld dq high ck "1.prems" in auto)
      then show "e ! nat k \<le> e ! nat q" using ek by simp
    qed
    moreover have "perm_in l (r + 1) a e"
      using perm_in_trans [OF pc perm_in_trans [OF perm_in_mono [OF d(3), of l "r + 1"]
            perm_in_mono [OF e(3), of l "r + 1"]]] k by simp
    moreover have "quicksort a l r = Some e"
      using False rl b(1) w d(1) e(1) by (simp add: quicksort.simps [of a l r])
    ultimately show ?thesis by blast
  qed simp
qed

text \<open>The whole array is sorted by the call \<open>quicksort(a, 0, n - 1)\<close>.\<close>

interpretation quick: array_sorter "\<lambda>a n. quicksort a 0 (n - 1)"
proof
  fix n :: int and a :: "int list" assume "0 \<le> n" "n \<le> int (length a)"
  then show "\<exists>b. quicksort a 0 (n - 1) = Some b \<and> seg_sorted b 0 n \<and> perm_in 0 n a b"
    using quicksort_spec [of 0 "n - 1" a] by simp
qed

section \<open>Merge sort\<close>

text \<open>The merge the loops compute; on equal heads the right run goes first.\<close>

fun merge_runs :: "int list \<Rightarrow> int list \<Rightarrow> int list" where
  "merge_runs [] ys = ys"
| "merge_runs xs [] = xs"
| "merge_runs (x # xs) (y # ys) =
     (if x < y then x # merge_runs xs (y # ys) else y # merge_runs (x # xs) ys)"

lemma merge_runs_Nil2 [simp]: "merge_runs xs [] = xs"
  by (cases xs) auto

lemma mset_merge_runs [simp]: "mset (merge_runs xs ys) = mset xs + mset ys"
  by (induction xs ys rule: merge_runs.induct) auto

lemma length_merge_runs [simp]: "length (merge_runs xs ys) = length xs + length ys"
  by (induction xs ys rule: merge_runs.induct) auto

lemma set_merge_runs [simp]: "set (merge_runs xs ys) = set xs \<union> set ys"
  by (induction xs ys rule: merge_runs.induct) auto

lemma sorted_merge_runs: "sorted xs \<Longrightarrow> sorted ys \<Longrightarrow> sorted (merge_runs xs ys)"
  by (induction xs ys rule: merge_runs.induct) (auto simp: less_imp_le order_trans)

text \<open>The first \<open>k\<close> cells of the buffer hold \<open>xs\<close>.\<close>

definition filled :: "int option list \<Rightarrow> int \<Rightarrow> int list \<Rightarrow> bool" where
  "filled t k xs \<longleftrightarrow> k = int (length xs) \<and> length xs \<le> length t \<and> take (length xs) t = map Some xs"

lemma filled_step:
  assumes "filled t k xs" "length xs < length t"
  shows "wr t k (Some x) = Some (t[length xs := Some x]) \<and>
      filled (t[length xs := Some x]) (k + 1) (xs @ [x])"
  using assms by (auto simp: filled_def wr_def take_Suc_conv_app_nth)

lemma filled_nth: "filled t k xs \<Longrightarrow> i < length xs \<Longrightarrow> t ! i = Some (xs ! i)"
  unfolding filled_def by (metis nth_map nth_take)

lemma copy_run_spec:
  "filled t k xs \<Longrightarrow> 0 \<le> i \<Longrightarrow> m < int (length a) \<Longrightarrow>
   length xs + length (seg i (m + 1) a) \<le> length t \<Longrightarrow>
   \<exists>t' k'. copy_run a i m t k = Some (t', k') \<and> filled t' k' (xs @ seg i (m + 1) a) \<and>
     length t' = length t"
proof (induction a i m t k arbitrary: xs rule: copy_run.induct)
  case (1 a i m t k)
  note prems = "1.prems"
  show ?case
  proof (cases "i \<le> m")
    case False
    then show ?thesis using prems by (simp add: copy_run.simps [of a i m t k])
  next
    case True
    have s: "seg i (m + 1) a = a ! nat i # seg (i + 1) (m + 1) a"
      using seg_Cons [of i "m + 1" a] True prems by simp
    have r: "rd a i = Some (a ! nat i)" using True prems by (simp add: arr)
    let ?t = "t[length xs := Some (a ! nat i)]"
    have w: "wr t k (Some (a ! nat i)) = Some ?t" "filled ?t (k + 1) (xs @ [a ! nat i])"
      using filled_step [OF prems(1)] prems s by auto
    show ?thesis
      using "1.IH" [OF True r w(1) w(2)] True prems s r w(1)
      by (simp add: copy_run.simps [of a i m t k])
  qed
qed

lemma merge_both_spec:
  "filled t k xs \<Longrightarrow> 0 \<le> i \<Longrightarrow> i \<le> m + 1 \<Longrightarrow> m < int (length a) \<Longrightarrow>
   0 \<le> j \<Longrightarrow> j \<le> n + 1 \<Longrightarrow> n < int (length a) \<Longrightarrow>
   length xs + length (seg i (m + 1) a) + length (seg j (n + 1) a) \<le> length t \<Longrightarrow>
   \<exists>i' j' t' k' ys. merge_both a i m j n t k = Some (i', j', t', k') \<and>
     filled t' k' (xs @ ys) \<and> length t' = length t \<and> 0 \<le> i' \<and> 0 \<le> j' \<and>
     ys @ seg i' (m + 1) a @ seg j' (n + 1) a =
       merge_runs (seg i (m + 1) a) (seg j (n + 1) a)"
proof (induction a i m j n t k arbitrary: xs rule: merge_both.induct)
  case (1 a i m j n t k)
  note prems = "1.prems"
  show ?case
  proof (cases "i \<le> m \<and> j \<le> n")
    case False
    then have "seg i (m + 1) a = [] \<or> seg j (n + 1) a = []" by auto
    then have "seg i (m + 1) a @ seg j (n + 1) a = merge_runs (seg i (m + 1) a) (seg j (n + 1) a)"
      by auto
    then have "[] @ seg i (m + 1) a @ seg j (n + 1) a =
        merge_runs (seg i (m + 1) a) (seg j (n + 1) a)" by simp
    moreover have "merge_both a i m j n t k = Some (i, j, t, k)"
      using False by (subst merge_both.simps) auto
    moreover have "filled t k (xs @ [])" using prems by simp
    ultimately show ?thesis using prems by blast
  next
    case True
    let ?x = "a ! nat i" and ?y = "a ! nat j"
    have s: "seg i (m + 1) a = ?x # seg (i + 1) (m + 1) a"
        "seg j (n + 1) a = ?y # seg (j + 1) (n + 1) a"
      using seg_Cons [of i "m + 1" a] seg_Cons [of j "n + 1" a] True prems by auto
    have r: "rd a i = Some ?x" "rd a j = Some ?y" using True prems by (simp_all add: arr)
    have w: "wr t k (Some z) = Some (t[length xs := Some z]) \<and>
        filled (t[length xs := Some z]) (k + 1) (xs @ [z])" for z
      using filled_step [OF prems(1)] prems s by auto
    show ?thesis
    proof (cases "?x < ?y")
      case lt: True
      obtain i' j' t' k' ys where
        "merge_both a (i + 1) m j n (t[length xs := Some ?x]) (k + 1) = Some (i', j', t', k')"
        "filled t' k' ((xs @ [?x]) @ ys)" "length t' = length t" "0 \<le> i'" "0 \<le> j'"
        "ys @ seg i' (m + 1) a @ seg j' (n + 1) a =
          merge_runs (seg (i + 1) (m + 1) a) (seg j (n + 1) a)"
        using "1.IH"(1) [OF True r lt conjunct1 [OF w] conjunct2 [OF w]] True prems s by auto
      then show ?thesis using True r lt w [of ?x] s
        by (intro exI [of _ i'] exI [of _ j'] exI [of _ t'] exI [of _ k'] exI [of _ "?x # ys"])
          (simp add: merge_both.simps [of a i m j n t k])
    next
      case ge: False
      obtain i' j' t' k' ys where
        "merge_both a i m (j + 1) n (t[length xs := Some ?y]) (k + 1) = Some (i', j', t', k')"
        "filled t' k' ((xs @ [?y]) @ ys)" "length t' = length t" "0 \<le> i'" "0 \<le> j'"
        "ys @ seg i' (m + 1) a @ seg j' (n + 1) a =
          merge_runs (seg i (m + 1) a) (seg (j + 1) (n + 1) a)"
        using "1.IH"(2) [OF True r ge conjunct1 [OF w] conjunct2 [OF w]] True prems s by auto
      then show ?thesis using True r ge w [of ?y] s
        by (intro exI [of _ i'] exI [of _ j'] exI [of _ t'] exI [of _ k'] exI [of _ "?y # ys"])
          (simp add: merge_both.simps [of a i m j n t k])
    qed
  qed
qed

text \<open>Copying the buffer back overwrites the segment and nothing else.\<close>

lemma copy_back_spec:
  assumes "filled t k xs" "0 \<le> lo" "lo + k \<le> int (length a)"
  shows "\<exists>b. for_up 0 k (\<lambda>i b. do { v \<leftarrow> rd t i; x \<leftarrow> v; wr b (lo + i) x }) a = Some b \<and>
      length b = length a \<and>
      (\<forall>q. 0 \<le> q \<longrightarrow> q < int (length a) \<longrightarrow>
        b ! nat q = (if lo \<le> q \<and> q < lo + k then xs ! nat (q - lo) else a ! nat q))"
proof -
  define I where "I i b \<longleftrightarrow> length b = length a \<and>
      (\<forall>q. 0 \<le> q \<longrightarrow> q < int (length a) \<longrightarrow>
        b ! nat q = (if lo \<le> q \<and> q < lo + i then xs ! nat (q - lo) else a ! nat q))" for i b
  have k: "k = int (length xs)" "length xs \<le> length t" using assms(1) by (auto simp: filled_def)
  have "\<exists>b. for_up 0 k (\<lambda>i b. do { v \<leftarrow> rd t i; x \<leftarrow> v; wr b (lo + i) x }) a = Some b \<and> I k b"
  proof (rule for_up_rule)
    show "I 0 a" by (auto simp: I_def)
  next
    fix i s assume i: "0 \<le> i" "i < k" and I: "I i s"
    have t: "rd t i = Some (Some (xs ! nat i))"
      using filled_nth [OF assms(1), of "nat i"] i k by (simp add: arr)
    have w: "wr s (lo + i) (xs ! nat i) = Some (s[nat (lo + i) := xs ! nat i])"
      using I i assms by (simp add: I_def arr)
    have "I (i + 1) (s[nat (lo + i) := xs ! nat i])"
      using I i assms by (auto simp: I_def arr)
    then show "\<exists>u. do { v \<leftarrow> rd t i; x \<leftarrow> v; wr s (lo + i) x } = Some u \<and> I (i + 1) u"
      using t w by simp
  qed (use k in simp)
  then show ?thesis by (simp add: I_def)
qed

lemma mergearray_spec:
  assumes "0 \<le> lo" "lo \<le> mid" "mid < hi" "hi < int (length a)" "hi - lo < int (length t)"
    and s: "seg_sorted a lo (mid + 1)" "seg_sorted a (mid + 1) (hi + 1)"
  shows "\<exists>b t'. mergearray a lo mid hi t = Some (b, t') \<and> length t' = length t \<and>
      seg_sorted b lo (hi + 1) \<and> perm_in lo (hi + 1) a b"
proof -
  let ?l = "seg lo (mid + 1) a" and ?r = "seg (mid + 1) (hi + 1) a"
  define ms where "ms = merge_runs ?l ?r"
  have len: "int (length ms) = hi + 1 - lo"
    using assms by (simp add: ms_def length_seg)
  have lt: "length ?l + length ?r \<le> length t" using assms by (simp add: length_seg)
  have f0: "filled t 0 []" by (simp add: filled_def)
  obtain i j t1 k1 ys where 1: "merge_both a lo mid (mid + 1) hi t 0 = Some (i, j, t1, k1)"
      "filled t1 k1 ys" "length t1 = length t" "0 \<le> i" "0 \<le> j"
      "ys @ seg i (mid + 1) a @ seg j (hi + 1) a = ms"
    using merge_both_spec [OF f0, of lo mid a "mid + 1" hi] assms lt ms_def by auto
  have l1: "length ys + length (seg i (mid + 1) a) + length (seg j (hi + 1) a) = length ms"
    using 1(6) by (metis add.assoc length_append)
  have lm: "length ms \<le> length t" using len assms(5) by linarith
  obtain t2 k2 where 2: "copy_run a i mid t1 k1 = Some (t2, k2)"
      "filled t2 k2 (ys @ seg i (mid + 1) a)" "length t2 = length t"
    using copy_run_spec [OF 1(2,4), of mid a] assms l1 lm 1(3) by auto
  obtain t3 k3 where 3: "copy_run a j hi t2 k2 = Some (t3, k3)"
      "filled t3 k3 ((ys @ seg i (mid + 1) a) @ seg j (hi + 1) a)" "length t3 = length t"
    using copy_run_spec [OF 2(2) 1(5), of hi a] assms l1 lm 2(3) by auto
  have f: "filled t3 k3 ms" using 3(2) 1(6) by simp
  have k3: "k3 = hi + 1 - lo" using f len by (simp add: filled_def)
  obtain b where b: "for_up 0 k3 (\<lambda>i b. do { v \<leftarrow> rd t3 i; x \<leftarrow> v; wr b (lo + i) x }) a = Some b"
      "length b = length a"
      "\<And>q. 0 \<le> q \<Longrightarrow> q < int (length a) \<Longrightarrow>
        b ! nat q = (if lo \<le> q \<and> q < lo + k3 then ms ! nat (q - lo) else a ! nat q)"
    using copy_back_spec [OF f, of lo a] assms k3 by auto
  have seg: "seg lo (hi + 1) b = ms"
  proof (rule nth_equalityI)
    show "length (seg lo (hi + 1) b) = length ms" using len b(2) assms by (simp add: length_seg)
    fix k assume "k < length (seg lo (hi + 1) b)"
    then have k: "k < nat (hi + 1 - lo)" using b(2) assms by (simp add: length_seg)
    then have "lo + int k \<le> hi" by linarith
    with k show "seg lo (hi + 1) b ! k = ms ! k"
      using nth_seg [of lo "hi + 1" b k] b(2) b(3) [of "lo + int k"] k3 assms by simp
  qed
  have "sorted ms"
    using s assms by (simp add: ms_def sorted_merge_runs seg_sorted_iff)
  then have "seg_sorted b lo (hi + 1)" using seg b(2) assms by (simp add: seg_sorted_iff)
  moreover have "perm_in lo (hi + 1) a b"
  proof (rule perm_in_segI)
    show "mset (seg lo (hi + 1) b) = mset (seg lo (hi + 1) a)"
      using seg_append [of lo "mid + 1" "hi + 1" a] assms seg
      by (metis add_increasing2 ms_def mset_append mset_merge_runs order_less_imp_le add_mono1 zless_add1_eq zero_le_one less_add_one order.strict_trans1)
  qed (use b k3 assms in auto)
  moreover have "mergearray a lo mid hi t = Some (b, t3)"
    using 1(1) 2(1) 3(1) b(1) by (simp add: mergearray_def)
  ultimately show ?thesis using 3(3) by blast
qed

lemma mergesort_spec:
  "0 \<le> lo \<Longrightarrow> hi < int (length a) \<Longrightarrow> hi - lo < int (length t) \<Longrightarrow>
   \<exists>b t'. mergesort a lo hi t = Some (b, t') \<and> length t' = length t \<and>
     seg_sorted b lo (hi + 1) \<and> perm_in lo (hi + 1) a b"
proof (induction a lo hi t rule: mergesort.induct)
  case (1 a lo hi t)
  note prems = "1.prems"
  show ?case
  proof (cases "lo < hi")
    case False
    then show ?thesis by (simp add: mergesort.simps [of a lo hi t])
  next
    case True
    define mid where "mid = (lo + hi) div 2"
    have m: "lo \<le> mid" "mid < hi" using True by (auto simp: mid_def)
    obtain b t1 where b: "mergesort a lo mid t = Some (b, t1)" "length t1 = length t"
        "seg_sorted b lo (mid + 1)" "perm_in lo (mid + 1) a b"
      using "1.IH"(1) [OF True] prems m by (auto simp: mid_def)
    have lb: "length b = length a" using b(4) by (rule perm_in_length)
    obtain c t2 where c: "mergesort b (mid + 1) hi t1 = Some (c, t2)" "length t2 = length t"
        "seg_sorted c (mid + 1) (hi + 1)" "perm_in (mid + 1) (hi + 1) b c"
      using "1.IH"(2) [OF True b(1) [unfolded mid_def] refl] prems m b(2) lb
      by (auto simp: mid_def)
    have lc: "length c = length a" using c(4) lb by (simp add: perm_in_length)
    have "c ! nat q = b ! nat q" if "lo \<le> q" "q < mid + 1" for q
      using perm_in_out [OF c(4), of q] that prems m lb by simp
    then have "seg_sorted c lo (mid + 1)" using b(3) by (simp add: seg_sorted_def)
    then obtain d t3 where d: "mergearray c lo mid hi t2 = Some (d, t3)" "length t3 = length t"
        "seg_sorted d lo (hi + 1)" "perm_in lo (hi + 1) c d"
      using mergearray_spec [of lo mid hi c t2] m prems lc c by auto
    have "perm_in lo (hi + 1) a d"
      using perm_in_trans [OF perm_in_mono [OF b(4), of lo "hi + 1"]
          perm_in_trans [OF perm_in_mono [OF c(4), of lo "hi + 1"] d(4)]] m by simp
    then show ?thesis using True b(1) c(1) d
      by (simp add: mergesort.simps [of a lo hi t] mid_def)
  qed
qed

interpretation merge: array_sorter "\<lambda>a n. map_option fst (MergeSort a n)"
proof
  fix n :: int and a :: "int list" assume "0 \<le> n" "n \<le> int (length a)"
  then show "\<exists>b. map_option fst (MergeSort a n) = Some b \<and> seg_sorted b 0 n \<and> perm_in 0 n a b"
    using mergesort_spec [of 0 "n - 1" a "replicate (nat n) None"]
    by (auto simp: MergeSort_def)
qed

section \<open>Properties\<close>

text \<open>\<open>quicksort(a, 0, n - 1)\<close> returns for every array (its scans never leave the segment and
  the recursion ends), sorts the first \<open>n\<close> cells and leaves the others alone.\<close>

theorem quicksort_correct:
  assumes "n \<le> length a"
  shows "quicksort a 0 (int n - 1) = Some (sort (take n a) @ drop n a)"
  using assms by (rule quick.prefix)

lemma quicksort_correct_witness: "quicksort [3, 1, 2, 1] 0 2 = Some ([1, 2, 3] @ [1])"
  using quicksort_correct [of 3 "[3, 1, 2, 1]"] by simp

text \<open>\<open>MergeSort\<close> with its freshly allocated, uninitialised buffer returns \<open>true\<close> and sorts the
  first \<open>n\<close> cells: no cell of the buffer is read before it is written.\<close>

theorem MergeSort_correct:
  assumes "n \<le> length a"
  shows "MergeSort a (int n) = Some (sort (take n a) @ drop n a, True)"
  using merge.prefix [OF assms] by (auto simp: MergeSort_def split: Option.bind_splits)

lemma MergeSort_correct_witness:
  "MergeSort [3, 1, 2, 1] 3 = Some ([1, 2, 3] @ [1], True)"
  using MergeSort_correct [of 3 "[3, 1, 2, 1]"] by simp

end
