(* ===== verification/Kmp.thy ===== *)
theory Kmp
  imports Prelude
begin

text \<open>
  \<open>c++/algos/kmp.cpp\<close>: the two tables \<open>get_next\<close> and \<open>get_nextval\<close> and the search
  \<open>kmp_search\<close>.  The table is a fresh \<open>new int[tlen]\<close>, so its cells start uninitialised
  (\<open>None\<close>) and reading such a cell is an error.  The loops follow links of the table; they
  are defined as partial functions whose value \<open>None\<close> also stands for not returning, so the
  theorems that give a \<open>Some\<close> include termination.
\<close>

section \<open>Definitions\<close>

text \<open>The test \<open>k == -1 || t[j] == t[k]\<close>.\<close>

definition same_char :: "'a list \<Rightarrow> int \<Rightarrow> int \<Rightarrow> bool option" where
  "same_char t j k =
     (if k = -1 then Some True else do { x \<leftarrow> rd t j; y \<leftarrow> rd t k; Some (x = y) })"

partial_function (option) get_next_loop ::
    "'a list \<Rightarrow> int option list \<Rightarrow> int \<Rightarrow> int \<Rightarrow> int option list option" where
  [code]: "get_next_loop t next k j =
     (if j < int (length t) - 1 then do {
        m \<leftarrow> same_char t j k;
        if m then do {
          nx \<leftarrow> wr next (j + 1) (Some (k + 1));
          get_next_loop t nx (k + 1) (j + 1) }
        else do {
          v \<leftarrow> rd next k;
          k' \<leftarrow> v;
          get_next_loop t next k' j } }
      else Some next)"

definition get_next :: "'a list \<Rightarrow> int option list \<Rightarrow> int option list option" where
  "get_next t next = do {
     nx \<leftarrow> wr next 0 (Some (-1));
     get_next_loop t nx (-1) 0 }"

partial_function (option) get_nextval_loop ::
    "'a list \<Rightarrow> int option list \<Rightarrow> int \<Rightarrow> int \<Rightarrow> int option list option" where
  [code]: "get_nextval_loop t nextval k j =
     (if j < int (length t) - 1 then do {
        m \<leftarrow> same_char t j k;
        if m then do {
          x \<leftarrow> rd t (j + 1);
          y \<leftarrow> rd t (k + 1);
          v \<leftarrow> (if x \<noteq> y then Some (Some (k + 1)) else rd nextval (k + 1));
          w \<leftarrow> v;
          nx \<leftarrow> wr nextval (j + 1) (Some w);
          get_nextval_loop t nx (k + 1) (j + 1) }
        else do {
          v \<leftarrow> rd nextval k;
          k' \<leftarrow> v;
          get_nextval_loop t nextval k' j } }
      else Some nextval)"

definition get_nextval :: "'a list \<Rightarrow> int option list \<Rightarrow> int option list option" where
  "get_nextval t nextval = do {
     nx \<leftarrow> wr nextval 0 (Some (-1));
     get_nextval_loop t nx (-1) 0 }"

text \<open>
  The search loop.  \<open>charactor.cpp\<close> has the same loop over a table of \<open>size_t\<close>, so the
  reading of a link, \<open>j = next[j]\<close>, is a parameter.
\<close>

partial_function (option) kmp_loop ::
    "'a list \<Rightarrow> 'a list \<Rightarrow> (int \<Rightarrow> int option) \<Rightarrow> int \<Rightarrow> int \<Rightarrow> (int \<times> int) option" where
  [code]: "kmp_loop s t link i j =
     (if i < int (length s) \<and> j < int (length t) then
        if j = -1 then kmp_loop s t link (i + 1) (j + 1)
        else if int (length s) - i \<ge> int (length t) - j then do {
          x \<leftarrow> rd s i;
          y \<leftarrow> rd t j;
          if x = y then kmp_loop s t link (i + 1) (j + 1)
          else do { j' \<leftarrow> link j; kmp_loop s t link i j' } }
        else Some (i, j)
      else Some (i, j))"

definition int_link :: "int option list \<Rightarrow> int \<Rightarrow> int option" where
  "int_link next j = do { v \<leftarrow> rd next j; v }"

definition kmp_search :: "'a list \<Rightarrow> 'a list \<Rightarrow> int option" where
  "kmp_search s t = do {
     next \<leftarrow> get_nextval t (replicate (length t) None);
     (i, j) \<leftarrow> kmp_loop s t (int_link next) 0 0;
     Some (if j > 0 \<and> j = int (length t) then i - j else -1) }"

section \<open>Borders\<close>

text \<open>The first \<open>k\<close> elements of \<open>t\<close> are the last \<open>k\<close> of its first \<open>j\<close>, and \<open>k < j\<close>.\<close>

definition border :: "'a list \<Rightarrow> nat \<Rightarrow> nat \<Rightarrow> bool" where
  "border t j k \<longleftrightarrow> k < j \<and> (\<forall>q<k. t ! q = t ! (j - k + q))"

lemma border_less: "border t j k \<Longrightarrow> k < j"
  by (simp add: border_def)

lemma not_border_0 [simp]: "\<not> border t 0 k"
  by (simp add: border_def)

lemma border_0 [simp]: "border t j 0 \<longleftrightarrow> 0 < j"
  by (simp add: border_def)

lemma border_Suc: "border t (Suc j) (Suc k) \<longleftrightarrow> border t j k \<and> t ! k = t ! j"
  by (auto simp: border_def less_Suc_eq)

lemma border_trans: "border t j k \<Longrightarrow> border t k m \<Longrightarrow> border t j m"
  unfolding border_def
proof (elim conjE, intro conjI allI impI)
  fix q assume jk: "k < j" "\<forall>q<k. t ! q = t ! (j - k + q)" and km: "m < k" "\<forall>q<m. t ! q = t ! (k - m + q)"
    and q: "q < m"
  have "t ! q = t ! (k - m + q)" using km q by blast
  also have "\<dots> = t ! (j - k + (k - m + q))" using jk(2) km(1) q by simp
  also have "j - k + (k - m + q) = j - m + q" using jk(1) km(1) by simp
  finally show "t ! q = t ! (j - m + q)" .
qed simp

lemma border_sub: "border t j k \<Longrightarrow> border t j m \<Longrightarrow> m < k \<Longrightarrow> border t k m"
  unfolding border_def
proof (elim conjE, intro conjI allI impI)
  fix q assume jk: "k < j" "\<forall>q<k. t ! q = t ! (j - k + q)" and jm: "\<forall>q<m. t ! q = t ! (j - m + q)"
    and mk: "m < k" and q: "q < m"
  have "t ! (k - m + q) = t ! (j - k + (k - m + q))" using jk(2) mk q by simp
  also have "j - k + (k - m + q) = j - m + q" using jk(1) mk by simp
  finally show "t ! q = t ! (k - m + q)" using jm q by simp
qed simp

section \<open>Table entries\<close>

text \<open>
  \<open>next_ok\<close>: the entry is the longest border.  \<open>nextval_ok\<close>: the longest border
  after which the pattern continues with another character than at \<open>j\<close>.  \<open>fail_ok\<close> is what
  the search and the construction need of either: every longer border continues with the
  same character as at \<open>j\<close>.
\<close>

definition fail_ok :: "'a list \<Rightarrow> nat \<Rightarrow> int \<Rightarrow> bool" where
  "fail_ok t j v \<longleftrightarrow> (v = -1 \<or> 0 \<le> v \<and> border t j (nat v)) \<and>
     (\<forall>m. border t j m \<longrightarrow> v < int m \<longrightarrow> t ! m = t ! j)"

definition next_ok :: "'a list \<Rightarrow> nat \<Rightarrow> int \<Rightarrow> bool" where
  "next_ok t j v \<longleftrightarrow> (if j = 0 then v = -1 else 0 \<le> v \<and> border t j (nat v)) \<and>
     (\<forall>m. border t j m \<longrightarrow> int m \<le> v)"

definition nextval_ok :: "'a list \<Rightarrow> nat \<Rightarrow> int \<Rightarrow> bool" where
  "nextval_ok t j v \<longleftrightarrow> fail_ok t j v \<and> (0 \<le> v \<longrightarrow> t ! nat v \<noteq> t ! j)"

lemma next_ok_fail_ok: "next_ok t j v \<Longrightarrow> fail_ok t j v"
  by (force simp: next_ok_def fail_ok_def split: if_splits)

lemma fail_ok_less: "fail_ok t j v \<Longrightarrow> -1 \<le> v \<and> v < int j"
  by (auto simp: fail_ok_def dest: border_less)

text \<open>
  A candidate: \<open>k\<close> is a border of \<open>j\<close> (or \<open>-1\<close>) and no longer border can be extended
  by the character at \<open>j\<close>.
\<close>

definition cand :: "'a list \<Rightarrow> nat \<Rightarrow> int \<Rightarrow> bool" where
  "cand t j k \<longleftrightarrow> (k = -1 \<or> 0 \<le> k \<and> border t j (nat k)) \<and>
     (\<forall>m. border t j m \<longrightarrow> k < int m \<longrightarrow> t ! m \<noteq> t ! j)"

lemma cand_less: "cand t j k \<Longrightarrow> -1 \<le> k \<and> k < int j"
  by (auto simp: cand_def dest: border_less)

lemma cand_start: "cand t 0 (-1)"
  by (simp add: cand_def)

lemma cand_match:
  assumes "cand t j k" "k = -1 \<or> t ! j = t ! nat k"
  shows "next_ok t (Suc j) (k + 1)"
proof -
  have "border t (Suc j) (nat (k + 1))"
  proof (cases "k = -1")
    case False
    then have "0 \<le> k" "border t j (nat k)" using assms(1) by (auto simp: cand_def)
    then show ?thesis using assms(2) False by (simp add: border_Suc nat_add_distrib)
  qed simp
  moreover have "int m \<le> k + 1" if "border t (Suc j) m" for m
  proof (cases m)
    case (Suc n)
    then have "border t j n" "t ! n = t ! j" using that by (auto simp: border_Suc)
    then have "\<not> k < int n" using assms(1) by (auto simp: cand_def)
    then show ?thesis using Suc by simp
  qed (use cand_less [OF assms(1)] in simp)
  ultimately show ?thesis using cand_less [OF assms(1)] by (auto simp: next_ok_def)
qed

lemma next_ok_cand: "next_ok t (Suc j) k \<Longrightarrow> cand t (Suc j) k"
  by (force simp: next_ok_def cand_def)

lemma cand_mismatch:
  assumes "cand t j k" "0 \<le> k" "t ! j \<noteq> t ! nat k" "fail_ok t (nat k) v"
  shows "cand t j v"
proof -
  have b: "border t j (nat k)" using assms(1,2) by (auto simp: cand_def)
  have v: "v < k" using fail_ok_less [OF assms(4)] assms(2) by simp
  have "t ! m \<noteq> t ! j" if m: "border t j m" "v < int m" for m
  proof (cases "int m < k")
    case True
    then have "border t (nat k) m" using border_sub [OF b m(1)] by simp
    then have "t ! m = t ! nat k" using assms(4) m(2) by (auto simp: fail_ok_def)
    then show ?thesis using assms(3) by simp
  next
    case False
    then show ?thesis using assms(1-3) m(1) by (cases "int m = k") (auto simp: cand_def)
  qed
  moreover have "v = -1 \<or> 0 \<le> v \<and> border t j (nat v)"
    using assms(4) border_trans [OF b] by (auto simp: fail_ok_def)
  ultimately show ?thesis by (auto simp: cand_def)
qed

lemma nextval_entry:
  assumes "next_ok t (Suc j) k" "0 \<le> k"
    and "t ! Suc j \<noteq> t ! nat k \<and> w = k \<or> t ! Suc j = t ! nat k \<and> nextval_ok t (nat k) w"
  shows "nextval_ok t (Suc j) w"
proof -
  have b: "border t (Suc j) (nat k)" and le: "\<And>m. border t (Suc j) m \<Longrightarrow> int m \<le> k"
    using assms(1) by (auto simp: next_ok_def)
  show ?thesis
    using assms(3)
  proof
    assume "t ! Suc j \<noteq> t ! nat k \<and> w = k"
    then show ?thesis using b le assms(2) by (force simp: nextval_ok_def fail_ok_def)
  next
    assume w: "t ! Suc j = t ! nat k \<and> nextval_ok t (nat k) w"
    have "t ! m = t ! Suc j" if m: "border t (Suc j) m" "w < int m" for m
    proof (cases "int m = k")
      case False
      then have "border t (nat k) m" using border_sub [OF b m(1)] le [OF m(1)] by simp
      then show ?thesis using w m(2) by (auto simp: nextval_ok_def fail_ok_def)
    qed (use w in auto)
    moreover have "w = -1 \<or> 0 \<le> w \<and> border t (Suc j) (nat w)"
      using w border_trans [OF b] by (auto simp: nextval_ok_def fail_ok_def)
    ultimately show ?thesis using w by (auto simp: nextval_ok_def fail_ok_def)
  qed
qed

section \<open>The tables are built\<close>

text \<open>All entries up to \<open>j\<close> are written and satisfy \<open>P\<close>.\<close>

definition table :: "('a list \<Rightarrow> nat \<Rightarrow> int \<Rightarrow> bool) \<Rightarrow> 'a list \<Rightarrow> nat \<Rightarrow> int option list \<Rightarrow> bool" where
  "table P t n nx \<longleftrightarrow> length nx = length t \<and> (\<forall>i<n. \<exists>v. nx ! i = Some v \<and> P t i v)"

lemma table_rd:
  "table P t n nx \<Longrightarrow> 0 \<le> k \<Longrightarrow> k < int n \<Longrightarrow> n \<le> length t \<Longrightarrow>
   \<exists>v. rd nx k = Some (Some v) \<and> P t (nat k) v"
  by (auto simp: table_def rd_def)

lemma table_wr:
  "table P t n nx \<Longrightarrow> n < length t \<Longrightarrow> P t n v \<Longrightarrow>
   wr nx (int n) (Some v) = Some (nx[n := Some v]) \<and> table P t (Suc n) (nx[n := Some v])"
  by (auto simp: table_def wr_def nth_list_update less_Suc_eq)

lemma table_mono: "table P t n nx \<Longrightarrow> (\<And>i v. P t i v \<Longrightarrow> Q t i v) \<Longrightarrow> table Q t n nx"
  unfolding table_def by blast

lemma same_char_cand:
  assumes "cand t j k" "j < length t"
  shows "same_char t (int j) k = Some (k = -1 \<or> t ! j = t ! nat k)"
  using assms cand_less [OF assms(1)] by (auto simp: same_char_def rd_def)

lemma get_next_loop_spec:
  "cand t j k \<Longrightarrow> j < length t \<Longrightarrow> table next_ok t (Suc j) nx \<Longrightarrow>
   \<exists>nx'. get_next_loop t nx k (int j) = Some nx' \<and> table next_ok t (length t) nx'"
proof (induction "nat (2 * (int (length t) - int j) + k)" arbitrary: j k nx rule: less_induct)
  case less
  note prems = less.prems
  have k: "-1 \<le> k" "k < int j" using cand_less [OF prems(1)] by auto
  show ?case
  proof (cases "int j < int (length t) - 1")
    case False
    then have e: "Suc j = length t" using prems(2) by simp
    have "get_next_loop t nx k (int j) = Some nx"
      using False by (simp add: get_next_loop.simps [of t nx k "int j"])
    then show ?thesis using prems(3) unfolding e by blast
  next
    case True
    show ?thesis
    proof (cases "k = -1 \<or> t ! j = t ! nat k")
      case m: True
      have n: "next_ok t (Suc j) (k + 1)" by (rule cand_match [OF prems(1) m])
      obtain ny where ny: "wr nx (1 + int j) (Some (k + 1)) = Some ny"
          "table next_ok t (Suc (Suc j)) ny"
        using table_wr [OF prems(3) _ n] True by auto
      have "\<exists>nx'. get_next_loop t ny (k + 1) (int (Suc j)) = Some nx' \<and>
          table next_ok t (length t) nx'"
        by (rule less.hyps) (use ny(2) next_ok_cand [OF n] True k in auto)
      then show ?thesis using True m ny same_char_cand [OF prems(1,2)]
        by (simp add: get_next_loop.simps [of t nx k "int j"] add.commute)
    next
      case m: False
      then obtain v where v: "rd nx k = Some (Some v)" "next_ok t (nat k) v"
        using table_rd [OF prems(3), of k] k prems(2) by auto
      have f: "fail_ok t (nat k) v" by (rule next_ok_fail_ok [OF v(2)])
      have "v < k" using fail_ok_less [OF f] m k by simp
      moreover have "cand t j v" using cand_mismatch [OF prems(1) _ _ f] m k by auto
      moreover have "-1 \<le> v" using fail_ok_less [OF f] by simp
      ultimately have "\<exists>nx'. get_next_loop t nx v (int j) = Some nx' \<and>
          table next_ok t (length t) nx'"
        by (intro less.hyps) (use prems True in auto)
      then show ?thesis using True m v same_char_cand [OF prems(1,2)]
        by (simp add: get_next_loop.simps [of t nx k "int j"])
    qed
  qed
qed

lemma get_nextval_loop_spec:
  "cand t j k \<Longrightarrow> j < length t \<Longrightarrow> table nextval_ok t (Suc j) nx \<Longrightarrow>
   \<exists>nx'. get_nextval_loop t nx k (int j) = Some nx' \<and> table nextval_ok t (length t) nx'"
proof (induction "nat (2 * (int (length t) - int j) + k)" arbitrary: j k nx rule: less_induct)
  case less
  note prems = less.prems
  have k: "-1 \<le> k" "k < int j" using cand_less [OF prems(1)] by auto
  show ?case
  proof (cases "int j < int (length t) - 1")
    case False
    then have e: "Suc j = length t" using prems(2) by simp
    have "get_nextval_loop t nx k (int j) = Some nx"
      using False by (simp add: get_nextval_loop.simps [of t nx k "int j"])
    then show ?thesis using prems(3) unfolding e by blast
  next
    case True
    show ?thesis
    proof (cases "k = -1 \<or> t ! j = t ! nat k")
      case m: True
      have n: "next_ok t (Suc j) (k + 1)" by (rule cand_match [OF prems(1) m])
      obtain u where u: "rd nx (k + 1) = Some (Some u)" "nextval_ok t (nat (k + 1)) u"
        using table_rd [OF prems(3), of "k + 1"] k prems(2) by auto
      define w where "w = (if t ! Suc j \<noteq> t ! nat (k + 1) then k + 1 else u)"
      have "nextval_ok t (Suc j) w"
        by (rule nextval_entry [OF n]) (use k u in \<open>auto simp: w_def\<close>)
      then obtain ny where ny: "wr nx (1 + int j) (Some w) = Some ny"
          "table nextval_ok t (Suc (Suc j)) ny"
        using table_wr [OF prems(3)] True by auto
      have r: "rd t (1 + int j) = Some (t ! Suc j)" "rd t (1 + k) = Some (t ! nat (k + 1))"
        using True k by (simp_all add: rd_def add.commute nat_add_distrib)
      have "\<exists>nx'. get_nextval_loop t ny (k + 1) (int (Suc j)) = Some nx' \<and>
          table nextval_ok t (length t) nx'"
        by (rule less.hyps) (use ny(2) next_ok_cand [OF n] True k in auto)
      then show ?thesis using True m ny r u same_char_cand [OF prems(1,2)]
        by (simp add: get_nextval_loop.simps [of t nx k "int j"] add.commute w_def split: if_splits)
    next
      case m: False
      then obtain v where v: "rd nx k = Some (Some v)" "nextval_ok t (nat k) v"
        using table_rd [OF prems(3), of k] k prems(2) by auto
      have f: "fail_ok t (nat k) v" using v(2) by (simp add: nextval_ok_def)
      have "v < k" using fail_ok_less [OF f] m k by simp
      moreover have "cand t j v" using cand_mismatch [OF prems(1) _ _ f] m k by auto
      moreover have "-1 \<le> v" using fail_ok_less [OF f] by simp
      ultimately have "\<exists>nx'. get_nextval_loop t nx v (int j) = Some nx' \<and>
          table nextval_ok t (length t) nx'"
        by (intro less.hyps) (use prems True in auto)
      then show ?thesis using True m v same_char_cand [OF prems(1,2)]
        by (simp add: get_nextval_loop.simps [of t nx k "int j"])
    qed
  qed
qed

lemma get_next_spec:
  assumes "t \<noteq> []"
  shows "\<exists>nx. get_next t (replicate (length t) None) = Some nx \<and> table next_ok t (length t) nx"
proof -
  let ?nx = "(replicate (length t) None)[0 := Some (-1)]"
  have "table next_ok t (Suc 0) ?nx" using assms by (auto simp: table_def next_ok_def)
  then show ?thesis using get_next_loop_spec [OF cand_start, of t ?nx] assms
    by (simp add: get_next_def wr_def)
qed

lemma get_nextval_spec:
  assumes "t \<noteq> []"
  shows "\<exists>nx. get_nextval t (replicate (length t) None) = Some nx \<and> table nextval_ok t (length t) nx"
proof -
  let ?nx = "(replicate (length t) None)[0 := Some (-1)]"
  have "table nextval_ok t (Suc 0) ?nx"
    using assms by (auto simp: table_def nextval_ok_def fail_ok_def)
  then show ?thesis using get_nextval_loop_spec [OF cand_start, of t ?nx] assms
    by (simp add: get_nextval_def wr_def)
qed

section \<open>The search\<close>

definition occurs_at :: "'a list \<Rightarrow> 'a list \<Rightarrow> nat \<Rightarrow> bool" where
  "occurs_at s t q \<longleftrightarrow> q + length t \<le> length s \<and> take (length t) (drop q s) = t"

lemma occurs_at_nth:
  "occurs_at s t q \<longleftrightarrow> q + length t \<le> length s \<and> (\<forall>i<length t. s ! (q + i) = t ! i)"
  by (auto simp: occurs_at_def list_eq_iff_nth_eq)

text \<open>
  The invariant of the search at text position \<open>i\<close>: the last \<open>j\<close> characters before \<open>i\<close> are
  the first \<open>j\<close> of the pattern, and the pattern occurs nowhere before \<open>i - j\<close>.
\<close>

definition search_inv :: "'a list \<Rightarrow> 'a list \<Rightarrow> int \<Rightarrow> int \<Rightarrow> bool" where
  "search_inv s t i j \<longleftrightarrow> 0 \<le> i \<and> i \<le> int (length s) \<and> -1 \<le> j \<and> j \<le> i \<and> j \<le> int (length t) \<and>
     (\<forall>q<nat j. s ! (nat (i - j) + q) = t ! q) \<and>
     (\<forall>q. int q < i - j \<longrightarrow> \<not> occurs_at s t q)"

lemma search_inv_step:
  assumes "search_inv s t i j" "i < int (length s)" "j < int (length t)"
    "j = -1 \<or> s ! nat i = t ! nat j"
  shows "search_inv s t (i + 1) (j + 1)"
proof (cases "j = -1")
  case True
  then show ?thesis using assms by (simp add: search_inv_def)
next
  case False
  then have j: "0 \<le> j" using assms(1) by (simp add: search_inv_def)
  have "j \<le> i" using assms(1) by (simp add: search_inv_def)
  then have ij: "nat (i - j) + nat j = nat i" using j by simp
  have "s ! (nat (i - j) + q) = t ! q" if "q < nat (j + 1)" for q
    using that assms(1,4) False j ij by (cases "q = nat j") (auto simp: search_inv_def)
  then show ?thesis using assms j by (auto simp: search_inv_def)
qed

lemma search_inv_fail:
  assumes inv: "search_inv s t i j" and ij: "i < int (length s)" "0 \<le> j" "j < int (length t)"
    and ne: "s ! nat i \<noteq> t ! nat j" and f: "fail_ok t (nat j) v"
  shows "search_inv s t i v"
proof -
  have v: "-1 \<le> v" "v < j" using fail_ok_less [OF f] ij by auto
  have i: "0 \<le> i" "j \<le> i" and match: "\<And>q. q < nat j \<Longrightarrow> s ! (nat (i - j) + q) = t ! q"
    and none: "\<And>q. int q < i - j \<Longrightarrow> \<not> occurs_at s t q"
    using inv by (auto simp: search_inv_def)
  have "\<not> occurs_at s t q" if q: "int q < i - v" for q
  proof
    assume o: "occurs_at s t q"
    then have ge: "i - j \<le> int q" using none [of q] by linarith
    define m where "m = nat (i - int q)"
    have qi: "int q \<le> i" using q v by simp
    then have m: "m \<le> nat j" "q + m = nat i" using ge by (auto simp: m_def)
    have "m < length t" using m ij by simp
    then have tm: "t ! m = s ! nat i" using o m(2) by (auto simp: occurs_at_nth)
    show False
    proof (cases "m = nat j")
      case True
      then show False using tm ne by simp
    next
      case False
      have "border t (nat j) m"
        unfolding border_def
      proof (intro conjI allI impI)
        show "m < nat j" using m False by simp
        fix r assume r: "r < m"
        have "t ! r = s ! (q + r)" using o r \<open>m < length t\<close> by (auto simp: occurs_at_nth)
        also have "q + r = nat (i - j) + (nat j - m + r)" using m ij i by simp
        also have "s ! \<dots> = t ! (nat j - m + r)" using match [of "nat j - m + r"] r m False by simp
        finally show "t ! r = t ! (nat j - m + r)" .
      qed
      moreover have "v < int m" using q qi by (simp add: m_def)
      ultimately have "t ! m = t ! nat j" using f by (auto simp: fail_ok_def)
      then show False using tm ne by simp
    qed
  qed
  moreover have "s ! (nat (i - v) + r) = t ! r" if "r < nat v" for r
  proof -
    have "0 \<le> v" using that by (cases "0 \<le> v") auto
    then have b: "border t (nat j) (nat v)" using f by (auto simp: fail_ok_def)
    have e: "nat (i - v) + r = nat (i - j) + (nat j - nat v + r)" using v \<open>0 \<le> v\<close> i by simp
    have "s ! (nat (i - j) + (nat j - nat v + r)) = t ! (nat j - nat v + r)"
      using match [of "nat j - nat v + r"] that v \<open>0 \<le> v\<close> by simp
    then show ?thesis using b that e by (simp add: border_def add.assoc)
  qed
  ultimately show ?thesis using inv v by (auto simp: search_inv_def)
qed

text \<open>Every link of the table can be followed and is sound.\<close>

definition links_ok :: "'a list \<Rightarrow> (int \<Rightarrow> int option) \<Rightarrow> bool" where
  "links_ok t link \<longleftrightarrow>
     (\<forall>j. 0 \<le> j \<longrightarrow> j < int (length t) \<longrightarrow> (\<exists>v. link j = Some v \<and> fail_ok t (nat j) v))"

lemma int_link_ok: "table fail_ok t (length t) nx \<Longrightarrow> links_ok t (int_link nx)"
  using table_rd [of fail_ok t "length t" nx] by (fastforce simp: links_ok_def int_link_def)

lemma kmp_loop_spec:
  "search_inv s t i j \<Longrightarrow> links_ok t link \<Longrightarrow>
   \<exists>i' j'. kmp_loop s t link i j = Some (i', j') \<and> search_inv s t i' j' \<and>
     (j' = int (length t) \<or> int (length s) - i' < int (length t) - j')"
proof (induction "nat (2 * (int (length s) - i) + j + 1)" arbitrary: i j rule: less_induct)
  case less
  note inv = less.prems(1) and tab = less.prems(2)
  have b: "0 \<le> i" "i \<le> int (length s)" "-1 \<le> j" "j \<le> int (length t)"
    using inv by (auto simp: search_inv_def)
  show ?case
  proof (cases "i < int (length s) \<and> j < int (length t)")
    case False
    then have "kmp_loop s t link i j = Some (i, j)" by (auto simp: kmp_loop.simps [of s t link i j])
    then show ?thesis using inv b False by auto
  next
    case True
    have go: "\<exists>i' j'. kmp_loop s t link (i + 1) (j + 1) = Some (i', j') \<and> search_inv s t i' j' \<and>
        (j' = int (length t) \<or> int (length s) - i' < int (length t) - j')"
      if "j = -1 \<or> s ! nat i = t ! nat j"
      by (rule less.hyps) (use search_inv_step [OF inv _ _ that] True b tab in auto)
    consider "j = -1" | "0 \<le> j" "int (length s) - i < int (length t) - j"
      | "0 \<le> j" "int (length s) - i \<ge> int (length t) - j" "s ! nat i = t ! nat j"
      | "0 \<le> j" "int (length s) - i \<ge> int (length t) - j" "s ! nat i \<noteq> t ! nat j"
      using b by linarith
    then show ?thesis
    proof cases
      case 1
      then show ?thesis using go True by (simp add: kmp_loop.simps [of s t link i "-1"])
    next
      case 2
      then show ?thesis using inv True by (simp add: kmp_loop.simps [of s t link i j])
    next
      case 3
      then show ?thesis using go True b by (simp add: kmp_loop.simps [of s t link i j] arr)
    next
      case 4
      obtain v where v: "link j = Some v" "fail_ok t (nat j) v"
        using tab 4(1) True by (auto simp: links_ok_def)
      have "v < j" "-1 \<le> v" using fail_ok_less [OF v(2)] 4 by auto
      then have "\<exists>i' j'. kmp_loop s t link i v = Some (i', j') \<and> search_inv s t i' j' \<and>
          (j' = int (length t) \<or> int (length s) - i' < int (length t) - j')"
        by (intro less.hyps) (use search_inv_fail [OF inv _ _ _ _ v(2)] 4 True b tab in auto)
      then show ?thesis using 4 True b v by (simp add: kmp_loop.simps [of s t link i j] arr)
    qed
  qed
qed

text \<open>The result of a search: the first occurrence, or \<open>-1\<close> when there is none.\<close>

definition first_occurrence :: "'a list \<Rightarrow> 'a list \<Rightarrow> int \<Rightarrow> bool" where
  "first_occurrence s t r \<longleftrightarrow>
     (r = -1 \<and> (\<forall>q. \<not> occurs_at s t q)) \<or>
     (\<exists>q. r = int q \<and> occurs_at s t q \<and> (\<forall>q'<q. \<not> occurs_at s t q'))"

text \<open>
  What a search needs of its table, whoever builds it and in whatever type its entries are:
  a builder that returns, for every pattern it accepts, links that can be followed and are
  sound.  The search over it then finds the first occurrence.
\<close>

locale failure_table =
  fixes ok :: "'a list \<Rightarrow> bool"
    and build :: "'a list \<Rightarrow> (int \<Rightarrow> int option) option"
  assumes not_empty: "ok t \<Longrightarrow> t \<noteq> []"
    and build: "ok t \<Longrightarrow> \<exists>link. build t = Some link \<and> links_ok t link"
begin

lemma search:
  assumes "ok t"
  shows "\<exists>i j. do { link \<leftarrow> build t; kmp_loop s t link 0 0 } = Some (i, j) \<and>
      first_occurrence s t (if j > 0 \<and> j = int (length t) then i - j else -1) \<and>
      (j = int (length t) \<longrightarrow> j \<le> i)"
proof -
  obtain link where l: "build t = Some link" "links_ok t link"
    using build [OF assms] by blast
  have ne: "t \<noteq> []" by (rule not_empty [OF assms])
  have "search_inv s t 0 0" by (simp add: search_inv_def)
  then obtain i j where ij: "kmp_loop s t link 0 0 = Some (i, j)" "search_inv s t i j"
      "j = int (length t) \<or> int (length s) - i < int (length t) - j"
    using kmp_loop_spec l(2) by blast
  show ?thesis
  proof (cases "j = int (length t)")
    case True
    then have i: "0 \<le> i - j" and q: "\<And>q. int q < i - j \<Longrightarrow> \<not> occurs_at s t q"
      using ij(2) by (auto simp: search_inv_def)
    have "occurs_at s t (nat (i - j))"
      using ij(2) True i by (auto simp: occurs_at_nth search_inv_def)
    then have "first_occurrence s t (i - j)"
      unfolding first_occurrence_def using i q by (intro disjI2 exI [of _ "nat (i - j)"]) auto
    then show ?thesis using l ij(1) True ne i by simp
  next
    case False
    have "\<not> occurs_at s t q" for q
    proof (cases "int q < i - j")
      case True
      then show ?thesis using ij(2) by (auto simp: search_inv_def)
    next
      case ge: False
      then show ?thesis using ij(3) False by (auto simp: occurs_at_def)
    qed
    then show ?thesis using l ij(1) False by (simp add: first_occurrence_def)
  qed
qed

end

interpretation nextval: failure_table "\<lambda>t. t \<noteq> []"
  "\<lambda>t. map_option int_link (get_nextval t (replicate (length t) None))"
proof
  fix t :: "'a list" assume "t \<noteq> []"
  then obtain nx where nx: "get_nextval t (replicate (length t) None) = Some nx"
      "table nextval_ok t (length t) nx" using get_nextval_spec by blast
  then have "table fail_ok t (length t) nx"
    using table_mono [of nextval_ok t "length t" nx fail_ok] by (simp add: nextval_ok_def)
  then show "\<exists>link. map_option int_link (get_nextval t (replicate (length t) None)) = Some link \<and>
      links_ok t link" using nx int_link_ok by simp
qed

interpretation nexttab: failure_table "\<lambda>t. t \<noteq> []"
  "\<lambda>t. map_option int_link (get_next t (replicate (length t) None))"
proof
  fix t :: "'a list" assume "t \<noteq> []"
  then obtain nx where nx: "get_next t (replicate (length t) None) = Some nx"
      "table next_ok t (length t) nx" using get_next_spec by blast
  then have "table fail_ok t (length t) nx"
    using table_mono [of next_ok t "length t" nx fail_ok] next_ok_fail_ok by blast
  then show "\<exists>link. map_option int_link (get_next t (replicate (length t) None)) = Some link \<and>
      links_ok t link" using nx int_link_ok by simp
qed

section \<open>Properties\<close>

text \<open>C6: for every text and every non-empty pattern \<open>kmp_search\<close> returns, within its arrays and
  without reading an uninitialised table cell, and the result is the first position at which
  the pattern occurs, or \<open>-1\<close> when it does not occur.\<close>

theorem kmp_search_correct:
  assumes "t \<noteq> []"
  shows "\<exists>r. kmp_search s t = Some r \<and> first_occurrence s t r"
  using nextval.search [OF assms, of s]
  by (auto simp: kmp_search_def map_option_case split: option.splits Option.bind_splits)

lemma kmp_search_correct_witness:
  "\<exists>r. kmp_search ''abacab'' ''cab'' = Some r \<and> first_occurrence ''abacab'' ''cab'' r"
  using kmp_search_correct [of "''cab''" "''abacab''"] by simp

text \<open>The two tables.  \<open>get_next\<close> stores at \<open>j > 0\<close> the length of the longest proper border of
  the first \<open>j\<close> characters; \<open>get_nextval\<close> stores a border after which the pattern goes on with
  another character than at \<open>j\<close>, or \<open>-1\<close>, and skips only borders that go on with the same one.\<close>

theorem kmp_tables_correct:
  assumes "t \<noteq> []"
  shows "(\<exists>nx. get_next t (replicate (length t) None) = Some nx \<and> table next_ok t (length t) nx) \<and>
    (\<exists>nx. get_nextval t (replicate (length t) None) = Some nx \<and> table nextval_ok t (length t) nx)"
  using get_next_spec [OF assms] get_nextval_spec [OF assms] by blast

lemma kmp_tables_correct_witness:
  "\<exists>nx. get_nextval ''abab'' (replicate 4 None) = Some nx \<and> table nextval_ok ''abab'' 4 nx"
  using kmp_tables_correct [of "''abab''"] by (simp add: numeral_eq_Suc)

text \<open>An empty pattern, which the last line of \<open>main\<close> passes, is not handled: the table has
  no cell and the write of \<open>nextval[0]\<close> is out of range.\<close>

theorem kmp_search_empty_pattern: "kmp_search s [] = None"
  by (simp add: kmp_search_def get_nextval_def wr_def)

end
