(* ===== verification/Bytes.thy ===== *)
theory Bytes
  imports Prelude "HOL-Library.Word"
begin

text \<open>
  Byte arrays: the types shared by the components that work on bytes, \<open>memcpy\<close> between an
  input and a fixed buffer with its bounds, the hexadecimal digits of \<open>sprintf\<close>, and the
  iteration of a compression function over the 64-byte blocks of a message, which is what
  both digests of \<open>c++/utils/hash\<close> are specified by.
\<close>

unbundle bit_operations_syntax

type_synonym byte = "8 word"
type_synonym uint4 = "32 word"
type_synonym size_t = "64 word"

section \<open>Copies\<close>

text \<open>\<open>n\<close> bytes from index \<open>i\<close>, or \<open>None\<close> when they are not all there.\<close>

definition slice :: "'a list \<Rightarrow> nat \<Rightarrow> nat \<Rightarrow> 'a list option" where
  "slice xs i n = (if i + n \<le> length xs then Some (take n (drop i xs)) else None)"

text \<open>\<open>memcpy (&buf[i], xs, length xs)\<close>.\<close>

definition blit :: "'a list \<Rightarrow> nat \<Rightarrow> 'a list \<Rightarrow> 'a list option" where
  "blit buf i xs =
     (if i + length xs \<le> length buf
      then Some (take i buf @ xs @ drop (i + length xs) buf) else None)"

lemma slice_in: "i + n \<le> length xs \<Longrightarrow> slice xs i n = Some (take n (drop i xs))"
  by (simp add: slice_def)

lemma blit_in:
  "i + length xs \<le> length buf \<Longrightarrow>
   blit buf i xs = Some (take i buf @ xs @ drop (i + length xs) buf)"
  by (simp add: blit_def)

section \<open>Hexadecimal digits\<close>

definition hex_digit :: "nat \<Rightarrow> char" where
  "hex_digit n = ''0123456789abcdef'' ! n"

text \<open>The \<open>k\<close> low hexadecimal digits of \<open>n\<close>, most significant first: \<open>%02x\<close> of a byte, \<open>%08x\<close>
  of a word.\<close>

fun hex :: "nat \<Rightarrow> int \<Rightarrow> string" where
  "hex 0 n = []"
| "hex (Suc k) n = hex k (n div 16) @ [hex_digit (nat (n mod 16))]"

lemma length_hex [simp]: "length (hex k n) = k"
  by (induction k arbitrary: n) simp_all

section \<open>Blocks\<close>

text \<open>The compression function \<open>f\<close> over the complete 64-byte blocks of a message.\<close>

function run :: "('s \<Rightarrow> byte list \<Rightarrow> 's) \<Rightarrow> 's \<Rightarrow> byte list \<Rightarrow> 's" where
  "run f st m = (if length m < 64 then st else run f (f st (take 64 m)) (drop 64 m))"
  by pat_completeness auto
termination by (relation "measure (\<lambda>(f, st, m). length m)") auto

declare run.simps [simp del]

lemma run_short [simp]: "length m < 64 \<Longrightarrow> run f st m = st"
  by (simp add: run.simps)

lemma run_block: "length b = 64 \<Longrightarrow> run f st (b @ m) = run f (f st b) m"
  by (subst run.simps) simp

lemma run_append:
  "64 dvd length a \<Longrightarrow> run f st (a @ b) = run f (run f st a) b"
proof (induction f st a rule: run.induct)
  case (1 f st a)
  show ?case
  proof (cases "length a < 64")
    case True
    then have "a = []" using 1(2) by (auto dest: dvd_imp_le)
    then show ?thesis by simp
  next
    case False
    have d: "64 dvd length (drop 64 a)" using 1(2) False by (simp add: dvd_diff_nat)
    have "run f st (a @ b) = run f (f st (take 64 a)) (drop 64 a @ b)"
      using False run_block [of "take 64 a" f st "drop 64 a @ b"] by (simp flip: append_assoc)
    also have "\<dots> = run f (run f (f st (take 64 a)) (drop 64 a)) b"
      using False d 1(1) by blast
    also have "run f (f st (take 64 a)) (drop 64 a) = run f st a"
      using False by (subst (2) run.simps) simp
    finally show ?thesis .
  qed
qed

text \<open>The bytes of the last, incomplete block do not matter.\<close>

lemma run_rest: "run f st m = run f st (take (length m div 64 * 64) m)"
proof -
  have l: "length m div 64 * 64 \<le> length m" by simp
  have "run f st (take (length m div 64 * 64) m @ drop (length m div 64 * 64) m) =
      run f (run f st (take (length m div 64 * 64) m)) (drop (length m div 64 * 64) m)"
    by (rule run_append) simp
  also have "\<dots> = run f st (take (length m div 64 * 64) m)"
    by (rule run_short) (simp add: minus_div_mult_eq_mod)
  finally show ?thesis by simp
qed

lemma run_one: "length b = 64 \<Longrightarrow> run f st b = f st b"
  using run_block [of b f st "[]"] by simp

lemma replicate_8: "replicate 8 x = [x, x, x, x, x, x, x, x]"
  by (simp add: numeral_eq_Suc)

section \<open>A 64-bit counter in two words\<close>

lemma unat_32: "unat (w :: uint4) < 2 ^ 32"
  using unsigned_less [of w, where 'a = nat] by simp

lemma word_of_unat: "unat (w :: uint4) = k mod 2 ^ 32 \<Longrightarrow> w = of_nat k"
  by (simp add: word_unat_eq_iff unat_of_nat)

lemma unat_small: "n < 2 ^ 32 \<Longrightarrow> unat (of_nat n :: uint4) = n"
  by (simp add: unat_of_nat)

text \<open>Adding \<open>l\<close> bytes to a bit counter: the code of \<open>MD5::update\<close> and \<open>SHA1::AddDataLen\<close>.\<close>

lemma low_high_mod: "r < B \<Longrightarrow> (r + B * q) mod (B * B) = r + B * (q mod B)" for r B q :: nat
  by (simp add: mod_mult2_eq)

lemma carry_arith:
  fixes a b xl xh m B :: nat
  assumes "a < B" "xl < B" "a + B * b = m mod (B * B)"
  shows "(a + xl) mod B + B * ((b + (if (a + xl) mod B < xl then 1 else 0) + xh) mod B) =
    (m + (xl + B * xh)) mod (B * B)"
proof -
  let ?c = "if (a + xl) mod B < xl then 1 else 0"
  have c: "(a + xl) mod B + B * ?c = a + xl" using assms by (auto simp: mod_if)
  have "(m + (xl + B * xh)) mod (B * B) = (a + B * b + (xl + B * xh)) mod (B * B)"
    unfolding assms(3) by (simp add: mod_add_left_eq)
  also have "a + B * b + (xl + B * xh) = (a + xl) mod B + B * (b + ?c + xh)"
    using c by (simp only: algebra_simps)
  also have "\<dots> mod (B * B) = (a + xl) mod B + B * ((b + ?c + xh) mod B)"
    using assms by (intro low_high_mod) simp
  finally show ?thesis ..
qed

lemma count_add:
  assumes "unat (a :: uint4) + 2 ^ 32 * unat (b :: uint4) = 8 * n mod 2 ^ 64"
  shows "unat (a + push_bit 3 l) + 2 ^ 32 *
      unat ((if a + push_bit 3 l < push_bit 3 l then b + 1 else b) + drop_bit 29 l) =
    8 * (n + unat l) mod 2 ^ 64"
proof -
  have l3: "unat (push_bit 3 l) = 8 * unat l mod 2 ^ 32"
    by (simp add: push_bit_eq_mult unat_word_ariths mult.commute)
  have l29: "unat (drop_bit 29 l) = unat l div 2 ^ 29"
    by (simp add: drop_bit_eq_div unat_div)
  have x: "8 * unat l mod 2 ^ 32 + 2 ^ 32 * (unat l div 2 ^ 29) = 8 * unat l"
    using mult_div_mod_eq [of "2 ^ 32" "8 * unat l"] by (simp add: div_mult2_eq [symmetric])
  have "8 * (n + unat l) mod 2 ^ 64 =
      (8 * n + (8 * unat l mod 2 ^ 32 + 2 ^ 32 * (unat l div 2 ^ 29))) mod (2 ^ 32 * 2 ^ 32)"
    unfolding x by simp
  also have "\<dots> = (unat a + 8 * unat l mod 2 ^ 32) mod 2 ^ 32 + 2 ^ 32 *
      ((unat b + (if (unat a + 8 * unat l mod 2 ^ 32) mod 2 ^ 32 < 8 * unat l mod 2 ^ 32
        then 1 else 0) + unat l div 2 ^ 29) mod 2 ^ 32)"
    by (rule carry_arith [symmetric]) (use assms unat_32 [of a] in simp_all)
  also have "\<dots> = unat (a + push_bit 3 l) + 2 ^ 32 *
      unat ((if a + push_bit 3 l < push_bit 3 l then b + 1 else b) + drop_bit 29 l)"
    by (simp add: unat_word_ariths word_less_nat_alt l3 l29 mod_simps)
  finally show ?thesis ..
qed

text \<open>The two words of a counter of \<open>n\<close> bits.\<close>

lemma counter_words:
  assumes "unat (a :: uint4) + 2 ^ 32 * unat (b :: uint4) = n mod 2 ^ 64"
  shows "a = of_nat n" "b = of_nat (n div 2 ^ 32)"
proof -
  have c: "unat a + 2 ^ 32 * unat b = n mod (2 ^ 32 * 2 ^ 32)" using assms by simp
  have "unat a = (unat a + 2 ^ 32 * unat b) mod 2 ^ 32" using unat_32 [of a] by simp
  also have "\<dots> = n mod 2 ^ 32" unfolding c by (simp add: mod_mod_cancel)
  finally show "a = of_nat n" by (rule word_of_unat)
  have "unat b = (unat a + 2 ^ 32 * unat b) div 2 ^ 32" using unat_32 [of a] by simp
  also have "\<dots> = n div 2 ^ 32 mod 2 ^ 32" unfolding c mod_mult2_eq by simp
  finally show "b = of_nat (n div 2 ^ 32)" by (rule word_of_unat)
qed

end
