(* ===== verification/Charactor.thy ===== *)
theory Charactor
  imports Kmp Bytes
begin

text \<open>
  \<open>c++/algos/dumpKMP/charactor.h\<close> and \<open>charactor.cpp\<close>: a string is first cut into
  \<open>charactor\<close>s (ASCII or GBK), then searched by the same loop as in \<open>kmp.cpp\<close>, over a table of
  \<open>size_t\<close> in which \<open>-1\<close> is \<open>2 ^ 64 - 1\<close>.

  Bytes are 8-bit words.  \<open>char\<close> is signed (as on x86), so a \<open>char\<close> that becomes a
  \<open>uint32_t\<close> or an \<open>int\<close> is sign-extended; \<open>peek\<close> returns the byte as a number from 0 to 255.
  A \<open>stringstream\<close> is the list of its unread bytes; \<open>get(cs, n)\<close> reads at most \<open>n - 1\<close>
  characters and fails when it reads none, after which \<open>peek\<close> returns \<open>EOF\<close>.  The byte order
  of the machine is the parameter \<open>big\<close>.
\<close>

section \<open>Definitions\<close>

record charactor =
  length_of :: "32 word"
  value_of :: "32 word"

definition charactor :: "32 word \<Rightarrow> 32 word \<Rightarrow> charactor" where
  "charactor len v = \<lparr>length_of = len, value_of = v\<rparr>"

datatype encodingType = ASCII | GBK | UTF8

text \<open>\<open>isBigEndian\<close> looks at the first byte of the 16-bit value \<open>0x0102\<close> in memory.\<close>

definition first_byte_0x0102 :: "bool \<Rightarrow> byte" where
  "first_byte_0x0102 big = (if big then 1 else 2)"

definition isBigEndian :: "bool \<Rightarrow> bool" where
  "isBigEndian big = (if first_byte_0x0102 big = 2 then False else True)"

text \<open>Both preprocessors append to \<open>chars\<close> and return whether they succeeded.\<close>

definition preProcessASCII :: "bool \<Rightarrow> byte list \<Rightarrow> charactor list \<Rightarrow> bool \<times> charactor list" where
  "preProcessASCII valid str chars =
     (if valid then (True, chars @ map (\<lambda>c. charactor 1 (scast c)) str) else (False, chars))"

text \<open>
  The big-endian branch: \<open>cs[0]\<close> is the most significant byte of \<open>value\<close>.  \<open>get(cs, 1)\<close> reads
  nothing, stores \<open>0\<close> and fails; \<open>get(cs, 2)\<close> reads one character.
\<close>

fun gbk_big :: "byte list \<Rightarrow> charactor list \<Rightarrow> bool \<times> charactor list" where
  "gbk_big [] chars = (True, chars)"
| "gbk_big (b # bs) chars =
     (if b < 0x80 then (True, chars @ [charactor 1 0])
      else gbk_big bs (chars @ [charactor 2 (push_bit 24 (ucast b))]))"

text \<open>
  The little-endian branch: \<open>c0\<close> is \<open>cs[0]\<close>, the least significant byte of \<open>value\<close>; a
  one-byte character is pushed only when the next byte has been peeked at.
\<close>

function gbk_little :: "byte list \<Rightarrow> bool \<Rightarrow> byte \<Rightarrow> charactor list \<Rightarrow> bool \<times> charactor list" where
  "gbk_little [] is_first c0 chars =
     (True, if is_first then chars else chars @ [charactor 1 (scast c0)])"
| "gbk_little (b # bs) is_first c0 chars =
     (if b < 0x80 then
        if is_first then gbk_little bs False b chars
        else gbk_little (b # bs) True c0 (chars @ [charactor 1 (scast c0)])
      else
        if is_first then (False, chars)
        else gbk_little bs True b (chars @ [charactor 2 (push_bit 8 (ucast c0) OR ucast b)]))"
  by pat_completeness auto
termination
  by (relation "measure (\<lambda>(bs, is_first, c0, chars). 2 * length bs + (if is_first then 0 else 1))")
    auto

definition preProcessGBK ::
    "bool \<Rightarrow> bool \<Rightarrow> byte list \<Rightarrow> charactor list \<Rightarrow> bool \<times> charactor list" where
  "preProcessGBK big valid str chars =
     (if valid then
        if isBigEndian big then gbk_big str chars else gbk_little str True 0 chars
      else (False, chars))"

record matcher =
  search_str :: "byte list"
  match_str :: "byte list"
  match_chars :: "charactor list"
  search_chars :: "charactor list"
  valid :: bool

text \<open>The constructor; \<open>valid = valid && pre(match) && pre(search)\<close> stops at the first failure.\<close>

definition CharactorMatcher ::
    "bool \<Rightarrow> byte list \<Rightarrow> byte list \<Rightarrow> encodingType \<Rightarrow> matcher" where
  "CharactorMatcher big s m type =
     (let v = (s \<noteq> [] \<and> m \<noteq> []);
          both = (\<lambda>pre.
            if v then
              let (ok1, mc) = pre m [] in
              if ok1 then let (ok2, sc) = pre s [] in (mc, sc, ok2) else (mc, [], False)
            else ([], [], False));
          (mc, sc, ok) = (case type of
            ASCII \<Rightarrow> both (preProcessASCII v)
          | GBK \<Rightarrow> both (preProcessGBK big v)
          | UTF8 \<Rightarrow> ([], [], v))
      in \<lparr>search_str = s, match_str = m, match_chars = mc, search_chars = sc, valid = ok\<rparr>)"

text \<open>Array access at a \<open>size_t\<close> index.\<close>

definition rdw :: "'a list \<Rightarrow> size_t \<Rightarrow> 'a option" where
  "rdw a i = rd a (uint i)"

definition wrw :: "'a list \<Rightarrow> size_t \<Rightarrow> 'a \<Rightarrow> 'a list option" where
  "wrw a i x = wr a (uint i) x"

partial_function (option) getNextVal_loop ::
    "charactor list \<Rightarrow> size_t option list \<Rightarrow> size_t \<Rightarrow> size_t \<Rightarrow> size_t option list option" where
  [code]: "getNextVal_loop t nextVal j k =
     (if j < of_nat (length t) - 1 then do {
        m \<leftarrow> (if k = -1 then Some True else do { x \<leftarrow> rdw t j; y \<leftarrow> rdw t k; Some (x = y) });
        if m then do {
          nv \<leftarrow> wrw nextVal (j + 1) (Some (k + 1));
          getNextVal_loop t nv (j + 1) (k + 1) }
        else do {
          v \<leftarrow> rdw nextVal k;
          k' \<leftarrow> v;
          getNextVal_loop t nextVal j k' } }
      else Some nextVal)"

definition getNextVal :: "charactor list \<Rightarrow> size_t option list \<Rightarrow> size_t option list option" where
  "getNextVal t nextVal = do {
     nv \<leftarrow> wrw nextVal 0 (Some (-1));
     getNextVal_loop t nv 0 (-1) }"

text \<open>\<open>j = next[j]\<close> with \<open>int j\<close>: the \<open>size_t\<close> is truncated to 32 bits and read as signed.\<close>

definition size_link :: "size_t option list \<Rightarrow> int \<Rightarrow> int option" where
  "size_link next j = do { v \<leftarrow> rd next j; w \<leftarrow> v; Some (sint (ucast w :: 32 word)) }"

text \<open>
  \<open>KMPSearch\<close> returns the found flag and \<open>pos\<close>; it does not look at \<open>valid\<close>.
\<close>

definition KMPSearch :: "matcher \<Rightarrow> (bool \<times> size_t) option" where
  "KMPSearch cm = do {
     next \<leftarrow> getNextVal (match_chars cm) (replicate (length (match_chars cm)) None);
     (i, j) \<leftarrow> kmp_loop (search_chars cm) (match_chars cm) (size_link next) 0 0;
     Some (if j > 0 \<and> j = int (length (match_chars cm)) then (True, word_of_int (i - j))
           else (False, -1)) }"

section \<open>The table of \<open>size_t\<close>\<close>

text \<open>Table entries as the code stores them: the integer entry modulo \<open>2 ^ 64\<close>.\<close>

definition wtable :: "charactor list \<Rightarrow> nat \<Rightarrow> size_t option list \<Rightarrow> bool" where
  "wtable t n nx \<longleftrightarrow> length nx = length t \<and>
     (\<forall>i<n. \<exists>v. nx ! i = Some (word_of_int v) \<and> next_ok t i v)"

lemma uint_small: "0 \<le> k \<Longrightarrow> k < 2 ^ 31 \<Longrightarrow> uint (word_of_int k :: size_t) = k"
  by (simp add: uint_word_of_int)

lemma word_eq_minus_one:
  assumes "-1 \<le> k" "k < 2 ^ 31"
  shows "(word_of_int k :: size_t) = -1 \<longleftrightarrow> k = -1"
proof
  assume e: "(word_of_int k :: size_t) = -1"
  show "k = -1"
  proof (rule ccontr)
    assume "k \<noteq> -1"
    then have "uint (word_of_int k :: size_t) = k" using assms by (intro uint_small) auto
    then have "k = uint (-1 :: size_t)" using e by simp
    also have "\<dots> = 2 ^ 64 - 1" by (simp add: unsigned_minus_1_eq_mask mask_eq_exp_minus_1)
    finally show False using assms by simp
  qed
qed simp

lemma size_t_to_int:
  assumes "-1 \<le> k" "k < 2 ^ 31"
  shows "sint (ucast (word_of_int k :: size_t) :: 32 word) = k"
proof -
  have "(ucast (word_of_int k :: size_t) :: 32 word) = word_of_int k"
    by (rule bit_word_eqI) (simp add: bit_simps bit_word_of_int_iff)
  moreover have "sint (word_of_int k :: 32 word) = signed_take_bit 31 k" by transfer simp
  ultimately show ?thesis using assms by (simp add: signed_take_bit_int_eq_self)
qed

lemma uint_length: "length t < 2 ^ 31 \<Longrightarrow> uint (of_nat (length t) :: size_t) = int (length t)"
  using uint_small [of "int (length t)"] by simp

lemma getNextVal_guard:
  assumes "j < length t" "length t < 2 ^ 31"
  shows "word_of_int (int j) < (of_nat (length t) - 1 :: size_t) \<longleftrightarrow> Suc j < length t"
proof -
  have "(of_nat (length t) - 1 :: size_t) = word_of_int (int (length t) - 1)" by simp
  then have "uint (of_nat (length t) - 1 :: size_t) = int (length t) - 1"
    using uint_small [of "int (length t) - 1"] assms by (cases "t = []") simp_all
  moreover have "uint (word_of_int (int j) :: size_t) = int j" using assms by (intro uint_small) auto
  ultimately show ?thesis by (auto simp: word_less_def)
qed

lemma wtable_rd:
  "wtable t n nx \<Longrightarrow> 0 \<le> k \<Longrightarrow> k < int n \<Longrightarrow> n \<le> length t \<Longrightarrow> length t < 2 ^ 31 \<Longrightarrow>
   \<exists>v. rdw nx (word_of_int k) = Some (Some (word_of_int v)) \<and> next_ok t (nat k) v"
  by (auto simp: wtable_def rdw_def rd_def uint_small)

lemma wtable_wr:
  "wtable t n nx \<Longrightarrow> n < length t \<Longrightarrow> next_ok t n v \<Longrightarrow> length t < 2 ^ 31 \<Longrightarrow>
   wrw nx (word_of_int (int n)) (Some (word_of_int v)) = Some (nx[n := Some (word_of_int v)]) \<and>
   wtable t (Suc n) (nx[n := Some (word_of_int v)])"
  using uint_small [of "int n"]
  by (auto simp: wtable_def wrw_def wr_def nth_list_update less_Suc_eq)

lemma getNextVal_loop_spec:
  "cand t j k \<Longrightarrow> j < length t \<Longrightarrow> length t < 2 ^ 31 \<Longrightarrow> wtable t (Suc j) nx \<Longrightarrow>
   \<exists>nx'. getNextVal_loop t nx (word_of_int (int j)) (word_of_int k) = Some nx' \<and>
     wtable t (length t) nx'"
proof (induction "nat (2 * (int (length t) - int j) + k)" arbitrary: j k nx rule: less_induct)
  case less
  note prems = less.prems
  have k: "-1 \<le> k" "k < int j" using cand_less [OF prems(1)] by auto
  have m1: "(word_of_int k :: size_t) = -1 \<longleftrightarrow> k = -1"
    using k prems by (intro word_eq_minus_one) auto
  note unf = getNextVal_loop.simps [of t nx "word_of_int (int j)" "word_of_int k"]
  note guard = getNextVal_guard [OF prems(2,3)]
  show ?case
  proof (cases "Suc j < length t")
    case False
    then have e: "Suc j = length t" using prems(2) by simp
    have "getNextVal_loop t nx (word_of_int (int j)) (word_of_int k) = Some nx"
      unfolding unf guard using False by simp
    then show ?thesis using prems(4) unfolding e by blast
  next
    case True
    have tj: "rdw t (word_of_int (int j)) = Some (t ! j)"
      using prems(2,3) uint_small [of "int j"] by (simp add: rdw_def rd_def)
    have tk: "rdw t (word_of_int k) = Some (t ! nat k)" if "k \<noteq> -1"
      using prems(2,3) uint_small [of k] k that by (simp add: rdw_def rd_def)
    show ?thesis
    proof (cases "k = -1 \<or> t ! j = t ! nat k")
      case m: True
      have n: "next_ok t (Suc j) (k + 1)" by (rule cand_match [OF prems(1) m])
      obtain ny where ny: "wrw nx (word_of_int (int (Suc j))) (Some (word_of_int (k + 1))) = Some ny"
          "wtable t (Suc (Suc j)) ny"
        using wtable_wr [OF prems(4) True n prems(3)] by blast
      have "\<exists>nx'. getNextVal_loop t ny (word_of_int (int (Suc j))) (word_of_int (k + 1)) = Some nx' \<and>
          wtable t (length t) nx'"
        by (rule less.hyps) (use ny(2) next_ok_cand [OF n] True k prems in auto)
      moreover have "word_of_int (int (Suc j)) = word_of_int (int j) + (1 :: size_t)"
        "word_of_int (k + 1) = word_of_int k + (1 :: size_t)" by simp_all
      ultimately show ?thesis using ny(1) m True tj tk unfolding unf guard m1
        by (auto simp: add.commute split: if_splits)
    next
      case m: False
      obtain v where v: "rdw nx (word_of_int k) = Some (Some (word_of_int v))" "next_ok t (nat k) v"
        using wtable_rd [OF prems(4), of k] k prems(2,3) m by auto
      have f: "fail_ok t (nat k) v" by (rule next_ok_fail_ok [OF v(2)])
      have "v < k" "-1 \<le> v" using fail_ok_less [OF f] m k by auto
      moreover have "cand t j v" using cand_mismatch [OF prems(1) _ _ f] m k by auto
      ultimately have "\<exists>nx'. getNextVal_loop t nx (word_of_int (int j)) (word_of_int v) = Some nx' \<and>
          wtable t (length t) nx'"
        by (intro less.hyps) (use prems True in auto)
      then show ?thesis using m v True tj tk unfolding unf guard m1 by auto
    qed
  qed
qed

lemma getNextVal_spec:
  assumes "t \<noteq> []" "length t < 2 ^ 31"
  shows "\<exists>nx. getNextVal t (replicate (length t) None) = Some nx \<and> wtable t (length t) nx"
proof -
  let ?nx = "(replicate (length t) None)[0 := Some (- 1)] :: size_t option list"
  have "wtable t (Suc 0) ?nx"
    using assms by (auto simp: wtable_def next_ok_def intro!: exI [of _ "-1"])
  then show ?thesis using getNextVal_loop_spec [OF cand_start, of t ?nx] assms
    by (simp add: getNextVal_def wrw_def wr_def)
qed

lemma size_link_ok:
  assumes "wtable t (length t) nx" "length t < 2 ^ 31"
  shows "links_ok t (size_link nx)"
  unfolding links_ok_def
proof (intro allI impI)
  fix j :: int assume j: "0 \<le> j" "j < int (length t)"
  then have "nat j < length t" by simp
  then obtain v where v: "nx ! nat j = Some (word_of_int v)" "next_ok t (nat j) v"
    using assms(1) unfolding wtable_def by blast
  have f: "fail_ok t (nat j) v" by (rule next_ok_fail_ok [OF v(2)])
  then have "-1 \<le> v" "v < 2 ^ 31" using fail_ok_less [OF f] j assms(2) by auto
  then show "\<exists>v. size_link nx j = Some v \<and> fail_ok t (nat j) v"
    using v(1) f j assms(1) by (simp add: size_link_def rd_def wtable_def size_t_to_int)
qed

interpretation sizetab: failure_table "\<lambda>t. t \<noteq> [] \<and> length t < 2 ^ 31"
  "\<lambda>t. map_option size_link (getNextVal t (replicate (length t) None))"
proof
  fix t :: "charactor list" assume t: "t \<noteq> [] \<and> length t < 2 ^ 31"
  then obtain nx where nx: "getNextVal t (replicate (length t) None) = Some nx"
      "wtable t (length t) nx" using getNextVal_spec by blast
  then show "\<exists>link. map_option size_link (getNextVal t (replicate (length t) None)) = Some link \<and>
      links_ok t link" using size_link_ok t by simp
qed simp

lemma KMPSearch_spec:
  assumes "match_chars cm \<noteq> []" "length (match_chars cm) < 2 ^ 31"
  shows "\<exists>r. first_occurrence (search_chars cm) (match_chars cm) r \<and>
    KMPSearch cm = Some (r \<noteq> -1, word_of_int r)"
proof -
  have "\<exists>i j. do { link \<leftarrow> map_option size_link (getNextVal (match_chars cm)
        (replicate (length (match_chars cm)) None));
      kmp_loop (search_chars cm) (match_chars cm) link 0 0 } = Some (i, j) \<and>
      first_occurrence (search_chars cm) (match_chars cm)
        (if j > 0 \<and> j = int (length (match_chars cm)) then i - j else -1) \<and>
      (j = int (length (match_chars cm)) \<longrightarrow> j \<le> i)"
    using sizetab.search assms by blast
  then obtain i j nx where
    nx: "getNextVal (match_chars cm) (replicate (length (match_chars cm)) None) = Some nx" and
    ij: "kmp_loop (search_chars cm) (match_chars cm) (size_link nx) 0 0 = Some (i, j)"
      "first_occurrence (search_chars cm) (match_chars cm)
        (if j > 0 \<and> j = int (length (match_chars cm)) then i - j else -1)"
      "j = int (length (match_chars cm)) \<longrightarrow> j \<le> i"
    by (auto simp: map_option_case split: option.splits Option.bind_splits)
  show ?thesis
  proof (cases "j > 0 \<and> j = int (length (match_chars cm))")
    case True
    then have "i - j \<noteq> -1" using ij(3) by linarith
    then show ?thesis using nx ij True assms(1)
      by (intro exI [of _ "i - j"]) (simp add: KMPSearch_def)
  next
    case False
    then show ?thesis using nx ij by (intro exI [of _ "-1"]) (auto simp: KMPSearch_def)
  qed
qed

section \<open>The preprocessors\<close>

lemma gbk_little_ascii:
  "\<forall>b \<in> set bs. b < 0x80 \<Longrightarrow>
   gbk_little bs is_first c0 chars =
     (True, chars @ (if is_first then [] else [charactor 1 (scast c0)]) @
        map (\<lambda>c. charactor 1 (scast c)) bs)"
  by (induction bs is_first c0 chars rule: gbk_little.induct) auto

text \<open>Text whose bytes are all below \<open>0x80\<close>: on a little-endian machine GBK is ASCII.\<close>

lemma preProcessGBK_ascii:
  "\<forall>b \<in> set str. b < 0x80 \<Longrightarrow>
   preProcessGBK False v str chars = preProcessASCII v str chars"
  by (simp add: preProcessGBK_def preProcessASCII_def isBigEndian_def first_byte_0x0102_def
      gbk_little_ascii)

text \<open>A first byte from \<open>0x80\<close> on is what a two-byte GBK character starts with.\<close>

lemma preProcessGBK_rejects:
  "\<not> b < 0x80 \<Longrightarrow> preProcessGBK False True (b # bs) chars = (False, chars)"
  by (simp add: preProcessGBK_def isBigEndian_def first_byte_0x0102_def)

lemma CharactorMatcher_gbk_ascii:
  assumes "\<forall>b \<in> set s \<union> set m. b < 0x80"
  shows "CharactorMatcher False s m GBK = CharactorMatcher big s m ASCII"
  using assms preProcessGBK_ascii [of m True "[]"] preProcessGBK_ascii [of s True "[]"]
  by (simp add: CharactorMatcher_def Let_def cong: if_cong)

section \<open>Properties\<close>

text \<open>A matcher whose pattern has between one and \<open>2 ^ 31 - 1\<close> characters finds the first
  occurrence over its \<open>size_t\<close> table: \<open>-1\<close>, stored as \<open>2 ^ 64 - 1\<close>, comes back as \<open>-1\<close> through
  the \<open>int j\<close>, \<open>true\<close> is returned exactly when there is an occurrence, and \<open>pos\<close> is its
  position, or \<open>-1\<close>.\<close>

theorem KMPSearch_correct:
  assumes "match_chars cm \<noteq> []" "length (match_chars cm) < 2 ^ 31"
  shows "\<exists>r. first_occurrence (search_chars cm) (match_chars cm) r \<and>
    KMPSearch cm = Some (r \<noteq> -1, word_of_int r)"
  using assms by (rule KMPSearch_spec)

lemma KMPSearch_correct_witness:
  "\<exists>r. first_occurrence [charactor 1 97, charactor 1 98] [charactor 1 98] r \<and>
    KMPSearch (CharactorMatcher False [97, 98] [98] ASCII) = Some (r \<noteq> -1, word_of_int r)"
  using KMPSearch_correct [of "CharactorMatcher False [97, 98] [98] ASCII"]
  by (simp add: CharactorMatcher_def preProcessASCII_def)

text \<open>For text of bytes below \<open>0x80\<close> a GBK matcher on a little-endian machine is the ASCII
  matcher, whatever the machine of the latter: a lone byte is one character of length 1.\<close>

theorem gbk_matcher_on_ascii:
  assumes "\<forall>b \<in> set s \<union> set m. b < 0x80"
  shows "CharactorMatcher False s m GBK = CharactorMatcher big s m ASCII"
  using assms by (rule CharactorMatcher_gbk_ascii)

lemma gbk_matcher_on_ascii_witness:
  "CharactorMatcher False [104, 105] [105] GBK = CharactorMatcher True [104, 105] [105] ASCII"
  by (rule gbk_matcher_on_ascii) simp

text \<open>A string that begins with a two-byte GBK character is refused: the preprocessor
  expects the lead byte to be below \<open>0x80\<close>, reports a wrong encoding and returns \<open>false\<close>.\<close>

theorem gbk_lead_byte_refused:
  assumes "\<not> b < 0x80"
  shows "preProcessGBK False True (b # bs) chars = (False, chars)"
  using assms by (rule preProcessGBK_rejects)

lemma gbk_lead_byte_refused_witness:
  "preProcessGBK False True [0xD6, 0xD0] [] = (False, [])"
  by (rule gbk_lead_byte_refused) simp

text \<open>With \<open>UTF8\<close> nothing is preprocessed, the pattern has no character, and \<open>KMPSearch\<close>,
  which does not look at \<open>valid\<close>, writes \<open>nextVal[0]\<close> of an array of size zero.\<close>

theorem utf8_search_out_of_range: "KMPSearch (CharactorMatcher big s m UTF8) = None"
  by (simp add: KMPSearch_def CharactorMatcher_def getNextVal_def wrw_def wr_def)

end
