(* ===== verification/Md5.thy ===== *)
theory Md5
  imports Bytes
begin

text \<open>
  \<open>c++/utils/hash/md5.h\<close> and \<open>md5.cpp\<close>: the incremental MD5 class.  \<open>uint4\<close> and
  \<open>size_type\<close> are 32-bit words, so the bit counter carries from \<open>count[0]\<close> to \<open>count[1]\<close> and
  the index arithmetic of \<open>update\<close> wraps.  The arrays \<open>buffer\<close> and \<open>digest\<close> of a fresh object
  are not initialised: \<open>init\<close> keeps whatever they hold, and the theorems hold for any contents.
\<close>

section \<open>Definitions\<close>

type_synonym quad = "uint4 \<times> uint4 \<times> uint4 \<times> uint4"

record md5 =
  finalized :: bool
  buffer :: "byte list"
  count0 :: uint4
  count1 :: uint4
  state :: quad
  digest :: "byte list"


definition F :: "uint4 \<Rightarrow> uint4 \<Rightarrow> uint4 \<Rightarrow> uint4" where
  "F x y z = (x AND y) OR ((NOT x) AND z)"

definition G :: "uint4 \<Rightarrow> uint4 \<Rightarrow> uint4 \<Rightarrow> uint4" where
  "G x y z = (x AND z) OR (y AND NOT z)"

definition H :: "uint4 \<Rightarrow> uint4 \<Rightarrow> uint4 \<Rightarrow> uint4" where
  "H x y z = x XOR y XOR z"

definition I :: "uint4 \<Rightarrow> uint4 \<Rightarrow> uint4 \<Rightarrow> uint4" where
  "I x y z = y XOR (x OR NOT z)"

definition rotate_left :: "uint4 \<Rightarrow> nat \<Rightarrow> uint4" where
  "rotate_left x n = push_bit n x OR drop_bit (32 - n) x"

definition FF :: "uint4 \<Rightarrow> uint4 \<Rightarrow> uint4 \<Rightarrow> uint4 \<Rightarrow> uint4 \<Rightarrow> nat \<Rightarrow> uint4 \<Rightarrow> uint4" where
  "FF a b c d x s ac = rotate_left (a + F b c d + x + ac) s + b"

definition GG :: "uint4 \<Rightarrow> uint4 \<Rightarrow> uint4 \<Rightarrow> uint4 \<Rightarrow> uint4 \<Rightarrow> nat \<Rightarrow> uint4 \<Rightarrow> uint4" where
  "GG a b c d x s ac = rotate_left (a + G b c d + x + ac) s + b"

definition HH :: "uint4 \<Rightarrow> uint4 \<Rightarrow> uint4 \<Rightarrow> uint4 \<Rightarrow> uint4 \<Rightarrow> nat \<Rightarrow> uint4 \<Rightarrow> uint4" where
  "HH a b c d x s ac = rotate_left (a + H b c d + x + ac) s + b"

definition II :: "uint4 \<Rightarrow> uint4 \<Rightarrow> uint4 \<Rightarrow> uint4 \<Rightarrow> uint4 \<Rightarrow> nat \<Rightarrow> uint4 \<Rightarrow> uint4" where
  "II a b c d x s ac = rotate_left (a + I b c d + x + ac) s + b"

definition init :: "md5 \<Rightarrow> md5" where
  "init m = m\<lparr>finalized := False, count0 := 0, count1 := 0,
     state := (0x67452301, 0xefcdab89, 0x98badcfe, 0x10325476)\<rparr>"

text \<open>\<open>decode\<close> returns the words it stores at \<open>output[0]\<close>, \<open>output[1]\<close>, ... from byte \<open>j\<close> on,
  \<open>encode\<close> the bytes it stores at \<open>output[0]\<close>, ... from word \<open>i\<close> on.\<close>

definition word4 :: "byte list \<Rightarrow> uint4" where
  "word4 b = ucast (b ! 0) OR push_bit 8 (ucast (b ! 1)) OR push_bit 16 (ucast (b ! 2)) OR
     push_bit 24 (ucast (b ! 3))"

definition bytes4 :: "uint4 \<Rightarrow> byte list" where
  "bytes4 w = [ucast (w AND 0xff), ucast (drop_bit 8 w AND 0xff), ucast (drop_bit 16 w AND 0xff),
     ucast (drop_bit 24 w AND 0xff)]"

function decode :: "byte list \<Rightarrow> nat \<Rightarrow> nat \<Rightarrow> uint4 list option" where
  "decode input j len =
     (if j < len then do {
        b \<leftarrow> slice input j 4;
        ws \<leftarrow> decode input (j + 4) len;
        Some (word4 b # ws) }
      else Some [])"
  by pat_completeness auto
termination by (relation "measure (\<lambda>(input, j, len). len - j)") auto

function encode :: "uint4 list \<Rightarrow> nat \<Rightarrow> nat \<Rightarrow> byte list option" where
  "encode input i len =
     (if 4 * i < len then do {
        w \<leftarrow> rd input (int i);
        bs \<leftarrow> encode input (i + 1) len;
        Some (bytes4 w @ bs) }
      else Some [])"
  by pat_completeness auto
termination by (relation "measure (\<lambda>(input, i, len). len - 4 * i)") auto

declare decode.simps [simp del] encode.simps [simp del]

definition round1 :: "uint4 list \<Rightarrow> quad \<Rightarrow> quad" where
  "round1 x s = (case s of (a, b, c, d) \<Rightarrow>
    (let a = FF a b c d (x ! 0) 7 0xd76aa478;
         d = FF d a b c (x ! 1) 12 0xe8c7b756;
         c = FF c d a b (x ! 2) 17 0x242070db;
         b = FF b c d a (x ! 3) 22 0xc1bdceee;
         a = FF a b c d (x ! 4) 7 0xf57c0faf;
         d = FF d a b c (x ! 5) 12 0x4787c62a;
         c = FF c d a b (x ! 6) 17 0xa8304613;
         b = FF b c d a (x ! 7) 22 0xfd469501;
         a = FF a b c d (x ! 8) 7 0x698098d8;
         d = FF d a b c (x ! 9) 12 0x8b44f7af;
         c = FF c d a b (x ! 10) 17 0xffff5bb1;
         b = FF b c d a (x ! 11) 22 0x895cd7be;
         a = FF a b c d (x ! 12) 7 0x6b901122;
         d = FF d a b c (x ! 13) 12 0xfd987193;
         c = FF c d a b (x ! 14) 17 0xa679438e;
         b = FF b c d a (x ! 15) 22 0x49b40821
     in (a, b, c, d)))"

definition round2 :: "uint4 list \<Rightarrow> quad \<Rightarrow> quad" where
  "round2 x s = (case s of (a, b, c, d) \<Rightarrow>
    (let a = GG a b c d (x ! 1) 5 0xf61e2562;
         d = GG d a b c (x ! 6) 9 0xc040b340;
         c = GG c d a b (x ! 11) 14 0x265e5a51;
         b = GG b c d a (x ! 0) 20 0xe9b6c7aa;
         a = GG a b c d (x ! 5) 5 0xd62f105d;
         d = GG d a b c (x ! 10) 9 0x2441453;
         c = GG c d a b (x ! 15) 14 0xd8a1e681;
         b = GG b c d a (x ! 4) 20 0xe7d3fbc8;
         a = GG a b c d (x ! 9) 5 0x21e1cde6;
         d = GG d a b c (x ! 14) 9 0xc33707d6;
         c = GG c d a b (x ! 3) 14 0xf4d50d87;
         b = GG b c d a (x ! 8) 20 0x455a14ed;
         a = GG a b c d (x ! 13) 5 0xa9e3e905;
         d = GG d a b c (x ! 2) 9 0xfcefa3f8;
         c = GG c d a b (x ! 7) 14 0x676f02d9;
         b = GG b c d a (x ! 12) 20 0x8d2a4c8a
     in (a, b, c, d)))"

definition round3 :: "uint4 list \<Rightarrow> quad \<Rightarrow> quad" where
  "round3 x s = (case s of (a, b, c, d) \<Rightarrow>
    (let a = HH a b c d (x ! 5) 4 0xfffa3942;
         d = HH d a b c (x ! 8) 11 0x8771f681;
         c = HH c d a b (x ! 11) 16 0x6d9d6122;
         b = HH b c d a (x ! 14) 23 0xfde5380c;
         a = HH a b c d (x ! 1) 4 0xa4beea44;
         d = HH d a b c (x ! 4) 11 0x4bdecfa9;
         c = HH c d a b (x ! 7) 16 0xf6bb4b60;
         b = HH b c d a (x ! 10) 23 0xbebfbc70;
         a = HH a b c d (x ! 13) 4 0x289b7ec6;
         d = HH d a b c (x ! 0) 11 0xeaa127fa;
         c = HH c d a b (x ! 3) 16 0xd4ef3085;
         b = HH b c d a (x ! 6) 23 0x4881d05;
         a = HH a b c d (x ! 9) 4 0xd9d4d039;
         d = HH d a b c (x ! 12) 11 0xe6db99e5;
         c = HH c d a b (x ! 15) 16 0x1fa27cf8;
         b = HH b c d a (x ! 2) 23 0xc4ac5665
     in (a, b, c, d)))"

definition round4 :: "uint4 list \<Rightarrow> quad \<Rightarrow> quad" where
  "round4 x s = (case s of (a, b, c, d) \<Rightarrow>
    (let a = II a b c d (x ! 0) 6 0xf4292244;
         d = II d a b c (x ! 7) 10 0x432aff97;
         c = II c d a b (x ! 14) 15 0xab9423a7;
         b = II b c d a (x ! 5) 21 0xfc93a039;
         a = II a b c d (x ! 12) 6 0x655b59c3;
         d = II d a b c (x ! 3) 10 0x8f0ccc92;
         c = II c d a b (x ! 10) 15 0xffeff47d;
         b = II b c d a (x ! 1) 21 0x85845dd1;
         a = II a b c d (x ! 8) 6 0x6fa87e4f;
         d = II d a b c (x ! 15) 10 0xfe2ce6e0;
         c = II c d a b (x ! 6) 15 0xa3014314;
         b = II b c d a (x ! 13) 21 0x4e0811a1;
         a = II a b c d (x ! 4) 6 0xf7537e82;
         d = II d a b c (x ! 11) 10 0xbd3af235;
         c = II c d a b (x ! 2) 15 0x2ad7d2bb;
         b = II b c d a (x ! 9) 21 0xeb86d391
     in (a, b, c, d)))"

definition add4 :: "quad \<Rightarrow> quad \<Rightarrow> quad" where
  "add4 s t = (case (s, t) of ((a, b, c, d), (a', b', c', d')) \<Rightarrow> (a + a', b + b', c + c', d + d'))"

definition md5_block :: "quad \<Rightarrow> uint4 list \<Rightarrow> quad" where
  "md5_block s x = add4 s (round4 x (round3 x (round2 x (round1 x s))))"

definition transform :: "md5 \<Rightarrow> byte list \<Rightarrow> md5 option" where
  "transform m block = do {
     x \<leftarrow> decode block 0 64;
     Some (m\<lparr>state := md5_block (state m) x\<rparr>) }"

text \<open>\<open>for (i = firstpart; i + blocksize <= length; i += blocksize) transform (&input[i]);\<close>\<close>

partial_function (option) update_blocks ::
    "md5 \<Rightarrow> byte list \<Rightarrow> uint4 \<Rightarrow> uint4 \<Rightarrow> (md5 \<times> uint4) option" where
  [code]: "update_blocks m input length' i =
     (if i + 64 \<le> length' then do {
        b \<leftarrow> slice input (unat i) 64;
        m' \<leftarrow> transform m b;
        update_blocks m' input length' (i + 64) }
      else Some (m, i))"

definition buffer_rest :: "md5 \<Rightarrow> byte list \<Rightarrow> uint4 \<Rightarrow> uint4 \<Rightarrow> uint4 \<Rightarrow> md5 option" where
  "buffer_rest m input length' index i = do {
     b \<leftarrow> slice input (unat i) (unat (length' - i));
     buf \<leftarrow> blit (buffer m) (unat index) b;
     Some (m\<lparr>buffer := buf\<rparr>) }"

definition update :: "md5 \<Rightarrow> byte list \<Rightarrow> uint4 \<Rightarrow> md5 option" where
  "update m input length' =
     (let index = count0 m div 8 mod 64;
          c0 = count0 m + push_bit 3 length';
          c1 = (if c0 < push_bit 3 length' then count1 m + 1 else count1 m) + drop_bit 29 length';
          m1 = m\<lparr>count0 := c0, count1 := c1\<rparr>;
          firstpart = 64 - index
      in if firstpart \<le> length' then do {
           b \<leftarrow> slice input 0 (unat firstpart);
           buf \<leftarrow> blit (buffer m1) (unat index) b;
           m2 \<leftarrow> transform (m1\<lparr>buffer := buf\<rparr>) buf;
           (m3, i) \<leftarrow> update_blocks m2 input length' firstpart;
           buffer_rest m3 input length' 0 i }
         else buffer_rest m1 input length' index 0)"

definition padding :: "byte list" where
  "padding = 0x80 # replicate 63 0"

definition words_of :: "quad \<Rightarrow> uint4 list" where
  "words_of s = (case s of (a, b, c, d) \<Rightarrow> [a, b, c, d])"

definition finalize :: "md5 \<Rightarrow> md5 option" where
  "finalize m =
     (if \<not> finalized m then do {
        bits \<leftarrow> encode [count0 m, count1 m] 0 8;
        let index = count0 m div 8 mod 64;
        let padLen = (if index < 56 then 56 - index else 120 - index);
        m1 \<leftarrow> update m padding padLen;
        m2 \<leftarrow> update m1 bits 8;
        dg \<leftarrow> encode (words_of (state m2)) 0 16;
        Some (m2\<lparr>digest := dg, buffer := replicate 64 0, count0 := 0, count1 := 0,
                finalized := True\<rparr>) }
      else Some m)"

definition hexdigest :: "md5 \<Rightarrow> string" where
  "hexdigest m = (if \<not> finalized m then '''' else concat (map (\<lambda>b. hex 2 (uint b)) (digest m)))"

text \<open>The constructor from a string: \<open>text.length()\<close> is converted to 32 bits.\<close>

definition MD5 :: "md5 \<Rightarrow> byte list \<Rightarrow> md5 option" where
  "MD5 m txt = do { m1 \<leftarrow> update (init m) txt (of_nat (length txt)); finalize m1 }"

section \<open>Encoding and decoding\<close>

lemma byte_mask: "ucast (w AND 0xff) = (ucast w :: byte)" for w :: uint4
proof -
  have m: "0xff = (mask 8 :: uint4)" by (simp add: mask_eq_exp_minus_1)
  show ?thesis unfolding m by (rule bit_word_eqI) (auto simp: bit_simps)
qed

lemma word4_bytes4: "word4 (bytes4 w) = w"
proof (rule bit_word_eqI)
  fix n assume n: "n < LENGTH(32)"
  consider "n < 8" | "8 \<le> n" "n < 16" | "16 \<le> n" "n < 24" | "24 \<le> n" by linarith
  then show "bit (word4 (bytes4 w)) n = bit w n"
    using n by cases (auto simp: word4_def bytes4_def byte_mask bit_simps)
qed

lemma encode_eq: "encode ws i (4 * length ws) = Some (concat (map bytes4 (drop i ws)))"
proof (induction "length ws - i" arbitrary: i)
  case 0
  then show ?case by (simp add: encode.simps)
next
  case (Suc n)
  then have "encode ws (i + 1) (4 * length ws) = Some (concat (map bytes4 (drop (i + 1) ws)))" by simp
  moreover have "i < length ws" using Suc(2) by simp
  moreover from this have "rd ws (int i) = Some (ws ! i)" "drop i ws = ws ! i # drop (i + 1) ws"
    by (simp_all add: rd_def Cons_nth_drop_Suc)
  ultimately show ?case by (simp add: encode.simps [of ws i])
qed

lemma decode_bytes4:
  "decode (pre @ concat (map bytes4 ws)) (length pre) (length pre + 4 * length ws) = Some ws"
proof (induction ws arbitrary: pre)
  case Nil
  then show ?case by (simp add: decode.simps)
next
  case (Cons w ws)
  have l: "length (bytes4 w) = 4" by (simp add: bytes4_def)
  have "decode ((pre @ bytes4 w) @ concat (map bytes4 ws)) (length pre + 4) (length pre + 4 + 4 * length ws) = Some ws"
    using Cons [of "pre @ bytes4 w"] l by simp
  moreover have "slice (pre @ bytes4 w @ concat (map bytes4 ws)) (length pre) 4 = Some (bytes4 w)"
    using l by (simp add: slice_def)
  ultimately show ?case
    by (subst decode.simps) (simp add: word4_bytes4 add.assoc [symmetric])
qed

lemma decode_some:
  "4 dvd len - j \<Longrightarrow> len \<le> length input \<Longrightarrow> \<exists>ws. decode input j len = Some ws \<and> 4 * length ws = len - j"
proof (induction input j len rule: decode.induct)
  case (1 input j len)
  show ?case
  proof (cases "j < len")
    case True
    then have j: "j + 4 \<le> len" using 1(2) by (auto dest: dvd_imp_le)
    have "4 dvd len - (j + 4)" using 1(2) by (metis diff_diff_left dvd_diff_nat dvd_refl)
    then obtain ws where "decode input (j + 4) len = Some ws" "4 * length ws = len - (j + 4)"
      using 1(1) [OF True] 1(3) j by (auto simp: slice_in)
    then show ?thesis using True j 1(3) by (simp add: decode.simps [of input j] slice_in)
  qed (simp add: decode.simps [of input j])
qed

section \<open>The transformation as a table\<close>

text \<open>
  The 64 operations as the specification of MD5 tabulates them: operation \<open>i\<close> uses the
  \<open>i\<close>-th constant, a word of the block given by a formula, and one of four shifts per round;
  the four registers rotate.  The unrolled code keeps the registers and permutes the names.
\<close>

definition K :: "uint4 list" where
  "K = [0xd76aa478, 0xe8c7b756, 0x242070db, 0xc1bdceee, 0xf57c0faf, 0x4787c62a,
    0xa8304613, 0xfd469501, 0x698098d8, 0x8b44f7af, 0xffff5bb1, 0x895cd7be,
    0x6b901122, 0xfd987193, 0xa679438e, 0x49b40821, 0xf61e2562, 0xc040b340,
    0x265e5a51, 0xe9b6c7aa, 0xd62f105d, 0x2441453, 0xd8a1e681, 0xe7d3fbc8,
    0x21e1cde6, 0xc33707d6, 0xf4d50d87, 0x455a14ed, 0xa9e3e905, 0xfcefa3f8,
    0x676f02d9, 0x8d2a4c8a, 0xfffa3942, 0x8771f681, 0x6d9d6122, 0xfde5380c,
    0xa4beea44, 0x4bdecfa9, 0xf6bb4b60, 0xbebfbc70, 0x289b7ec6, 0xeaa127fa,
    0xd4ef3085, 0x4881d05, 0xd9d4d039, 0xe6db99e5, 0x1fa27cf8, 0xc4ac5665,
    0xf4292244, 0x432aff97, 0xab9423a7, 0xfc93a039, 0x655b59c3, 0x8f0ccc92,
    0xffeff47d, 0x85845dd1, 0x6fa87e4f, 0xfe2ce6e0, 0xa3014314, 0x4e0811a1,
    0xf7537e82, 0xbd3af235, 0x2ad7d2bb, 0xeb86d391]"

definition turn ::
    "(uint4 \<Rightarrow> uint4 \<Rightarrow> uint4 \<Rightarrow> uint4 \<Rightarrow> uint4 \<Rightarrow> nat \<Rightarrow> uint4 \<Rightarrow> uint4) \<Rightarrow> uint4 \<Rightarrow> nat \<Rightarrow> uint4 \<Rightarrow> quad \<Rightarrow> quad" where
  "turn f x s ac st = (case st of (a, b, c, d) \<Rightarrow> (d, f a b c d x s ac, b, c))"

definition table_step :: "uint4 list \<Rightarrow> nat \<Rightarrow> quad \<Rightarrow> quad" where
  "table_step x i =
     (if i < 16 then turn FF (x ! i) ([7, 12, 17, 22] ! (i mod 4)) (K ! i)
      else if i < 32 then turn GG (x ! ((5 * i + 1) mod 16)) ([5, 9, 14, 20] ! (i mod 4)) (K ! i)
      else if i < 48 then turn HH (x ! ((3 * i + 5) mod 16)) ([4, 11, 16, 23] ! (i mod 4)) (K ! i)
      else turn II (x ! ((7 * i) mod 16)) ([6, 10, 15, 21] ! (i mod 4)) (K ! i))"

lemma let_intro: "(\<And>v. e = v \<Longrightarrow> f v = r) \<Longrightarrow> Let e f = r"
  by (simp add: Let_def)

lemma upt_0: "[0..<16] = [0, 1, 2, 3, 4, 5, 6, 7, 8, 9, 10, 11, 12, 13, 14, 15]"
  by (simp add: upt_rec numeral_2_eq_2)

lemma upt_16: "[16..<32] = [16, 17, 18, 19, 20, 21, 22, 23, 24, 25, 26, 27, 28, 29, 30, 31]"
  by (simp add: upt_rec numeral_2_eq_2)

lemma upt_32: "[32..<48] = [32, 33, 34, 35, 36, 37, 38, 39, 40, 41, 42, 43, 44, 45, 46, 47]"
  by (simp add: upt_rec numeral_2_eq_2)

lemma upt_48: "[48..<64] = [48, 49, 50, 51, 52, 53, 54, 55, 56, 57, 58, 59, 60, 61, 62, 63]"
  by (simp add: upt_rec numeral_2_eq_2)

lemmas table_eval = table_step_def turn_def K_def

lemma round1_table: "round1 x s = fold (table_step x) [0..<16] s"
proof -
  obtain a b c d where s: "s = (a, b, c, d)" by (cases s)
  show ?thesis
    unfolding s round1_def prod.case upt_0 by (intro let_intro) (simp add: table_eval)
qed

lemma round2_table: "round2 x s = fold (table_step x) [16..<32] s"
proof -
  obtain a b c d where s: "s = (a, b, c, d)" by (cases s)
  show ?thesis
    unfolding s round2_def prod.case upt_16 by (intro let_intro) (simp add: table_eval)
qed

lemma round3_table: "round3 x s = fold (table_step x) [32..<48] s"
proof -
  obtain a b c d where s: "s = (a, b, c, d)" by (cases s)
  show ?thesis
    unfolding s round3_def prod.case upt_32 by (intro let_intro) (simp add: table_eval)
qed

lemma round4_table: "round4 x s = fold (table_step x) [48..<64] s"
proof -
  obtain a b c d where s: "s = (a, b, c, d)" by (cases s)
  show ?thesis
    unfolding s round4_def prod.case upt_48 by (intro let_intro) (simp add: table_eval)
qed

lemma md5_block_table: "md5_block s x = add4 s (fold (table_step x) [0..<64] s)"
proof -
  have "[0..<64] = [0..<16] @ [16..<32] @ [32..<48] @ [48..<(64::nat)]"
    using upt_add_eq_append [of 0 16 16] upt_add_eq_append [of 0 32 16] upt_add_eq_append [of 0 48 16]
    by simp
  then show ?thesis
    by (simp add: md5_block_def round1_table round2_table round3_table round4_table)
qed

section \<open>The state of the object\<close>

definition start :: quad where
  "start = (0x67452301, 0xefcdab89, 0x98badcfe, 0x10325476)"

definition compress :: "quad \<Rightarrow> byte list \<Rightarrow> quad" where
  "compress s b = (case decode b 0 64 of Some x \<Rightarrow> md5_block s x | None \<Rightarrow> s)"

lemma transform_eq:
  "length b = 64 \<Longrightarrow> transform m b = Some (m\<lparr>state := compress (state m) b\<rparr>)"
  using decode_some [of 64 0 b] by (auto simp: transform_def compress_def)

text \<open>
  The object has absorbed \<open>msg\<close>: the registers are those after the complete blocks of
  \<open>msg\<close>, the buffer begins with the rest, the counter is the number of bits modulo \<open>2 ^ 64\<close>.
\<close>

definition absorbed :: "byte list \<Rightarrow> md5 \<Rightarrow> bool" where
  "absorbed msg m \<longleftrightarrow> length (buffer m) = 64 \<and> state m = run compress start msg \<and>
     take (length msg mod 64) (buffer m) = drop (length msg div 64 * 64) msg \<and>
     unat (count0 m) + 2 ^ 32 * unat (count1 m) = 8 * length msg mod 2 ^ 64"

lemma absorbed_init: "length (buffer m) = 64 \<Longrightarrow> absorbed [] (init m)"
  by (simp add: absorbed_def init_def start_def)

lemma count_index:
  assumes "unat (a :: uint4) + 2 ^ 32 * unat (b :: uint4) = 8 * n mod 2 ^ 64"
  shows "unat (a div 8 mod 64) = n mod 64"
proof -
  have "unat a = (unat a + 2 ^ 32 * unat b) mod 2 ^ 32" using unat_32 [of a] by simp
  also have "\<dots> = 8 * n mod 2 ^ 32" unfolding assms by (simp add: mod_mod_cancel)
  finally have "unat a = 8 * (n mod 2 ^ 29)" by (simp add: mult_mod_right)
  then have "unat a div 8 mod 64 = n mod 64" by (simp add: mod_mod_cancel)
  then show ?thesis by (simp add: unat_div unat_mod)
qed

lemma update_blocks_spec:
  "i \<le> n \<Longrightarrow> n \<le> length mem \<Longrightarrow> n < 2 ^ 32 - 64 \<Longrightarrow>
   update_blocks m mem (of_nat n) (of_nat i) =
     Some (m\<lparr>state := run compress (state m) (drop i (take n mem))\<rparr>,
       of_nat (i + (n - i) div 64 * 64))"
proof (induction "n - i" arbitrary: i m rule: less_induct)
  case less
  note prems = less.prems
  have g: "(of_nat i + 64 :: uint4) \<le> of_nat n \<longleftrightarrow> i + 64 \<le> n"
    using prems unat_small [of "i + 64"] unat_small [of n] by (simp add: word_le_nat_alt)
  note unf = update_blocks.simps [of m mem "of_nat n" "of_nat i"]
  show ?case
  proof (cases "i + 64 \<le> n")
    case False
    then have "(n - i) div 64 = 0" by simp
    then show ?thesis using False unfolding unf g by simp
  next
    case True
    let ?b = "take 64 (drop i (take n mem))"
    let ?m = "m\<lparr>state := compress (state m) ?b\<rparr>"
    have b: "?b = take 64 (drop i mem)" using True by (simp add: drop_take min_absorb1)
    have "update_blocks ?m mem (of_nat n) (of_nat (i + 64)) =
      Some (?m\<lparr>state := run compress (state ?m) (drop (i + 64) (take n mem))\<rparr>,
        of_nat (i + 64 + (n - (i + 64)) div 64 * 64))"
      using prems True by (intro less.hyps) auto
    moreover have "i + 64 + (n - (i + 64)) div 64 * 64 = i + (n - i) div 64 * 64"
      using True by (simp add: div_if [of "n - i"])
    moreover have "\<not> length (drop i (take n mem)) < 64" using True prems by simp
    moreover from this have "run compress (state m) (drop i (take n mem)) =
        run compress (compress (state m) ?b) (drop (i + 64) (take n mem))"
      by (subst run.simps) (simp add: add.commute)
    moreover have "slice mem (unat (of_nat i :: uint4)) 64 = Some ?b"
      using True prems unat_small [of i] unfolding b by (simp add: slice_in)
    moreover have "transform m ?b = Some ?m"
      using True prems by (intro transform_eq) simp
    ultimately show ?thesis using True unfolding unf g by simp
  qed
qed

lemma absorbedE:
  assumes "absorbed msg m"
  obtains full rest where "msg = full @ rest" "64 dvd length full" "length rest < 64"
    "rest = take (length rest) (buffer m)" "state m = run compress start full"
    "length (buffer m) = 64" "length rest = length msg mod 64"
proof
  let ?full = "take (length msg div 64 * 64) msg" and ?rest = "drop (length msg div 64 * 64) msg"
  show "msg = ?full @ ?rest" by simp
  have "length ?full = length msg div 64 * 64" using div_times_less_eq_dividend [of "length msg" 64] by simp
  then show "64 dvd length ?full" by simp
  show r: "length ?rest = length msg mod 64" by (simp add: minus_div_mult_eq_mod)
  then show "length ?rest < 64" by simp
  show "?rest = take (length ?rest) (buffer m)" using assms unfolding r by (simp add: absorbed_def)
  show "state m = run compress start ?full" "length (buffer m) = 64"
    using assms run_rest [of compress start msg] by (simp_all add: absorbed_def)
qed

lemma absorbedI:
  assumes "msg = full @ rest" "64 dvd length full" "length rest < 64"
    "take (length rest) (buffer m) = rest" "state m = run compress start full"
    "length (buffer m) = 64" "unat (count0 m) + 2 ^ 32 * unat (count1 m) = 8 * length msg mod 2 ^ 64"
  shows "absorbed msg m"
proof -
  obtain k where k: "length full = 64 * k" using assms(2) by auto
  then have "length msg div 64 * 64 = length full" "length msg mod 64 = length rest"
    using assms(1,3) by simp_all
  then show ?thesis using assms run_append [OF assms(2), of compress start rest]
    by (simp add: absorbed_def)
qed

lemma buffer_rest_eq:
  assumes "i \<le> n" "n \<le> length mem" "n < 2 ^ 32" "idx < 64" "length (buffer m) = 64"
    "idx + (n - i) \<le> 64" "index = of_nat idx" "unat i' = i"
  shows "buffer_rest m mem (of_nat n) index i' =
    Some (m\<lparr>buffer := take idx (buffer m) @ drop i (take n mem) @
      drop (idx + (n - i)) (buffer m)\<rparr>)"
proof -
  have "unat (of_nat n - i') = n - i"
    using assms unat_small [of n] by (metis unat_sub word_le_nat_alt)
  moreover have "unat index = idx" using assms unat_small [of idx] by simp
  ultimately show ?thesis using assms by (simp add: buffer_rest_def slice_in blit_in drop_take)
qed

lemma absorbed_update:
  assumes A: "absorbed msg m" and l: "n \<le> length mem" "n < 2 ^ 32 - 64"
  shows "\<exists>m'. update m mem (of_nat n) = Some m' \<and> absorbed (msg @ take n mem) m' \<and>
    finalized m' = finalized m"
proof -
  define input r where "input = take n mem" and "r = length msg mod 64"
  have n_def: "n = length input" using l by (simp add: input_def)
  obtain full rest where fr: "msg = full @ rest" "64 dvd length full" "length rest < 64"
    "rest = take (length rest) (buffer m)" "state m = run compress start full"
    "length (buffer m) = 64" "length rest = r"
    using A unfolding r_def by (rule absorbedE)
  have r: "r < 64" using fr(3,7) by simp
  have "unat (count0 m div 8 mod 64) = r"
    using A count_index [of "count0 m" "count1 m" "length msg"] by (simp add: absorbed_def r_def)
  then have ix: "count0 m div 8 mod 64 = of_nat r" by auto
  define c0 where "c0 = count0 m + push_bit 3 (of_nat n)"
  define c1 where "c1 = (if c0 < push_bit 3 (of_nat n) then count1 m + 1 else count1 m) +
    drop_bit 29 (of_nat n :: uint4)"
  define m1 where "m1 = m\<lparr>count0 := c0, count1 := c1\<rparr>"
  have cnt: "unat c0 + 2 ^ 32 * unat c1 = 8 * length (msg @ input) mod 2 ^ 64"
    using count_add [of "count0 m" "count1 m" "length msg" "of_nat n"] A l
    by (simp add: absorbed_def c0_def c1_def unat_small flip: n_def)
  have fp: "unat (64 - of_nat r :: uint4) = 64 - r"
    using r by (simp add: unat_sub word_le_nat_alt unat_small)
  have fpw: "(64 - of_nat r :: uint4) = of_nat (64 - r)" using r by (simp add: of_nat_diff)
  have g: "(64 - of_nat r :: uint4) \<le> of_nat n \<longleftrightarrow> 64 - r \<le> n"
    using fp l by (simp add: word_le_nat_alt unat_small)
  note unf = update_def [of m mem "of_nat n", unfolded ix Let_def,
      folded c0_def, folded c1_def, folded m1_def]
  show ?thesis
  proof (cases "64 - r \<le> n")
    case False
    then have "buffer_rest m1 mem (of_nat n) (of_nat r) 0 =
        Some (m1\<lparr>buffer := take r (buffer m) @ input @ drop (r + n) (buffer m)\<rparr>)"
      using buffer_rest_eq [of 0 n mem r m1 "of_nat r" 0] r fr(6) l by (simp add: m1_def input_def)
    moreover have "absorbed (msg @ input)
        (m1\<lparr>buffer := take r (buffer m) @ input @ drop (r + n) (buffer m)\<rparr>)"
      by (rule absorbedI [of _ full "rest @ input"])
        (use fr False cnt in \<open>simp_all add: m1_def n_def\<close>)
    ultimately show ?thesis using False g unf by (simp add: input_def m1_def)
  next
    case True
    define q where "q = 64 - r + (n - (64 - r)) div 64 * 64"
    have q: "q \<le> n" "n - q < 64"
      using True div_times_less_eq_dividend [of "n - (64 - r)" 64]
      by (simp_all add: q_def minus_div_mult_eq_mod flip: diff_diff_left)
    define block where "block = rest @ take (64 - r) input"
    have lb: "length block = 64" using True fr(7) r by (simp add: block_def n_def)
    define m2 where "m2 = m1\<lparr>buffer := block, state := compress (state m) block\<rparr>"
    define m3 where "m3 = m2\<lparr>state := run compress (state m2) (drop (64 - r) input)\<rparr>"
    have s: "slice mem 0 (unat (64 - of_nat r :: uint4)) = Some (take (64 - r) input)"
      using True fp l by (simp add: slice_in input_def min_absorb1)
    have b: "blit (buffer m1) (unat (of_nat r :: uint4)) (take (64 - r) input) = Some block"
      using True fr r by (simp add: blit_in n_def m1_def block_def unat_small)
    have t: "transform (m1\<lparr>buffer := block\<rparr>) block = Some m2"
      using transform_eq [OF lb] by (simp add: m2_def m1_def)
    have u: "update_blocks m2 mem (of_nat n) (64 - of_nat r) = Some (m3, of_nat q)"
      using update_blocks_spec [of "64 - r" n mem m2] True l
      unfolding fpw m3_def q_def input_def by simp
    have e: "buffer_rest m3 mem (of_nat n) 0 (of_nat q) =
        Some (m3\<lparr>buffer := drop q input @ drop (n - q) block\<rparr>)"
      using buffer_rest_eq [of q n mem 0 m3 0 "of_nat q"] q l lb
      by (simp add: input_def m3_def m2_def unat_small)
    have dq: "drop q input = drop (q - (64 - r)) (drop (64 - r) input)"
      by (simp add: q_def ac_simps)
    have split: "msg @ input = (full @ block @ take (q - (64 - r)) (drop (64 - r) input)) @ drop q input"
    proof -
      have "input = take (64 - r) input @ take (q - (64 - r)) (drop (64 - r) input) @ drop q input"
        unfolding dq by (simp only: append_take_drop_id)
      then show ?thesis unfolding fr(1) block_def by (metis append.assoc)
    qed
    let ?tl = "take (q - (64 - r)) (drop (64 - r) input)"
    have "length ?tl = (n - (64 - r)) div 64 * 64" using q(1) by (simp add: q_def flip: n_def)
    then have d: "64 dvd length ?tl" by simp
    then have d': "64 dvd length (full @ block @ ?tl)" using fr(2) lb by simp
    have "drop (64 - r) input = ?tl @ drop q input"
      unfolding dq by (simp only: append_take_drop_id)
    then have "run compress (compress (state m) block) (drop (64 - r) input) =
        run compress (run compress (compress (state m) block) ?tl) (drop q input)"
      using run_append [OF d] by metis
    also have "\<dots> = run compress (compress (state m) block) ?tl"
      by (rule run_short) (use q in \<open>simp flip: n_def\<close>)
    finally have "run compress (compress (state m) block) (drop (64 - r) input) =
        run compress (compress (state m) block) ?tl" .
    then have st: "run compress (compress (state m) block) (drop (64 - r) input) =
        run compress start (full @ block @ ?tl)"
      by (simp add: run_append [OF fr(2)] run_block [OF lb] fr(5))
    have "absorbed (msg @ input) (m3\<lparr>buffer := drop q input @ drop (n - q) block\<rparr>)"
    proof (rule absorbedI [OF split d'])
      show "state (m3\<lparr>buffer := drop q input @ drop (n - q) block\<rparr>) = run compress start (full @ block @ ?tl)"
        using st by (simp add: m3_def m2_def m1_def)
    qed (use cnt q lb in \<open>simp_all add: m3_def m2_def m1_def n_def\<close>)
    then show ?thesis using True g unf s b t u e by (simp add: input_def m1_def m2_def m3_def)
  qed
qed


section \<open>The digest\<close>

text \<open>The padded message of the specification: \<open>0x80\<close>, zeros up to 56 modulo 64, the length in
  bits as 64 bits, low word first.\<close>

definition md5_pad :: "byte list \<Rightarrow> byte list" where
  "md5_pad msg = msg @ 0x80 # replicate ((119 - length msg mod 64) mod 64) 0 @
     concat (map bytes4 [of_nat (8 * length msg), of_nat (8 * length msg div 2 ^ 32)])"

definition md5_digest :: "byte list \<Rightarrow> byte list" where
  "md5_digest msg = concat (map bytes4 (words_of (run compress start (md5_pad msg))))"

lemma absorbed_counts:
  assumes "absorbed msg m"
  shows "count0 m = of_nat (8 * length msg)" "count1 m = of_nat (8 * length msg div 2 ^ 32)"
proof -
  have "unat (count0 m) + 2 ^ 32 * unat (count1 m) = 8 * length msg mod 2 ^ 64"
    using assms by (simp add: absorbed_def)
  then show "count0 m = of_nat (8 * length msg)" "count1 m = of_nat (8 * length msg div 2 ^ 32)"
    by (rule counter_words)+
qed

lemma finalize_spec:
  assumes A: "absorbed msg m" and f: "\<not> finalized m"
  shows "\<exists>m'. finalize m = Some m' \<and> finalized m' \<and> digest m' = md5_digest msg"
proof -
  define r where "r = length msg mod 64"
  define bits where "bits = concat (map bytes4 [count0 m, count1 m])"
  define z where "z = (119 - r) mod 64"
  have r: "r < 64" by (simp add: r_def)
  have bits: "encode [count0 m, count1 m] 0 8 = Some bits" "length bits = 8"
    using encode_eq [of "[count0 m, count1 m]" 0] by (simp_all add: bits_def bytes4_def)
  have "unat (count0 m div 8 mod 64) = r"
    using A count_index [of "count0 m" "count1 m" "length msg"] by (simp add: absorbed_def r_def)
  then have ix: "count0 m div 8 mod 64 = of_nat r" by auto
  have "(of_nat r :: uint4) < 56 \<longleftrightarrow> r < 56"
    using r by (simp add: word_less_nat_alt unat_small)
  then have pl: "(if (of_nat r :: uint4) < 56 then 56 - of_nat r else 120 - of_nat r) = (of_nat (z + 1) :: uint4)"
    using r by (auto simp: z_def of_nat_diff mod_if)
  have z: "z < 64" by (simp add: z_def)
  have pad: "take (z + 1) padding = 0x80 # replicate z 0" "length padding = 64"
    using z by (simp_all add: padding_def min_def)
  obtain m1 where m1: "update m padding (of_nat (z + 1)) = Some m1"
      "absorbed (msg @ 0x80 # replicate z 0) m1" "finalized m1 = finalized m"
    using absorbed_update [OF A, of "z + 1" padding] z pad by auto
  obtain m2 where m2: "update m1 bits 8 = Some m2"
      "absorbed ((msg @ 0x80 # replicate z 0) @ bits) m2" "finalized m2 = finalized m1"
    using absorbed_update [OF m1(2), of 8 bits] bits(2) by auto
  have "(msg @ 0x80 # replicate z 0) @ bits = md5_pad msg"
    using absorbed_counts [OF A] by (simp add: md5_pad_def bits_def z_def r_def)
  then have st: "state m2 = run compress start (md5_pad msg)"
    using m2(2) by (simp add: absorbed_def)
  have "length (words_of (state m2)) = 4" by (simp add: words_of_def split: prod.split)
  then have "encode (words_of (state m2)) 0 16 = Some (md5_digest msg)"
    using encode_eq [of "words_of (state m2)" 0] by (simp add: md5_digest_def st)
  then show ?thesis using f bits m1(1) m2(1) pl unfolding finalize_def ix Let_def by simp
qed

lemma MD5_spec:
  assumes "length (buffer m) = 64" "length msg < 2 ^ 32 - 64"
  shows "\<exists>m'. MD5 m msg = Some m' \<and> hexdigest m' = concat (map (\<lambda>b. hex 2 (uint b)) (md5_digest msg))"
proof -
  obtain m1 where m1: "update (init m) msg (of_nat (length msg)) = Some m1" "absorbed msg m1"
      "finalized m1 = finalized (init m)"
    using absorbed_update [OF absorbed_init [OF assms(1)] order_refl assms(2)] by auto
  then have "\<not> finalized m1" by (simp add: init_def)
  then show ?thesis using finalize_spec [OF m1(2)] m1(1) by (auto simp: MD5_def hexdigest_def)
qed

lemma md5_pad_Nil: "md5_pad [] = 0x80 # replicate 63 0"
  using replicate_add [of 55 8 "0 :: byte"] by (simp add: md5_pad_def bytes4_def replicate_8)

lemma decode_pad_Nil: "decode (0x80 # replicate 63 0) 0 64 = Some (0x80 # replicate 15 0)"
  by code_simp

lemma md5_block_pad_Nil:
  "md5_block start (0x80 # replicate 15 0) = (3649838548, 78774415, 2550759657, 2118318316)"
  unfolding md5_block_table start_def by code_simp

section \<open>Properties\<close>

text \<open>C9: the digest of a message.  For every contents of the uninitialised object and every
  message shorter than \<open>2 ^ 32 - 64\<close> bytes (beyond that \<open>i + blocksize\<close> wraps in \<open>update\<close>) the
  constructor returns without leaving an array, and \<open>hexdigest\<close> is the hexadecimal form of the
  registers after the blocks of the padded message.\<close>

theorem MD5_correct:
  assumes "length (buffer m) = 64" "length msg < 2 ^ 32 - 64"
  shows "\<exists>m'. MD5 m msg = Some m' \<and>
    hexdigest m' = concat (map (\<lambda>b. hex 2 (uint b)) (md5_digest msg))"
  using assms by (rule MD5_spec)

lemma MD5_correct_witness:
  "\<exists>m'. MD5 \<lparr>finalized = True, buffer = replicate 64 7, count0 = 1, count1 = 2,
      state = (0, 0, 0, 0), digest = []\<rparr> [97, 98, 99] = Some m' \<and>
    hexdigest m' = concat (map (\<lambda>b. hex 2 (uint b)) (md5_digest [97, 98, 99]))"
  by (rule MD5_correct) simp_all

text \<open>Feeding a message in pieces.  An object that has absorbed \<open>msg\<close> and is given the first
  \<open>n\<close> bytes at a pointer has absorbed \<open>msg\<close> followed by them, wherever the pieces are cut: the
  registers, the buffered rest and the 64-bit counter are those of the whole.\<close>

theorem MD5_update_absorbs:
  assumes "absorbed msg m" "n \<le> length mem" "n < 2 ^ 32 - 64"
  shows "\<exists>m'. update m mem (of_nat n) = Some m' \<and> absorbed (msg @ take n mem) m' \<and>
    finalized m' = finalized m"
  using assms by (rule absorbed_update)

lemma MD5_update_absorbs_witness:
  "\<exists>m'. update (init \<lparr>finalized = True, buffer = replicate 64 7, count0 = 1, count1 = 2,
      state = (0, 0, 0, 0), digest = []\<rparr>) [97, 98, 99] (of_nat 2) = Some m' \<and>
    absorbed ([] @ take 2 [97, 98, 99]) m'"
proof -
  let ?m = "\<lparr>finalized = True, buffer = replicate 64 7, count0 = 1, count1 = 2,
    state = (0, 0, 0, 0), digest = []\<rparr> :: md5"
  have "absorbed [] (init ?m)" by (rule absorbed_init) simp
  from MD5_update_absorbs [OF this, of 2 "[97, 98, 99]"] show ?thesis by auto
qed

text \<open>The unrolled transformation, with its 64 calls and permuted register names, is the
  table-driven one: four rotating registers, the constant table, the index formulas
  \<open>i\<close>, \<open>5 i + 1\<close>, \<open>3 i + 5\<close>, \<open>7 i\<close> modulo 16 and four shifts per round.\<close>

theorem md5_transform_is_table:
  "md5_block s x = add4 s (fold (table_step x) [0..<64] s)"
  by (rule md5_block_table)

text \<open>\<open>decode\<close> inverts \<open>encode\<close> on every list of words.\<close>

theorem md5_encode_decode:
  "\<exists>bs. encode ws 0 (4 * length ws) = Some bs \<and> length bs = 4 * length ws \<and>
    decode bs 0 (4 * length ws) = Some ws"
proof -
  have "length (concat (map bytes4 ws)) = 4 * length ws"
    by (induction ws) (simp_all add: bytes4_def)
  then show ?thesis using encode_eq [of ws 0] decode_bytes4 [of "[]" ws] by simp
qed

text \<open>The published test vector of the empty message.\<close>

theorem MD5_empty_message:
  assumes "length (buffer m) = 64"
  shows "map_option hexdigest (MD5 m []) = Some ''d41d8cd98f00b204e9800998ecf8427e''"
proof -
  have run: "run compress start (md5_pad []) = (3649838548, 78774415, 2550759657, 2118318316)"
    using decode_pad_Nil md5_block_pad_Nil by (simp add: md5_pad_Nil run_one compress_def)
  have "md5_digest [] =
      [0xd4, 0x1d, 0x8c, 0xd9, 0x8f, 0x00, 0xb2, 0x04, 0xe9, 0x80, 0x09, 0x98, 0xec, 0xf8, 0x42, 0x7e]"
    unfolding md5_digest_def run by code_simp
  moreover have "concat (map (\<lambda>b. hex 2 (uint b))
      [0xd4, 0x1d, 0x8c, 0xd9, 0x8f, 0x00, 0xb2, 0x04, 0xe9, 0x80, 0x09, 0x98, 0xec, 0xf8, 0x42, 0x7e :: byte]) =
      ''d41d8cd98f00b204e9800998ecf8427e''"
    by code_simp
  ultimately show ?thesis using MD5_spec [OF assms, of "[]"] by auto
qed

lemma MD5_empty_message_witness:
  "map_option hexdigest (MD5 \<lparr>finalized = True, buffer = replicate 64 7, count0 = 1, count1 = 2,
      state = (0, 0, 0, 0), digest = []\<rparr> []) = Some ''d41d8cd98f00b204e9800998ecf8427e''"
  by (rule MD5_empty_message) simp

end
