(* ===== verification/Sha1.thy ===== *)
theory Sha1
  imports Bytes
begin

text \<open>
  \<open>c++/utils/hash/sha1.h\<close> and \<open>sha1.cpp\<close>: SHA-1 of a C string, one 64-byte block at a time.
  The input is the memory behind a pointer, of which the bytes before the first zero are the
  string; the output is a buffer that receives five times \<open>%08x\<close>, each with a terminating
  zero.  A null pointer is \<open>None\<close>.
\<close>

section \<open>Definitions\<close>

type_synonym quint = "uint4 \<times> uint4 \<times> uint4 \<times> uint4 \<times> uint4"

record sha1 =
  hash :: quint
  Length_Low :: uint4
  Length_High :: uint4
  Message_Block :: "byte list"
  Message_Block_Index :: nat

definition SHAInit :: "sha1 \<Rightarrow> sha1" where
  "SHAInit m = m\<lparr>Length_Low := 0, Length_High := 0, Message_Block_Index := 0,
     hash := (0x67452301, 0xEFCDAB89, 0x98BADCFE, 0x10325476, 0xC3D2E1F0)\<rparr>"

definition CircularShift :: "nat \<Rightarrow> uint4 \<Rightarrow> uint4" where
  "CircularShift bits w = (push_bit bits w AND 0xFFFFFFFF) OR drop_bit (32 - bits) (w AND 0xFFFFFFFF)"

definition AddDataLen :: "nat \<Rightarrow> sha1 \<Rightarrow> sha1" where
  "AddDataLen nDealDataLen m =
     (let n = of_nat nDealDataLen :: uint4;
          low = Length_Low m + push_bit 3 n;
          high = (if low < push_bit 3 n then Length_High m + 1 else Length_High m) + drop_bit 29 n
      in m\<lparr>Message_Block_Index := nDealDataLen, Length_Low := low, Length_High := high\<rparr>)"

text \<open>\<open>ProcessMessageBlock\<close>: the word sequence \<open>W\<close>, then four times twenty rounds.\<close>

definition be_word :: "byte list \<Rightarrow> nat \<Rightarrow> uint4" where
  "be_word b t = push_bit 24 (ucast (b ! (t * 4))) OR push_bit 16 (ucast (b ! (t * 4 + 1))) OR
     push_bit 8 (ucast (b ! (t * 4 + 2))) OR ucast (b ! (t * 4 + 3))"

definition extend_W :: "nat \<Rightarrow> uint4 list \<Rightarrow> uint4 list" where
  "extend_W t W = W @ [CircularShift 1 (W ! (t - 3) XOR W ! (t - 8) XOR W ! (t - 14) XOR W ! (t - 16))]"

definition schedule :: "byte list \<Rightarrow> uint4 list" where
  "schedule b = fold extend_W [16..<80] (map (be_word b) [0..<16])"

definition sha_round ::
    "(uint4 \<Rightarrow> uint4 \<Rightarrow> uint4 \<Rightarrow> uint4) \<Rightarrow> uint4 \<Rightarrow> uint4 list \<Rightarrow> nat \<Rightarrow> quint \<Rightarrow> quint" where
  "sha_round f k W t s = (case s of (A, B, C, D, E) \<Rightarrow>
     ((CircularShift 5 A + f B C D + E + W ! t + k) AND 0xFFFFFFFF, A, CircularShift 30 B, C, D))"

definition Ch :: "uint4 \<Rightarrow> uint4 \<Rightarrow> uint4 \<Rightarrow> uint4" where
  "Ch B C D = (B AND C) OR ((NOT B) AND D)"

definition Parity :: "uint4 \<Rightarrow> uint4 \<Rightarrow> uint4 \<Rightarrow> uint4" where
  "Parity B C D = B XOR C XOR D"

definition Maj :: "uint4 \<Rightarrow> uint4 \<Rightarrow> uint4 \<Rightarrow> uint4" where
  "Maj B C D = (B AND C) OR (B AND D) OR (C AND D)"

definition sha_rounds :: "uint4 list \<Rightarrow> quint \<Rightarrow> quint" where
  "sha_rounds W s =
     fold (sha_round Parity 0xCA62C1D6 W) [60..<80]
       (fold (sha_round Maj 0x8F1BBCDC W) [40..<60]
         (fold (sha_round Parity 0x6ED9EBA1 W) [20..<40]
           (fold (sha_round Ch 0x5A827999 W) [0..<20] s)))"

definition add5 :: "quint \<Rightarrow> quint \<Rightarrow> quint" where
  "add5 s r = (case (s, r) of ((a, b, c, d, e), (A, B, C, D, E)) \<Rightarrow>
     ((a + A) AND 0xFFFFFFFF, (b + B) AND 0xFFFFFFFF, (c + C) AND 0xFFFFFFFF,
      (d + D) AND 0xFFFFFFFF, (e + E) AND 0xFFFFFFFF))"

definition sha_block :: "quint \<Rightarrow> byte list \<Rightarrow> quint" where
  "sha_block s b = add5 s (sha_rounds (schedule b) s)"

definition ProcessMessageBlock :: "sha1 \<Rightarrow> sha1" where
  "ProcessMessageBlock m = m\<lparr>hash := sha_block (hash m) (Message_Block m)\<rparr>"

text \<open>\<open>Message_Block[Message_Block_Index++] = v\<close>, and the loop that stores zeros up to \<open>lim\<close>.\<close>

definition put_byte :: "byte \<Rightarrow> sha1 \<Rightarrow> sha1 option" where
  "put_byte v m = do {
     b \<leftarrow> wr (Message_Block m) (int (Message_Block_Index m)) v;
     Some (m\<lparr>Message_Block := b, Message_Block_Index := Message_Block_Index m + 1\<rparr>) }"

function fill_zeros :: "nat \<Rightarrow> sha1 \<Rightarrow> sha1 option" where
  "fill_zeros lim m =
     (if Message_Block_Index m < lim then do { m' \<leftarrow> put_byte 0 m; fill_zeros lim m' } else Some m)"
  by pat_completeness auto
termination
  by (relation "measure (\<lambda>(lim, m). lim - Message_Block_Index m)")
    (auto simp: put_byte_def split: Option.bind_splits)

declare fill_zeros.simps [simp del]

definition be_bytes :: "uint4 \<Rightarrow> byte list" where
  "be_bytes w = [ucast (drop_bit 24 w AND 0xFF), ucast (drop_bit 16 w AND 0xFF),
     ucast (drop_bit 8 w AND 0xFF), ucast (w AND 0xFF)]"

definition PadMessage :: "sha1 \<Rightarrow> sha1 option" where
  "PadMessage m = do {
     m2 \<leftarrow> (if Message_Block_Index m > 55 then do {
         m1 \<leftarrow> put_byte 0x80 m;
         m2 \<leftarrow> fill_zeros 64 m1;
         fill_zeros 56 (ProcessMessageBlock m2) }
       else do {
         m1 \<leftarrow> put_byte 0x80 m;
         fill_zeros 56 m1 });
     b \<leftarrow> blit (Message_Block m2) 56 (be_bytes (Length_High m2) @ be_bytes (Length_Low m2));
     Some (ProcessMessageBlock (m2\<lparr>Message_Block := b\<rparr>)) }"

text \<open>One turn of the loop of \<open>SHA_GO\<close>, and the loop: \<open>pos <= nInputLen\<close> in steps of 64.\<close>

definition sha_chunk :: "byte list \<Rightarrow> nat \<Rightarrow> nat \<Rightarrow> sha1 \<Rightarrow> sha1 option" where
  "sha_chunk mem nInputLen pos m =
     (if nInputLen - pos \<ge> 64 then do {
        d \<leftarrow> slice mem pos 64;
        b \<leftarrow> blit (replicate 64 0) 0 d;
        Some (AddDataLen 0 (ProcessMessageBlock (AddDataLen 64 (m\<lparr>Message_Block := b\<rparr>)))) }
      else do {
        d \<leftarrow> slice mem pos (nInputLen - pos);
        b \<leftarrow> blit (replicate 64 0) 0 d;
        PadMessage (AddDataLen (nInputLen - pos) (m\<lparr>Message_Block := b\<rparr>)) })"

function sha_loop :: "byte list \<Rightarrow> nat \<Rightarrow> nat \<Rightarrow> sha1 \<Rightarrow> sha1 option" where
  "sha_loop mem nInputLen pos m =
     (if pos \<le> nInputLen then do {
        m' \<leftarrow> sha_chunk mem nInputLen pos m;
        sha_loop mem nInputLen (pos + 64) m' }
      else Some m)"
  by pat_completeness auto
termination by (relation "measure (\<lambda>(mem, n, pos, m). Suc n - pos)") auto

declare sha_loop.simps [simp del]

text \<open>\<open>strlen\<close>: the number of bytes before the first zero, which must be there.\<close>

definition strlen :: "byte list \<Rightarrow> nat option" where
  "strlen mem = (if 0 \<in> set mem then Some (length (takeWhile (\<lambda>b. b \<noteq> 0) mem)) else None)"

text \<open>\<open>sprintf (&out[8 * i], "%08x", H[i])\<close> for \<open>i = 0..4\<close>; each writes nine characters.\<close>

fun put_words :: "nat \<Rightarrow> uint4 list \<Rightarrow> string \<Rightarrow> string option" where
  "put_words i [] out = Some out"
| "put_words i (h # hs) out = do {
     out' \<leftarrow> blit out (8 * i) (hex 8 (uint h) @ [CHR 0x00]);
     put_words (i + 1) hs out' }"

definition hash_words :: "quint \<Rightarrow> uint4 list" where
  "hash_words s = (case s of (a, b, c, d, e) \<Rightarrow> [a, b, c, d, e])"

definition SHA_GO ::
    "sha1 \<Rightarrow> byte list option \<Rightarrow> string option \<Rightarrow> (bool \<times> sha1 \<times> string option) option" where
  "SHA_GO m input output =
     (case (input, output) of
        (Some mem, Some out) \<Rightarrow> do {
          n \<leftarrow> strlen mem;
          m' \<leftarrow> sha_loop mem n 0 (SHAInit m);
          out' \<leftarrow> put_words 0 (hash_words (hash m')) out;
          Some (True, m', Some out') }
      | _ \<Rightarrow> Some (False, m, output))"

section \<open>Padding\<close>

lemma put_byte_eq:
  "Message_Block_Index m < length (Message_Block m) \<Longrightarrow>
   put_byte v m = Some (m\<lparr>Message_Block := (Message_Block m)[Message_Block_Index m := v],
     Message_Block_Index := Message_Block_Index m + 1\<rparr>)"
  by (simp add: put_byte_def wr_def)

lemma list_update_middle: "i < length b \<Longrightarrow> b[i := v] = take i b @ v # drop (Suc i) b"
  by (simp add: upd_conv_take_nth_drop)

lemma fill_zeros_eq:
  "Message_Block_Index m = i \<Longrightarrow> i \<le> lim \<Longrightarrow> lim \<le> length (Message_Block m) \<Longrightarrow>
   fill_zeros lim m = Some (m\<lparr>Message_Block := take i (Message_Block m) @ replicate (lim - i) 0 @
     drop lim (Message_Block m), Message_Block_Index := lim\<rparr>)"
proof (induction "lim - i" arbitrary: i m)
  case 0
  then have "i = lim" by simp
  then show ?case using fill_zeros.simps [of lim m] 0 by (cases m) simp
next
  case (Suc k)
  let ?b = "Message_Block m"
  let ?m = "m\<lparr>Message_Block := ?b[i := 0], Message_Block_Index := Suc i\<rparr>"
  have i: "i < lim" using Suc(2) by simp
  then have p: "put_byte 0 m = Some ?m" using Suc(3,5) put_byte_eq [of m 0] by simp
  have "fill_zeros lim ?m = Some (?m\<lparr>Message_Block := take (Suc i) (Message_Block ?m) @
      replicate (lim - Suc i) 0 @ drop lim (Message_Block ?m), Message_Block_Index := lim\<rparr>)"
    using Suc i by (intro Suc(1)) simp_all
  moreover have "take (Suc i) (?b[i := 0]) = take i ?b @ [0]"
    using i Suc(5) by (simp add: take_Suc_conv_app_nth)
  moreover have "replicate (lim - i) 0 = 0 # replicate (lim - Suc i) (0 :: byte)"
    using i by (simp flip: replicate_Suc add: Suc_diff_Suc)
  ultimately show ?case using p i Suc(3) fill_zeros.simps [of lim m] by simp
qed

definition length_bytes :: "sha1 \<Rightarrow> byte list" where
  "length_bytes m = be_bytes (Length_High m) @ be_bytes (Length_Low m)"

lemma length_length_bytes [simp]: "length (length_bytes m) = 8"
  by (simp add: length_bytes_def be_bytes_def)

text \<open>
  The last block or blocks: \<open>d\<close> is the rest of the message, padded with zeros in the block.
  With more than 55 bytes of rest, the block that carries the length begins with the first 56
  bytes of \<open>d\<close> once more.
\<close>

lemma PadMessage_short:
  assumes "Message_Block m = d @ replicate (64 - length d) 0" "length d \<le> 55"
    "Message_Block_Index m = length d"
  shows "\<exists>m'. PadMessage m = Some m' \<and>
    hash m' = sha_block (hash m) (d @ 0x80 # replicate (55 - length d) 0 @ length_bytes m)"
proof -
  have r: "replicate (64 - length d) (0 :: byte) = 0 # replicate (63 - length d) 0"
    using assms(2) by (simp flip: replicate_Suc add: Suc_diff_le)
  define m1 where "m1 = m\<lparr>Message_Block := d @ 0x80 # replicate (63 - length d) 0,
    Message_Block_Index := Suc (length d)\<rparr>"
  have 1: "put_byte 0x80 m = Some m1"
    using assms put_byte_eq [of m "0x80"] by (simp add: m1_def r)
  have "drop 56 (replicate (63 - length d) 0 :: byte list) = replicate (7 - length d) 0" by simp
  then have 2: "fill_zeros 56 m1 = Some (m1\<lparr>Message_Block := d @ 0x80 # replicate (55 - length d) 0 @
      replicate 8 0, Message_Block_Index := 56\<rparr>)"
    using fill_zeros_eq [of m1 "Suc (length d)" 56] assms(2)
    by (simp add: m1_def drop_Cons')
  moreover have "56 - length d = Suc (55 - length d)" using assms(2) by simp
  ultimately show ?thesis
    using 1 assms by (simp add: PadMessage_def blit_in ProcessMessageBlock_def m1_def length_bytes_def
        be_bytes_def)
qed

lemma PadMessage_long:
  assumes "Message_Block m = d @ replicate (64 - length d) 0" "55 < length d" "length d < 64"
    "Message_Block_Index m = length d"
  shows "\<exists>m'. PadMessage m = Some m' \<and>
    hash m' = sha_block (sha_block (hash m) (d @ 0x80 # replicate (63 - length d) 0))
      (take 56 d @ length_bytes m)"
proof -
  have r: "replicate (64 - length d) (0 :: byte) = 0 # replicate (63 - length d) 0"
    using assms(3) by (simp flip: replicate_Suc add: Suc_diff_le)
  define m1 where "m1 = m\<lparr>Message_Block := d @ 0x80 # replicate (63 - length d) 0,
    Message_Block_Index := Suc (length d)\<rparr>"
  have 1: "put_byte 0x80 m = Some m1"
    using assms put_byte_eq [of m "0x80"] by (simp add: m1_def r)
  define m2 where "m2 = m1\<lparr>Message_Block_Index := 64\<rparr>"
  have 2: "fill_zeros 64 m1 = Some m2"
    using fill_zeros_eq [of m1 "Suc (length d)" 64] assms(2,3) by (simp add: m1_def m2_def)
  have 3: "fill_zeros 56 (ProcessMessageBlock m2) = Some (ProcessMessageBlock m2)"
    by (simp add: fill_zeros.simps m2_def ProcessMessageBlock_def)
  show ?thesis
    using 1 2 3 assms
    by (simp add: PadMessage_def blit_in ProcessMessageBlock_def m2_def m1_def length_bytes_def
        be_bytes_def)
qed

section \<open>The blocks of a message\<close>

definition sha_start :: quint where
  "sha_start = (0x67452301, 0xEFCDAB89, 0x98BADCFE, 0x10325476, 0xC3D2E1F0)"

definition bit_length :: "nat \<Rightarrow> byte list" where
  "bit_length n = be_bytes (of_nat (8 * n div 2 ^ 32)) @ be_bytes (of_nat (8 * n))"

text \<open>The padded message of the standard, and what the code hashes.\<close>

definition sha1_pad :: "byte list \<Rightarrow> byte list" where
  "sha1_pad msg = msg @ 0x80 # replicate ((119 - length msg mod 64) mod 64) 0 @
     bit_length (length msg)"

definition sha1_hashed :: "byte list \<Rightarrow> byte list" where
  "sha1_hashed msg =
     (if length msg mod 64 \<le> 55 then sha1_pad msg
      else msg @ 0x80 # replicate (63 - length msg mod 64) 0 @
        take 56 (drop (length msg div 64 * 64) msg) @ bit_length (length msg))"

definition counted :: "nat \<Rightarrow> sha1 \<Rightarrow> bool" where
  "counted n m \<longleftrightarrow> unat (Length_Low m) + 2 ^ 32 * unat (Length_High m) = 8 * n mod 2 ^ 64"

lemma counted_add:
  "counted n m \<Longrightarrow> k \<le> 64 \<Longrightarrow> counted (n + k) (AddDataLen k m)"
  using count_add [of "Length_Low m" "Length_High m" n "of_nat k"]
  by (simp add: counted_def AddDataLen_def Let_def unat_small)

lemma counted_bytes:
  assumes "counted n m"
  shows "length_bytes m = bit_length n"
proof -
  have c: "unat (Length_Low m) + 2 ^ 32 * unat (Length_High m) = 8 * n mod 2 ^ 64"
    using assms by (simp add: counted_def)
  show ?thesis using counter_words [OF c] by (simp add: length_bytes_def bit_length_def)
qed

lemma sha_loop_spec:
  assumes n: "n = length msg" and mem: "mem = msg @ 0 # rest"
  shows "64 * k \<le> n \<Longrightarrow> counted (64 * k) m \<Longrightarrow> hash m = run sha_block sha_start (take (64 * k) msg) \<Longrightarrow>
    \<exists>m'. sha_loop mem n (64 * k) m = Some m' \<and>
      hash m' = run sha_block sha_start (sha1_hashed msg)"
proof (induction "n - 64 * k" arbitrary: k m rule: less_induct)
  case less
  note prems = less.prems
  note unf = sha_loop.simps [of mem n "64 * k" m]
  show ?case
  proof (cases "64 \<le> n - 64 * k")
    case True
    let ?b = "take 64 (drop (64 * k) msg)"
    define m1 where "m1 = AddDataLen 0 (ProcessMessageBlock (AddDataLen 64 (m\<lparr>Message_Block := ?b\<rparr>)))"
    have lb: "length ?b = 64" using True n by simp
    have "slice mem (64 * k) 64 = Some ?b" using True n mem by (simp add: slice_def)
    then have c: "sha_chunk mem n (64 * k) m = Some m1"
      using True lb by (simp add: sha_chunk_def blit_def m1_def)
    have "counted (64 * k + 64 + 0) m1"
      unfolding m1_def
      using counted_add [of "64 * k" "m\<lparr>Message_Block := ?b\<rparr>" 64] prems(2)
      by (intro counted_add) (simp_all add: counted_def ProcessMessageBlock_def)
    then have "counted (64 * (k + 1)) m1" by (simp add: add.commute)
    moreover have "hash m1 = run sha_block sha_start (take (64 * (k + 1)) msg)"
    proof -
      have "take (64 * (k + 1)) msg = take (64 * k) msg @ ?b"
        using take_add [of "64 * k" 64 msg] by (simp add: add.commute)
      moreover have "64 dvd length (take (64 * k) msg)" using prems(1) n by simp
      ultimately show ?thesis
        using prems(3)
        by (simp add: run_append run_one [OF lb] m1_def AddDataLen_def ProcessMessageBlock_def Let_def)
    qed
    ultimately have "\<exists>m'. sha_loop mem n (64 * (k + 1)) m1 = Some m' \<and>
        hash m' = run sha_block sha_start (sha1_hashed msg)"
      using True by (intro less.hyps) auto
    then show ?thesis using c prems(1) unf by (simp add: add.commute)
  next
    case False
    define d where "d = drop (64 * k) msg"
    define m1 where "m1 = AddDataLen (length d) (m\<lparr>Message_Block := d @ replicate (64 - length d) 0\<rparr>)"
    have ld: "length d = n - 64 * k" "length d < 64" using False n by (simp_all add: d_def)
    have nk: "n div 64 = k" "n mod 64 = length d"
    proof -
      have "n = length d + 64 * k" using ld prems(1) by simp
      then show "n div 64 = k" "n mod 64 = length d" using ld(2) by simp_all
    qed
    have msg: "msg = take (64 * k) msg @ d" by (simp add: d_def)
    have dv: "64 dvd length (take (64 * k) msg)" using prems(1) n by simp
    have sl: "slice mem (64 * k) (n - 64 * k) = Some d"
      using n mem prems(1) by (simp add: slice_def d_def)
    have c: "sha_chunk mem n (64 * k) m = PadMessage m1"
      using False ld sl by (simp add: sha_chunk_def blit_def m1_def)
    have cnt: "length_bytes m1 = bit_length n"
      using counted_add [of "64 * k" "m\<lparr>Message_Block := d @ replicate (64 - length d) 0\<rparr>" "length d"]
        prems(1,2) ld by (intro counted_bytes) (simp add: counted_def m1_def)
    have h: "hash m1 = run sha_block sha_start (take (64 * k) msg)"
      "Message_Block m1 = d @ replicate (64 - length d) 0" "Message_Block_Index m1 = length d"
      using prems(3) by (simp_all add: m1_def AddDataLen_def Let_def)
    have fin: "\<exists>m'. sha_loop mem n (64 * k) m = Some m' \<and> hash m' = hash m2"
      if "PadMessage m1 = Some m2" for m2
    proof -
      have "\<not> 64 + 64 * k \<le> n" using False prems(1) by linarith
      then show ?thesis
        using that c prems(1) unf by (simp add: sha_loop.simps [of mem n "64 + 64 * k"] add.commute)
    qed
    show ?thesis
    proof (cases "length d \<le> 55")
      case True
      obtain m2 where m2: "PadMessage m1 = Some m2" "hash m2 =
          sha_block (hash m1) (d @ 0x80 # replicate (55 - length d) 0 @ bit_length n)"
        using PadMessage_short [OF h(2) True h(3)] cnt by auto
      have "sha1_hashed msg = take (64 * k) msg @ d @ 0x80 # replicate (55 - length d) 0 @ bit_length n"
        using True nk n by (simp add: sha1_hashed_def sha1_pad_def mod_if d_def)
      moreover have "length (d @ 0x80 # replicate (55 - length d) 0 @ bit_length n) = 64"
        using True cnt length_length_bytes [of m1] by simp
      ultimately show ?thesis using fin [OF m2(1)] m2(2) h(1) by (simp add: run_append [OF dv] run_one)
    next
      case long: False
      then obtain m2 where m2: "PadMessage m1 = Some m2" "hash m2 =
          sha_block (sha_block (hash m1) (d @ 0x80 # replicate (63 - length d) 0)) (take 56 d @ bit_length n)"
        using PadMessage_long [OF h(2) _ ld(2) h(3)] cnt by auto
      have "sha1_hashed msg = take (64 * k) msg @ (d @ 0x80 # replicate (63 - length d) 0) @
          take 56 d @ bit_length n"
        using long nk n by (simp add: sha1_hashed_def d_def mult.commute)
      moreover have "length (d @ 0x80 # replicate (63 - length d) 0) = 64"
        "length (take 56 d @ bit_length n) = 64"
        using long ld cnt length_length_bytes [of m1] by simp_all
      ultimately show ?thesis using fin [OF m2(1)] m2(2) h(1)
        by (simp add: run_append [OF dv] run_block run_one del: append_assoc)
    qed
  qed
qed

section \<open>The output\<close>

lemma put_words_eq:
  "length pre = 8 * i \<Longrightarrow> 8 * length ws + 1 \<le> length tl' \<Longrightarrow>
   put_words i ws (pre @ tl') = Some (pre @ concat (map (\<lambda>h. hex 8 (uint h)) ws) @
     (if ws = [] then tl' else CHR 0x00 # drop (8 * length ws + 1) tl'))"
proof (induction ws arbitrary: i pre tl')
  case Nil
  then show ?case by simp
next
  case (Cons h ws)
  have b: "blit (pre @ tl') (8 * i) (hex 8 (uint h) @ [CHR 0x00]) =
      Some ((pre @ hex 8 (uint h)) @ CHR 0x00 # drop 9 tl')"
    using Cons(2,3) by (simp add: blit_in)
  have "put_words (i + 1) ws ((pre @ hex 8 (uint h)) @ CHR 0x00 # drop 9 tl') =
      Some ((pre @ hex 8 (uint h)) @ concat (map (\<lambda>h. hex 8 (uint h)) ws) @
        (if ws = [] then CHR 0x00 # drop 9 tl'
         else CHR 0x00 # drop (8 * length ws + 1) (CHR 0x00 # drop 9 tl')))"
    using Cons(2,3) by (intro Cons(1)) simp_all
  then show ?case using b by (simp add: add.commute)
qed

lemma put_words_room:
  "put_words i ws out = Some out' \<Longrightarrow> ws \<noteq> [] \<Longrightarrow> 8 * (i + length ws) + 1 \<le> length out"
proof (induction ws arbitrary: i out)
  case (Cons h ws)
  then obtain o1 where o1: "blit out (8 * i) (hex 8 (uint h) @ [CHR 0x00]) = Some o1"
      "put_words (i + 1) ws o1 = Some out'"
    by (auto split: Option.bind_splits)
  then have "8 * i + 9 \<le> length out" "length o1 = length out"
    by (auto simp: blit_def split: if_splits)
  then show ?case using Cons(1) [OF o1(2)] by (cases "ws = []") auto
qed simp

lemma strlen_eq: "0 \<notin> set msg \<Longrightarrow> strlen (msg @ 0 # rest) = Some (length msg)"
proof -
  assume "0 \<notin> set msg"
  then have "takeWhile (\<lambda>b. b \<noteq> 0) (msg @ 0 # rest) = msg" by (induction msg) auto
  then show ?thesis by (simp add: strlen_def)
qed

lemma length_hash_words [simp]: "length (hash_words s) = 5"
  by (simp add: hash_words_def split: prod.split)

lemma hash_words_not_Nil [simp]: "hash_words s \<noteq> []"
  by (simp add: hash_words_def split: prod.split)

lemma SHA_GO_loop:
  "\<exists>m'. sha_loop (msg @ 0 # rest) (length msg) 0 (SHAInit m) = Some m' \<and>
    hash m' = run sha_block sha_start (sha1_hashed msg)"
  using sha_loop_spec [of "length msg" msg "msg @ 0 # rest" rest 0 "SHAInit m"]
  by (simp add: counted_def SHAInit_def sha_start_def)

definition sha1_text :: "byte list \<Rightarrow> string" where
  "sha1_text padded = concat (map (\<lambda>h. hex 8 (uint h)) (hash_words (run sha_block sha_start padded)))"

section \<open>Properties\<close>



text \<open>With 56 to 63 bytes in the last block the digest is another one: the loop that should
  clear the second padding block starts at index 64 and stores nothing, so that block begins with
  the first 56 bytes of the rest of the message instead of zeros.\<close>

theorem SHA_GO_stale_block:
  assumes "0 \<notin> set msg" "55 < length msg mod 64" "41 \<le> length out"
  shows "\<exists>m'. SHA_GO m (Some (msg @ 0 # rest)) (Some out) =
    Some (True, m', Some (sha1_text (msg @ 0x80 # replicate (63 - length msg mod 64) 0 @
      take 56 (drop (length msg div 64 * 64) msg) @ bit_length (length msg)) @ CHR 0x00 # drop 41 out))"
proof -
  obtain m' where m': "sha_loop (msg @ 0 # rest) (length msg) 0 (SHAInit m) = Some m'"
      "hash m' = run sha_block sha_start (sha1_hashed msg)"
    using SHA_GO_loop by blast
  show ?thesis
    using put_words_eq [of "[]" 0 "hash_words (hash m')" out] m' assms strlen_eq [of msg rest]
    by (simp add: SHA_GO_def sha1_text_def sha1_hashed_def)
qed

lemma SHA_GO_stale_block_witness:
  "\<forall>m. \<exists>m'. SHA_GO m (Some (replicate 56 97 @ 0 # [])) (Some (replicate 41 CHR ''x'')) =
    Some (True, m', Some (sha1_text (replicate 56 97 @ 0x80 # replicate 7 0 @
      take 56 (drop 0 (replicate 56 97)) @ bit_length 56) @ CHR 0x00 # drop 41 (replicate 41 CHR ''x'')))"
  using SHA_GO_stale_block [of "replicate 56 97" "replicate 41 CHR ''x''" _ "[]"] by simp

text \<open>The buffer must hold 41 characters: the comment of \<open>SHA_GO\<close> asks for 20, and with fewer
  than 41 the last \<open>sprintf\<close> writes past the end, whatever the string.\<close>

theorem SHA_GO_needs_41:
  assumes "0 \<in> set mem" "length out < 41"
  shows "SHA_GO m (Some mem) (Some out) = None"
proof -
  have "put_words 0 (hash_words s) out = None" for s
    using put_words_room [of 0 "hash_words s" out] assms(2)
    by (cases "put_words 0 (hash_words s) out") auto
  then show ?thesis using assms(1) by (auto simp: SHA_GO_def strlen_def split: Option.bind_splits)
qed

lemma SHA_GO_needs_41_witness: "\<forall>m. SHA_GO m (Some [97, 0]) (Some (replicate 20 CHR ''x'')) = None"
  by (rule allI, rule SHA_GO_needs_41) simp_all

end
