(* ===== verification/Bst.thy ===== *)
theory Bst
  imports Prelude "HOL-Library.Tree"
begin

text \<open>
  \<open>c++/algos/BST.cpp\<close>: a binary search tree of pointers.  The memory is explicit: \<open>cells\<close> maps
  the live addresses to nodes, \<open>delete\<close> removes an address, and an access through a pointer that
  is null or freed is \<open>None\<close>.  \<open>new\<close> returns \<open>fresh\<close>, an address never used before.  A
  \<open>TreeNode* &\<close> is a \<open>slot\<close>: the variable \<open>root\<close> of the caller or a field of a node.  Loops and
  recursions follow pointers, which may be cyclic, so they are partial functions; the theorems
  that give a \<open>Some\<close> include that they return.
\<close>

section \<open>Definitions\<close>

record TreeNode =
  val :: int
  left :: nat
  right :: nat

type_synonym heap = "nat \<Rightarrow> TreeNode option"

record store =
  cells :: heap
  fresh :: nat
  root :: nat

datatype slot = Root | LeftOf nat | RightOf nat

definition get_slot :: "store \<Rightarrow> slot \<Rightarrow> nat option" where
  "get_slot st s = (case s of
     Root \<Rightarrow> Some (root st)
   | LeftOf a \<Rightarrow> map_option left (cells st a)
   | RightOf a \<Rightarrow> map_option right (cells st a))"

definition set_slot :: "store \<Rightarrow> slot \<Rightarrow> nat \<Rightarrow> store option" where
  "set_slot st s p = (case s of
     Root \<Rightarrow> Some (st\<lparr>root := p\<rparr>)
   | LeftOf a \<Rightarrow> do { n \<leftarrow> cells st a; Some (st\<lparr>cells := (cells st)(a \<mapsto> n\<lparr>left := p\<rparr>)\<rparr>) }
   | RightOf a \<Rightarrow> do { n \<leftarrow> cells st a; Some (st\<lparr>cells := (cells st)(a \<mapsto> n\<lparr>right := p\<rparr>)\<rparr>) })"

definition new_node :: "store \<Rightarrow> int \<Rightarrow> store \<times> nat" where
  "new_node st x =
     (st\<lparr>cells := (cells st)(fresh st \<mapsto> \<lparr>val = x, left = 0, right = 0\<rparr>), fresh := fresh st + 1\<rparr>,
      fresh st)"

text \<open>\<open>while (x != NULL)\<close> of \<open>BSTInsert\<close>: \<open>Some None\<close> when the value is found, otherwise the
  last node \<open>y\<close>.\<close>

partial_function (option) insert_walk :: "heap \<Rightarrow> nat \<Rightarrow> nat \<Rightarrow> int \<Rightarrow> nat option option" where
  [code]: "insert_walk h x y v =
     (if x \<noteq> 0 then do {
        n \<leftarrow> h x;
        if v = val n then Some None
        else if v < val n then insert_walk h (left n) x v
        else insert_walk h (right n) x v }
      else Some (Some y))"

definition BSTInsert :: "store \<Rightarrow> slot \<Rightarrow> int \<Rightarrow> (bool \<times> store) option" where
  "BSTInsert st s v = do {
     p \<leftarrow> get_slot st s;
     if p = 0 then do {
       let (st1, a) = new_node st v;
       st2 \<leftarrow> set_slot st1 s a;
       Some (True, st2) }
     else do {
       r \<leftarrow> insert_walk (cells st) p 0 v;
       case r of
         None \<Rightarrow> Some (False, st)
       | Some y \<Rightarrow> do {
           n \<leftarrow> cells st y;
           let (st1, a) = new_node st v;
           st2 \<leftarrow> set_slot st1 (if v < val n then LeftOf y else RightOf y) a;
           Some (True, st2) } } }"

partial_function (option) BSTInsert2 :: "store \<Rightarrow> slot \<Rightarrow> int \<Rightarrow> (bool \<times> store) option" where
  [code]: "BSTInsert2 st s v = do {
     p \<leftarrow> get_slot st s;
     if p = 0 then do {
       let (st1, a) = new_node st v;
       st2 \<leftarrow> set_slot st1 s a;
       Some (True, st2) }
     else do {
       n \<leftarrow> cells st p;
       if v = val n then Some (False, st)
       else if v < val n then BSTInsert2 st (LeftOf p) v
       else BSTInsert2 st (RightOf p) v } }"

fun BSTCreate :: "store \<Rightarrow> slot \<Rightarrow> int list \<Rightarrow> store option" where
  "BSTCreate st s [] = Some st"
| "BSTCreate st s (v # a) = do { (b, st1) \<leftarrow> BSTInsert2 st s v; BSTCreate st1 s a }"

partial_function (option) helper :: "heap \<Rightarrow> int list \<Rightarrow> nat \<Rightarrow> int list option" where
  [code]: "helper h res p =
     (if p = 0 then Some res
      else do {
        n \<leftarrow> h p;
        r1 \<leftarrow> helper h res (left n);
        helper h (r1 @ [val n]) (right n) })"

definition InOrderTraverse :: "store \<Rightarrow> nat \<Rightarrow> int list option" where
  "InOrderTraverse st p = helper (cells st) [] p"

partial_function (option) BSTSearch :: "heap \<Rightarrow> nat \<Rightarrow> int \<Rightarrow> bool option" where
  [code]: "BSTSearch h p v =
     (if p \<noteq> 0 then do {
        n \<leftarrow> h p;
        if val n \<noteq> v then
          if v < val n then BSTSearch h (left n) v else BSTSearch h (right n) v
        else Some True }
      else Some False)"

partial_function (option) BSTSearch2 :: "heap \<Rightarrow> nat \<Rightarrow> int \<Rightarrow> bool option" where
  [code]: "BSTSearch2 h p v =
     (if p = 0 then Some False
      else do {
        n \<leftarrow> h p;
        if val n = v then Some True
        else if val n > v then BSTSearch2 h (left n) v
        else BSTSearch2 h (right n) v })"

text \<open>\<open>while (l->right != NULL)\<close> of \<open>deleteHelper\<close>.\<close>

partial_function (option) pred_walk :: "heap \<Rightarrow> nat \<Rightarrow> nat \<Rightarrow> (nat \<times> nat) option" where
  [code]: "pred_walk h q l = do {
     n \<leftarrow> h l;
     if right n \<noteq> 0 then pred_walk h l (right n) else Some (q, l) }"

text \<open>\<open>node\<close> is passed by value: the assignments \<open>node = node->right\<close> and \<open>node = node->left\<close>
  change nothing for the caller.\<close>

definition deleteHelper :: "store \<Rightarrow> nat \<Rightarrow> store option" where
  "deleteHelper st node = do {
     n \<leftarrow> cells st node;
     if left n = 0 then Some (st\<lparr>cells := (cells st)(node := None)\<rparr>)
     else if right n = 0 then Some (st\<lparr>cells := (cells st)(node := None)\<rparr>)
     else do {
       (q, l) \<leftarrow> pred_walk (cells st) node (left n);
       m \<leftarrow> cells st l;
       let h = (cells st)(node \<mapsto> n\<lparr>val := val m\<rparr>);
       m' \<leftarrow> h l;
       k \<leftarrow> h q;
       Some (st\<lparr>cells := h(q \<mapsto> (if q = node then k\<lparr>left := left m'\<rparr> else k\<lparr>right := left m'\<rparr>))\<rparr>) } }"

partial_function (option) BSTDelete :: "store \<Rightarrow> nat \<Rightarrow> int \<Rightarrow> (bool \<times> store) option" where
  [code]: "BSTDelete st p v =
     (if p = 0 then Some (False, st)
      else do {
        n \<leftarrow> cells st p;
        if val n > v then BSTDelete st (left n) v
        else if val n < v then BSTDelete st (right n) v
        else do { st' \<leftarrow> deleteHelper st p; Some (True, st') } })"

partial_function (option) deleteAllTree :: "store \<Rightarrow> nat \<Rightarrow> store option" where
  [code]: "deleteAllTree st p =
     (if p = 0 then Some st
      else do {
        n \<leftarrow> cells st p;
        st1 \<leftarrow> deleteAllTree st (left n);
        n1 \<leftarrow> cells st1 p;
        st2 \<leftarrow> deleteAllTree st1 (right n1);
        n2 \<leftarrow> cells st2 p;
        Some (st2\<lparr>cells := (cells st2)(p := None)\<rparr>) })"

definition empty_store :: store where
  "empty_store = \<lparr>cells = \<lambda>_. None, fresh = 1, root = 0\<rparr>"

text \<open>\<open>main\<close> up to the access of \<open>t->val\<close> behind \<open>deleteAllTree\<close>: what it prints.\<close>

definition BST_main :: "(int list \<times> bool \<times> int) option" where
  "BST_main = do {
     st \<leftarrow> BSTCreate empty_store Root [3, 1, 5, 0, 2, 9];
     res \<leftarrow> InOrderTraverse st (root st);
     (b, st1) \<leftarrow> BSTDelete st (root st) 1;
     st2 \<leftarrow> deleteAllTree st1 (root st1);
     n \<leftarrow> cells st2 (root st2);
     Some (res, b, val n) }"

section \<open>Trees in memory\<close>

text \<open>A tree of addresses and values, the pointer to it, and the heap that holds it.\<close>

type_synonym shape = "(nat \<times> int) tree"

fun ptr :: "shape \<Rightarrow> nat" where
  "ptr \<langle>\<rangle> = 0"
| "ptr \<langle>l, (a, x), r\<rangle> = a"

definition addrs :: "shape \<Rightarrow> nat set" where
  "addrs t = fst ` set_tree t"

definition vals :: "shape \<Rightarrow> int list" where
  "vals t = map snd (inorder t)"

fun holds :: "heap \<Rightarrow> shape \<Rightarrow> bool" where
  "holds h \<langle>\<rangle> \<longleftrightarrow> True"
| "holds h \<langle>l, (a, x), r\<rangle> \<longleftrightarrow> a \<noteq> 0 \<and> h a = Some \<lparr>val = x, left = ptr l, right = ptr r\<rparr> \<and>
     a \<notin> addrs l \<and> a \<notin> addrs r \<and> addrs l \<inter> addrs r = {} \<and> holds h l \<and> holds h r"

lemma addrs_simps [simp]:
  "addrs \<langle>\<rangle> = {}" "addrs \<langle>l, (a, x), r\<rangle> = insert a (addrs l \<union> addrs r)"
  by (auto simp: addrs_def)

lemma vals_simps [simp]: "vals \<langle>\<rangle> = []" "vals \<langle>l, (a, x), r\<rangle> = vals l @ x # vals r"
  by (simp_all add: vals_def)

lemma holds_cong: "(\<And>a. a \<in> addrs t \<Longrightarrow> h a = h' a) \<Longrightarrow> holds h t \<longleftrightarrow> holds h' t"
  by (induction h t rule: holds.induct) auto

lemma holds_upd [simp]: "a \<notin> addrs t \<Longrightarrow> holds (h(a := x)) t \<longleftrightarrow> holds h t"
  by (rule holds_cong) auto

lemma ptr_0 [simp]: "holds h t \<Longrightarrow> ptr t = 0 \<longleftrightarrow> t = \<langle>\<rangle>"
  by (cases t rule: ptr.cases) auto

lemma addrs_not_0: "holds h t \<Longrightarrow> a \<in> addrs t \<Longrightarrow> a \<noteq> 0 \<and> h a \<noteq> None"
  by (induction h t rule: holds.induct) auto

text \<open>The state holds a search tree: no two values are equal, \<open>fresh\<close> is not in use.\<close>

definition bst_at :: "store \<Rightarrow> shape \<Rightarrow> bool" where
  "bst_at st t \<longleftrightarrow> holds (cells st) t \<and> root st = ptr t \<and> sorted_wrt (<) (vals t) \<and>
     0 < fresh st \<and> (\<forall>a \<in> addrs t. a < fresh st)"

section \<open>Insertion\<close>

fun ins :: "nat \<Rightarrow> int \<Rightarrow> shape \<Rightarrow> shape" where
  "ins f v \<langle>\<rangle> = \<langle>\<langle>\<rangle>, (f, v), \<langle>\<rangle>\<rangle>"
| "ins f v \<langle>l, (a, x), r\<rangle> =
     (if v = x then \<langle>l, (a, x), r\<rangle> else if v < x then \<langle>ins f v l, (a, x), r\<rangle>
      else \<langle>l, (a, x), ins f v r\<rangle>)"

text \<open>The node below which a value that does not occur is attached.\<close>

fun place :: "int \<Rightarrow> shape \<Rightarrow> nat \<Rightarrow> nat option" where
  "place v \<langle>\<rangle> y = Some y"
| "place v \<langle>l, (a, x), r\<rangle> y =
     (if v = x then None else if v < x then place v l a else place v r a)"

lemma addrs_ins: "addrs (ins f v t) \<subseteq> insert f (addrs t)"
  by (induction f v t rule: ins.induct) auto

lemma ptr_ins: "t \<noteq> \<langle>\<rangle> \<Longrightarrow> ptr (ins f v t) = ptr t"
  by (cases t rule: ptr.cases) auto

lemma sorted_vals:
  "sorted_wrt (<) (vals \<langle>l, (a, x), r\<rangle>) \<longleftrightarrow> sorted_wrt (<) (vals l) \<and> sorted_wrt (<) (vals r) \<and>
     (\<forall>y \<in> set (vals l). y < x) \<and> (\<forall>y \<in> set (vals r). x < y)"
  by (auto simp: sorted_wrt_append) fastforce

lemma set_vals_ins: "set (vals (ins f v t)) = insert v (set (vals t))"
  by (induction f v t rule: ins.induct) auto

lemma sorted_ins: "sorted_wrt (<) (vals t) \<Longrightarrow> sorted_wrt (<) (vals (ins f v t))"
proof (induction f v t rule: ins.induct)
  case (2 f v l a x r)
  have s: "sorted_wrt (<) (vals l)" "sorted_wrt (<) (vals r)"
      "\<forall>y \<in> set (vals l). y < x" "\<forall>y \<in> set (vals r). x < y"
    using 2(3) unfolding sorted_vals by blast+
  consider "v = x" | "v < x" | "x < v" by linarith
  then show ?case
  proof cases
    case 1
    then show ?thesis using 2(3) by simp
  next
    case c: 2
    then have e: "ins f v \<langle>l, (a, x), r\<rangle> = \<langle>ins f v l, (a, x), r\<rangle>" by simp
    have "sorted_wrt (<) (vals (ins f v l))" using 2(1) c s(1) by blast
    then show ?thesis using s c unfolding e sorted_vals set_vals_ins by blast
  next
    case c: 3
    then have e: "ins f v \<langle>l, (a, x), r\<rangle> = \<langle>l, (a, x), ins f v r\<rangle>" by simp
    have "v \<noteq> x" "\<not> v < x" using c by auto
    then have "sorted_wrt (<) (vals (ins f v r))" using 2(2) s(2) by blast
    then show ?thesis using s c unfolding e sorted_vals set_vals_ins by blast
  qed
qed simp

lemma place_found: "sorted_wrt (<) (vals t) \<Longrightarrow> place v t y = None \<longleftrightarrow> v \<in> set (vals t)"
proof (induction v t y rule: place.induct)
  case (2 v l a x r y)
  have s: "sorted_wrt (<) (vals l)" "sorted_wrt (<) (vals r)"
      "\<And>y. y \<in> set (vals l) \<Longrightarrow> y < x" "\<And>y. y \<in> set (vals r) \<Longrightarrow> x < y"
    using 2(3) unfolding sorted_vals by blast+
  have "v \<in> set (vals \<langle>l, (a, x), r\<rangle>) \<longleftrightarrow> v = x \<or> v \<in> set (vals l) \<or> v \<in> set (vals r)" by auto
  moreover have "v < x \<Longrightarrow> v \<notin> set (vals r)" "\<not> v < x \<Longrightarrow> v \<notin> set (vals l)"
    using s(3) [of v] s(4) [of v] by auto
  ultimately show ?case using 2(1) [OF _ _ s(1)] 2(2) [OF _ _ s(2)] by simp
qed simp

lemma insert_walk_place:
  "holds h t \<Longrightarrow> insert_walk h (ptr t) y v = Some (place v t y)"
proof (induction v t y rule: place.induct)
  case (1 v y)
  then show ?case by (simp add: insert_walk.simps)
next
  case (2 v l a x r y)
  then show ?case by (simp add: insert_walk.simps [of h a])
qed

lemma place_in: "place v t y = Some z \<Longrightarrow> t \<noteq> \<langle>\<rangle> \<Longrightarrow> z \<in> addrs t"
proof (induction v t y rule: place.induct)
  case (2 v l a x r y)
  then show ?case by (cases "l = \<langle>\<rangle>"; cases "r = \<langle>\<rangle>") (auto split: if_splits)
qed simp

text \<open>The heap after the new node \<open>f\<close> is hung below \<open>z\<close>.\<close>

definition hang :: "heap \<Rightarrow> nat \<Rightarrow> int \<Rightarrow> nat \<Rightarrow> heap" where
  "hang h f v z = (h(f \<mapsto> \<lparr>val = v, left = 0, right = 0\<rparr>))
     (z := map_option (\<lambda>n. if v < val n then n\<lparr>left := f\<rparr> else n\<lparr>right := f\<rparr>) (h z))"

lemma hang_new: "z \<noteq> f \<Longrightarrow> hang h f v z f = Some \<lparr>val = v, left = 0, right = 0\<rparr>"
  by (simp add: hang_def)

lemma hang_at:
  "hang h f v z z = map_option (\<lambda>n. if v < val n then n\<lparr>left := f\<rparr> else n\<lparr>right := f\<rparr>) (h z)"
  by (simp add: hang_def)

lemma hang_cong: "a \<noteq> f \<Longrightarrow> a \<noteq> z \<Longrightarrow> hang h f v z a = h a"
  by (simp add: hang_def)

lemma holds_hang:
  "holds h t \<Longrightarrow> f \<notin> addrs t \<Longrightarrow> f \<noteq> 0 \<Longrightarrow> t \<noteq> \<langle>\<rangle> \<Longrightarrow> place v t y = Some z \<Longrightarrow>
   holds (hang h f v z) (ins f v t)"
proof (induction v t y rule: place.induct)
  case (2 v l a x r y)
  note prems = "2.prems"
  have ne: "v \<noteq> x" using prems(5) by auto
  have frame: "holds (hang h f v z) t \<longleftrightarrow> holds h t" if "f \<notin> addrs t" "z \<notin> addrs t" for t
    using that by (intro holds_cong) (auto simp: hang_def)
  show ?case
  proof (cases "v < x")
    case True
    then have pl: "place v l a = Some z" using prems(5) ne by simp
    show ?thesis
    proof (cases "l = \<langle>\<rangle>")
      case True
      then have "z = a" using pl by simp
      then show ?thesis using prems \<open>v < x\<close> True frame [of r] by (auto simp: hang_new hang_at)
    next
      case False
      have z: "z \<in> addrs l" by (rule place_in [OF pl False])
      have "holds (hang h f v z) (ins f v l)"
        using 2(1) ne \<open>v < x\<close> prems False pl by simp
      moreover have "holds (hang h f v z) r" using prems z frame [of r] by auto
      moreover have "hang h f v z a = h a" using prems z by (intro hang_cong) auto
      ultimately show ?thesis using prems ne \<open>v < x\<close> addrs_ins [of f v l] False
        by (auto simp: ptr_ins)
    qed
  next
    case nl: False
    then have pl: "place v r a = Some z" using prems(5) ne by simp
    show ?thesis
    proof (cases "r = \<langle>\<rangle>")
      case True
      then have "z = a" using pl by simp
      then show ?thesis using prems nl ne True frame [of l] by (auto simp: hang_new hang_at)
    next
      case False
      have z: "z \<in> addrs r" by (rule place_in [OF pl False])
      have "holds (hang h f v z) (ins f v r)"
        using 2(2) ne nl prems False pl by simp
      moreover have "holds (hang h f v z) l" using prems z frame [of l] by auto
      moreover have "hang h f v z a = h a" using prems z by (intro hang_cong) auto
      ultimately show ?thesis using prems ne nl addrs_ins [of f v r] False
        by (auto simp: ptr_ins)
    qed
  qed
qed simp

text \<open>What both insertions compute.\<close>

definition inserted :: "store \<Rightarrow> int \<Rightarrow> shape \<Rightarrow> bool \<times> store" where
  "inserted st v t =
     (case place v t 0 of
        None \<Rightarrow> (False, st)
      | Some z \<Rightarrow> (True, if t = \<langle>\<rangle>
          then st\<lparr>cells := (cells st)(fresh st \<mapsto> \<lparr>val = v, left = 0, right = 0\<rparr>), fresh := fresh st + 1,
                  root := fresh st\<rparr>
          else st\<lparr>cells := hang (cells st) (fresh st) v z, fresh := fresh st + 1\<rparr>))"

lemma BSTInsert_eq:
  assumes "bst_at st t"
  shows "BSTInsert st Root v = Some (inserted st v t)"
proof (cases "t = \<langle>\<rangle>")
  case True
  then show ?thesis using assms
    by (simp add: BSTInsert_def get_slot_def set_slot_def new_node_def inserted_def bst_at_def)
next
  case False
  have h: "holds (cells st) t" "root st = ptr t" "ptr t \<noteq> 0" "fresh st \<notin> addrs t"
    using assms False ptr_0 [of "cells st" t] by (auto simp: bst_at_def)
  show ?thesis
  proof (cases "place v t 0")
    case None
    then show ?thesis using h insert_walk_place [OF h(1), of 0 v]
      by (simp add: BSTInsert_def get_slot_def inserted_def)
  next
    case (Some z)
    have z: "z \<in> addrs t" by (rule place_in [OF Some False])
    then obtain n where n: "cells st z = Some n" using addrs_not_0 [OF h(1)] by auto
    have "z \<noteq> fresh st" using z h(4) by auto
    then show ?thesis using h insert_walk_place [OF h(1), of 0 v] Some n False
      by (simp add: BSTInsert_def get_slot_def inserted_def set_slot_def new_node_def hang_def)
  qed
qed

text \<open>The recursion through slots does the same: \<open>s\<close> holds the pointer to \<open>t\<close>.\<close>

lemma BSTInsert2_slot:
  "holds (cells st) t \<Longrightarrow> t \<noteq> \<langle>\<rangle> \<Longrightarrow> get_slot st s = Some (ptr t) \<Longrightarrow> fresh st \<notin> addrs t \<Longrightarrow>
   BSTInsert2 st s v =
     Some (case place v t y of None \<Rightarrow> (False, st)
       | Some z \<Rightarrow> (True, st\<lparr>cells := hang (cells st) (fresh st) v z, fresh := fresh st + 1\<rparr>))"
proof (induction v t y arbitrary: s rule: place.induct)
  case (2 v l a x r y)
  note prems = "2.prems"
  have a: "cells st a = Some \<lparr>val = x, left = ptr l, right = ptr r\<rparr>" "a \<noteq> 0" "a \<noteq> fresh st"
    using prems by auto
  have slots: "get_slot st (LeftOf a) = Some (ptr l)" "get_slot st (RightOf a) = Some (ptr r)"
    using a by (simp_all add: get_slot_def)
  have leafs: "BSTInsert2 st s' v =
      Some (True, st\<lparr>cells := hang (cells st) (fresh st) v a, fresh := fresh st + 1\<rparr>)"
    if "s' = (if v < x then LeftOf a else RightOf a)" "get_slot st s' = Some 0" "v \<noteq> x" for s'
    using that a
    by (cases "v < x")
      (simp_all add: BSTInsert2.simps [of st "LeftOf a"] BSTInsert2.simps [of st "RightOf a"]
        new_node_def set_slot_def hang_def)
  show ?case
    using prems a slots 2(1) [of "LeftOf a"] 2(2) [of "RightOf a"]
      leafs [of "LeftOf a"] leafs [of "RightOf a"]
    by (cases "l = \<langle>\<rangle>"; cases "r = \<langle>\<rangle>") (auto simp: BSTInsert2.simps [of st s])
qed simp

lemma BSTInsert2_eq:
  assumes "bst_at st t"
  shows "BSTInsert2 st Root v = Some (inserted st v t)"
proof (cases "t = \<langle>\<rangle>")
  case True
  then show ?thesis using assms
    by (simp add: BSTInsert2.simps get_slot_def set_slot_def new_node_def inserted_def bst_at_def)
next
  case False
  have "holds (cells st) t" "get_slot st Root = Some (ptr t)" "fresh st \<notin> addrs t"
    using assms by (auto simp: bst_at_def get_slot_def)
  then show ?thesis using BSTInsert2_slot [of st t Root v 0] False
    by (simp add: inserted_def split: option.split)
qed

lemma bst_at_inserted:
  assumes "bst_at st t"
  shows "bst_at (snd (inserted st v t)) (if v \<in> set (vals t) then t else ins (fresh st) v t)"
proof -
  have h: "holds (cells st) t" "root st = ptr t" "fresh st \<notin> addrs t" "fresh st \<noteq> 0"
      "sorted_wrt (<) (vals t)" "\<And>a. a \<in> addrs t \<Longrightarrow> a < fresh st"
    using assms by (auto simp: bst_at_def)
  show ?thesis
  proof (cases "place v t 0")
    case None
    then have "v \<in> set (vals t)" using place_found [OF h(5), of v 0] by simp
    then show ?thesis using assms None by (simp add: inserted_def)
  next
    case (Some z)
    then have nin: "v \<notin> set (vals t)" using place_found [OF h(5), of v 0] by simp
    show ?thesis
    proof (cases "t = \<langle>\<rangle>")
      case True
      then show ?thesis using h by (simp add: inserted_def bst_at_def)
    next
      case False
      have "a < Suc (fresh st)" if "a \<in> addrs (ins (fresh st) v t)" for a
        using that h(6) addrs_ins [of "fresh st" v t] by fastforce
      then show ?thesis
        using holds_hang [OF h(1,3,4) False Some] sorted_ins [OF h(5)] h False Some nin
        by (simp add: inserted_def bst_at_def ptr_ins)
    qed
  qed
qed

section \<open>Traversal and search\<close>

lemma helper_vals: "holds h t \<Longrightarrow> helper h res (ptr t) = Some (res @ vals t)"
proof (induction h t arbitrary: res rule: holds.induct)
  case (2 h l a x r)
  then show ?case by (simp add: helper.simps [of h res a])
qed (simp add: helper.simps)

lemma BSTSearch_spec:
  "holds h t \<Longrightarrow> sorted_wrt (<) (vals t) \<Longrightarrow> BSTSearch h (ptr t) v = Some (v \<in> set (vals t))"
proof (induction h t rule: holds.induct)
  case (2 h l a x r)
  have s: "sorted_wrt (<) (vals l)" "sorted_wrt (<) (vals r)"
      "\<And>y. y \<in> set (vals l) \<Longrightarrow> y < x" "\<And>y. y \<in> set (vals r) \<Longrightarrow> x < y"
    using 2(4) unfolding sorted_vals by blast+
  have "v \<in> set (vals \<langle>l, (a, x), r\<rangle>) \<longleftrightarrow> v = x \<or> v \<in> set (vals l) \<or> v \<in> set (vals r)" by auto
  moreover have "v < x \<Longrightarrow> v \<notin> set (vals r)" "\<not> v < x \<Longrightarrow> v \<notin> set (vals l)"
    using s(3) [of v] s(4) [of v] by auto
  ultimately show ?case using 2(1) [OF _ s(1)] 2(2) [OF _ s(2)] 2(3) by (simp add: BSTSearch.simps [of h a])
qed (simp add: BSTSearch.simps)

lemma BSTSearch2_spec:
  "holds h t \<Longrightarrow> sorted_wrt (<) (vals t) \<Longrightarrow> BSTSearch2 h (ptr t) v = Some (v \<in> set (vals t))"
proof (induction h t rule: holds.induct)
  case (2 h l a x r)
  have s: "sorted_wrt (<) (vals l)" "sorted_wrt (<) (vals r)"
      "\<And>y. y \<in> set (vals l) \<Longrightarrow> y < x" "\<And>y. y \<in> set (vals r) \<Longrightarrow> x < y"
    using 2(4) unfolding sorted_vals by blast+
  have "v \<in> set (vals \<langle>l, (a, x), r\<rangle>) \<longleftrightarrow> v = x \<or> v \<in> set (vals l) \<or> v \<in> set (vals r)" by auto
  moreover have "v < x \<Longrightarrow> v \<notin> set (vals r)" "\<not> v < x \<Longrightarrow> v \<notin> set (vals l)"
    using s(3) [of v] s(4) [of v] by auto
  ultimately show ?case using 2(1) [OF _ s(1)] 2(2) [OF _ s(2)] 2(3) by (simp add: BSTSearch2.simps [of h a])
qed (simp add: BSTSearch2.simps)

section \<open>Deletion\<close>

text \<open>The subtree whose root has the value; the largest value of a tree and the tree without it.\<close>

fun at :: "int \<Rightarrow> shape \<Rightarrow> shape" where
  "at v \<langle>\<rangle> = \<langle>\<rangle>"
| "at v \<langle>l, (a, x), r\<rangle> = (if x > v then at v l else if x < v then at v r else \<langle>l, (a, x), r\<rangle>)"

fun max_val :: "shape \<Rightarrow> int" where
  "max_val \<langle>\<rangle> = 0"
| "max_val \<langle>l, (a, x), r\<rangle> = (if r = \<langle>\<rangle> then x else max_val r)"

fun rem_max :: "shape \<Rightarrow> shape" where
  "rem_max \<langle>\<rangle> = \<langle>\<rangle>"
| "rem_max \<langle>l, (a, x), r\<rangle> = (if r = \<langle>\<rangle> then l else \<langle>l, (a, x), rem_max r\<rangle>)"

fun del :: "int \<Rightarrow> shape \<Rightarrow> shape" where
  "del v \<langle>\<rangle> = \<langle>\<rangle>"
| "del v \<langle>l, (a, x), r\<rangle> =
     (if x > v then \<langle>del v l, (a, x), r\<rangle> else if x < v then \<langle>l, (a, x), del v r\<rangle>
      else \<langle>rem_max l, (a, max_val l), r\<rangle>)"

fun walk_end :: "nat \<Rightarrow> shape \<Rightarrow> nat \<times> nat" where
  "walk_end q \<langle>\<rangle> = (q, 0)"
| "walk_end q \<langle>l, (a, x), r\<rangle> = (if r = \<langle>\<rangle> then (q, a) else walk_end a r)"

lemma vals_rem_max: "t \<noteq> \<langle>\<rangle> \<Longrightarrow> vals (rem_max t) @ [max_val t] = vals t"
  by (induction t rule: rem_max.induct) auto

lemma addrs_rem_max: "addrs (rem_max t) \<subseteq> addrs t"
  by (induction t rule: rem_max.induct) auto

lemma addrs_del: "addrs (del v t) \<subseteq> addrs t"
proof (induction v t rule: del.induct)
  case (2 v l a x r)
  then show ?case using addrs_rem_max [of l] by (cases v x rule: linorder_cases) auto
qed simp

lemma ptr_del: "ptr (del v t) = ptr t"
  by (cases t rule: ptr.cases) auto

lemma vals_del:
  "sorted_wrt (<) (vals t) \<Longrightarrow> at v t = \<langle>l', n, r'\<rangle> \<Longrightarrow> l' \<noteq> \<langle>\<rangle> \<Longrightarrow>
   vals (del v t) = filter (\<lambda>y. y \<noteq> v) (vals t)"
proof (induction v t rule: del.induct)
  case (2 v l a x r)
  have s: "sorted_wrt (<) (vals l)" "sorted_wrt (<) (vals r)"
      "\<And>y. y \<in> set (vals l) \<Longrightarrow> y < x" "\<And>y. y \<in> set (vals r) \<Longrightarrow> x < y"
    using 2(3) unfolding sorted_vals by blast+
  have fl: "filter (\<lambda>y. y \<noteq> v) (vals l) = vals l" if "x \<le> v"
    using s(3) that by (intro filter_True) force
  have fr: "filter (\<lambda>y. y \<noteq> v) (vals r) = vals r" if "v \<le> x"
    using s(4) that by (intro filter_True) force
  consider "v < x" | "x < v" | "x = v" by linarith
  then show ?case
  proof cases
    case 1
    then show ?thesis using 2(1) [OF _ s(1)] 2(4,5) fr by simp
  next
    case 2
    then show ?thesis using "2.IH"(2) [OF _ _ s(2)] "2.prems"(2,3) fl by simp
  next
    case 3
    then have "l \<noteq> \<langle>\<rangle>" using "2.prems"(2,3) by auto
    then show ?thesis using 3 fl fr vals_rem_max [of l] by simp
  qed
qed simp

lemma pred_walk_end: "holds h t \<Longrightarrow> t \<noteq> \<langle>\<rangle> \<Longrightarrow> pred_walk h q (ptr t) = Some (walk_end q t)"
proof (induction q t rule: walk_end.induct)
  case (2 q l a x r)
  have p: "ptr r \<noteq> 0 \<longleftrightarrow> r \<noteq> \<langle>\<rangle>" using 2(2) by (cases r rule: ptr.cases) auto
  show ?case
    by (subst pred_walk.simps) (use 2 p in auto)
qed simp

text \<open>The end of the walk: the node with the largest value; bypassing it below its parent.\<close>

lemma walk_end_holds:
  "holds h t \<Longrightarrow> t \<noteq> \<langle>\<rangle> \<Longrightarrow> walk_end p t = (q, m) \<Longrightarrow>
   m \<in> addrs t \<and> (\<exists>n. h m = Some n \<and> val n = max_val t \<and>
     (if ptr t = m then q = p \<and> left n = ptr (rem_max t) \<and> holds h (rem_max t)
      else q \<in> addrs t \<and> ptr (rem_max t) = ptr t \<and>
        (\<exists>k. h q = Some k \<and> holds (h(q \<mapsto> k\<lparr>right := left n\<rparr>)) (rem_max t))))"
proof (induction p t rule: walk_end.induct)
  case (2 p l a x r)
  note prems = "2.prems"
  show ?case
  proof (cases "r = \<langle>\<rangle>")
    case True
    then show ?thesis using prems by auto
  next
    case False
    have r: "holds h r" "walk_end a r = (q, m)" using prems False by auto
    obtain n where n: "m \<in> addrs r" "h m = Some n" "val n = max_val r"
      and c: "if ptr r = m then q = a \<and> left n = ptr (rem_max r) \<and> holds h (rem_max r)
        else q \<in> addrs r \<and> ptr (rem_max r) = ptr r \<and>
          (\<exists>k. h q = Some k \<and> holds (h(q \<mapsto> k\<lparr>right := left n\<rparr>)) (rem_max r))"
      using 2(1) [OF False r(1) False r(2)] by auto
    have ne: "a \<noteq> m" using prems(1) n(1) by auto
    have sub: "addrs (rem_max r) \<subseteq> addrs r" by (rule addrs_rem_max)
    show ?thesis
    proof (cases "ptr r = m")
      case True
      then have "q = a" "left n = ptr (rem_max r)" "holds h (rem_max r)" using c by auto
      moreover have "a \<notin> addrs (rem_max r)" using sub prems(1) by auto
      ultimately show ?thesis using prems n False ne sub by auto
    next
      case nm: False
      then obtain k where k: "q \<in> addrs r" "ptr (rem_max r) = ptr r" "h q = Some k"
          "holds (h(q \<mapsto> k\<lparr>right := left n\<rparr>)) (rem_max r)" using c by auto
      have "q \<noteq> a" "q \<notin> addrs l" using prems(1) k(1) by auto
      then show ?thesis using prems n False ne sub k by auto
    qed
  qed
qed simp

lemma deleteHelper_two:
  assumes "holds (cells st) \<langle>l, (a, x), r\<rangle>" "l \<noteq> \<langle>\<rangle>" "r \<noteq> \<langle>\<rangle>"
  shows "\<exists>h. deleteHelper st a = Some (st\<lparr>cells := h\<rparr>) \<and>
    holds h \<langle>rem_max l, (a, max_val l), r\<rangle> \<and>
    (\<forall>b. b \<notin> addrs \<langle>l, (a, x), r\<rangle> \<longrightarrow> h b = cells st b)"
proof -
  let ?h = "cells st"
  have h: "?h a = Some \<lparr>val = x, left = ptr l, right = ptr r\<rparr>" "holds ?h l" "holds ?h r"
      "a \<notin> addrs l" "a \<notin> addrs r" "addrs l \<inter> addrs r = {}" "a \<noteq> 0"
    using assms(1) by auto
  have p: "ptr l \<noteq> 0" "ptr r \<noteq> 0" using ptr_0 [OF h(2)] ptr_0 [OF h(3)] assms(2,3) by auto
  obtain q m where w: "walk_end a l = (q, m)" by fastforce
  obtain n where n: "m \<in> addrs l" "?h m = Some n" "val n = max_val l"
    and c: "if ptr l = m then q = a \<and> left n = ptr (rem_max l) \<and> holds ?h (rem_max l)
        else q \<in> addrs l \<and> ptr (rem_max l) = ptr l \<and>
          (\<exists>k. ?h q = Some k \<and> holds (?h(q \<mapsto> k\<lparr>right := left n\<rparr>)) (rem_max l))"
    using walk_end_holds [OF h(2) assms(2) w] by auto
  have ne: "m \<noteq> a" using n(1) h(4) by auto
  have sub: "addrs (rem_max l) \<subseteq> addrs l" by (rule addrs_rem_max)
  have pw: "pred_walk ?h a (ptr l) = Some (q, m)" using pred_walk_end [OF h(2) assms(2), of a] w by simp
  show ?thesis
  proof (cases "ptr l = m")
    case True
    then have q: "q = a" "left n = ptr (rem_max l)" "holds ?h (rem_max l)" using c by auto
    let ?g = "?h(a \<mapsto> \<lparr>val = max_val l, left = ptr (rem_max l), right = ptr r\<rparr>)"
    have "deleteHelper st a = Some (st\<lparr>cells := ?g\<rparr>)"
      using h p pw n ne q by (simp add: deleteHelper_def Let_def)
    moreover have "a \<notin> addrs (rem_max l)" using sub h(4) by auto
    ultimately show ?thesis using h q sub by (intro exI [of _ ?g]) auto
  next
    case False
    then obtain k where k: "q \<in> addrs l" "ptr (rem_max l) = ptr l" "?h q = Some k"
        "holds (?h(q \<mapsto> k\<lparr>right := left n\<rparr>)) (rem_max l)" using c by auto
    have qa: "q \<noteq> a" "q \<notin> addrs r" using k(1) h(4,6) by auto
    let ?g = "?h(a \<mapsto> \<lparr>val = max_val l, left = ptr l, right = ptr r\<rparr>, q \<mapsto> k\<lparr>right := left n\<rparr>)"
    have "deleteHelper st a = Some (st\<lparr>cells := ?g\<rparr>)"
      using h p pw n ne k qa by (simp add: deleteHelper_def Let_def)
    moreover have "holds ?g (rem_max l)"
      using k(4) sub h(4) by (subst holds_cong [of _ _ "?h(q \<mapsto> k\<lparr>right := left n\<rparr>)"]) auto
    moreover have "holds ?g r" using h(3,5) qa by simp
    moreover have "?g a = Some \<lparr>val = max_val l, left = ptr l, right = ptr r\<rparr>" using qa by simp
    moreover have "\<forall>b. b \<notin> addrs \<langle>l, (a, x), r\<rangle> \<longrightarrow> ?g b = ?h b" using k(1) by auto
    ultimately show ?thesis using h sub k(2) by (intro exI [of _ ?g]) auto
  qed
qed

lemma BSTDelete_two:
  "holds (cells st) t \<Longrightarrow> at v t = \<langle>l', n', r'\<rangle> \<Longrightarrow> l' \<noteq> \<langle>\<rangle> \<Longrightarrow> r' \<noteq> \<langle>\<rangle> \<Longrightarrow>
   \<exists>h. BSTDelete st (ptr t) v = Some (True, st\<lparr>cells := h\<rparr>) \<and> holds h (del v t) \<and>
     (\<forall>b. b \<notin> addrs t \<longrightarrow> h b = cells st b)"
proof (induction v t rule: del.induct)
  case (2 v l a x r)
  note prems = "2.prems"
  have h: "cells st a = Some \<lparr>val = x, left = ptr l, right = ptr r\<rparr>" "a \<noteq> 0"
      "holds (cells st) l" "holds (cells st) r" "a \<notin> addrs l" "a \<notin> addrs r" "addrs l \<inter> addrs r = {}"
    using prems(1) by auto
  have unf: "BSTDelete st a v = (if x > v then BSTDelete st (ptr l) v
      else if x < v then BSTDelete st (ptr r) v
      else do { st' \<leftarrow> deleteHelper st a; Some (True, st') })"
    using h by (simp add: BSTDelete.simps [of st a])
  consider "v < x" | "x < v" | "x = v" by linarith
  then show ?case
  proof cases
    case 1
    then have "at v l = \<langle>l', n', r'\<rangle>" using prems(2) by simp
    then obtain g where g: "BSTDelete st (ptr l) v = Some (True, st\<lparr>cells := g\<rparr>)" "holds g (del v l)"
        "\<forall>b. b \<notin> addrs l \<longrightarrow> g b = cells st b"
      using 2(1) [OF 1 h(3) _ prems(3,4)] by blast
    have "holds g r" using h(4,7) g(3) by (subst holds_cong [of r g "cells st"]) auto
    then show ?thesis using 1 g h unf addrs_del [of v l] by (intro exI [of _ g]) (auto simp: ptr_del)
  next
    case 2
    then have "at v r = \<langle>l', n', r'\<rangle>" using prems(2) by simp
    then obtain g where g: "BSTDelete st (ptr r) v = Some (True, st\<lparr>cells := g\<rparr>)" "holds g (del v r)"
        "\<forall>b. b \<notin> addrs r \<longrightarrow> g b = cells st b"
      using "2.IH"(2) [OF _ 2 h(4) _ prems(3,4)] 2 by force
    have "holds g l" using h(3,7) g(3) by (subst holds_cong [of l g "cells st"]) auto
    then show ?thesis using 2 g h unf addrs_del [of v r] by (intro exI [of _ g]) (auto simp: ptr_del)
  next
    case 3
    then have "l \<noteq> \<langle>\<rangle>" "r \<noteq> \<langle>\<rangle>" using prems(2-4) by auto
    then show ?thesis using deleteHelper_two [OF prems(1)] 3 unf by auto
  qed
qed simp

text \<open>Deleting a node with at most one child only frees the node.\<close>

lemma BSTDelete_frees:
  "holds (cells st) t \<Longrightarrow> at v t = \<langle>l', n', r'\<rangle> \<Longrightarrow> l' = \<langle>\<rangle> \<or> r' = \<langle>\<rangle> \<Longrightarrow>
   BSTDelete st (ptr t) v = Some (True, st\<lparr>cells := (cells st)(fst n' := None)\<rparr>) \<and> fst n' \<in> addrs t"
proof (induction v t rule: del.induct)
  case (2 v l a x r)
  note prems = "2.prems"
  have h: "cells st a = Some \<lparr>val = x, left = ptr l, right = ptr r\<rparr>" "a \<noteq> 0"
      "holds (cells st) l" "holds (cells st) r"
    using prems(1) by auto
  have p: "ptr l = 0 \<longleftrightarrow> l = \<langle>\<rangle>" "ptr r = 0 \<longleftrightarrow> r = \<langle>\<rangle>" using h ptr_0 by auto
  consider "v < x" | "x < v" | "x = v" by linarith
  then show ?case
  proof cases
    case 1
    then show ?thesis using 2(1) [OF 1 h(3) _ prems(3)] prems(2) h by (simp add: BSTDelete.simps [of st a])
  next
    case 2
    then show ?thesis using "2.IH"(2) [OF _ 2 h(4) _ prems(3)] prems(2) h
      by (simp add: BSTDelete.simps [of st a])
  next
    case 3
    then show ?thesis using prems(2,3) h p
      by (auto simp: BSTDelete.simps [of st a] deleteHelper_def fun_upd_def)
  qed
qed simp

lemma helper_missing:
  assumes "g a = None" "\<And>b. b \<noteq> a \<Longrightarrow> g b = h b"
  shows "holds h t \<Longrightarrow> a \<in> addrs t \<Longrightarrow> helper g res (ptr t) = None"
proof (induction t arbitrary: res)
  case (Node l n r)
  obtain b x where n: "n = (b, x)" by (cases n)
  have h: "h b = Some \<lparr>val = x, left = ptr l, right = ptr r\<rparr>" "b \<noteq> 0" "holds h l" "holds h r"
    using Node(3) n by auto
  have unf: "helper g res b = Option.bind (helper g res (ptr l))
      (\<lambda>r1. helper g (r1 @ [x]) (ptr r))" if "a \<noteq> b"
    using h assms(2) that by (subst helper.simps) simp
  show ?case
  proof (cases "a = b")
    case True
    then show ?thesis using assms(1) h(2) n by (subst helper.simps) simp
  next
    case ab: False
    show ?thesis
    proof (cases "a \<in> addrs l")
      case True
      then show ?thesis using Node(1) [OF h(3)] unf [OF ab] n by simp
    next
      case False
      then have "a \<in> addrs r" using Node(4) ab n by simp
      moreover have "g c = h c" if "c \<in> addrs l" for c
        using that False assms(2) [of c] by (cases "c = a") auto
      then have "holds g l" using h(3) holds_cong [of l g h] by blast
      ultimately show ?thesis using Node(2) [OF h(4)] helper_vals [of g l res] unf [OF ab] n by simp
    qed
  qed
qed simp

lemma helper_freed:
  "holds h t \<Longrightarrow> a \<in> addrs t \<Longrightarrow> helper (h(a := None)) res (ptr t) = None"
  by (rule helper_missing) auto

lemma deleteAllTree_eq:
  "holds (cells st) t \<Longrightarrow>
   deleteAllTree st (ptr t) = Some (st\<lparr>cells := \<lambda>b. if b \<in> addrs t then None else cells st b\<rparr>)"
proof (induction t arbitrary: st)
  case Leaf
  then show ?case by (simp add: deleteAllTree.simps)
next
  case (Node l n r)
  obtain a x where n: "n = (a, x)" by (cases n)
  let ?h = "cells st"
  have h: "?h a = Some \<lparr>val = x, left = ptr l, right = ptr r\<rparr>" "a \<noteq> 0" "a \<notin> addrs l" "a \<notin> addrs r"
      "holds ?h l" "holds ?h r" "addrs l \<inter> addrs r = {}"
    using Node(3) n by auto
  let ?s1 = "st\<lparr>cells := \<lambda>b. if b \<in> addrs l then None else ?h b\<rparr>"
  have 1: "deleteAllTree st (ptr l) = Some ?s1" by (rule Node(1) [OF h(5)])
  have "holds (cells ?s1) r" using h(6,7) by (subst holds_cong [of r _ ?h]) auto
  then have 2: "deleteAllTree ?s1 (ptr r) =
      Some (?s1\<lparr>cells := \<lambda>b. if b \<in> addrs r then None else cells ?s1 b\<rparr>)"
    by (rule Node(2))
  have "(\<lambda>b. if b \<in> addrs r then None else if b \<in> addrs l then None else ?h b)(a := None) =
      (\<lambda>b. if b \<in> addrs \<langle>l, n, r\<rangle> then None else ?h b)"
    using n by auto
  then show ?case using h 1 2 n by (simp add: deleteAllTree.simps [of st a] fun_upd_def cong: if_cong)
qed

text \<open>\<open>main\<close> reads \<open>t->val\<close> behind \<open>deleteAllTree(t)\<close>.\<close>

lemma BST_main_reads_freed: "BST_main = None"
  by code_simp

section \<open>Properties\<close>

text \<open>Both insertions, the loop and the recursion through references, return and have the same
  effect on every state that holds a search tree: with a value that occurs they return \<open>false\<close>
  and change nothing, otherwise they return \<open>true\<close> and the state holds the search tree with one
  new leaf, whose values are the old ones and the new one.\<close>

theorem BSTInsert_correct:
  assumes "bst_at st t"
  shows "BSTInsert st Root v = Some (inserted st v t) \<and> BSTInsert2 st Root v = Some (inserted st v t) \<and>
    fst (inserted st v t) = (v \<notin> set (vals t)) \<and>
    (\<exists>t'. bst_at (snd (inserted st v t)) t' \<and> set (vals t') = insert v (set (vals t)))"
proof -
  have "place v t 0 = None \<longleftrightarrow> v \<in> set (vals t)"
    using assms by (intro place_found) (simp add: bst_at_def)
  then have "fst (inserted st v t) = (v \<notin> set (vals t))"
    by (auto simp: inserted_def split: option.split)
  moreover have "\<exists>t'. bst_at (snd (inserted st v t)) t' \<and> set (vals t') = insert v (set (vals t))"
    using bst_at_inserted [OF assms, of v] set_vals_ins [of "fresh st" v t]
    by (cases "v \<in> set (vals t)") auto
  ultimately show ?thesis using BSTInsert_eq [OF assms] BSTInsert2_eq [OF assms] by simp
qed

lemma BSTInsert_correct_witness:
  "BSTInsert empty_store Root 7 = Some (inserted empty_store 7 \<langle>\<rangle>) \<and>
   fst (inserted empty_store 7 \<langle>\<rangle>)"
  using BSTInsert_correct [of empty_store "\<langle>\<rangle>" 7] by (simp add: bst_at_def empty_store_def)

text \<open>On a state that holds a search tree, \<open>InOrderTraverse\<close> returns its values in strictly
  ascending order and both searches return whether the value is among them.\<close>

theorem BST_traverse_search:
  assumes "bst_at st t"
  shows "InOrderTraverse st (root st) = Some (vals t) \<and> sorted_wrt (<) (vals t) \<and>
    BSTSearch (cells st) (root st) v = Some (v \<in> set (vals t)) \<and>
    BSTSearch2 (cells st) (root st) v = Some (v \<in> set (vals t))"
  using assms helper_vals [of "cells st" t "[]"] BSTSearch_spec [of "cells st" t v]
    BSTSearch2_spec [of "cells st" t v]
  by (simp add: bst_at_def InOrderTraverse_def)

lemma BST_traverse_search_witness:
  "InOrderTraverse \<lparr>cells = [1 \<mapsto> \<lparr>val = 7, left = 0, right = 0\<rparr>], fresh = 2, root = 1\<rparr> 1 =
     Some [7]"
  using BST_traverse_search
    [of "\<lparr>cells = [1 \<mapsto> \<lparr>val = 7, left = 0, right = 0\<rparr>], fresh = 2, root = 1\<rparr>"
      "\<langle>\<langle>\<rangle>, (1, 7), \<langle>\<rangle>\<rangle>" 7]
  by (simp add: bst_at_def)

text \<open>C33: deleting a value whose node has two children returns \<open>true\<close>, and the state holds a search
  tree with the other values, in order: the node takes over the value of its predecessor, which
  is unlinked.\<close>

theorem BSTDelete_two_children:
  assumes "bst_at st t" "at v t = \<langle>l, n, r\<rangle>" "l \<noteq> \<langle>\<rangle>" "r \<noteq> \<langle>\<rangle>"
  shows "\<exists>st' t'. BSTDelete st (root st) v = Some (True, st') \<and> bst_at st' t' \<and>
    vals t' = filter (\<lambda>y. y \<noteq> v) (vals t)"
proof -
  have b: "holds (cells st) t" "sorted_wrt (<) (vals t)" "root st = ptr t"
    using assms(1) by (auto simp: bst_at_def)
  obtain h where h: "BSTDelete st (ptr t) v = Some (True, st\<lparr>cells := h\<rparr>)" "holds h (del v t)"
    using BSTDelete_two [OF b(1) assms(2-4)] by blast
  have v: "vals (del v t) = filter (\<lambda>y. y \<noteq> v) (vals t)" by (rule vals_del [OF b(2) assms(2,3)])
  have "bst_at (st\<lparr>cells := h\<rparr>) (del v t)"
    using assms(1) h(2) addrs_del [of v t]
    by (auto simp: bst_at_def v ptr_del sorted_wrt_filter)
  then show ?thesis using h(1) v b(3) by auto
qed

lemma BSTDelete_two_children_witness:
  "\<exists>st' t'. BSTDelete \<lparr>cells = [1 \<mapsto> \<lparr>val = 2, left = 2, right = 3\<rparr>, 2 \<mapsto> \<lparr>val = 1, left = 0, right = 0\<rparr>,
      3 \<mapsto> \<lparr>val = 3, left = 0, right = 0\<rparr>], fresh = 4, root = 1\<rparr> 1 2 = Some (True, st') \<and>
    bst_at st' t' \<and> vals t' = [1, 3]"
  using BSTDelete_two_children
    [of "\<lparr>cells = [1 \<mapsto> \<lparr>val = 2, left = 2, right = 3\<rparr>, 2 \<mapsto> \<lparr>val = 1, left = 0, right = 0\<rparr>,
      3 \<mapsto> \<lparr>val = 3, left = 0, right = 0\<rparr>], fresh = 4, root = 1\<rparr>"
      "\<langle>\<langle>\<langle>\<rangle>, (2, 1), \<langle>\<rangle>\<rangle>, (1, 2), \<langle>\<langle>\<rangle>, (3, 3), \<langle>\<rangle>\<rangle>\<rangle>" 2]
  by (simp add: bst_at_def)

text \<open>Deleting a value whose node has at most one child frees the node and changes nothing
  else: \<open>deleteHelper\<close> assigns its own copy of the pointer, so the parent (or \<open>root\<close>) still
  points at the freed node, and the next traversal reads freed memory.\<close>

theorem BSTDelete_dangles:
  assumes "bst_at st t" "at v t = \<langle>l, n, r\<rangle>" "l = \<langle>\<rangle> \<or> r = \<langle>\<rangle>"
  shows "\<exists>st'. BSTDelete st (root st) v = Some (True, st') \<and>
    st' = st\<lparr>cells := (cells st)(fst n := None)\<rparr> \<and> InOrderTraverse st' (root st') = None"
  using BSTDelete_frees [OF _ assms(2,3), of st] helper_freed [of "cells st" t "fst n" "[]"] assms(1)
  by (auto simp: bst_at_def InOrderTraverse_def)

lemma BSTDelete_dangles_witness:
  "\<exists>st'. BSTDelete \<lparr>cells = [1 \<mapsto> \<lparr>val = 7, left = 0, right = 0\<rparr>], fresh = 2, root = 1\<rparr> 1 7 =
      Some (True, st') \<and> InOrderTraverse st' (root st') = None"
  using BSTDelete_dangles
    [of "\<lparr>cells = [1 \<mapsto> \<lparr>val = 7, left = 0, right = 0\<rparr>], fresh = 2, root = 1\<rparr>"
      "\<langle>\<langle>\<rangle>, (1, 7), \<langle>\<rangle>\<rangle>" 7 "\<langle>\<rangle>" "(1, 7)" "\<langle>\<rangle>"]
  by (auto simp: bst_at_def)

end
