(* ===== verification/Custom_Heap.thy ===== *)
theory Custom_Heap
  imports Prelude
begin

text \<open>
  \<open>c++/utils/custom_heap.hpp\<close>, \<open>custom_max_heap.hpp\<close> and the k-way merge of
  \<open>custom_heap_test.cpp\<close>: heaps of fixed capacity over a comparison function.  \<open>CustomHeap\<close> has an
  array of \<open>_capacity\<close> default-constructed elements and a current size; \<open>CustomMaxHeap\<close> pushes
  into a shared vector and shrinks its capacity instead.
\<close>

section \<open>Definitions: CustomHeap\<close>

record 'a custom_heap =
  heap :: "'a list"
  capacity :: int
  current_size :: int

text \<open>The constructor throws when the capacity is not positive; \<open>d\<close> is the value of \<open>T()\<close>.\<close>

definition CustomHeap :: "'a \<Rightarrow> int \<Rightarrow> 'a custom_heap option" where
  "CustomHeap d cap =
     (if 0 \<ge> cap then None
      else Some \<lparr>heap = replicate (nat cap) d, capacity = cap, current_size = 0\<rparr>)"

text \<open>One turn of the loop of \<open>build_heap\<close> over the first \<open>n\<close> elements.\<close>

definition build_step :: "('a \<Rightarrow> 'a \<Rightarrow> bool) \<Rightarrow> int \<Rightarrow> int \<Rightarrow> 'a list \<Rightarrow> 'a list option" where
  "build_step cmp n mid a = do {
     tmp \<leftarrow> (if 2 * (mid + 1) < n then do {
         x \<leftarrow> rd a (2 * mid + 1);
         y \<leftarrow> rd a (2 * (mid + 1));
         Some (if cmp x y then 2 * (mid + 1) else 2 * mid + 1) }
       else Some (2 * mid + 1));
     if tmp < n then do {
       x \<leftarrow> rd a mid;
       y \<leftarrow> rd a tmp;
       if cmp x y then Swap a mid tmp else Some a }
     else Some a }"

definition build_loop :: "('a \<Rightarrow> 'a \<Rightarrow> bool) \<Rightarrow> int \<Rightarrow> 'a list \<Rightarrow> 'a list option" where
  "build_loop cmp n a = for_down ((n - 1) div 2) 0 (build_step cmp n) a"

text \<open>Results are pairs of the \<open>int\<close> returned and the object.\<close>

definition build_heap :: "('a \<Rightarrow> 'a \<Rightarrow> bool) \<Rightarrow> 'a custom_heap \<Rightarrow> (int \<times> 'a custom_heap) option" where
  "build_heap cmp h =
     (if current_size h \<le> 0 then Some (-1, h)
      else do {
        a \<leftarrow> build_loop cmp (current_size h) (heap h);
        Some (0, h\<lparr>heap := a\<rparr>) })"

function fix_loop ::
    "('a \<Rightarrow> 'a \<Rightarrow> bool) \<Rightarrow> int \<Rightarrow> int \<Rightarrow> bool \<Rightarrow> 'a list \<Rightarrow> 'a list option" where
  "fix_loop cmp n ind has_child a =
     (if 0 \<le> ind \<and> ind < n \<and> has_child then do {
        second \<leftarrow> (if 2 * (ind + 1) < n then do {
            x \<leftarrow> rd a (2 * ind + 1);
            y \<leftarrow> rd a ind;
            Some (cmp x y) }
          else Some False);
        let tmp = (if second then 2 * (ind + 1) else 2 * ind + 1);
        if tmp < n then do {
          x \<leftarrow> rd a ind;
          y \<leftarrow> rd a tmp;
          if cmp x y then do { b \<leftarrow> Swap a ind tmp; fix_loop cmp n tmp True b }
          else fix_loop cmp n tmp (\<not> second) a }
        else fix_loop cmp n tmp (\<not> second) a }
      else Some a)"
  by pat_completeness auto
termination by (relation "measure (\<lambda>(cmp, n, ind, hc, a). nat (n - ind))") auto

declare fix_loop.simps [simp del]

definition fix_heap :: "('a \<Rightarrow> 'a \<Rightarrow> bool) \<Rightarrow> 'a custom_heap \<Rightarrow> (int \<times> 'a custom_heap) option" where
  "fix_heap cmp h = do {
     a \<leftarrow> fix_loop cmp (current_size h) 0 True (heap h);
     Some (0, h\<lparr>heap := a\<rparr>) }"

definition heap_insert ::
    "('a \<Rightarrow> 'a \<Rightarrow> bool) \<Rightarrow> 'a custom_heap \<Rightarrow> 'a \<Rightarrow> (int \<times> 'a custom_heap) option" where
  "heap_insert cmp h item =
     (if current_size h < capacity h then do {
        a \<leftarrow> wr (heap h) (current_size h) item;
        let h1 = h\<lparr>heap := a, current_size := current_size h + 1\<rparr>;
        if current_size h1 = capacity h1 then build_heap cmp h1 else Some (0, h1) }
      else do {
        a \<leftarrow> wr (heap h) 0 item;
        fix_heap cmp (h\<lparr>heap := a\<rparr>) })"

definition heap_empty :: "'a custom_heap \<Rightarrow> bool" where
  "heap_empty h \<longleftrightarrow> current_size h \<le> 0"

definition resize_heap :: "('a \<Rightarrow> 'a \<Rightarrow> bool) \<Rightarrow> 'a custom_heap \<Rightarrow> (int \<times> 'a custom_heap) option" where
  "resize_heap cmp h =
     (if current_size h \<le> 0 then Some (-1, h)
      else do {
        let size = current_size h - 1;
        x \<leftarrow> rd (heap h) size;
        a \<leftarrow> wr (heap h) 0 x;
        let h1 = h\<lparr>heap := a, current_size := size\<rparr>;
        if size > 0 then build_heap cmp h1 else if 0 = size then Some (1, h1) else Some (-1, h1) })"

text \<open>\<open>get\<close> asserts that the index is below the current size; a failed assertion aborts.\<close>

definition get :: "'a custom_heap \<Rightarrow> int \<Rightarrow> 'a option" where
  "get h i = (if i \<ge> 0 \<and> i < current_size h then rd (heap h) i else None)"

section \<open>Definitions: CustomMaxHeap\<close>

text \<open>The vector may be shared, so the constructor keeps what it holds.  \<open>out\<close> tells whether the
  pointer is not null; the stored value is then part of the result.\<close>

record 'a max_heap =
  max_cap :: int
  index :: int
  vec :: "'a list"

definition CustomMaxHeap :: "int \<Rightarrow> 'a list \<Rightarrow> 'a max_heap option" where
  "CustomMaxHeap cap v = (if 0 \<ge> cap then None else Some \<lparr>max_cap = cap, index = 0, vec = v\<rparr>)"

definition give_top :: "bool \<Rightarrow> int \<Rightarrow> 'a max_heap \<Rightarrow> (int \<times> 'a option \<times> 'a max_heap) option" where
  "give_top out r h =
     (if out then do { x \<leftarrow> rd (vec h) 0; Some (r, Some x, h) } else Some (r, None, h))"

definition max_build_heap ::
    "('a \<Rightarrow> 'a \<Rightarrow> bool) \<Rightarrow> bool \<Rightarrow> 'a max_heap \<Rightarrow> (int \<times> 'a option \<times> 'a max_heap) option" where
  "max_build_heap cmp out h =
     (if max_cap h < 1 then Some (-1, None, h)
      else do {
        v \<leftarrow> build_loop cmp (max_cap h) (vec h);
        give_top out 0 (h\<lparr>vec := v\<rparr>) })"

text \<open>Unlike \<open>fix_loop\<close>, a swap does not set \<open>has_child\<close> again.\<close>

function max_fix_loop ::
    "('a \<Rightarrow> 'a \<Rightarrow> bool) \<Rightarrow> int \<Rightarrow> int \<Rightarrow> bool \<Rightarrow> 'a list \<Rightarrow> 'a list option" where
  "max_fix_loop cmp n ind has_child a =
     (if 0 \<le> ind \<and> ind < n \<and> has_child then do {
        second \<leftarrow> (if 2 * (ind + 1) < n then do {
            x \<leftarrow> rd a (2 * ind + 1);
            y \<leftarrow> rd a ind;
            Some (cmp x y) }
          else Some False);
        let tmp = (if second then 2 * (ind + 1) else 2 * ind + 1);
        if tmp < n then do {
          x \<leftarrow> rd a ind;
          y \<leftarrow> rd a tmp;
          if cmp x y then do { b \<leftarrow> Swap a ind tmp; max_fix_loop cmp n tmp (\<not> second) b }
          else max_fix_loop cmp n tmp (\<not> second) a }
        else max_fix_loop cmp n tmp (\<not> second) a }
      else Some a)"
  by pat_completeness auto
termination by (relation "measure (\<lambda>(cmp, n, ind, hc, a). nat (n - ind))") auto

declare max_fix_loop.simps [simp del]

definition max_fix_heap ::
    "('a \<Rightarrow> 'a \<Rightarrow> bool) \<Rightarrow> bool \<Rightarrow> 'a max_heap \<Rightarrow> (int \<times> 'a option \<times> 'a max_heap) option" where
  "max_fix_heap cmp out h = do {
     v \<leftarrow> max_fix_loop cmp (max_cap h) 0 True (vec h);
     give_top out 0 (h\<lparr>vec := v\<rparr>) }"

definition max_insert ::
    "('a \<Rightarrow> 'a \<Rightarrow> bool) \<Rightarrow> bool \<Rightarrow> 'a max_heap \<Rightarrow> 'a \<Rightarrow> (int \<times> 'a option \<times> 'a max_heap) option" where
  "max_insert cmp out h element =
     (if index h < max_cap h then
        let h1 = h\<lparr>vec := vec h @ [element], index := index h + 1\<rparr>
        in if index h1 = max_cap h1 then max_build_heap cmp out h1 else Some (1, None, h1)
      else do {
        v \<leftarrow> wr (vec h) 0 element;
        max_fix_heap cmp out (h\<lparr>vec := v\<rparr>) })"

definition max_resize_heap ::
    "('a \<Rightarrow> 'a \<Rightarrow> bool) \<Rightarrow> bool \<Rightarrow> 'a max_heap \<Rightarrow> (int \<times> 'a option \<times> 'a max_heap) option" where
  "max_resize_heap cmp out h =
     (if vec h = [] then Some (-1, None, h)
      else do {
        x \<leftarrow> rd (vec h) (max_cap h - 1);
        v \<leftarrow> wr (vec h) 0 x;
        let h1 = h\<lparr>vec := v, max_cap := max_cap h - 1\<rparr>;
        if max_cap h1 > 0 then max_build_heap cmp out h1
        else if 0 = max_cap h1 then give_top out 1 h1 else Some (-1, None, h1) })"

definition max_heap_empty :: "'a max_heap \<Rightarrow> bool" where
  "max_heap_empty h \<longleftrightarrow> max_cap h \<le> 0"

section \<open>Definitions: the merge of custom_heap_test.cpp\<close>

record data_helper =
  idx :: int
  val :: int

definition no_data :: data_helper where
  "no_data = \<lparr>idx = -1, val = -1\<rparr>"

definition compare_data :: "data_helper \<Rightarrow> data_helper \<Rightarrow> bool" where
  "compare_data d1 d2 \<longleftrightarrow> val d1 > val d2"

text \<open>The loop of \<open>main\<close> over rows of four: the printed values.  Every turn consumes one element,
  so the fuel never has to exceed the number of elements.\<close>

fun merge_loop :: "nat \<Rightarrow> int list list \<Rightarrow> int list \<Rightarrow> data_helper custom_heap \<Rightarrow> int list option" where
  "merge_loop 0 data cur h = (if heap_empty h then Some [] else None)"
| "merge_loop (Suc fuel) data cur h =
     (if \<not> heap_empty h then do {
        tmp \<leftarrow> get h 0;
        c \<leftarrow> rd cur (idx tmp);
        cur' \<leftarrow> wr cur (idx tmp) (c + 1);
        (r, h') \<leftarrow> (if c + 1 \<ge> 4 then resize_heap compare_data h
          else do {
            row \<leftarrow> rd data (idx tmp);
            x \<leftarrow> rd row (c + 1);
            heap_insert compare_data h \<lparr>idx = idx tmp, val = x\<rparr> });
        out \<leftarrow> merge_loop fuel data cur' h';
        Some (val tmp # out) }
      else Some [])"

definition heap_test_main :: "int list list \<Rightarrow> int list option" where
  "heap_test_main data = do {
     h \<leftarrow> CustomHeap no_data 3;
     h3 \<leftarrow> for_up 0 3 (\<lambda>i h. do {
       row \<leftarrow> rd data i;
       x \<leftarrow> rd row 0;
       (r, h') \<leftarrow> heap_insert compare_data h \<lparr>idx = i, val = x\<rparr>;
       Some h' }) h;
     merge_loop 12 data [0, 0, 0] h3 }"

section \<open>Strict weak orders and the top of a heap\<close>

text \<open>What a client may rely on of the comparison function.\<close>

locale weak_order =
  fixes less :: "'a \<Rightarrow> 'a \<Rightarrow> bool"
  assumes asym: "less x y \<Longrightarrow> \<not> less y x"
    and neg_trans: "\<not> less x y \<Longrightarrow> \<not> less y z \<Longrightarrow> \<not> less x z"
begin

lemma irrefl: "\<not> less x x"
  using asym [of x x] by blast

end

text \<open>The node of the frontier \<open>i .. 2 i\<close> above \<open>q\<close>.\<close>

function front :: "int \<Rightarrow> int \<Rightarrow> int" where
  "front i q = (if q \<le> 2 * i \<or> i < 0 then q else front i ((q - 1) div 2))"
  by pat_completeness auto
termination by (relation "measure (\<lambda>(i, q). nat q)") auto

declare front.simps [simp del]

lemma front_below [simp]: "q \<le> 2 * i \<Longrightarrow> front i q = q"
  by (simp add: front.simps)

lemma front_range: "0 \<le> i \<Longrightarrow> i \<le> q \<Longrightarrow> i \<le> front i q \<and> front i q \<le> 2 * i \<and> front i q \<le> q"
proof (induction i q rule: front.induct)
  case (1 i q)
  show ?case
  proof (cases "q \<le> 2 * i")
    case False
    then have "i \<le> (q - 1) div 2" "(q - 1) div 2 \<le> q" using 1(2) by auto
    then show ?thesis using 1 False by (simp add: front.simps [of i q])
  qed (use 1 in auto)
qed

lemma front_step:
  "0 \<le> m \<Longrightarrow> m + 1 \<le> q \<Longrightarrow>
   front m q = (if front (m + 1) q \<le> 2 * m then front (m + 1) q else m)"
proof (induction "m + 1" q rule: front.induct)
  case (1 q)
  show ?case
  proof (cases "q \<le> 2 * (m + 1)")
    case True
    then have "q \<le> 2 * m \<or> q = 2 * m + 1 \<or> q = 2 * m + 2" by auto
    then consider "q \<le> 2 * m" | "q = 2 * m + 1" | "q = 2 * m + 2" by blast
    then show ?thesis
      using 1 front.simps [of m "2 * m + 1"] front.simps [of m "2 * m + 2"] by cases simp_all
  next
    case False
    then have "m + 1 \<le> (q - 1) div 2" using 1(2) by auto
    then show ?thesis using 1 False by (simp add: front.simps [of m q] front.simps [of "m + 1" q])
  qed
qed

lemma front_0: "0 \<le> q \<Longrightarrow> front 0 q = 0"
  using front_range [of 0 q] by simp

context weak_order
begin

definition tops :: "int \<Rightarrow> int \<Rightarrow> 'a list \<Rightarrow> bool" where
  "tops n i a \<longleftrightarrow> (\<forall>q. i \<le> q \<longrightarrow> q < n \<longrightarrow> \<not> less (a ! nat (front i q)) (a ! nat q))"

lemma tops_step:
  assumes t: "tops n (m + 1) a" and m: "0 \<le> m" "m < n" "n \<le> int (length a)"
  shows "\<exists>b. build_step less n m a = Some b \<and> tops n m b \<and> perm_in 0 n a b"
proof -
  have frm: "\<not> less (a ! nat (front (m + 1) q)) (a ! nat q)" if "m + 1 \<le> q" "q < n" for q
    using t that by (auto simp: tops_def)
  define c where "c = (if 2 * m + 2 < n \<and> less (a ! nat (2 * m + 1)) (a ! nat (2 * m + 2))
    then 2 * m + 2 else 2 * m + 1)"
  define sw where "sw \<longleftrightarrow> c < n \<and> less (a ! nat m) (a ! nat c)"
  define b where "b = (if sw then swp a m c else a)"
  have c: "m < c" "c = 2 * m + 1 \<or> c = 2 * m + 2" using m by (auto simp: c_def)
  have top: "\<not> less (a ! nat c) (a ! nat k)" if "k = 2 * m + 1 \<or> k = 2 * m + 2" "k < n" for k
    using that irrefl asym by (auto simp: c_def split: if_splits)
  have nth: "b ! nat k = (if sw \<and> k = m then a ! nat c else if sw \<and> k = c then a ! nat m else a ! nat k)"
    if "0 \<le> k" for k
    using that m c by (auto simp: b_def sw_def arr)
  have rds: "rd a k = Some (a ! nat k)" if "0 \<le> k" "k < n" for k using that m by (simp add: rd_def)
  have "build_step less n m a = Some b"
    using m c rds Swap_in [of m a c]
    by (auto simp: build_step_def b_def sw_def c_def Let_def)
  moreover have "tops n m b"
    unfolding tops_def
  proof (intro allI impI)
    fix q assume q: "m \<le> q" "q < n"
    have bm: "\<not> less (b ! nat m) (a ! nat k)" if "k = m \<or> k = 2 * m + 1 \<or> k = 2 * m + 2" "k < n" for k
    proof (cases sw)
      case True
      then show ?thesis using that top [of k] asym irrefl nth [of m] m by (auto simp: sw_def)
    next
      case False
      then have "c < n \<Longrightarrow> \<not> less (a ! nat m) (a ! nat c)" by (auto simp: sw_def)
      moreover have "k \<noteq> m \<Longrightarrow> c < n" using that by (auto simp: c_def)
      ultimately show ?thesis using that top [of k] irrefl nth [of m] m False neg_trans
        by (cases "k = m") auto
    qed
    have below: "\<not> less (b ! nat m) (a ! nat q')" if q': "m \<le> q'" "q' < n" "front m q' = m" for q'
    proof (cases "q' = m")
      case True
      then show ?thesis using bm q' by blast
    next
      case False
      then have f: "front (m + 1) q' = 2 * m + 1 \<or> front (m + 1) q' = 2 * m + 2"
        using front_step [of m q'] front_range [of "m + 1" q'] q' m by (auto split: if_splits)
      have "\<not> less (b ! nat m) (a ! nat (front (m + 1) q'))"
        using bm [of "front (m + 1) q'"] f front_range [of "m + 1" q'] q' False m by auto
      then show ?thesis using frm [of q'] q' False neg_trans by auto
    qed
    show "\<not> less (b ! nat (front m q)) (b ! nat q)"
    proof (cases "front m q = m")
      case True
      consider "b ! nat q = a ! nat q" | "sw" "q = m" | "sw" "q = c"
        using nth [of q] q m by (auto split: if_splits)
      then show ?thesis
      proof cases
        case 1
        then show ?thesis using below [of q] q True by simp
      next
        case 2
        then show ?thesis using True irrefl by simp
      next
        case 3
        then show ?thesis using True bm [of m] nth [of q] q m c by auto
      qed
    next
      case False
      then have "q \<noteq> m" using m by auto
      then have qm: "m + 1 \<le> q" using q by simp
      have f: "front m q = front (m + 1) q" "front m q \<le> 2 * m"
        using front_step [OF m(1) qm] False by (auto split: if_splits)
      have fr: "m + 1 \<le> front (m + 1) q" using front_range [of "m + 1" q] qm m by simp
      have "q \<noteq> c"
      proof
        assume "q = c"
        moreover have "front (m + 1) c = c" using c by (intro front_below) auto
        ultimately have "front (m + 1) q = c" by simp
        then show False using f c by auto
      qed
      then have "b ! nat q = a ! nat q" using nth [of q] q m \<open>q \<noteq> m\<close> by simp
      moreover have "b ! nat (front m q) = a ! nat (front (m + 1) q)"
        using nth [of "front m q"] f fr c m by auto
      ultimately show ?thesis using frm [OF qm q(2)] by simp
    qed
  qed
  moreover have "perm_in 0 n a b"
    using perm_in_swp [of m a c 0 n] m c by (auto simp: b_def sw_def)
  ultimately show ?thesis by blast
qed

lemma build_loop_spec:
  assumes "0 < n" "n \<le> int (length a)"
  shows "\<exists>b. build_loop less n a = Some b \<and> perm_in 0 n a b \<and>
    (\<forall>q. 0 \<le> q \<and> q < n \<longrightarrow> \<not> less (b ! 0) (b ! nat q))"
proof -
  let ?m = "(n - 1) div 2"
  have start: "tops n (?m + 1) a"
    unfolding tops_def
  proof (intro allI impI)
    fix q assume "?m + 1 \<le> q" "q < n"
    moreover from this have "q \<le> 2 * (?m + 1)" by auto
    ultimately show "\<not> less (a ! nat (front (?m + 1) q)) (a ! nat q)" by (simp add: irrefl)
  qed
  have "\<exists>b. for_down ?m 0 (build_step less n) a = Some b \<and> (tops n (0 - 1 + 1) b \<and> perm_in 0 n a b)"
  proof (rule for_down_rule [where I = "\<lambda>i b. tops n (i + 1) b \<and> perm_in 0 n a b"])
    fix i s assume i: "0 \<le> i" "i \<le> ?m" and I: "tops n (i + 1) s \<and> perm_in 0 n a s"
    have "length s = length a" using I by (auto dest: perm_in_length)
    moreover have "i < n" using i assms by linarith
    ultimately show "\<exists>t. build_step less n i s = Some t \<and> tops n (i - 1 + 1) t \<and> perm_in 0 n a t"
      using tops_step [of n i s] I i assms by (auto intro: perm_in_trans)
  qed (use start assms in auto)
  then obtain b where b: "for_down ?m 0 (build_step less n) a = Some b" "tops n 0 b" "perm_in 0 n a b"
    by auto
  then show ?thesis by (auto simp: build_loop_def tops_def front_0)
qed

end

interpretation data_order: weak_order compare_data
  by unfold_locales (auto simp: compare_data_def)

section \<open>Properties\<close>

text \<open>\<open>build_heap\<close> of \<open>CustomHeap\<close>, for any strict weak order, rearranges the current elements
  so that none of them is above the one at index 0 (it does not establish the heap order below the
  root), and leaves the rest of the array alone.\<close>

theorem build_heap_top:
  assumes "weak_order cmp" "0 < current_size h" "current_size h \<le> int (length (heap h))"
  shows "\<exists>a. build_heap cmp h = Some (0, h\<lparr>heap := a\<rparr>) \<and>
    mset (take (nat (current_size h)) a) = mset (take (nat (current_size h)) (heap h)) \<and>
    drop (nat (current_size h)) a = drop (nat (current_size h)) (heap h) \<and>
    (\<forall>x \<in> set (take (nat (current_size h)) a). \<not> cmp (a ! 0) x)"
proof -
  obtain b where b: "build_loop cmp (current_size h) (heap h) = Some b"
      "perm_in 0 (current_size h) (heap h) b"
      "\<forall>q. 0 \<le> q \<and> q < current_size h \<longrightarrow> \<not> cmp (b ! 0) (b ! nat q)"
    using weak_order.build_loop_spec [OF assms] by blast
  have "\<not> cmp (b ! 0) x" if x: "x \<in> set (take (nat (current_size h)) b)" for x
  proof -
    obtain k where k: "k < nat (current_size h)" "x = b ! k"
      using x by (auto simp: in_set_conv_nth)
    then show ?thesis using b(3) [rule_format, of "int k"] by simp
  qed
  then show ?thesis
    using b perm_in_seg [OF b(2)] perm_in_drop [OF b(2)] assms by (auto simp: build_heap_def seg_def)
qed

lemma build_heap_top_witness:
  "\<exists>a. build_heap (<) \<lparr>heap = [1, 3, 2 :: int], capacity = 3, current_size = 3\<rparr> =
     Some (0, \<lparr>heap = a, capacity = 3, current_size = 3\<rparr>)"
proof -
  have "weak_order ((<) :: int \<Rightarrow> int \<Rightarrow> bool)" by unfold_locales auto
  then show ?thesis
    using build_heap_top [of "(<)" "\<lparr>heap = [1, 3, 2 :: int], capacity = 3, current_size = 3\<rparr>"] by auto
qed

text \<open>\<open>fix_heap\<close>, which runs when an element replaces the top of a full heap, compares the left
  child with the parent where it should compare the children: after 10, 5, 9 and 1 the maximum
  heap of capacity 3 holds 1, 5 and 9 and has 5 at its top, and the merge of the test program
  prints its own three rows in order but not every three ascending rows.\<close>

theorem fix_heap_wrong_top:
  "(do { h0 \<leftarrow> CustomHeap 0 3; (r1, h1) \<leftarrow> heap_insert (<) h0 10; (r2, h2) \<leftarrow> heap_insert (<) h1 5;
      (r3, h3) \<leftarrow> heap_insert (<) h2 9; (r4, h4) \<leftarrow> heap_insert (<) h3 1;
      x \<leftarrow> get h4 0; Some (x, heap h4) }) = Some (5 :: int, [5, 1, 9]) \<and>
   heap_test_main [[1, 2, 3, 15], [4, 5, 6, 9], [7, 8, 9, 10]] =
     Some [1, 2, 3, 4, 5, 6, 7, 8, 9, 9, 10, 15] \<and>
   heap_test_main [[1, 5, 7, 7], [5, 7, 8, 9], [4, 6, 8, 9]] =
     Some [1, 5, 5, 7, 7, 4, 6, 8, 8, 9, 7, 9]"
  by (intro conjI; code_simp)

end
