(* ===== verification/Linked_Queue.thy ===== *)
theory Linked_Queue
  imports Prelude
begin

text \<open>
  \<open>c++/utils/cache/threadsafe_listed_queue.h\<close>, and what the queues of the repository share.  A
  queue of linked nodes is a map from node addresses to their \<open>next\<close> pointers and the \<open>tail_\<close>
  pointer; 0 is the null pointer, 1 the address of the member \<open>head_\<close>.  An operation here runs
  alone, so a compare-and-swap fails only when the values differ; a loop that spins forever does
  not return (\<open>None\<close>).
\<close>

section \<open>Definitions\<close>

record node_queue =
  nxt :: "nat \<Rightarrow> nat option"
  tail :: nat

definition ListedQueue :: node_queue where
  "ListedQueue = \<lparr>nxt = [1 \<mapsto> 0], tail = 1\<rparr>"

definition set_next :: "node_queue \<Rightarrow> nat \<Rightarrow> nat \<Rightarrow> node_queue" where
  "set_next q a p = q\<lparr>nxt := (nxt q)(a \<mapsto> p)\<rparr>"

partial_function (option) PushBack :: "node_queue \<Rightarrow> nat \<Rightarrow> (bool \<times> node_queue) option" where
  [code]: "PushBack q node = do {
     let tl = tail q;
     next \<leftarrow> nxt q tl;
     if next \<noteq> 0 then PushBack q node
     else if nxt q tl \<noteq> Some next then PushBack q node
     else do {
       let q1 = set_next q tl node;
       if tail q1 = tl then Some (True, q1\<lparr>tail := node\<rparr>) else PushBack q1 node } }"

partial_function (option) PopHead :: "node_queue \<Rightarrow> (nat \<times> node_queue) option" where
  [code]: "PopHead q = do {
     p \<leftarrow> nxt q 1;
     if p = 0 then Some (0, q)
     else do {
       next \<leftarrow> nxt q p;
       if tail q = p then do {
         let q1 = q\<lparr>tail := 1\<rparr>;
         if nxt q1 1 = Some p then Some (p, set_next q1 1 0) else PopHead q1 }
       else if nxt q 1 = Some p then Some (p, set_next q 1 next) else PopHead q } }"

section \<open>The nodes of a queue\<close>

text \<open>\<open>as\<close> are the addresses behind \<open>a\<close>, the last of them without successor.\<close>

fun links :: "(nat \<Rightarrow> nat option) \<Rightarrow> nat \<Rightarrow> nat list \<Rightarrow> bool" where
  "links nx a [] \<longleftrightarrow> nx a = Some 0"
| "links nx a (b # bs) \<longleftrightarrow> nx a = Some b \<and> links nx b bs"

definition queue_at :: "node_queue \<Rightarrow> nat list \<Rightarrow> bool" where
  "queue_at q as \<longleftrightarrow> links (nxt q) 1 as \<and> tail q = last (1 # as) \<and> distinct (0 # 1 # as)"

lemma queue_at_empty: "queue_at ListedQueue []"
  by (simp add: queue_at_def ListedQueue_def)

lemma links_cong:
  "(\<And>b. b \<in> set (a # as) \<Longrightarrow> nx b = nx' b) \<Longrightarrow> links nx a as \<longleftrightarrow> links nx' a as"
  by (induction as arbitrary: a) auto

lemma links_upd: "f \<notin> set (a # as) \<Longrightarrow> links (nx(f := x)) a as \<longleftrightarrow> links nx a as"
  by (rule links_cong) auto

lemma links_last: "links nx a as \<Longrightarrow> nx (last (a # as)) = Some 0"
  by (induction as arbitrary: a) auto

lemma links_append:
  "links nx a as \<Longrightarrow> distinct (a # as @ [f]) \<Longrightarrow> nx f = Some 0 \<Longrightarrow>
   links (nx(last (a # as) \<mapsto> f)) a (as @ [f])"
proof (induction as arbitrary: a)
  case (Cons b bs)
  have "links nx b bs" "distinct (b # bs @ [f])" using Cons.prems by simp_all
  from Cons.IH [OF this Cons.prems(3)] have "links (nx(last (b # bs) \<mapsto> f)) b (bs @ [f])" .
  moreover have "a \<noteq> last (b # bs)" using Cons(3) last_in_set [of "b # bs"] by auto
  moreover have "last (a # b # bs) = last (b # bs)" by simp
  ultimately show ?case using Cons(2) by (simp del: last.simps add: fun_upd_def)
qed simp

lemma links_drop_head:
  "links nx a (b # bs) \<Longrightarrow> distinct (a # b # bs) \<Longrightarrow>
   links (nx(a \<mapsto> (case bs of [] \<Rightarrow> 0 | c # _ \<Rightarrow> c))) a bs"
proof (cases bs)
  case (Cons c cs)
  assume l: "links nx a (b # bs)" "distinct (a # b # bs)"
  then have "links (nx(a \<mapsto> c)) c cs"
    using Cons by (subst links_cong [of _ _ _ nx]) auto
  then show ?thesis using Cons by simp
qed simp

lemma queue_at_next: "queue_at q (b # bs) \<Longrightarrow> nxt q b = Some (case bs of [] \<Rightarrow> 0 | c # _ \<Rightarrow> c)"
  by (cases bs) (auto simp: queue_at_def)

lemma queue_at_push:
  assumes "queue_at q as" "f \<notin> set (0 # 1 # as)" "nxt q f = Some 0"
  shows "queue_at ((set_next q (tail q) f)\<lparr>tail := f\<rparr>) (as @ [f])"
proof -
  have "links ((nxt q)(last (1 # as) \<mapsto> f)) 1 (as @ [f])"
    by (rule links_append) (use assms in \<open>auto simp: queue_at_def\<close>)
  then show ?thesis using assms by (auto simp: queue_at_def set_next_def)
qed

lemma queue_at_pop:
  assumes "queue_at q (b # bs)"
  shows "queue_at ((set_next q 1 (case bs of [] \<Rightarrow> 0 | c # _ \<Rightarrow> c))
    \<lparr>tail := (if bs = [] then 1 else tail q)\<rparr>) bs"
proof -
  have "links ((nxt q)(1 \<mapsto> (case bs of [] \<Rightarrow> 0 | c # _ \<Rightarrow> c))) 1 bs"
    by (rule links_drop_head) (use assms in \<open>auto simp: queue_at_def\<close>)
  then show ?thesis using assms by (auto simp: queue_at_def set_next_def)
qed

lemma PushBack_spec:
  assumes "queue_at q as" "f \<notin> set (0 # 1 # as)" "nxt q f = Some 0"
  shows "PushBack q f = Some (True, (set_next q (tail q) f)\<lparr>tail := f\<rparr>)"
proof -
  have "nxt q (tail q) = Some 0" using assms(1) links_last [of "nxt q" 1 as] by (simp add: queue_at_def)
  then show ?thesis by (simp add: PushBack.simps [of q f] set_next_def)
qed

text \<open>A push that returns found a tail without successor.\<close>

lemma PushBack_Some: "PushBack q g = Some r \<Longrightarrow> nxt q (tail q) = Some 0"
proof (erule PushBack.raw_induct [where P = "\<lambda>q g r. nxt q (tail q) = Some 0", rotated])
  fix f q g r
  assume "\<And>q g r. f q g = Some r \<Longrightarrow> nxt q (tail q) = Some 0"
    and "(do { let tl = tail q; next \<leftarrow> nxt q tl;
      if next \<noteq> 0 then f q g
      else if nxt q tl \<noteq> Some next then f q g
      else do { let q1 = set_next q tl g;
        if tail q1 = tl then Some (True, q1\<lparr>tail := g\<rparr>) else f q1 g } }) = Some r"
  then show "nxt q (tail q) = Some 0" by (auto simp: Let_def split: Option.bind_splits if_splits)
qed

lemma PopHead_empty: "queue_at q [] \<Longrightarrow> PopHead q = Some (0, q)"
  by (simp add: PopHead.simps [of q] queue_at_def)

lemma PopHead_spec:
  assumes "queue_at q (b # bs)"
  shows "PopHead q = Some (b, (set_next q 1 (case bs of [] \<Rightarrow> 0 | c # _ \<Rightarrow> c))
    \<lparr>tail := (if bs = [] then 1 else tail q)\<rparr>)"
proof -
  have b: "nxt q 1 = Some b" "b \<noteq> 0" using assms by (auto simp: queue_at_def)
  have t: "tail q = b \<longleftrightarrow> bs = []" using assms by (auto simp: queue_at_def)
  show ?thesis
    using b t queue_at_next [OF assms]
    by (cases bs) (auto simp: PopHead.simps [of q] set_next_def)
qed

section \<open>The contract of a first-in first-out queue\<close>

text \<open>
  \<open>holds q xs\<close>: the queue holds \<open>xs\<close>, oldest first; \<open>ok q x\<close>: \<open>x\<close> may be put into it.  The
  operations return, and every provider of the repository keeps these laws.
\<close>

locale fifo =
  fixes holds :: "'q \<Rightarrow> 'x list \<Rightarrow> bool"
    and ok :: "'q \<Rightarrow> 'x \<Rightarrow> bool"
    and enq :: "'q \<Rightarrow> 'x \<Rightarrow> 'q option"
    and deq :: "'q \<Rightarrow> ('x option \<times> 'q) option"
  assumes enq: "holds q xs \<Longrightarrow> ok q x \<Longrightarrow> \<exists>q'. enq q x = Some q' \<and> holds q' (xs @ [x])"
    and deq_empty: "holds q [] \<Longrightarrow> \<exists>q'. deq q = Some (None, q') \<and> holds q' []"
    and deq_first: "holds q (x # xs) \<Longrightarrow> \<exists>q'. deq q = Some (Some x, q') \<and> holds q' xs"

text \<open>Taking out until the queue reports that it is empty, at most \<open>fuel\<close> times.\<close>

fun take_all :: "('q \<Rightarrow> ('x option \<times> 'q) option) \<Rightarrow> nat \<Rightarrow> 'q \<Rightarrow> ('x list \<times> 'q) option" where
  "take_all deq 0 q = Some ([], q)"
| "take_all deq (Suc fuel) q = do {
     (r, q') \<leftarrow> deq q;
     case r of None \<Rightarrow> Some ([], q')
     | Some x \<Rightarrow> do { (xs, q'') \<leftarrow> take_all deq fuel q'; Some (x # xs, q'') } }"

context fifo
begin

lemma drain:
  "holds q xs \<Longrightarrow> length xs \<le> n \<Longrightarrow> \<exists>q'. take_all deq n q = Some (xs, q') \<and> holds q' []"
proof (induction n arbitrary: q xs)
  case (Suc n)
  show ?case
  proof (cases xs)
    case Nil
    then show ?thesis using deq_empty [of q] Suc(2) by auto
  next
    case (Cons x ys)
    then obtain q' where q': "deq q = Some (Some x, q')" "holds q' ys"
      using deq_first [of q x ys] Suc(2) by auto
    then show ?thesis using Suc(1) [of q' ys] Suc(3) Cons by auto
  qed
qed simp

lemma enq_then_drain:
  assumes "holds q xs" "ok q x"
  shows "\<exists>q' q''. enq q x = Some q' \<and> take_all deq (Suc (length xs)) q' = Some (xs @ [x], q'') \<and>
    holds q'' []"
proof -
  obtain q' where q': "enq q x = Some q'" "holds q' (xs @ [x])" using enq [OF assms] by blast
  then show ?thesis using drain [OF q'(2), of "Suc (length xs)"] by auto
qed

end

definition pop_node :: "node_queue \<Rightarrow> (nat option \<times> node_queue) option" where
  "pop_node q = do { (p, q') \<leftarrow> PopHead q; Some (if p = 0 then None else Some p, q') }"

definition pushable :: "node_queue \<Rightarrow> nat \<Rightarrow> bool" where
  "pushable q f \<longleftrightarrow> nxt q f = Some 0 \<and> f \<noteq> 0 \<and> f \<noteq> 1 \<and> (\<forall>a. nxt q a \<noteq> Some f) \<and> f \<noteq> tail q"

lemma links_in: "links nx a as \<Longrightarrow> b \<in> set as \<Longrightarrow> \<exists>c. nx c = Some b"
  by (induction as arbitrary: a) auto

lemma pushable_notin: "queue_at q as \<Longrightarrow> pushable q f \<Longrightarrow> f \<notin> set (0 # 1 # as)"
  using links_in [of "nxt q" 1 as f] by (auto simp: queue_at_def pushable_def)

interpretation lq: fifo queue_at pushable "\<lambda>q f. map_option snd (PushBack q f)" pop_node
proof
  fix q as f assume "queue_at q as" "pushable q f"
  moreover from this have "f \<notin> set (0 # 1 # as)" by (rule pushable_notin)
  ultimately show "\<exists>q'. map_option snd (PushBack q f) = Some q' \<and> queue_at q' (as @ [f])"
    using PushBack_spec [of q as f] queue_at_push [of q as f] by (simp add: pushable_def)
next
  fix q assume "queue_at q []"
  then show "\<exists>q'. pop_node q = Some (None, q') \<and> queue_at q' []"
    using PopHead_empty by (simp add: pop_node_def)
next
  fix q b bs assume q: "queue_at q (b # bs)"
  then have "b \<noteq> 0" by (auto simp: queue_at_def)
  then show "\<exists>q'. pop_node q = Some (Some b, q') \<and> queue_at q' bs"
    using PopHead_spec [OF q] queue_at_pop [OF q] by (simp add: pop_node_def)
qed

section \<open>Properties\<close>

text \<open>The linked queue is first in, first out: a node that is pushed (not linked anywhere, its
  \<open>next\<close> null) comes out behind the nodes that were there, each push and pop returns, and the
  queue is then empty again.\<close>

theorem ListedQueue_fifo:
  assumes "queue_at q as" "pushable q f"
  shows "\<exists>q' q''. PushBack q f = Some (True, q') \<and> queue_at q' (as @ [f]) \<and>
    take_all pop_node (Suc (length as)) q' = Some (as @ [f], q'') \<and> queue_at q'' []"
proof -
  have f: "f \<notin> set (0 # 1 # as)" by (rule pushable_notin [OF assms])
  have "queue_at ((set_next q (tail q) f)\<lparr>tail := f\<rparr>) (as @ [f])"
    using queue_at_push [OF assms(1) f] assms(2) by (simp add: pushable_def)
  then show ?thesis
    using PushBack_spec [OF assms(1) f] lq.drain [of _ "as @ [f]" "Suc (length as)"] assms(2)
    by (simp add: pushable_def)
qed

lemma ListedQueue_fifo_witness:
  "\<exists>q' q''. PushBack \<lparr>nxt = [1 \<mapsto> 5, 5 \<mapsto> 0, 6 \<mapsto> 0], tail = 5\<rparr> 6 = Some (True, q') \<and>
    take_all pop_node 2 q' = Some ([5, 6], q'')"
proof -
  have "queue_at \<lparr>nxt = [1 \<mapsto> 5, 5 \<mapsto> 0, 6 \<mapsto> 0], tail = 5\<rparr> [5]"
    "pushable \<lparr>nxt = [1 \<mapsto> 5, 5 \<mapsto> 0, 6 \<mapsto> 0], tail = 5\<rparr> 6"
    by (auto simp: queue_at_def pushable_def split: if_splits)
  from ListedQueue_fifo [OF this] show ?thesis by (auto simp: numeral_2_eq_2)
qed

text \<open>\<open>PopHead\<close> does not clear the \<open>next\<close> pointer of the node it returns, and \<open>PushBack\<close> does
  not look at it: when a node that was popped in front of another one is pushed again, the queue
  ends in a cycle or a foreign node and every later \<open>PushBack\<close> spins forever.\<close>

theorem pushed_stale_node_hangs:
  assumes "queue_at q as" "nxt q f = Some n" "n \<noteq> 0" "f \<noteq> tail q"
  shows "\<exists>q'. PushBack q f = Some (True, q') \<and> (\<forall>g. PushBack q' g = None)"
proof -
  let ?q = "(set_next q (tail q) f)\<lparr>tail := f\<rparr>"
  have "nxt q (tail q) = Some 0" using assms(1) links_last [of "nxt q" 1 as] by (simp add: queue_at_def)
  then have "PushBack q f = Some (True, ?q)" by (simp add: PushBack.simps [of q f] set_next_def)
  moreover have "nxt ?q (tail ?q) \<noteq> Some 0" using assms by (simp add: set_next_def)
  then have "PushBack ?q g = None" for g using PushBack_Some [of ?q g] by (cases "PushBack ?q g") auto
  ultimately show ?thesis by blast
qed

lemma pushed_stale_node_hangs_witness:
  "\<exists>q'. PushBack \<lparr>nxt = [1 \<mapsto> 5, 5 \<mapsto> 0, 6 \<mapsto> 5], tail = 5\<rparr> 6 = Some (True, q') \<and>
    (\<forall>g. PushBack q' g = None)"
  by (rule pushed_stale_node_hangs [of _ "[5]" _ 5]) (simp_all add: queue_at_def)

end
