(* ===== verification/Lru_Queue.thy ===== *)
theory Lru_Queue
  imports Linked_Queue
begin

text \<open>
  \<open>c++/utils/lru_cache_lockfree_queued.h\<close>: a cache that records every access as a node of a queue
  and counts, in the entry of the map, how many nodes each key has.  To evict, nodes are taken
  from the head until a count drops to zero.  An operation runs alone here (writers hold the
  write lock; readers that run together only race in \<open>PutTail\<close>); a compare-and-swap fails only
  when the values differ.  The counter \<open>cnt\<close> is a number: a 64-bit counter of nodes that are all
  in memory does not wrap.  A node's \<open>key\<close> and \<open>value\<close> point into the entry of its key.  The
  debug output is not modelled.
\<close>

section \<open>Definitions\<close>

record ('k, 'v) lru =
  underly :: "'k \<Rightarrow> ('v \<times> nat) option"
  queue :: node_queue
  node_key :: "nat \<Rightarrow> 'k option"
  fresh :: nat
  max_size :: nat
  current_size :: nat

definition LRUCache :: "nat \<Rightarrow> ('k, 'v) lru" where
  "LRUCache cap = \<lparr>underly = \<lambda>_. None, queue = \<lparr>nxt = [1 \<mapsto> 0], tail = 1\<rparr>, node_key = \<lambda>_. None,
     fresh = 2, max_size = cap, current_size = 0\<rparr>"

partial_function (option) PutTail :: "node_queue \<Rightarrow> nat \<Rightarrow> node_queue option" where
  [code]: "PutTail q node = do {
     let tl = tail q;
     next \<leftarrow> nxt q tl;
     if next \<noteq> 0 then PutTail q node
     else if nxt q tl \<noteq> Some next then PutTail q node
     else do {
       let q1 = set_next q tl node;
       if tail q1 = tl then Some (q1\<lparr>tail := node\<rparr>) else PutTail q1 node } }"

text \<open>\<open>while (!head_.next.compare_exchange(p, new));\<close> with the \<open>p\<close> it leaves behind: a failed
  exchange loads the current value into \<open>p\<close>.\<close>

partial_function (option) cas_head :: "node_queue \<Rightarrow> nat \<Rightarrow> nat \<Rightarrow> (nat \<times> node_queue) option" where
  [code]: "cas_head q p new = do {
     h \<leftarrow> nxt q 1;
     if h = p then Some (p, set_next q 1 new) else cas_head q h new }"

text \<open>The part of the loop of \<open>PopHead\<close> that unlinks the first node.\<close>

definition unlink_head :: "node_queue \<Rightarrow> (nat option \<times> node_queue) option" where
  "unlink_head q = do {
     p \<leftarrow> nxt q 1;
     if p = 0 then Some (None, q)
     else do {
       next \<leftarrow> nxt q p;
       (p', q') \<leftarrow> (if tail q = p then cas_head (q\<lparr>tail := 1\<rparr>) p 0 else cas_head q (tail q) next);
       Some (Some p', q') } }"

definition delete_node :: "('k, 'v) lru \<Rightarrow> nat \<Rightarrow> ('k, 'v) lru" where
  "delete_node st p = st\<lparr>queue := (queue st)\<lparr>nxt := (nxt (queue st))(p := None)\<rparr>,
     node_key := (node_key st)(p := None)\<rparr>"

partial_function (option) PopHead :: "('k, 'v) lru \<Rightarrow> ('k, 'v) lru option" where
  [code]: "PopHead st = do {
     (r, q) \<leftarrow> unlink_head (queue st);
     case r of
       None \<Rightarrow> Some st
     | Some p \<Rightarrow> do {
         k \<leftarrow> node_key st p;
         (v, c) \<leftarrow> underly st k;
         let cnt = c - 1;
         let u = (if cnt = 0 then (underly st)(k := None) else (underly st)(k \<mapsto> (v, cnt)));
         let st' = delete_node (st\<lparr>queue := q, underly := u\<rparr>) p;
         if cnt = 0 then Some st' else PopHead st' } }"

text \<open>\<open>new LRUCacheListNode\<close> for an entry of the map, \<open>cnt++\<close> and \<open>PutTail\<close>.\<close>

definition touch :: "('k, 'v) lru \<Rightarrow> 'k \<Rightarrow> ('k, 'v) lru option" where
  "touch st k = do {
     (v, c) \<leftarrow> underly st k;
     let a = fresh st;
     let st1 = st\<lparr>queue := (queue st)\<lparr>nxt := (nxt (queue st))(a \<mapsto> 0)\<rparr>,
       node_key := (node_key st)(a \<mapsto> k), fresh := a + 1, underly := (underly st)(k \<mapsto> (v, c + 1))\<rparr>;
     q \<leftarrow> PutTail (queue st1) a;
     Some (st1\<lparr>queue := q\<rparr>) }"

definition Get :: "('k, 'v) lru \<Rightarrow> 'k \<Rightarrow> ('v option \<times> ('k, 'v) lru) option" where
  "Get st k =
     (case underly st k of
        None \<Rightarrow> Some (None, st)
      | Some (v, c) \<Rightarrow> do { st' \<leftarrow> touch st k; Some (Some v, st') })"

definition Put :: "('k, 'v) lru \<Rightarrow> 'k \<Rightarrow> 'v \<Rightarrow> (bool \<times> ('k, 'v) lru) option" where
  "Put st k v =
     (if underly st k \<noteq> None then Some (False, st)
      else do {
        st1 \<leftarrow> touch (st\<lparr>underly := (underly st)(k \<mapsto> (v, 0))\<rparr>) k;
        st2 \<leftarrow> (if current_size st1 = max_size st1 then PopHead st1
               else Some (st1\<lparr>current_size := current_size st1 + 1\<rparr>));
        Some (True, st2) })"

section \<open>The queue of the cache\<close>

lemma PutTail_spec:
  assumes "queue_at q as"
  shows "PutTail q f = Some ((set_next q (tail q) f)\<lparr>tail := f\<rparr>)"
proof -
  have "nxt q (tail q) = Some 0" using assms links_last [of "nxt q" 1 as] by (simp add: queue_at_def)
  then show ?thesis by (simp add: PutTail.simps [of q f] set_next_def)
qed

lemma cas_head_spec: "nxt q 1 = Some b \<Longrightarrow> cas_head q p new = Some (b, set_next q 1 new)"
  by (cases "b = p") (simp_all add: cas_head.simps [of q p] cas_head.simps [of q b])

lemma unlink_head_spec:
  assumes "queue_at q (b # bs)"
  shows "unlink_head q = Some (Some b, (set_next q 1 (case bs of [] \<Rightarrow> 0 | c # _ \<Rightarrow> c))
    \<lparr>tail := (if bs = [] then 1 else tail q)\<rparr>)"
proof -
  have b: "nxt q 1 = Some b" "b \<noteq> 0" using assms by (auto simp: queue_at_def)
  have t: "tail q = b \<longleftrightarrow> bs = []" using assms by (auto simp: queue_at_def)
  show ?thesis
    using b t queue_at_next [OF assms] cas_head_spec [of q b] cas_head_spec [of "q\<lparr>tail := 1\<rparr>" b]
    by (cases bs) (auto simp: unlink_head_def set_next_def)
qed

interpretation cq: fifo queue_at pushable PutTail unlink_head
proof
  fix q as f assume q: "queue_at q as" "pushable q f"
  then have "f \<notin> set (0 # 1 # as)" by (rule pushable_notin)
  then show "\<exists>q'. PutTail q f = Some q' \<and> queue_at q' (as @ [f])"
    using PutTail_spec [OF q(1)] queue_at_push [OF q(1)] q(2) by (simp add: pushable_def)
next
  fix q assume "queue_at q []"
  then show "\<exists>q'. unlink_head q = Some (None, q') \<and> queue_at q' []"
    by (simp add: unlink_head_def queue_at_def)
next
  fix q b bs assume q: "queue_at q (b # bs)"
  show "\<exists>q'. unlink_head q = Some (Some b, q') \<and> queue_at q' bs"
    using unlink_head_spec [OF q] queue_at_pop [OF q] by blast
qed

section \<open>Representation\<close>

text \<open>\<open>ks\<close> are the keys of the nodes, oldest access first; every count is the number of nodes.\<close>

definition rep :: "('k, 'v) lru \<Rightarrow> nat list \<Rightarrow> 'k list \<Rightarrow> bool" where
  "rep st as ks \<longleftrightarrow> queue_at (queue st) as \<and> map (node_key st) as = map Some ks \<and>
     2 \<le> fresh st \<and> (\<forall>a \<in> set as. a < fresh st) \<and>
     (\<forall>k. case underly st k of None \<Rightarrow> k \<notin> set ks | Some (v, c) \<Rightarrow> c = count_list ks k \<and> 0 < c)"

definition vals_of :: "('k, 'v) lru \<Rightarrow> 'k \<Rightarrow> 'v option" where
  "vals_of st k = map_option fst (underly st k)"

lemma vals_of_size [simp]: "vals_of (st\<lparr>current_size := n\<rparr>) = vals_of st"
  by (rule ext) (simp add: vals_of_def)

lemma rep_touch:
  assumes q: "queue_at (queue st) as" "map (node_key st) as = map Some ks"
      "2 \<le> fresh st" "\<forall>a \<in> set as. a < fresh st"
    and u: "underly st k = Some (v, count_list ks k)"
      "\<And>k'. k' \<noteq> k \<Longrightarrow> case underly st k' of None \<Rightarrow> k' \<notin> set ks
        | Some (v, c) \<Rightarrow> c = count_list ks k' \<and> 0 < c"
  shows "\<exists>st' as'. touch st k = Some st' \<and> rep st' as' (ks @ [k]) \<and> vals_of st' = vals_of st \<and>
    max_size st' = max_size st \<and> current_size st' = current_size st"
proof -
  let ?a = "fresh st"
  let ?q = "(queue st)\<lparr>nxt := (nxt (queue st))(?a \<mapsto> 0)\<rparr>"
  have a: "?a \<notin> set (0 # 1 # as)" using q by auto
  have "links ((nxt (queue st))(?a \<mapsto> 0)) 1 as"
    using q(1) links_upd [of ?a 1 as] a by (simp add: queue_at_def)
  then have qa: "queue_at ?q as" using q(1) by (simp add: queue_at_def)
  let ?q' = "(set_next ?q (tail ?q) ?a)\<lparr>tail := ?a\<rparr>"
  have q': "queue_at ?q' (as @ [?a])" by (rule queue_at_push [OF qa a]) simp
  define st' where "st' = st\<lparr>queue := ?q', node_key := (node_key st)(?a \<mapsto> k), fresh := ?a + 1,
    underly := (underly st)(k \<mapsto> (v, count_list ks k + 1))\<rparr>"
  have "touch st k = Some st'"
    using u(1) PutTail_spec [OF qa, of ?a] by (simp add: touch_def st'_def Let_def)
  moreover have "rep st' (as @ [?a]) (ks @ [k])"
    unfolding rep_def
  proof (intro conjI allI)
    show "map (node_key st') (as @ [?a]) = map Some (ks @ [k])"
      using q(2) a by (simp add: st'_def map_upd_triv [symmetric])
    show "case underly st' k' of None \<Rightarrow> k' \<notin> set (ks @ [k])
        | Some (v, c) \<Rightarrow> c = count_list (ks @ [k]) k' \<and> 0 < c" for k'
      using u(2) [of k'] by (auto simp: st'_def split: option.splits)
  qed (use q q' in \<open>auto simp: st'_def\<close>)
  moreover have "vals_of st' = vals_of st" using u(1) by (auto simp: vals_of_def st'_def)
  ultimately show ?thesis by (force simp: st'_def)
qed

text \<open>The keys that remain after an eviction.\<close>

fun evict :: "'k list \<Rightarrow> 'k list" where
  "evict [] = []"
| "evict (k # ks) = (if k \<in> set ks then evict ks else ks)"

lemma remdups_evict: "remdups (evict ks) = tl (remdups ks)"
  by (induction ks) auto

lemma remdups_snoc: "remdups (ks @ [k]) = filter (\<lambda>x. x \<noteq> k) (remdups ks) @ [k]"
  by (induction ks) auto

lemma remdups_snoc_new: "k \<notin> set ks \<Longrightarrow> remdups (ks @ [k]) = remdups ks @ [k]"
  by (induction ks) auto

lemma PopHead_rep:
  "rep st as ks \<Longrightarrow> \<exists>st' as'. PopHead st = Some st' \<and> rep st' as' (evict ks) \<and>
    vals_of st' = (if ks = [] then vals_of st else (vals_of st)(hd (remdups ks) := None)) \<and>
    max_size st' = max_size st \<and> current_size st' = current_size st"
proof (induction ks arbitrary: st as)
  case Nil
  then have "as = []" by (simp add: rep_def)
  moreover from this Nil have "unlink_head (queue st) = Some (None, queue st)"
    by (simp add: unlink_head_def rep_def queue_at_def)
  ultimately show ?case using Nil by (auto simp: PopHead.simps [of st])
next
  case (Cons k ks)
  obtain b bs where as: "as = b # bs" using Cons(2) by (cases as) (auto simp: rep_def)
  have q: "queue_at (queue st) (b # bs)" "node_key st b = Some k" "map (node_key st) bs = map Some ks"
      "2 \<le> fresh st" "\<forall>a \<in> set as. a < fresh st"
    using Cons(2) as by (auto simp: rep_def)
  have u: "case underly st k' of None \<Rightarrow> k' \<notin> set (k # ks)
      | Some (v, c) \<Rightarrow> c = count_list (k # ks) k' \<and> 0 < c" for k'
    using Cons(2) by (simp add: rep_def)
  obtain v where v: "underly st k = Some (v, count_list ks k + 1)"
    using u [of k] by (auto split: option.splits)
  obtain q' where q': "unlink_head (queue st) = Some (Some b, q')" "queue_at q' bs"
    using cq.deq_first [OF q(1)] by blast
  have b: "b \<notin> set (1 # bs)" using q(1) by (auto simp: queue_at_def)
  let ?c = "count_list ks k"
  define u' where "u' = (if ?c = 0 then (underly st)(k := None) else (underly st)(k \<mapsto> (v, ?c)))"
  define st1 where "st1 = delete_node (st\<lparr>queue := q', underly := u'\<rparr>) b"
  have pop: "PopHead st = (if ?c = 0 then Some st1 else PopHead st1)"
    using q'(1) q(2) v by (simp add: PopHead.simps [of st] st1_def u'_def)
  have "links ((nxt q')(b := None)) 1 bs"
    using q'(2) links_upd [of b 1 bs] b by (simp add: queue_at_def)
  then have q1: "queue_at (queue st1) bs" using q'(2) by (simp add: queue_at_def st1_def delete_node_def)
  have k1: "map (node_key st1) bs = map Some ks"
    using q(3) b by (simp add: st1_def delete_node_def)
  have r1: "rep st1 bs ks"
    unfolding rep_def
  proof (intro conjI allI)
    show "case underly st1 k' of None \<Rightarrow> k' \<notin> set ks | Some (v, c) \<Rightarrow> c = count_list ks k' \<and> 0 < c" for k'
      using u [of k'] count_list_0_iff [of ks k]
      by (cases "?c = 0") (auto simp: st1_def delete_node_def u'_def split: option.splits)
  qed (use q q1 k1 as in \<open>auto simp: st1_def delete_node_def\<close>)
  show ?case
  proof (cases "k \<in> set ks")
    case False
    then have "?c = 0" by (simp add: count_list_0_iff)
    moreover have "vals_of st1 = (vals_of st)(k := None)" using \<open>?c = 0\<close>
      by (auto simp: vals_of_def st1_def delete_node_def u'_def)
    ultimately show ?thesis using pop r1 False by (auto simp: st1_def delete_node_def)
  next
    case True
    then have c: "?c \<noteq> 0" by (simp add: count_list_0_iff)
    then have "vals_of st1 = vals_of st" using v
      by (auto simp: vals_of_def st1_def delete_node_def u'_def)
    moreover have "ks \<noteq> []" using True by auto
    ultimately show ?thesis using Cons(1) [OF r1] pop c True by (auto simp: st1_def delete_node_def)
  qed
qed

section \<open>The abstract cache\<close>

text \<open>The keys, least recently used first, and their values.\<close>

type_synonym ('k, 'v) cache = "'k list \<times> ('k \<Rightarrow> 'v option)"

definition spec_get :: "('k, 'v) cache \<Rightarrow> 'k \<Rightarrow> 'v option \<times> ('k, 'v) cache" where
  "spec_get c k = (case c of (order, m) \<Rightarrow>
     (m k, if m k = None then c else (filter (\<lambda>x. x \<noteq> k) order @ [k], m)))"

definition spec_put :: "nat \<Rightarrow> ('k, 'v) cache \<Rightarrow> 'k \<Rightarrow> 'v \<Rightarrow> bool \<times> ('k, 'v) cache" where
  "spec_put cap c k v = (case c of (order, m) \<Rightarrow>
     if m k \<noteq> None then (False, c)
     else if length order = cap
       then (True, tl (order @ [k]), (m(k \<mapsto> v))(hd (order @ [k]) := None))
       else (True, order @ [k], m(k \<mapsto> v)))"

text \<open>The cache in memory stands for an abstract cache of capacity \<open>cap\<close>.\<close>

definition stands_for :: "nat \<Rightarrow> ('k, 'v) lru \<Rightarrow> ('k, 'v) cache \<Rightarrow> bool" where
  "stands_for cap st c \<longleftrightarrow> (\<exists>as ks. rep st as ks \<and> c = (remdups ks, vals_of st) \<and> max_size st = cap \<and>
     current_size st = length (remdups ks) \<and> length (remdups ks) \<le> cap)"

lemma stands_for_new: "stands_for cap (LRUCache cap) ([], \<lambda>_. None)"
  unfolding stands_for_def
  by (rule exI [of _ "[]"], rule exI [of _ "[]"])
    (auto simp: rep_def LRUCache_def queue_at_def vals_of_def)

lemma rep_underly_None: "rep st as ks \<Longrightarrow> underly st k = None \<Longrightarrow> k \<notin> set ks"
  by (auto simp: rep_def split: option.splits dest: spec [of _ k])

lemma rep_underly_Some:
  "rep st as ks \<Longrightarrow> underly st k = Some (v, c) \<Longrightarrow> k \<in> set ks \<and> c = count_list ks k"
  by (auto simp: rep_def count_list_0_iff split: option.splits dest!: spec [of _ k])

lemma Get_refines:
  assumes "stands_for cap st c"
  shows "\<exists>st'. Get st k = Some (fst (spec_get c k), st') \<and> stands_for cap st' (snd (spec_get c k))"
proof -
  obtain as ks where r: "rep st as ks" "c = (remdups ks, vals_of st)" "max_size st = cap"
      "current_size st = length (remdups ks)" "length (remdups ks) \<le> cap"
    using assms by (auto simp: stands_for_def)
  show ?thesis
  proof (cases "underly st k")
    case None
    then show ?thesis using assms r(2) by (simp add: Get_def spec_get_def vals_of_def)
  next
    case (Some vc)
    then obtain v where v: "underly st k = Some (v, count_list ks k)" "k \<in> set ks"
      using rep_underly_Some [OF r(1)] by (cases vc) auto
    obtain st' as' where st': "touch st k = Some st'" "rep st' as' (ks @ [k])" "vals_of st' = vals_of st"
        "max_size st' = max_size st" "current_size st' = current_size st"
      using rep_touch [of st as ks k v] r(1) v(1) by (auto simp: rep_def)
    have len: "length (remdups (ks @ [k])) = length (remdups ks)"
      using v(2) by (simp add: length_remdups_card_conv insert_absorb)
    have "stands_for cap st' (remdups (ks @ [k]), vals_of st)"
      unfolding stands_for_def
      by (rule exI [of _ as'], rule exI [of _ "ks @ [k]"]) (use st' r len in simp)
    then show ?thesis using st'(1) v r(2) by (simp add: Get_def spec_get_def vals_of_def remdups_snoc)
  qed
qed

lemma Put_refines:
  assumes "stands_for cap st c"
  shows "\<exists>st'. Put st k v = Some (fst (spec_put cap c k v), st') \<and>
    stands_for cap st' (snd (spec_put cap c k v))"
proof -
  obtain as ks where r: "rep st as ks" "c = (remdups ks, vals_of st)" "max_size st = cap"
      "current_size st = length (remdups ks)" "length (remdups ks) \<le> cap"
    using assms by (auto simp: stands_for_def)
  show ?thesis
  proof (cases "underly st k")
    case (Some vc)
    then show ?thesis using assms r(2) by (simp add: Put_def spec_put_def vals_of_def)
  next
    case None
    then have k: "k \<notin> set ks" by (rule rep_underly_None [OF r(1)])
    let ?st = "st\<lparr>underly := (underly st)(k \<mapsto> (v, 0))\<rparr>"
    obtain st1 as1 where st1: "touch ?st k = Some st1" "rep st1 as1 (ks @ [k])" "vals_of st1 = vals_of ?st"
        "max_size st1 = max_size st" "current_size st1 = current_size st"
      using rep_touch [of ?st as ks k v] r(1) k by (auto simp: rep_def count_list_0_iff)
    have vals: "vals_of ?st = (vals_of st)(k \<mapsto> v)" by (rule ext) (simp add: vals_of_def)
    have rd: "remdups (ks @ [k]) = remdups ks @ [k]" using k by (rule remdups_snoc_new)
    have nk: "vals_of st k = None" using None by (simp add: vals_of_def)
    show ?thesis
    proof (cases "length (remdups ks) = cap")
      case True
      obtain st2 as2 where st2: "PopHead st1 = Some st2" "rep st2 as2 (evict (ks @ [k]))"
          "vals_of st2 = (vals_of st1)(hd (remdups (ks @ [k])) := None)"
          "max_size st2 = max_size st1" "current_size st2 = current_size st1"
        using PopHead_rep [OF st1(2)] by auto
      have rd2: "remdups (evict (ks @ [k])) = tl (remdups ks @ [k])" by (simp add: remdups_evict rd)
      moreover have "stands_for cap st2 (remdups (evict (ks @ [k])), vals_of st2)"
        unfolding stands_for_def
        by (rule exI [of _ as2], rule exI [of _ "evict (ks @ [k])"])
          (use st2 st1 r True in \<open>simp add: rd2\<close>)
      ultimately show ?thesis using None True st1 st2 r nk vals
        by (simp add: Put_def spec_put_def rd)
    next
      case False
      have "stands_for cap (st1\<lparr>current_size := current_size st1 + 1\<rparr>) (remdups ks @ [k], vals_of st1)"
        unfolding stands_for_def
        by (rule exI [of _ as1], rule exI [of _ "ks @ [k]"])
          (use st1 r False in \<open>auto simp: rd rep_def\<close>)
      then show ?thesis using None False st1 r nk vals by (simp add: Put_def spec_put_def)
    qed
  qed
qed

text \<open>Any sequence of operations.\<close>

datatype ('k, 'v) op = GetOp 'k | PutOp 'k 'v

datatype 'v result = Got "'v option" | Stored bool

fun run_ops :: "('k, 'v) lru \<Rightarrow> ('k, 'v) op list \<Rightarrow> 'v result list option" where
  "run_ops st [] = Some []"
| "run_ops st (GetOp k # ops) = do {
     (r, st') \<leftarrow> Get st k; rs \<leftarrow> run_ops st' ops; Some (Got r # rs) }"
| "run_ops st (PutOp k v # ops) = do {
     (r, st') \<leftarrow> Put st k v; rs \<leftarrow> run_ops st' ops; Some (Stored r # rs) }"

fun run_spec :: "nat \<Rightarrow> ('k, 'v) cache \<Rightarrow> ('k, 'v) op list \<Rightarrow> 'v result list" where
  "run_spec cap c [] = []"
| "run_spec cap c (GetOp k # ops) = Got (fst (spec_get c k)) # run_spec cap (snd (spec_get c k)) ops"
| "run_spec cap c (PutOp k v # ops) =
     Stored (fst (spec_put cap c k v)) # run_spec cap (snd (spec_put cap c k v)) ops"

lemma run_refines: "stands_for cap st c \<Longrightarrow> run_ops st ops = Some (run_spec cap c ops)"
proof (induction cap c ops arbitrary: st rule: run_spec.induct)
  case (2 cap c k ops)
  then show ?case using Get_refines [OF 2(2), of k] by auto
next
  case (3 cap c k v ops)
  then show ?case using Put_refines [OF 3(2), of k v] by auto
qed simp

section \<open>Properties\<close>


text \<open>A \<open>Put\<close> of a new key into a full cache evicts exactly the key whose last access is the
  oldest, stores the new one as the most recent and keeps the number of entries; a \<open>Put\<close> of a
  present key returns \<open>false\<close> and neither replaces the value nor counts as an access.\<close>

theorem Put_evicts_oldest:
  assumes "stands_for cap st (order, m)"
  shows "\<exists>st'. (m k = None \<longrightarrow> length order = cap \<longrightarrow> order \<noteq> [] \<longrightarrow> Put st k v = Some (True, st') \<and>
      stands_for cap st' (tl order @ [k], (m(k \<mapsto> v))(hd order := None))) \<and>
    (m k \<noteq> None \<longrightarrow> Put st k v = Some (False, st))"
proof -
  obtain st' where st': "Put st k v = Some (fst (spec_put cap (order, m) k v), st')"
      "stands_for cap st' (snd (spec_put cap (order, m) k v))"
    using Put_refines [OF assms] by blast
  have "m k \<noteq> None \<Longrightarrow> Put st k v = Some (False, st)"
    using assms by (auto simp: Put_def stands_for_def vals_of_def)
  then show ?thesis using st' by (intro exI [of _ st']) (auto simp: spec_put_def)
qed

lemma Put_evicts_oldest_witness:
  "\<exists>st'. Put \<lparr>underly = [5 \<mapsto> (60, 1)], queue = \<lparr>nxt = [1 \<mapsto> 2, 2 \<mapsto> 0], tail = 2\<rparr>,
      node_key = [2 \<mapsto> 5], fresh = 3, max_size = 1, current_size = 1\<rparr> 7 (80 :: nat) = Some (True, st') \<and>
    stands_for 1 st' ([7 :: nat], [7 \<mapsto> 80])"
proof -
  let ?st = "\<lparr>underly = [5 \<mapsto> (60, 1)], queue = \<lparr>nxt = [1 \<mapsto> 2, 2 \<mapsto> 0], tail = 2\<rparr>,
    node_key = [2 \<mapsto> 5], fresh = 3, max_size = 1, current_size = 1\<rparr> :: (nat, nat) lru"
  have "vals_of ?st = [5 \<mapsto> 60]" by (auto simp: vals_of_def)
  then have "stands_for 1 ?st ([5], [5 \<mapsto> 60])"
    unfolding stands_for_def
    by (intro exI [of _ "[2]"] exI [of _ "[5]"]) (auto simp: rep_def queue_at_def)
  from Put_evicts_oldest [OF this, of 7 80] show ?thesis
    by (auto simp: fun_upd_twist)
qed

end
