(* ===== verification/Transition.thy ===== *)
theory Transition
  imports Main
begin

text \<open>
  State machines: reachability of a step relation, and the contract of an inductive invariant,
  which the concurrent components instantiate with their own steps.
\<close>

inductive reach :: "('s \<Rightarrow> bool) \<Rightarrow> ('s \<Rightarrow> 's \<Rightarrow> bool) \<Rightarrow> 's \<Rightarrow> bool" for ini stp where
  start: "ini s \<Longrightarrow> reach ini stp s"
| move: "reach ini stp s \<Longrightarrow> stp s s' \<Longrightarrow> reach ini stp s'"

lemma reach_here: "reach ((=) s) stp s"
  by (rule reach.start) (rule refl)

lemma reach_to: "reach ini stp s \<Longrightarrow> stp s s' \<Longrightarrow> s' = s'' \<Longrightarrow> reach ini stp s''"
  by (auto intro: reach.move)

lemma reach_trans: "reach ini stp s \<Longrightarrow> reach ((=) s) stp s' \<Longrightarrow> reach ini stp s'"
  by (rotate_tac, induction rule: reach.induct) (auto intro: reach.move)

locale invariant_of =
  fixes ini :: "'s \<Rightarrow> bool"
    and stp :: "'s \<Rightarrow> 's \<Rightarrow> bool"
    and inv :: "'s \<Rightarrow> bool"
  assumes begins: "ini s \<Longrightarrow> inv s"
    and keeps: "inv s \<Longrightarrow> stp s s' \<Longrightarrow> inv s'"
begin

lemma holds: "reach ini stp s \<Longrightarrow> inv s"
  by (induction rule: reach.induct) (auto intro: begins keeps)

lemma holds_from: "inv s \<Longrightarrow> reach ((=) s) stp s' \<Longrightarrow> inv s'"
  by (rotate_tac, induction rule: reach.induct) (auto intro: keeps)

end

section \<open>Simulation\<close>

text \<open>
  A sequence of operations on an implementation that may fail and on its specification, and the
  contract of a simulation between the two.
\<close>

fun run_calls :: "('s \<Rightarrow> 'op \<Rightarrow> ('r \<times> 's) option) \<Rightarrow> 's \<Rightarrow> 'op list \<Rightarrow> ('r list \<times> 's) option" where
  "run_calls call s [] = Some ([], s)"
| "run_calls call s (op # ops) = (case call s op of
     None \<Rightarrow> None
   | Some (r, s') \<Rightarrow> map_option (\<lambda>(rs, s''). (r # rs, s'')) (run_calls call s' ops))"

fun run_model :: "('a \<Rightarrow> 'op \<Rightarrow> 'r \<times> 'a) \<Rightarrow> 'a \<Rightarrow> 'op list \<Rightarrow> 'r list \<times> 'a" where
  "run_model spec a [] = ([], a)"
| "run_model spec a (op # ops) = (case spec a op of
     (r, a') \<Rightarrow> (case run_model spec a' ops of (rs, a'') \<Rightarrow> (r # rs, a'')))"

locale simulates =
  fixes ok :: "'op \<Rightarrow> bool"
    and R :: "'s \<Rightarrow> 'a \<Rightarrow> bool"
    and call :: "'s \<Rightarrow> 'op \<Rightarrow> ('r \<times> 's) option"
    and spec :: "'a \<Rightarrow> 'op \<Rightarrow> 'r \<times> 'a"
  assumes one: "R s a \<Longrightarrow> ok op \<Longrightarrow> \<exists>s'. call s op = Some (fst (spec a op), s') \<and> R s' (snd (spec a op))"
begin

lemma all: "R s a \<Longrightarrow> list_all ok ops \<Longrightarrow>
  \<exists>s'. run_calls call s ops = Some (fst (run_model spec a ops), s') \<and> R s' (snd (run_model spec a ops))"
proof (induction ops arbitrary: s a)
  case (Cons op ops)
  obtain s1 where s1: "call s op = Some (fst (spec a op), s1)" "R s1 (snd (spec a op))"
    using one [OF Cons(2)] Cons(3) by auto
  then obtain s2 where "run_calls call s1 ops = Some (fst (run_model spec (snd (spec a op)) ops), s2)"
      "R s2 (snd (run_model spec (snd (spec a op)) ops))"
    using Cons(1) [OF s1(2)] Cons(3) by auto
  then show ?case using s1 by (simp add: split_beta)
qed simp

end

end
