(* ===== verification/Rw_Lock.thy ===== *)
theory Rw_Lock
  imports Transition "HOL-Library.Word"
begin

unbundle bit_operations_syntax

text \<open>
  \<open>c++/utils/cache/rwlock.h\<close> and \<open>c++/utils/cache/spinlock.h\<close>: locks made of atomic variables,
  as step relations over any number of threads.  A step is one atomic operation of one thread, in
  any interleaving; the value a thread has loaded into \<open>cnt\<close> is kept in its program counter.
  \<open>compare_exchange_weak\<close> may fail at any time, \<open>compare_exchange_strong\<close> only when the values
  differ.  Each atomic variable is taken to be sequentially consistent, which is more than the
  \<open>memory_order_relaxed\<close> of \<open>w_\<close> promises.
\<close>

section \<open>Definitions\<close>

subsection \<open>The spin lock\<close>

datatype spin_pc = SOut | SLock | STry | SHeld

record spin =
  m :: bool
  spc :: "nat \<Rightarrow> spin_pc"

definition SpinMutex :: spin where
  "SpinMutex = \<lparr>m = False, spc = \<lambda>_. SOut\<rparr>"

definition spin_at :: "spin \<Rightarrow> nat \<Rightarrow> bool \<Rightarrow> spin_pc \<Rightarrow> spin" where
  "spin_at s t v p = s\<lparr>m := v, spc := (spc s)(t := p)\<rparr>"

inductive spin_step :: "spin \<Rightarrow> spin \<Rightarrow> bool" where
  call_lock: "spc s t = SOut \<Longrightarrow> spin_step s (spin_at s t (m s) SLock)"
| call_try_lock: "spc s t = SOut \<Longrightarrow> spin_step s (spin_at s t (m s) STry)"
| lock: "spc s t = SLock \<Longrightarrow> spin_step s (spin_at s t True (if m s then SLock else SHeld))"
| try_lock: "spc s t = STry \<Longrightarrow> spin_step s (spin_at s t True (if m s then SOut else SHeld))"
| unlock: "spc s t = SHeld \<Longrightarrow> spin_step s (spin_at s t False SOut)"

subsection \<open>The readers-writer lock\<close>

datatype pc =
    Out
  | RLoad | RCas "32 word" | TRLoad | TRCas "32 word" | Reading
  | WFlag | WLoad | WCas "32 word" | TWFlag | TWLoad | TWCas "32 word" | WWait | Writing | WClear

record contention =
  l :: "32 word"
  w :: bool
  at :: "nat \<Rightarrow> pc"

definition LockFreeRWContention :: contention where
  "LockFreeRWContention = \<lparr>l = 0, w = False, at = \<lambda>_. Out\<rparr>"

text \<open>\<open>ReadLock\<close> and \<open>WriteLock\<close> forward their calls.\<close>

datatype rw_call = ReadLock_lock | ReadLock_try_lock | WriteLock_lock | WriteLock_try_lock

fun entry :: "rw_call \<Rightarrow> pc" where
  "entry ReadLock_lock = RLoad"
| "entry ReadLock_try_lock = TRLoad"
| "entry WriteLock_lock = WFlag"
| "entry WriteLock_try_lock = TWFlag"

definition goto :: "contention \<Rightarrow> nat \<Rightarrow> pc \<Rightarrow> contention" where
  "goto s t p = s\<lparr>at := (at s)(t := p)\<rparr>"

inductive Read_step :: "nat \<Rightarrow> contention \<Rightarrow> contention \<Rightarrow> bool" for t where
  load: "at s t = RLoad \<Longrightarrow> Read_step t s (goto s t (if sint (l s) < 0 then RLoad else RCas (l s)))"
| cas: "at s t = RCas cnt \<Longrightarrow> l s = cnt \<Longrightarrow> Read_step t s (goto (s\<lparr>l := cnt + 1\<rparr>) t Reading)"
| cas_fails: "at s t = RCas cnt \<Longrightarrow> Read_step t s (goto s t RLoad)"

inductive TryRead_step :: "nat \<Rightarrow> contention \<Rightarrow> contention \<Rightarrow> bool" for t where
  load: "at s t = TRLoad \<Longrightarrow>
    TryRead_step t s (goto s t (if sint (l s) < 0 then Out else TRCas (l s)))"
| cas: "at s t = TRCas cnt \<Longrightarrow> l s = cnt \<Longrightarrow> TryRead_step t s (goto (s\<lparr>l := cnt + 1\<rparr>) t Reading)"
| cas_fails: "at s t = TRCas cnt \<Longrightarrow> l s \<noteq> cnt \<Longrightarrow> TryRead_step t s (goto s t Out)"

inductive DoneRead_step :: "nat \<Rightarrow> contention \<Rightarrow> contention \<Rightarrow> bool" for t where
  "at s t = Reading \<Longrightarrow> DoneRead_step t s (goto (s\<lparr>l := l s - 1\<rparr>) t Out)"

inductive Write_step :: "nat \<Rightarrow> contention \<Rightarrow> contention \<Rightarrow> bool" for t where
  flag: "at s t = WFlag \<Longrightarrow> Write_step t s (goto (s\<lparr>w := True\<rparr>) t (if w s then WFlag else WLoad))"
| load: "at s t = WLoad \<Longrightarrow> Write_step t s (goto s t (WCas (l s)))"
| cas: "at s t = WCas cnt \<Longrightarrow> l s = cnt \<Longrightarrow>
    Write_step t s (goto (s\<lparr>l := cnt OR 0x80000000\<rparr>) t WWait)"
| cas_fails: "at s t = WCas cnt \<Longrightarrow> Write_step t s (goto s t (WCas (l s)))"
| wait: "at s t = WWait \<Longrightarrow> Write_step t s (goto s t (if l s > 0x80000000 then WWait else Writing))"

inductive TryWrite_step :: "nat \<Rightarrow> contention \<Rightarrow> contention \<Rightarrow> bool" for t where
  flag: "at s t = TWFlag \<Longrightarrow>
    TryWrite_step t s (goto (s\<lparr>w := True\<rparr>) t (if w s then Out else TWLoad))"
| load: "at s t = TWLoad \<Longrightarrow> TryWrite_step t s (goto s t (TWCas (l s)))"
| cas: "at s t = TWCas cnt \<Longrightarrow> l s = cnt \<Longrightarrow>
    TryWrite_step t s (goto (s\<lparr>l := cnt OR 0x80000000\<rparr>) t WWait)"
| cas_fails: "at s t = TWCas cnt \<Longrightarrow> l s \<noteq> cnt \<Longrightarrow> TryWrite_step t s (goto s t Out)"

inductive DoneWrite_step :: "nat \<Rightarrow> contention \<Rightarrow> contention \<Rightarrow> bool" for t where
  store: "at s t = Writing \<Longrightarrow> DoneWrite_step t s (goto (s\<lparr>l := 0\<rparr>) t WClear)"
| clear: "at s t = WClear \<Longrightarrow> DoneWrite_step t s (goto (s\<lparr>w := False\<rparr>) t Out)"

text \<open>\<open>n\<close> threads.\<close>

inductive rw_step :: "nat \<Rightarrow> contention \<Rightarrow> contention \<Rightarrow> bool" for n where
  call: "t < n \<Longrightarrow> at s t = Out \<Longrightarrow> rw_step n s (goto s t (entry c))"
| Read: "t < n \<Longrightarrow> Read_step t s s' \<Longrightarrow> rw_step n s s'"
| TryRead: "t < n \<Longrightarrow> TryRead_step t s s' \<Longrightarrow> rw_step n s s'"
| DoneRead: "t < n \<Longrightarrow> DoneRead_step t s s' \<Longrightarrow> rw_step n s s'"
| Write: "t < n \<Longrightarrow> Write_step t s s' \<Longrightarrow> rw_step n s s'"
| TryWrite: "t < n \<Longrightarrow> TryWrite_step t s s' \<Longrightarrow> rw_step n s s'"
| DoneWrite: "t < n \<Longrightarrow> DoneWrite_step t s s' \<Longrightarrow> rw_step n s s'"

section \<open>The spin lock excludes\<close>

definition spin_inv :: "spin \<Rightarrow> bool" where
  "spin_inv s \<longleftrightarrow> (if m s then \<exists>t. \<forall>u. spc s u = SHeld \<longleftrightarrow> u = t else \<forall>u. spc s u \<noteq> SHeld)"

interpretation sm: invariant_of "(=) SpinMutex" spin_step spin_inv
proof
  show "(=) SpinMutex s \<Longrightarrow> spin_inv s" for s by (auto simp: SpinMutex_def spin_inv_def)
  show "spin_inv s'" if "spin_inv s" "spin_step s s'" for s s'
    using that(2,1)
  proof cases
    case (call_lock t)
    then show ?thesis using that(1) by (cases "m s") (auto simp: spin_inv_def spin_at_def, metis spin_pc.distinct)
  next
    case (call_try_lock t)
    then show ?thesis using that(1) by (cases "m s") (auto simp: spin_inv_def spin_at_def, metis spin_pc.distinct)
  next
    case (lock t)
    then show ?thesis using that(1) by (cases "m s") (auto simp: spin_inv_def spin_at_def, metis spin_pc.distinct)
  next
    case (try_lock t)
    then show ?thesis using that(1) by (cases "m s") (auto simp: spin_inv_def spin_at_def, metis spin_pc.distinct)
  next
    case (unlock t)
    then show ?thesis using that(1) by (cases "m s") (auto simp: spin_inv_def spin_at_def)
  qed
qed

section \<open>The invariant of the readers-writer lock\<close>

fun inW :: "pc \<Rightarrow> bool" where
  "inW WLoad \<longleftrightarrow> True"
| "inW (WCas _) \<longleftrightarrow> True"
| "inW TWLoad \<longleftrightarrow> True"
| "inW (TWCas _) \<longleftrightarrow> True"
| "inW WWait \<longleftrightarrow> True"
| "inW Writing \<longleftrightarrow> True"
| "inW WClear \<longleftrightarrow> True"
| "inW _ \<longleftrightarrow> False"

definition flagged :: "contention \<Rightarrow> bool" where
  "flagged s \<longleftrightarrow> (\<exists>t. at s t = WWait \<or> at s t = Writing)"

definition readers :: "contention \<Rightarrow> nat set" where
  "readers s = {t. at s t = Reading}"

text \<open>\<open>l_\<close> counts the readers in its low bits; its sign bit is the flag of the writer.\<close>

definition rw_inv :: "nat \<Rightarrow> contention \<Rightarrow> bool" where
  "rw_inv n s \<longleftrightarrow> n < 2 ^ 31 \<and> (\<forall>t \<ge> n. at s t = Out) \<and>
     (\<forall>t u. inW (at s t) \<longrightarrow> inW (at s u) \<longrightarrow> t = u) \<and> (\<forall>t. inW (at s t) \<longrightarrow> w s) \<and>
     unat (l s) = card (readers s) + (if flagged s then 2 ^ 31 else 0) \<and>
     (\<forall>t. at s t = Writing \<longrightarrow> readers s = {}) \<and>
     (\<forall>t c. at s t = RCas c \<or> at s t = TRCas c \<longrightarrow> unat c < 2 ^ 31)"

lemma rw_invD:
  assumes "rw_inv n s"
  shows "n < 2 ^ 31" "n \<le> t \<Longrightarrow> at s t = Out" "inW (at s t) \<Longrightarrow> inW (at s u) \<Longrightarrow> t = u"
    "inW (at s t) \<Longrightarrow> w s" "unat (l s) = card (readers s) + (if flagged s then 2 ^ 31 else 0)"
    "at s t = Writing \<Longrightarrow> readers s = {}"
    "at s t = RCas c \<or> at s t = TRCas c \<Longrightarrow> unat c < 2 ^ 31"
  using assms unfolding rw_inv_def by blast+

lemma goto_sel [simp]:
  "l (goto s t p) = l s" "w (goto s t p) = w s" "at (goto s t p) = (at s)(t := p)"
  by (simp_all add: goto_def)

lemma readers_goto [simp]:
  "readers (goto s t p) = (if p = Reading then insert t (readers s) else readers s - {t})"
  by (auto simp: readers_def)

lemma readers_l [simp]: "readers (s\<lparr>l := v\<rparr>) = readers s" "readers (s\<lparr>w := b\<rparr>) = readers s"
  by (simp_all add: readers_def)

lemma flagged_l [simp]: "flagged (s\<lparr>l := v\<rparr>) = flagged s" "flagged (s\<lparr>w := b\<rparr>) = flagged s"
  by (simp_all add: flagged_def)

lemma readers_bound: "rw_inv n s \<Longrightarrow> readers s \<subseteq> {..<n}"
  using rw_invD(2) by (force simp: readers_def not_le [symmetric])

lemma card_readers: "rw_inv n s \<Longrightarrow> finite (readers s) \<and> card (readers s) \<le> n"
  using finite_subset [OF readers_bound] card_mono [OF _ readers_bound] by fastforce

lemma flagged_goto:
  assumes "rw_inv n s"
  shows "flagged (goto s t p) \<longleftrightarrow>
    p = WWait \<or> p = Writing \<or> (flagged s \<and> \<not> inW (at s t))"
proof -
  define Q where "Q v \<longleftrightarrow> at s v = WWait \<or> at s v = Writing" for v
  have f: "flagged (goto s t p) \<longleftrightarrow> p = WWait \<or> p = Writing \<or> (\<exists>v. v \<noteq> t \<and> Q v)"
    by (auto simp: flagged_def Q_def)
  have q: "flagged s \<longleftrightarrow> (\<exists>v. Q v)" by (simp add: flagged_def Q_def)
  have W: "Q u \<Longrightarrow> inW (at s u)" for u by (auto simp: Q_def)
  have "Q v \<Longrightarrow> inW (at s u) \<Longrightarrow> u = v" for u v using rw_invD(3) [OF assms] W by blast
  then have "(\<exists>v. v \<noteq> t \<and> Q v) \<longleftrightarrow> flagged s \<and> \<not> inW (at s t)" using W q by metis
  then show ?thesis using f by simp
qed

lemma flagged_owner:
  assumes "rw_inv n s" "inW (at s t)"
  shows "flagged s \<longleftrightarrow> at s t = WWait \<or> at s t = Writing"
proof
  assume "flagged s"
  then obtain u where u: "at s u = WWait \<or> at s u = Writing" by (auto simp: flagged_def)
  then have "inW (at s u)" by auto
  then have "t = u" using rw_invD(3) [OF assms(1,2)] by blast
  then show "at s t = WWait \<or> at s t = Writing" using u by simp
qed (auto simp: flagged_def)

lemma rw_inv_goto:
  assumes "rw_inv n s" "t < n"
    and "inW p \<Longrightarrow> w' \<and> (inW (at s t) \<or> \<not> w s)"
    and "w s \<Longrightarrow> w' \<or> inW (at s t) \<and> \<not> inW p"
    and "unat l' = card (readers (goto s t p)) + (if flagged (goto s t p) then 2 ^ 31 else 0)"
    and "p = Writing \<Longrightarrow> readers s = {}" "p = Reading \<Longrightarrow> \<not> flagged s"
    and "\<And>c. p = RCas c \<or> p = TRCas c \<Longrightarrow> unat c < 2 ^ 31"
  shows "rw_inv n (goto (s\<lparr>l := l', w := w'\<rparr>) t p)"
proof -
  note d = rw_invD [OF assms(1)]
  let ?s = "goto (s\<lparr>l := l', w := w'\<rparr>) t p"
  have at: "at ?s u = (if u = t then p else at s u)" for u by simp
  have r: "readers ?s = readers (goto s t p)" by (simp add: readers_def goto_def)
  have 1: "at ?s u = Out" if "n \<le> u" for u using d(2) [OF that] assms(2) that by simp
  have only: "inW p \<Longrightarrow> inW (at s v) \<Longrightarrow> v = t" for v
    using d(3) [of v t] d(4) [of v] assms(3) by blast
  have 2: "u = v" if "inW (at ?s u)" "inW (at ?s v)" for u v
    using that d(3) [of u v] only unfolding at by metis
  have 3: "w ?s" if "inW (at ?s u)" for u
    using that d(3) [of t u] d(4) [of u] assms(3,4) unfolding at by (cases "u = t") auto
  have 4: "unat (l ?s) = card (readers ?s) + (if flagged ?s then 2 ^ 31 else 0)"
    using assms(5) unfolding r by (simp add: flagged_def goto_def)
  have 5: "readers ?s = {}" if "at ?s u = Writing" for u
  proof (cases "p = Reading")
    case True
    then have "u \<noteq> t" using that by auto
    then show ?thesis using that assms(7) True by (auto simp: flagged_def)
  next
    case False
    then have "readers s = {}" using that d(6) [of u] assms(6) unfolding at by (cases "u = t") auto
    then show ?thesis using False unfolding r by simp
  qed
  have 6: "unat c < 2 ^ 31" if "at ?s u = RCas c \<or> at ?s u = TRCas c" for u c
    using that d(7) [of u c] assms(8) unfolding at by (cases "u = t") auto
  show ?thesis unfolding rw_inv_def using d(1) 1 2 3 4 5 6 by blast
qed

lemma bit31: "bit (c :: 32 word) 31 \<longleftrightarrow> \<not> unat c < 2 ^ 31"
proof -
  have "unat c < 2 ^ 32" using unsigned_less [of c] by simp
  then have "unat c div 2 ^ 31 < 2" by (simp add: less_mult_imp_div_less)
  moreover have "bit c 31 \<longleftrightarrow> bit (unat c) 31" by (simp add: bit_unsigned_iff)
  then have "bit c 31 \<longleftrightarrow> odd (unat c div 2 ^ 31)" unfolding bit_iff_odd .
  moreover have "unat c div 2 ^ 31 = 0 \<longleftrightarrow> unat c < 2 ^ 31" by (auto simp: div_eq_0_iff)
  ultimately show ?thesis by (metis One_nat_def even_zero less_2_cases odd_one)
qed

lemma set_high_bit: "(a :: nat) < 2 ^ k \<Longrightarrow> a OR 2 ^ k = a + 2 ^ k"
proof -
  assume "a < 2 ^ k"
  then have "\<not> bit a k" by (simp add: bit_iff_odd)
  then have "a AND 2 ^ k = 0" by (intro bit_eqI) (auto simp: bit_and_iff bit_exp_iff)
  then show ?thesis by (rule disjunctive_add_eq_or [symmetric])
qed

lemma flag_bit: "unat c < 2 ^ 31 \<Longrightarrow> unat (c OR 0x80000000 :: 32 word) = unat c + 2 ^ 31"
  using set_high_bit [of "unat c" 31] by (simp add: unsigned_or_eq)

lemma sint_nonneg: "\<not> sint (c :: 32 word) < 0 \<longleftrightarrow> unat c < 2 ^ 31"
  using bit31 [of c] bit_last_iff [of c] by auto

lemma unat_inc: "unat (c :: 32 word) < 2 ^ 31 \<Longrightarrow> unat (c + 1) = unat c + 1"
  by (subst unat_add_lem [THEN iffD1]) simp_all

lemma unat_dec: "0 < unat (c :: 32 word) \<Longrightarrow> unat (c - 1) = unat c - 1"
  by (simp add: unat_sub word_le_nat_alt)

text \<open>A step that leaves \<open>l_\<close> and \<open>w_\<close> alone and moves between positions that nobody counts.\<close>

lemma rw_inv_move:
  assumes "rw_inv n s" "t < n" "inW p \<Longrightarrow> inW (at s t)"
    and "at s t \<noteq> Reading" "p \<noteq> Reading" "at s t \<noteq> WWait" "at s t \<noteq> Writing"
    "p \<noteq> WWait" "p \<noteq> Writing" "\<And>c. p = RCas c \<or> p = TRCas c \<Longrightarrow> unat c < 2 ^ 31"
  shows "rw_inv n (goto s t p)"
proof -
  have r: "readers (goto s t p) = readers s" using assms(4,5) by (auto simp: readers_def)
  have f: "flagged (goto s t p) = flagged s"
    unfolding flagged_goto [OF assms(1)] using flagged_owner [OF assms(1), of t] assms(6-9) by blast
  have "rw_inv n (goto (s\<lparr>l := l s, w := w s\<rparr>) t p)"
    using assms(1,2)
  proof (rule rw_inv_goto)
    show "unat (l s) = card (readers (goto s t p)) + (if flagged (goto s t p) then 2 ^ 31 else 0)"
      unfolding r f by (rule rw_invD(5) [OF assms(1)])
  qed (use assms rw_invD(4) [OF assms(1), of t] in blast)+
  then show ?thesis by simp
qed

lemma rw_inv_enter:
  assumes "rw_inv n s" "t < n" "at s t = RCas cnt \<or> at s t = TRCas cnt" "l s = cnt"
  shows "rw_inv n (goto (s\<lparr>l := cnt + 1\<rparr>) t Reading)"
proof -
  have c: "unat (l s) < 2 ^ 31" using rw_invD(7) [OF assms(1)] assms(3,4) by blast
  then have nf: "\<not> flagged s" using rw_invD(5) [OF assms(1)] by (auto split: if_splits)
  have t: "\<not> inW (at s t)" "t \<notin> readers s" using assms(3) by (auto simp: readers_def)
  have "rw_inv n (goto (s\<lparr>l := cnt + 1, w := w s\<rparr>) t Reading)"
    using assms(1,2)
  proof (rule rw_inv_goto)
    show "unat (cnt + 1) = card (readers (goto s t Reading)) +
        (if flagged (goto s t Reading) then 2 ^ 31 else 0)"
      using flagged_goto [OF assms(1), of t Reading] nf unat_inc [OF c] rw_invD(5) [OF assms(1)]
        card_readers [OF assms(1)] t assms(4) by simp
  qed (use nf in simp_all)
  then show ?thesis by simp
qed

lemma rw_inv_leave:
  assumes "rw_inv n s" "t < n" "at s t = Reading"
  shows "rw_inv n (goto (s\<lparr>l := l s - 1\<rparr>) t Out)"
proof -
  have t: "t \<in> readers s" using assms(3) by (simp add: readers_def)
  then have c: "0 < card (readers s)" using card_readers [OF assms(1)] card_gt_0_iff by blast
  have f: "flagged (goto s t Out) = flagged s"
    using flagged_goto [OF assms(1), of t Out] assms(3) by simp
  have "rw_inv n (goto (s\<lparr>l := l s - 1, w := w s\<rparr>) t Out)"
    using assms(1,2)
  proof (rule rw_inv_goto)
    show "unat (l s - 1) = card (readers (goto s t Out)) +
        (if flagged (goto s t Out) then 2 ^ 31 else 0)"
      using f c t rw_invD(5) [OF assms(1)] unat_dec [of "l s"] by (simp add: card_Diff_singleton)
  qed simp_all
  then show ?thesis by simp
qed

lemma rw_inv_take:
  assumes "rw_inv n s" "t < n" "at s t = WFlag \<or> at s t = TWFlag" "p = WLoad \<or> p = TWLoad" "\<not> w s"
  shows "rw_inv n (goto (s\<lparr>w := True\<rparr>) t p)"
proof -
  have t: "t \<notin> readers s" "\<not> inW (at s t)" using assms(3) by (auto simp: readers_def)
  have f: "flagged (goto s t p) = flagged s" "readers (goto s t p) = readers s"
    using flagged_goto [OF assms(1), of t p] assms(4) t by auto
  have "rw_inv n (goto (s\<lparr>l := l s, w := True\<rparr>) t p)"
    using assms(1,2)
  proof (rule rw_inv_goto)
    show "unat (l s) = card (readers (goto s t p)) + (if flagged (goto s t p) then 2 ^ 31 else 0)"
      unfolding f by (rule rw_invD(5) [OF assms(1)])
  qed (use assms(4,5) in auto)
  then show ?thesis by simp
qed

lemma rw_inv_flag:
  assumes "rw_inv n s" "t < n" "at s t = WCas cnt \<or> at s t = TWCas cnt" "l s = cnt"
  shows "rw_inv n (goto (s\<lparr>l := cnt OR 0x80000000\<rparr>) t WWait)"
proof -
  have t: "t \<notin> readers s" "inW (at s t)" using assms(3) by (auto simp: readers_def)
  have nf: "\<not> flagged s" using flagged_owner [OF assms(1) t(2)] assms(3) by auto
  then have c: "unat (l s) = card (readers s)" using rw_invD(5) [OF assms(1)] by simp
  then have "unat (l s) < 2 ^ 31" using card_readers [OF assms(1)] rw_invD(1) [OF assms(1)] by simp
  then have b: "unat (cnt OR 0x80000000) = card (readers s) + 2 ^ 31"
    using flag_bit [of cnt] c assms(4) by simp
  have "rw_inv n (goto (s\<lparr>l := cnt OR 0x80000000, w := w s\<rparr>) t WWait)"
    using assms(1,2)
  proof (rule rw_inv_goto)
    show "unat (cnt OR 0x80000000) = card (readers (goto s t WWait)) +
        (if flagged (goto s t WWait) then 2 ^ 31 else 0)"
      using flagged_goto [OF assms(1), of t WWait] t b by simp
  qed (use t rw_invD(4) [OF assms(1), of t] in simp_all)
  then show ?thesis by simp
qed

lemma rw_inv_got:
  assumes "rw_inv n s" "t < n" "at s t = WWait" "\<not> l s > 0x80000000"
  shows "rw_inv n (goto s t Writing)" "readers s = {}"
proof -
  have t: "t \<notin> readers s" "inW (at s t)" using assms(3) by (auto simp: readers_def)
  have f: "flagged s" using assms(3) by (auto simp: flagged_def)
  have "unat (l s) \<le> 2 ^ 31" using assms(4) by (simp add: word_less_nat_alt)
  then have "card (readers s) = 0" using rw_invD(5) [OF assms(1)] f by simp
  then show r: "readers s = {}" using card_readers [OF assms(1)] by simp
  have "rw_inv n (goto (s\<lparr>l := l s, w := w s\<rparr>) t Writing)"
    using assms(1,2)
  proof (rule rw_inv_goto)
    show "unat (l s) = card (readers (goto s t Writing)) +
        (if flagged (goto s t Writing) then 2 ^ 31 else 0)"
      using flagged_goto [OF assms(1), of t Writing] rw_invD(5) [OF assms(1)] f r by simp
  qed (use t r rw_invD(4) [OF assms(1), of t] in simp_all)
  then show "rw_inv n (goto s t Writing)" by simp
qed

lemma rw_inv_store:
  assumes "rw_inv n s" "t < n" "at s t = Writing"
  shows "rw_inv n (goto (s\<lparr>l := 0\<rparr>) t WClear)"
proof -
  have r: "readers s = {}" using rw_invD(6) [OF assms(1,3)] .
  have "rw_inv n (goto (s\<lparr>l := 0, w := w s\<rparr>) t WClear)"
    using assms(1,2)
  proof (rule rw_inv_goto)
    show "unat (0 :: 32 word) = card (readers (goto s t WClear)) +
        (if flagged (goto s t WClear) then 2 ^ 31 else 0)"
      using flagged_goto [OF assms(1), of t WClear] assms(3) r by simp
  qed (use assms(3) rw_invD(4) [OF assms(1), of t] in simp_all)
  then show ?thesis by simp
qed

lemma rw_inv_clear:
  assumes "rw_inv n s" "t < n" "at s t = WClear"
  shows "rw_inv n (goto (s\<lparr>w := False\<rparr>) t Out)"
proof -
  have t: "t \<notin> readers s" using assms(3) by (simp add: readers_def)
  have nf: "\<not> flagged s" using flagged_owner [OF assms(1), of t] assms(3) by simp
  have "rw_inv n (goto (s\<lparr>l := l s, w := False\<rparr>) t Out)"
    using assms(1,2)
  proof (rule rw_inv_goto)
    show "unat (l s) = card (readers (goto s t Out)) +
        (if flagged (goto s t Out) then 2 ^ 31 else 0)"
      using flagged_goto [OF assms(1), of t Out] rw_invD(5) [OF assms(1)] nf t by simp
  qed (use assms(3) in simp_all)
  then show ?thesis by simp
qed

text \<open>Setting \<open>w_\<close> when it is set already.\<close>

lemma goto_w_set: "w s \<Longrightarrow> goto (s\<lparr>w := True\<rparr>) t p = goto s t p"
  by (simp add: goto_def)

lemma Read_keeps: "Read_step t s s' \<Longrightarrow> rw_inv n s \<Longrightarrow> t < n \<Longrightarrow> rw_inv n s'"
proof (induction rule: Read_step.induct)
  case (load s)
  show ?case by (rule rw_inv_move [OF load(2,3)]) (use load(1) sint_nonneg [of "l s"] in \<open>auto split: if_splits\<close>)
next
  case (cas s cnt)
  then show ?case by (intro rw_inv_enter) auto
next
  case (cas_fails s cnt)
  show ?case by (rule rw_inv_move [OF cas_fails(2,3)]) (use cas_fails(1) in auto)
qed

lemma TryRead_keeps: "TryRead_step t s s' \<Longrightarrow> rw_inv n s \<Longrightarrow> t < n \<Longrightarrow> rw_inv n s'"
proof (induction rule: TryRead_step.induct)
  case (load s)
  show ?case by (rule rw_inv_move [OF load(2,3)]) (use load(1) sint_nonneg [of "l s"] in \<open>auto split: if_splits\<close>)
next
  case (cas s cnt)
  then show ?case by (intro rw_inv_enter) auto
next
  case (cas_fails s cnt)
  show ?case by (rule rw_inv_move [OF cas_fails(3,4)]) (use cas_fails(1) in auto)
qed

lemma Write_keeps: "Write_step t s s' \<Longrightarrow> rw_inv n s \<Longrightarrow> t < n \<Longrightarrow> rw_inv n s'"
proof (induction rule: Write_step.induct)
  case (flag s)
  show ?case
  proof (cases "w s")
    case True
    show ?thesis unfolding goto_w_set [OF True]
      by (rule rw_inv_move [OF flag(2,3)]) (use flag(1) True in auto)
  next
    case False
    then show ?thesis using rw_inv_take [OF flag(2,3), of WLoad] flag(1) by simp
  qed
next
  case (load s)
  show ?case by (rule rw_inv_move [OF load(2,3)]) (use load(1) in auto)
next
  case (cas s cnt)
  then show ?case by (intro rw_inv_flag) auto
next
  case (cas_fails s cnt)
  show ?case by (rule rw_inv_move [OF cas_fails(2,3)]) (use cas_fails(1) in auto)
next
  case (wait s)
  show ?case
  proof (cases "l s > 0x80000000")
    case True
    have "(at s)(t := WWait) = at s" using wait(1) by auto
    then have "goto s t WWait = s" by (simp add: goto_def)
    then show ?thesis using True wait(2) by simp
  next
    case False
    then show ?thesis using rw_inv_got(1) [OF wait(2,3,1)] by simp
  qed
qed

lemma TryWrite_keeps: "TryWrite_step t s s' \<Longrightarrow> rw_inv n s \<Longrightarrow> t < n \<Longrightarrow> rw_inv n s'"
proof (induction rule: TryWrite_step.induct)
  case (flag s)
  show ?case
  proof (cases "w s")
    case True
    show ?thesis unfolding goto_w_set [OF True]
      by (rule rw_inv_move [OF flag(2,3)]) (use flag(1) True in auto)
  next
    case False
    then show ?thesis using rw_inv_take [OF flag(2,3), of TWLoad] flag(1) by simp
  qed
next
  case (load s)
  show ?case by (rule rw_inv_move [OF load(2,3)]) (use load(1) in auto)
next
  case (cas s cnt)
  then show ?case by (intro rw_inv_flag) auto
next
  case (cas_fails s cnt)
  show ?case by (rule rw_inv_move [OF cas_fails(3,4)]) (use cas_fails(1) in auto)
qed

lemma rw_step_keeps: "rw_step n s s' \<Longrightarrow> rw_inv n s \<Longrightarrow> rw_inv n s'"
proof (induction rule: rw_step.induct)
  case (call t s c)
  show ?case by (rule rw_inv_move [OF call(3,1)]) (use call(2) in \<open>cases c; simp\<close>)+
next
  case (DoneRead t s s')
  then show ?case by (auto elim!: DoneRead_step.cases intro: rw_inv_leave)
next
  case (DoneWrite t s s')
  then show ?case by (auto elim!: DoneWrite_step.cases intro: rw_inv_store rw_inv_clear)
qed (auto intro: Read_keeps TryRead_keeps Write_keeps TryWrite_keeps)

lemma rw_inv_new: "n < 2 ^ 31 \<Longrightarrow> rw_inv n LockFreeRWContention"
  by (simp add: rw_inv_def LockFreeRWContention_def readers_def flagged_def)

interpretation rw: invariant_of "\<lambda>s. s = LockFreeRWContention \<and> n < 2 ^ 31" "rw_step n" "rw_inv n" for n
  by unfold_locales (auto intro: rw_inv_new rw_step_keeps)

section \<open>A lost writer flag\<close>

definition leaked :: "contention \<Rightarrow> bool" where
  "leaked s \<longleftrightarrow> w s \<and> (\<forall>t. \<not> inW (at s t))"

lemma leaked_keeps:
  assumes "leaked s" "rw_step n s s'"
  shows "leaked s'"
proof -
  have n: "\<not> inW (at s t)" "w s" for t using assms(1) by (auto simp: leaked_def)
  have g: "leaked (goto s t p)" "leaked (goto (s\<lparr>l := v\<rparr>) t p)" "leaked (goto (s\<lparr>w := True\<rparr>) t p)"
    if "\<not> inW p" for v t p
    using that n by (simp_all add: leaked_def)
  show ?thesis
    using assms(2)
  proof cases
    case (call t c)
    then show ?thesis using g(1) [of "entry c"] by (cases c) auto
  next
    case (Read t)
    from Read(2) show ?thesis by cases (use g in auto)
  next
    case (TryRead t)
    from TryRead(2) show ?thesis by cases (use g in auto)
  next
    case (DoneRead t)
    from DoneRead(2) show ?thesis by cases (use g in auto)
  next
    case (Write t)
    from Write(2) show ?thesis by cases (use n(1) [of t] n(2) g(3) [of WFlag t] in auto)
  next
    case (TryWrite t)
    from TryWrite(2) show ?thesis by cases (use n(1) [of t] n(2) g(3) [of Out t] in auto)
  next
    case (DoneWrite t)
    from DoneWrite(2) show ?thesis by cases (use n(1) [of t] in auto)
  qed
qed

interpretation lk: invariant_of leaked "rw_step n" leaked for n
  by unfold_locales (auto intro: leaked_keeps)

section \<open>Two runs\<close>

text \<open>Thread 0 takes the write lock.\<close>

lemma rw_to:
  "reach ini (rw_step n) s \<Longrightarrow> rw_step n s s' \<Longrightarrow> s' = s'' \<Longrightarrow> reach ini (rw_step n) s''"
  by (rule reach_to)

lemma write_run:
  assumes "n = Suc (Suc k)"
  shows "reach ((=) LockFreeRWContention) (rw_step n)
    \<lparr>l = 0x80000000, w = True, at = (\<lambda>_. Out)(0 := Writing)\<rparr>"
proof -
  let ?at = "\<lambda>p. (\<lambda>_. Out)(0 := p)"
  let ?r = "reach ((=) LockFreeRWContention) (rw_step n)"
  have t: "0 < n" "1 < n" using assms by simp_all
  have "?r \<lparr>l = 0, w = False, at = \<lambda>_. Out\<rparr>"
    by (rule reach.start) (simp add: LockFreeRWContention_def)
  then have "?r \<lparr>l = 0, w = False, at = ?at WFlag\<rparr>"
    by (rule rw_to [OF _ rw_step.call [OF t(1), where c = WriteLock_lock]]) (simp_all add: goto_def)
  then have "?r \<lparr>l = 0, w = True, at = ?at WLoad\<rparr>"
    by (rule rw_to [OF _ rw_step.Write [OF t(1) Write_step.flag]]) (simp_all add: goto_def fun_upd_twist)
  then have "?r \<lparr>l = 0, w = True, at = ?at (WCas 0)\<rparr>"
    by (rule rw_to [OF _ rw_step.Write [OF t(1) Write_step.load]]) (simp_all add: goto_def fun_upd_twist)
  then have "?r \<lparr>l = 0x80000000, w = True, at = ?at WWait\<rparr>"
    by (rule rw_to [OF _ rw_step.Write [OF t(1) Write_step.cas [where cnt = 0]]]) (simp_all add: goto_def fun_upd_twist)
  then show ?thesis
    by (rule rw_to [OF _ rw_step.Write [OF t(1) Write_step.wait]]) (simp_all add: goto_def fun_upd_twist)
qed

text \<open>
  Thread 0 calls \<open>try_lock\<close> of the write lock and loads \<open>l_\<close>; thread 1 becomes a reader; the
  exchange of thread 0 fails; thread 1 leaves.
\<close>

lemma leak_run:
  assumes "n = Suc (Suc k)"
  shows "reach ((=) LockFreeRWContention) (rw_step n) \<lparr>l = 0, w = True, at = \<lambda>_. Out\<rparr>"
proof -
  let ?at = "\<lambda>p q. (\<lambda>_. Out)(0 := p, 1 := q)"
  let ?r = "reach ((=) LockFreeRWContention) (rw_step n)"
  have t: "0 < n" "1 < n" using assms by simp_all
  have "?r \<lparr>l = 0, w = False, at = \<lambda>_. Out\<rparr>"
    by (rule reach.start) (simp add: LockFreeRWContention_def)
  then have "?r \<lparr>l = 0, w = False, at = ?at TWFlag Out\<rparr>"
    by (rule rw_to [OF _ rw_step.call [OF t(1), where c = WriteLock_try_lock]]) (auto simp: goto_def)
  then have "?r \<lparr>l = 0, w = True, at = ?at TWLoad Out\<rparr>"
    by (rule rw_to [OF _ rw_step.TryWrite [OF t(1) TryWrite_step.flag]]) (simp_all add: goto_def fun_upd_twist)
  then have "?r \<lparr>l = 0, w = True, at = ?at (TWCas 0) Out\<rparr>"
    by (rule rw_to [OF _ rw_step.TryWrite [OF t(1) TryWrite_step.load]]) (simp_all add: goto_def fun_upd_twist)
  then have "?r \<lparr>l = 0, w = True, at = ?at (TWCas 0) RLoad\<rparr>"
    by (rule rw_to [OF _ rw_step.call [OF t(2), where c = ReadLock_lock]]) (simp_all add: goto_def)
  then have "?r \<lparr>l = 0, w = True, at = ?at (TWCas 0) (RCas 0)\<rparr>"
    by (rule rw_to [OF _ rw_step.Read [OF t(2) Read_step.load]]) (simp_all add: goto_def fun_upd_twist)
  then have "?r \<lparr>l = 1, w = True, at = ?at (TWCas 0) Reading\<rparr>"
    by (rule rw_to [OF _ rw_step.Read [OF t(2) Read_step.cas [where cnt = 0]]]) (simp_all add: goto_def fun_upd_twist)
  then have "?r \<lparr>l = 1, w = True, at = ?at Out Reading\<rparr>"
    by (rule rw_to [OF _ rw_step.TryWrite [OF t(1) TryWrite_step.cas_fails [where cnt = 0]]]) (simp_all add: goto_def fun_upd_twist)
  then have "?r \<lparr>l = 0, w = True, at = ?at Out Out\<rparr>"
    by (rule rw_to [OF _ rw_step.DoneRead [OF t(2) DoneRead_step.intros]]) (simp_all add: goto_def fun_upd_twist)
  moreover have e: "?at Out Out = (\<lambda>_. Out)" by auto
  ultimately show ?thesis unfolding e by simp
qed

section \<open>Properties\<close>

text \<open>C1: mutual exclusion, for any number of threads below \<open>2 ^ 31\<close> in any interleaving of their
  atomic operations, spurious failures and \<open>try_lock\<close> included: while a thread is inside the write
  lock, no other thread is inside the write lock or the read lock; and \<open>l_\<close> is exactly the number
  of readers, with its sign bit set while a writer waits or writes.\<close>

theorem rw_lock_excludes:
  assumes "n < 2 ^ 31" "reach ((=) LockFreeRWContention) (rw_step n) s"
  shows "(\<forall>t u. at s t = Writing \<longrightarrow> t \<noteq> u \<longrightarrow> at s u \<noteq> Writing \<and> at s u \<noteq> Reading) \<and>
    unat (l s) = card {u. at s u = Reading} +
      (if \<exists>u. at s u = WWait \<or> at s u = Writing then 2 ^ 31 else 0)"
proof -
  have i: "rw_inv n s" using rw.holds_from [OF rw_inv_new] assms by blast
  have "at s u \<noteq> Writing \<and> at s u \<noteq> Reading" if "at s t = Writing" "t \<noteq> u" for t u
    using rw_invD(3) [OF i, of t u] rw_invD(6) [OF i that(1)] that by (auto simp: readers_def)
  then show ?thesis using rw_invD(5) [OF i] by (auto simp: readers_def flagged_def)
qed

lemma rw_lock_excludes_witness:
  "at \<lparr>l = 0x80000000, w = True, at = (\<lambda>_. Out)(0 := Writing)\<rparr> 0 = Writing \<and>
   card {u. ((\<lambda>_. Out)(0 := Writing)) (u :: nat) = Reading} = 0"
  using rw_lock_excludes [OF _ write_run [of 2 0]] by (simp add: numeral_2_eq_2)

text \<open>C37: a failing \<open>try_lock\<close> of the write lock leaks the flag: with two or more threads there is
  a run after which every thread is outside all locks, nobody holds the lock and \<open>l_\<close> is 0, and from
  there no thread ever gets the write lock, whatever the threads do.\<close>

theorem TryWrite_leaks:
  "\<exists>s. reach ((=) LockFreeRWContention) (rw_step (Suc (Suc k))) s \<and> (\<forall>t. at s t = Out) \<and> l s = 0 \<and>
    (\<forall>s' t. reach ((=) s) (rw_step (Suc (Suc k))) s' \<longrightarrow> at s' t \<noteq> Writing)"
proof (intro exI conjI allI impI)
  let ?s = "\<lparr>l = 0, w = True, at = \<lambda>_. Out\<rparr>"
  show "reach ((=) LockFreeRWContention) (rw_step (Suc (Suc k))) ?s" by (rule leak_run [OF refl])
  fix s' t assume "reach ((=) ?s) (rw_step (Suc (Suc k))) s'"
  moreover have "leaked ?s" by (simp add: leaked_def)
  ultimately have "leaked s'" by (rule lk.holds_from [rotated])
  then show "at s' t \<noteq> Writing" by (metis inW.simps(6) leaked_def)
qed simp_all

lemma TryWrite_leaks_witness:
  "\<exists>s. reach ((=) LockFreeRWContention) (rw_step (Suc (Suc 1))) s \<and> at s 0 = Out \<and> at s 1 \<noteq> Writing"
proof -
  obtain s where s: "reach ((=) LockFreeRWContention) (rw_step (Suc (Suc 1))) s" "\<forall>t. at s t = Out"
      "\<forall>s' t. reach ((=) s) (rw_step (Suc (Suc 1))) s' \<longrightarrow> at s' t \<noteq> Writing"
    using TryWrite_leaks [of 1] by auto
  have "at s 1 \<noteq> Writing" using s(3) reach_here [of s "rw_step (Suc (Suc 1))"] by simp
  then show ?thesis using s(1,2) by (intro exI [of _ s]) simp
qed

end
