(* ===== verification/Thread_Queue.thy ===== *)
theory Thread_Queue
  imports Linked_Queue Transition
begin

text \<open>
  The two \<open>ThreadSafeQueue\<close>s with their pools: \<open>c++/utils/thread_pool\<close> (one queue, workers that
  poll it) and \<open>c++/utils/cache/thread_pool.h\<close> (one queue for each worker, workers that wait on a
  condition variable).  A \<open>std::queue\<close> is a list, the oldest element first.  The operations of the
  first queue hold its mutex from end to end and are functions on the list; the pools are step
  relations.  Tasks are numbers, and running one is the event of starting it.
\<close>

section \<open>Definitions\<close>

subsection \<open>The queue of \<open>c++/utils/thread_pool/thread_safe_queue.h\<close>\<close>

definition push :: "'a list \<Rightarrow> 'a \<Rightarrow> 'a list" where
  "push data_queue item = data_queue @ [item]"

definition try_pop :: "'a list \<Rightarrow> 'a option \<times> 'a list" where
  "try_pop data_queue = (case data_queue of [] \<Rightarrow> (None, []) | x # rest \<Rightarrow> (Some x, rest))"

text \<open>A \<open>wait_and_pop\<close> on an empty queue waits: no result yet.\<close>

definition wait_and_pop :: "'a list \<Rightarrow> ('a \<times> 'a list) option" where
  "wait_and_pop data_queue = (case data_queue of [] \<Rightarrow> None | x # rest \<Rightarrow> Some (x, rest))"

definition empty :: "'a list \<Rightarrow> bool" where
  "empty data_queue \<longleftrightarrow> data_queue = []"

subsection \<open>The polling pool of \<open>c++/utils/thread_pool/thread_pool.h\<close>\<close>

datatype worker = Test | Poll | Run nat | Exit

text \<open>\<open>submitted\<close> and \<open>started\<close> record what happened; \<open>joined\<close>: the destructor has returned.\<close>

record pool =
  is_done :: bool
  work_queue :: "nat list"
  workers :: "worker list"
  joined :: bool
  submitted :: "nat list"
  started :: "nat list"

definition ThreadPool :: "nat \<Rightarrow> pool" where
  "ThreadPool thread_count = \<lparr>is_done = False, work_queue = [], workers = replicate thread_count Test,
     joined = False, submitted = [], started = []\<rparr>"

inductive work :: "nat \<Rightarrow> pool \<Rightarrow> pool \<Rightarrow> bool" for i where
  test: "i < length (workers s) \<Longrightarrow> workers s ! i = Test \<Longrightarrow>
    work i s (s\<lparr>workers := (workers s)[i := (if is_done s then Exit else Poll)]\<rparr>)"
| poll: "i < length (workers s) \<Longrightarrow> workers s ! i = Poll \<Longrightarrow> try_pop (work_queue s) = (Some f, q) \<Longrightarrow>
    work i s (s\<lparr>work_queue := q, workers := (workers s)[i := Run f], started := started s @ [f]\<rparr>)"
| yield: "i < length (workers s) \<Longrightarrow> workers s ! i = Poll \<Longrightarrow> try_pop (work_queue s) = (None, q) \<Longrightarrow>
    work i s (s\<lparr>work_queue := q, workers := (workers s)[i := Test]\<rparr>)"
| task: "i < length (workers s) \<Longrightarrow> workers s ! i = Run f \<Longrightarrow>
    work i s (s\<lparr>workers := (workers s)[i := Test]\<rparr>)"

text \<open>The thread that owns the pool submits tasks and then destroys it.\<close>

inductive pool_step :: "pool \<Rightarrow> pool \<Rightarrow> bool" where
  submit: "\<not> is_done s \<Longrightarrow>
    pool_step s (s\<lparr>work_queue := push (work_queue s) f, submitted := submitted s @ [f]\<rparr>)"
| work: "work i s s' \<Longrightarrow> pool_step s s'"
| destroy: "pool_step s (s\<lparr>is_done := True\<rparr>)"
| join: "is_done s \<Longrightarrow> \<forall>w \<in> set (workers s). w = Exit \<Longrightarrow> pool_step s (s\<lparr>joined := True\<rparr>)"

text \<open>The calls of \<open>thread_pool_test.cpp\<close>, before any worker runs.\<close>

definition test_main :: "pool \<Rightarrow> pool" where
  "test_main s = foldl (\<lambda>s f. s\<lparr>work_queue := push (work_queue s) f, submitted := submitted s @ [f]\<rparr>)
     s [0..<10]"

section \<open>The queues are first in, first out\<close>

interpretation tq: fifo "(=)" "\<lambda>_ _. True" "\<lambda>q x. Some (push q x)" "\<lambda>q. Some (try_pop q)"
  by unfold_locales (auto simp: push_def try_pop_def)

lemma wait_and_pop_try: "wait_and_pop q = (case try_pop q of (None, _) \<Rightarrow> None | (Some x, r) \<Rightarrow> Some (x, r))"
  by (simp add: wait_and_pop_def try_pop_def split: list.splits)

lemma empty_try_pop: "empty q \<longleftrightarrow> fst (try_pop q) = None"
  by (simp add: empty_def try_pop_def split: list.splits)

section \<open>The polling pool\<close>

definition pool_inv :: "pool \<Rightarrow> bool" where
  "pool_inv s \<longleftrightarrow> started s @ work_queue s = submitted s \<and>
     (\<forall>f. Run f \<in> set (workers s) \<longrightarrow> f \<in> set (started s)) \<and>
     (joined s \<longrightarrow> is_done s \<and> (\<forall>w \<in> set (workers s). w = Exit))"

lemma in_upd: "x \<in> set (xs[i := y]) \<Longrightarrow> x = y \<or> x \<in> set xs"
  using set_update_subset_insert [of xs i y] by auto

lemma work_not_exit: "work i s s' \<Longrightarrow> workers s ! i \<in> set (workers s) \<and> workers s ! i \<noteq> Exit"
  by (cases rule: work.cases) (auto, (metis nth_mem)+)

lemma work_frame:
  "work i s s' \<Longrightarrow> submitted s' = submitted s \<and> is_done s' = is_done s \<and> joined s' = joined s \<and>
    started s' @ work_queue s' = started s @ work_queue s \<and> set (started s) \<subseteq> set (started s')"
  by (cases rule: work.cases) (auto simp: try_pop_def split: list.splits)

lemma work_runs: "work i s s' \<Longrightarrow> Run f \<in> set (workers s') \<Longrightarrow>
    Run f \<in> set (workers s) \<or> f \<in> set (started s')"
  by (cases rule: work.cases) (auto dest!: in_upd split: if_splits)

lemma work_keeps: "work i s s' \<Longrightarrow> pool_inv s \<Longrightarrow> pool_inv s'"
  using work_frame [of i s s'] work_runs [of i s s'] work_not_exit [of i s s']
  unfolding pool_inv_def by (auto 4 3)

interpretation pl: invariant_of "\<lambda>s. \<exists>n. s = ThreadPool n" pool_step pool_inv
proof
  show "\<exists>n. s = ThreadPool n \<Longrightarrow> pool_inv s" for s by (auto simp: pool_inv_def ThreadPool_def)
  show "pool_inv s'" if "pool_inv s" "pool_step s s'" for s s'
    using that(2)
  proof cases
    case (work i)
    then show ?thesis using that(1) by (rule work_keeps)
  qed (use that(1) in \<open>auto simp: pool_inv_def push_def\<close>)
qed

text \<open>When every worker has left, the tasks that are still in the queue stay there.\<close>

definition closed :: "nat list \<Rightarrow> pool \<Rightarrow> bool" where
  "closed q s \<longleftrightarrow> is_done s \<and> work_queue s = q \<and> (\<forall>w \<in> set (workers s). w = Exit)"

interpretation cl: invariant_of "closed q" pool_step "closed q"
proof
  show "closed q s'" if "closed q s" "pool_step s s'" for s s'
    using that(2)
  proof cases
    case (work i)
    then show ?thesis using that(1) work_not_exit by (fastforce simp: closed_def)
  qed (use that(1) in \<open>auto simp: closed_def\<close>)
qed

lemma submits:
  "\<not> is_done s \<Longrightarrow> reach ini pool_step s \<Longrightarrow> reach ini pool_step (foldl (\<lambda>s f. s\<lparr>work_queue :=
     push (work_queue s) f, submitted := submitted s @ [f]\<rparr>) s fs)"
proof (induction fs arbitrary: s)
  case (Cons f fs)
  have "reach ini pool_step (s\<lparr>work_queue := push (work_queue s) f, submitted := submitted s @ [f]\<rparr>)"
    by (rule reach.move [OF Cons(3) pool_step.submit [OF Cons(2)]])
  then show ?case using Cons(1) Cons(2) by simp
qed simp

lemma foldl_submit:
  "foldl (\<lambda>s f. s\<lparr>work_queue := push (work_queue s) f, submitted := submitted s @ [f]\<rparr>) s fs =
   s\<lparr>work_queue := work_queue s @ fs, submitted := submitted s @ fs\<rparr>"
  by (induction fs arbitrary: s) (simp_all add: push_def)

lemma workers_leave:
  assumes "reach ini pool_step s" "is_done s" "workers s = replicate n Test"
  shows "reach ini pool_step (s\<lparr>workers := replicate n Exit\<rparr>)"
proof -
  have "reach ini pool_step (s\<lparr>workers := replicate k Exit @ replicate (n - k) Test\<rparr>)" if "k \<le> n" for k
    using that
  proof (induction k)
    case 0
    have "s\<lparr>workers := replicate n Test\<rparr> = s" using assms(3) by (cases s) simp
    then show ?case using assms(1) by simp
  next
    case (Suc k)
    let ?s = "s\<lparr>workers := replicate k Exit @ replicate (n - k) Test\<rparr>"
    have upd: "(workers ?s)[k := Exit] = replicate (Suc k) Exit @ replicate (n - Suc k) Test"
      using Suc(2) by (simp add: list_update_append replicate_append_same Suc_diff_Suc [symmetric])
    have "work k ?s (?s\<lparr>workers := (workers ?s)[k := (if is_done ?s then Exit else Poll)]\<rparr>)"
      by (rule work.test) (use Suc(2) in \<open>simp_all add: nth_append\<close>)
    then have "reach ini pool_step (?s\<lparr>workers := (workers ?s)[k := Exit]\<rparr>)"
      using reach.move [OF Suc(1)] pool_step.work Suc(2) assms(2) by fastforce
    then show ?case unfolding upd by simp
  qed
  from this [of n] show ?thesis by simp
qed

section \<open>Properties\<close>



text \<open>\<open>thread_pool_test.cpp\<close> may print nothing: with any number of workers there is a run in which
  the ten tasks are submitted, the pool is destroyed and joined, and no task was started.\<close>

theorem test_main_drops_tasks:
  "\<exists>s. reach ((=) (test_main (ThreadPool n))) pool_step s \<and>
    reach ((=) (ThreadPool n)) pool_step (test_main (ThreadPool n)) \<and>
    joined s \<and> submitted s = [0..<10] \<and> started s = []"
proof -
  let ?t = "test_main (ThreadPool n)"
  have t: "?t = (ThreadPool n)\<lparr>work_queue := [0..<10], submitted := [0..<10]\<rparr>"
    unfolding test_main_def foldl_submit by (simp add: ThreadPool_def)
  have e: "workers ?t = replicate n Test" "submitted ?t = [0..<10]" "started ?t = []"
    unfolding t by (simp_all add: ThreadPool_def)
  have "reach ((=) (ThreadPool n)) pool_step ?t"
    unfolding test_main_def by (rule submits [OF _ reach.start]) (simp_all add: ThreadPool_def)
  moreover have "reach ((=) ?t) pool_step (?t\<lparr>is_done := True\<rparr>)"
    by (rule reach.move, rule reach_here, rule pool_step.destroy)
  then have "reach ((=) ?t) pool_step (?t\<lparr>is_done := True, workers := replicate n Exit\<rparr>)"
    using workers_leave [of "(=) ?t" "?t\<lparr>is_done := True\<rparr>" n] e by simp
  from reach.move [OF this pool_step.join]
  have "reach ((=) ?t) pool_step (?t\<lparr>is_done := True, workers := replicate n Exit, joined := True\<rparr>)"
    by simp
  ultimately show ?thesis
    by (intro exI [of _ "?t\<lparr>is_done := True, workers := replicate n Exit, joined := True\<rparr>"])
      (simp add: e)
qed

end
