(* ===== verification/Cache_Pool.thy ===== *)
theory Cache_Pool
  imports Transition
begin

text \<open>
  \<open>c++/utils/cache/thread_pool.h\<close>: a pool with one queue for each worker, and workers that wait on
  a condition variable.  A step is a part of an operation between two points at which another
  thread can interfere: \<open>running_\<close> is written without the mutex.  \<open>condition_variable::wait\<close>
  releases the mutex and blocks in one step; a blocked thread goes on after a notification, or
  spuriously when \<open>sp\<close> is set.  \<open>Submit\<close> makes a new default engine at every call, so that the
  distribution returns the same number each time: the parameter \<open>u\<close>, at most \<open>thread_count\<close>.
  Tasks are numbers, the task that does nothing is \<open>None\<close>.
\<close>

section \<open>Definitions\<close>

record task_queue =
  mu :: bool
  data_queue :: "nat list"
  running :: bool

definition ThreadSafeQueue :: task_queue where
  "ThreadSafeQueue = \<lparr>mu = False, data_queue = [], running = True\<rparr>"

datatype wpc = WTest | WLock | WPred | WSleep | WBlocked | WTake | WTask "nat option" | WExit

text \<open>The thread that owns the pool: using it, about to close queue \<open>j\<close>, about to notify its
  waiters, after the destructor.\<close>

datatype owner = Alive | Closing nat | Notifying nat | Joined

record task_pool =
  finished :: bool
  work_queues :: "task_queue list"
  threads :: "wpc list"
  owner :: owner
  given :: "nat \<Rightarrow> nat list"
  taken :: "nat \<Rightarrow> nat list"

definition ThreadPool :: "nat \<Rightarrow> task_pool" where
  "ThreadPool thread_count = \<lparr>finished = False, work_queues = replicate thread_count ThreadSafeQueue,
     threads = replicate thread_count WTest, owner = Alive, given = \<lambda>_. [], taken = \<lambda>_. []\<rparr>"

definition wake :: "wpc \<Rightarrow> wpc" where
  "wake p = (if p = WBlocked then WLock else p)"

definition Push :: "task_queue \<Rightarrow> nat \<Rightarrow> task_queue" where
  "Push q f = q\<lparr>data_queue := data_queue q @ [f]\<rparr>"

text \<open>\<open>Submit\<close>: \<open>None\<close> when the index is behind the last queue; otherwise the mutex must be free.\<close>

definition Submit :: "nat \<Rightarrow> task_pool \<Rightarrow> nat \<Rightarrow> task_pool option" where
  "Submit u s f = (if u < length (work_queues s)
     then Some (s\<lparr>work_queues := (work_queues s)[u := Push (work_queues s ! u) f],
       threads := (threads s)[u := wake (threads s ! u)], given := (given s)(u := given s u @ [f])\<rparr>)
     else None)"

definition put :: "task_pool \<Rightarrow> nat \<Rightarrow> task_queue \<Rightarrow> wpc \<Rightarrow> task_pool" where
  "put s i q p = s\<lparr>work_queues := (work_queues s)[i := q], threads := (threads s)[i := p]\<rparr>"

text \<open>One step of worker \<open>i\<close> inside \<open>WaitAndPop\<close>, and inside \<open>Run\<close>.\<close>

inductive WaitAndPop :: "bool \<Rightarrow> nat \<Rightarrow> task_pool \<Rightarrow> task_pool \<Rightarrow> bool" for sp i where
  lock: "i < length (threads s) \<Longrightarrow> threads s ! i = WLock \<Longrightarrow> q = work_queues s ! i \<Longrightarrow> \<not> mu q \<Longrightarrow>
    WaitAndPop sp i s (put s i (q\<lparr>mu := True\<rparr>) WPred)"
| pred: "i < length (threads s) \<Longrightarrow> threads s ! i = WPred \<Longrightarrow> q = work_queues s ! i \<Longrightarrow>
    WaitAndPop sp i s (put s i q (if \<not> running q \<or> data_queue q \<noteq> [] then WTake else WSleep))"
| sleep: "i < length (threads s) \<Longrightarrow> threads s ! i = WSleep \<Longrightarrow> q = work_queues s ! i \<Longrightarrow>
    WaitAndPop sp i s (put s i (q\<lparr>mu := False\<rparr>) WBlocked)"
| spurious: "i < length (threads s) \<Longrightarrow> sp \<Longrightarrow> threads s ! i = WBlocked \<Longrightarrow>
    WaitAndPop sp i s (put s i (work_queues s ! i) WLock)"
| take: "i < length (threads s) \<Longrightarrow> threads s ! i = WTake \<Longrightarrow> q = work_queues s ! i \<Longrightarrow> running q \<Longrightarrow>
    data_queue q = f # fs \<Longrightarrow>
    WaitAndPop sp i s ((put s i (q\<lparr>mu := False, data_queue := fs\<rparr>) (WTask (Some f)))
      \<lparr>taken := (taken s)(i := taken s i @ [f])\<rparr>)"
| no_take: "i < length (threads s) \<Longrightarrow> threads s ! i = WTake \<Longrightarrow> q = work_queues s ! i \<Longrightarrow> \<not> running q \<Longrightarrow>
    WaitAndPop sp i s (put s i (q\<lparr>mu := False\<rparr>) (WTask None))"

inductive Run :: "bool \<Rightarrow> nat \<Rightarrow> task_pool \<Rightarrow> task_pool \<Rightarrow> bool" for sp i where
  test: "i < length (threads s) \<Longrightarrow> threads s ! i = WTest \<Longrightarrow>
    Run sp i s (put s i (work_queues s ! i) (if finished s then WExit else WLock))"
| wait: "WaitAndPop sp i s s' \<Longrightarrow> Run sp i s s'"
| task: "i < length (threads s) \<Longrightarrow> threads s ! i = WTask t \<Longrightarrow>
    Run sp i s (put s i (work_queues s ! i) WTest)"

inductive tp_step :: "bool \<Rightarrow> nat \<Rightarrow> task_pool \<Rightarrow> task_pool \<Rightarrow> bool" for sp u where
  submit: "owner s = Alive \<Longrightarrow> \<not> mu (work_queues s ! u) \<Longrightarrow> Submit u s f = Some s' \<Longrightarrow> tp_step sp u s s'"
| run: "Run sp i s s' \<Longrightarrow> tp_step sp u s s'"
| destroy: "owner s = Alive \<Longrightarrow> tp_step sp u s (s\<lparr>finished := True, owner := Closing 0\<rparr>)"
| close: "owner s = Closing j \<Longrightarrow> j < length (work_queues s) \<Longrightarrow>
    tp_step sp u s (s\<lparr>work_queues := (work_queues s)[j := (work_queues s ! j)\<lparr>running := False\<rparr>],
      owner := Notifying j\<rparr>)"
| notify_all: "owner s = Notifying j \<Longrightarrow>
    tp_step sp u s (s\<lparr>threads := (threads s)[j := wake (threads s ! j)], owner := Closing (j + 1)\<rparr>)"
| join: "owner s = Closing (length (work_queues s)) \<Longrightarrow> \<forall>p \<in> set (threads s). p = WExit \<Longrightarrow>
    tp_step sp u s (s\<lparr>owner := Joined\<rparr>)"

definition Empty :: "task_pool \<Rightarrow> bool" where
  "Empty s \<longleftrightarrow> sum_list (map (\<lambda>q. if data_queue q \<noteq> [] then 1 else (0 :: nat)) (work_queues s)) = 0"

section \<open>The invariant\<close>

definition queue_inv :: "task_queue \<Rightarrow> wpc \<Rightarrow> nat list \<Rightarrow> nat list \<Rightarrow> bool" where
  "queue_inv q p gv tk \<longleftrightarrow> tk @ data_queue q = gv \<and> (mu q \<longleftrightarrow> p = WPred \<or> p = WSleep \<or> p = WTake) \<and>
     (p = WTake \<longrightarrow> running q \<longrightarrow> data_queue q \<noteq> []) \<and> (\<forall>f. p = WTask (Some f) \<longrightarrow> f \<in> set tk)"

definition tp_inv :: "nat \<Rightarrow> task_pool \<Rightarrow> bool" where
  "tp_inv u s \<longleftrightarrow> length (threads s) = length (work_queues s) \<and> (\<forall>i. i \<noteq> u \<longrightarrow> given s i = []) \<and>
     (\<forall>i < length (threads s). queue_inv (work_queues s ! i) (threads s ! i) (given s i) (taken s i))"

lemma tp_inv_at:
  "tp_inv u s \<Longrightarrow> i < length (threads s) \<Longrightarrow>
    queue_inv (work_queues s ! i) (threads s ! i) (given s i) (taken s i)"
  by (simp add: tp_inv_def)

text \<open>A change of one worker with its queue.\<close>

lemma tp_inv_put:
  assumes "tp_inv u s" "queue_inv q p (gv i) (tk i)" "i \<noteq> u \<Longrightarrow> gv i = []"
    "\<And>j. j \<noteq> i \<Longrightarrow> gv j = given s j \<and> tk j = taken s j"
  shows "tp_inv u ((put s i q p)\<lparr>given := gv, taken := tk\<rparr>)"
proof -
  have "gv j = []" if "j \<noteq> u" for j
    using that assms(1,3,4) by (cases "j = i") (auto simp: tp_inv_def)
  moreover have "queue_inv ((work_queues s)[i := q] ! j) ((threads s)[i := p] ! j) (gv j) (tk j)"
    if "j < length (threads s)" for j
    using that assms(1,2,4) by (cases "j = i") (auto simp: tp_inv_def)
  ultimately show ?thesis using assms(1) by (simp add: tp_inv_def put_def)
qed

lemma tp_inv_put_same:
  "tp_inv u s \<Longrightarrow> queue_inv q p (given s i) (taken s i) \<Longrightarrow> tp_inv u (put s i q p)"
  using tp_inv_put [of u s q p "given s" i "taken s"] by (auto simp: put_def tp_inv_def)

lemma tp_inv_move:
  assumes "tp_inv u s" "i < length (threads s)"
    "queue_inv (work_queues s ! i) (threads s ! i) (given s i) (taken s i) \<Longrightarrow>
     queue_inv q p (given s i) (taken s i)"
  shows "tp_inv u (put s i q p)"
  by (rule tp_inv_put_same [OF assms(1) assms(3) [OF tp_inv_at [OF assms(1,2)]]])

lemma WaitAndPop_keeps: "WaitAndPop sp i s s' \<Longrightarrow> tp_inv u s \<Longrightarrow> tp_inv u s'"
proof (induction rule: WaitAndPop.induct)
  case (take s q f fs)
  have q: "queue_inv q WTake (given s i) (taken s i)" using tp_inv_at [OF take(6,1)] take(2,3) by simp
  have "tp_inv u ((put s i (q\<lparr>mu := False, data_queue := fs\<rparr>) (WTask (Some f)))
      \<lparr>given := given s, taken := (taken s)(i := taken s i @ [f])\<rparr>)"
    by (rule tp_inv_put [OF take(6)]) (use q take(5,6) in \<open>auto simp: queue_inv_def tp_inv_def\<close>)
  then show ?case by (simp add: put_def)
next
  case (lock s q)
  show ?case by (rule tp_inv_move [OF lock(5,1)]) (use lock(1-4) in \<open>auto simp: queue_inv_def\<close>)
next
  case (pred s q)
  show ?case by (rule tp_inv_move [OF pred(4,1)]) (use pred(1-3) in \<open>auto simp: queue_inv_def\<close>)
next
  case (sleep s q)
  show ?case by (rule tp_inv_move [OF sleep(4,1)]) (use sleep(1-3) in \<open>auto simp: queue_inv_def\<close>)
next
  case (spurious s)
  show ?case by (rule tp_inv_move [OF spurious(4,1)]) (use spurious(1-3) in \<open>auto simp: queue_inv_def\<close>)
next
  case (no_take s q)
  show ?case by (rule tp_inv_move [OF no_take(5,1)]) (use no_take(1-4) in \<open>auto simp: queue_inv_def\<close>)
qed

lemma Run_keeps: "Run sp i s s' \<Longrightarrow> tp_inv u s \<Longrightarrow> tp_inv u s'"
proof (induction rule: Run.induct)
  case (test s)
  show ?case by (rule tp_inv_move [OF test(3,1)]) (use test(1,2) in \<open>auto simp: queue_inv_def\<close>)
next
  case (wait s s')
  then show ?case by (rule WaitAndPop_keeps)
next
  case (task s t)
  show ?case by (rule tp_inv_move [OF task(3,1)]) (use task(1,2) in \<open>auto simp: queue_inv_def\<close>)
qed

text \<open>What the owner does to a queue.\<close>

lemma queue_inv_wake [simp]: "queue_inv q (wake p) gv tk \<longleftrightarrow> queue_inv q p gv tk"
  by (auto simp: queue_inv_def wake_def)

lemma tp_step_keeps: "tp_step sp u s s' \<Longrightarrow> tp_inv u s \<Longrightarrow> tp_inv u s'"
proof (induction rule: tp_step.induct)
  case (submit s f s')
  have u: "u < length (work_queues s)" using submit(3) by (simp add: Submit_def split: if_splits)
  have "queue_inv (work_queues s ! u) (threads s ! u) (given s u) (taken s u)"
    using tp_inv_at [OF submit(4), of u] u submit(4) by (simp add: tp_inv_def)
  then have "queue_inv (Push (work_queues s ! u) f) (threads s ! u) (given s u @ [f]) (taken s u)"
    by (auto simp: queue_inv_def Push_def)
  then have "queue_inv (Push (work_queues s ! u) f) (wake (threads s ! u)) (given s u @ [f]) (taken s u)"
    by simp
  then have "tp_inv u ((put s u (Push (work_queues s ! u) f) (wake (threads s ! u)))
      \<lparr>given := (given s)(u := given s u @ [f]), taken := taken s\<rparr>)"
    by (intro tp_inv_put [OF submit(4)]) auto
  then show ?case using submit(3) u by (auto simp: Submit_def put_def)
next
  case (run i s s')
  then show ?case by (rule Run_keeps)
next
  case (close s j)
  have "tp_inv u (put s j ((work_queues s ! j)\<lparr>running := False\<rparr>) (threads s ! j))"
    by (rule tp_inv_move [OF close(3)]) (use close in \<open>auto simp: queue_inv_def tp_inv_def\<close>)
  then show ?case by (simp add: tp_inv_def put_def)
next
  case (notify_all s j)
  show ?case
  proof (cases "j < length (threads s)")
    case True
    have "tp_inv u (put s j (work_queues s ! j) (wake (threads s ! j)))"
      by (rule tp_inv_move [OF notify_all(2) True]) simp
    then show ?thesis by (simp add: tp_inv_def put_def)
  next
    case False
    then show ?thesis using notify_all(2) by (simp add: tp_inv_def)
  qed
qed (simp_all add: tp_inv_def)

lemma tp_inv_new: "tp_inv u (ThreadPool n)"
  by (simp add: tp_inv_def queue_inv_def ThreadPool_def ThreadSafeQueue_def)

interpretation tp: invariant_of "\<lambda>s. \<exists>n. s = ThreadPool n" "tp_step sp u" "tp_inv u" for sp u
  by unfold_locales (auto intro: tp_inv_new tp_step_keeps)

lemma tp_step_length: "tp_step sp u s s' \<Longrightarrow> length (work_queues s') = length (work_queues s)"
  by (cases rule: tp_step.cases) (auto simp: Submit_def put_def split: if_splits elim!: Run.cases WaitAndPop.cases)

lemma reach_length:
  "reach ((=) (ThreadPool n)) (tp_step sp u) s \<Longrightarrow> length (work_queues s) = n"
  by (induction rule: reach.induct) (auto simp: ThreadPool_def tp_step_length)

section \<open>The notification that is lost\<close>

text \<open>
  One worker.  It finds the queue empty and \<open>running_\<close> set; before it blocks, the destructor
  clears \<open>running_\<close> and notifies nobody.
\<close>

definition stuck_pool :: task_pool where
  "stuck_pool = (ThreadPool 1)\<lparr>finished := True, threads := [WBlocked], owner := Closing 1,
     work_queues := [ThreadSafeQueue\<lparr>running := False\<rparr>]\<rparr>"

lemma tp_to:
  "reach ini (tp_step sp u) s \<Longrightarrow> tp_step sp u s s' \<Longrightarrow> s' = s'' \<Longrightarrow> reach ini (tp_step sp u) s''"
  by (rule reach_to)

lemma stuck_reached: "reach ((=) (ThreadPool 1)) (tp_step False u) stuck_pool"
proof -
  let ?r = "reach ((=) (ThreadPool 1)) (tp_step False u)"
  let ?q = "\<lambda>m r. \<lparr>mu = m, data_queue = [], running = r\<rparr>"
  let ?s = "\<lambda>d m r p ow. \<lparr>finished = d, work_queues = [?q m r], threads = [p], owner = ow,
    given = \<lambda>_. [], taken = \<lambda>_. []\<rparr>"
  note defs = ThreadPool_def ThreadSafeQueue_def put_def wake_def
  have "?r (?s False False True WTest Alive)"
    using reach_here [of "ThreadPool 1"] by (simp add: defs)
  then have "?r (?s False False True WLock Alive)"
    by (rule tp_to [OF _ tp_step.run [OF Run.test [where i = 0]]]) (simp_all add: defs)
  then have "?r (?s False True True WPred Alive)"
    by (rule tp_to [OF _ tp_step.run [OF Run.wait [OF WaitAndPop.lock [where i = 0, OF _ _ refl]]]]) (simp_all add: defs)
  then have "?r (?s False True True WSleep Alive)"
    by (rule tp_to [OF _ tp_step.run [OF Run.wait [OF WaitAndPop.pred [where i = 0, OF _ _ refl]]]]) (simp_all add: defs)
  then have "?r (?s True True True WSleep (Closing 0))"
    by (rule tp_to [OF _ tp_step.destroy]) (simp_all add: defs)
  then have "?r (?s True True False WSleep (Notifying 0))"
    by (rule tp_to [OF _ tp_step.close [where j = 0]]) (simp_all add: defs)
  then have "?r (?s True True False WSleep (Closing 1))"
    by (rule tp_to [OF _ tp_step.notify_all [where j = 0]]) (simp_all add: defs)
  then have "?r (?s True False False WBlocked (Closing 1))"
    by (rule tp_to [OF _ tp_step.run [OF Run.wait [OF WaitAndPop.sleep [where i = 0, OF _ _ refl]]]]) (simp_all add: defs)
  then show ?thesis by (simp add: stuck_pool_def defs)
qed

lemma stuck_stays: "\<not> tp_step False u stuck_pool s'"
  by (auto simp: stuck_pool_def ThreadPool_def elim!: tp_step.cases Run.cases WaitAndPop.cases)

section \<open>Properties\<close>

text \<open>C34: in every run of this pool every queue is first in, first out (what its worker has taken and
  what is still queued is what was submitted to it), a worker that takes a task finds one, and all
  tasks go to the one queue \<open>u\<close>, so that the other workers never run a task, however many there
  are; when \<open>u\<close> is \<open>thread_count\<close>, which the distribution allows, \<open>Submit\<close> is out of range.\<close>

theorem one_worker_runs_all:
  assumes "reach ((=) (ThreadPool n)) (tp_step sp u) s" "i < n"
  shows "taken s i @ data_queue (work_queues s ! i) = given s i \<and>
    (threads s ! i = WTake \<longrightarrow> running (work_queues s ! i) \<longrightarrow> data_queue (work_queues s ! i) \<noteq> []) \<and>
    (i \<noteq> u \<longrightarrow> threads s ! i \<noteq> WTask (Some f)) \<and> Submit n s f = None"
proof -
  have v: "tp_inv u s" by (rule tp.holds_from [OF tp_inv_new assms(1)])
  have l: "length (work_queues s) = n" by (rule reach_length [OF assms(1)])
  then have q: "queue_inv (work_queues s ! i) (threads s ! i) (given s i) (taken s i)"
    using tp_inv_at [OF v] assms(2) v by (simp add: tp_inv_def)
  moreover have "i \<noteq> u \<Longrightarrow> taken s i = []" using v q by (auto simp: tp_inv_def queue_inv_def)
  ultimately show ?thesis using l by (auto simp: queue_inv_def Submit_def)
qed

lemma one_worker_runs_all_witness:
  "taken stuck_pool 0 @ data_queue (work_queues stuck_pool ! 0) = given stuck_pool 0 \<and>
   Submit 1 stuck_pool 7 = None"
  using one_worker_runs_all [OF stuck_reached, where i = 0 and f = 7] by simp

text \<open>\<open>Close\<close> writes \<open>running_\<close> without the mutex, so its notification can be lost: there is a run
  in which the destructor has closed the queue while the worker was about to block; from there
  nothing but a spurious wake-up can happen, and the destructor does not return.\<close>

theorem Close_loses_wakeup:
  "\<exists>s. reach ((=) (ThreadPool 1)) (tp_step False u) s \<and> owner s = Closing 1 \<and> finished s \<and>
    (\<forall>s'. \<not> tp_step False u s s')"
  using stuck_reached stuck_stays by (intro exI [of _ stuck_pool]) (simp add: stuck_pool_def)

end
