(* ===== verification/Dlinked.thy ===== *)
theory Dlinked
  imports Main
begin

text \<open>
  Doubly linked lists in memory, for the caches of \<open>c++/utils/cache\<close>: \<open>nx\<close> and \<open>pv\<close> give the
  successor and predecessor stored at each address.
\<close>

text \<open>The addresses \<open>ys\<close> are linked to each other, in this order and back.\<close>

fun chain :: "(nat \<Rightarrow> nat) \<Rightarrow> (nat \<Rightarrow> nat) \<Rightarrow> nat list \<Rightarrow> bool" where
  "chain nx pv (x # y # zs) \<longleftrightarrow> nx x = y \<and> pv y = x \<and> chain nx pv (y # zs)"
| "chain nx pv _ \<longleftrightarrow> True"

lemma chain_append:
  "chain nx pv (xs @ y # ys) \<longleftrightarrow> chain nx pv (xs @ [y]) \<and> chain nx pv (y # ys)"
proof (induction xs)
  case (Cons x xs)
  then show ?case by (cases xs) auto
qed simp

lemma in_tl: "x \<in> set (tl ys) \<Longrightarrow> x \<in> set ys"
  by (cases ys) auto

lemma chain_cong:
  "(\<And>x. x \<in> set (butlast ys) \<Longrightarrow> nx x = nx' x) \<Longrightarrow> (\<And>x. x \<in> set (tl ys) \<Longrightarrow> pv x = pv' x) \<Longrightarrow>
   chain nx pv ys \<longleftrightarrow> chain nx' pv' ys"
proof (induction ys rule: induct_list012)
  case (3 x y zs)
  have "chain nx pv (y # zs) \<longleftrightarrow> chain nx' pv' (y # zs)"
    by (rule 3(2)) (use 3(3,4) in auto)
  then show ?case using 3(3) [of x] 3(4) [of y] by simp
qed auto

lemma chain_join:
  "chain nx pv (xs @ [p]) \<Longrightarrow> chain nx pv (n # ys) \<Longrightarrow> nx p = n \<Longrightarrow> pv n = p \<Longrightarrow>
   chain nx pv (xs @ p # n # ys)"
  by (simp add: chain_append [of nx pv xs p "n # ys"])

text \<open>Linking \<open>p\<close> to \<open>n\<close> keeps what ends in \<open>p\<close> and what begins with \<open>n\<close>.\<close>

lemma chain_relink:
  assumes "chain nx pv (xs @ [p])" "chain nx pv (n # ys)" "distinct (xs @ p # n # ys)"
  shows "chain (nx(p := n)) (pv(n := p)) (xs @ p # n # ys)"
proof (rule chain_join)
  show "chain (nx(p := n)) (pv(n := p)) (xs @ [p])"
    using assms(1)
    by (subst chain_cong [of _ _ nx _ pv]) (use assms(3) in \<open>auto dest: in_tl\<close>)
  show "chain (nx(p := n)) (pv(n := p)) (n # ys)"
    using assms(2)
    by (subst chain_cong [of _ _ nx _ pv]) (use assms(3) in \<open>auto dest: in_set_butlastD split: if_splits\<close>)
qed simp_all

text \<open>Updates elsewhere.\<close>

lemma chain_frame:
  "z \<notin> set ys \<Longrightarrow> chain (nx(z := a)) pv ys = chain nx pv ys"
  "z \<notin> set ys \<Longrightarrow> chain nx (pv(z := a)) ys = chain nx pv ys"
  by (rule chain_cong; auto dest: in_set_butlastD in_tl)+

lemma chain_remove:
  assumes "chain nx pv (xs @ [p, y, n] @ ys)" "distinct (xs @ [p, y, n] @ ys)"
  shows "chain (nx(p := n)) (pv(n := p)) (xs @ [p, n] @ ys)" "nx y = n" "pv y = p" "nx p = y" "pv n = y"
proof -
  have c: "chain nx pv (xs @ [p])" "chain nx pv (p # y # n # ys)"
    using assms(1) chain_append [of nx pv xs p "y # n # ys"] by simp_all
  then show "nx y = n" "pv y = p" "nx p = y" "pv n = y" by simp_all
  show "chain (nx(p := n)) (pv(n := p)) (xs @ [p, n] @ ys)"
    using chain_relink [of nx pv xs p n ys] c assms(2) by simp
qed

lemma chain_insert:
  assumes "chain nx pv (xs @ [p, n] @ ys)" "distinct (xs @ [p, y, n] @ ys)"
  shows "chain (nx(p := y, y := n)) (pv(y := p, n := y)) (xs @ [p, y, n] @ ys)"
proof -
  have "chain nx pv (xs @ [p])" "chain nx pv (n # ys)"
    using assms(1) chain_append [of nx pv xs p "n # ys"] by simp_all
  then have "chain (nx(p := y)) (pv(y := p)) (xs @ [p, y])" "chain (nx(p := y)) (pv(y := p)) (n # ys)"
    using chain_relink [of nx pv xs p y "[]"] assms(2) by (auto simp: chain_frame)
  then show ?thesis
    using chain_relink [of "nx(p := y)" "pv(y := p)" "xs @ [p]" y n ys] assms(2)
    by (auto simp: fun_upd_twist)
qed

lemma chain_last_pv: "chain nx pv (xs @ [p, n]) \<Longrightarrow> pv n = p \<and> nx p = n"
  using chain_append [of nx pv xs p "[n]"] by simp

lemma chain_pointed: "chain nx pv (a # ys) \<Longrightarrow> y \<in> set ys \<Longrightarrow> \<exists>b. nx b = y"
  by (induction ys arbitrary: a) auto

lemma chain_prefix: "chain nx pv (xs @ ys) \<Longrightarrow> chain nx pv xs"
proof (induction xs rule: induct_list012)
  case (3 x y zs)
  then show ?case by simp
qed simp_all

lemma chain_suffix: "chain nx pv (xs @ ys) \<Longrightarrow> chain nx pv ys"
proof (induction xs)
  case (Cons x xs)
  then show ?case by (cases "xs @ ys") auto
qed simp

text \<open>Moving the run \<open>us\<close>, the front of one list, to the end of another one.\<close>

lemma chain_splice:
  assumes c1: "chain nx pv (zs @ [t, e])" and c2: "chain nx pv (b # us @ v # ws)"
    and us: "us = x # us'" "us = us'' @ [y]"
    and d: "distinct ((zs @ [t, e]) @ b # us @ v # ws)"
  shows "chain (nx(b := v, t := x, y := e)) (pv(v := b, x := t, e := y)) (b # v # ws)"
    and "chain (nx(b := v, t := x, y := e)) (pv(v := b, x := t, e := y)) (zs @ t # us @ [e])"
proof -
  have in_us: "x \<in> set us" "y \<in> set us" 
    by (subst us(1), simp, subst us(2), simp)
  have 1: "chain nx pv (zs @ [t])" using chain_prefix [of nx pv "zs @ [t]" "[e]"] c1 by simp
  have 2: "chain nx pv (us @ v # ws)" using chain_suffix [of nx pv "[b]"] c2 by simp
  have 3: "chain nx pv us" "chain nx pv (v # ws)" using chain_prefix [OF 2] chain_suffix [OF 2] .
  have notin: "t \<notin> set (b # v # ws)" "e \<notin> set (b # v # ws)" "x \<notin> set (b # v # ws)"
      "y \<notin> set (b # v # ws)" using d in_us by auto
  have b: "chain (nx(b := v)) (pv(v := b)) ([] @ b # v # ws)"
    by (rule chain_relink) (use 3 d in auto)
  then show "chain (nx(b := v, t := x, y := e)) (pv(v := b, x := t, e := y)) (b # v # ws)"
    using chain_frame [of _ "b # v # ws"] notin by (simp del: chain.simps)
  have "chain (nx(b := v)) (pv(v := b)) (zs @ [t])" "chain (nx(b := v)) (pv(v := b)) us"
    using 1 3(1) d by (simp_all add: chain_frame)
  then have "chain (nx(b := v, t := x)) (pv(v := b, x := t)) (zs @ t # x # us')"
    using d unfolding us(1) by (intro chain_relink) auto
  then have "chain (nx(b := v, t := x)) (pv(v := b, x := t)) ((zs @ t # us'') @ [y])"
    using us by simp
  then have "chain (nx(b := v, t := x, y := e)) (pv(v := b, x := t, e := y)) ((zs @ t # us'') @ y # e # [])"
    by (rule chain_relink) (use d in \<open>auto simp: us(2)\<close>)
  then show "chain (nx(b := v, t := x, y := e)) (pv(v := b, x := t, e := y)) (zs @ t # us @ [e])"
    using us(2) by simp
qed

lemma last_split: "\<exists>ys. b # xs = ys @ [last (b # xs)]"
  by (metis append_butlast_last_id list.distinct(1))

lemma cons_split: "b # xs = ys @ [p] \<Longrightarrow> b # xs @ zs = ys @ p # zs"
proof -
  assume "b # xs = ys @ [p]"
  then have "(b # xs) @ zs = (ys @ [p]) @ zs" by simp
  then show ?thesis by simp
qed

end
