(* ===== verification/Hash_List.thy ===== *)
theory Hash_List
  imports Dlinked Linked_Queue
begin

text \<open>
  \<open>c++/utils/cache/concurrent_hashlist.h\<close>: the doubly linked list of nodes, each with a mutex, and
  the manager that recycles nodes.  An operation runs alone here: taking a mutex that is held,
  like following a null pointer (address 0), does not return (\<open>None\<close>).  The node of a list is an
  address; its value plays no part.  \<open>time(0)\<close> is the parameter \<open>now\<close>; times are numbers.
\<close>

section \<open>Definitions\<close>

record nodes =
  nx :: "nat \<Rightarrow> nat"
  pv :: "nat \<Rightarrow> nat"
  mode :: "nat \<Rightarrow> bool"
  mtx :: "nat \<Rightarrow> bool"
  timeout :: "nat \<Rightarrow> nat"

record hash_list =
  begin_node :: nat
  end_node :: nat

definition lock :: "nodes \<Rightarrow> nat \<Rightarrow> nodes option" where
  "lock h a = (if a = 0 \<or> mtx h a then None else Some (h\<lparr>mtx := (mtx h)(a := True)\<rparr>))"

definition unlock :: "nodes \<Rightarrow> nat \<Rightarrow> nodes" where
  "unlock h a = h\<lparr>mtx := (mtx h)(a := False)\<rparr>"

definition set_nx :: "nodes \<Rightarrow> nat \<Rightarrow> nat \<Rightarrow> nodes" where
  "set_nx h a b = h\<lparr>nx := (nx h)(a := b)\<rparr>"

definition set_pv :: "nodes \<Rightarrow> nat \<Rightarrow> nat \<Rightarrow> nodes" where
  "set_pv h a b = h\<lparr>pv := (pv h)(a := b)\<rparr>"

definition set_mode :: "nodes \<Rightarrow> nat \<Rightarrow> bool \<Rightarrow> nodes" where
  "set_mode h a b = h\<lparr>mode := (mode h)(a := b)\<rparr>"

text \<open>The constructor, for a list whose sentinels are at \<open>begin_node\<close> and \<open>end_node\<close>.\<close>

definition ConcurrentHashList :: "nodes \<Rightarrow> hash_list \<Rightarrow> nodes" where
  "ConcurrentHashList h l =
     set_pv (set_nx (set_mode (set_mode h (begin_node l) True) (end_node l) True)
       (begin_node l) (end_node l)) (end_node l) (begin_node l)"

text \<open>\<open>LockWithTryLoop(node, ori)\<close> with the value that \<open>ori\<close> has.\<close>

definition LockWithTryLoop :: "nodes \<Rightarrow> nat \<Rightarrow> (nat \<times> nodes) option" where
  "LockWithTryLoop h ori = map_option (\<lambda>h'. (ori, h')) (lock h ori)"

definition PushBack :: "nodes \<Rightarrow> hash_list \<Rightarrow> nat \<Rightarrow> nodes option" where
  "PushBack h l node = do {
     h1 \<leftarrow> lock h (end_node l);
     (ep, h2) \<leftarrow> LockWithTryLoop h1 (pv h1 (end_node l));
     let h3 = set_mode h2 node True;
     let h4 = set_nx h3 ep node;
     let h5 = set_pv h4 node ep;
     let h6 = set_nx h5 node (end_node l);
     let h7 = set_pv h6 (end_node l) node;
     Some (unlock (unlock h7 ep) (end_node l)) }"

definition PopHead :: "nodes \<Rightarrow> hash_list \<Rightarrow> (nat \<times> nodes) option" where
  "PopHead h l = do {
     (hn, h1) \<leftarrow> LockWithTryLoop h (nx h (begin_node l));
     h2 \<leftarrow> lock h1 (begin_node l);
     let ret = nx h2 (begin_node l);
     let h3 = (if ret \<noteq> end_node l then
         (let rn = nx h2 ret in
          set_mode (set_pv (set_nx h2 (begin_node l) rn) rn (begin_node l)) ret False)
       else h2);
     Some (ret, unlock (unlock h3 (begin_node l)) hn) }"

definition DetachNode :: "nodes \<Rightarrow> nat \<Rightarrow> (bool \<times> nodes) option" where
  "DetachNode h node = do {
     (n, h1) \<leftarrow> LockWithTryLoop h (nx h node);
     (ret, h2) \<leftarrow> (if mode h1 node then do {
         h2 \<leftarrow> lock h1 node;
         let h3 = set_mode h2 node False;
         (p, h4) \<leftarrow> LockWithTryLoop h3 (pv h3 node);
         let h5 = set_pv (set_nx h4 p n) n p;
         Some (True, unlock (unlock h5 p) node) }
       else Some (False, h1));
     Some (ret, unlock h2 n) }"

subsection \<open>The node manager\<close>

record manager =
  heap :: nodes
  fresh :: nat
  window :: nat
  running :: bool

definition resouce :: hash_list where "resouce = \<lparr>begin_node = 1, end_node = 2\<rparr>"

definition reclaimer :: hash_list where "reclaimer = \<lparr>begin_node = 3, end_node = 4\<rparr>"

definition new_node :: "manager \<Rightarrow> manager option" where
  "new_node m = do {
     h \<leftarrow> PushBack (set_mode (heap m) (fresh m) True) resouce (fresh m);
     Some (m\<lparr>heap := h, fresh := fresh m + 1\<rparr>) }"

definition no_nodes :: nodes where
  "no_nodes = \<lparr>nx = \<lambda>_. 0, pv = \<lambda>_. 0, mode = \<lambda>_. False, mtx = \<lambda>_. False, timeout = \<lambda>_. 2 ^ 63\<rparr>"

fun new_nodes :: "nat \<Rightarrow> manager \<Rightarrow> manager option" where
  "new_nodes 0 m = Some m"
| "new_nodes (Suc k) m = do { m' \<leftarrow> new_node m; new_nodes k m' }"

definition NodeManager :: "nat \<Rightarrow> nat \<Rightarrow> manager option" where
  "NodeManager capacity window_s =
     new_nodes capacity \<lparr>heap = ConcurrentHashList (ConcurrentHashList no_nodes resouce) reclaimer,
       fresh = 5, window = window_s, running = True\<rparr>"

definition GetOne :: "manager \<Rightarrow> (nat \<times> manager) option" where
  "GetOne m = do {
     (ret, h) \<leftarrow> PopHead (heap m) resouce;
     if ret = 0 then do {
       m' \<leftarrow> new_node (m\<lparr>heap := h\<rparr>);
       Some (fresh m, m') }
     else Some (ret, m\<lparr>heap := set_nx h ret 0\<rparr>) }"

definition Reclaim :: "manager \<Rightarrow> nat \<Rightarrow> nat \<Rightarrow> (bool \<times> manager) option" where
  "Reclaim m now node =
     (let h = (set_mode (heap m) node False)\<lparr>timeout := (timeout (heap m))(node := now + window m)\<rparr> in
      if running m then do { h' \<leftarrow> PushBack h reclaimer node; Some (True, m\<lparr>heap := h'\<rparr>) }
      else Some (False, m\<lparr>heap := h\<rparr>))"

partial_function (option) expired_run :: "nodes \<Rightarrow> nat \<Rightarrow> nat \<Rightarrow> (nat \<times> nodes) option" where
  [code]: "expired_run h now cur = (let final = cur; cur' = nx h cur in
     if cur' = end_node reclaimer \<or> timeout h cur' > now then Some (final, h)
     else expired_run (set_mode h cur' True) now cur')"

text \<open>The two blocks of \<open>Reuse\<close> that cut the nodes up to \<open>last\<close> (here \<open>final\<close>) off and append them.\<close>

definition cut_front :: "nodes \<Rightarrow> nat \<Rightarrow> nodes option" where
  "cut_front h final = do {
     (tmp, h1) \<leftarrow> LockWithTryLoop h (nx h final);
     let h2 = set_nx h1 (begin_node reclaimer) tmp;
     let h3 = set_pv h2 tmp (begin_node reclaimer);
     Some (unlock h3 tmp) }"

definition append_run :: "nodes \<Rightarrow> nat \<Rightarrow> nat \<Rightarrow> nodes option" where
  "append_run h cur final = do {
     h1 \<leftarrow> lock h (end_node resouce);
     (tmp, h2) \<leftarrow> LockWithTryLoop h1 (pv h1 (end_node resouce));
     let h3 = set_nx h2 tmp cur;
     let h4 = set_pv h3 cur tmp;
     let h5 = set_nx h4 final (end_node resouce);
     let h6 = set_pv h5 (end_node resouce) final;
     Some (unlock (unlock h6 tmp) (end_node resouce)) }"

definition Reuse :: "manager \<Rightarrow> nat \<Rightarrow> (bool \<times> manager) option" where
  "Reuse m now = do {
     (final, h) \<leftarrow> expired_run (heap m) now (begin_node reclaimer);
     if final = begin_node reclaimer then Some (False, m\<lparr>heap := h\<rparr>)
     else do {
       let cur = nx h (begin_node reclaimer);
       h' \<leftarrow> cut_front h final;
       h'' \<leftarrow> append_run h' cur final;
       Some (True, m\<lparr>heap := h''\<rparr>) } }"

section \<open>Lists in memory\<close>

definition dlist :: "nodes \<Rightarrow> hash_list \<Rightarrow> nat list \<Rightarrow> bool" where
  "dlist h l xs \<longleftrightarrow> chain (nx h) (pv h) (begin_node l # xs @ [end_node l]) \<and>
     distinct (0 # begin_node l # xs @ [end_node l]) \<and> mtx h = (\<lambda>_. False)"

lemmas node_defs = lock_def unlock_def set_nx_def set_pv_def set_mode_def LockWithTryLoop_def

lemma dlist_pred:
  assumes "dlist h l xs"
  shows "pv h (end_node l) = last (begin_node l # xs)"
proof -
  define p where "p = last (begin_node l # xs)"
  obtain ys where yp: "begin_node l # xs = ys @ [p]" using last_split [of "begin_node l" xs] unfolding p_def by blast
  have "chain (nx h) (pv h) (ys @ [p, end_node l])"
    using assms unfolding dlist_def cons_split [OF yp] by blast
  then show ?thesis using chain_last_pv unfolding p_def by blast
qed

lemma dlist_first: "dlist h l xs \<Longrightarrow> nx h (begin_node l) = hd (xs @ [end_node l])"
  by (cases xs) (auto simp: dlist_def)

lemma dlist_notin:
  "dlist h l xs \<Longrightarrow> p \<in> set (begin_node l # xs) \<Longrightarrow> p \<noteq> 0 \<and> p \<noteq> end_node l"
  unfolding dlist_def by (intro conjI notI) auto

lemma free_lock: "(\<lambda>_. False)(a := True, b := True, b := False, a := False) = (\<lambda>_ :: nat. False)"
  "(\<lambda>_. False)(a := True, b := True, a := False, b := False) = (\<lambda>_ :: nat. False)"
  "(\<lambda>_. False)(a := True, a := False) = (\<lambda>_ :: nat. False)"
  by (auto simp: fun_eq_iff)

lemma free_lock' [simp]: "(\<lambda>_. False)(a := False) = (\<lambda>_ :: nat. False)"
  by (auto simp: fun_eq_iff)

lemma hash_push_spec:
  assumes "dlist h l xs"
  shows "PushBack h l f = Some (h\<lparr>nx := (nx h)(last (begin_node l # xs) := f, f := end_node l),
    pv := (pv h)(f := last (begin_node l # xs), end_node l := f), mode := (mode h)(f := True)\<rparr>)"
proof -
  define p where "p = last (begin_node l # xs)"
  have "p \<in> set (begin_node l # xs)" unfolding p_def by (rule last_in_set) simp
  then have "p \<noteq> 0" "p \<noteq> end_node l" "end_node l \<noteq> 0" "mtx h = (\<lambda>_. False)"
    using assms dlist_notin [OF assms] by (auto simp: dlist_def)
  then show ?thesis using dlist_pred [OF assms] free_lock(1) [of "end_node l" p]
    unfolding p_def [symmetric] by (simp add: PushBack_def node_defs fun_upd_twist)
qed

lemma dlist_push:
  assumes "dlist h l xs" "f \<notin> set (0 # begin_node l # xs @ [end_node l])"
  shows "\<exists>h'. PushBack h l f = Some h' \<and> dlist h' l (xs @ [f])"
proof -
  define p where "p = last (begin_node l # xs)"
  obtain ys where yp: "begin_node l # xs = ys @ [p]" using last_split [of "begin_node l" xs] unfolding p_def by blast
  have e: "begin_node l # xs @ [end_node l] = ys @ [p, end_node l] @ []"
      "begin_node l # (xs @ [f]) @ [end_node l] = ys @ [p, f, end_node l] @ []"
    using cons_split [OF yp, of "[end_node l]"] cons_split [OF yp, of "[f, end_node l]"] by simp_all
  have d: "distinct (begin_node l # (xs @ [f]) @ [end_node l])" using assms by (auto simp: dlist_def)
  have "chain (nx h) (pv h) (ys @ [p, end_node l] @ [])"
    using assms(1) unfolding dlist_def e(1) by blast
  from chain_insert [OF this, of f] d
  have "chain ((nx h)(p := f, f := end_node l)) ((pv h)(f := p, end_node l := f))
      (begin_node l # (xs @ [f]) @ [end_node l])" unfolding e(2) by simp
  then show ?thesis using hash_push_spec [OF assms(1), of f, folded p_def] assms d
    by (auto simp: dlist_def)
qed

lemma hash_pop_empty:
  "dlist h l [] \<Longrightarrow> PopHead h l = Some (end_node l, h)"
  using free_lock(2) [of "end_node l" "begin_node l"]
  by (auto simp: dlist_def PopHead_def node_defs fun_upd_twist)

lemma hash_pop_spec:
  assumes "dlist h l (x # xs)"
  defines "h' \<equiv> h\<lparr>nx := (nx h)(begin_node l := nx h x), pv := (pv h)(nx h x := begin_node l),
    mode := (mode h)(x := False)\<rparr>"
  shows "PopHead h l = Some (x, h')" "dlist h' l xs" "nx h x = hd (xs @ [end_node l])"
proof -
  obtain n ys where e: "xs @ [end_node l] = n # ys" by (cases xs) auto
  have d: "chain (nx h) (pv h) ([] @ [begin_node l, x, n] @ ys)" "distinct ([] @ [begin_node l, x, n] @ ys)"
    using assms(1) unfolding dlist_def append_Cons e by simp_all
  have f: "x \<noteq> 0" "begin_node l \<noteq> 0" "x \<noteq> end_node l" "mtx h = (\<lambda>_. False)" "x \<noteq> begin_node l"
    using assms(1) unfolding dlist_def by auto
  note r = chain_remove [OF d]
  show "nx h x = hd (xs @ [end_node l])" using r(2) e by simp
  show "dlist h' l xs"
    using r(1,2) assms(1) unfolding dlist_def h'_def by (simp add: e)
  show "PopHead h l = Some (x, h')"
    using f r(2,4) free_lock(2) [of x "begin_node l"] by (simp add: PopHead_def node_defs fun_upd_twist h'_def)
qed

lemma DetachNode_spec:
  assumes "dlist h l (xs @ y # zs)" "mode h y"
  shows "\<exists>h'. DetachNode h y = Some (True, h') \<and> dlist h' l (xs @ zs) \<and> mode h' = (mode h)(y := False)"
proof -
  define p where "p = last (begin_node l # xs)"
  obtain us where yp: "begin_node l # xs = us @ [p]"
    using last_split [of "begin_node l" xs] unfolding p_def by blast
  obtain n ys where e: "zs @ [end_node l] = n # ys" by (cases zs) auto
  have w: "begin_node l # (xs @ y # zs) @ [end_node l] = us @ [p, y, n] @ ys"
      "begin_node l # (xs @ zs) @ [end_node l] = us @ [p, n] @ ys"
    using cons_split [OF yp, of "y # zs @ [end_node l]"] cons_split [OF yp, of "zs @ [end_node l]"]
    unfolding e by (simp_all add: e)
  have d: "chain (nx h) (pv h) (us @ [p, y, n] @ ys)" "distinct (0 # us @ [p, y, n] @ ys)"
      "mtx h = (\<lambda>_. False)"
    using assms(1) unfolding dlist_def w by simp_all
  note r = chain_remove [OF d(1)]
  have "dlist (h\<lparr>nx := (nx h)(p := n), pv := (pv h)(n := p), mode := (mode h)(y := False)\<rparr>) l (xs @ zs)"
    unfolding dlist_def w using r(1) d by simp
  moreover have "(\<lambda>_. False)(n := True, y := True, p := True, p := False, y := False, n := False) =
      (\<lambda>_ :: nat. False)" by (auto simp: fun_eq_iff)
  then have "DetachNode h y = Some (True, h\<lparr>nx := (nx h)(p := n), pv := (pv h)(n := p),
      mode := (mode h)(y := False)\<rparr>)"
    using d(2,3) r(2,3) assms(2) by (simp add: DetachNode_def node_defs)
  ultimately show ?thesis by auto
qed

text \<open>A node that nothing points to may be pushed.\<close>

definition unlinked :: "hash_list \<Rightarrow> nodes \<Rightarrow> nat \<Rightarrow> bool" where
  "unlinked l h f \<longleftrightarrow> f \<noteq> 0 \<and> f \<noteq> begin_node l \<and> (\<forall>a. nx h a \<noteq> f)"

lemma unlinked_notin: "dlist h l xs \<Longrightarrow> unlinked l h f \<Longrightarrow> f \<notin> set (0 # begin_node l # xs @ [end_node l])"
  using chain_pointed [of "nx h" "pv h" "begin_node l" "xs @ [end_node l]" f]
  by (auto simp: dlist_def unlinked_def)

definition pop_first :: "hash_list \<Rightarrow> nodes \<Rightarrow> (nat option \<times> nodes) option" where
  "pop_first l h = do { (r, h') \<leftarrow> PopHead h l; Some (if r = end_node l then None else Some r, h') }"

interpretation hl: fifo "\<lambda>h. dlist h l" "unlinked l" "\<lambda>h. PushBack h l" "pop_first l" for l
proof
  show "\<exists>h'. PushBack h l f = Some h' \<and> dlist h' l (xs @ [f])" if "dlist h l xs" "unlinked l h f" for h xs f
    by (rule dlist_push [OF that(1) unlinked_notin [OF that]])
  show "\<exists>h'. pop_first l h = Some (None, h') \<and> dlist h' l []" if "dlist h l []" for h
    using hash_pop_empty [OF that] that by (simp add: pop_first_def)
  show "\<exists>h'. pop_first l h = Some (Some x, h') \<and> dlist h' l xs" if "dlist h l (x # xs)" for h x xs
  proof -
    have "x \<noteq> end_node l" using that by (auto simp: dlist_def)
    then show ?thesis using hash_pop_spec(1,2) [OF that] by (simp add: pop_first_def)
  qed
qed

section \<open>Recycling\<close>

lemma expired_run_spec:
  "chain (nx h) (pv h) (c # us @ v # ws) \<Longrightarrow> end_node reclaimer \<notin> set us \<Longrightarrow>
   \<forall>u \<in> set us. timeout h u \<le> now \<Longrightarrow> v = end_node reclaimer \<or> timeout h v > now \<Longrightarrow>
   expired_run h now c = Some (last (c # us), h\<lparr>mode := \<lambda>a. a \<in> set us \<or> mode h a\<rparr>)"
proof (induction us arbitrary: c h)
  case Nil
  then show ?case by (auto simp: expired_run.simps [of h now c])
next
  case (Cons u us)
  have "expired_run (set_mode h u True) now u =
      Some (last (u # us), (set_mode h u True)\<lparr>mode := \<lambda>a. a \<in> set us \<or> mode (set_mode h u True) a\<rparr>)"
    by (rule Cons(1)) (use Cons(2-5) in \<open>auto simp: set_mode_def\<close>)
  moreover have "(\<lambda>a. a \<in> set us \<or> mode (set_mode h u True) a) = (\<lambda>a. a \<in> set (u # us) \<or> mode h a)"
    by (auto simp: set_mode_def)
  ultimately show ?case using Cons(2-4) by (simp add: expired_run.simps [of h now c] set_mode_def)
qed

text \<open>The two lists of a manager.\<close>

definition holds :: "manager \<Rightarrow> nat list \<Rightarrow> nat list \<Rightarrow> bool" where
  "holds m xs ys \<longleftrightarrow> dlist (heap m) resouce xs \<and> dlist (heap m) reclaimer ys \<and>
     set (1 # xs @ [2]) \<inter> set (3 # ys @ [4]) = {} \<and> (\<forall>a \<in> set (xs @ ys). a < fresh m) \<and> 5 \<le> fresh m"

lemma resouce_sel [simp]: "begin_node resouce = 1" "end_node resouce = 2"
  "begin_node reclaimer = 3" "end_node reclaimer = 4"
  by (simp_all add: resouce_def reclaimer_def)

lemma dlist_mode [simp]: "dlist (h\<lparr>mode := f\<rparr>) l xs = dlist h l xs"
  by (simp add: dlist_def)

lemma Reuse_none:
  assumes "holds m xs ys" "takeWhile (\<lambda>a. timeout (heap m) a \<le> now) ys = []"
  shows "\<exists>m'. Reuse m now = Some (False, m') \<and> holds m' xs ys \<and> timeout (heap m') = timeout (heap m)"
proof -
  obtain v ws where v: "ys @ [4] = v # ws" by (cases ys) auto
  have "v = 4 \<or> timeout (heap m) v > now" using assms(2) v by (cases ys) (auto split: if_splits)
  moreover have "chain (nx (heap m)) (pv (heap m)) (3 # [] @ v # ws)"
    using assms(1) v by (simp add: holds_def dlist_def)
  ultimately have "expired_run (heap m) now 3 = Some (3, heap m)"
    using expired_run_spec [of "heap m" 3 "[]" v ws now] by simp
  then show ?thesis using assms(1) by (simp add: Reuse_def)
qed

lemma cut_append:
  assumes h: "nx h y = v" "pv h 2 = t" "mtx h = (\<lambda>_. False)"
    and ne: "v \<noteq> 0" "t \<noteq> 0" "t \<noteq> 2" "v \<noteq> 2"
  shows "do { h' \<leftarrow> cut_front h y; append_run h' x y } =
    Some (h\<lparr>nx := (nx h)(3 := v, t := x, y := 2), pv := (pv h)(v := 3, x := t, 2 := y)\<rparr>)"
  using h ne free_lock(1) [of 2 t] by (simp add: cut_front_def append_run_def node_defs)

lemma holds_chains:
  "holds m xs ys \<longleftrightarrow> chain (nx (heap m)) (pv (heap m)) (1 # xs @ [2]) \<and>
    chain (nx (heap m)) (pv (heap m)) (3 # ys @ [4]) \<and> distinct (0 # (1 # xs @ [2]) @ 3 # ys @ [4]) \<and>
    mtx (heap m) = (\<lambda>_. False) \<and> (\<forall>a \<in> set (xs @ ys). a < fresh m) \<and> 5 \<le> fresh m"
  by (auto simp: holds_def dlist_def)

lemma Reuse_some:
  assumes m: "holds m xs ys" and us: "takeWhile (\<lambda>a. timeout (heap m) a \<le> now) ys = us" "us \<noteq> []"
  shows "\<exists>m'. Reuse m now = Some (True, m') \<and>
    holds m' (xs @ us) (dropWhile (\<lambda>a. timeout (heap m) a \<le> now) ys) \<and> timeout (heap m') = timeout (heap m)"
proof -
  let ?h = "heap m"
  define vs where "vs = dropWhile (\<lambda>a. timeout ?h a \<le> now) ys"
  have ys: "ys = us @ vs" using us(1) takeWhile_dropWhile_id unfolding vs_def by metis
  obtain v ws where v: "vs @ [4] = v # ws" by (cases vs) auto
  obtain x us' us'' y where xy: "us = x # us'" "us = us'' @ [y]"
    using us(2) by (metis list.exhaust append_butlast_last_id)
  define t where "t = last (1 # xs)"
  obtain zs where z: "1 # xs = zs @ [t]" using last_split [of 1 xs] unfolding t_def by blast
  have z2: "1 # xs @ [2] = zs @ [t, 2]" using cons_split [OF z, of "[2]"] .
  have w: "3 # ys @ [4] = 3 # us @ v # ws" using ys v by simp
  have d: "chain (nx ?h) (pv ?h) (zs @ [t, 2])" "chain (nx ?h) (pv ?h) (3 # us @ v # ws)"
      "distinct (0 # (zs @ [t, 2]) @ 3 # us @ v # ws)" "mtx ?h = (\<lambda>_. False)"
    using m unfolding holds_chains z2 w by blast+
  then have d': "distinct ((zs @ [t, 2]) @ 3 # us @ v # ws)" by simp
  have vt: "v = 4 \<or> timeout ?h v > now"
    using v hd_dropWhile [of "\<lambda>a. timeout ?h a \<le> now" ys] unfolding vs_def [symmetric]
    by (cases vs) (auto simp: not_le)
  have tu: "\<forall>u \<in> set us. timeout ?h u \<le> now" using us(1) set_takeWhileD by fastforce
  let ?h1 = "?h\<lparr>mode := \<lambda>a. a \<in> set us \<or> mode ?h a\<rparr>"
  have "distinct (3 # us @ vs @ [4])" using d' unfolding w [symmetric] ys by simp
  then have four: "4 \<notin> set us" by auto
  have e: "expired_run ?h now 3 = Some (y, ?h1)"
    using expired_run_spec [OF d(2) _ tu] four vt xy(2) by simp
  have "chain (nx ?h) (pv ?h) ((3 # us'') @ y # v # ws)" using d(2) xy(2) by simp
  then have "nx ?h y = v" using chain_suffix [of "nx ?h" "pv ?h" "3 # us''"] by fastforce
  moreover have "nx ?h 3 = x" using d(2) xy(1) by simp
  ultimately have p: "nx ?h1 y = v" "pv ?h1 2 = t" "nx ?h1 3 = x" using chain_last_pv [OF d(1)] by simp_all
  define h2 where "h2 = ?h1\<lparr>nx := (nx ?h1)(3 := v, t := x, y := 2), pv := (pv ?h1)(v := 3, x := t, 2 := y)\<rparr>"
  have c: "do { h' \<leftarrow> cut_front ?h1 y; append_run h' x y } = Some h2"
    unfolding h2_def by (rule cut_append) (use p d(3,4) in auto)
  then obtain h' where h': "cut_front ?h1 y = Some h'" "append_run h' x y = Some h2"
    by (auto split: Option.bind_splits)
  have "y \<noteq> 3" using d' xy(2) by auto
  then have "Reuse m now = Some (True, m\<lparr>heap := h2\<rparr>)"
    using e h' p(3) by (simp add: Reuse_def)
  moreover have "holds (m\<lparr>heap := h2\<rparr>) (xs @ us) vs"
  proof -
    have q: "1 # (xs @ us) @ [2] = zs @ t # us @ [2]" using cons_split [OF z, of "us @ [2]"] by simp
    have "chain (nx h2) (pv h2) (1 # (xs @ us) @ [2])" "chain (nx h2) (pv h2) (3 # vs @ [4])"
      using chain_splice [OF d(1,2) xy d'] unfolding v q by (simp_all add: h2_def del: chain.simps)
    then show ?thesis using m unfolding holds_chains ys by (auto simp: h2_def)
  qed
  ultimately show ?thesis unfolding vs_def by (auto simp: h2_def)
qed

lemma dlist_frame:
  assumes "dlist h l xs" "nx h' = (nx h)(a := b, c := d)" "pv h' = (pv h)(e := f, g := k)" "mtx h' = mtx h"
    "{a, c, e, g} \<inter> set (begin_node l # xs @ [end_node l]) = {}"
  shows "dlist h' l xs"
proof -
  have "chain (nx h') (pv h') (begin_node l # xs @ [end_node l])"
    using assms(1,5) chain_frame [of _ "begin_node l # xs @ [end_node l]"]
    unfolding dlist_def assms(2,3) by (simp del: chain.simps)
  then show ?thesis using assms(1,4) by (simp add: dlist_def)
qed

lemma new_node_spec:
  assumes "holds m xs ys"
  shows "\<exists>m'. new_node m = Some m' \<and> holds m' (xs @ [fresh m]) ys \<and> fresh m' = fresh m + 1 \<and>
    window m' = window m \<and> running m' = running m"
proof -
  let ?f = "fresh m"
  let ?h = "set_mode (heap m) ?f True"
  have h: "dlist ?h resouce xs" "dlist ?h reclaimer ys" "set (1 # xs @ [2]) \<inter> set (3 # ys @ [4]) = {}"
      "\<forall>a \<in> set (xs @ ys). a < ?f" "5 \<le> ?f"
    using assms by (simp_all add: holds_def set_mode_def)
  have f: "?f \<notin> set (0 # 1 # xs @ [2])" "?f \<notin> set (3 # ys @ [4])" using h(4,5) by auto
  obtain h' where h': "PushBack ?h resouce ?f = Some h'" "dlist h' resouce (xs @ [?f])"
    using dlist_push [OF h(1)] f(1) by auto
  have "last (1 # xs) \<in> set (1 # xs)" by (rule last_in_set) simp
  then have "last (1 # xs) \<notin> set (3 # ys @ [4])" using h(3) by auto
  moreover have "2 \<notin> set (3 # ys @ [4])" using h(3) by auto
  moreover note s = hash_push_spec [OF h(1), of ?f, unfolded resouce_sel]
  ultimately have "dlist h' reclaimer ys"
    using f(2) h'(1)
    by (intro dlist_frame [OF h(2), of h' "last (1 # xs)" ?f ?f 2 ?f "last (1 # xs)" 2 ?f]) auto
  then have "holds (m\<lparr>heap := h', fresh := ?f + 1\<rparr>) (xs @ [?f]) ys"
    using h'(2) h(3-5) f by (auto simp: holds_def intro: less_SucI)
  then show ?thesis using h'(1) by (simp add: new_node_def)
qed

lemma new_nodes_spec:
  "holds m xs ys \<Longrightarrow> \<exists>m'. new_nodes k m = Some m' \<and> holds m' (xs @ [fresh m..<fresh m + k]) ys \<and>
    fresh m' = fresh m + k \<and> window m' = window m \<and> running m' = running m"
proof (induction k arbitrary: m xs)
  case (Suc k)
  obtain m1 where m1: "new_node m = Some m1" "holds m1 (xs @ [fresh m]) ys" "fresh m1 = fresh m + 1"
      "window m1 = window m" "running m1 = running m"
    using new_node_spec [OF Suc(2)] by blast
  have "[fresh m] @ [fresh m + 1..<fresh m + 1 + k] = [fresh m..<fresh m + Suc k]"
    by (simp add: upt_conv_Cons)
  then show ?case using Suc(1) [OF m1(2)] m1 by fastforce
qed simp

lemma NodeManager_spec:
  "\<exists>m. NodeManager k w = Some m \<and> holds m [5..<5 + k] [] \<and> fresh m = 5 + k \<and> window m = w \<and> running m"
proof -
  have "holds \<lparr>heap = ConcurrentHashList (ConcurrentHashList no_nodes resouce) reclaimer,
      fresh = 5, window = w, running = True\<rparr> [] []"
    by (simp add: holds_chains ConcurrentHashList_def no_nodes_def set_nx_def set_pv_def set_mode_def)
  from new_nodes_spec [OF this, of k] show ?thesis by (auto simp: NodeManager_def)
qed

lemma GetOne_first:
  assumes "holds m (x # xs) ys"
  shows "\<exists>m'. GetOne m = Some (x, m') \<and> holds m' xs ys \<and> fresh m' = fresh m"
proof -
  have h: "dlist (heap m) resouce (x # xs)" "dlist (heap m) reclaimer ys"
      "set (1 # (x # xs) @ [2]) \<inter> set (3 # ys @ [4]) = {}"
    using assms by (simp_all add: holds_def)
  note p = hash_pop_spec [OF h(1), unfolded resouce_sel]
  let ?n = "nx (heap m) x"
  let ?h = "(heap m)\<lparr>nx := (nx (heap m))(1 := ?n), pv := (pv (heap m))(?n := 1),
    mode := (mode (heap m))(x := False)\<rparr>"
  have n: "?n \<in> set (xs @ [2])" unfolding p(3) by (rule hd_in_set) simp
  have x: "x \<noteq> 0" "x \<notin> set (1 # xs @ [2])" using h(1) by (auto simp: dlist_def)
  have "dlist (set_nx ?h x 0) resouce xs"
    by (rule dlist_frame [OF p(2), of _ x 0 x 0 x "pv ?h x" x "pv ?h x"])
      (use x in \<open>auto simp: set_nx_def\<close>)
  moreover have "dlist (set_nx ?h x 0) reclaimer ys"
    by (rule dlist_frame [OF h(2), of _ 1 ?n x 0 ?n 1 ?n 1])
      (use h(3) n in \<open>auto simp: set_nx_def\<close>)
  ultimately have "holds (m\<lparr>heap := set_nx ?h x 0\<rparr>) xs ys" using assms by (simp add: holds_def)
  then show ?thesis using p(1) x by (simp add: GetOne_def)
qed

lemma GetOne_empty:
  assumes "holds m [] ys"
  shows "\<exists>m'. GetOne m = Some (2, m') \<and> holds m' [] ys \<and> fresh m' = fresh m"
proof -
  have h: "dlist (heap m) resouce []" "dlist (heap m) reclaimer ys" "2 \<notin> set (3 # ys @ [4])"
    using assms by (auto simp: holds_def)
  have "dlist (set_nx (heap m) 2 0) resouce []"
    using h(1) by (simp add: dlist_def set_nx_def)
  moreover have "dlist (set_nx (heap m) 2 0) reclaimer ys"
    by (rule dlist_frame [OF h(2), of _ 2 0 2 0 2 "pv (heap m) 2" 2 "pv (heap m) 2"])
      (use h(3) in \<open>auto simp: set_nx_def\<close>)
  ultimately have "holds (m\<lparr>heap := set_nx (heap m) 2 0\<rparr>) [] ys" using assms by (simp add: holds_def)
  then show ?thesis using hash_pop_empty [OF h(1)] by (simp add: GetOne_def)
qed

text \<open>Taking \<open>k\<close> nodes.\<close>

fun get_many :: "nat \<Rightarrow> manager \<Rightarrow> (nat list \<times> manager) option" where
  "get_many 0 m = Some ([], m)"
| "get_many (Suc k) m = do {
     (a, m1) \<leftarrow> GetOne m;
     (as, m2) \<leftarrow> get_many k m1;
     Some (a # as, m2) }"

lemma get_many_empty:
  "holds m [] ys \<Longrightarrow> \<exists>m'. get_many k m = Some (replicate k 2, m') \<and> holds m' [] ys \<and> fresh m' = fresh m"
proof (induction k arbitrary: m)
  case (Suc k)
  then show ?case using GetOne_empty [OF Suc(2)] by fastforce
qed simp

lemma get_many_spec:
  "holds m xs ys \<Longrightarrow> \<exists>m'. get_many (length xs + k) m = Some (xs @ replicate k 2, m') \<and>
    holds m' [] ys \<and> fresh m' = fresh m"
proof (induction xs arbitrary: m)
  case Nil
  then show ?case using get_many_empty by simp
next
  case (Cons x xs)
  then show ?case using GetOne_first [OF Cons(2)] by fastforce
qed

text \<open>The nodes whose time has come.\<close>

definition late :: "manager \<Rightarrow> nat \<Rightarrow> nat \<Rightarrow> bool" where
  "late m now a \<longleftrightarrow> timeout (heap m) a \<le> now"

section \<open>Properties\<close>

text \<open>\<open>ConcurrentHashList\<close> is a list: \<open>PushBack\<close> appends a node, \<open>PopHead\<close> takes the first one,
  \<open>DetachNode\<close> takes an available node out of the middle, and every call returns with both
  directions of links right and all mutexes released.\<close>

theorem hash_list_correct:
  assumes "dlist h l (xs @ y # zs)" "unlinked l h f" "mode h y"
  shows "(\<exists>h'. PushBack h l f = Some h' \<and> dlist h' l (xs @ y # zs @ [f])) \<and>
    (\<exists>h'. PopHead h l = Some (hd (xs @ [y]), h') \<and> dlist h' l (tl (xs @ y # zs))) \<and>
    (\<exists>h'. DetachNode h y = Some (True, h') \<and> dlist h' l (xs @ zs))"
proof -
  have "\<exists>h'. PopHead h l = Some (hd (xs @ [y]), h') \<and> dlist h' l (tl (xs @ y # zs))"
    using hash_pop_spec(1,2) [of h l "hd (xs @ [y])" "tl (xs @ y # zs)"] assms(1) by (cases xs) auto
  then show ?thesis using hl.enq [OF assms(1,2)] DetachNode_spec [OF assms(1,3)] by auto
qed

lemma hash_list_correct_witness:
  "\<exists>h'. PopHead (\<lparr>nx = (\<lambda>_. 0)(1 := 5, 5 := 6, 6 := 2), pv = (\<lambda>_. 0)(5 := 1, 6 := 5, 2 := 6),
    mode = \<lambda>_. True, mtx = \<lambda>_. False, timeout = \<lambda>_. 0\<rparr>) resouce = Some (5, h') \<and> dlist h' resouce [6]"
proof -
  let ?h = "\<lparr>nx = (\<lambda>_. 0)(1 := 5, 5 := 6, 6 := 2), pv = (\<lambda>_. 0)(5 := 1, 6 := 5, 2 := 6),
    mode = \<lambda>_. True, mtx = \<lambda>_. False, timeout = \<lambda>_. 0\<rparr>"
  have "dlist ?h resouce ([5] @ 6 # [])" by (simp add: dlist_def)
  moreover have "unlinked resouce ?h 7" by (simp add: unlinked_def)
  ultimately show ?thesis using hash_list_correct [of ?h resouce "[5]" 6 "[]" 7] by simp
qed

text \<open>\<open>Reuse\<close> moves exactly the expired nodes at the front of the reclaimed list, in their order,
  to the end of the list of resources, says whether there were any, and always returns.\<close>

theorem Reuse_moves_expired:
  assumes "holds m xs ys"
  shows "\<exists>m'. Reuse m now = Some (takeWhile (late m now) ys \<noteq> [], m') \<and>
    holds m' (xs @ takeWhile (late m now) ys) (dropWhile (late m now) ys) \<and>
    timeout (heap m') = timeout (heap m)"
proof -
  have late: "late m now = (\<lambda>a. timeout (heap m) a \<le> now)" by (auto simp: late_def)
  show ?thesis
  proof (cases "takeWhile (late m now) ys = []")
    case True
    then have "dropWhile (late m now) ys = ys" by (metis append_Nil takeWhile_dropWhile_id)
    then show ?thesis using Reuse_none [OF assms] True unfolding late by simp
  next
    case False
    then show ?thesis using Reuse_some [OF assms refl] unfolding late by simp
  qed
qed

lemma Reuse_moves_expired_witness:
  "\<exists>m m'. NodeManager 1 60 = Some m \<and> Reuse m 0 = Some (False, m') \<and> holds m' [5] []"
proof -
  obtain m where "NodeManager 1 60 = Some m" "holds m [5] []"
    using NodeManager_spec [of 1 60] by (auto simp: upt_rec)
  with Reuse_moves_expired [of m "[5]" "[]" 0] show ?thesis by auto
qed

text \<open>A manager of capacity \<open>k\<close> hands out its \<open>k\<close> nodes once each; from then on every \<open>GetOne\<close>
  returns the sentinel \<open>end_\<close> of its own list, because \<open>PopHead\<close> of an empty list does not return
  null: no node is ever allocated later, however many are asked for.\<close>

theorem GetOne_returns_sentinel:
  "\<exists>m m'. NodeManager k w = Some m \<and> get_many (k + j) m = Some ([5..<5 + k] @ replicate j 2, m') \<and>
    fresh m' = fresh m \<and> end_node resouce = 2"
proof -
  obtain m where m: "NodeManager k w = Some m" "holds m [5..<5 + k] []"
    using NodeManager_spec [of k w] by blast
  then show ?thesis using get_many_spec [OF m(2), of j] by auto
qed

end
