(* ===== verification/Url_Encode.thy ===== *)
theory Url_Encode
  imports Bytes
begin

text \<open>
  \<open>c++/utils/convert_to_encoded.cpp\<close>: percent-encoding of GBK strings and of UTF-8 strings that are
  converted to GBK first.  Strings are lists of bytes; \<open>char\<close> is signed, as on the machines the
  code is written for, and the character classes are those of the C locale.  The library function
  \<open>iconv\<close>, with the conversion descriptor, is a parameter: the bytes it gives for the input with
  its final zero, or \<open>None\<close> for an error.  Allocation does not fail.
\<close>

section \<open>Definitions\<close>

definition isalnum :: "byte \<Rightarrow> bool" where
  "isalnum c \<longleftrightarrow> 48 \<le> c \<and> c \<le> 57 \<or> 65 \<le> c \<and> c \<le> 90 \<or> 97 \<le> c \<and> c \<le> 122"

definition isspace :: "byte \<Rightarrow> bool" where
  "isspace c \<longleftrightarrow> c = 32 \<or> 9 \<le> c \<and> c \<le> 13"

definition isGBKFirstPart :: "byte \<Rightarrow> bool" where
  "isGBKFirstPart ch \<longleftrightarrow> ch \<ge> 129 \<and> ch \<le> 254"

definition hex_chars :: "byte list" where
  "hex_chars = [48, 49, 50, 51, 52, 53, 54, 55, 56, 57, 65, 66, 67, 68, 69, 70]"

text \<open>The three characters \<open>%\<close>, \<open>hex[c >> 4]\<close>, \<open>hex[c % 16]\<close>.\<close>

definition percent :: "byte \<Rightarrow> byte list" where
  "percent c = [37, hex_chars ! unat (drop_bit 4 c), hex_chars ! unat (c mod 16)]"

fun urlEncode :: "byte list \<Rightarrow> byte list" where
  "urlEncode [] = []"
| "urlEncode (cc # rest) =
     (if isalnum cc then cc # urlEncode rest
      else if isspace cc then [37, 50, 48] @ urlEncode rest
      else percent cc @
        (case rest of
           [] \<Rightarrow> []
         | c_next # rest' \<Rightarrow>
             (if isGBKFirstPart cc then percent c_next @ urlEncode rest' else urlEncode rest)))"

text \<open>\<open>output = convBuff\<close> takes the bytes before the first zero.\<close>

definition convertCore :: "bool \<Rightarrow> (byte list \<Rightarrow> byte list option) \<Rightarrow> byte list \<Rightarrow> byte list option" where
  "convertCore opened iconv input =
     (if \<not> opened then None
      else map_option (takeWhile (\<lambda>c. c \<noteq> 0)) (iconv (input @ [0])))"

definition utf8_to_gbk :: "(byte list \<Rightarrow> byte list option) \<Rightarrow> byte list \<Rightarrow> byte list option" where
  "utf8_to_gbk iconv input = convertCore True iconv input"

text \<open>\<open>encodeSub\<close>: the new index and the new contents of the stream.\<close>

definition encodeSub ::
    "(byte list \<Rightarrow> byte list option) \<Rightarrow> byte list \<Rightarrow> nat \<Rightarrow> nat \<Rightarrow> nat \<Rightarrow> byte list \<Rightarrow> (nat \<times> byte list) option"
  where
  "encodeSub iconv srcStr len index sub_len ss =
     (if index + sub_len < len then do {
        tmp \<leftarrow> utf8_to_gbk iconv (take (sub_len + 1) (drop index srcStr));
        let tmp2 = urlEncode tmp;
        Some (index + sub_len, ss @ tmp2) }
      else None)"

text \<open>The body of the loop of \<open>convertToEncode\<close> at the byte \<open>p[i]\<close>.\<close>

definition encode_at ::
    "(byte list \<Rightarrow> byte list option) \<Rightarrow> byte list \<Rightarrow> nat \<Rightarrow> byte list \<Rightarrow> (nat \<times> byte list) option" where
  "encode_at iconv srcStr i ss =
     (let c = srcStr ! i in
      if sint c > 0 \<and> sint c < 0x80 then
        (if c = 32 then Some (i, ss @ [37, 50, 48]) else Some (i, ss @ [c]))
      else if sint c \<ge> sint (0xC0 :: byte) \<and> sint c < sint (0xE0 :: byte) then
        encodeSub iconv srcStr (length srcStr) i 1 ss
      else if sint c \<ge> sint (0xE0 :: byte) \<and> sint c < sint (0xF0 :: byte) then
        encodeSub iconv srcStr (length srcStr) i 2 ss
      else None)"

lemma encode_at_index: "encode_at iconv s i ss = Some (j, ss') \<Longrightarrow> i \<le> j"
  by (auto simp: encode_at_def encodeSub_def Let_def split: if_splits Option.bind_splits)

function encode_loop ::
    "(byte list \<Rightarrow> byte list option) \<Rightarrow> byte list \<Rightarrow> nat \<Rightarrow> byte list \<Rightarrow> byte list option" where
  "encode_loop iconv srcStr i ss =
     (if i < length srcStr then do {
        (j, ss') \<leftarrow> encode_at iconv srcStr i ss;
        encode_loop iconv srcStr (j + 1) ss' }
      else Some ss)"
  by pat_completeness auto
termination
  by (relation "measure (\<lambda>(iconv, s, i, ss). length s - i)") (auto dest: encode_at_index)

declare encode_loop.simps [simp del]

text \<open>\<open>ss >> dstStr\<close>: the first word of the stream; \<open>dstStr\<close> keeps its value when there is none.\<close>

definition first_word :: "byte list \<Rightarrow> byte list \<Rightarrow> byte list" where
  "first_word ss dstStr =
     (let t = dropWhile isspace ss in if t = [] then dstStr else takeWhile (\<lambda>c. \<not> isspace c) t)"

definition convertToEncode ::
    "(byte list \<Rightarrow> byte list option) \<Rightarrow> byte list \<Rightarrow> byte list \<Rightarrow> bool \<times> byte list" where
  "convertToEncode iconv srcStr dstStr =
     (if srcStr = [] then (False, [])
      else (case encode_loop iconv srcStr 0 [] of
          None \<Rightarrow> (False, [])
        | Some ss \<Rightarrow> (True, first_word ss dstStr)))"

section \<open>Decoding\<close>

definition unhex :: "byte \<Rightarrow> nat" where
  "unhex c = (if c \<le> 57 then unat c - 48 else unat c - 55)"

fun urlDecode :: "byte list \<Rightarrow> byte list" where
  "urlDecode [] = []"
| "urlDecode (c # r) =
     (if c = 37 then (case r of a # b # r' \<Rightarrow> word_of_nat (16 * unhex a + unhex b) # urlDecode r' | _ \<Rightarrow> [c])
      else c # urlDecode r)"

lemma hex_chars_digit: "n < 16 \<Longrightarrow> isalnum (hex_chars ! n) \<and> unhex (hex_chars ! n) = n"
proof -
  have "\<forall>n \<in> {..<16}. isalnum (hex_chars ! n) \<and> unhex (hex_chars ! n) = n" by code_simp
  then show "n < 16 \<Longrightarrow> ?thesis" by blast
qed

lemma nibbles: "unat (drop_bit 4 (c :: byte)) < 16" "unat (c mod 16) < 16"
    "16 * unat (drop_bit 4 c) + unat (c mod 16) = unat c"
proof -
  have "unat c < 256" using unsigned_less [of c] by simp
  moreover have h: "unat (drop_bit 4 c) = unat c div 16" "unat (c mod 16) = unat c mod 16"
    by (simp_all add: unat_drop_bit_eq drop_bit_eq_div unat_div_distrib unat_mod_distrib)
  ultimately show "unat (drop_bit 4 c) < 16" by (simp add: less_mult_imp_div_less)
  show "unat (c mod 16) < 16" "16 * unat (drop_bit 4 c) + unat (c mod 16) = unat c"
    unfolding h by simp_all
qed

lemma nibble_word: "16 * drop_bit 4 c + c mod 16 = (c :: byte)"
proof -
  have "word_of_nat (16 * unat (drop_bit 4 c) + unat (c mod 16)) = c" unfolding nibbles(3) by simp
  then show ?thesis by simp
qed

lemma percent_decode: "urlDecode (percent c @ r) = c # urlDecode r"
  using hex_chars_digit [OF nibbles(1)] hex_chars_digit [OF nibbles(2)]
  by (simp add: percent_def nibble_word)

lemma percent_safe: "x \<in> set (percent c) \<Longrightarrow> isalnum x \<or> x = 37"
  using hex_chars_digit [OF nibbles(1)] hex_chars_digit [OF nibbles(2)] by (auto simp: percent_def)

lemma isalnum_not_space: "isalnum c \<Longrightarrow> \<not> isspace c \<and> c \<noteq> 37"
  by (auto simp: isalnum_def isspace_def word_le_nat_alt)

lemma urlEncode_safe: "x \<in> set (urlEncode s) \<Longrightarrow> isalnum x \<or> x = 37"
proof (induction s rule: urlEncode.induct)
  case (2 cc rest)
  have d: "isalnum 50" "isalnum 48" by (simp_all add: isalnum_def)
  show ?case
  proof (cases "isalnum cc \<or> isspace cc")
    case True
    then show ?thesis using 2 d by (auto split: if_splits)
  next
    case False
    then show ?thesis using 2 percent_safe
      by (cases rest) (auto split: if_splits simp del: urlEncode.simps(2) simp: urlEncode.simps(2) [of cc])
  qed
qed simp

lemma urlEncode_decode: "\<forall>c \<in> set s. isspace c \<longrightarrow> c = 32 \<Longrightarrow> urlDecode (urlEncode s) = s"
proof (induction s rule: urlEncode.induct)
  case (2 cc rest)
  have "word_of_nat (16 * unhex 50 + unhex 48) = (32 :: byte)" "isspace 32"
    by (simp_all add: unhex_def isspace_def)
  then show ?case
    using 2 isalnum_not_space [of cc] percent_decode [of cc "[]"]
    by (cases rest) (auto simp: percent_decode simp del: urlDecode.simps(2)
        simp: urlDecode.simps(2) [of cc] urlDecode.simps(2) [of 37])
qed simp

section \<open>Whole strings\<close>

text \<open>The characters the code handles: a nonzero ASCII byte, or the bytes of a character of two or
  three bytes that \<open>iconv\<close> converts; and what each contributes.\<close>

fun utf8_char :: "(byte list \<Rightarrow> byte list option) \<Rightarrow> byte list \<Rightarrow> bool" where
  "utf8_char iconv [c] \<longleftrightarrow> 0 < sint c"
| "utf8_char iconv [c, d] \<longleftrightarrow> 0xC0 \<le> c \<and> c < 0xE0 \<and> utf8_to_gbk iconv [c, d] \<noteq> None"
| "utf8_char iconv [c, d, e] \<longleftrightarrow> 0xE0 \<le> c \<and> c < 0xF0 \<and> utf8_to_gbk iconv [c, d, e] \<noteq> None"
| "utf8_char iconv _ \<longleftrightarrow> False"

fun enc :: "(byte list \<Rightarrow> byte list option) \<Rightarrow> byte list \<Rightarrow> byte list" where
  "enc iconv [c] = (if c = 32 then [37, 50, 48] else [c])"
| "enc iconv cs = urlEncode (the (utf8_to_gbk iconv cs))"

lemma sint_high:
  assumes "(0x80 :: byte) \<le> c"
  shows "sint c = uint c - 256"
proof -
  have "128 \<le> uint c" "uint c < 256" using assms uint_lt2p [of c] by (simp_all add: word_le_def)
  moreover from this have "(uint c - 128) mod 256 = uint c - 128" by simp
  moreover have "(uint c + 128) mod 256 = (uint c - 128 + 256) mod 256" by (simp add: add.commute)
  then have "(uint c + 128) mod 256 = (uint c - 128) mod 256" by (simp only: mod_add_self2)
  ultimately show ?thesis
    by (simp add: sint_uint signed_take_bit_eq_take_bit_shift take_bit_eq_mod)
qed

lemma encode_sub:
  assumes "utf8_to_gbk iconv ch = Some t" "length ch = Suc k" "0 < k"
  shows "encodeSub iconv (pre @ ch @ post) (length (pre @ ch @ post)) (length pre) k ss =
    Some (length pre + k, ss @ urlEncode t)"
  using assms by (simp add: encodeSub_def)

lemma encode_char:
  assumes "utf8_char iconv ch"
  shows "encode_at iconv (pre @ ch @ post) (length pre) ss =
    Some (length pre + length ch - 1, ss @ enc iconv ch)"
proof -
  have h: "sint (0xC0 :: byte) = - 64" "sint (0xE0 :: byte) = - 32" "sint (0xF0 :: byte) = - 16" by simp_all
  from assms consider c where "ch = [c]" "0 < sint c" | c d t where "ch = [c, d]" "0xC0 \<le> c" "c < 0xE0"
      "utf8_to_gbk iconv [c, d] = Some t" | c d e t where "ch = [c, d, e]" "0xE0 \<le> c" "c < 0xF0"
      "utf8_to_gbk iconv [c, d, e] = Some t"
    by (cases "(iconv, ch)" rule: utf8_char.cases) auto
  then show ?thesis
  proof cases
    case 1
    have "sint c < 128" using sint_lt [of c] by simp
    then show ?thesis using 1 by (simp add: encode_at_def)
  next
    case 2
    have "(0x80 :: byte) \<le> c" using 2(2) by (simp add: word_le_nat_alt)
    then have "- 64 \<le> sint c \<and> sint c < - 32" using 2(2,3) sint_high [of c] by (simp add: word_le_def word_less_def)
    then show ?thesis using 2 h encode_sub [of iconv ch t 1 pre post ss] by (simp add: encode_at_def)
  next
    case 3
    have "(0x80 :: byte) \<le> c" using 3(2) by (simp add: word_le_nat_alt)
    then have "- 32 \<le> sint c \<and> sint c < - 16" using 3(2,3) sint_high [of c] by (simp add: word_le_def word_less_def)
    then show ?thesis using 3 h encode_sub [of iconv ch t 2 pre post ss] by (simp add: encode_at_def)
  qed
qed

lemma utf8_char_length: "utf8_char iconv ch \<Longrightarrow> 0 < length ch"
  by (cases "(iconv, ch)" rule: utf8_char.cases) auto

lemma encode_loop_chars:
  "\<forall>ch \<in> set cs. utf8_char iconv ch \<Longrightarrow>
   encode_loop iconv (pre @ concat cs @ post) (length pre) ss =
   encode_loop iconv (pre @ concat cs @ post) (length (pre @ concat cs)) (ss @ concat (map (enc iconv) cs))"
proof (induction cs arbitrary: pre ss)
  case (Cons ch cs)
  have ch: "utf8_char iconv ch" "0 < length ch" using Cons(2) utf8_char_length by auto
  then have "encode_loop iconv (pre @ concat (ch # cs) @ post) (length pre) ss =
      encode_loop iconv (pre @ concat (ch # cs) @ post) (length (pre @ ch)) (ss @ enc iconv ch)"
    using encode_char [OF ch(1), of pre "concat cs @ post" ss]
    by (subst encode_loop.simps) simp
  then show ?case using Cons(1) [of "pre @ ch" "ss @ enc iconv ch"] Cons(2) by simp
qed simp

lemma encode_loop_end: "encode_loop iconv s (length s) ss = Some ss"
  by (simp add: encode_loop.simps)

lemma first_word_all:
  assumes "\<forall>c \<in> set ss. \<not> isspace c" "ss \<noteq> []"
  shows "first_word (ss @ c # r) d = (if isspace c then ss else first_word (ss @ c # r) d)"
    and "first_word ss d = ss"
  using assms by (cases ss; auto simp: first_word_def Let_def takeWhile_eq_all_conv takeWhile_append)+

lemma enc_no_space:
  assumes "utf8_char iconv ch" "\<forall>c. ch = [c] \<longrightarrow> isspace c \<longrightarrow> c = 32"
  shows "\<forall>c \<in> set (enc iconv ch). \<not> isspace c"
proof -
  have p: "isalnum 50" "isalnum 48" "\<not> isspace 37" by (simp_all add: isalnum_def isspace_def)
  have u: "\<forall>c \<in> set (urlEncode t). \<not> isspace c" for t
    using urlEncode_safe isalnum_not_space p(3) by blast
  show ?thesis
    using assms p u isalnum_not_space by (cases "(iconv, ch)" rule: utf8_char.cases) auto
qed

section \<open>Properties\<close>

text \<open>Percent-encoding is a round trip and safe: for every string whose white space is only the
  blank (tabs and line ends become blanks), decoding \<open>%XX\<close> gives the string back, two-byte GBK
  characters included; and the encoded string has only letters, digits and \<open>%\<close>.\<close>

theorem urlEncode_roundtrip:
  assumes "\<forall>c \<in> set s. isspace c \<longrightarrow> c = 32"
  shows "urlDecode (urlEncode s) = s \<and> (\<forall>x \<in> set (urlEncode s). isalnum x \<or> x = 37)"
  using urlEncode_decode [OF assms] urlEncode_safe by blast

lemma urlEncode_roundtrip_witness:
  "urlDecode (urlEncode [0xB8, 0xC9, 32, 65]) = [0xB8, 0xC9, 32, 65]"
  by (rule urlEncode_roundtrip [THEN conjunct1]) (simp add: isspace_def)

text \<open>A UTF-8 string of characters of up to three bytes that \<open>iconv\<close> converts is encoded
  character by character: ASCII stays but for the blank, the others are percent-encoded in GBK; but a
  tab or line end in it truncates the result there, and the call still reports success.\<close>

theorem convertToEncode_correct:
  assumes "\<forall>ch \<in> set cs. utf8_char iconv ch \<and> (\<forall>c. ch = [c] \<longrightarrow> isspace c \<longrightarrow> c = 32)"
    and "concat (map (enc iconv) cs) \<noteq> []"
  shows "convertToEncode iconv (concat cs) dst = (True, concat (map (enc iconv) cs)) \<and>
    convertToEncode iconv (concat cs @ [9, 65]) dst = (True, concat (map (enc iconv) cs))"
proof -
  let ?E = "concat (map (enc iconv) cs)"
  have cs: "\<forall>ch \<in> set cs. utf8_char iconv ch" using assms(1) by blast
  obtain ch cs' where "cs = ch # cs'" using assms(2) by (cases cs) auto
  then have ne: "concat cs \<noteq> []" using utf8_char_length [of iconv ch] cs by auto
  have tab: "utf8_char iconv [9]" "utf8_char iconv [65]" "enc iconv [9] = [9]" "enc iconv [65] = [65]"
      "isspace 9" by (simp_all add: isspace_def)
  have "\<forall>c \<in> set (enc iconv ch). \<not> isspace c" if "ch \<in> set cs" for ch
    using assms(1) that by (intro enc_no_space) auto
  then have E: "\<forall>c \<in> set ?E. \<not> isspace c" by auto
  have "encode_loop iconv (concat cs) 0 [] = Some ?E"
    using encode_loop_chars [of cs iconv "[]" "[]" "[]"] cs encode_loop_end by simp
  then have 1: "convertToEncode iconv (concat cs) dst = (True, ?E)"
    using ne first_word_all(2) [OF E assms(2)] by (simp add: convertToEncode_def)
  have "encode_loop iconv (concat cs @ [9, 65]) 0 [] = Some (?E @ [9, 65])"
    using encode_loop_chars [of "cs @ [[9], [65]]" iconv "[]" "[]" "[]"] cs tab
      encode_loop_end [of iconv "concat (cs @ [[9], [65]])"] by simp
  then have "convertToEncode iconv (concat cs @ [9, 65]) dst = (True, ?E)"
    using first_word_all(1) [OF E assms(2), of 9 "[65]" dst] tab(5) by (simp add: convertToEncode_def)
  with 1 show ?thesis by blast
qed

lemma convertToEncode_correct_witness:
  "let iconv = (\<lambda>s. if s = [0xC2, 0xA7, 0] then Some [0xA1, 0xEC, 0] else None) in
   convertToEncode iconv [107, 0xC2, 0xA7] [] = (True, [107, 37, 65, 49, 37, 69, 67])"
proof -
  let ?i = "\<lambda>s. if s = [0xC2, 0xA7, 0] then Some [0xA1, 0xEC, 0] else None :: byte list option"
  have e: "utf8_to_gbk ?i [0xC2, 0xA7] = Some [0xA1, 0xEC]" by (simp add: utf8_to_gbk_def convertCore_def)
  have "urlEncode [0xA1, 0xEC] = [37, 65, 49, 37, 69, 67]" by code_simp
  then show ?thesis
    using convertToEncode_correct [of "[[107], [0xC2, 0xA7]]" ?i "[]"] e
    by (simp add: isspace_def del: urlEncode.simps)
qed

end
