(* ===== verification/Atm.thy ===== *)
theory Atm
  imports Transition "HOL-Library.Word" "HOL-Library.Monad_Syntax"
begin

text \<open>
  The cash machine of \<open>c++/CCiA_SourceCode/listing_c.1.cpp\<close> to \<open>listing_c.10.cpp\<close>: three
  actors (bank, interface, machine) that exchange messages through queues, and a main thread that
  turns keys into messages.  A step is what a thread does between two waits; what a handler sends
  goes out in one step, in its order.  A dispatcher is the list of its handlers, the last one
  first; a message that no handler takes is dropped, but \<open>close_queue\<close> ends the actor.
\<close>

section \<open>Definitions\<close>

type_synonym uint = "32 word"

text \<open>A \<open>messaging::sender\<close>: whose queue it points to.\<close>

datatype sender = Bank | Interface | Machine

datatype message =
    withdraw string uint sender | withdraw_ok | withdraw_denied
  | cancel_withdrawal string uint | withdrawal_processed string uint
  | card_inserted string | digit_pressed char | clear_last_pressed | eject_card
  | withdraw_pressed uint | cancel_pressed | issue_money uint
  | verify_pin string string sender | pin_verified | pin_incorrect
  | display_enter_pin | display_enter_card | display_insufficient_funds
  | display_withdrawal_cancelled | display_pin_incorrect_message | display_withdrawal_options
  | get_balance string sender | balance uint | display_balance uint | balance_pressed
  | close_queue

datatype atm_state = Waiting_for_card | Getting_pin | Verifying_pin | Wait_for_action
  | Process_balance | Process_withdrawal | Done_processing

text \<open>An actor enters a state function or its loop, waits for a message, or has left \<open>run\<close>.\<close>

datatype phase = Entering | Waiting | Stopped

record sys =
  bank_q :: "message list"
  interface_q :: "message list"
  atm_q :: "message list"
  state :: atm_state
  atm_at :: phase
  account :: string
  withdrawal_amount :: uint
  pin :: string
  funds :: uint
  bank_at :: phase
  interface_at :: phase
  printed :: "(string \<times> uint option) list"
  quit_pressed :: bool
  closes :: nat

subsection \<open>Messaging\<close>

text \<open>\<open>queue::push\<close>; a wait pops the front of a queue that is not empty.\<close>

definition push_msg :: "message \<Rightarrow> message list \<Rightarrow> message list" where
  [simp]: "push_msg msg q = q @ [msg]"

definition send :: "sender \<Rightarrow> message \<Rightarrow> sys \<Rightarrow> sys" where
  "send to msg s = (case to of
     Bank \<Rightarrow> s\<lparr>bank_q := push_msg msg (bank_q s)\<rparr>
   | Interface \<Rightarrow> s\<lparr>interface_q := push_msg msg (interface_q s)\<rparr>
   | Machine \<Rightarrow> s\<lparr>atm_q := push_msg msg (atm_q s)\<rparr>)"

datatype outcome = Handled sys | Dropped | Closed

type_synonym handler = "message \<Rightarrow> sys \<Rightarrow> sys option"

text \<open>\<open>TemplateDispatcher::dispatch\<close>, and \<open>dispatcher::dispatch\<close> at the end of the chain.\<close>

definition dispatch_last :: "message \<Rightarrow> outcome" where
  [simp]: "dispatch_last msg = (if msg = close_queue then Closed else Dropped)"

fun dispatch :: "handler list \<Rightarrow> message \<Rightarrow> sys \<Rightarrow> outcome" where
  "dispatch [] msg s = dispatch_last msg"
| "dispatch (f # prev) msg s = (case f msg s of Some s' \<Rightarrow> Handled s' | None \<Rightarrow> dispatch prev msg s)"

subsection \<open>The machine\<close>

definition on_cancel :: handler where
  "on_cancel msg s = (case msg of cancel_pressed \<Rightarrow> Some (s\<lparr>state := Done_processing\<rparr>) | _ \<Rightarrow> None)"

definition process_withdrawal :: "handler list" where
  "process_withdrawal = [
     \<lambda>msg s. (case msg of cancel_pressed \<Rightarrow>
        Some ((send Interface display_withdrawal_cancelled
          (send Bank (cancel_withdrawal (account s) (withdrawal_amount s)) s))\<lparr>state := Done_processing\<rparr>)
        | _ \<Rightarrow> None),
     \<lambda>msg s. (case msg of withdraw_denied \<Rightarrow>
        Some ((send Interface display_insufficient_funds s)\<lparr>state := Done_processing\<rparr>) | _ \<Rightarrow> None),
     \<lambda>msg s. (case msg of withdraw_ok \<Rightarrow>
        Some ((send Bank (withdrawal_processed (account s) (withdrawal_amount s))
          (send Interface (issue_money (withdrawal_amount s)) s))\<lparr>state := Done_processing\<rparr>)
        | _ \<Rightarrow> None)]"

definition process_balance :: "handler list" where
  "process_balance = [
     on_cancel,
     \<lambda>msg s. (case msg of balance amount \<Rightarrow>
        Some ((send Interface (display_balance amount) s)\<lparr>state := Wait_for_action\<rparr>) | _ \<Rightarrow> None)]"

definition wait_for_action :: "handler list" where
  "wait_for_action = [
     on_cancel,
     \<lambda>msg s. (case msg of balance_pressed \<Rightarrow>
        Some ((send Bank (get_balance (account s) Machine) s)\<lparr>state := Process_balance\<rparr>) | _ \<Rightarrow> None),
     \<lambda>msg s. (case msg of withdraw_pressed amount \<Rightarrow>
        Some ((send Bank (withdraw (account s) amount Machine) s)
          \<lparr>withdrawal_amount := amount, state := Process_withdrawal\<rparr>) | _ \<Rightarrow> None)]"

definition verifying_pin :: "handler list" where
  "verifying_pin = [
     on_cancel,
     \<lambda>msg s. (case msg of pin_incorrect \<Rightarrow>
        Some ((send Interface display_pin_incorrect_message s)\<lparr>state := Done_processing\<rparr>) | _ \<Rightarrow> None),
     \<lambda>msg s. (case msg of pin_verified \<Rightarrow> Some (s\<lparr>state := Wait_for_action\<rparr>) | _ \<Rightarrow> None)]"

definition press_digit :: "char \<Rightarrow> sys \<Rightarrow> sys" where
  "press_digit d s = (let s' = s\<lparr>pin := pin s @ [d]\<rparr> in
     if length (pin s') = 4
     then (send Bank (verify_pin (account s') (pin s') Machine) s')\<lparr>state := Verifying_pin\<rparr> else s')"

definition getting_pin :: "handler list" where
  "getting_pin = [
     on_cancel,
     \<lambda>msg s. (case msg of clear_last_pressed \<Rightarrow>
        Some (if pin s \<noteq> [] then s\<lparr>pin := butlast (pin s)\<rparr> else s) | _ \<Rightarrow> None),
     \<lambda>msg s. (case msg of digit_pressed d \<Rightarrow> Some (press_digit d s) | _ \<Rightarrow> None)]"

definition waiting_for_card :: "handler list" where
  "waiting_for_card = [
     \<lambda>msg s. (case msg of card_inserted a \<Rightarrow>
        Some ((send Interface display_enter_pin (s\<lparr>account := a, pin := []\<rparr>))\<lparr>state := Getting_pin\<rparr>)
        | _ \<Rightarrow> None)]"

fun handlers :: "atm_state \<Rightarrow> handler list" where
  "handlers Waiting_for_card = waiting_for_card"
| "handlers Getting_pin = getting_pin"
| "handlers Verifying_pin = verifying_pin"
| "handlers Wait_for_action = wait_for_action"
| "handlers Process_balance = process_balance"
| "handlers Process_withdrawal = process_withdrawal"
| "handlers Done_processing = []"

text \<open>A state function up to its wait; \<open>done_processing\<close> does not wait.\<close>

fun enter :: "atm_state \<Rightarrow> sys \<Rightarrow> sys" where
  "enter Waiting_for_card s = (send Interface display_enter_card s)\<lparr>atm_at := Waiting\<rparr>"
| "enter Wait_for_action s = (send Interface display_withdrawal_options s)\<lparr>atm_at := Waiting\<rparr>"
| "enter Done_processing s = (send Interface eject_card s)\<lparr>state := Waiting_for_card\<rparr>"
| "enter _ s = s\<lparr>atm_at := Waiting\<rparr>"

inductive atm_run :: "sys \<Rightarrow> sys \<Rightarrow> bool" where
  entered: "atm_at s = Entering \<Longrightarrow> atm_run s (enter (state s) s)"
| handled: "atm_at s = Waiting \<Longrightarrow> atm_q s = msg # q \<Longrightarrow>
    dispatch (handlers (state s)) msg (s\<lparr>atm_q := q\<rparr>) = Handled s' \<Longrightarrow>
    atm_run s (s'\<lparr>atm_at := Entering\<rparr>)"
| dropped: "atm_at s = Waiting \<Longrightarrow> atm_q s = msg # q \<Longrightarrow>
    dispatch (handlers (state s)) msg (s\<lparr>atm_q := q\<rparr>) = Dropped \<Longrightarrow> atm_run s (s\<lparr>atm_q := q\<rparr>)"
| closed: "atm_at s = Waiting \<Longrightarrow> atm_q s = msg # q \<Longrightarrow>
    dispatch (handlers (state s)) msg (s\<lparr>atm_q := q\<rparr>) = Closed \<Longrightarrow>
    atm_run s (s\<lparr>atm_q := q, atm_at := Stopped\<rparr>)"

subsection \<open>The bank\<close>

definition bank_handlers :: "handler list" where
  "bank_handlers = [
     \<lambda>msg s. (case msg of cancel_withdrawal _ _ \<Rightarrow> Some s | _ \<Rightarrow> None),
     \<lambda>msg s. (case msg of withdrawal_processed _ _ \<Rightarrow> Some s | _ \<Rightarrow> None),
     \<lambda>msg s. (case msg of get_balance _ atm \<Rightarrow> Some (send atm (balance (funds s)) s) | _ \<Rightarrow> None),
     \<lambda>msg s. (case msg of withdraw _ amount atm \<Rightarrow>
        Some (if funds s \<ge> amount then (send atm withdraw_ok s)\<lparr>funds := funds s - amount\<rparr>
          else send atm withdraw_denied s) | _ \<Rightarrow> None),
     \<lambda>msg s. (case msg of verify_pin _ p atm \<Rightarrow>
        Some (if p = ''1937'' then send atm pin_verified s else send atm pin_incorrect s) | _ \<Rightarrow> None)]"

inductive bank_run :: "sys \<Rightarrow> sys \<Rightarrow> bool" where
  handled: "bank_at s = Waiting \<Longrightarrow> bank_q s = msg # q \<Longrightarrow>
    dispatch bank_handlers msg (s\<lparr>bank_q := q\<rparr>) = Handled s' \<Longrightarrow> bank_run s s'"
| dropped: "bank_at s = Waiting \<Longrightarrow> bank_q s = msg # q \<Longrightarrow>
    dispatch bank_handlers msg (s\<lparr>bank_q := q\<rparr>) = Dropped \<Longrightarrow> bank_run s (s\<lparr>bank_q := q\<rparr>)"
| closed: "bank_at s = Waiting \<Longrightarrow> bank_q s = msg # q \<Longrightarrow>
    dispatch bank_handlers msg (s\<lparr>bank_q := q\<rparr>) = Closed \<Longrightarrow>
    bank_run s (s\<lparr>bank_q := q, bank_at := Stopped\<rparr>)"

subsection \<open>The interface\<close>

definition print :: "string \<Rightarrow> uint option \<Rightarrow> sys \<Rightarrow> sys option" where
  "print line n s = Some (s\<lparr>printed := printed s @ [(line, n)]\<rparr>)"

text \<open>The nine handlers, each for one kind of message.\<close>

definition interface_handler :: handler where
  "interface_handler msg s = (case msg of
     issue_money amount \<Rightarrow> print ''Issuing '' (Some amount) s
   | display_insufficient_funds \<Rightarrow> print ''Insufficient funds'' None s
   | display_enter_pin \<Rightarrow> print ''Please enter your PIN (0-9)'' None s
   | display_enter_card \<Rightarrow> print ''Please enter your card (I)'' None s
   | display_balance amount \<Rightarrow> print ''The balance of your account is '' (Some amount) s
   | display_withdrawal_options \<Rightarrow> do {
       s1 \<leftarrow> print ''Withdraw 50? (w)'' None s;
       s2 \<leftarrow> print ''Display Balance? (b)'' None s1;
       print ''Cancel? (c)'' None s2 }
   | display_withdrawal_cancelled \<Rightarrow> print ''Withdrawal cancelled'' None s
   | display_pin_incorrect_message \<Rightarrow> print ''PIN incorrect'' None s
   | eject_card \<Rightarrow> print ''Ejecting card'' None s
   | _ \<Rightarrow> None)"

inductive interface_run :: "sys \<Rightarrow> sys \<Rightarrow> bool" where
  handled: "interface_at s = Waiting \<Longrightarrow> interface_q s = msg # q \<Longrightarrow>
    dispatch [interface_handler] msg (s\<lparr>interface_q := q\<rparr>) = Handled s' \<Longrightarrow> interface_run s s'"
| dropped: "interface_at s = Waiting \<Longrightarrow> interface_q s = msg # q \<Longrightarrow>
    dispatch [interface_handler] msg (s\<lparr>interface_q := q\<rparr>) = Dropped \<Longrightarrow>
    interface_run s (s\<lparr>interface_q := q\<rparr>)"
| closed: "interface_at s = Waiting \<Longrightarrow> interface_q s = msg # q \<Longrightarrow>
    dispatch [interface_handler] msg (s\<lparr>interface_q := q\<rparr>) = Closed \<Longrightarrow>
    interface_run s (s\<lparr>interface_q := q, interface_at := Stopped\<rparr>)"

subsection \<open>The main thread\<close>

fun key :: "char \<Rightarrow> sys \<Rightarrow> sys" where
  "key c s =
     (if c \<in> set ''0123456789'' then send Machine (digit_pressed c) s
      else if c = CHR ''b'' then send Machine balance_pressed s
      else if c = CHR ''w'' then send Machine (withdraw_pressed 50) s
      else if c = CHR ''c'' then send Machine cancel_pressed s
      else if c = CHR ''q'' then s\<lparr>quit_pressed := True\<rparr>
      else if c = CHR ''i'' then send Machine (card_inserted ''acc1234'') s
      else s)"

text \<open>The queues that the three calls of \<open>done\<close> close, in their order.\<close>

fun done_calls :: "nat \<Rightarrow> sender option" where
  "done_calls 0 = Some Bank"
| "done_calls (Suc 0) = Some Machine"
| "done_calls (Suc (Suc 0)) = Some Interface"
| "done_calls _ = None"

inductive main_step :: "sys \<Rightarrow> sys \<Rightarrow> bool" where
  getchar: "\<not> quit_pressed s \<Longrightarrow> main_step s (key c s)"
| dones: "quit_pressed s \<Longrightarrow> done_calls (closes s) = Some to \<Longrightarrow>
    main_step s ((send to close_queue s)\<lparr>closes := closes s + 1\<rparr>)"

inductive sys_step :: "sys \<Rightarrow> sys \<Rightarrow> bool" where
  main: "main_step s s' \<Longrightarrow> sys_step s s'"
| bank: "bank_run s s' \<Longrightarrow> sys_step s s'"
| interface: "interface_run s s' \<Longrightarrow> sys_step s s'"
| atm: "atm_run s s' \<Longrightarrow> sys_step s s'"

definition atm_start :: sys where
  "atm_start = \<lparr>bank_q = [], interface_q = [], atm_q = [], state = Waiting_for_card,
     atm_at = Entering, account = [], withdrawal_amount = 0, pin = [], funds = 199,
     bank_at = Waiting, interface_at = Waiting, printed = [], quit_pressed = False, closes = 0\<rparr>"

section \<open>Money\<close>

lemmas handler_defs = process_withdrawal_def process_balance_def wait_for_action_def verifying_pin_def
  getting_pin_def waiting_for_card_def on_cancel_def press_digit_def send_def

fun cash_of :: "message \<Rightarrow> nat" where
  "cash_of (issue_money a) = unat a"
| "cash_of _ = 0"

fun cash_line :: "string \<times> uint option \<Rightarrow> nat" where
  "cash_line (line, n) = (if line = ''Issuing '' then unat (the n) else 0)"

text \<open>All money that the machine has told the interface to issue.\<close>

definition issued :: "sys \<Rightarrow> nat" where
  "issued s = sum_list (map cash_of (interface_q s)) + sum_list (map cash_line (printed s))"

text \<open>The bank is asked for 50 only, and answers to the machine.\<close>

fun ok_bank :: "message \<Rightarrow> bool" where
  "ok_bank (withdraw _ a to) \<longleftrightarrow> a = 50 \<and> to = Machine"
| "ok_bank (verify_pin _ _ to) \<longleftrightarrow> to = Machine"
| "ok_bank (get_balance _ to) \<longleftrightarrow> to = Machine"
| "ok_bank _ \<longleftrightarrow> True"

fun ok_atm :: "message \<Rightarrow> bool" where
  "ok_atm (withdraw_pressed a) \<longleftrightarrow> a = 50"
| "ok_atm _ \<longleftrightarrow> True"

definition money_inv :: "sys \<Rightarrow> bool" where
  "money_inv s \<longleftrightarrow> list_all ok_bank (bank_q s) \<and> list_all ok_atm (atm_q s) \<and>
     (state s = Process_withdrawal \<longrightarrow> withdrawal_amount s = 50) \<and>
     unat (funds s) + 50 * count_list (atm_q s) withdraw_ok + issued s \<le> 199"

lemma enter_keeps: "money_inv s \<Longrightarrow> money_inv (enter (state s) s)"
  by (cases "state s") (auto simp: money_inv_def issued_def send_def)

lemma atm_handled_keeps:
  "money_inv s \<Longrightarrow> atm_q s = msg # q \<Longrightarrow>
   dispatch (handlers (state s)) msg (s\<lparr>atm_q := q\<rparr>) = Handled s' \<Longrightarrow> money_inv s'"
  by (cases "state s"; cases msg)
    (auto simp: handler_defs money_inv_def issued_def Let_def split: if_splits)

lemma money_drop:
  "money_inv s \<Longrightarrow> atm_q s = msg # q \<Longrightarrow> money_inv (s\<lparr>atm_q := q\<rparr>)"
  "money_inv s \<Longrightarrow> bank_q s = msg # q \<Longrightarrow> money_inv (s\<lparr>bank_q := q\<rparr>)"
  "money_inv s \<Longrightarrow> interface_q s = msg # q \<Longrightarrow> money_inv (s\<lparr>interface_q := q\<rparr>)"
  by (auto simp: money_inv_def issued_def split: if_splits)

lemma money_phase [simp]:
  "money_inv (s\<lparr>atm_at := p\<rparr>) = money_inv s" "money_inv (s\<lparr>bank_at := p\<rparr>) = money_inv s"
  "money_inv (s\<lparr>interface_at := p\<rparr>) = money_inv s" "money_inv (s\<lparr>closes := n\<rparr>) = money_inv s"
  "money_inv (s\<lparr>quit_pressed := b\<rparr>) = money_inv s"
  by (simp_all add: money_inv_def issued_def)

lemma atm_run_keeps: "atm_run s s' \<Longrightarrow> money_inv s \<Longrightarrow> money_inv s'"
  by (induction rule: atm_run.induct) (auto intro: enter_keeps atm_handled_keeps money_drop)

lemma bank_handled_keeps:
  "money_inv s \<Longrightarrow> bank_q s = msg # q \<Longrightarrow>
   dispatch bank_handlers msg (s\<lparr>bank_q := q\<rparr>) = Handled s' \<Longrightarrow> money_inv s'"
  by (cases msg)
    (auto simp: bank_handlers_def money_inv_def issued_def send_def unat_sub word_le_nat_alt
      split: if_splits)

lemma bank_run_keeps: "bank_run s s' \<Longrightarrow> money_inv s \<Longrightarrow> money_inv s'"
  by (induction rule: bank_run.induct) (auto intro: bank_handled_keeps money_drop)

lemma interface_handled_keeps:
  "money_inv s \<Longrightarrow> interface_q s = msg # q \<Longrightarrow>
   dispatch [interface_handler] msg (s\<lparr>interface_q := q\<rparr>) = Handled s' \<Longrightarrow> money_inv s'"
  by (cases msg)
    (auto simp: interface_handler_def print_def money_inv_def issued_def split: if_splits)

lemma interface_run_keeps: "interface_run s s' \<Longrightarrow> money_inv s \<Longrightarrow> money_inv s'"
  by (induction rule: interface_run.induct) (auto intro: interface_handled_keeps money_drop)

lemma main_step_keeps: "main_step s s' \<Longrightarrow> money_inv s \<Longrightarrow> money_inv s'"
proof (induction rule: main_step.induct)
  case (getchar s c)
  then show ?case by (auto simp: money_inv_def issued_def send_def split: if_splits)
next
  case (dones s to)
  then show ?case by (cases to) (auto simp: money_inv_def issued_def send_def)
qed

interpretation mon: invariant_of "(=) atm_start" sys_step money_inv
proof
  show "(=) atm_start s \<Longrightarrow> money_inv s" for s by (auto simp: atm_start_def money_inv_def issued_def)
  show "money_inv s'" if "money_inv s" "sys_step s s'" for s s'
    using that(2,1) by cases
      (auto intro: atm_run_keeps bank_run_keeps interface_run_keeps main_step_keeps)
qed

section \<open>Shutting down\<close>

text \<open>An actor that has been told to close has the message in its queue, or has stopped.\<close>

definition close_inv :: "sys \<Rightarrow> bool" where
  "close_inv s \<longleftrightarrow> bank_at s \<noteq> Entering \<and> interface_at s \<noteq> Entering \<and>
     (0 < closes s \<longrightarrow> bank_at s = Stopped \<or> close_queue \<in> set (bank_q s)) \<and>
     (1 < closes s \<longrightarrow> atm_at s = Stopped \<or> close_queue \<in> set (atm_q s)) \<and>
     (2 < closes s \<longrightarrow> interface_at s = Stopped \<or> close_queue \<in> set (interface_q s)) \<and> closes s \<le> 3"

lemma dispatch_close:
  "dispatch (handlers st) close_queue s = Closed" "dispatch bank_handlers close_queue s = Closed"
  "dispatch [interface_handler] close_queue s = Closed"
  by (cases st) (auto simp: handler_defs bank_handlers_def interface_handler_def)

text \<open>What a handler leaves alone.\<close>

lemma atm_handled_frame:
  "dispatch (handlers st) msg s = Handled s' \<Longrightarrow>
   bank_at s' = bank_at s \<and> interface_at s' = interface_at s \<and> closes s' = closes s \<and>
   atm_q s' = atm_q s \<and> set (bank_q s) \<subseteq> set (bank_q s') \<and> set (interface_q s) \<subseteq> set (interface_q s') \<and>
   quit_pressed s' = quit_pressed s"
  by (cases st; cases msg) (auto simp: handler_defs Let_def split: if_splits)

lemma bank_handled_frame:
  "dispatch bank_handlers msg s = Handled s' \<Longrightarrow>
   bank_at s' = bank_at s \<and> interface_at s' = interface_at s \<and> closes s' = closes s \<and> atm_at s' = atm_at s \<and>
   set (atm_q s) \<subseteq> set (atm_q s') \<and> set (bank_q s) \<subseteq> set (bank_q s') \<and>
   set (interface_q s) \<subseteq> set (interface_q s') \<and> quit_pressed s' = quit_pressed s"
  by (cases msg) (auto simp: bank_handlers_def send_def split: if_splits sender.splits)

lemma interface_handled_frame:
  "dispatch [interface_handler] msg s = Handled s' \<Longrightarrow> \<exists>p. s' = s\<lparr>printed := p\<rparr>"
  by (cases msg) (auto simp: interface_handler_def print_def)

lemma enter_frame:
  "bank_at (enter st s) = bank_at s \<and> interface_at (enter st s) = interface_at s \<and>
   closes (enter st s) = closes s \<and> atm_q (enter st s) = atm_q s \<and> bank_q (enter st s) = bank_q s \<and>
   set (interface_q s) \<subseteq> set (interface_q (enter st s)) \<and> quit_pressed (enter st s) = quit_pressed s"
  by (cases st) (auto simp: send_def)

lemma close_keeps:
  assumes "close_inv s" "sys_step s s'"
  shows "close_inv s'"
  using assms(2)
proof cases
  case main
  then show ?thesis
  proof cases
    case (getchar c)
    then show ?thesis using assms(1) by (auto simp: close_inv_def send_def)
  next
    case (dones to)
    have "closes s = 0 \<or> closes s = 1 \<or> closes s = 2"
      using dones(3) by (cases "closes s" rule: done_calls.cases) auto
    then show ?thesis using dones assms(1) by (auto simp: close_inv_def send_def numeral_2_eq_2)
  qed
next
  case bank
  then show ?thesis
  proof cases
    case (handled msg q)
    then show ?thesis using assms(1) bank_handled_frame [OF handled(3)] dispatch_close
      by (auto simp: close_inv_def)
  next
    case (dropped msg q)
    then show ?thesis using assms(1) dispatch_close by (auto simp: close_inv_def)
  qed (use assms(1) in \<open>auto simp: close_inv_def\<close>)
next
  case interface
  then show ?thesis
  proof cases
    case (handled msg q)
    then show ?thesis using assms(1) interface_handled_frame [OF handled(3)] dispatch_close
      by (auto simp: close_inv_def)
  next
    case (dropped msg q)
    then show ?thesis using assms(1) dispatch_close by (auto simp: close_inv_def)
  qed (use assms(1) in \<open>auto simp: close_inv_def\<close>)
next
  case atm
  then show ?thesis
  proof cases
    case entered
    then show ?thesis using assms(1) enter_frame [of "state s" s] by (auto simp: close_inv_def)
  next
    case (handled msg q t)
    then show ?thesis using assms(1) atm_handled_frame [OF handled(4)] dispatch_close
      by (auto simp: close_inv_def)
  next
    case (dropped msg q)
    then show ?thesis using assms(1) dispatch_close by (auto simp: close_inv_def)
  qed (use assms(1) in \<open>auto simp: close_inv_def\<close>)
qed

interpretation cls: invariant_of "(=) atm_start" sys_step close_inv
proof
  show "(=) atm_start s \<Longrightarrow> close_inv s" for s by (auto simp: atm_start_def close_inv_def)
qed (rule close_keeps)

lemma atm_runs:
  assumes "atm_at s = Waiting" "atm_q s \<noteq> []"
  shows "\<exists>s'. sys_step s s'"
proof -
  obtain msg q where q: "atm_q s = msg # q" using assms(2) by (cases "atm_q s") auto
  note run = sys_step.atm [OF atm_run.handled [OF assms(1) q]] sys_step.atm [OF atm_run.dropped [OF assms(1) q]]
    sys_step.atm [OF atm_run.closed [OF assms(1) q]]
  show ?thesis by (cases "dispatch (handlers (state s)) msg (s\<lparr>atm_q := q\<rparr>)") (use run in blast)+
qed

lemma bank_runs:
  assumes "bank_at s = Waiting" "bank_q s \<noteq> []"
  shows "\<exists>s'. sys_step s s'"
proof -
  obtain msg q where q: "bank_q s = msg # q" using assms(2) by (cases "bank_q s") auto
  note run = sys_step.bank [OF bank_run.handled [OF assms(1) q]] sys_step.bank [OF bank_run.dropped [OF assms(1) q]]
    sys_step.bank [OF bank_run.closed [OF assms(1) q]]
  show ?thesis by (cases "dispatch (bank_handlers) msg (s\<lparr>bank_q := q\<rparr>)") (use run in blast)+
qed

lemma interface_runs:
  assumes "interface_at s = Waiting" "interface_q s \<noteq> []"
  shows "\<exists>s'. sys_step s s'"
proof -
  obtain msg q where q: "interface_q s = msg # q" using assms(2) by (cases "interface_q s") auto
  note run = sys_step.interface [OF interface_run.handled [OF assms(1) q]] sys_step.interface [OF interface_run.dropped [OF assms(1) q]]
    sys_step.interface [OF interface_run.closed [OF assms(1) q]]
  show ?thesis by (cases "dispatch ([interface_handler]) msg (s\<lparr>interface_q := q\<rparr>)") (use run in blast)+
qed

definition joined :: "sys \<Rightarrow> bool" where
  "joined s \<longleftrightarrow> closes s = 3 \<and> bank_at s = Stopped \<and> atm_at s = Stopped \<and> interface_at s = Stopped"

lemma quit_progress:
  assumes "close_inv s" "quit_pressed s" "\<not> joined s"
  shows "\<exists>s'. sys_step s s'"
proof (cases "closes s = 3")
  case False
  then have "closes s = 0 \<or> closes s = 1 \<or> closes s = 2" using assms(1) by (auto simp: close_inv_def)
  then obtain to where "done_calls (closes s) = Some to" by (auto simp: numeral_2_eq_2)
  then show ?thesis using assms(2) by (blast intro: sys_step.main main_step.dones)
next
  case True
  have "bank_at s = Waiting \<and> bank_q s \<noteq> [] \<or> interface_at s = Waiting \<and> interface_q s \<noteq> [] \<or>
      atm_at s = Waiting \<and> atm_q s \<noteq> [] \<or> atm_at s = Entering"
    using assms(1,3) True unfolding close_inv_def joined_def
    by (cases "bank_at s"; cases "interface_at s"; cases "atm_at s") auto
  then show ?thesis using atm_runs bank_runs interface_runs by (blast intro: sys_step.atm atm_run.entered)
qed

text \<open>A measure that every step after \<open>q\<close> decreases: what a message can still cause.\<close>

fun atm_weight :: "message \<Rightarrow> nat" where
  "atm_weight (digit_pressed _) = 14"
| "atm_weight (withdraw_pressed _) = 14"
| "atm_weight balance_pressed = 14"
| "atm_weight _ = 7"

fun bank_weight :: "message \<Rightarrow> nat" where
  "bank_weight (verify_pin _ _ _) = 8"
| "bank_weight (withdraw _ _ _) = 8"
| "bank_weight (get_balance _ _) = 8"
| "bank_weight _ = 1"

definition phase_weight :: "sys \<Rightarrow> nat" where
  "phase_weight s = (if atm_at s = Entering then (if state s = Done_processing then 4 else 2) else 0) +
     (if atm_at s = Stopped then 0 else 1)"

definition work_left :: "sys \<Rightarrow> nat" where
  "work_left s = sum_list (map atm_weight (atm_q s)) + sum_list (map bank_weight (bank_q s)) +
     length (interface_q s) + phase_weight s + 8 * (3 - closes s)"

lemma enter_work: "atm_at s = Entering \<Longrightarrow> work_left (enter (state s) s) < work_left s"
  by (cases "state s") (auto simp: work_left_def phase_weight_def send_def)

lemma atm_handled_work:
  "atm_at s = Waiting \<Longrightarrow> atm_q s = msg # q \<Longrightarrow>
   dispatch (handlers (state s)) msg (s\<lparr>atm_q := q\<rparr>) = Handled s' \<Longrightarrow>
   work_left (s'\<lparr>atm_at := Entering\<rparr>) < work_left s"
  by (cases "state s"; cases msg)
    (auto simp: handler_defs work_left_def phase_weight_def Let_def split: if_splits)

lemma bank_handled_work:
  "list_all ok_bank (bank_q s) \<Longrightarrow> bank_q s = msg # q \<Longrightarrow>
   dispatch bank_handlers msg (s\<lparr>bank_q := q\<rparr>) = Handled s' \<Longrightarrow> work_left s' < work_left s"
  by (cases msg)
    (auto simp: bank_handlers_def work_left_def phase_weight_def send_def split: if_splits)

lemma atm_weight_pos: "0 < atm_weight msg"
  by (cases msg) auto

lemma bank_weight_pos: "0 < bank_weight msg"
  by (cases msg) auto

lemma quit_work:
  assumes "money_inv s" "close_inv s" "quit_pressed s" "sys_step s s'"
  shows "work_left s' < work_left s \<and> quit_pressed s'"
  using assms(4)
proof cases
  case main
  then show ?thesis
  proof cases
    case (dones to)
    have "closes s = 0 \<or> closes s = 1 \<or> closes s = 2"
      using dones(3) by (cases "closes s" rule: done_calls.cases) auto
    then show ?thesis using dones assms(3)
      by (auto simp: work_left_def phase_weight_def send_def numeral_2_eq_2)
  qed (use assms(3) in simp)
next
  case bank
  then show ?thesis
  proof cases
    case (handled msg q)
    then show ?thesis using assms(1,3) bank_handled_frame [OF handled(3)] bank_handled_work [OF _ handled(2,3)]
      by (simp add: money_inv_def)
  qed (use assms(3) bank_weight_pos in \<open>auto simp: work_left_def phase_weight_def\<close>)
next
  case interface
  then show ?thesis
  proof cases
    case (handled msg q)
    then show ?thesis using assms(3) interface_handled_frame [OF handled(3)]
      by (auto simp: work_left_def phase_weight_def)
  qed (use assms(3) in \<open>auto simp: work_left_def phase_weight_def\<close>)
next
  case atm
  then show ?thesis
  proof cases
    case entered
    then show ?thesis using assms(3) enter_frame [of "state s" s] enter_work by simp
  next
    case (handled msg q t)
    then show ?thesis using assms(3) atm_handled_frame [OF handled(4)] atm_handled_work [OF handled(2-4)] by simp
  qed (use assms(3) atm_weight_pos in \<open>auto simp: work_left_def phase_weight_def\<close>)
qed

section \<open>Running a schedule\<close>

datatype action = Key char | BankTurn | MachineTurn

definition after :: "outcome \<Rightarrow> (sys \<Rightarrow> sys) \<Rightarrow> sys \<Rightarrow> sys \<Rightarrow> sys" where
  "after r f dropped_s closed_s =
     (case r of Handled s' \<Rightarrow> f s' | Dropped \<Rightarrow> dropped_s | Closed \<Rightarrow> closed_s)"

fun turn :: "action \<Rightarrow> sys \<Rightarrow> sys" where
  "turn (Key c) s = (if quit_pressed s then s else key c s)"
| "turn BankTurn s = (case bank_q s of
     [] \<Rightarrow> s
   | msg # q \<Rightarrow> if bank_at s = Waiting
       then after (dispatch bank_handlers msg (s\<lparr>bank_q := q\<rparr>)) (\<lambda>s'. s') (s\<lparr>bank_q := q\<rparr>)
         (s\<lparr>bank_q := q, bank_at := Stopped\<rparr>) else s)"
| "turn MachineTurn s = (if atm_at s = Entering then enter (state s) s else (case atm_q s of
     [] \<Rightarrow> s
   | msg # q \<Rightarrow> if atm_at s = Waiting
       then after (dispatch (handlers (state s)) msg (s\<lparr>atm_q := q\<rparr>)) (\<lambda>s'. s'\<lparr>atm_at := Entering\<rparr>)
         (s\<lparr>atm_q := q\<rparr>) (s\<lparr>atm_q := q, atm_at := Stopped\<rparr>) else s))"

lemma turn_steps: "turn a s = s \<or> sys_step s (turn a s)"
proof (cases a)
  case (Key c)
  then show ?thesis by (auto simp del: key.simps intro: sys_step.main main_step.getchar)
next
  case BankTurn
  show ?thesis
  proof (cases "bank_at s = Waiting \<and> bank_q s \<noteq> []")
    case True
    then obtain msg q where q: "bank_at s = Waiting" "bank_q s = msg # q" by (cases "bank_q s") auto
    note run = sys_step.bank [OF bank_run.handled [OF q]] sys_step.bank [OF bank_run.dropped [OF q]]
      sys_step.bank [OF bank_run.closed [OF q]]
    show ?thesis using run q BankTurn
      by (cases "dispatch bank_handlers msg (s\<lparr>bank_q := q\<rparr>)") (simp_all add: after_def)
  qed (use BankTurn in \<open>auto split: list.splits\<close>)
next
  case MachineTurn
  show ?thesis
  proof (cases "atm_at s = Waiting \<and> atm_q s \<noteq> []")
    case True
    then obtain msg q where q: "atm_at s = Waiting" "atm_q s = msg # q" by (cases "atm_q s") auto
    note run = sys_step.atm [OF atm_run.handled [OF q]] sys_step.atm [OF atm_run.dropped [OF q]]
      sys_step.atm [OF atm_run.closed [OF q]]
    show ?thesis using run q MachineTurn
      by (cases "dispatch (handlers (state s)) msg (s\<lparr>atm_q := q\<rparr>)") (simp_all add: after_def)
  qed (use MachineTurn in \<open>auto intro: sys_step.atm atm_run.entered split: list.splits\<close>)
qed

lemma turns_reach: "reach ini sys_step s \<Longrightarrow> reach ini sys_step (fold turn as s)"
proof (induction as arbitrary: s)
  case (Cons a as)
  then show ?case using turn_steps [of a s] reach.move [of ini sys_step s "turn a s"] by auto
qed simp

text \<open>
  The right PIN, a cancellation before the bank has looked at it, the card again and a wrong PIN;
  then the bank answers the first question, and the customer withdraws.
\<close>

definition stale_run :: "action list" where
  "stale_run = map Key ''i1937ci0000'' @ replicate 21 MachineTurn @ [BankTurn, BankTurn] @
     [MachineTurn, MachineTurn, MachineTurn] @ [Key (CHR ''w'')] @ replicate 3 MachineTurn @
     [BankTurn] @ replicate 4 MachineTurn @ [BankTurn, BankTurn] @ replicate 4 MachineTurn"

lemma stale_result:
  "let s = fold turn stale_run atm_start in pin s = ''0000'' \<and> issue_money 50 \<in> set (interface_q s) \<and>
     unat (funds s) = 149"
  by code_simp

section \<open>Properties\<close>



text \<open>C32: after \<open>q\<close> the program ends: every step brings the end closer (the measure \<open>work_left\<close>
  falls), and a state without a step is the one in which all three queues were closed and all
  three actors have left \<open>run\<close>, so that the joins return; no interleaving deadlocks.\<close>

theorem atm_shuts_down:
  assumes "reach ((=) atm_start) sys_step s" "quit_pressed s"
  shows "(\<forall>s'. sys_step s s' \<longrightarrow> work_left s' < work_left s \<and> quit_pressed s') \<and>
    (joined s \<or> (\<exists>s'. sys_step s s'))"
  using quit_work [OF mon.holds [OF assms(1)] cls.holds [OF assms(1)] assms(2)]
    quit_progress [OF cls.holds [OF assms(1)] assms(2)] by blast

lemma atm_shuts_down_witness:
  "joined (turn (Key (CHR ''q'')) atm_start) \<or> (\<exists>s'. sys_step (turn (Key (CHR ''q'')) atm_start) s')"
proof -
  have "reach ((=) atm_start) sys_step (turn (Key (CHR ''q'')) atm_start)"
    using turns_reach [OF reach_here, where as = "[Key (CHR ''q'')]"] by simp
  moreover have "quit_pressed (turn (Key (CHR ''q'')) atm_start)" by code_simp
  ultimately show ?thesis using atm_shuts_down by blast
qed

text \<open>The machine can issue money for a wrong PIN: it takes any \<open>pin_verified\<close> for the answer to
  its last question.  There is a run in which the customer enters the right PIN, cancels before the
  bank answers, enters a wrong one, and the late answer lets him withdraw with the wrong PIN.\<close>

theorem atm_accepts_stale_pin:
  "\<exists>s. reach ((=) atm_start) sys_step s \<and> pin s = ''0000'' \<and> issue_money 50 \<in> set (interface_q s) \<and>
    unat (funds s) = 149"
  using stale_result turns_reach [OF reach_here, where as = stale_run]
  by (intro exI [of _ "fold turn stale_run atm_start"]) (simp only: Let_def simp_thms)

end
