(* ===== verification/Lru_Cache.thy ===== *)
theory Lru_Cache
  imports Dlinked Transition "HOL-Library.Word" "HOL-Library.Monad_Syntax"
begin

text \<open>
  \<open>c++/utils/cache/lru_cache.h\<close>: the cache whose nodes live in an \<open>unordered_map\<close> and are linked
  from \<open>head_\<close> (address 1) to \<open>tail_\<close> (address 2); 0 is the null pointer.  One operation runs at a
  time, so the lock of the whole cache is free and is left out; the locks of the nodes are kept,
  because one operation takes several: taking one that is held, or of the null pointer, does not
  return (\<open>None\<close>).  Every call of \<open>time(nullptr)\<close> is a parameter; times are compared and added as
  \<open>uint64_t\<close>.  The counter of the size is unbounded, which is exact below \<open>2 ^ 64\<close> calls of \<open>Put\<close>.
\<close>

section \<open>Definitions\<close>

type_synonym time = "64 word"

definition NEVER_TIMEOUT :: time where "NEVER_TIMEOUT = 0x8000000000000000"

record ('k, 'v) lru_cache =
  underly :: "'k \<Rightarrow> nat option"
  key_of :: "nat \<Rightarrow> 'k option"
  val_of :: "nat \<Rightarrow> 'v option"
  pred :: "nat \<Rightarrow> nat"
  succ :: "nat \<Rightarrow> nat"
  cont :: "nat \<Rightarrow> bool"
  expire_time :: "nat \<Rightarrow> time"
  fresh :: nat
  max_size :: nat
  current_size :: nat
  timeout :: time

definition LRUCache :: "nat \<Rightarrow> time \<Rightarrow> ('k, 'v) lru_cache" where
  "LRUCache capacity timeout_in_second = \<lparr>underly = \<lambda>_. None, key_of = \<lambda>_. None, val_of = \<lambda>_. None,
     pred = (\<lambda>_. 0)(2 := 1), succ = (\<lambda>_. 0)(1 := 2), cont = \<lambda>_. False,
     expire_time = \<lambda>_. NEVER_TIMEOUT, fresh = 3, max_size = capacity, current_size = 0,
     timeout = timeout_in_second\<rparr>"

definition lock :: "nat \<Rightarrow> ('k, 'v) lru_cache \<Rightarrow> ('k, 'v) lru_cache option" where
  "lock a c = (if a = 0 \<or> cont c a then None else Some (c\<lparr>cont := (cont c)(a := True)\<rparr>))"

definition unlock :: "nat \<Rightarrow> ('k, 'v) lru_cache \<Rightarrow> ('k, 'v) lru_cache" where
  "unlock a c = c\<lparr>cont := (cont c)(a := False)\<rparr>"

definition set_pred :: "nat \<Rightarrow> nat \<Rightarrow> ('k, 'v) lru_cache \<Rightarrow> ('k, 'v) lru_cache" where
  "set_pred a b c = c\<lparr>pred := (pred c)(a := b)\<rparr>"

definition set_succ :: "nat \<Rightarrow> nat \<Rightarrow> ('k, 'v) lru_cache \<Rightarrow> ('k, 'v) lru_cache" where
  "set_succ a b c = c\<lparr>succ := (succ c)(a := b)\<rparr>"

subsection \<open>PutTail\<close>

definition unlink :: "nat \<Rightarrow> ('k, 'v) lru_cache \<Rightarrow> ('k, 'v) lru_cache option" where
  "unlink node c = (if pred c node = 0 then Some c else do {
     let n = succ c node; let p = pred c node;
     c1 \<leftarrow> lock n c;
     c2 \<leftarrow> lock node c1;
     c3 \<leftarrow> lock p c2;
     let c4 = set_succ (pred c3 node) (succ c3 node) c3;
     let c5 = set_pred (succ c4 node) (pred c4 node) c4;
     Some (unlock n (unlock node (unlock p c5))) })"

definition link_tail :: "nat \<Rightarrow> ('k, 'v) lru_cache \<Rightarrow> ('k, 'v) lru_cache option" where
  "link_tail node c = (if node = pred c 2 then Some c else do {
     let p = pred c 2;
     c1 \<leftarrow> lock 2 c;
     c2 \<leftarrow> lock node c1;
     c3 \<leftarrow> lock p c2;
     let c4 = set_pred node (pred c3 2) c3;
     let c5 = set_pred 2 node c4;
     let c6 = set_succ node 2 c5;
     let c7 = set_succ (pred c6 node) node c6;
     Some (unlock 2 (unlock node (unlock p c7))) })"

definition PutTail :: "time \<Rightarrow> nat \<Rightarrow> ('k, 'v) lru_cache \<Rightarrow> ('k, 'v) lru_cache option" where
  "PutTail now node c = do {
     c1 \<leftarrow> unlink node c;
     c2 \<leftarrow> link_tail node c1;
     Some (c2\<lparr>expire_time := (expire_time c2)(node := now + timeout c2)\<rparr>) }"

subsection \<open>PopHead\<close>

partial_function (option) skip_expired :: "time \<Rightarrow> nat \<Rightarrow> ('k, 'v) lru_cache \<Rightarrow> nat option" where
  [code]: "skip_expired now a c =
     (if a = 0 then None
      else if expire_time c a < now then skip_expired now (succ c a) c
      else Some a)"

text \<open>\<open>underly_.erase(key)\<close> destroys the node.\<close>

definition erase_key :: "'k \<Rightarrow> ('k, 'v) lru_cache \<Rightarrow> ('k, 'v) lru_cache" where
  "erase_key k c = (case underly c k of
     None \<Rightarrow> c
   | Some a \<Rightarrow> c\<lparr>underly := (underly c)(k := None), key_of := (key_of c)(a := None),
       val_of := (val_of c)(a := None), pred := (pred c)(a := 0), succ := (succ c)(a := 0)\<rparr>)"

partial_function (option) erase_run ::
    "nat \<Rightarrow> nat \<Rightarrow> ('k, 'v) lru_cache \<Rightarrow> ('k, 'v) lru_cache option" where
  [code]: "erase_run a stop c =
     (if a = stop then Some c
      else (case key_of c a of
          None \<Rightarrow> None
        | Some k \<Rightarrow> erase_run (succ c a) stop (erase_key k c)))"

definition PopHead :: "time \<Rightarrow> ('k, 'v) lru_cache \<Rightarrow> ('k, 'v) lru_cache option" where
  "PopHead now c = (if succ c 1 = 2 then Some c else do {
     n \<leftarrow> skip_expired now (succ c (succ c 1)) c;
     let a = succ c 1;
     erase_run a n (set_pred n 1 (set_succ 1 n c)) })"

subsection \<open>Get and Put\<close>

definition Get :: "time \<Rightarrow> time \<Rightarrow> 'k \<Rightarrow> ('k, 'v) lru_cache \<Rightarrow> ('v option \<times> ('k, 'v) lru_cache) option" where
  "Get t1 t2 k c = (case underly c k of
     None \<Rightarrow> Some (None, c)
   | Some a \<Rightarrow>
       if expire_time c a < t1 then do { c' \<leftarrow> PutTail t2 a c; Some (val_of c' a, c') }
       else Some (None, c))"

definition Put ::
    "time \<Rightarrow> time \<Rightarrow> time \<Rightarrow> 'k \<Rightarrow> 'v \<Rightarrow> ('k, 'v) lru_cache \<Rightarrow> (bool \<times> ('k, 'v) lru_cache) option" where
  "Put t1 t2 t3 k v c = (case underly c k of
     Some _ \<Rightarrow> Some (False, c)
   | None \<Rightarrow> do {
       let a = fresh c;
       let c1 = c\<lparr>underly := (underly c)(k \<mapsto> a), fresh := a + 1, key_of := (key_of c)(a \<mapsto> k),
         val_of := (val_of c)(a \<mapsto> v), pred := (pred c)(a := 0), succ := (succ c)(a := 0),
         cont := (cont c)(a := False), expire_time := (expire_time c)(a := t1 + timeout c)\<rparr>;
       c2 \<leftarrow> PutTail t2 a c1;
       let c3 = c2\<lparr>current_size := current_size c2 + 1\<rparr>;
       if current_size c3 \<ge> max_size c3 then do { c4 \<leftarrow> PopHead t3 c3; Some (True, c4) }
       else Some (True, c3\<lparr>current_size := current_size c3 + 1\<rparr>) })"

section \<open>The list in memory\<close>

definition links :: "('k, 'v) lru_cache \<Rightarrow> nat list \<Rightarrow> bool" where
  "links c as \<longleftrightarrow> chain (succ c) (pred c) (1 # as @ [2]) \<and> distinct (0 # 1 # as @ [2]) \<and>
     cont c = (\<lambda>_. False)"

lemmas lru_defs = lock_def unlock_def set_succ_def set_pred_def

lemma fun_upd_False [simp]: "(\<lambda>_. False)(a := False) = (\<lambda>_. False)"
  by auto

lemma locks_released [simp]:
  "(\<lambda>_. False)(a := True, b := True, d := True, d := False, b := False, a := False) = (\<lambda>_. False)"
  by auto

lemma unlink_spec:
  assumes "links c (xs @ y # ys)"
  shows "\<exists>p n. unlink y c = Some (c\<lparr>succ := (succ c)(p := n), pred := (pred c)(n := p)\<rparr>) \<and>
    links (c\<lparr>succ := (succ c)(p := n), pred := (pred c)(n := p)\<rparr>) (xs @ ys)"
proof -
  define p where "p = last (1 # xs)"
  obtain zs where z: "1 # xs = zs @ [p]" using last_split [of 1 xs] unfolding p_def by blast
  obtain n ws where n: "ys @ [2] = n # ws" by (cases ys) auto
  have e: "1 # (xs @ y # ys) @ [2] = zs @ [p, y, n] @ ws" "1 # (xs @ ys) @ [2] = zs @ [p, n] @ ws"
    using cons_split [OF z, of "y # ys @ [2]"] cons_split [OF z, of "ys @ [2]"] n by simp_all
  have c: "chain (succ c) (pred c) (zs @ [p, y, n] @ ws)" "distinct (zs @ [p, y, n] @ ws)"
      "0 \<notin> set (zs @ [p, y, n] @ ws)" "cont c = (\<lambda>_. False)"
    using assms unfolding links_def e(1) [symmetric] by auto
  note r = chain_remove [OF c(1,2)]
  have "unlink y c = Some (c\<lparr>succ := (succ c)(p := n), pred := (pred c)(n := p)\<rparr>)"
    using c(2-4) r(2,3) by (auto simp: unlink_def lru_defs)
  moreover have "links (c\<lparr>succ := (succ c)(p := n), pred := (pred c)(n := p)\<rparr>) (xs @ ys)"
    using r(1) c unfolding links_def e(2) by auto
  ultimately show ?thesis by blast
qed

lemma link_tail_spec:
  assumes "links c as" "a \<notin> set (0 # 1 # as @ [2])"
  shows "\<exists>p. link_tail a c = Some (c\<lparr>succ := (succ c)(p := a, a := 2), pred := (pred c)(a := p, 2 := a)\<rparr>) \<and>
    links (c\<lparr>succ := (succ c)(p := a, a := 2), pred := (pred c)(a := p, 2 := a)\<rparr>) (as @ [a])"
proof -
  define p where "p = last (1 # as)"
  obtain zs where z: "1 # as = zs @ [p]" using last_split [of 1 as] unfolding p_def by blast
  have e: "1 # as @ [2] = zs @ [p, 2] @ []" "1 # (as @ [a]) @ [2] = zs @ [p, a, 2] @ []"
    using cons_split [OF z, of "[2]"] cons_split [OF z, of "[a, 2]"] by simp_all
  have c: "chain (succ c) (pred c) (zs @ [p, 2] @ [])" "distinct (zs @ [p, a, 2] @ [])"
      "0 \<notin> set (zs @ [p, a, 2] @ [])" "cont c = (\<lambda>_. False)"
    using assms unfolding links_def e [symmetric] by auto
  have t: "pred c 2 = p" using chain_last_pv [of "succ c" "pred c" zs p 2] c(1) by simp
  have "link_tail a c = Some (c\<lparr>succ := (succ c)(p := a, a := 2), pred := (pred c)(a := p, 2 := a)\<rparr>)"
    using c(2-4) t by (auto simp: link_tail_def lru_defs fun_upd_twist)
  moreover have "links (c\<lparr>succ := (succ c)(p := a, a := 2), pred := (pred c)(a := p, 2 := a)\<rparr>) (as @ [a])"
    using chain_insert [OF c(1,2)] c unfolding links_def e(2) by auto
  ultimately show ?thesis by blast
qed

lemma tail_not_0: "links c as \<Longrightarrow> pred c 2 \<noteq> 0"
proof -
  assume l: "links c as"
  define p where "p = last (1 # as)"
  obtain zs where z: "1 # as = zs @ [p]" using last_split [of 1 as] unfolding p_def by blast
  have e: "1 # as @ [2] = zs @ [p, 2]" using cons_split [OF z, of "[2]"] by simp
  show ?thesis
    using l chain_last_pv [of "succ c" "pred c" zs p 2] unfolding links_def e by auto
qed

text \<open>\<open>PutTail\<close> of a new node and of a node of the list.\<close>

definition moved :: "('k, 'v) lru_cache \<Rightarrow> ('k, 'v) lru_cache \<Rightarrow> bool" where
  "moved c c' \<longleftrightarrow> underly c' = underly c \<and> key_of c' = key_of c \<and> val_of c' = val_of c \<and>
     fresh c' = fresh c \<and> max_size c' = max_size c \<and> current_size c' = current_size c \<and>
     timeout c' = timeout c"

lemma PutTail_new:
  assumes "links c as" "a \<notin> set (0 # 1 # as @ [2])" "pred c a = 0"
  shows "\<exists>c'. PutTail now a c = Some c' \<and> links c' (as @ [a]) \<and> moved c c' \<and>
    expire_time c' = (expire_time c)(a := now + timeout c)"
  using link_tail_spec [OF assms(1,2)] assms(3)
  by (auto simp: PutTail_def unlink_def links_def moved_def)

lemma pred_in_list:
  assumes "links c (xs @ y # ys)"
  shows "pred c y \<noteq> 0"
proof -
  define p where "p = last (1 # xs)"
  obtain zs where z: "1 # xs = zs @ [p]" using last_split [of 1 xs] unfolding p_def by blast
  have e: "1 # (xs @ y # ys) @ [2] = zs @ [p] @ y # ys @ [2]" using cons_split [OF z, of "y # ys @ [2]"] by simp
  have "chain (succ c) (pred c) ((zs @ [p]) @ y # ys @ [2])" "p \<noteq> 0"
    using assms unfolding links_def e by auto
  then show ?thesis
    using chain_append [of "succ c" "pred c" "zs @ [p]" y "ys @ [2]"]
      chain_append [of "succ c" "pred c" zs p "[y]"] by simp
qed

lemma PutTail_again:
  assumes "links c (xs @ y # ys)"
  shows "\<exists>c'. PutTail now y c = Some c' \<and> links c' (xs @ ys @ [y]) \<and> moved c c' \<and>
    expire_time c' = (expire_time c)(y := now + timeout c)"
proof -
  obtain p n where u: "unlink y c = Some (c\<lparr>succ := (succ c)(p := n), pred := (pred c)(n := p)\<rparr>)"
      "links (c\<lparr>succ := (succ c)(p := n), pred := (pred c)(n := p)\<rparr>) (xs @ ys)"
    using unlink_spec [OF assms] by blast
  have "y \<notin> set (0 # 1 # (xs @ ys) @ [2])" using assms by (auto simp: links_def)
  from link_tail_spec [OF u(2) this] show ?thesis using u(1)
    by (auto simp: PutTail_def links_def moved_def)
qed

section \<open>The abstract cache\<close>

text \<open>
  The entries in the order of their last use, each with its expiry; and the counter, which counts
  every entry twice until it reaches the capacity.
\<close>

type_synonym ('k, 'v) entry = "'k \<times> 'v \<times> time"

record ('k, 'v) cache_spec =
  entries :: "('k, 'v) entry list"
  counter :: nat

definition late :: "time \<Rightarrow> ('k, 'v) entry \<Rightarrow> bool" where
  "late now e \<longleftrightarrow> snd (snd e) < now"

datatype ('k, 'v) op = GetOp time time 'k | PutOp time time time 'k 'v

datatype 'v result = Got "'v option" | Stored bool

fun lru_spec :: "nat \<Rightarrow> time \<Rightarrow> ('k, 'v) cache_spec \<Rightarrow> ('k, 'v) op \<Rightarrow> 'v result \<times> ('k, 'v) cache_spec" where
  "lru_spec cap life s (GetOp t1 t2 k) =
     (case map_of (entries s) k of
        Some (v, e) \<Rightarrow>
          if e < t1 then (Got (Some v),
            s\<lparr>entries := filter (\<lambda>x. fst x \<noteq> k) (entries s) @ [(k, v, t2 + life)]\<rparr>)
          else (Got None, s)
      | None \<Rightarrow> (Got None, s))"
| "lru_spec cap life s (PutOp t1 t2 t3 k v) =
     (let es = entries s @ [(k, v, t2 + life)] in
      if map_of (entries s) k \<noteq> None then (Stored False, s)
      else if counter s + 1 \<ge> cap then
        (Stored True, \<lparr>entries = dropWhile (late t3) (tl es), counter = counter s + 1\<rparr>)
      else (Stored True, \<lparr>entries = es, counter = counter s + 2\<rparr>))"

fun call :: "('k, 'v) lru_cache \<Rightarrow> ('k, 'v) op \<Rightarrow> ('v result \<times> ('k, 'v) lru_cache) option" where
  "call c (GetOp t1 t2 k) = map_option (\<lambda>(r, c'). (Got r, c')) (Get t1 t2 k c)"
| "call c (PutOp t1 t2 t3 k v) = map_option (\<lambda>(r, c'). (Stored r, c')) (Put t1 t2 t3 k v c)"

text \<open>The clock of a signed \<open>time_t\<close> that is not negative.\<close>

fun clock_ok :: "('k, 'v) op \<Rightarrow> bool" where
  "clock_ok (GetOp t1 t2 k) \<longleftrightarrow> t1 \<le> NEVER_TIMEOUT"
| "clock_ok (PutOp t1 t2 t3 k v) \<longleftrightarrow> t3 \<le> NEVER_TIMEOUT"

definition entry_at :: "('k, 'v) lru_cache \<Rightarrow> nat \<Rightarrow> ('k, 'v) entry" where
  "entry_at c a = (the (key_of c a), the (val_of c a), expire_time c a)"

text \<open>The nodes \<open>as\<close> hold the entries, and the map finds each of them by its key.\<close>

definition rep :: "('k, 'v) lru_cache \<Rightarrow> nat list \<Rightarrow> bool" where
  "rep c as \<longleftrightarrow> links c as \<and> expire_time c 2 = NEVER_TIMEOUT \<and> 3 \<le> fresh c \<and>
     (\<forall>a \<in> set as. a < fresh c \<and> key_of c a \<noteq> None \<and> val_of c a \<noteq> None) \<and>
     (\<forall>k a. underly c k = Some a \<longleftrightarrow> a \<in> set as \<and> key_of c a = Some k)"

definition stands_for :: "nat \<Rightarrow> time \<Rightarrow> ('k, 'v) lru_cache \<Rightarrow> ('k, 'v) cache_spec \<Rightarrow> bool" where
  "stands_for cap life c s \<longleftrightarrow> (\<exists>as. rep c as \<and> entries s = map (entry_at c) as) \<and>
     counter s = current_size c \<and> max_size c = cap \<and> timeout c = life"

section \<open>Eviction\<close>

lemma skip_expired_spec:
  "chain (succ c) pv (as @ [2]) \<Longrightarrow> 0 \<notin> set as \<Longrightarrow> \<not> expire_time c 2 < now \<Longrightarrow>
   skip_expired now (hd (as @ [2])) c = Some (hd (dropWhile (\<lambda>a. expire_time c a < now) as @ [2]))"
proof (induction as)
  case Nil
  then show ?case by (simp add: skip_expired.simps)
next
  case (Cons a as)
  have "succ c a = hd (as @ [2])" "chain (succ c) pv (as @ [2])"
    using Cons(2) by (cases as; simp)+
  then show ?case using Cons by (simp add: skip_expired.simps [of _ a])
qed

text \<open>The cache without the nodes \<open>us\<close>.\<close>

definition forget :: "nat list \<Rightarrow> ('k \<Rightarrow> nat option) \<Rightarrow> 'k \<Rightarrow> nat option" where
  "forget us f k = (case f k of None \<Rightarrow> None | Some a \<Rightarrow> if a \<in> set us then None else Some a)"

definition clear :: "nat list \<Rightarrow> 'b \<Rightarrow> (nat \<Rightarrow> 'b) \<Rightarrow> nat \<Rightarrow> 'b" where
  "clear us z f a = (if a \<in> set us then z else f a)"

lemma forget_clear [simp]:
  "forget [] f = f" "clear [] z g = g" "forget us (forget [a] f) = forget (a # us) f"
  "clear us z (clear [a] z g) = clear (a # us) z g"
  by (auto simp: forget_def clear_def split: option.splits)

lemma forget_Some: "forget us f k = Some a \<longleftrightarrow> f k = Some a \<and> a \<notin> set us"
  by (auto simp: forget_def split: option.splits)

lemma clear_out [simp]: "a \<notin> set us \<Longrightarrow> clear us z f a = f a"
  by (simp add: clear_def)

lemma chain_clear:
  "set us \<inter> set ys = {} \<Longrightarrow> chain (clear us z f) g ys = chain f g ys"
  "set us \<inter> set ys = {} \<Longrightarrow> chain f (clear us z g) ys = chain f g ys"
  by (rule chain_cong; auto simp: clear_def dest: in_set_butlastD in_tl)+

definition wipe :: "nat list \<Rightarrow> ('k, 'v) lru_cache \<Rightarrow> ('k, 'v) lru_cache" where
  "wipe us c = c\<lparr>underly := forget us (underly c), key_of := clear us None (key_of c),
     val_of := clear us None (val_of c), pred := clear us 0 (pred c), succ := clear us 0 (succ c)\<rparr>"

lemma wipe_Nil: "wipe [] c = c"
  by (simp add: wipe_def)

lemma wipe_Cons: "wipe us (wipe [a] c) = wipe (a # us) c"
  by (simp add: wipe_def)

lemma clear_one: "f(a := z) = clear [a] z f"
  by (auto simp: clear_def)

lemma erase_key_wipe:
  assumes "underly c k = Some a" "\<And>k' a'. underly c k' = Some a' \<Longrightarrow> key_of c a' = Some k'"
  shows "erase_key k c = wipe [a] c"
proof -
  have "((underly c)(k := None)) k' = forget [a] (underly c) k'" for k'
    using assms(1) assms(2) [of k a] assms(2) [of k' a]
    by (cases "underly c k'") (auto simp: forget_def)
  then have "(underly c)(k := None) = forget [a] (underly c)" by blast
  then show ?thesis
    using assms(1) by (simp add: erase_key_def wipe_def clear_one)
qed

lemma erase_run_spec:
  assumes "chain (succ c) pv (us @ [v])" "distinct (us @ [v])"
    and "\<And>k a. underly c k = Some a \<Longrightarrow> key_of c a = Some k"
    and "\<And>a. a \<in> set us \<Longrightarrow> \<exists>k. underly c k = Some a"
  shows "erase_run (hd (us @ [v])) v c = Some (wipe us c)"
  using assms
proof (induction us arbitrary: c)
  case Nil
  then show ?case by (simp add: erase_run.simps wipe_Nil)
next
  case (Cons u us)
  obtain k where k: "underly c k = Some u" "key_of c u = Some k" using Cons(4,5) by force
  have n: "succ c u = hd (us @ [v])" "chain (succ c) pv (us @ [v])" using Cons(2) by (cases us; simp)+
  let ?c = "wipe [u] c"
  have "succ ?c = (succ c)(u := 0)" by (simp add: wipe_def clear_one)
  then have "chain (succ ?c) pv (us @ [v])" using n(2) Cons(3) by (simp add: chain_frame)
  moreover have "distinct (us @ [v])" using Cons(3) by simp
  moreover have "key_of ?c a' = Some k'" if "underly ?c k' = Some a'" for k' a'
    using that Cons(4) by (auto simp: wipe_def forget_def clear_def split: option.splits if_splits)
  moreover have "\<exists>k. underly ?c k = Some a" if "a \<in> set us" for a
  proof -
    obtain k' where "underly c k' = Some a" using Cons(5) [of a] \<open>a \<in> set us\<close> by auto
    moreover have "a \<noteq> u" using that Cons(3) by auto
    ultimately have "underly ?c k' = Some a" by (simp add: wipe_def forget_def)
    then show ?thesis ..
  qed
  ultimately have "erase_run (hd (us @ [v])) v ?c = Some (wipe us ?c)" by (rule Cons(1))
  then show ?case
    using k n(1) Cons(3) erase_key_wipe [of c k u] Cons(4)
    by (simp add: erase_run.simps [of u] wipe_Cons)
qed

lemma PopHead_late:
  assumes r: "rep c (a # as)" and now: "now \<le> NEVER_TIMEOUT"
  defines "bs \<equiv> dropWhile (\<lambda>a. expire_time c a < now) as"
  shows "\<exists>c'. PopHead now c = Some c' \<and> rep c' bs \<and> map (entry_at c') bs = map (entry_at c) bs \<and>
    max_size c' = max_size c \<and> current_size c' = current_size c \<and> timeout c' = timeout c"
proof -
  define us where "us = a # takeWhile (\<lambda>a. expire_time c a < now) as"
  have as: "a # as = us @ bs" by (simp add: us_def bs_def)
  have l: "chain (succ c) (pred c) (1 # us @ bs @ [2])" "distinct (0 # 1 # us @ bs @ [2])"
      "cont c = (\<lambda>_. False)"
    using r unfolding rep_def links_def as by simp_all
  obtain v ws where v: "bs @ [2] = v # ws" by (cases bs) auto
  have n: "succ c 1 = a" "chain (succ c) (pred c) (a # as @ [2])" "a \<noteq> 2" "0 \<notin> set as"
    using r by (auto simp: rep_def links_def)
  have "skip_expired now (succ c a) c = Some v"
  proof -
    have "succ c a = hd (as @ [2])" "chain (succ c) (pred c) (as @ [2])" using n(2) by (cases as; simp)+
    moreover have "hd (bs @ [2]) = v" using v by simp
    ultimately show ?thesis
      using skip_expired_spec [of c "pred c" as now] n(4) r now by (simp add: rep_def bs_def not_less)
  qed
  moreover have "erase_run a v (set_pred v 1 (set_succ 1 v c)) = Some (wipe us (set_pred v 1 (set_succ 1 v c)))"
  proof -
    let ?c = "set_pred v 1 (set_succ 1 v c)"
    have "chain (succ c) (pred c) (us @ v # ws)" using l(1) unfolding v by (cases us) auto
    then have "chain (succ c) (pred c) (us @ [v])" using chain_append by metis
    moreover have d: "1 \<notin> set (us @ [v])" "distinct (us @ [v])" using l(2) unfolding v by auto
    ultimately have "chain (succ ?c) (pred c) (us @ [v])" 
      by (simp add: set_succ_def set_pred_def chain_frame)
    moreover have "key_of ?c b = Some k" if "underly ?c k = Some b" for k b
      using that r by (simp add: rep_def set_succ_def set_pred_def)
    moreover have "\<exists>k. underly ?c k = Some b" if "b \<in> set us" for b
      using that r unfolding as by (auto simp: rep_def set_succ_def set_pred_def)
    ultimately show ?thesis
      using erase_run_spec [of ?c "pred c" us v] d(2) by (simp add: us_def)
  qed
  moreover define c' where "c' = wipe us (set_pred v 1 (set_succ 1 v c))"
  ultimately have p: "PopHead now c = Some c'" using n by (simp add: PopHead_def)
  have ds: "set bs \<inter> set us = {}" "2 \<notin> set us" "1 \<notin> set us" using l(2) by auto
  have "chain (succ c') (pred c') (1 # v # ws)"
  proof -
    have "chain (succ c) (pred c) (v # ws)"
      using l(1) chain_suffix [of "succ c" "pred c" "1 # us"] unfolding v by simp
    then have "chain ((succ c)(1 := v)) ((pred c)(v := 1)) ([] @ 1 # v # ws)"
      by (intro chain_relink) (use l(2) in \<open>auto simp: v\<close>)
    moreover have "set us \<inter> set (1 # v # ws) = {}" using ds unfolding v [symmetric] by auto
    ultimately show ?thesis
      by (simp add: c'_def wipe_def set_succ_def set_pred_def chain_clear del: chain.simps)
  qed
  then have "links c' bs" using l(2,3) v
    by (auto simp: links_def c'_def wipe_def set_succ_def set_pred_def)
  moreover have "underly c' k = Some b \<longleftrightarrow> b \<in> set bs \<and> key_of c' b = Some k" for k b
    using r ds(1) unfolding rep_def as
    by (auto simp: c'_def wipe_def forget_Some clear_def set_succ_def set_pred_def split: if_splits)
  moreover have "\<forall>b \<in> set bs. b < fresh c' \<and> key_of c' b \<noteq> None \<and> val_of c' b \<noteq> None \<and>
      entry_at c' b = entry_at c b"
    using r ds(1) unfolding rep_def as
    by (auto simp: c'_def wipe_def clear_def set_succ_def set_pred_def entry_at_def)
  moreover have "expire_time c' = expire_time c" "fresh c' = fresh c"
    by (simp_all add: c'_def wipe_def set_succ_def set_pred_def)
  ultimately have "rep c' bs \<and> map (entry_at c') bs = map (entry_at c) bs"
    using r by (simp add: rep_def)
  moreover have "max_size c' = max_size c" "current_size c' = current_size c" "timeout c' = timeout c"
    by (simp_all add: c'_def wipe_def set_succ_def set_pred_def)
  ultimately show ?thesis using p by blast
qed

section \<open>Lookup\<close>

lemma rep_underly: "rep c as \<Longrightarrow> underly c k = Some a \<longleftrightarrow> a \<in> set as \<and> key_of c a = Some k"
  by (simp add: rep_def)

lemma rep_key: "rep c as \<Longrightarrow> a \<in> set as \<Longrightarrow> key_of c a = Some (the (key_of c a))"
  by (auto simp: rep_def)

lemma rep_key_inj: "rep c as \<Longrightarrow> a \<in> set as \<Longrightarrow> b \<in> set as \<Longrightarrow> key_of c a = key_of c b \<Longrightarrow> a = b"
proof -
  assume r: "rep c as" "a \<in> set as" "b \<in> set as" "key_of c a = key_of c b"
  then obtain k where "key_of c a = Some k" by (auto simp: rep_def)
  with r have "underly c k = Some a" "underly c k = Some b" by (auto simp: rep_def)
  then show "a = b" by simp
qed

lemma rep_distinct_keys: "rep c as \<Longrightarrow> distinct (map fst (map (entry_at c) as))"
proof -
  assume r: "rep c as"
  have "inj_on (\<lambda>a. the (key_of c a)) (set as)"
  proof (rule inj_onI)
    fix a b assume ab: "a \<in> set as" "b \<in> set as" "the (key_of c a) = the (key_of c b)"
    then have "key_of c a = key_of c b" using rep_key [OF r] by metis
    then show "a = b" using rep_key_inj [OF r ab(1,2)] by simp
  qed
  then show ?thesis using r by (simp add: distinct_map entry_at_def comp_def rep_def links_def)
qed

lemma rep_lookup:
  assumes "rep c as"
  shows "map_of (map (entry_at c) as) k = map_option (\<lambda>a. snd (entry_at c a)) (underly c k)"
proof (cases "underly c k")
  case None
  have "k \<notin> fst ` set (map (entry_at c) as)"
  proof
    assume "k \<in> fst ` set (map (entry_at c) as)"
    then obtain a where a: "a \<in> set as" "the (key_of c a) = k" by (auto simp: entry_at_def)
    then have "key_of c a = Some k" using rep_key [OF assms] by metis
    then show False using rep_underly [OF assms, of k a] a(1) None by simp
  qed
  then have "map_of (map (entry_at c) as) k = None" by (simp only: map_of_eq_None_iff not_False_eq_True)
  then show ?thesis using None by simp
next
  case (Some a)
  then have a: "a \<in> set as" "key_of c a = Some k" using assms by (auto simp: rep_def)
  then have "(k, snd (entry_at c a)) \<in> set (map (entry_at c) as)"
    by (force simp: entry_at_def)
  then show ?thesis using map_of_is_SomeI [OF rep_distinct_keys [OF assms]] Some by simp
qed

lemma rep_remove:
  assumes "rep c (xs @ a # ys)" "key_of c a = Some k"
  shows "filter (\<lambda>x. fst x \<noteq> k) (map (entry_at c) (xs @ a # ys)) = map (entry_at c) (xs @ ys)"
proof -
  have "fst (entry_at c b) \<noteq> k" if "b \<in> set (xs @ ys)" for b
  proof
    assume "fst (entry_at c b) = k"
    then have "key_of c b = key_of c a" using rep_key [OF assms(1), of b] assms(2) that
      by (auto simp: entry_at_def)
    then have "b = a" using rep_key_inj [OF assms(1)] that by auto
    then show False using that assms(1) by (auto simp: rep_def links_def)
  qed
  then have "filter (\<lambda>x. fst x \<noteq> k) (map (entry_at c) xs) = map (entry_at c) xs"
    "filter (\<lambda>x. fst x \<noteq> k) (map (entry_at c) ys) = map (entry_at c) ys"
    by (simp_all add: filter_id_conv)
  then show ?thesis using assms(2) by (simp add: entry_at_def)
qed

section \<open>Refinement\<close>

lemma Get_simulates:
  assumes "stands_for cap life c s"
  shows "\<exists>c'. call c (GetOp t1 t2 k) = Some (fst (lru_spec cap life s (GetOp t1 t2 k)), c') \<and>
    stands_for cap life c' (snd (lru_spec cap life s (GetOp t1 t2 k)))"
proof -
  obtain as where r: "rep c as" "entries s = map (entry_at c) as" "counter s = current_size c"
      "max_size c = cap" "timeout c = life" using assms by (auto simp: stands_for_def)
  show ?thesis
  proof (cases "underly c k")
    case None
    then show ?thesis using assms rep_lookup [OF r(1), of k] r(2) by (simp add: Get_def)
  next
    case (Some a)
    then have a: "a \<in> set as" "key_of c a = Some k" using r(1) by (auto simp: rep_def)
    then obtain xs ys where as: "as = xs @ a # ys" by (meson split_list)
    have look: "map_of (entries s) k = Some (the (val_of c a), expire_time c a)"
      using rep_lookup [OF r(1), of k] Some r(2) by (simp add: entry_at_def)
    show ?thesis
    proof (cases "expire_time c a < t1")
      case False
      then show ?thesis using assms look Some by (simp add: Get_def)
    next
      case True
      obtain c' where c': "PutTail t2 a c = Some c'" "links c' (xs @ ys @ [a])" "moved c c'"
          "expire_time c' = (expire_time c)(a := t2 + timeout c)"
        using PutTail_again [of c xs a ys t2] r(1) as by (auto simp: rep_def)
      have "a \<noteq> 2" "a \<notin> set (xs @ ys)" using r(1) as by (auto simp: rep_def links_def)
      then have e: "entry_at c' a = (k, the (val_of c a), t2 + life)"
          "map (entry_at c') (xs @ ys) = map (entry_at c) (xs @ ys)"
        using c'(3,4) a r(5) by (auto simp: entry_at_def moved_def)
      have "rep c' (xs @ ys @ [a])"
        using r(1) c' \<open>a \<noteq> 2\<close> by (auto simp: rep_def moved_def as)
      moreover have "filter (\<lambda>x. fst x \<noteq> k) (entries s) @ [(k, the (val_of c a), t2 + life)] =
          map (entry_at c') (xs @ ys @ [a])"
        using rep_remove [of c xs a ys k] r(1,2) a(2) e unfolding as by simp
      ultimately have "stands_for cap life c' (snd (lru_spec cap life s (GetOp t1 t2 k)))"
        using look True r c'(3) unfolding stands_for_def
        by (auto simp: moved_def intro!: exI [of _ "xs @ ys @ [a]"])
      moreover have "val_of c' a = Some (the (val_of c a))"
        using r(1) a(1) c'(3) by (auto simp: rep_def moved_def)
      ultimately show ?thesis using look True Some c'(1) by (simp add: Get_def)
    qed
  qed
qed

text \<open>The new node of \<open>Put\<close>, linked in.\<close>

lemma Put_links:
  assumes r: "rep c as" and k: "underly c k = None"
  defines "a \<equiv> fresh c"
  shows "\<exists>c'. PutTail t2 a (c\<lparr>underly := (underly c)(k \<mapsto> a), fresh := a + 1, key_of := (key_of c)(a \<mapsto> k),
         val_of := (val_of c)(a \<mapsto> v), pred := (pred c)(a := 0), succ := (succ c)(a := 0),
         cont := (cont c)(a := False), expire_time := (expire_time c)(a := t1 + timeout c)\<rparr>) = Some c' \<and>
    rep c' (as @ [a]) \<and> map (entry_at c') (as @ [a]) = map (entry_at c) as @ [(k, v, t2 + timeout c)] \<and>
    max_size c' = max_size c \<and> current_size c' = current_size c \<and> timeout c' = timeout c"
    (is "\<exists>c'. PutTail t2 a ?c = Some c' \<and> _")
proof -
  have a: "a \<notin> set (0 # 1 # as @ [2])" using r by (auto simp: rep_def a_def)
  have "chain (succ ?c) (pred ?c) (1 # as @ [2])"
    using r a chain_frame [of a "1 # as @ [2]"] by (simp add: rep_def links_def del: chain.simps)
  then have "links ?c as" using r by (auto simp: rep_def links_def)
  then obtain c' where c': "PutTail t2 a ?c = Some c'" "links c' (as @ [a])" "moved ?c c'"
      "expire_time c' = (expire_time ?c)(a := t2 + timeout c)"
    using PutTail_new [of ?c as a t2] a by auto
  have "underly c' k' = Some b \<longleftrightarrow> b \<in> set (as @ [a]) \<and> key_of c' b = Some k'" for k' b
    using c'(3) rep_underly [OF r, of k' b] a k rep_underly [OF r, of k b]
    by (auto simp: moved_def)
  then have "rep c' (as @ [a])"
    using r c' a by (auto simp: rep_def moved_def a_def)
  moreover have "entry_at c' b = entry_at c b" if "b \<in> set as" for b
  proof -
    have "b \<noteq> a" using that a by auto
    then show ?thesis using c'(3,4) by (simp add: entry_at_def moved_def)
  qed
  moreover have "entry_at c' a = (k, v, t2 + timeout c)"
    using c'(3,4) by (simp add: entry_at_def moved_def)
  ultimately have "rep c' (as @ [a]) \<and> map (entry_at c') (as @ [a]) = map (entry_at c) as @ [(k, v, t2 + timeout c)]"
    by simp
  moreover have "max_size c' = max_size c" "current_size c' = current_size c" "timeout c' = timeout c"
    using c'(3) by (simp_all add: moved_def)
  ultimately show ?thesis using c'(1) by blast
qed

lemma rep_size [simp]: "rep (c\<lparr>current_size := n\<rparr>) as = rep c as" "entry_at (c\<lparr>current_size := n\<rparr>) = entry_at c"
  by (auto simp: rep_def links_def entry_at_def)

lemma Put_simulates:
  assumes "stands_for cap life c s" and now: "t3 \<le> NEVER_TIMEOUT"
  shows "\<exists>c'. call c (PutOp t1 t2 t3 k v) = Some (fst (lru_spec cap life s (PutOp t1 t2 t3 k v)), c') \<and>
    stands_for cap life c' (snd (lru_spec cap life s (PutOp t1 t2 t3 k v)))"
proof -
  obtain as where r: "rep c as" "entries s = map (entry_at c) as" "counter s = current_size c"
      "max_size c = cap" "timeout c = life" using assms by (auto simp: stands_for_def)
  show ?thesis
  proof (cases "underly c k")
    case (Some a)
    then show ?thesis using assms rep_lookup [OF r(1), of k] r(2) by (simp add: Put_def)
  next
    case None
    then have look: "map_of (entries s) k = None" using rep_lookup [OF r(1), of k] r(2) by simp
    obtain c1 where c1: "PutTail t2 (fresh c) (c\<lparr>underly := (underly c)(k \<mapsto> fresh c), fresh := fresh c + 1,
         key_of := (key_of c)(fresh c \<mapsto> k), val_of := (val_of c)(fresh c \<mapsto> v),
         pred := (pred c)(fresh c := 0), succ := (succ c)(fresh c := 0),
         cont := (cont c)(fresh c := False), expire_time := (expire_time c)(fresh c := t1 + timeout c)\<rparr>) = Some c1"
        "rep c1 (as @ [fresh c])" "map (entry_at c1) (as @ [fresh c]) = entries s @ [(k, v, t2 + life)]"
        "max_size c1 = cap" "current_size c1 = counter s" "timeout c1 = life"
      using Put_links [OF r(1) None, where ?t2.0 = t2 and v = v and ?t1.0 = t1] r(2-5) by auto
    show ?thesis
    proof (cases "counter s + 1 \<ge> cap")
      case False
      then have "stands_for cap life (c1\<lparr>current_size := counter s + 2\<rparr>)
          \<lparr>entries = entries s @ [(k, v, t2 + life)], counter = counter s + 2\<rparr>"
        using c1(2-) unfolding stands_for_def by (auto intro!: exI [of _ "as @ [fresh c]"])
      then show ?thesis using False look None c1 by (simp add: Put_def Let_def)
    next
      case True
      obtain a bs where ab: "as @ [fresh c] = a # bs" by (cases as) auto
      let ?c = "c1\<lparr>current_size := counter s + 1\<rparr>"
      obtain c2 where c2: "PopHead t3 ?c = Some c2"
          "rep c2 (dropWhile (\<lambda>a. expire_time c1 a < t3) bs)"
          "map (entry_at c2) (dropWhile (\<lambda>a. expire_time c1 a < t3) bs) =
           map (entry_at c1) (dropWhile (\<lambda>a. expire_time c1 a < t3) bs)"
          "max_size c2 = cap" "current_size c2 = counter s + 1" "timeout c2 = life"
        using PopHead_late [of ?c a bs t3] now c1(2,4,6) unfolding ab by auto
      have "dropWhile (late t3) (tl (entries s @ [(k, v, t2 + life)])) =
          map (entry_at c1) (dropWhile (\<lambda>a. expire_time c1 a < t3) bs)"
        unfolding c1(3) [symmetric] ab
        by (simp add: dropWhile_map comp_def late_def entry_at_def)
      then have "stands_for cap life c2
          \<lparr>entries = dropWhile (late t3) (tl (entries s @ [(k, v, t2 + life)])), counter = counter s + 1\<rparr>"
        using c2(2-) unfolding stands_for_def by auto
      then show ?thesis using True look None c1(1,4-6) c2(1) by (simp add: Put_def Let_def)
    qed
  qed
qed

lemma stands_for_empty: "stands_for cap life (LRUCache cap life) \<lparr>entries = [], counter = 0\<rparr>"
  by (auto simp: stands_for_def rep_def links_def LRUCache_def intro!: exI [of _ "[]"])

interpretation lru: simulates clock_ok "stands_for cap life" call "lru_spec cap life" for cap life
proof
  fix c :: "('a, 'b) lru_cache" and s and op :: "('a, 'b) op"
  assume "stands_for cap life c s" "clock_ok op"
  then show "\<exists>c'. call c op = Some (fst (lru_spec cap life s op), c') \<and>
      stands_for cap life c' (snd (lru_spec cap life s op))"
    using Get_simulates [of cap life c s] Put_simulates [of cap life c s]
    by (cases op) (auto simp del: call.simps lru_spec.simps)
qed

text \<open>The counter bounds the entries.\<close>

definition half_full :: "nat \<Rightarrow> ('k, 'v) cache_spec \<Rightarrow> bool" where
  "half_full cap s \<longleftrightarrow> 2 * length (entries s) \<le> cap \<and>
     (counter s + 1 < cap \<longrightarrow> 2 * length (entries s) \<le> counter s)"

lemma length_drop_tl: "length (dropWhile P (tl (xs @ [x]))) \<le> length xs"
  using length_dropWhile_le [of P "tl (xs @ [x])"] by simp

lemma spec_half_full: "half_full cap s \<Longrightarrow> half_full cap (snd (lru_spec cap life s op))"
proof (cases op)
  case (GetOp t1 t2 k)
  assume h: "half_full cap s"
  have "length (filter (\<lambda>x. fst x \<noteq> k) (entries s)) < length (entries s)" if "map_of (entries s) k = Some ve" for ve
    using map_of_SomeD [OF that] by (intro length_filter_less) auto
  then show ?thesis using h GetOp by (force simp: half_full_def split: option.splits)
next
  case (PutOp t1 t2 t3 k v)
  assume h: "half_full cap s"
  show ?thesis using h PutOp length_drop_tl [of "late t3" "entries s"]
    by (auto simp: half_full_def Let_def intro: order_trans [rotated])
qed

lemma run_half_full: "half_full cap s \<Longrightarrow> half_full cap (snd (run_model (lru_spec cap life) s ops))"
proof (induction ops arbitrary: s)
  case (Cons op ops)
  then show ?case using spec_half_full [of cap s life op] by (simp add: split_beta)
qed simp

text \<open>With the default timeout no entry is late before the year \<open>2 ^ 63\<close>.\<close>

fun clock_small :: "('k, 'v) op \<Rightarrow> bool" where
  "clock_small (GetOp t1 t2 k) \<longleftrightarrow> t1 < NEVER_TIMEOUT \<and> t2 < NEVER_TIMEOUT"
| "clock_small (PutOp t1 t2 t3 k v) \<longleftrightarrow> t2 < NEVER_TIMEOUT \<and> t3 < NEVER_TIMEOUT"

lemma small_ok: "list_all clock_small ops \<Longrightarrow> list_all clock_ok ops"
proof (induction ops)
  case (Cons op ops)
  then show ?case by (cases op) auto
qed simp

lemma never_late: "t < NEVER_TIMEOUT \<Longrightarrow> t' < NEVER_TIMEOUT \<Longrightarrow> \<not> t + NEVER_TIMEOUT < t'"
  by (simp add: NEVER_TIMEOUT_def word_less_nat_alt unat_plus_if')

definition no_late :: "('k, 'v) cache_spec \<Rightarrow> bool" where
  "no_late s \<longleftrightarrow> (\<forall>e \<in> set (entries s). \<forall>t. t < NEVER_TIMEOUT \<longrightarrow> \<not> snd (snd e) < t)"

lemma spec_no_late:
  assumes "no_late s" "clock_small op"
  shows "no_late (snd (lru_spec cap NEVER_TIMEOUT s op)) \<and>
    (\<forall>v. fst (lru_spec cap NEVER_TIMEOUT s op) \<noteq> Got (Some v))"
proof (cases op)
  case (GetOp t1 t2 k)
  have "\<not> e < t1" if "map_of (entries s) k = Some (v, e)" for v e
    using map_of_SomeD [OF that] assms GetOp by (auto simp: no_late_def)
  then show ?thesis using assms GetOp by (auto split: option.splits)
next
  case (PutOp t1 t2 t3 k v)
  then have "\<forall>e \<in> set (entries s @ [(k, v, t2 + NEVER_TIMEOUT)]). \<forall>t. t < NEVER_TIMEOUT \<longrightarrow> \<not> snd (snd e) < t"
    using assms never_late by (auto simp: no_late_def)
  then show ?thesis using assms PutOp
    by (auto simp: no_late_def Let_def dest!: set_dropWhileD in_tl)
qed

lemma run_no_late:
  "no_late s \<Longrightarrow> list_all clock_small ops \<Longrightarrow>
   Got (Some v) \<notin> set (fst (run_model (lru_spec cap NEVER_TIMEOUT) s ops))"
proof (induction ops arbitrary: s)
  case (Cons op ops)
  have "Got (Some v) \<noteq> fst (lru_spec cap NEVER_TIMEOUT s op)"
    using spec_no_late [of s op cap] Cons(2,3) by (metis list.pred_inject(2))
  moreover have "Got (Some v) \<notin> set (fst (run_model (lru_spec cap NEVER_TIMEOUT)
      (snd (lru_spec cap NEVER_TIMEOUT s op)) ops))"
    using spec_no_late [of s op cap] Cons by simp
  ultimately show ?case by (simp add: split_beta)
qed simp

section \<open>Properties\<close>

text \<open>C10: any sequence of \<open>Get\<close> and \<open>Put\<close> returns, releases every lock, and has the results of the
  abstract cache: a \<open>Get\<close> finds an entry only after its expiry and makes it the newest, a \<open>Put\<close>
  into a full cache drops the oldest entry and the expired ones behind it.\<close>

theorem lru_cache_refines:
  assumes "list_all clock_ok ops"
  shows "\<exists>c. run_calls call (LRUCache cap life) ops =
      Some (fst (run_model (lru_spec cap life) \<lparr>entries = [], counter = 0\<rparr> ops), c) \<and>
    stands_for cap life c (snd (run_model (lru_spec cap life) \<lparr>entries = [], counter = 0\<rparr> ops))"
  by (rule lru.all [OF stands_for_empty assms])

lemma lru_cache_refines_witness:
  "\<exists>c. run_calls call (LRUCache 4 10) [PutOp 5 5 5 ''a'' True, GetOp 6 6 ''a'', GetOp 16 17 ''a''] =
    Some ([Stored True, Got None, Got (Some True)], c)"
proof -
  let ?ops = "[PutOp 5 5 5 ''a'' True, GetOp 6 6 ''a'', GetOp 16 17 ''a'']"
  have ok: "list_all clock_ok ?ops" by (simp add: NEVER_TIMEOUT_def)
  have r: "fst (run_model (lru_spec 4 10) \<lparr>entries = [], counter = 0\<rparr> ?ops) =
      [Stored True, Got None, Got (Some True)]" by (simp add: Let_def)
  show ?thesis using lru_cache_refines [OF ok, of 4 10] unfolding r by blast
qed

text \<open>A cache of capacity \<open>cap\<close> never keeps more than \<open>cap div 2\<close> entries, because \<open>Put\<close> counts
  every entry twice; a cache of capacity 1 is always empty.\<close>

theorem lru_cache_half_full:
  assumes "list_all clock_ok ops"
  shows "\<exists>rs c as. run_calls call (LRUCache cap life) ops = Some (rs, c) \<and> rep c as \<and>
    length as \<le> cap div 2"
proof -
  let ?s = "snd (run_model (lru_spec cap life) \<lparr>entries = [], counter = 0\<rparr> ops)"
  have "half_full cap ?s" by (rule run_half_full) (simp add: half_full_def)
  then have n: "length (entries ?s) \<le> cap div 2" by (auto simp: half_full_def)
  obtain c where c: "run_calls call (LRUCache cap life) ops =
      Some (fst (run_model (lru_spec cap life) \<lparr>entries = [], counter = 0\<rparr> ops), c)" "stands_for cap life c ?s"
    using lru.all [OF stands_for_empty assms] by blast
  then show ?thesis using n unfolding stands_for_def by auto
qed

lemma lru_cache_half_full_witness:
  "\<exists>rs c as. run_calls call (LRUCache 1 10) [PutOp 5 5 5 ''a'' True] = Some (rs, c) \<and> rep c as \<and>
    length as = 0"
  using lru_cache_half_full [of "[PutOp 5 5 5 ''a'' True]" 1 10] by (auto simp: NEVER_TIMEOUT_def)

text \<open>C38: a cache with the default timeout never hits: whatever has been stored, every \<open>Get\<close> returns
  null, because the test of the expiry is the wrong way round.\<close>

theorem lru_cache_never_hits:
  assumes "list_all clock_small ops"
  shows "\<exists>rs c. run_calls call (LRUCache cap NEVER_TIMEOUT) ops = Some (rs, c) \<and> Got (Some v) \<notin> set rs"
  using lru.all [OF stands_for_empty small_ok [OF assms]] run_no_late [OF _ assms, of "\<lparr>entries = [], counter = 0\<rparr>"]
  by (fastforce simp: no_late_def)

lemma lru_cache_never_hits_witness:
  "\<exists>rs c. run_calls call (LRUCache 10 NEVER_TIMEOUT) [PutOp 5 5 5 ''a'' True, GetOp 6 6 ''a''] = Some (rs, c) \<and>
    Got (Some True) \<notin> set rs"
  by (rule lru_cache_never_hits) (simp_all add: NEVER_TIMEOUT_def)

end
