(* ===== verification/Lock_Free_List.thy ===== *)
theory Lock_Free_List
  imports Main "HOL-Library.Monad_Syntax"
begin

text \<open>
  \<open>c++/utils/cache/lock_free_linked_list.h\<close>: the list whose \<open>next\<close> pointers carry a mark and a flag.
  Nodes are addresses, 0 is the null pointer and 1 the head; following the null pointer, and a loop
  that does not end, is \<open>None\<close>.  \<open>Delete\<close> and \<open>TryFlag\<close> do not compile (they return and use values
  of the wrong type), so that no operation ever sets a flag; the code that copes with flags and
  marks is modelled all the same.  \<open>fresh\<close> is the address that \<open>new\<close> gives next.
\<close>

section \<open>Definitions\<close>

record mark_node =
  ptr :: nat
  mark :: bool
  flag :: bool

definition MarkNode :: "nat \<Rightarrow> bool \<Rightarrow> bool \<Rightarrow> mark_node" where
  "MarkNode p m f = \<lparr>ptr = p, mark = m, flag = f\<rparr>"

record 'a lf_list =
  val_at :: "nat \<Rightarrow> 'a option"
  prev_at :: "nat \<Rightarrow> nat"
  next_at :: "nat \<Rightarrow> mark_node"
  fresh :: nat

definition Next :: "'a lf_list \<Rightarrow> nat \<Rightarrow> nat" where
  "Next h a = ptr (next_at h a)"

definition IsMarked :: "'a lf_list \<Rightarrow> nat \<Rightarrow> bool" where
  "IsMarked h a = mark (next_at h a)"

definition store_next :: "nat \<Rightarrow> mark_node \<Rightarrow> 'a lf_list \<Rightarrow> 'a lf_list" where
  "store_next a n h = h\<lparr>next_at := (next_at h)(a := n)\<rparr>"

text \<open>\<open>compare_exchange_strong\<close>: the value that \<open>expected\<close> has afterwards, and the memory.\<close>

definition cas_next :: "nat \<Rightarrow> mark_node \<Rightarrow> mark_node \<Rightarrow> 'a lf_list \<Rightarrow> mark_node \<times> 'a lf_list" where
  "cas_next a expected desired h =
     (if next_at h a = expected then (expected, store_next a desired h) else (next_at h a, h))"

definition new_list :: "'a lf_list" where
  "new_list = \<lparr>val_at = \<lambda>_. None, prev_at = \<lambda>_. 0, next_at = \<lambda>_. MarkNode 0 False False, fresh = 2\<rparr>"

definition HelpMarked :: "nat \<Rightarrow> nat \<Rightarrow> 'a lf_list \<Rightarrow> 'a lf_list" where
  "HelpMarked prev_node del_node h =
     snd (cas_next prev_node (MarkNode del_node False True) (MarkNode (Next h del_node) False False) h)"

subsection \<open>Search\<close>

partial_function (option) skip_marked :: "nat \<Rightarrow> nat \<Rightarrow> 'a lf_list \<Rightarrow> (nat \<times> 'a lf_list) option" where
  [code]: "skip_marked cur_node next_node h =
     (if next_node = 0 then None
      else if IsMarked h next_node \<and> (\<not> IsMarked h cur_node \<or> Next h cur_node \<noteq> next_node) then
        (let h' = (if Next h cur_node = next_node then HelpMarked cur_node next_node h else h) in
         skip_marked cur_node (Next h' cur_node) h')
      else Some (next_node, h))"

text \<open>The loop ends with \<open>cur_node\<close>, \<open>next_node\<close> and \<open>equal\<close>.\<close>

partial_function (option) search_loop ::
    "'a \<Rightarrow> nat \<Rightarrow> bool \<Rightarrow> 'a lf_list \<Rightarrow> ((nat \<times> nat \<times> bool) \<times> 'a lf_list) option" where
  [code]: "search_loop k cur_node equal h =
     (if cur_node = 0 then None else
      (let next_node = Next h cur_node in
       if next_node = 0 then Some ((cur_node, 0, equal), h)
       else if val_at h next_node = Some k then Some ((cur_node, next_node, True), h)
       else do {
         (n, h') \<leftarrow> skip_marked cur_node next_node h;
         search_loop k n False h' }))"

definition SearchFrom :: "'a \<Rightarrow> nat \<Rightarrow> 'a lf_list \<Rightarrow> ((mark_node \<times> nat) \<times> 'a lf_list) option" where
  "SearchFrom k start h = do {
     ((cur_node, next_node, equal), h') \<leftarrow> search_loop k start True h;
     let already_equal = (equal \<and> cur_node \<noteq> 1);
     if already_equal then
       (if next_node = 0 then None else Some ((MarkNode next_node True False, Next h' next_node), h'))
     else Some ((MarkNode cur_node False False, next_node), h') }"

definition Search :: "'a \<Rightarrow> 'a lf_list \<Rightarrow> (nat \<times> 'a lf_list) option" where
  "Search k h = do {
     (ret, h') \<leftarrow> SearchFrom k 1 h;
     Some (if \<not> mark (fst ret) then 0 else ptr (fst ret), h') }"

subsection \<open>Helping\<close>

text \<open>\<open>TryMark\<close>; what \<open>HelpFlagged\<close> does is written out where \<open>TryMark\<close> calls it.\<close>

partial_function (option) TryMark :: "nat \<Rightarrow> 'a lf_list \<Rightarrow> 'a lf_list option" where
  [code]: "TryMark del_node h = (if del_node = 0 then None else
     (let next_node = Next h del_node;
          (e, h1) = cas_next del_node (MarkNode next_node False False) (MarkNode next_node True False) h in
      do {
        h2 \<leftarrow> (if \<not> mark e \<and> flag e then
          (let d = ptr e; h' = h1\<lparr>prev_at := (prev_at h1)(d := del_node)\<rparr> in do {
             h'' \<leftarrow> (if \<not> IsMarked h' d then TryMark d h' else Some h');
             Some (HelpMarked del_node d h'') })
          else Some h1);
        if IsMarked h2 del_node then TryMark del_node h2 else Some h2 }))"

definition HelpFlagged :: "nat \<Rightarrow> nat \<Rightarrow> 'a lf_list \<Rightarrow> 'a lf_list option" where
  "HelpFlagged prev_node del_node h =
     (let h' = h\<lparr>prev_at := (prev_at h)(del_node := prev_node)\<rparr> in do {
        h'' \<leftarrow> (if \<not> IsMarked h' del_node then TryMark del_node h' else Some h');
        Some (HelpMarked prev_node del_node h'') })"

subsection \<open>Insert\<close>

partial_function (option) walk_back :: "nat \<Rightarrow> 'a lf_list \<Rightarrow> nat option" where
  [code]: "walk_back prev_node h = (if prev_node = 0 then None
     else if IsMarked h prev_node then walk_back (prev_at h prev_node) h else Some prev_node)"

text \<open>One round of the loop up to the second search: the result, or where to search from.\<close>

definition try_insert ::
    "nat \<Rightarrow> nat \<Rightarrow> nat \<Rightarrow> 'a lf_list \<Rightarrow> (nat option \<times> 'a lf_list) option" where
  "try_insert new_node prev_node next_node h =
     (let prev_succ = next_at h prev_node in
      if flag prev_succ then do {
        h' \<leftarrow> HelpFlagged prev_node (ptr prev_succ) h;
        Some (Some prev_node, h') }
      else
        (let h1 = store_next new_node (MarkNode next_node False False) h;
             (tmp, h2) = cas_next prev_node (MarkNode next_node False False) (MarkNode new_node False False) h1 in
         if tmp = MarkNode next_node False False then Some (None, h2)
         else do {
           h3 \<leftarrow> (if \<not> mark tmp \<and> flag tmp then HelpFlagged prev_node (ptr tmp) h2 else Some h2);
           p \<leftarrow> walk_back prev_node h3;
           Some (Some p, h3) }))"

partial_function (option) insert_loop ::
    "'a \<Rightarrow> nat \<Rightarrow> nat \<Rightarrow> nat \<Rightarrow> 'a lf_list \<Rightarrow> ((nat \<times> bool) \<times> 'a lf_list) option" where
  [code]: "insert_loop k new_node prev_node next_node h = do {
     (again, h1) \<leftarrow> try_insert new_node prev_node next_node h;
     (case again of
        None \<Rightarrow> Some ((new_node, True), h1)
      | Some p \<Rightarrow> do {
          (ret, h2) \<leftarrow> SearchFrom k p h1;
          if mark (fst ret) then Some ((ptr (fst ret), False), h2)
          else insert_loop k new_node p next_node h2 }) }"

text \<open>The first search, the allocation, and the loop.\<close>

definition alloc_node :: "'a \<Rightarrow> 'a lf_list \<Rightarrow> nat \<times> 'a lf_list" where
  "alloc_node k h = (fresh h, h\<lparr>fresh := fresh h + 1, val_at := (val_at h)(fresh h \<mapsto> k),
     prev_at := (prev_at h)(fresh h := 0), next_at := (next_at h)(fresh h := MarkNode 0 False False)\<rparr>)"

definition Insert :: "'a \<Rightarrow> 'a lf_list \<Rightarrow> ((nat \<times> bool) \<times> 'a lf_list) option" where
  "Insert k h = do {
     (ret, h1) \<leftarrow> SearchFrom k 1 h;
     if mark (fst ret) then Some ((ptr (fst ret), False), h1)
     else (let (a, h2) = alloc_node k h1 in insert_loop k a (ptr (fst ret)) (snd ret) h2) }"

section \<open>Lists without marks and flags\<close>

definition plain :: "nat \<Rightarrow> mark_node" where
  "plain p = MarkNode p False False"

lemma plain_sel [simp]: "ptr (plain p) = p" "mark (plain p) = False" "flag (plain p) = False"
  by (simp_all add: plain_def MarkNode_def)

lemma plain_inj [simp]: "plain p = plain q \<longleftrightarrow> p = q"
  by (metis plain_sel(1))

text \<open>The nodes \<open>as\<close> follow the node \<open>a\<close>, up to the end.\<close>

definition chain_from :: "'a lf_list \<Rightarrow> nat \<Rightarrow> nat list \<Rightarrow> bool" where
  "chain_from h a as \<longleftrightarrow> map (next_at h) (a # as) = map plain (as @ [0]) \<and> 0 \<notin> set (a # as)"

lemma chain_Nil [simp]: "chain_from h a [] \<longleftrightarrow> next_at h a = plain 0 \<and> a \<noteq> 0"
  by (auto simp: chain_from_def)

lemma chain_Cons [simp]: "chain_from h a (b # bs) \<longleftrightarrow> next_at h a = plain b \<and> a \<noteq> 0 \<and> chain_from h b bs"
  by (auto simp: chain_from_def)

lemma chain_from_mem: "chain_from h a as \<Longrightarrow> x \<in> set (a # as) \<Longrightarrow> \<exists>p. next_at h x = plain p \<and> x \<noteq> 0"
  by (induction as arbitrary: a) auto

lemma chain_from_append: "chain_from h a (xs @ ys) \<Longrightarrow> chain_from h (last (a # xs)) ys"
  by (induction xs arbitrary: a) auto

lemma chain_store: "b \<notin> set (a # as) \<Longrightarrow> chain_from (store_next b n h) a as = chain_from h a as"
  by (induction as arbitrary: a) (auto simp: store_next_def)

lemma chain_new:
  "chain_from h a (xs @ ys) \<Longrightarrow> distinct (a # xs @ ys) \<Longrightarrow> b \<notin> set (0 # a # xs @ ys) \<Longrightarrow>
   chain_from (store_next (last (a # xs)) (plain b) (store_next b (plain (hd (ys @ [0]))) h)) a (xs @ b # ys)"
proof (induction xs arbitrary: a)
  case Nil
  then show ?case using chain_store [of a b ys] chain_store [of b "hd ys" "tl ys"]
    by (cases ys) (auto simp: store_next_def chain_from_def)
next
  case (Cons x xs)
  then have "a \<noteq> last (x # xs)" by (metis distinct.simps(2) last_in_set append_Cons in_set_conv_decomp list.distinct(1) set_append Un_iff)
  then show ?case using Cons by (auto simp: store_next_def)
qed

section \<open>Searching\<close>

lemma skip_plain: "chain_from h a (b # bs) \<Longrightarrow> skip_marked a b h = Some (b, h)"
  using chain_from_mem [of h a "b # bs" b] by (auto simp: skip_marked.simps [of a b] IsMarked_def)

definition before :: "'a lf_list \<Rightarrow> 'a \<Rightarrow> nat list \<Rightarrow> nat list" where
  "before h k as = takeWhile (\<lambda>a. val_at h a \<noteq> Some k) as"

definition from_on :: "'a lf_list \<Rightarrow> 'a \<Rightarrow> nat list \<Rightarrow> nat list" where
  "from_on h k as = dropWhile (\<lambda>a. val_at h a \<noteq> Some k) as"

lemma before_from: "before h k as @ from_on h k as = as"
  by (simp add: before_def from_on_def)

lemma search_loop_spec:
  "chain_from h a as \<Longrightarrow> search_loop k a equal h =
    Some ((last (a # before h k as), hd (from_on h k as @ [0]),
      if from_on h k as \<noteq> [] then True else if as = [] then equal else False), h)"
proof (induction as arbitrary: a equal)
  case Nil
  then show ?case by (simp add: search_loop.simps [of k a] Next_def before_def from_on_def)
next
  case (Cons b bs)
  then have "a \<noteq> 0" "b \<noteq> 0" "Next h a = b" "skip_marked a b h = Some (b, h)" "chain_from h b bs"
    using chain_from_mem [of h b bs b] skip_plain [of h a b bs] by (auto simp: Next_def)
  then show ?case using Cons(1) [of b False]
    by (simp add: search_loop.simps [of k a] before_def from_on_def)
qed

lemma SearchFrom_spec:
  assumes "chain_from h a as" "a \<notin> set as" "a \<noteq> 1 \<Longrightarrow> as \<noteq> []" "1 \<notin> set as"
  shows "SearchFrom k a h = Some
    (if from_on h k as = [] then (plain (last (a # as)), 0)
     else if before h k as = [] \<and> a = 1 then (plain 1, hd (from_on h k as))
     else (MarkNode (hd (from_on h k as)) True False, hd (tl (from_on h k as) @ [0])), h)"
proof -
  obtain us r where ur: "before h k as = us" "from_on h k as = r" "as = us @ r"
    using before_from [of h k as] by metis
  have l: "search_loop k a True h = Some ((last (a # us), hd (r @ [0]),
      if r \<noteq> [] then True else if as = [] then True else False), h)"
    using search_loop_spec [OF assms(1), of k True] ur by simp
  show ?thesis
  proof (cases r)
    case Nil
    then show ?thesis using l ur assms(3) by (auto simp: SearchFrom_def plain_def)
  next
    case (Cons b bs)
    have "chain_from h (last (a # us)) (b # bs)"
      using chain_from_append [of h a us "b # bs"] assms(1) ur Cons by simp
    then have n: "Next h b = hd (bs @ [0])" "b \<noteq> 0" by (cases bs; simp add: Next_def)+
    have "last (a # us) = 1 \<longleftrightarrow> us = [] \<and> a = 1"
    proof (cases "us = []")
      case False
      then have "last us \<in> set as" using ur(3) by auto
      then show ?thesis using False assms(4) by auto
    qed simp
    then show ?thesis using l ur Cons n by (auto simp: SearchFrom_def plain_def)
  qed
qed

text \<open>The list of the values \<open>vs\<close> at the nodes \<open>as\<close>.\<close>

definition list_at :: "'a lf_list \<Rightarrow> nat list \<Rightarrow> 'a list \<Rightarrow> bool" where
  "list_at h as vs \<longleftrightarrow> chain_from h 1 as \<and> distinct (0 # 1 # as) \<and> map (val_at h) as = map Some vs \<and>
     2 \<le> fresh h \<and> (\<forall>a \<in> set as. a < fresh h)"

lemma from_on_absent: "map (val_at h) as = map Some vs \<Longrightarrow> from_on h k as = [] \<longleftrightarrow> k \<notin> set vs"
proof (induction as arbitrary: vs)
  case (Cons a as)
  then show ?case by (cases vs) (auto simp: from_on_def)
qed (simp add: from_on_def)

lemma before_first:
  "map (val_at h) as = map Some vs \<Longrightarrow> k \<in> set vs \<Longrightarrow> before h k as = [] \<longleftrightarrow> hd vs = k"
  by (cases as; cases vs) (auto simp: before_def)

lemma from_on_hd:
  "from_on h k as \<noteq> [] \<Longrightarrow> hd (from_on h k as) \<in> set as \<and> val_at h (hd (from_on h k as)) = Some k"
  using hd_dropWhile [of "\<lambda>a. val_at h a \<noteq> Some k" as] before_from [of h k as]
  unfolding from_on_def by (metis Un_iff hd_in_set set_append)

lemma list_search:
  assumes "list_at h as vs"
  shows "k \<notin> set vs \<Longrightarrow> SearchFrom k 1 h = Some ((plain (last (1 # as)), 0), h)"
    and "k \<in> set vs \<Longrightarrow> hd vs = k \<Longrightarrow> SearchFrom k 1 h = Some ((plain 1, hd as), h)"
    and "k \<in> set vs \<Longrightarrow> hd vs \<noteq> k \<Longrightarrow>
      \<exists>a n. SearchFrom k 1 h = Some ((MarkNode a True False, n), h) \<and> a \<in> set as \<and> val_at h a = Some k"
proof -
  have v: "map (val_at h) as = map Some vs" using assms by (simp add: list_at_def)
  have s: "SearchFrom k 1 h = Some
    (if from_on h k as = [] then (plain (last (1 # as)), 0)
     else if before h k as = [] then (plain 1, hd (from_on h k as))
     else (MarkNode (hd (from_on h k as)) True False, hd (tl (from_on h k as) @ [0])), h)"
    using SearchFrom_spec [of h 1 as k] assms by (simp add: list_at_def)
  note f = from_on_absent [OF v, of k] before_first [OF v, of k]
  show "k \<notin> set vs \<Longrightarrow> SearchFrom k 1 h = Some ((plain (last (1 # as)), 0), h)" using s f by simp
  show "SearchFrom k 1 h = Some ((plain 1, hd as), h)" if "k \<in> set vs" "hd vs = k"
  proof -
    have "before h k as = []" using f(2) that by simp
    then have "from_on h k as = as" using before_from [of h k as] by simp
    then show ?thesis using s f that by simp
  qed
  show "\<exists>a n. SearchFrom k 1 h = Some ((MarkNode a True False, n), h) \<and> a \<in> set as \<and> val_at h a = Some k"
    if "k \<in> set vs" "hd vs \<noteq> k"
    using s f from_on_hd [of h k as] that by auto
qed

section \<open>Inserting\<close>

lemma insert_loop_now:
  assumes "next_at h p = plain n" "a \<noteq> p"
  shows "insert_loop k a p n h = Some ((a, True), store_next p (plain a) (store_next a (plain n) h))"
  using assms
  by (simp add: insert_loop.simps [of k a] try_insert_def cas_next_def Let_def plain_def [symmetric])
    (simp add: store_next_def)

text \<open>The new node goes between \<open>xs\<close> and \<open>ys\<close>.\<close>

lemma insert_between:
  assumes "list_at h (xs @ ys) vs" "length xs = length us" "vs = us @ ws"
  shows "\<exists>h'. (let (a, h2) = alloc_node k h in insert_loop k a (last (1 # xs)) (hd (ys @ [0])) h2) =
      Some ((fresh h, True), h') \<and> list_at h' (xs @ fresh h # ys) (us @ k # ws) \<and> fresh h' = fresh h + 1"
proof -
  let ?f = "fresh h"
  let ?h = "snd (alloc_node k h)"
  have f: "?f \<notin> set (0 # 1 # xs @ ys)" using assms(1) by (auto simp: list_at_def)
  have "chain_from ?h 1 (xs @ ys)" using assms(1) f chain_store [of ?f 1 "xs @ ys" _ h]
    unfolding chain_from_def by (auto simp: list_at_def alloc_node_def store_next_def chain_from_def)
  then have c: "chain_from ?h 1 (xs @ ys)" "chain_from ?h (last (1 # xs)) ys"
    using chain_from_append by blast+
  then have n: "next_at ?h (last (1 # xs)) = plain (hd (ys @ [0]))" by (cases ys) auto
  have "last (1 # xs) \<in> set (1 # xs)" by (rule last_in_set) simp
  then have ne: "?f \<noteq> last (1 # xs)" using f by auto
  let ?h' = "store_next (last (1 # xs)) (plain ?f) (store_next ?f (plain (hd (ys @ [0]))) ?h)"
  have "chain_from ?h' 1 (xs @ ?f # ys)"
    by (rule chain_new) (use c f assms(1) in \<open>auto simp: list_at_def\<close>)
  moreover have "map (val_at ?h') (xs @ ?f # ys) = map Some (us @ k # ws)"
  proof -
    have "map (val_at h) xs = map Some us" "map (val_at h) ys = map Some ws"
      using assms by (auto simp: list_at_def map_eq_append_conv append_eq_append_conv)
    moreover have "val_at ?h' = (val_at h)(?f \<mapsto> k)" by (simp add: store_next_def alloc_node_def)
    ultimately show ?thesis using f by (simp del: last.simps)
  qed
  moreover have "fresh ?h' = ?f + 1" by (simp add: store_next_def alloc_node_def)
  ultimately have "list_at ?h' (xs @ ?f # ys) (us @ k # ws)"
    using assms(1) f by (auto simp: list_at_def intro: less_SucI simp del: last.simps)
  moreover have "(let (a, h2) = alloc_node k h in insert_loop k a (last (1 # xs)) (hd (ys @ [0])) h2) =
      Some ((?f, True), ?h')"
    using insert_loop_now [of ?h "last (1 # xs)" _ ?f k] n ne by (simp add: alloc_node_def)
  ultimately show ?thesis by (simp add: store_next_def alloc_node_def)
qed

section \<open>A lost race\<close>

text \<open>What the loop of \<open>Insert\<close> sees when another node has come between its two nodes.\<close>

definition stuck :: "'a \<Rightarrow> nat \<Rightarrow> nat \<Rightarrow> nat \<Rightarrow> 'a lf_list \<Rightarrow> bool" where
  "stuck k a p n h \<longleftrightarrow> (\<exists>ys. chain_from h p ys \<and> ys \<noteq> [] \<and> hd ys \<noteq> n \<and> distinct (p # ys) \<and> 1 \<notin> set ys \<and>
     a \<notin> set (p # ys) \<and> (\<forall>y \<in> set ys. val_at h y \<noteq> Some k))"

lemma from_on_Nil: "\<forall>y \<in> set ys. val_at h y \<noteq> Some k \<Longrightarrow> from_on h k ys = []"
  by (simp add: from_on_def)

lemma stuck_round:
  assumes "stuck k a p n h"
  shows "\<exists>h1 q. try_insert a p n h = Some (Some p, h1) \<and> SearchFrom k p h1 = Some ((plain q, 0), h1) \<and>
    stuck k a p n h1"
proof -
  obtain ys where y: "chain_from h p ys" "ys \<noteq> []" "hd ys \<noteq> n" "distinct (p # ys)" "1 \<notin> set ys"
      "a \<notin> set (p # ys)" "\<forall>y \<in> set ys. val_at h y \<noteq> Some k"
    using assms by (auto simp: stuck_def)
  let ?h = "store_next a (plain n) h"
  have c: "chain_from ?h p ys" using y(1,6) by (simp add: chain_store)
  have p: "next_at h p = plain (hd ys)" "next_at ?h p = plain (hd ys)" "p \<noteq> 0"
    using y(1,2) c by (cases ys; auto)+
  have "try_insert a p n h = Some (Some p, ?h)"
    using p y(3) by (simp add: try_insert_def cas_next_def Let_def plain_def [symmetric] walk_back.simps
        IsMarked_def)
  moreover have v: "\<forall>y \<in> set ys. val_at ?h y \<noteq> Some k" using y(7) by (simp add: store_next_def)
  moreover have "SearchFrom k p ?h = Some ((plain (last (p # ys)), 0), ?h)"
    using SearchFrom_spec [OF c, of k] y(2,4,5) from_on_Nil [OF v] by simp
  moreover have "stuck k a p n ?h" using c v y(2-6) by (auto simp: stuck_def)
  ultimately show ?thesis by blast
qed

lemma insert_loop_Some: "insert_loop k a p n h = Some r \<Longrightarrow> \<not> stuck k a p n h"
proof (erule insert_loop.raw_induct [where P = "\<lambda>k a p n h r. \<not> stuck k a p n h", rotated])
  fix f :: "'a \<Rightarrow> nat \<Rightarrow> nat \<Rightarrow> nat \<Rightarrow> 'a lf_list \<Rightarrow> ((nat \<times> bool) \<times> 'a lf_list) option"
  fix k a p n h r
  assume hyp: "\<And>k a p n h r. f k a p n h = Some r \<Longrightarrow> \<not> stuck k a p n h"
    and body: "(do {
     (again, h1) \<leftarrow> try_insert a p n h;
     (case again of
        None \<Rightarrow> Some ((a, True), h1)
      | Some p \<Rightarrow> do {
          (ret, h2) \<leftarrow> SearchFrom k p h1;
          if mark (fst ret) then Some ((ptr (fst ret), False), h2)
          else f k a p n h2 }) }) = Some r"
  show "\<not> stuck k a p n h"
  proof
    assume st: "stuck k a p n h"
    obtain h1 q where "try_insert a p n h = Some (Some p, h1)"
        "SearchFrom k p h1 = Some ((plain q, 0), h1)" "stuck k a p n h1"
      using stuck_round [OF st] by blast
    then show False using body hyp [of k a p n h1 r] by simp
  qed
qed

lemma new_list_at: "list_at new_list [] []"
  by (simp add: list_at_def new_list_def plain_def)

section \<open>Properties\<close>

text \<open>One call at a time, \<open>Search\<close> and \<open>Insert\<close> return and keep the list; a value that is absent is
  appended, one that is present is found and not inserted again, unless it is the first of the
  list: the first value is never found, and inserting it again puts a duplicate in front.\<close>

theorem lf_list_sequential:
  assumes "list_at h as vs"
  shows "(\<exists>a. Search k h = Some (a, h) \<and>
      (if k \<in> set vs \<and> hd vs \<noteq> k then a \<in> set as \<and> val_at h a = Some k else a = 0)) \<and>
    (\<exists>a b h'. Insert k h = Some ((a, b), h') \<and>
      (if k \<notin> set vs then b \<and> a = fresh h \<and> list_at h' (as @ [a]) (vs @ [k])
       else if hd vs = k then b \<and> a = fresh h \<and> list_at h' (a # as) (k # vs)
       else \<not> b \<and> a \<in> set as \<and> val_at h a = Some k \<and> h' = h))"
proof (cases "k \<in> set vs")
  case False
  have "length as = length vs" using assms by (metis list_at_def length_map)
  then show ?thesis using list_search(1) [OF assms False] False insert_between [of h as "[]" vs vs "[]" k] assms
    by (auto simp: Search_def Insert_def)
next
  case True
  show ?thesis
  proof (cases "hd vs = k")
    case True': True
    have "as \<noteq> []" using True assms by (auto simp: list_at_def)
    then show ?thesis using list_search(2) [OF assms True True'] True True' insert_between [of h "[]" as vs "[]" vs k] assms
      by (auto simp: Search_def Insert_def)
  next
    case False
    then show ?thesis using list_search(3) [OF assms True False] True
      by (auto simp: Search_def Insert_def MarkNode_def)
  qed
qed

lemma lf_list_sequential_witness:
  "\<exists>h h'. Insert (7 :: nat) new_list = Some ((2, True), h) \<and> Search 7 h = Some (0, h) \<and>
    Insert 7 h = Some ((3, True), h') \<and> list_at h' [3, 2] [7, 7]"
proof -
  obtain h where h: "Insert (7 :: nat) new_list = Some ((2, True), h)" "list_at h [2] [7]"
    using lf_list_sequential [OF new_list_at, of 7] by (auto simp: new_list_def)
  then have "fresh h = 3"
    by (auto simp: Insert_def new_list_def SearchFrom_def search_loop.simps Next_def MarkNode_def alloc_node_def
        insert_loop.simps [of 7] try_insert_def cas_next_def store_next_def Let_def)
  then show ?thesis using h lf_list_sequential [OF h(2), of 7] by auto
qed

text \<open>C35: two threads that append different values at the same time: when another \<open>Insert\<close> is complete
  between the search and the compare-and-swap of this one, this one never returns and never
  inserts its value, because its loop keeps the successor of the first search.\<close>

theorem lost_insert_spins:
  assumes "list_at h as vs" "k \<notin> set vs" "k' \<notin> set vs" "k \<noteq> k'"
  shows "\<exists>ret a h'. SearchFrom k 1 h = Some (ret, h) \<and> Insert k' h = Some ((a, True), h') \<and>
    list_at h' (as @ [a]) (vs @ [k']) \<and>
    (let (b, h2) = alloc_node k h' in insert_loop k b (ptr (fst ret)) (snd ret) h2) = None"
proof -
  obtain a h' where i: "Insert k' h = Some ((a, True), h')" "list_at h' (as @ [a]) (vs @ [k'])"
    using lf_list_sequential [OF assms(1), of k'] assms(3) by auto
  let ?p = "last (1 # as)" and ?b = "fresh h'" and ?h2 = "snd (alloc_node k h')"
  have b: "?b \<notin> set (0 # 1 # as @ [a])" using i(2) by (auto simp: list_at_def)
  have "chain_from ?h2 1 (as @ [a])"
    using i(2) b by (auto simp: list_at_def alloc_node_def chain_from_def)
  then have "chain_from ?h2 ?p [a]" by (rule chain_from_append)
  moreover have "val_at ?h2 a \<noteq> Some k"
    using i(2) assms(4) b by (auto simp: list_at_def alloc_node_def)
  moreover have "?p \<in> set (1 # as)" by (rule last_in_set) simp
  ultimately have "stuck k ?b ?p 0 ?h2"
    using i(2) b unfolding stuck_def by (intro exI [of _ "[a]"]) (auto simp: list_at_def simp del: last.simps)
  then have "insert_loop k ?b ?p 0 ?h2 = None"
    using insert_loop_Some by (metis not_None_eq)
  then show ?thesis using i list_search(1) [OF assms(1,2)] by (auto simp: alloc_node_def simp del: last.simps)
qed

lemma lost_insert_spins_witness:
  "\<exists>ret h'. SearchFrom ''a'' 1 new_list = Some (ret, new_list) \<and> Insert ''b'' new_list = Some ((2, True), h') \<and>
    (let (b, h2) = alloc_node ''a'' h' in insert_loop ''a'' b (ptr (fst ret)) (snd ret) h2) = None"
proof -
  have "\<exists>h'. Insert ''b'' new_list = Some ((2, True), h')"
    using lf_list_sequential [OF new_list_at, of "''b''"] by (auto simp: new_list_def)
  then show ?thesis using lost_insert_spins [OF new_list_at, of "''a''" "''b''"] by auto
qed

end
