(* ===== verification/Parallel_Algos.thy ===== *)
theory Parallel_Algos
  imports Main "HOL-Library.Multiset" "HOL-Library.Monad_Syntax" "HOL-Library.Word"
begin

text \<open>
  The parallel algorithms of \<open>c++/CCiA_SourceCode\<close> whose threads share no data but through futures:
  \<open>parallel_accumulate\<close> (listings 2.8, 8.3, 8.5), \<open>parallel_partial_sum\<close> (8.11) and the two list
  quicksorts (4.12, 4.13).  A range is the list of its elements.  The parameter \<open>hw\<close> is
  \<open>std::thread::hardware_concurrency()\<close>; lengths are unbounded, which is exact below
  \<open>2 ^ 64 - 24\<close> elements.  A future gives the value of its thread whenever that runs; where threads
  write to cells of one array, the order in which they run is a parameter.
\<close>

section \<open>Definitions\<close>

definition max_threads :: "nat \<Rightarrow> nat" where
  "max_threads len = (len + 25 - 1) div 25"

definition num_threads :: "nat \<Rightarrow> nat \<Rightarrow> nat" where
  "num_threads hw len = min (if hw \<noteq> 0 then hw else 2) (max_threads len)"

definition block_size :: "nat \<Rightarrow> nat \<Rightarrow> nat" where
  "block_size hw len = len div num_threads hw len"

text \<open>\<open>k\<close> blocks of one size, and the rest.\<close>

fun blocks :: "nat \<Rightarrow> nat \<Rightarrow> 'a list \<Rightarrow> 'a list list" where
  "blocks 0 n xs = [xs]"
| "blocks (Suc k) n xs = take n xs # blocks k n (drop n xs)"

definition split_blocks :: "nat \<Rightarrow> 'a list \<Rightarrow> 'a list list" where
  "split_blocks hw xs = blocks (num_threads hw (length xs) - 1) (block_size hw (length xs)) xs"

subsection \<open>Accumulation\<close>

definition accumulate_block :: "('a \<Rightarrow> 'a \<Rightarrow> 'a) \<Rightarrow> 'a list \<Rightarrow> 'a \<Rightarrow> 'a" where
  "accumulate_block add xs result = foldl add result xs"

text \<open>Listing 2.8: every thread writes its cell of \<open>results\<close>.\<close>

definition parallel_accumulate ::
    "('a \<Rightarrow> 'a \<Rightarrow> 'a) \<Rightarrow> 'a \<Rightarrow> nat \<Rightarrow> nat list \<Rightarrow> 'a list \<Rightarrow> 'a \<Rightarrow> 'a" where
  "parallel_accumulate add zero hw order xs init =
     (if xs = [] then init else
      (let bs = split_blocks hw xs;
           results = replicate (num_threads hw (length xs)) zero;
           results' = fold (\<lambda>i rs. rs[i := accumulate_block add (bs ! i) (rs ! i)]) order results
       in foldl add init results'))"

text \<open>Listing 8.3: the results come from futures, the last one from the calling thread.\<close>

definition accumulate_futures :: "('a \<Rightarrow> 'a \<Rightarrow> 'a) \<Rightarrow> 'a \<Rightarrow> nat \<Rightarrow> 'a list \<Rightarrow> 'a \<Rightarrow> 'a" where
  "accumulate_futures add zero hw xs init =
     (if xs = [] then init else
      (let bs = split_blocks hw xs;
           futures = map (\<lambda>b. accumulate_block add b zero) (butlast bs);
           last_result = accumulate_block add (last bs) zero;
           result = foldl add init futures
       in add result last_result))"

text \<open>Listing 8.5: halves, the first one in an asynchronous call.\<close>

function accumulate_async :: "('a \<Rightarrow> 'a \<Rightarrow> 'a) \<Rightarrow> 'a \<Rightarrow> 'a list \<Rightarrow> 'a \<Rightarrow> 'a" where
  "accumulate_async add zero xs init =
     (if length xs \<le> 25 then foldl add init xs
      else (let mid = length xs div 2;
                first_half_result = accumulate_async add zero (take mid xs) init;
                second_half_result = accumulate_async add zero (drop mid xs) zero
            in add first_half_result second_half_result))"
  by pat_completeness auto
termination by (relation "measure (\<lambda>(add, zero, xs, init). length xs)") auto

declare accumulate_async.simps [simp del]

subsection \<open>Partial sums\<close>

fun scan :: "('a \<Rightarrow> 'a \<Rightarrow> 'a) \<Rightarrow> 'a \<Rightarrow> 'a list \<Rightarrow> 'a list" where
  "scan add a [] = []"
| "scan add a (x # xs) = add a x # scan add (add a x) xs"

fun partial_sum :: "('a \<Rightarrow> 'a \<Rightarrow> 'a) \<Rightarrow> 'a list \<Rightarrow> 'a list" where
  "partial_sum add [] = []"
| "partial_sum add (x # xs) = x # scan add x xs"

text \<open>A chunk is not empty: its last element is read.  The end value goes to the next chunk.\<close>

definition process_chunk :: "('a \<Rightarrow> 'a \<Rightarrow> 'a) \<Rightarrow> 'a option \<Rightarrow> 'a list \<Rightarrow> ('a list \<times> 'a) option" where
  "process_chunk add previous_end_value xs =
     (if xs = [] then None else
      (let ps = partial_sum add xs in
       case previous_end_value of
         None \<Rightarrow> Some (ps, last ps)
       | Some addend \<Rightarrow>
           (let l = add (last ps) addend in
            Some (map (\<lambda>item. add item addend) (butlast ps) @ [l], l))))"

fun process_chunks :: "('a \<Rightarrow> 'a \<Rightarrow> 'a) \<Rightarrow> 'a option \<Rightarrow> 'a list list \<Rightarrow> 'a list option" where
  "process_chunks add previous_end_value [] = Some []"
| "process_chunks add previous_end_value (b # bs) = do {
     (r, end_value) \<leftarrow> process_chunk add previous_end_value b;
     rs \<leftarrow> process_chunks add (Some end_value) bs;
     Some (r @ rs) }"

definition parallel_partial_sum :: "('a \<Rightarrow> 'a \<Rightarrow> 'a) \<Rightarrow> nat \<Rightarrow> 'a list \<Rightarrow> 'a list option" where
  "parallel_partial_sum add hw xs =
     (if xs = [] then Some [] else process_chunks add None (split_blocks hw xs))"

subsection \<open>Quicksort of lists\<close>

text \<open>
  \<open>std::partition\<close> promises that the elements with the property come first, but no order among
  them: it is the parameter \<open>part\<close>, which gives the two parts.
\<close>

partial_function (option) sequential_quick_sort ::
    "(('a \<Rightarrow> bool) \<Rightarrow> 'a list \<Rightarrow> 'a list \<times> 'a list) \<Rightarrow> ('a \<Rightarrow> 'a \<Rightarrow> bool) \<Rightarrow> 'a list \<Rightarrow> 'a list option" where
  [code]: "sequential_quick_sort part lt xs =
     (case xs of [] \<Rightarrow> Some []
      | pivot # rest \<Rightarrow>
         (let (lower_part, higher) = part (\<lambda>t. lt t pivot) rest in do {
            new_lower \<leftarrow> sequential_quick_sort part lt lower_part;
            new_higher \<leftarrow> sequential_quick_sort part lt higher;
            Some (new_lower @ pivot # new_higher) }))"

text \<open>Listing 4.13: the lower part is sorted by an asynchronous call, whose future is read last.\<close>

partial_function (option) parallel_quick_sort ::
    "(('a \<Rightarrow> bool) \<Rightarrow> 'a list \<Rightarrow> 'a list \<times> 'a list) \<Rightarrow> ('a \<Rightarrow> 'a \<Rightarrow> bool) \<Rightarrow> 'a list \<Rightarrow> 'a list option" where
  [code]: "parallel_quick_sort part lt xs =
     (case xs of [] \<Rightarrow> Some []
      | pivot # rest \<Rightarrow>
         (let (lower_part, higher) = part (\<lambda>t. lt t pivot) rest in do {
            new_higher \<leftarrow> parallel_quick_sort part lt higher;
            new_lower \<leftarrow> parallel_quick_sort part lt lower_part;
            Some (new_lower @ pivot # new_higher) }))"

section \<open>Blocks\<close>

lemma concat_blocks: "concat (blocks k n xs) = xs"
  by (induction k arbitrary: xs) auto

lemma length_blocks: "length (blocks k n xs) = Suc k"
  by (induction k arbitrary: xs) auto

lemma num_threads_pos: "0 < len \<Longrightarrow> 0 < num_threads hw len"
  by (simp add: num_threads_def max_threads_def div_greater_zero_iff)

lemma split_blocks_simps:
  "concat (split_blocks hw xs) = xs"
  "xs \<noteq> [] \<Longrightarrow> length (split_blocks hw xs) = num_threads hw (length xs)"
  using num_threads_pos [of "length xs" hw]
  by (simp_all add: split_blocks_def concat_blocks length_blocks)

lemma blocks_nonempty: "0 < n \<Longrightarrow> Suc k * n \<le> length xs \<Longrightarrow> [] \<notin> set (blocks k n xs)"
  by (induction k arbitrary: xs) auto

lemma split_blocks_nonempty:
  assumes "xs \<noteq> []"
  shows "[] \<notin> set (split_blocks hw xs)"
proof -
  let ?n = "num_threads hw (length xs)"
  have n: "0 < ?n" "?n \<le> length xs"
    using num_threads_pos [of "length xs" hw] assms by (auto simp: num_threads_def max_threads_def min_def)
  then have "0 < block_size hw (length xs)" by (simp add: block_size_def div_greater_zero_iff)
  moreover have "?n * block_size hw (length xs) \<le> length xs" by (simp add: block_size_def)
  ultimately show ?thesis using blocks_nonempty [of _ "?n - 1" xs] n(1) by (simp add: split_blocks_def)
qed

section \<open>Sums\<close>

text \<open>The laws of the addition: a monoid, and a commutative semigroup.\<close>

definition monoid_op :: "('a \<Rightarrow> 'a \<Rightarrow> 'a) \<Rightarrow> 'a \<Rightarrow> bool" where
  "monoid_op add zero \<longleftrightarrow> (\<forall>x y z. add (add x y) z = add x (add y z)) \<and> (\<forall>x. add zero x = x \<and> add x zero = x)"

definition comm_op :: "('a \<Rightarrow> 'a \<Rightarrow> 'a) \<Rightarrow> bool" where
  "comm_op add \<longleftrightarrow> (\<forall>x y z. add (add x y) z = add x (add y z)) \<and> (\<forall>x y. add x y = add y x)"

lemma monoid_op_laws:
  "monoid_op add zero \<Longrightarrow> add (add x y) z = add x (add y z)" "monoid_op add zero \<Longrightarrow> add zero x = x"
  "monoid_op add zero \<Longrightarrow> add x zero = x"
  by (simp_all add: monoid_op_def)

lemma foldl_from: "monoid_op add zero \<Longrightarrow> foldl add a xs = add a (foldl add zero xs)"
proof (induction xs arbitrary: a)
  case (Cons x xs)
  note m = monoid_op_laws [OF Cons(2)]
  have "foldl add a (x # xs) = add (add a x) (foldl add zero xs)"
    using Cons(1) [OF Cons(2), of "add a x"] by (simp only: foldl_Cons)
  also have "\<dots> = add a (add x (foldl add zero xs))" by (rule m(1))
  also have "add x (foldl add zero xs) = foldl add zero (x # xs)"
    using Cons(1) [OF Cons(2), of x] by (simp only: foldl_Cons m(2))
  finally show ?case .
qed (simp add: monoid_op_def)

lemma foldl_concat:
  "monoid_op add zero \<Longrightarrow> foldl add init (map (foldl add zero) bs) = foldl add init (concat bs)"
proof (induction bs arbitrary: init)
  case (Cons b bs)
  then show ?case using foldl_from [of add zero init b] by (simp only: list.map foldl_Cons concat.simps foldl_append)
qed simp

lemma fold_cells:
  assumes "distinct order" "\<forall>i \<in> set order. i < length rs"
  shows "fold (\<lambda>i rs. rs[i := g i (rs ! i)]) order rs =
    map (\<lambda>i. if i \<in> set order then g i (rs ! i) else rs ! i) [0..<length rs]"
  using assms
proof (induction order arbitrary: rs)
  case Nil
  then show ?case by (simp add: map_nth)
next
  case (Cons j order)
  then show ?case by (auto intro!: nth_equalityI simp: nth_list_update)
qed

lemma parallel_accumulate_sum:
  assumes m: "monoid_op add zero" and o: "mset order = mset [0..<num_threads hw (length xs)]"
  shows "parallel_accumulate add zero hw order xs init = foldl add init xs"
proof (cases "xs = []")
  case False
  let ?n = "num_threads hw (length xs)" and ?bs = "split_blocks hw xs"
  have set: "set order = {..<?n}" using mset_eq_setD [OF o] by auto
  have d: "distinct order" using mset_eq_imp_distinct_iff [OF o] by simp
  have "fold (\<lambda>i rs. rs[i := accumulate_block add (?bs ! i) (rs ! i)]) order (replicate ?n zero) =
      map (\<lambda>i. foldl add zero (?bs ! i)) [0..<?n]"
    by (subst fold_cells [OF d]) (auto simp: set accumulate_block_def)
  also have "\<dots> = map (foldl add zero) ?bs"
    using split_blocks_simps(2) [OF False, of hw] by (auto intro!: nth_equalityI)
  finally show ?thesis using False foldl_concat [OF m, of init ?bs] split_blocks_simps(1) [of hw xs]
    by (simp add: parallel_accumulate_def Let_def)
qed (simp add: parallel_accumulate_def)

lemma accumulate_futures_sum:
  assumes m: "monoid_op add zero"
  shows "accumulate_futures add zero hw xs init = foldl add init xs"
proof (cases "xs = []")
  case False
  let ?bs = "split_blocks hw xs"
  have "?bs \<noteq> []" using split_blocks_simps(1) [of hw xs] False by auto
  then have "foldl add init (map (foldl add zero) (butlast ?bs @ [last ?bs])) = foldl add init xs"
    using foldl_concat [OF m] split_blocks_simps(1) [of hw xs] by simp
  then show ?thesis using False by (simp add: accumulate_futures_def accumulate_block_def Let_def)
qed (simp add: accumulate_futures_def)

lemma accumulate_async_sum:
  "monoid_op add zero \<Longrightarrow> accumulate_async add zero xs init = foldl add init xs"
proof (induction add zero xs init rule: accumulate_async.induct)
  case (1 add zero xs init)
  let ?m = "length xs div 2"
  show ?case
  proof (cases "length xs \<le> 25")
    case False
    have "foldl add init xs = foldl add (foldl add init (take ?m xs)) (drop ?m xs)"
      by (metis append_take_drop_id foldl_append)
    also have "\<dots> = add (foldl add init (take ?m xs)) (foldl add zero (drop ?m xs))" by (rule foldl_from [OF 1(3)])
    finally show ?thesis using 1 False by (simp add: accumulate_async.simps [of add zero xs] Let_def)
  qed (simp add: accumulate_async.simps [of add zero xs])
qed

section \<open>Partial sums\<close>

lemma scan_append: "scan add a (xs @ ys) = scan add a xs @ scan add (foldl add a xs) ys"
  by (induction xs arbitrary: a) auto

lemma scan_Nil_iff [simp]: "scan add a xs = [] \<longleftrightarrow> xs = []"
  by (cases xs) auto

lemma last_scan: "xs \<noteq> [] \<Longrightarrow> last (scan add a xs) = foldl add a xs"
  by (induction xs arbitrary: a) auto

lemma comm_op_laws:
  "comm_op add \<Longrightarrow> add (add x y) z = add x (add y z)" "comm_op add \<Longrightarrow> add x y = add y x"
  unfolding comm_op_def by blast+

lemma scan_shift: "comm_op add \<Longrightarrow> map (\<lambda>item. add item e) (scan add a xs) = scan add (add e a) xs"
proof (induction xs arbitrary: a)
  case (Cons x xs)
  have "add (add a x) e = add (add e a) x" "add e (add a x) = add (add e a) x"
    using comm_op_laws [OF Cons(2)] by metis+
  then show ?case using Cons by simp
qed simp

lemma process_chunk_Some:
  assumes "comm_op add" "b \<noteq> []"
  shows "process_chunk add (Some e) b = Some (scan add e b, foldl add e b)"
proof -
  obtain x xs where b: "b = x # xs" using assms(2) by (cases b) auto
  have m: "map (\<lambda>item. add item e) (partial_sum add b) = scan add e b"
    using scan_shift [OF assms(1), of e x xs] comm_op_laws(2) [OF assms(1), of x e] by (simp add: b)
  define ps where "ps = partial_sum add b"
  have ne: "ps \<noteq> []" by (simp add: b ps_def)
  have l: "add (last ps) e = foldl add e b"
    using last_scan [OF assms(2), of add e] last_map [OF ne, of "\<lambda>item. add item e"]
    unfolding m [symmetric] ps_def by simp
  have "map (\<lambda>item. add item e) (butlast ps @ [last ps]) = scan add e b"
    unfolding append_butlast_last_id [OF ne] using m by (simp add: ps_def)
  then have "map (\<lambda>item. add item e) (butlast ps) @ [foldl add e b] = scan add e b" using l by simp
  then show ?thesis using assms(2) l unfolding process_chunk_def ps_def [symmetric] Let_def by simp
qed

lemma process_chunks_Some:
  "comm_op add \<Longrightarrow> [] \<notin> set bs \<Longrightarrow> process_chunks add (Some e) bs = Some (scan add e (concat bs))"
proof (induction bs arbitrary: e)
  case (Cons b bs)
  then have "b \<noteq> []" by auto
  then show ?case using Cons process_chunk_Some [OF Cons(2), of b e] by (simp add: scan_append)
qed simp

lemma parallel_partial_sum_spec:
  assumes "comm_op add"
  shows "parallel_partial_sum add hw xs = Some (partial_sum add xs)"
proof (cases xs)
  case (Cons y ys)
  then obtain b bs where bs: "split_blocks hw xs = b # bs"
    using split_blocks_simps(1) [of hw xs] by (cases "split_blocks hw xs") auto
  have ne: "[] \<notin> set (b # bs)" using split_blocks_nonempty [of xs hw] Cons bs by simp
  then obtain x b' where b: "b = x # b'" by (cases b) auto
  have "xs = x # b' @ concat bs" using split_blocks_simps(1) [of hw xs] bs b by simp
  moreover have "last (x # scan add x b') = foldl add x b'"
    using last_scan [of b' add x] by (cases b') auto
  ultimately show ?thesis
    using process_chunks_Some [OF assms, of bs "foldl add x b'"] ne bs b
    by (simp add: parallel_partial_sum_def process_chunk_def scan_append)
qed (simp add: parallel_partial_sum_def)

section \<open>Quicksort\<close>

definition partitions :: "(('a \<Rightarrow> bool) \<Rightarrow> 'a list \<Rightarrow> 'a list \<times> 'a list) \<Rightarrow> bool" where
  "partitions part \<longleftrightarrow> (\<forall>P xs. mset (fst (part P xs)) + mset (snd (part P xs)) = mset xs \<and>
     (\<forall>x \<in> set (fst (part P xs)). P x) \<and> (\<forall>x \<in> set (snd (part P xs)). \<not> P x))"

lemma partitions_dest:
  assumes "partitions part" "part P xs = (l, h)"
  shows "mset l + mset h = mset xs" "\<forall>x \<in> set l. P x" "\<forall>x \<in> set h. \<not> P x"
    "length l \<le> length xs" "length h \<le> length xs"
proof -
  show m: "mset l + mset h = mset xs" and "\<forall>x \<in> set l. P x" "\<forall>x \<in> set h. \<not> P x"
    using assms unfolding partitions_def by (metis fst_conv snd_conv)+
  have "length l + length h = length xs" using arg_cong [OF m, of size] by simp
  then show "length l \<le> length xs" "length h \<le> length xs" by simp_all
qed

lemma sort_pivot:
  fixes x :: "'a :: linorder"
  assumes "mset l + mset h = mset xs" "\<forall>y \<in> set l. y < x" "\<forall>y \<in> set h. \<not> y < x"
  shows "sort l @ x # sort h = sort (x # xs)"
proof (rule properties_for_sort [symmetric])
  show "mset (sort l @ x # sort h) = mset (x # xs)" using assms(1) by simp
  show "sorted (sort l @ x # sort h)"
    using assms(2,3) by (fastforce simp: sorted_append not_less)
qed

lemma quick_sort_step:
  fixes xs :: "'a :: linorder list"
  assumes p: "partitions part" and xs: "part (\<lambda>t. t < x) xs = (l, h)"
    and l: "sorter l = Some (sort l)" and h: "sorter h = Some (sort h)"
  shows "do { a \<leftarrow> sorter l; b \<leftarrow> sorter h; Some (a @ x # b) } = Some (sort (x # xs))"
    and "do { b \<leftarrow> sorter h; a \<leftarrow> sorter l; Some (a @ x # b) } = Some (sort (x # xs))"
  using sort_pivot [of l h xs x] partitions_dest [OF p xs] l h by simp_all

lemma quick_sorts:
  fixes xs :: "'a :: linorder list"
  assumes p: "partitions part"
  shows "sequential_quick_sort part (<) xs = Some (sort xs) \<and> parallel_quick_sort part (<) xs = Some (sort xs)"
proof (induction xs rule: length_induct)
  case (1 xs)
  show ?case
  proof (cases xs)
    case (Cons x rest)
    obtain l h where lh: "part (\<lambda>t. t < x) rest = (l, h)" by (cases "part (\<lambda>t. t < x) rest")
    have len: "length l < length xs" "length h < length xs"
      using partitions_dest(4,5) [OF p lh] Cons by simp_all
    note ih = 1 [rule_format, OF len(1), THEN conjunct1] 1 [rule_format, OF len(2), THEN conjunct1]
      1 [rule_format, OF len(1), THEN conjunct2] 1 [rule_format, OF len(2), THEN conjunct2]
    have "sequential_quick_sort part (<) xs = Some (sort (x # rest))"
      using quick_sort_step(1) [OF p lh, of "sequential_quick_sort part (<)", OF ih(1,2)]
      by (simp add: sequential_quick_sort.simps [of part _ "x # rest"] Cons lh)
    moreover have "parallel_quick_sort part (<) xs = Some (sort (x # rest))"
      using quick_sort_step(2) [OF p lh, of "parallel_quick_sort part (<)", OF ih(3,4)]
      by (simp add: parallel_quick_sort.simps [of part _ "x # rest"] Cons lh)
    ultimately show ?thesis using Cons by simp
  qed (simp add: sequential_quick_sort.simps parallel_quick_sort.simps)
qed

section \<open>Properties\<close>



text \<open>\<open>parallel_partial_sum\<close> computes the partial sums in place, for every number of hardware
  threads, whenever the addition is associative and commutative; no chunk is empty, so that the
  last element of a chunk exists.\<close>

theorem parallel_partial_sum_correct:
  assumes "comm_op add"
  shows "parallel_partial_sum add hw xs = Some (partial_sum add xs)"
  by (rule parallel_partial_sum_spec [OF assms])

lemma parallel_partial_sum_correct_witness:
  "parallel_partial_sum (+) 2 [1, 2, 3 :: 32 word] = Some [1, 3, 6]"
  using parallel_partial_sum_correct [of "(+)" 2 "[1, 2, 3 :: 32 word]"]
  by (simp add: comm_op_def ac_simps)

text \<open>Both list quicksorts return, with the sorted list, for every \<open>std::partition\<close> that keeps its
  promise.\<close>

theorem list_quick_sorts_correct:
  fixes xs :: "'a :: linorder list"
  assumes "partitions part"
  shows "sequential_quick_sort part (<) xs = Some (sort xs) \<and> parallel_quick_sort part (<) xs = Some (sort xs)"
  by (rule quick_sorts [OF assms])

lemma list_quick_sorts_correct_witness:
  "sequential_quick_sort (\<lambda>P xs. (filter P xs, rev (filter (\<lambda>x. \<not> P x) xs))) (<) [2, 3, 1 :: nat] = Some [1, 2, 3]"
proof -
  have "partitions (\<lambda>P xs. (filter P xs, rev (filter (\<lambda>x. \<not> P x) (xs :: nat list))))"
    by (auto simp: partitions_def)
  from list_quick_sorts_correct [OF this, of "[2, 3, 1]"] show ?thesis by simp
qed

end
