(* ===== verification/Parallel_Find.thy ===== *)
theory Parallel_Find
  imports Parallel_Algos Transition
begin

text \<open>
  The parallel algorithms of \<open>c++/CCiA_SourceCode\<close> whose threads work on shared data:
  \<open>parallel_for_each\<close> (listings 8.7 and 8.8) and \<open>parallel_find\<close> (8.9), as steps of the threads in any
  order.  An iterator is an index; a thread that has not been started yet is one that has not
  moved.  The calling thread has the last block; it returns when all have ended, because the
  joiner or the futures wait for them.
\<close>

section \<open>Definitions\<close>

text \<open>The ranges from \<open>block_start\<close> on: \<open>k\<close> of one size, and the rest up to the end.\<close>

fun ranges :: "nat \<Rightarrow> nat \<Rightarrow> nat \<Rightarrow> nat \<Rightarrow> (nat \<times> nat) list" where
  "ranges 0 n block_start end = [(block_start, end)]"
| "ranges (Suc k) n block_start end =
     (let block_end = block_start + n in (block_start, block_end) # ranges k n block_end end)"

definition thread_ranges :: "nat \<Rightarrow> nat \<Rightarrow> (nat \<times> nat) list" where
  "thread_ranges hw len =
     (if len = 0 then [] else ranges (num_threads hw len - 1) (block_size hw len) 0 len)"

subsection \<open>For each\<close>

text \<open>Listing 8.8: halves, the first one in an asynchronous call, down to short ranges.\<close>

function async_ranges :: "nat \<Rightarrow> nat \<Rightarrow> (nat \<times> nat) list" where
  "async_ranges start end =
     (if end \<le> start then []
      else if end - start < 2 * 25 then [(start, end)]
      else (let mid_point = start + (end - start) div 2 in
            async_ranges start mid_point @ async_ranges mid_point end))"
  by pat_completeness auto
termination by (relation "measure (\<lambda>(start, end). end - start)") auto

declare async_ranges.simps [simp del]

record 'a for_each =
  elements :: "'a list"
  todo :: "nat list list"

definition for_each_start :: "(nat \<times> nat) list \<Rightarrow> 'a list \<Rightarrow> 'a for_each" where
  "for_each_start rs xs = \<lparr>elements = xs, todo = map (\<lambda>(b, e). [b..<e]) rs\<rparr>"

text \<open>A thread applies \<open>f\<close> to its next element.\<close>

inductive for_each_step :: "('a \<Rightarrow> 'a) \<Rightarrow> 'a for_each \<Rightarrow> 'a for_each \<Rightarrow> bool" for f where
  call: "i < length (todo s) \<Longrightarrow> todo s ! i = j # js \<Longrightarrow>
    for_each_step f s \<lparr>elements = (elements s)[j := f (elements s ! j)], todo = (todo s)[i := js]\<rparr>"

subsection \<open>Find\<close>

datatype find_phase = Head | Body | Setting | Storing | Ended

record finder =
  phase :: find_phase
  pos :: nat
  stop :: nat

record find_state =
  finders :: "finder list"
  promise :: "nat option"
  done_flag :: bool

definition find_start :: "nat \<Rightarrow> 'a list \<Rightarrow> find_state" where
  "find_start hw xs =
     \<lparr>finders = map (\<lambda>(b, e). \<lparr>phase = Head, pos = b, stop = e\<rparr>) (thread_ranges hw (length xs)),
      promise = None, done_flag = False\<rparr>"

definition move :: "nat \<Rightarrow> finder \<Rightarrow> find_state \<Rightarrow> find_state" where
  "move i f s = s\<lparr>finders := (finders s)[i := f]\<rparr>"

text \<open>
  The loop head tests the range and loads the flag; a match sets the promise and stores the flag.
  Setting a promise that is set raises an exception, as does setting its exception, and the second
  handler ends the thread.
\<close>

inductive find_step :: "'a list \<Rightarrow> 'a \<Rightarrow> find_state \<Rightarrow> find_state \<Rightarrow> bool" for xs match where
  leave: "i < length (finders s) \<Longrightarrow> finders s ! i = f \<Longrightarrow> phase f = Head \<Longrightarrow> pos f = stop f \<or> done_flag s \<Longrightarrow>
    find_step xs match s (move i (f\<lparr>phase := Ended\<rparr>) s)"
| go: "i < length (finders s) \<Longrightarrow> finders s ! i = f \<Longrightarrow> phase f = Head \<Longrightarrow> pos f \<noteq> stop f \<Longrightarrow> \<not> done_flag s \<Longrightarrow>
    find_step xs match s (move i (f\<lparr>phase := Body\<rparr>) s)"
| differ: "i < length (finders s) \<Longrightarrow> finders s ! i = f \<Longrightarrow> phase f = Body \<Longrightarrow> xs ! pos f \<noteq> match \<Longrightarrow>
    find_step xs match s (move i (f\<lparr>phase := Head, pos := pos f + 1\<rparr>) s)"
| equal: "i < length (finders s) \<Longrightarrow> finders s ! i = f \<Longrightarrow> phase f = Body \<Longrightarrow> xs ! pos f = match \<Longrightarrow>
    find_step xs match s (move i (f\<lparr>phase := Setting\<rparr>) s)"
| set_value: "i < length (finders s) \<Longrightarrow> finders s ! i = f \<Longrightarrow> phase f = Setting \<Longrightarrow> promise s = None \<Longrightarrow>
    find_step xs match s (move i (f\<lparr>phase := Storing\<rparr>) (s\<lparr>promise := Some (pos f)\<rparr>))"
| raise: "i < length (finders s) \<Longrightarrow> finders s ! i = f \<Longrightarrow> phase f = Setting \<Longrightarrow> promise s \<noteq> None \<Longrightarrow>
    find_step xs match s (move i (f\<lparr>phase := Ended\<rparr>) s)"
| store: "i < length (finders s) \<Longrightarrow> finders s ! i = f \<Longrightarrow> phase f = Storing \<Longrightarrow>
    find_step xs match s (move i (f\<lparr>phase := Ended\<rparr>) (s\<lparr>done_flag := True\<rparr>))"

text \<open>The end of \<open>parallel_find\<close>, after the joins.\<close>

definition find_result :: "'a list \<Rightarrow> find_state \<Rightarrow> nat option" where
  "find_result xs s = (if xs = [] then Some 0 else if \<not> done_flag s then Some (length xs) else promise s)"

section \<open>The ranges\<close>

definition indices :: "(nat \<times> nat) list \<Rightarrow> nat list" where
  "indices rs = concat (map (\<lambda>(b, e). [b..<e]) rs)"

lemma indices_simps [simp]:
  "indices [] = []" "indices ((b, e) # rs) = [b..<e] @ indices rs" "indices (rs @ rs') = indices rs @ indices rs'"
  by (simp_all add: indices_def)

lemma indices_ranges: "s + k * n \<le> e \<Longrightarrow> indices (ranges k n s e) = [s..<e]"
proof (induction k arbitrary: s)
  case (Suc k)
  then have "[s..<e] = [s..<s + n] @ [s + n..<e]" by (metis le_add1 add_leD1 add.assoc mult_Suc upt_add_eq_append le_Suc_ex)
  then show ?case using Suc by (simp add: Let_def add.assoc)
qed simp

lemma indices_threads: "indices (thread_ranges hw len) = [0..<len]"
proof (cases "len = 0")
  case False
  then have "(num_threads hw len - 1) * block_size hw len \<le> len"
    unfolding block_size_def by (metis diff_le_self div_times_less_eq_dividend le_trans mult.commute mult_le_mono1)
  then show ?thesis using False by (simp add: thread_ranges_def indices_ranges)
qed (simp add: thread_ranges_def)

lemma indices_async: "indices (async_ranges s e) = [s..<e]"
proof (induction s e rule: async_ranges.induct)
  case (1 s e)
  show ?case
  proof (cases "e \<le> s \<or> e - s < 2 * 25")
    case True
    then show ?thesis by (auto simp: async_ranges.simps [of s e])
  next
    case False
    let ?m = "s + (e - s) div 2"
    have "[s..<e] = [s..<?m] @ [?m..<e]"
      using False upt_add_eq_append [of s ?m "e - ?m"] by auto
    then show ?thesis using False 1 by (simp add: async_ranges.simps [of s e] Let_def)
  qed
qed

lemma ranges_bounds: "(b, e') \<in> set (ranges k n s e) \<Longrightarrow> s + k * n \<le> e \<Longrightarrow> b \<le> e' \<and> e' \<le> e"
  by (induction k arbitrary: s) (force simp: Let_def)+

lemma thread_ranges_bounds: "(b, e) \<in> set (thread_ranges hw len) \<Longrightarrow> b \<le> e \<and> e \<le> len"
proof -
  have "(num_threads hw len - 1) * block_size hw len \<le> len"
    unfolding block_size_def by (metis diff_le_self div_times_less_eq_dividend le_trans mult.commute mult_le_mono1)
  then show "(b, e) \<in> set (thread_ranges hw len) \<Longrightarrow> ?thesis"
    using ranges_bounds [of b e _ _ 0 len] by (auto simp: thread_ranges_def split: if_splits)
qed

section \<open>For each\<close>

definition for_each_inv :: "('a \<Rightarrow> 'a) \<Rightarrow> 'a list \<Rightarrow> 'a for_each \<Rightarrow> bool" where
  "for_each_inv f xs s \<longleftrightarrow> length (elements s) = length xs \<and> distinct (concat (todo s)) \<and>
     set (concat (todo s)) \<subseteq> {..<length xs} \<and>
     (\<forall>j < length xs. elements s ! j = (if j \<in> set (concat (todo s)) then xs ! j else f (xs ! j)))"

lemma for_each_step_todo:
  assumes "for_each_step f s s'"
  obtains us j js vs where "todo s = us @ (j # js) # vs" "todo s' = us @ js # vs"
    "elements s' = (elements s)[j := f (elements s ! j)]"
  using assms
proof (cases rule: for_each_step.cases)
  case (call i j js)
  then have "todo s = take i (todo s) @ (j # js) # drop (Suc i) (todo s)"
    using id_take_nth_drop [OF call(2)] by simp
  moreover have "todo s' = take i (todo s) @ js # drop (Suc i) (todo s)"
    using call by (simp add: upd_conv_take_nth_drop)
  moreover have "elements s' = (elements s)[j := f (elements s ! j)]" using call by simp
  ultimately show ?thesis by (rule that)
qed

lemma for_each_keeps:
  assumes "for_each_inv f xs s" "for_each_step f s s'"
  shows "for_each_inv f xs s'"
  using assms(2)
proof (rule for_each_step_todo)
  fix us j js vs
  assume st: "todo s = us @ (j # js) # vs" "todo s' = us @ js # vs" "elements s' = (elements s)[j := f (elements s ! j)]"
  have inv: "length (elements s) = length xs" "distinct (concat us @ j # js @ concat vs)"
      "set (concat us @ j # js @ concat vs) \<subseteq> {..<length xs}"
      "\<forall>i < length xs. elements s ! i = (if i \<in> set (concat us @ j # js @ concat vs) then xs ! i else f (xs ! i))"
    using assms(1) unfolding for_each_inv_def st(1) by simp_all
  have "elements s' ! i = (if i \<in> set (concat us @ js @ concat vs) then xs ! i else f (xs ! i))" if "i < length xs" for i
    using inv that unfolding st(3) by (cases "i = j") (auto simp: nth_list_update)
  moreover have "distinct (concat us @ js @ concat vs)" "set (concat us @ js @ concat vs) \<subseteq> {..<length xs}"
    using inv(2,3) by auto
  ultimately show ?thesis unfolding for_each_inv_def st(2) using inv(1) st(3) by simp
qed

lemma for_each_begins:
  assumes "indices rs = [0..<length xs]"
  shows "for_each_inv f xs (for_each_start rs xs)"
proof -
  have "concat (map (\<lambda>(b, e). [b..<e]) rs) = [0..<length xs]" using assms by (simp add: indices_def)
  then show ?thesis unfolding for_each_inv_def for_each_start_def for_each.simps by auto
qed

interpretation fe: invariant_of "\<lambda>s. \<exists>rs. indices rs = [0..<length xs] \<and> s = for_each_start rs xs"
    "for_each_step f" "for_each_inv f xs" for f xs
  by unfold_locales (auto intro: for_each_begins for_each_keeps)

lemma for_each_smaller: "for_each_step f s s' \<Longrightarrow> length (concat (todo s')) < length (concat (todo s))"
  by (erule for_each_step_todo) simp

lemma for_each_progress:
  assumes "concat (todo s) \<noteq> []"
  shows "\<exists>s'. for_each_step f s s'"
proof -
  obtain t where "t \<in> set (todo s)" "t \<noteq> []" using assms by auto
  then obtain i j js where "i < length (todo s)" "todo s ! i = j # js"
    by (metis in_set_conv_nth list.exhaust)
  then show ?thesis by (blast intro: for_each_step.call)
qed

lemma for_each_end: "for_each_inv f xs s \<Longrightarrow> concat (todo s) = [] \<Longrightarrow> elements s = map f xs"
  unfolding for_each_inv_def by (intro nth_equalityI) auto

section \<open>Find\<close>

text \<open>
  A thread stays in its range, stands on a match once it has seen one, and as long as the promise
  is open every match lies before a thread that is still running.
\<close>

definition finder_ok :: "'a list \<Rightarrow> 'a \<Rightarrow> finder \<Rightarrow> bool" where
  "finder_ok xs match f \<longleftrightarrow> pos f \<le> stop f \<and> stop f \<le> length xs \<and>
     (phase f \<in> {Body, Setting, Storing} \<longrightarrow> pos f < stop f) \<and>
     (phase f \<in> {Setting, Storing} \<longrightarrow> xs ! pos f = match)"

definition ahead :: "nat \<Rightarrow> finder \<Rightarrow> bool" where
  "ahead j f \<longleftrightarrow> phase f \<noteq> Ended \<and> pos f \<le> j \<and> j < stop f"

definition find_inv :: "'a list \<Rightarrow> 'a \<Rightarrow> find_state \<Rightarrow> bool" where
  "find_inv xs match s \<longleftrightarrow> (\<forall>f \<in> set (finders s). finder_ok xs match f) \<and>
     (\<forall>j. promise s = Some j \<longrightarrow> j < length xs \<and> xs ! j = match) \<and>
     (done_flag s \<longrightarrow> promise s \<noteq> None) \<and>
     (\<forall>f \<in> set (finders s). phase f = Storing \<longrightarrow> promise s \<noteq> None) \<and>
     (promise s \<noteq> None \<longrightarrow> done_flag s \<or> (\<exists>f \<in> set (finders s). phase f = Storing)) \<and>
     (promise s = None \<longrightarrow> (\<forall>j < length xs. xs ! j = match \<longrightarrow> (\<exists>f \<in> set (finders s). ahead j f)))"

lemma move_simps [simp]:
  "promise (move i f s) = promise s" "done_flag (move i f s) = done_flag s"
  "finders (move i f s) = (finders s)[i := f]"
  by (simp_all add: move_def)

lemma upd_ball: "\<forall>f \<in> set fs. P f \<Longrightarrow> P g \<Longrightarrow> \<forall>f \<in> set (fs[i := g]). P f"
  using set_update_subset_insert [of fs i g] by blast

lemma upd_bex:
  assumes "\<exists>f \<in> set fs. P f" "i < length fs" "P (fs ! i) \<Longrightarrow> P g"
  shows "\<exists>f \<in> set (fs[i := g]). P f"
proof -
  obtain k where k: "k < length fs" "P (fs ! k)" using assms(1) by (metis in_set_conv_nth)
  then have "k < length (fs[i := g])" "P (fs[i := g] ! k)"
    using assms(2,3) by (cases "k = i"; simp)+
  then show ?thesis by (metis nth_mem)
qed

text \<open>The invariant after thread \<open>i\<close> has moved from \<open>fs ! i\<close> to \<open>g\<close>.\<close>

lemma find_moved:
  assumes inv: "find_inv xs match s" and i: "i < length (finders s)"
    and g: "finder_ok xs match g" and p: "promise s' = promise s" and d: "done_flag s' = done_flag s"
    and fs: "finders s' = (finders s)[i := g]"
    and st: "phase g \<noteq> Storing" "phase (finders s ! i) \<noteq> Storing"
    and a: "\<And>j. promise s = None \<Longrightarrow> j < length xs \<Longrightarrow> xs ! j = match \<Longrightarrow> ahead j (finders s ! i) \<Longrightarrow> ahead j g"
  shows "find_inv xs match s'"
proof -
  have "\<forall>f \<in> set (finders s'). finder_ok xs match f"
    unfolding fs by (rule upd_ball) (use inv g in \<open>auto simp: find_inv_def\<close>)
  moreover have "\<forall>f \<in> set (finders s'). phase f = Storing \<longrightarrow> promise s \<noteq> None"
    unfolding fs by (rule upd_ball) (use inv st in \<open>auto simp: find_inv_def\<close>)
  moreover have "done_flag s \<or> (\<exists>f \<in> set (finders s'). phase f = Storing)" if "promise s \<noteq> None"
    using inv that upd_bex [of "finders s" "\<lambda>f. phase f = Storing" i g] i st unfolding fs find_inv_def by blast
  moreover have "\<exists>f \<in> set (finders s'). ahead j f" if "promise s = None" "j < length xs" "xs ! j = match" for j
    using inv that upd_bex [of "finders s" "ahead j" i g] i a [OF that] unfolding fs find_inv_def by blast
  moreover have "\<forall>j. promise s = Some j \<longrightarrow> j < length xs \<and> xs ! j = match" "done_flag s \<longrightarrow> promise s \<noteq> None"
    using inv by (simp_all add: find_inv_def)
  ultimately show ?thesis unfolding find_inv_def p d by blast
qed

lemma find_keeps:
  assumes "find_inv xs match s" "find_step xs match s s'"
  shows "find_inv xs match s'"
  using assms(2)
proof (cases rule: find_step.cases)
  case (leave i f)
  have ok: "finder_ok xs match f" "done_flag s \<Longrightarrow> promise s \<noteq> None" using assms(1) leave by (auto simp: find_inv_def)
  show ?thesis
    by (rule find_moved [OF assms(1) leave(2)]) (use leave ok in \<open>auto simp: finder_ok_def ahead_def\<close>)
next
  case (go i f)
  have ok: "finder_ok xs match f" using assms(1) go by (auto simp: find_inv_def)
  show ?thesis
    by (rule find_moved [OF assms(1) go(2)]) (use go ok in \<open>auto simp: finder_ok_def ahead_def\<close>)
next
  case (differ i f)
  have ok: "finder_ok xs match f" using assms(1) differ by (auto simp: find_inv_def)
  have "pos f \<noteq> j" if "xs ! j = match" for j using that differ(5) by auto
  then show ?thesis
    by (intro find_moved [OF assms(1) differ(2)])
      (use differ ok in \<open>auto simp: finder_ok_def ahead_def Suc_le_eq le_neq_implies_less\<close>)
next
  case (equal i f)
  have ok: "finder_ok xs match f" using assms(1) equal by (auto simp: find_inv_def)
  show ?thesis
    by (rule find_moved [OF assms(1) equal(2)]) (use equal ok in \<open>auto simp: finder_ok_def ahead_def\<close>)
next
  case (raise i f)
  have ok: "finder_ok xs match f" using assms(1) raise by (auto simp: find_inv_def)
  show ?thesis
    by (rule find_moved [OF assms(1) raise(2)]) (use raise ok in \<open>auto simp: finder_ok_def ahead_def\<close>)
next
  case (set_value i f)
  let ?g = "f\<lparr>phase := Storing\<rparr>"
  have ok: "finder_ok xs match f" using assms(1) set_value by (auto simp: find_inv_def)
  then have g: "finder_ok xs match ?g" "pos f < length xs" "xs ! pos f = match"
    using set_value(4) by (auto simp: finder_ok_def)
  have s': "promise s' = Some (pos f)" "finders s' = (finders s)[i := ?g]"
    using set_value by (simp_all add: move_def)
  have "\<forall>f \<in> set (finders s'). finder_ok xs match f"
    unfolding s' by (rule upd_ball) (use assms(1) g in \<open>auto simp: find_inv_def\<close>)
  moreover have "?g \<in> set (finders s')" unfolding s' using set_value(2) by (simp add: set_update_memI)
  ultimately show ?thesis using g s' unfolding find_inv_def by force
next
  case (store i f)
  let ?g = "f\<lparr>phase := Ended\<rparr>"
  have ok: "finder_ok xs match f" "f \<in> set (finders s)" using assms(1) store by (auto simp: find_inv_def)
  then have p: "promise s \<noteq> None" using assms(1) store(4) by (auto simp: find_inv_def)
  have g: "finder_ok xs match ?g" using ok(1) by (auto simp: finder_ok_def)
  have s': "promise s' = promise s" "done_flag s'" "finders s' = (finders s)[i := ?g]"
    using store by (simp_all add: move_def)
  have "\<forall>f \<in> set (finders s'). finder_ok xs match f"
    unfolding s' by (rule upd_ball) (use assms(1) g in \<open>auto simp: find_inv_def\<close>)
  moreover have "\<forall>j. promise s = Some j \<longrightarrow> j < length xs \<and> xs ! j = match"
    using assms(1) by (simp add: find_inv_def)
  ultimately show ?thesis using p s' unfolding find_inv_def by auto
qed

lemma indices_mem: "j \<in> set (indices rs) \<longleftrightarrow> (\<exists>(b, e) \<in> set rs. b \<le> j \<and> j < e)"
  by (auto simp: indices_def)

lemma find_begins: "find_inv xs match (find_start hw xs)"
proof -
  have "\<forall>f \<in> set (finders (find_start hw xs)). finder_ok xs match f"
    using thread_ranges_bounds by (fastforce simp: find_start_def finder_ok_def)
  moreover have "\<exists>f \<in> set (finders (find_start hw xs)). ahead j f" if "j < length xs" for j
    using that indices_mem [of j "thread_ranges hw (length xs)"] indices_threads [of hw "length xs"]
    by (force simp: find_start_def ahead_def)
  ultimately show ?thesis by (auto simp: find_inv_def find_start_def)
qed

interpretation fi: invariant_of "\<lambda>s. \<exists>hw. s = find_start hw xs" "find_step xs match" "find_inv xs match"
  for xs match
  by unfold_locales (auto intro: find_begins find_keeps)

text \<open>What a thread still has to do.\<close>

fun phase_left :: "find_phase \<Rightarrow> nat" where
  "phase_left Head = 4"
| "phase_left Body = 3"
| "phase_left Setting = 2"
| "phase_left Storing = 1"
| "phase_left Ended = 0"

definition finder_left :: "finder \<Rightarrow> nat" where
  "finder_left f = 5 * (stop f - pos f) + phase_left (phase f)"

definition find_left :: "find_state \<Rightarrow> nat" where
  "find_left s = sum_list (map finder_left (finders s))"

lemma find_left_move:
  assumes "i < length (finders s)" "finder_left g < finder_left (finders s ! i)" "finders s' = (finders s)[i := g]"
  shows "find_left s' < find_left s"
proof -
  have "finder_left (finders s ! i) \<le> find_left s"
    unfolding find_left_def by (rule member_le_sum_list) (use assms(1) in auto)
  then show ?thesis using assms
    by (simp add: find_left_def map_update sum_list_update)
qed

lemma find_step_smaller:
  assumes "find_inv xs match s" "find_step xs match s s'"
  shows "find_left s' < find_left s"
  using assms(2)
proof (cases rule: find_step.cases)
  case (differ i f)
  have "finder_ok xs match f" using assms(1) differ by (auto simp: find_inv_def)
  then show ?thesis
    using differ by (intro find_left_move [OF differ(2)]) (auto simp: finder_left_def finder_ok_def)
next
  case (leave i f)
  show ?thesis by (rule find_left_move [OF leave(2)]) (use leave in \<open>auto simp: finder_left_def\<close>)
next
  case (go i f)
  show ?thesis by (rule find_left_move [OF go(2)]) (use go in \<open>auto simp: finder_left_def\<close>)
next
  case (equal i f)
  show ?thesis by (rule find_left_move [OF equal(2)]) (use equal in \<open>auto simp: finder_left_def\<close>)
next
  case (set_value i f)
  show ?thesis by (rule find_left_move [OF set_value(2)]) (use set_value in \<open>auto simp: finder_left_def\<close>)
next
  case (raise i f)
  show ?thesis by (rule find_left_move [OF raise(2)]) (use raise in \<open>auto simp: finder_left_def\<close>)
next
  case (store i f)
  show ?thesis by (rule find_left_move [OF store(2)]) (use store in \<open>auto simp: finder_left_def\<close>)
qed

definition all_ended :: "find_state \<Rightarrow> bool" where
  "all_ended s \<longleftrightarrow> (\<forall>f \<in> set (finders s). phase f = Ended)"

lemma find_progress:
  assumes "\<not> all_ended s"
  shows "\<exists>s'. find_step xs match s s'"
proof -
  obtain i where i: "i < length (finders s)" "phase (finders s ! i) \<noteq> Ended"
    using assms by (auto simp: all_ended_def in_set_conv_nth)
  show ?thesis
  proof (cases "phase (finders s ! i)")
    case Head
    note h = find_step.leave [OF i(1) refl Head] find_step.go [OF i(1) refl Head]
    show ?thesis using h by (metis (full_types))
  next
    case Body
    note h = find_step.differ [OF i(1) refl Body] find_step.equal [OF i(1) refl Body]
    show ?thesis using h by (metis (full_types))
  next
    case Setting
    note h = find_step.set_value [OF i(1) refl Setting] find_step.raise [OF i(1) refl Setting]
    show ?thesis using h by (metis (full_types))
  next
    case Storing
    show ?thesis using find_step.store [OF i(1) refl Storing] by (rule exI)
  qed (use i in simp)
qed

lemma find_done:
  assumes "find_inv xs match s" "all_ended s"
  shows "\<exists>j. find_result xs s = Some j \<and> (if match \<in> set xs then j < length xs \<and> xs ! j = match else j = length xs)"
proof (cases "promise s")
  case None
  have "xs ! j \<noteq> match" if j: "j < length xs" for j
  proof
    assume "xs ! j = match"
    then obtain f where "f \<in> set (finders s)" "ahead j f" using assms(1) None j unfolding find_inv_def by blast
    then show False using assms(2) by (auto simp: all_ended_def ahead_def)
  qed
  then have "match \<notin> set xs" by (auto simp: in_set_conv_nth)
  moreover have "\<not> done_flag s" using assms(1) None by (auto simp: find_inv_def)
  ultimately show ?thesis by (auto simp: find_result_def)
next
  case (Some j)
  then have "done_flag s" "j < length xs" "xs ! j = match"
    using assms by (auto simp: find_inv_def all_ended_def)
  then show ?thesis using Some by (auto simp: find_result_def)
qed

section \<open>Properties\<close>

text \<open>\<open>parallel_for_each\<close>, in both versions, applies the function to every element exactly once in
  every interleaving of its threads, and always ends.\<close>

theorem parallel_for_each_correct:
  assumes "reach ((=) (for_each_start rs xs)) (for_each_step f) s"
    and "rs = thread_ranges hw (length xs) \<or> rs = async_ranges 0 (length xs)"
  shows "(if concat (todo s) = [] then elements s = map f xs else (\<exists>s'. for_each_step f s s')) \<and>
    (\<forall>s'. for_each_step f s s' \<longrightarrow> length (concat (todo s')) < length (concat (todo s)))"
proof -
  have "indices rs = [0..<length xs]" using assms(2) indices_threads indices_async by auto
  then have "for_each_inv f xs s" using fe.holds_from [OF for_each_begins assms(1)] by blast
  then show ?thesis using for_each_end [of f xs s] for_each_progress [of s f] for_each_smaller [of f s] by simp
qed

lemma parallel_for_each_correct_witness:
  "\<exists>s'. for_each_step Suc (for_each_start (thread_ranges 4 1) [7]) s'"
  using parallel_for_each_correct [OF reach_here, where rs = "thread_ranges 4 1" and xs = "[7]" and hw = 4 and f = Suc]
  by (simp add: for_each_start_def thread_ranges_def num_threads_def max_threads_def)

text \<open>C22: \<open>parallel_find\<close> ends in every interleaving of its threads, and then returns the position of
  some match, or the end when there is none, although several threads may find a match, and some
  may stop before their match because another one has set the flag.\<close>

theorem parallel_find_correct:
  assumes "reach ((=) (find_start hw xs)) (find_step xs match) s"
  shows "(if all_ended s
      then (\<exists>j. find_result xs s = Some j \<and>
        (if match \<in> set xs then j < length xs \<and> xs ! j = match else j = length xs))
      else (\<exists>s'. find_step xs match s s')) \<and>
    (\<forall>s'. find_step xs match s s' \<longrightarrow> find_left s' < find_left s)"
proof -
  have inv: "find_inv xs match s" by (rule fi.holds_from [OF find_begins assms])
  then show ?thesis using find_done [OF inv] find_progress [of s xs match] find_step_smaller [OF inv] by simp
qed

lemma parallel_find_correct_witness:
  "\<exists>s'. find_step [7 :: nat] 7 (find_start 4 [7]) s'"
  using parallel_find_correct [OF reach_here, where hw = 4 and xs = "[7 :: nat]" and match = 7]
  by (simp add: find_start_def all_ended_def thread_ranges_def num_threads_def max_threads_def)

end
