(* ===== verification/Hierarchical_Mutex.thy ===== *)
theory Hierarchical_Mutex
  imports Transition "HOL-Library.Word"
begin

text \<open>
  \<open>c++/CCiA_SourceCode/listing_3.8.cpp\<close>: mutexes with a level, which a thread may lock only in
  descending order.  Threads and mutexes are numbers.  A thread is in \<open>internal_mutex.lock()\<close> when it
  is \<open>waiting\<close>; an exception of the check leaves the state as it is.  \<open>held\<close> records what each thread
  has locked, the last one first; the code has no such record.  The parameter \<open>scoped\<close> says whether
  mutexes are unlocked in the reverse order, as guards do it.
\<close>

section \<open>Definitions\<close>

type_synonym ulong = "64 word"

definition ULONG_MAX :: ulong where "ULONG_MAX = 0xFFFFFFFFFFFFFFFF"

record hm =
  hierarchy_value :: "nat \<Rightarrow> ulong"
  previous_hierarchy_value :: "nat \<Rightarrow> ulong"
  this_thread_hierarchy_value :: "nat \<Rightarrow> ulong"
  internal_mutex :: "nat \<Rightarrow> nat option"
  waiting :: "nat \<Rightarrow> nat option"
  held :: "nat \<Rightarrow> nat list"

text \<open>The constructors, for the levels \<open>values\<close>; the thread-local value begins at its maximum.\<close>

definition hm_start :: "(nat \<Rightarrow> ulong) \<Rightarrow> hm" where
  "hm_start values = \<lparr>hierarchy_value = values, previous_hierarchy_value = \<lambda>_. 0,
     this_thread_hierarchy_value = \<lambda>_. ULONG_MAX, internal_mutex = \<lambda>_. None, waiting = \<lambda>_. None,
     held = \<lambda>_. []\<rparr>"

text \<open>Whether \<open>check_for_hierarchy_violation\<close> returns; otherwise it throws.\<close>

definition check_for_hierarchy_violation :: "nat \<Rightarrow> nat \<Rightarrow> hm \<Rightarrow> bool" where
  "check_for_hierarchy_violation t m s \<longleftrightarrow> \<not> this_thread_hierarchy_value s t \<le> hierarchy_value s m"

definition update_hierarchy_value :: "nat \<Rightarrow> nat \<Rightarrow> hm \<Rightarrow> hm" where
  "update_hierarchy_value t m s =
     (let s' = s\<lparr>previous_hierarchy_value := (previous_hierarchy_value s)(m := this_thread_hierarchy_value s t)\<rparr>
      in s'\<lparr>this_thread_hierarchy_value := (this_thread_hierarchy_value s')(t := hierarchy_value s' m)\<rparr>)"

definition locked :: "nat \<Rightarrow> nat \<Rightarrow> hm \<Rightarrow> hm" where
  "locked t m s = update_hierarchy_value t m
     (s\<lparr>internal_mutex := (internal_mutex s)(m := Some t), waiting := (waiting s)(t := None),
        held := (held s)(t := m # held s t)\<rparr>)"

definition unlock :: "nat \<Rightarrow> nat \<Rightarrow> hm \<Rightarrow> hm" where
  "unlock t m s =
     (let s' = s\<lparr>this_thread_hierarchy_value := (this_thread_hierarchy_value s)(t := previous_hierarchy_value s m)\<rparr>
      in s'\<lparr>internal_mutex := (internal_mutex s')(m := None), held := (held s')(t := remove1 m (held s' t))\<rparr>)"

inductive hm_step :: "bool \<Rightarrow> hm \<Rightarrow> hm \<Rightarrow> bool" for scoped where
  violated: "waiting s t = None \<Longrightarrow> \<not> check_for_hierarchy_violation t m s \<Longrightarrow> hm_step scoped s s"
| lock: "waiting s t = None \<Longrightarrow> check_for_hierarchy_violation t m s \<Longrightarrow>
    hm_step scoped s (s\<lparr>waiting := (waiting s)(t := Some m)\<rparr>)"
| locks: "waiting s t = Some m \<Longrightarrow> internal_mutex s m = None \<Longrightarrow> hm_step scoped s (locked t m s)"
| try_locks: "waiting s t = None \<Longrightarrow> check_for_hierarchy_violation t m s \<Longrightarrow> internal_mutex s m = None \<Longrightarrow>
    hm_step scoped s (locked t m s)"
| try_fails: "waiting s t = None \<Longrightarrow> check_for_hierarchy_violation t m s \<Longrightarrow> internal_mutex s m \<noteq> None \<Longrightarrow>
    hm_step scoped s s"
| unlocks: "waiting s t = None \<Longrightarrow> m \<in> set (held s t) \<Longrightarrow> (scoped \<longrightarrow> m = hd (held s t)) \<Longrightarrow>
    hm_step scoped s (unlock t m s)"

section \<open>The invariant\<close>

text \<open>The value of a thread that has locked \<open>ms\<close> is the level of the last one.\<close>

fun level_of :: "hm \<Rightarrow> nat list \<Rightarrow> ulong" where
  "level_of s [] = ULONG_MAX"
| "level_of s (m # ms) = hierarchy_value s m"

text \<open>The levels descend, and each mutex keeps the value from before.\<close>

fun descends :: "hm \<Rightarrow> nat list \<Rightarrow> bool" where
  "descends s [] \<longleftrightarrow> True"
| "descends s (m # ms) \<longleftrightarrow> hierarchy_value s m < level_of s ms \<and>
     previous_hierarchy_value s m = level_of s ms \<and> descends s ms"

definition hm_inv :: "hm \<Rightarrow> bool" where
  "hm_inv s \<longleftrightarrow> (\<forall>t. descends s (held s t) \<and> this_thread_hierarchy_value s t = level_of s (held s t) \<and>
       distinct (held s t)) \<and>
     (\<forall>t m. internal_mutex s m = Some t \<longleftrightarrow> m \<in> set (held s t)) \<and>
     (\<forall>t m. waiting s t = Some m \<longrightarrow> hierarchy_value s m < this_thread_hierarchy_value s t)"

lemma level_cong: "hierarchy_value s' = hierarchy_value s \<Longrightarrow> level_of s' ms = level_of s ms"
  by (cases ms) auto

lemma descends_cong:
  "hierarchy_value s' = hierarchy_value s \<Longrightarrow>
   (\<And>m. m \<in> set ms \<Longrightarrow> previous_hierarchy_value s' m = previous_hierarchy_value s m) \<Longrightarrow>
   descends s' ms = descends s ms"
  by (induction ms) (auto simp: level_cong [of s' s])

lemma descends_below: "descends s ms \<Longrightarrow> m \<in> set ms \<Longrightarrow> level_of s ms \<le> hierarchy_value s m"
proof (induction ms)
  case (Cons n ms)
  then show ?case by auto
qed simp

lemma locked_simps [simp]:
  "hierarchy_value (locked t m s) = hierarchy_value s"
  "previous_hierarchy_value (locked t m s) = (previous_hierarchy_value s)(m := this_thread_hierarchy_value s t)"
  "this_thread_hierarchy_value (locked t m s) = (this_thread_hierarchy_value s)(t := hierarchy_value s m)"
  "internal_mutex (locked t m s) = (internal_mutex s)(m := Some t)"
  "waiting (locked t m s) = (waiting s)(t := None)" "held (locked t m s) = (held s)(t := m # held s t)"
  by (simp_all add: locked_def update_hierarchy_value_def Let_def)

lemma unlock_simps [simp]:
  "hierarchy_value (unlock t m s) = hierarchy_value s"
  "previous_hierarchy_value (unlock t m s) = previous_hierarchy_value s"
  "this_thread_hierarchy_value (unlock t m s) = (this_thread_hierarchy_value s)(t := previous_hierarchy_value s m)"
  "internal_mutex (unlock t m s) = (internal_mutex s)(m := None)"
  "waiting (unlock t m s) = waiting s" "held (unlock t m s) = (held s)(t := remove1 m (held s t))"
  by (simp_all add: unlock_def Let_def)

lemma hm_invI:
  "(\<And>t. descends s (held s t) \<and> this_thread_hierarchy_value s t = level_of s (held s t) \<and> distinct (held s t)) \<Longrightarrow>
   (\<And>m t. internal_mutex s m = Some t \<longleftrightarrow> m \<in> set (held s t)) \<Longrightarrow>
   (\<And>t m. waiting s t = Some m \<Longrightarrow> hierarchy_value s m < this_thread_hierarchy_value s t) \<Longrightarrow> hm_inv s"
  by (simp add: hm_inv_def)

lemma owner_iff: "hm_inv s \<Longrightarrow> internal_mutex s m = Some t \<longleftrightarrow> m \<in> set (held s t)"
  by (simp add: hm_inv_def)

lemma hm_begins: "hm_inv (hm_start values)"
  by (simp add: hm_inv_def hm_start_def)

lemma locked_keeps:
  assumes inv: "hm_inv s" and m: "internal_mutex s m = None"
    and lv: "hierarchy_value s m < this_thread_hierarchy_value s t"
  shows "hm_inv (locked t m s)"
proof -
  have free: "m \<notin> set (held s u)" for u using inv m unfolding hm_inv_def by (metis option.distinct(1))
  have "descends (locked t m s) (held s u) = descends s (held s u)" for u
    by (rule descends_cong) (use free [of u] in auto)
  moreover have "level_of (locked t m s) ms = level_of s ms" for ms by (rule level_cong) simp
  moreover have "descends s (held s u)" "this_thread_hierarchy_value s u = level_of s (held s u)" "distinct (held s u)" for u
    using inv by (simp_all add: hm_inv_def)
  ultimately have "descends (locked t m s) (held (locked t m s) u) \<and>
      this_thread_hierarchy_value (locked t m s) u = level_of (locked t m s) (held (locked t m s) u) \<and>
      distinct (held (locked t m s) u)" for u
    using lv free [of u] free [of t] by simp
  moreover have "internal_mutex (locked t m s) n = Some u \<longleftrightarrow> n \<in> set (held (locked t m s) u)" for n u
    using owner_iff [OF inv, of n u] free [of u] by simp
  moreover have "hierarchy_value (locked t m s) n < this_thread_hierarchy_value (locked t m s) u"
    if "waiting (locked t m s) u = Some n" for u n
    using inv that by (simp add: hm_inv_def split: if_splits)
  ultimately show ?thesis by (rule hm_invI)
qed

lemma unlock_keeps:
  assumes inv: "hm_inv s" and w: "waiting s t = None" and m: "held s t = m # ms"
  shows "hm_inv (unlock t m s)"
proof -
  have c: "descends (unlock t m s) ns = descends s ns" "level_of (unlock t m s) ns = level_of s ns" for ns
    by (rule descends_cong; simp) (rule level_cong, simp)
  have h: "descends s (held s u)" "this_thread_hierarchy_value s u = level_of s (held s u)" "distinct (held s u)" for u
    using inv by (simp_all add: hm_inv_def)
  have "descends (unlock t m s) (held (unlock t m s) u) \<and>
      this_thread_hierarchy_value (unlock t m s) u = level_of (unlock t m s) (held (unlock t m s) u) \<and>
      distinct (held (unlock t m s) u)" for u
    using h [of u] h [of t] m unfolding c by auto
  moreover have "internal_mutex (unlock t m s) n = Some u \<longleftrightarrow> n \<in> set (held (unlock t m s) u)" for n u
  proof -
    have ms: "m \<notin> set ms" "held (unlock t m s) = (held s)(t := ms)" using h(3) [of t] m by simp_all
    show ?thesis
    proof (cases "n = m")
      case True
      have "m \<notin> set (held s u)" if "u \<noteq> t"
        using owner_iff [OF inv, of m u] owner_iff [OF inv, of m t] m that by (metis list.set_intros(1) option.inject)
      then show ?thesis using True ms by simp
    next
      case False
      then show ?thesis using owner_iff [OF inv, of n u] m ms by simp
    qed
  qed
  moreover have "hierarchy_value (unlock t m s) n < this_thread_hierarchy_value (unlock t m s) u"
    if "waiting (unlock t m s) u = Some n" for u n
    using inv that w by (auto simp: hm_inv_def)
  ultimately show ?thesis by (rule hm_invI)
qed

lemma hm_keeps: "hm_inv s \<Longrightarrow> hm_step True s s' \<Longrightarrow> hm_inv s'"
proof (rotate_tac, induction rule: hm_step.induct)
  case (lock s t m)
  then show ?case
    using descends_cong [of "s\<lparr>waiting := (waiting s)(t := Some m)\<rparr>" s]
      level_cong [of "s\<lparr>waiting := (waiting s)(t := Some m)\<rparr>" s]
    by (auto simp: hm_inv_def check_for_hierarchy_violation_def not_le)
next
  case (locks s t m)
  then show ?case by (intro locked_keeps) (auto simp: hm_inv_def)
next
  case (try_locks s t m)
  then show ?case by (intro locked_keeps) (auto simp: check_for_hierarchy_violation_def)
next
  case (unlocks s t m)
  then have "held s t = m # tl (held s t)" by (cases "held s t") auto
  then show ?case using unlocks by (intro unlock_keeps)
qed

interpretation hm: invariant_of "\<lambda>s. \<exists>values. s = hm_start values" "hm_step True" hm_inv
  by unfold_locales (auto intro: hm_begins hm_keeps)

section \<open>Deadlock\<close>

text \<open>A thread that waits for a mutex whose owner can go on only when another one does.\<close>

definition blocked :: "hm \<Rightarrow> nat \<Rightarrow> bool" where
  "blocked s t \<longleftrightarrow> (\<exists>m u. waiting s t = Some m \<and> internal_mutex s m = Some u \<and> waiting s u \<noteq> None)"

text \<open>The waiting thread with the lowest mutex is not blocked.\<close>

lemma lowest_not_blocked:
  assumes inv: "hm_inv s" and w: "waiting s t = Some m"
  shows "\<exists>u. waiting s u \<noteq> None \<and> \<not> blocked s u"
  using w
proof (induction "unat (hierarchy_value s m)" arbitrary: t m rule: less_induct)
  case less
  show ?case
  proof (cases "blocked s t")
    case True
    then obtain u n where u: "internal_mutex s m = Some u" "waiting s u = Some n"
      using less(2) by (auto simp: blocked_def)
    then have "m \<in> set (held s u)" "descends s (held s u)"
        "this_thread_hierarchy_value s u = level_of s (held s u)"
        "hierarchy_value s n < this_thread_hierarchy_value s u"
      using inv by (auto simp: hm_inv_def)
    then have "hierarchy_value s n < hierarchy_value s m" using descends_below [of s "held s u" m] by simp
    then show ?thesis using less(1) [OF _ u(2)] by (simp add: word_less_nat_alt)
  qed (use less(2) in auto)
qed

section \<open>Unlocking out of order\<close>

text \<open>Two threads that wait for each other stay so.\<close>

definition dead :: "hm \<Rightarrow> bool" where
  "dead s \<longleftrightarrow> waiting s 0 = Some 0 \<and> internal_mutex s 0 = Some 1 \<and> waiting s 1 = Some 1 \<and>
     internal_mutex s 1 = Some 0 \<and> (\<forall>u. (0 \<in> set (held s u) \<longrightarrow> u = 1) \<and> (1 \<in> set (held s u) \<longrightarrow> u = 0))"

lemma dead_keeps: "dead s \<Longrightarrow> hm_step b s s' \<Longrightarrow> dead s'"
proof (rotate_tac, induction rule: hm_step.induct)
  case (lock s t m)
  then have "t \<noteq> 0" "t \<noteq> 1" unfolding dead_def by (metis option.distinct(1))+
  then show ?case using lock by (simp add: dead_def)
next
  case (locks s t m)
  then have "m \<noteq> 0" "m \<noteq> 1" unfolding dead_def by (metis option.distinct(1))+
  moreover from this have "t \<noteq> 0" "t \<noteq> 1" using locks unfolding dead_def by (metis option.inject)+
  ultimately show ?case using locks by (simp add: dead_def)
next
  case (try_locks s t m)
  then have "m \<noteq> 0" "m \<noteq> 1" "t \<noteq> 0" "t \<noteq> 1" unfolding dead_def by (metis option.distinct(1))+
  then show ?case using try_locks by (simp add: dead_def)
next
  case (unlocks s t m)
  then have t: "t \<noteq> 0" "t \<noteq> 1" unfolding dead_def by (metis option.distinct(1))+
  then have "m \<noteq> 0" "m \<noteq> 1" using unlocks unfolding dead_def by metis+
  moreover have "k \<in> set (remove1 m (held s t)) \<Longrightarrow> k \<in> set (held s t)" for k using set_remove1_subset [of m "held s t"] by blast
  ultimately show ?case using unlocks t unfolding dead_def by simp
qed

interpretation dl: invariant_of dead "hm_step b" dead for b
  by unfold_locales (auto intro: dead_keeps)

definition two_levels :: "nat \<Rightarrow> ulong" where
  "two_levels m = (if m = 0 then 100 else 50)"

lemma reach_locked:
  "reach ini (hm_step b) s \<Longrightarrow> waiting s t = None \<Longrightarrow> check_for_hierarchy_violation t m s \<Longrightarrow>
   internal_mutex s m = None \<Longrightarrow> reach ini (hm_step b) (locked t m s)"
  using hm_step.try_locks [of s t m b] by (auto intro: reach.move)

lemma reach_waits:
  "reach ini (hm_step b) s \<Longrightarrow> waiting s t = None \<Longrightarrow> check_for_hierarchy_violation t m s \<Longrightarrow>
   reach ini (hm_step b) (s\<lparr>waiting := (waiting s)(t := Some m)\<rparr>)"
  using hm_step.lock [of s t m b] by (auto intro: reach.move)

lemma reach_unlocked:
  "reach ini (hm_step False) s \<Longrightarrow> waiting s t = None \<Longrightarrow> m \<in> set (held s t) \<Longrightarrow>
   reach ini (hm_step False) (unlock t m s)"
  using hm_step.unlocks [of s t m False] by (auto intro: reach.move)

text \<open>Thread 0 locks both mutexes, unlocks the upper one first and waits for it again; thread 1 has
  it by then, and waits for the lower one.\<close>

lemma reach_dead: "\<exists>s. reach ((=) (hm_start two_levels)) (hm_step False) s \<and> dead s"
proof -
  let ?R = "reach ((=) (hm_start two_levels)) (hm_step False)"
  note defs = hm_start_def check_for_hierarchy_violation_def two_levels_def ULONG_MAX_def
  define s1 where "s1 = locked 0 0 (hm_start two_levels)"
  define s2 where "s2 = locked 0 1 s1"
  define s3 where "s3 = unlock 0 0 s2"
  define s4 where "s4 = locked 1 0 s3"
  define s5 where "s5 = s4\<lparr>waiting := (waiting s4)(0 := Some 0)\<rparr>"
  define s6 where "s6 = s5\<lparr>waiting := (waiting s5)(1 := Some 1)\<rparr>"
  have "?R s1" unfolding s1_def by (rule reach_locked [OF reach_here]) (simp_all add: defs)
  then have "?R s2" unfolding s2_def by (rule reach_locked) (simp_all add: s1_def defs)
  then have "?R s3" unfolding s3_def
    by (rule reach_unlocked) (simp_all add: s2_def s1_def defs)
  then have "?R s4" unfolding s4_def by (rule reach_locked) (simp_all add: s3_def s2_def s1_def defs)
  then have "?R s5" unfolding s5_def
    by (rule reach_waits) (simp_all add: s4_def s3_def s2_def s1_def defs)
  then have "?R s6" unfolding s6_def
    by (rule reach_waits) (simp_all add: s5_def s4_def s3_def s2_def s1_def defs)
  moreover have "dead s6"
    by (simp add: dead_def s6_def s5_def s4_def s3_def s2_def s1_def hm_start_def)
  ultimately show ?thesis by blast
qed

section \<open>Properties\<close>

text \<open>C7: with guards there is no deadlock, whatever the threads do: as long as a thread waits for a
  mutex, some waiting thread can go on at once or waits for a thread that does not wait; and a
  thread that holds nothing can lock every mutex below the maximum again.\<close>

theorem hierarchy_no_deadlock:
  assumes "reach ((=) (hm_start values)) (hm_step True) s" "waiting s t = Some m"
  shows "(\<exists>u n. waiting s u = Some n \<and> (hm_step True s (locked u n s) \<or>
      (\<exists>v. internal_mutex s n = Some v \<and> waiting s v = None \<and> n \<in> set (held s v)))) \<and>
    (\<forall>u. held s u = [] \<longrightarrow> this_thread_hierarchy_value s u = ULONG_MAX)"
proof -
  have inv: "hm_inv s" by (rule hm.holds_from [OF hm_begins assms(1)])
  obtain u n where u: "waiting s u = Some n" "\<not> blocked s u" using lowest_not_blocked [OF inv assms(2)] by auto
  have "hm_step True s (locked u n s) \<or>
      (\<exists>v. internal_mutex s n = Some v \<and> waiting s v = None \<and> n \<in> set (held s v))"
  proof (cases "internal_mutex s n")
    case None
    then show ?thesis using hm_step.locks [OF u(1)] by blast
  next
    case (Some v)
    then show ?thesis using u inv by (auto simp: blocked_def hm_inv_def)
  qed
  moreover have "this_thread_hierarchy_value s v = ULONG_MAX" if "held s v = []" for v
    using inv that by (simp add: hm_inv_def)
  ultimately show ?thesis using u(1) by blast
qed

lemma hierarchy_no_deadlock_witness:
  "\<exists>s. reach ((=) (hm_start two_levels)) (hm_step True) s \<and> waiting s 0 = Some 0 \<and>
    (\<exists>u n. waiting s u = Some n \<and> (hm_step True s (locked u n s) \<or>
      (\<exists>v. internal_mutex s n = Some v \<and> waiting s v = None \<and> n \<in> set (held s v))))"
proof -
  let ?s = "(hm_start two_levels)\<lparr>waiting := (waiting (hm_start two_levels))(0 := Some 0)\<rparr>"
  have r: "reach ((=) (hm_start two_levels)) (hm_step True) ?s"
    by (rule reach_waits [OF reach_here])
      (simp_all add: hm_start_def check_for_hierarchy_violation_def two_levels_def ULONG_MAX_def)
  have w: "waiting ?s 0 = Some 0" by simp
  show ?thesis using r w hierarchy_no_deadlock [OF r w, THEN conjunct1] by blast
qed

text \<open>Without that order the hierarchy does not prevent a deadlock: \<open>unlock\<close> sets the value of the
  thread to the one from before its lock even when the thread still holds a lower mutex, so that
  it may lock the upper one again; two threads can then wait for each other for ever.\<close>

theorem out_of_order_deadlock:
  "\<exists>s. reach ((=) (hm_start two_levels)) (hm_step False) s \<and>
    (\<forall>s'. reach ((=) s) (hm_step False) s' \<longrightarrow> waiting s' 0 = Some 0 \<and> internal_mutex s' 0 = Some 1 \<and>
      waiting s' 1 = Some 1 \<and> internal_mutex s' 1 = Some 0)"
proof -
  obtain s where s: "reach ((=) (hm_start two_levels)) (hm_step False) s" "dead s" using reach_dead by blast
  have "dead s'" if "reach ((=) s) (hm_step False) s'" for s' by (rule dl.holds_from [OF s(2) that])
  then show ?thesis using s(1) unfolding dead_def by blast
qed

lemma out_of_order_deadlock_witness:
  "\<exists>s. reach ((=) (hm_start two_levels)) (hm_step False) s \<and> waiting s 0 = Some 0 \<and> waiting s 1 = Some 1"
proof -
  from out_of_order_deadlock obtain s where s: "reach ((=) (hm_start two_levels)) (hm_step False) s"
      "\<forall>s'. reach ((=) s) (hm_step False) s' \<longrightarrow> waiting s' 0 = Some 0 \<and> internal_mutex s' 0 = Some 1 \<and>
        waiting s' 1 = Some 1 \<and> internal_mutex s' 1 = Some 0" by (rule exE) (elim conjE)
  then show ?thesis using reach_here [of s "hm_step False"] by blast
qed

end
