(* ===== verification/Lookup_Table.thy ===== *)
theory Lookup_Table
  imports Transition "HOL-Library.Word"
begin

text \<open>
  \<open>c++/CCiA_SourceCode/listing_6.11.cpp\<close>: the hash table with one lock for each bucket.  An operation
  holds the lock of its one bucket from its first access to its last, so operations are atomic and
  the locks are left out.  The hash function is the parameter \<open>hasher\<close>; an iterator of a bucket is an
  index.  A table without buckets has no result (\<open>None\<close>): the remainder by zero is undefined.
\<close>

section \<open>Definitions\<close>

type_synonym ('k, 'v) bucket_type = "('k \<times> 'v) list"

text \<open>\<open>std::find_if\<close>: the index of the entry, or the length, which is \<open>data.end()\<close>.\<close>

fun find_entry_for :: "'k \<Rightarrow> ('k, 'v) bucket_type \<Rightarrow> nat" where
  "find_entry_for key [] = 0"
| "find_entry_for key (item # items) = (if fst item = key then 0 else Suc (find_entry_for key items))"

definition bucket_value_for :: "'k \<Rightarrow> 'v \<Rightarrow> ('k, 'v) bucket_type \<Rightarrow> 'v" where
  "bucket_value_for key default_value items =
     (let found_entry = find_entry_for key items in
      if found_entry = length items then default_value else snd (items ! found_entry))"

definition bucket_add_or_update :: "'k \<Rightarrow> 'v \<Rightarrow> ('k, 'v) bucket_type \<Rightarrow> ('k, 'v) bucket_type" where
  "bucket_add_or_update key v items =
     (let found_entry = find_entry_for key items in
      if found_entry = length items then items @ [(key, v)]
      else items[found_entry := (fst (items ! found_entry), v)])"

definition bucket_remove :: "'k \<Rightarrow> ('k, 'v) bucket_type \<Rightarrow> ('k, 'v) bucket_type" where
  "bucket_remove key items =
     (let found_entry = find_entry_for key items in
      if found_entry \<noteq> length items then take found_entry items @ drop (Suc found_entry) items
      else items)"

type_synonym ('k, 'v) table = "('k, 'v) bucket_type list"

definition threadsafe_lookup_table :: "nat \<Rightarrow> ('k, 'v) table" where
  "threadsafe_lookup_table num_buckets = replicate num_buckets []"

definition get_bucket :: "('k \<Rightarrow> 64 word) \<Rightarrow> 'k \<Rightarrow> ('k, 'v) table \<Rightarrow> nat option" where
  "get_bucket hasher key buckets =
     (if buckets = [] then None else Some (unat (hasher key) mod length buckets))"

definition value_for :: "('k \<Rightarrow> 64 word) \<Rightarrow> 'k \<Rightarrow> 'v \<Rightarrow> ('k, 'v) table \<Rightarrow> 'v option" where
  "value_for hasher key default_value buckets =
     map_option (\<lambda>i. bucket_value_for key default_value (buckets ! i)) (get_bucket hasher key buckets)"

definition add_or_update_mapping :: "('k \<Rightarrow> 64 word) \<Rightarrow> 'k \<Rightarrow> 'v \<Rightarrow> ('k, 'v) table \<Rightarrow> ('k, 'v) table option" where
  "add_or_update_mapping hasher key v buckets =
     map_option (\<lambda>i. buckets[i := bucket_add_or_update key v (buckets ! i)]) (get_bucket hasher key buckets)"

definition remove_mapping :: "('k \<Rightarrow> 64 word) \<Rightarrow> 'k \<Rightarrow> ('k, 'v) table \<Rightarrow> ('k, 'v) table option" where
  "remove_mapping hasher key buckets =
     map_option (\<lambda>i. buckets[i := bucket_remove key (buckets ! i)]) (get_bucket hasher key buckets)"

section \<open>A bucket\<close>

lemma find_entry_le: "find_entry_for key items \<le> length items"
  by (induction items) auto

lemma find_entry_end: "find_entry_for key items = length items \<longleftrightarrow> map_of items key = None"
  by (induction items) auto

lemma find_entry_at:
  "map_of items key = Some v \<Longrightarrow> find_entry_for key items < length items \<and> items ! find_entry_for key items = (key, v)"
  by (induction items) (auto split: if_splits)

lemma bucket_value: "bucket_value_for key d items = (case map_of items key of None \<Rightarrow> d | Some v \<Rightarrow> v)"
  using find_entry_end [of key items] find_entry_at [of items key]
  by (auto simp: bucket_value_for_def Let_def split: option.splits)

lemma update_entry:
  "find_entry_for key items < length items \<Longrightarrow>
   map_of (items[find_entry_for key items := (key, v)]) = (map_of items)(key \<mapsto> v) \<and>
   map fst (items[find_entry_for key items := (key, v)]) = map fst items"
  by (induction items) (auto simp: fun_upd_twist)

lemma bucket_update:
  "map_of (bucket_add_or_update key v items) = (map_of items)(key \<mapsto> v)"
  "distinct (map fst items) \<Longrightarrow> distinct (map fst (bucket_add_or_update key v items))"
  "fst ` set (bucket_add_or_update key v items) \<subseteq> insert key (fst ` set items)"
proof -
  have "map_of (bucket_add_or_update key v items) = (map_of items)(key \<mapsto> v) \<and>
    (distinct (map fst items) \<longrightarrow> distinct (map fst (bucket_add_or_update key v items))) \<and>
    fst ` set (bucket_add_or_update key v items) \<subseteq> insert key (fst ` set items)"
  proof (cases "map_of items key")
    case None
    then have "bucket_add_or_update key v items = items @ [(key, v)]"
      using find_entry_end [of key items] by (simp add: bucket_add_or_update_def)
    moreover have "map_of (items @ [(key, v)]) = (map_of items)(key \<mapsto> v)"
      using None by (intro ext) (simp add: map_add_def split: option.splits)
    ultimately show ?thesis using None by (auto simp: map_of_eq_None_iff)
  next
    case (Some w)
    note f = find_entry_at [OF Some]
    then have b: "bucket_add_or_update key v items = items[find_entry_for key items := (key, v)]"
      by (auto simp: bucket_add_or_update_def Let_def)
    have "fst ` set (items[find_entry_for key items := (key, v)]) = fst ` set items"
      using update_entry [of key items v] f by (metis list.set_map)
    then show ?thesis using update_entry [of key items v] f unfolding b by (simp add: subset_insertI)
  qed
  then show "map_of (bucket_add_or_update key v items) = (map_of items)(key \<mapsto> v)"
    "distinct (map fst items) \<Longrightarrow> distinct (map fst (bucket_add_or_update key v items))"
    "fst ` set (bucket_add_or_update key v items) \<subseteq> insert key (fst ` set items)" by blast+
qed

lemma remove_entry:
  "distinct (map fst items) \<Longrightarrow> bucket_remove key items = filter (\<lambda>x. fst x \<noteq> key) items"
proof (induction items)
  case (Cons a items)
  show ?case
  proof (cases "fst a = key")
    case True
    then have "key \<notin> set (map fst items)" using Cons(2) by auto
    then have "filter (\<lambda>x. fst x \<noteq> key) items = items" by (auto intro: filter_True)
    then show ?thesis using True by (simp add: bucket_remove_def)
  next
    case False
    then show ?thesis using Cons by (simp add: bucket_remove_def Let_def split: if_splits)
  qed
qed (simp add: bucket_remove_def)

lemma bucket_remove:
  assumes "distinct (map fst items)"
  shows "map_of (bucket_remove key items) = (map_of items)(key := None)"
    "distinct (map fst (bucket_remove key items))" "fst ` set (bucket_remove key items) \<subseteq> fst ` set items"
proof -
  have "map_of (filter (\<lambda>x. fst x \<noteq> key) items) = (map_of items)(key := None)"
    by (induction items) (auto simp: fun_upd_twist)
  then show "map_of (bucket_remove key items) = (map_of items)(key := None)"
    by (simp add: remove_entry [OF assms])
qed (use assms in \<open>auto simp: remove_entry distinct_map_filter\<close>)

section \<open>The table\<close>

datatype ('k, 'v) op = Value_for 'k 'v | Add_or_update 'k 'v | Remove 'k

fun call :: "('k \<Rightarrow> 64 word) \<Rightarrow> ('k, 'v) table \<Rightarrow> ('k, 'v) op \<Rightarrow> ('v option \<times> ('k, 'v) table) option" where
  "call hasher t (Value_for k d) = map_option (\<lambda>v. (Some v, t)) (value_for hasher k d t)"
| "call hasher t (Add_or_update k v) = map_option (\<lambda>t'. (None, t')) (add_or_update_mapping hasher k v t)"
| "call hasher t (Remove k) = map_option (\<lambda>t'. (None, t')) (remove_mapping hasher k t)"

text \<open>The table as a map.\<close>

fun map_spec :: "('k \<Rightarrow> 'v option) \<Rightarrow> ('k, 'v) op \<Rightarrow> 'v option \<times> ('k \<Rightarrow> 'v option)" where
  "map_spec m (Value_for k d) = (Some (case m k of None \<Rightarrow> d | Some v \<Rightarrow> v), m)"
| "map_spec m (Add_or_update k v) = (None, m(k \<mapsto> v))"
| "map_spec m (Remove k) = (None, m(k := None))"

definition index_of :: "('k \<Rightarrow> 64 word) \<Rightarrow> ('k, 'v) table \<Rightarrow> 'k \<Rightarrow> nat" where
  "index_of hasher t k = unat (hasher k) mod length t"

text \<open>Every entry is in the bucket of its key, once.\<close>

definition table_map :: "('k \<Rightarrow> 64 word) \<Rightarrow> ('k, 'v) table \<Rightarrow> ('k \<Rightarrow> 'v option) \<Rightarrow> bool" where
  "table_map hasher t m \<longleftrightarrow> t \<noteq> [] \<and> (\<forall>k. m k = map_of (t ! index_of hasher t k) k) \<and>
     (\<forall>i < length t. distinct (map fst (t ! i)) \<and> (\<forall>k \<in> fst ` set (t ! i). index_of hasher t k = i))"

lemma index_less: "t \<noteq> [] \<Longrightarrow> index_of hasher t k < length t"
  by (simp add: index_of_def)

lemma index_update [simp]: "index_of hasher (t[i := b]) = index_of hasher t"
  by (rule ext) (simp add: index_of_def)

lemma table_update:
  assumes t: "table_map hasher t m" and i: "i = index_of hasher t k"
    and b: "map_of b = (map_of (t ! i))(k := x)" "distinct (map fst b)" "fst ` set b \<subseteq> insert k (fst ` set (t ! i))"
  shows "table_map hasher (t[i := b]) (m(k := x))"
proof -
  have il: "i < length t" using t i index_less by (auto simp: table_map_def)
  have "(m(k := x)) k' = map_of (t[i := b] ! index_of hasher t k') k'" for k'
    using t i il b(1) by (cases "index_of hasher t k' = i") (auto simp: table_map_def)
  moreover have "distinct (map fst (t[i := b] ! j))" "\<forall>k' \<in> fst ` set (t[i := b] ! j). index_of hasher t k' = j"
    if "j < length t" for j
    using t i il b(2,3) that by (cases "j = i"; force simp: table_map_def)+
  ultimately show ?thesis using t unfolding table_map_def by simp
qed

lemma call_refines:
  assumes "table_map hasher t m"
  shows "\<exists>t'. call hasher t op = Some (fst (map_spec m op), t') \<and> table_map hasher t' (snd (map_spec m op))"
proof -
  have ne: "t \<noteq> []" and d: "distinct (map fst (t ! index_of hasher t k))" and m: "m k = map_of (t ! index_of hasher t k) k" for k
    using assms index_less [of t hasher k] by (auto simp: table_map_def)
  have g: "get_bucket hasher k t = Some (index_of hasher t k)" for k using ne by (simp add: get_bucket_def index_of_def)
  show ?thesis
  proof (cases op)
    case (Value_for k v)
    then show ?thesis using assms g by (simp add: value_for_def bucket_value m)
  next
    case (Add_or_update k v)
    then show ?thesis
      using g table_update [OF assms refl bucket_update(1) bucket_update(2) [OF d] bucket_update(3)]
      by (simp add: add_or_update_mapping_def)
  next
    case (Remove k)
    have "fst ` set (bucket_remove k (t ! index_of hasher t k)) \<subseteq> insert k (fst ` set (t ! index_of hasher t k))"
      using bucket_remove(3) [OF d, of k k] by blast
    then show ?thesis
      using Remove g table_update [OF assms refl bucket_remove(1) [OF d] bucket_remove(2) [OF d]]
      by (simp add: remove_mapping_def)
  qed
qed

lemma table_map_empty: "0 < n \<Longrightarrow> table_map hasher (threadsafe_lookup_table n) (\<lambda>_. None)"
  by (auto simp: table_map_def threadsafe_lookup_table_def index_of_def)

interpretation lt: simulates "\<lambda>_. True" "table_map hasher" "call hasher" map_spec for hasher
  by unfold_locales (rule call_refines)

section \<open>Properties\<close>

text \<open>C28: the lookup table is a map: any sequence of operations on a new table, of any number of
  buckets and for any hash function, returns the results of a finite map, and the table then
  stands for that map.  Without buckets no operation has a result.\<close>

theorem lookup_table_refines_map:
  assumes "0 < n"
  shows "(\<exists>t. run_calls (call hasher) (threadsafe_lookup_table n) ops =
      Some (fst (run_model map_spec (\<lambda>_. None) ops), t) \<and>
      table_map hasher t (snd (run_model map_spec (\<lambda>_. None) ops))) \<and>
    call hasher (threadsafe_lookup_table 0) op = None"
proof -
  have "list_all (\<lambda>_. True) ops" by (simp add: list_all_iff)
  moreover have "call hasher (threadsafe_lookup_table 0) op = None"
    by (cases op) (simp_all add: threadsafe_lookup_table_def value_for_def add_or_update_mapping_def
        remove_mapping_def get_bucket_def)
  ultimately show ?thesis using lt.all [OF table_map_empty [OF assms]] by blast
qed

lemma lookup_table_refines_map_witness:
  "\<exists>t. run_calls (call (\<lambda>k. word_of_nat (length k))) (threadsafe_lookup_table 19)
      [Add_or_update ''a'' 1, Add_or_update ''b'' 2, Remove ''a'', Value_for ''a'' 0, Value_for ''b'' (0 :: nat)] =
    Some ([None, None, None, Some 0, Some 2], t)"
  using lookup_table_refines_map [of 19 "\<lambda>k. word_of_nat (length k)"
      "[Add_or_update ''a'' 1, Add_or_update ''b'' 2, Remove ''a'', Value_for ''a'' 0, Value_for ''b'' (0 :: nat)]"]
  by auto

end
