(* ===== verification/Radix_Sort.thy ===== *)
theory Radix_Sort
  imports Prelude "HOL-Library.Signed_Division"
begin

text \<open>
  \<open>c++/algos/sort/radixSort.cpp\<close>: least-significant-digit radix sort with ten buckets.  A bucket is an
  array of \<open>length + 1\<close> cells, the first of which counts the others in use; a cell that \<open>malloc\<close> has
  not initialised is \<open>None\<close>, and so is the result of a call that reads one or goes outside an array.
  Division truncates, as in C.  \<open>int\<close> is unbounded, which is exact but for the last multiplication
  of \<open>log\<close>, whose value is not used.
\<close>

section \<open>Definitions\<close>

definition LEN :: int where "LEN = 10"

function digits :: "int \<Rightarrow> int" where
  "digits m = (if m \<noteq> 0 then 1 + digits (m sdiv 10) else 0)"
  by pat_completeness auto
termination
proof (relation "measure (\<lambda>m. nat \<bar>m\<bar>)")
  fix m :: int
  assume "m \<noteq> 0"
  then have "\<bar>m\<bar> div 10 < \<bar>m\<bar>" by simp
  then show "(m sdiv 10, m) \<in> measure (\<lambda>m. nat \<bar>m\<bar>)"
    by (auto simp: signed_divide_int_def abs_mult)
qed simp

declare digits.simps [simp del]

definition getPosCount :: "int list \<Rightarrow> int \<Rightarrow> int option" where
  "getPosCount a len = do {
     first \<leftarrow> rd a 0;
     m \<leftarrow> for_up 0 len (\<lambda>index m. do { x \<leftarrow> rd a index; Some (if m < x then x else m) }) first;
     Some (digits m) }"

type_synonym bucket = "int option list"

definition digit_of :: "int \<Rightarrow> int \<Rightarrow> int" where
  "digit_of log x = (x sdiv log) smod 10"

text \<open>\<open>tmp = ++tmpArray[d][0]; tmpArray[d][tmp] = x\<close>.\<close>

definition put_in_bucket :: "int \<Rightarrow> int \<Rightarrow> bucket list \<Rightarrow> bucket list option" where
  "put_in_bucket d x tmpArray = do {
     b \<leftarrow> rd tmpArray d;
     c \<leftarrow> rd b 0;
     count \<leftarrow> c;
     let tmp = count + 1;
     b1 \<leftarrow> wr b 0 (Some tmp);
     b2 \<leftarrow> wr b1 tmp (Some x);
     wr tmpArray d b2 }"

definition distribute :: "int list \<Rightarrow> int \<Rightarrow> int \<Rightarrow> bucket list \<Rightarrow> bucket list option" where
  "distribute a len log tmpArray =
     for_up 0 len (\<lambda>element t. do { x \<leftarrow> rd a element; put_in_bucket (digit_of log x) x t }) tmpArray"

definition collect_bucket :: "bucket \<Rightarrow> int list \<Rightarrow> int \<Rightarrow> (int list \<times> int) option" where
  "collect_bucket b a index = do {
     c \<leftarrow> rd b 0;
     count \<leftarrow> c;
     for_up 1 (count + 1) (\<lambda>elementNum (a, index). do {
       c \<leftarrow> rd b elementNum;
       x \<leftarrow> c;
       a' \<leftarrow> wr a index x;
       Some (a', index + 1) }) (a, index) }"

function collect :: "int \<Rightarrow> int \<Rightarrow> int \<Rightarrow> int list \<Rightarrow> bucket list \<Rightarrow> (int list \<times> bucket list) option" where
  "collect element index len a tmpArray =
     (if element < LEN \<and> index < len then do {
        b \<leftarrow> rd tmpArray element;
        (a', index') \<leftarrow> collect_bucket b a index;
        b' \<leftarrow> wr b 0 (Some 0);
        t' \<leftarrow> wr tmpArray element b';
        collect (element + 1) index' len a' t' }
      else Some (a, tmpArray))"
  by pat_completeness auto
termination by (relation "measure (\<lambda>(element, index, len, a, t). nat (LEN - element))") auto

declare collect.simps [simp del]

definition radixSort :: "int list \<Rightarrow> int \<Rightarrow> int list option" where
  "radixSort a len = do {
     let tmpArray = replicate (nat LEN) ((replicate (nat (len + 1)) None)[0 := Some 0]);
     posCount \<leftarrow> getPosCount a len;
     (a', t', log) \<leftarrow> for_up 0 posCount (\<lambda>pos (a, t, log). do {
       t1 \<leftarrow> distribute a len log t;
       (a', t2) \<leftarrow> collect 0 0 len a t1;
       Some (a', t2, log * 10) }) (a, tmpArray, 1);
     Some a' }"


section \<open>Decimal digits\<close>

lemma sdiv_nonneg [simp]: "0 \<le> x \<Longrightarrow> 0 \<le> y \<Longrightarrow> x sdiv y = x div y" for x y :: int
  by (auto simp: signed_divide_int_def sgn_if zdiv_eq_0_iff)

lemma smod_nonneg [simp]: "0 \<le> x \<Longrightarrow> 0 < y \<Longrightarrow> x smod y = x mod y" for x y :: int
  by (auto simp: signed_modulo_int_def sgn_if)

lemma digit_of_nonneg: "0 \<le> x \<Longrightarrow> 0 < l \<Longrightarrow> digit_of l x = x div l mod 10"
  by (simp add: digit_of_def pos_imp_zdiv_nonneg_iff)

lemma digits_nonneg: "0 \<le> digits m"
  by (induction m rule: digits.induct) (subst digits.simps, auto)

lemma digits_bound: "0 \<le> m \<Longrightarrow> m < 10 ^ nat (digits m)"
proof (induction m rule: digits.induct)
  case (1 m)
  show ?case
  proof (cases "m = 0")
    case True
    then show ?thesis by (simp add: digits.simps)
  next
    case False
    then have "m div 10 < 10 ^ nat (digits (m div 10))" using 1 by simp
    then have "m < 10 * 10 ^ nat (digits (m div 10))" by linarith
    then show ?thesis using False 1(2) digits_nonneg [of "m div 10"]
      by (subst digits.simps) (simp add: nat_add_distrib)
  qed
qed

lemma getPosCount_eq:
  assumes "a \<noteq> []" "n \<le> length a"
  shows "\<exists>m. getPosCount a (int n) = Some (digits m) \<and> (\<forall>x \<in> set (take n a). x \<le> m) \<and> m \<in> set a"
proof -
  let ?I = "\<lambda>i m. 0 \<le> i \<and> (\<forall>x \<in> set (take (nat i) a). x \<le> m) \<and> m \<in> set a"
  have "\<exists>m. for_up 0 (int n) (\<lambda>index m. do { x \<leftarrow> rd a index; Some (if m < x then x else m) }) (a ! 0)
      = Some m \<and> ?I (int n) m"
  proof (rule for_up_rule)
    fix i m assume i: "0 \<le> i" "i < int n" and I: "?I i m"
    have "take (nat (i + 1)) a = take (nat i) a @ [a ! nat i]"
      using i assms by (simp add: nat_add_distrib take_Suc_conv_app_nth)
    then show "\<exists>t. (do { x \<leftarrow> rd a i; Some (if m < x then x else m) }) = Some t \<and> ?I (i + 1) t"
      using i assms I by (auto simp: arr)
  qed (use assms in auto)
  then show ?thesis using assms by (auto simp: getPosCount_def rd_def)
qed

section \<open>Buckets\<close>

text \<open>The first cell counts the elements of a bucket, which follow it.\<close>

definition holds :: "nat \<Rightarrow> int list \<Rightarrow> bucket \<Rightarrow> bool" where
  "holds n ys b \<longleftrightarrow> length b = n + 1 \<and> length ys \<le> n \<and> b ! 0 = Some (int (length ys)) \<and>
     (\<forall>i < length ys. b ! Suc i = Some (ys ! i))"

definition buckets :: "nat \<Rightarrow> (nat \<Rightarrow> int list) \<Rightarrow> bucket list \<Rightarrow> bool" where
  "buckets n f t \<longleftrightarrow> length t = 10 \<and> (\<forall>d < 10. holds n (f d) (t ! d))"

lemma put_in_bucket_ok:
  assumes t: "buckets n f t" and d: "d < 10" and "length (f d) < n"
  shows "\<exists>t'. put_in_bucket (int d) x t = Some t' \<and> buckets n (f(d := f d @ [x])) t'"
proof -
  let ?b = "t ! d"
  let ?k = "length (f d)"
  let ?b' = "?b[0 := Some (int ?k + 1), Suc ?k := Some x]"
  have b: "length ?b = n + 1" "?b ! 0 = Some (int ?k)" "\<forall>i < ?k. ?b ! Suc i = Some (f d ! i)"
    using t d by (auto simp: buckets_def holds_def)
  have nat: "nat (int ?k + 1) = Suc ?k" by simp
  have ne: "?b \<noteq> []" using b(1) by auto
  have "holds n (f d @ [x]) ?b'"
    unfolding holds_def
  proof (intro conjI allI impI)
    fix i assume "i < length (f d @ [x])"
    then show "?b' ! Suc i = Some ((f d @ [x]) ! i)"
      using b assms(3) by (cases "i = ?k") (auto simp: nth_append)
  qed (use b assms(3) in auto)
  moreover have "put_in_bucket (int d) x t = Some (t[d := ?b'])"
    using t d b assms(3) ne by (simp add: put_in_bucket_def buckets_def rd_def wr_def Let_def nat)
  ultimately show ?thesis using t d by (auto simp: buckets_def nth_list_update)
qed

lemma distribute_ok:
  assumes t: "buckets n (\<lambda>_. []) t" and n: "n \<le> length a" and l: "0 < log"
    and pos: "\<forall>x \<in> set (take n a). 0 \<le> x"
  shows "\<exists>t'. distribute a (int n) log t = Some t' \<and>
    buckets n (\<lambda>d. filter (\<lambda>x. digit_of log x = int d) (take n a)) t'"
proof -
  let ?f = "\<lambda>i d. filter (\<lambda>x. digit_of log x = int d) (take (nat i) a)"
  have "\<exists>t'. distribute a (int n) log t = Some t' \<and> buckets n (?f (int n)) t'"
    unfolding distribute_def
  proof (rule for_up_rule)
    fix i t assume i: "0 \<le> i" "i < int n" and I: "buckets n (?f i) t"
    let ?x = "a ! nat i"
    have tk: "take (nat (i + 1)) a = take (nat i) a @ [?x]"
      using i n by (simp add: nat_add_distrib take_Suc_conv_app_nth)
    have "?x \<in> set (take n a)" using i n by (auto simp: in_set_conv_nth intro!: exI [of _ "nat i"])
    then obtain d where d: "digit_of log ?x = int d" "d < 10"
      using l pos by (auto simp: digit_of_nonneg intro!: that [of "nat (?x div log mod 10)"])
    have "length (?f i d) < n" using i n by (simp add: le_less_trans [OF length_filter_le])
    then obtain t' where t': "put_in_bucket (int d) ?x t = Some t'" "buckets n ((?f i)(d := ?f i d @ [?x])) t'"
      using put_in_bucket_ok [OF I d(2)] by blast
    moreover have "(?f i)(d := ?f i d @ [?x]) = ?f (i + 1)" using d by (auto simp: tk)
    ultimately show "\<exists>t'. (do { x \<leftarrow> rd a i; put_in_bucket (digit_of log x) x t }) = Some t' \<and>
        buckets n (?f (i + 1)) t'"
      using i n d by (simp add: arr)
  qed (use t in auto)
  then show ?thesis by simp
qed

lemma collect_bucket_ok:
  assumes "holds n ys b" "k + length ys \<le> length a"
  shows "collect_bucket b a (int k) = Some (take k a @ ys @ drop (k + length ys) a, int (k + length ys))"
proof -
  let ?r = "\<lambda>i. take k a @ take i ys @ drop (k + i) a"
  let ?body = "\<lambda>elementNum (a, index). do {
       c \<leftarrow> rd b elementNum; x \<leftarrow> c; a' \<leftarrow> wr a index x; Some (a', index + 1) }"
  let ?I = "\<lambda>i s. s = (?r (nat (i - 1)), int k + (i - 1))"
  have "\<exists>s. for_up 1 (int (length ys) + 1) ?body (a, int k) = Some s \<and> ?I (int (length ys) + 1) s"
  proof (rule for_up_rule)
    fix i s assume i: "1 \<le> i" "i < int (length ys) + 1" and I: "?I i s"
    define j where "j = nat (i - 1)"
    have j: "j < length ys" "i = int j + 1" using i by (auto simp: j_def)
    have b: "rd b i = Some (Some (ys ! j))"
      using assms j by (auto simp: holds_def rd_def nat_add_distrib)
        (metis Suc_leI assms(2) le_add2 less_imp_le_nat)?
    have "(?r j)[k + j := ys ! j] = ?r (Suc j)"
      using assms j by (simp add: list_update_append take_Suc_conv_app_nth)
        (subst Cons_nth_drop_Suc [symmetric], auto)
    then show "\<exists>t. ?body i s = Some t \<and> ?I (i + 1) t"
      using I j assms b by (simp add: wr_def nat_add_distrib)
  qed simp_all
  then show ?thesis using assms by (simp add: collect_bucket_def holds_def rd_def)
qed


lemma collect_ok:
  assumes "e \<le> 10" "buckets n f t" "\<forall>d < e. f d = []"
    "int n = index + int (length (concat (map f [e..<10])))" "0 \<le> index" "n \<le> length a"
  shows "\<exists>t'. collect (int e) index (int n) a t =
      Some (take (nat index) a @ concat (map f [e..<10]) @ drop n a, t') \<and> buckets n (\<lambda>_. []) t'"
  using assms
proof (induction "10 - e" arbitrary: e index a t f)
  case 0
  then have "e = 10" "int n = index" "nat index = n" by simp_all
  moreover have "buckets n (\<lambda>_. []) t" using 0 \<open>e = 10\<close> by (simp add: buckets_def)
  ultimately show ?case by (simp add: collect.simps LEN_def)
next
  case (Suc j)
  then have e: "e < 10" by simp
  have up: "[e..<10] = e # [Suc e..<10]" using e by (simp add: upt_conv_Cons)
  show ?case
  proof (cases "index < int n")
    case False
    then have nil: "concat (map f [e..<10]) = []" "int n = index" using Suc.prems by simp_all
    then have "f d = []" if "d < 10" for d using that Suc.prems(3) by (cases "d < e") auto
    then have "buckets n (\<lambda>_. []) t" using Suc.prems(2) by (simp add: buckets_def)
    moreover have "collect (int e) index (int n) a t = Some (a, t)" using nil by (simp add: collect.simps)
    moreover have "take (nat index) a @ concat (map f [e..<10]) @ drop n a = a"
      unfolding nil(1) nil(2) [symmetric] by simp
    ultimately show ?thesis by metis
  next
    case True
    define b where "b = t ! e"
    define k where "k = nat index"
    define a' where "a' = take k a @ f e @ drop (k + length (f e)) a"
    define t' where "t' = t[e := b[0 := Some 0]]"
    have k: "index = int k" using Suc.prems(5) by (simp add: k_def)
    have h: "holds n (f e) b" "length t = 10" using Suc.prems(2) e by (auto simp: buckets_def b_def)
    then have ne: "b \<noteq> []" by (auto simp: holds_def)
    have len: "k + length (f e) \<le> n" using Suc.prems(4) k by (simp add: up)
    have c: "collect_bucket b a index = Some (a', int (k + length (f e)))"
      unfolding k a'_def using h(1) len Suc.prems(6) by (intro collect_bucket_ok) simp_all
    have step: "collect (int e) index (int n) a t = collect (int (Suc e)) (int (k + length (f e))) (int n) a' t'"
      using True h e c ne by (subst collect.simps)
        (simp add: LEN_def rd_def wr_def b_def holds_def t'_def add.commute)
    have "buckets n (f(e := [])) t'"
      using Suc.prems(2) e by (auto simp: buckets_def t'_def b_def holds_def nth_list_update)
    moreover have "map (f(e := [])) [Suc e..<10] = map f [Suc e..<10]" by simp
    moreover have "\<forall>d < Suc e. (f(e := [])) d = []" using Suc.prems(3) by (simp add: less_Suc_eq)
    moreover have "length a' = length a" using len Suc.prems(6) by (simp add: a'_def)
    ultimately obtain t'' where IH: "collect (int (Suc e)) (int (k + length (f e))) (int n) a' t' =
        Some (take (k + length (f e)) a' @ concat (map f [Suc e..<10]) @ drop n a', t'')"
        "buckets n (\<lambda>_. []) t''"
      using Suc.hyps(1) [of "Suc e" "f(e := [])" t' "int (k + length (f e))" a'] Suc.hyps(2) Suc.prems k
      by (fastforce simp: up nat_add_distrib)
    have "take (k + length (f e)) a' = take k a @ f e" "drop n a' = drop n a"
      using len Suc.prems(6) by (simp_all add: a'_def)
    then show ?thesis using IH k unfolding step by (simp add: up nat_int)
  qed
qed

section \<open>Sortedness\<close>

definition by_digit :: "int \<Rightarrow> int list \<Rightarrow> int list" where
  "by_digit log xs = concat (map (\<lambda>d. filter (\<lambda>x. digit_of log x = int d) xs) [0..<10])"

lemma mset_concat_filter:
  "mset (concat (map (\<lambda>d. filter (\<lambda>x. g x = int d) xs) [0..<n])) =
   mset (filter (\<lambda>x. 0 \<le> g x \<and> g x < int n) xs)"
proof (induction n)
  case (Suc n)
  have "filter_mset (\<lambda>x. 0 \<le> g x \<and> g x < int (Suc n)) (mset xs) =
      filter_mset (\<lambda>x. 0 \<le> g x \<and> g x < int n) (mset xs) + filter_mset (\<lambda>x. g x = int n) (mset xs)"
    by (induction xs) auto
  then show ?case using Suc by simp
qed simp

lemma mset_by_digit:
  assumes "\<forall>x \<in> set xs. 0 \<le> x" "0 < log"
  shows "mset (by_digit log xs) = mset xs"
proof -
  have "filter (\<lambda>x. 0 \<le> digit_of log x \<and> digit_of log x < int 10) xs = xs"
    using assms by (auto simp: filter_id_conv digit_of_nonneg)
  then show ?thesis unfolding by_digit_def mset_concat_filter by simp
qed

lemma mod_digit: "0 \<le> x \<Longrightarrow> 0 < l \<Longrightarrow> x mod (l * 10) = l * digit_of l x + x mod l"
  by (simp add: digit_of_nonneg zmod_zmult2_eq)

lemma by_digit_sorted:
  assumes "sorted_wrt (\<lambda>x y. x mod l \<le> y mod l) xs" "\<forall>x \<in> set xs. 0 \<le> x" "0 < l"
  shows "sorted_wrt (\<lambda>x y. x mod (l * 10) \<le> y mod (l * 10)) (by_digit l xs)"
proof -
  let ?g = "\<lambda>d. filter (\<lambda>x. digit_of l x = int d) xs"
  let ?R = "\<lambda>x y. x mod (l * 10) \<le> y mod (l * 10)"
  have same: "sorted_wrt ?R (?g d)" for d
    using sorted_wrt_filter [OF assms(1)]
    by (rule sorted_wrt_mono_rel [rotated]) (use assms in \<open>auto simp: mod_digit\<close>)
  have less: "?R x y" if x: "x \<in> set xs" and y: "y \<in> set xs" and d: "digit_of l x < digit_of l y" for x y
  proof -
    have "l * (digit_of l x + 1) \<le> l * digit_of l y" using d assms(3) by (intro mult_left_mono) auto
    moreover have "x mod l < l" "0 \<le> y mod l" using assms(3) by auto
    ultimately have "l * digit_of l x + x mod l \<le> l * digit_of l y + y mod l"
      by (simp only: distrib_left mult_1_right)
    then show ?thesis using x y assms by (simp add: mod_digit)
  qed
  have "sorted_wrt ?R (concat (map ?g [0..<n]))" for n
    by (induction n) (auto simp: sorted_wrt_append same intro: less)
  then show ?thesis by (simp add: by_digit_def)
qed

lemma radix_pass:
  assumes "buckets n (\<lambda>_. []) t" "n \<le> length a" "\<forall>x \<in> set (take n a). 0 \<le> x" "0 < log"
  shows "\<exists>t2. (do { t1 \<leftarrow> distribute a (int n) log t; (a', t2) \<leftarrow> collect 0 0 (int n) a t1;
      Some (a', t2, log * 10) }) = Some (by_digit log (take n a) @ drop n a, t2, log * 10) \<and>
    buckets n (\<lambda>_. []) t2"
proof -
  let ?f = "\<lambda>d. filter (\<lambda>x. digit_of log x = int d) (take n a)"
  obtain t1 where t1: "distribute a (int n) log t = Some t1" "buckets n ?f t1"
    using distribute_ok [OF assms(1,2,4,3)] by blast
  have "length (by_digit log (take n a)) = n"
    using mset_by_digit [OF assms(3,4)] assms(2) by (metis length_take min_absorb2 size_mset)
  then have "int n = 0 + int (length (concat (map ?f [0..<10])))" by (simp add: by_digit_def)
  from collect_ok [OF _ t1(2) _ this _ assms(2)] t1 show ?thesis by (auto simp: by_digit_def)
qed



text \<open>Radix sort does not handle negative numbers.  When the largest element is not positive nothing is
  sorted, and a negative remainder in any pass is an access to a bucket that does not exist.\<close>

theorem radixSort_negative:
  "radixSort [0, -5] 2 = Some [0, -5]" "radixSort [10, -5] 2 = None" "radixSort [] 0 = None"
  by (simp_all add: radixSort_def getPosCount_def for_up.simps rd_def wr_def digits.simps
      signed_divide_int_def signed_modulo_int_def distribute_def put_in_bucket_def digit_of_def LEN_def Let_def
      numeral_eq_Suc)

end
