(* ===== verification/Graph.thy ===== *)
theory Graph
  imports Prelude
begin

text \<open>
  The adjacency-matrix graph of \<open>c++/algos/prim.cpp\<close>, which the other graph algorithms use as well, and
  walks in it.  The repository defines neither \<open>maxSize\<close> nor \<open>INF\<close>: the first is the length of the arrays
  that are passed, the second a parameter.  An addition that leaves the range of \<open>int\<close> is undefined in
  C++ and is \<open>None\<close>, as is an access outside an array.
\<close>

section \<open>Data\<close>

record VertexType =
  vertex_no :: int

record MGraph =
  edges :: "int list list"
  gn :: int
  ge :: int
  ver :: "VertexType list"

definition cadd :: "int \<Rightarrow> int \<Rightarrow> int option" where
  "cadd x y = (if - (2 ^ 31) \<le> x + y \<and> x + y < 2 ^ 31 then Some (x + y) else None)"

definition rd2 :: "'a list list \<Rightarrow> int \<Rightarrow> int \<Rightarrow> 'a option" where
  "rd2 m i j = do { r \<leftarrow> rd m i; rd r j }"

definition wr2 :: "'a list list \<Rightarrow> int \<Rightarrow> int \<Rightarrow> 'a \<Rightarrow> 'a list list option" where
  "wr2 m i j x = do { r \<leftarrow> rd m i; r' \<leftarrow> wr r j x; wr m i r' }"

text \<open>Reading a cell that may be uninitialised, which is \<open>None\<close>.\<close>

definition rd_init :: "'a option list \<Rightarrow> int \<Rightarrow> 'a option" where
  "rd_init a i = do { c \<leftarrow> rd a i; c }"

lemma cadd_in [arr]: "- (2 ^ 31) \<le> x + y \<Longrightarrow> x + y < 2 ^ 31 \<Longrightarrow> cadd x y = Some (x + y)"
  by (simp add: cadd_def)

section \<open>Matrices\<close>

text \<open>The upper left square of a matrix has the entries \<open>f i j\<close>.\<close>

definition mat :: "nat \<Rightarrow> 'a list list \<Rightarrow> (nat \<Rightarrow> nat \<Rightarrow> 'a) \<Rightarrow> bool" where
  "mat k m f \<longleftrightarrow> k \<le> length m \<and> (\<forall>i < k. k \<le> length (m ! i) \<and> (\<forall>j < k. m ! i ! j = f i j))"

definition square :: "nat \<Rightarrow> 'a list list \<Rightarrow> bool" where
  "square k m \<longleftrightarrow> k \<le> length m \<and> (\<forall>i < k. k \<le> length (m ! i))"

lemma square_mat: "square k m \<Longrightarrow> mat k m (\<lambda>i j. m ! i ! j)"
  by (simp add: square_def mat_def)

lemma mat_square: "mat k m f \<Longrightarrow> square k m"
  by (simp add: square_def mat_def)

lemma rd2_mat: "mat k m f \<Longrightarrow> i < k \<Longrightarrow> j < k \<Longrightarrow> rd2 m (int i) (int j) = Some (f i j)"
  by (auto simp: mat_def rd2_def rd_def)

lemma wr2_mat:
  assumes "mat k m f" "i < k" "j < k"
  shows "\<exists>m'. wr2 m (int i) (int j) x = Some m' \<and>
    mat k m' (\<lambda>i' j'. if (i', j') = (i, j) then x else f i' j')"
  using assms by (auto simp: mat_def wr2_def rd_def wr_def nth_list_update)

lemma mat_cong: "mat k m f \<Longrightarrow> (\<And>i j. i < k \<Longrightarrow> j < k \<Longrightarrow> f i j = g i j) \<Longrightarrow> mat k m g"
  by (simp add: mat_def)

lemma for_up_nat_rule:
  assumes "I 0 s" "\<And>i s. i < k \<Longrightarrow> I i s \<Longrightarrow> \<exists>t. body (int i) s = Some t \<and> I (Suc i) t"
  shows "\<exists>t. for_up 0 (int k) body s = Some t \<and> I k t"
proof -
  have "\<exists>t. for_up 0 (int k) body s = Some t \<and> I (nat (int k)) t"
  proof (rule for_up_rule)
    fix i s assume "0 \<le> i" "i < int k" "I (nat i) s"
    then show "\<exists>t. body i s = Some t \<and> I (nat (i + 1)) t"
      using assms(2) [of "nat i" s] by (simp add: nat_add_distrib zless_nat_eq_int_zless)
  qed (use assms(1) in auto)
  then show ?thesis by simp
qed

text \<open>Two nested loops over the cells of a square, for an invariant that depends on the cells done.\<close>

lemma for_cells_rule:
  assumes "R {} s"
    and body: "\<And>i j X s. i < k \<Longrightarrow> j < k \<Longrightarrow> (i, j) \<notin> X \<Longrightarrow> R X s \<Longrightarrow>
      \<exists>t. body (int i) (int j) s = Some t \<and> R (insert (i, j) X) t"
  shows "\<exists>t. for_up 0 (int k) (\<lambda>i. for_up 0 (int k) (body i)) s = Some t \<and> R ({..<k} \<times> {..<k}) t"
proof (rule for_up_nat_rule [where I = "\<lambda>i. R ({..<i} \<times> {..<k})"])
  show "R ({..<0} \<times> {..<k}) s" using assms(1) by simp
next
  fix i s assume i: "i < k" and R: "R ({..<i} \<times> {..<k}) s"
  let ?X = "\<lambda>j. {..<i} \<times> {..<k} \<union> {i} \<times> {..<j}"
  have "\<exists>t. for_up 0 (int k) (body (int i)) s = Some t \<and> R (?X k) t"
  proof (rule for_up_nat_rule [where I = "\<lambda>j. R (?X j)"])
    fix j s assume j: "j < k" and R: "R (?X j) s"
    have "?X (Suc j) = insert (i, j) (?X j)" by auto
    then show "\<exists>t. body (int i) (int j) s = Some t \<and> R (?X (Suc j)) t"
      using body [OF i j _ R] by auto
  qed (use R in simp)
  moreover have "?X k = {..<Suc i} \<times> {..<k}" by auto
  ultimately show "\<exists>t. for_up 0 (int k) (body (int i)) s = Some t \<and> R ({..<Suc i} \<times> {..<k}) t" by simp
qed

section \<open>Walks\<close>

text \<open>The length of the walk from \<open>i\<close> to \<open>j\<close> through the vertices \<open>vs\<close>.\<close>

fun wt :: "(nat \<Rightarrow> nat \<Rightarrow> int) \<Rightarrow> nat \<Rightarrow> nat list \<Rightarrow> nat \<Rightarrow> int" where
  "wt E i [] j = E i j"
| "wt E i (x # vs) j = E i x + wt E x vs j"

lemma wt_split [simp]: "wt E i (us @ x # vs) j = wt E i us x + wt E x vs j"
  by (induction us arbitrary: i) auto

definition least_walk :: "nat set \<Rightarrow> (nat \<Rightarrow> nat \<Rightarrow> int) \<Rightarrow> nat \<Rightarrow> nat \<Rightarrow> int \<Rightarrow> bool" where
  "least_walk V E i j d \<longleftrightarrow> (\<exists>vs. set vs \<subseteq> V \<and> wt E i vs j = d) \<and> (\<forall>vs. set vs \<subseteq> V \<longrightarrow> d \<le> wt E i vs j)"

lemma wt_nonneg:
  assumes "\<And>x y. x \<in> V \<Longrightarrow> y \<in> V \<Longrightarrow> 0 \<le> E x y" "i \<in> V" "set vs \<subseteq> V" "j \<in> V"
  shows "0 \<le> wt E i vs j"
  using assms(2-) by (induction vs arbitrary: i) (auto intro: assms(1) add_nonneg_nonneg)

text \<open>A potential bounds every walk from below, so that no cycle is negative.\<close>

lemma wt_potential:
  fixes p :: "nat \<Rightarrow> int"
  assumes "\<And>x y. x \<in> V \<Longrightarrow> y \<in> V \<Longrightarrow> p y - p x \<le> E x y" "i \<in> V" "set vs \<subseteq> V" "j \<in> V"
  shows "p j - p i \<le> wt E i vs j"
  using assms(2-)
proof (induction vs arbitrary: i)
  case Nil
  then show ?case using assms(1) by simp
next
  case (Cons x vs)
  show ?case using Cons.prems assms(1) [of i x] Cons.IH [of x] by simp
qed

end
