(* ===== verification/Floyd.thy ===== *)
theory Floyd
  imports Graph
begin

text \<open>
  \<open>c++/algos/Floyd.cpp\<close>: all shortest walks of a graph, computed in place, with the matrix that records
  the vertex through which each pair was last improved.
\<close>

section \<open>Definitions\<close>

definition floyd_init :: "MGraph \<Rightarrow> int \<Rightarrow> int \<Rightarrow> int list list \<times> int list list \<Rightarrow>
    (int list list \<times> int list list) option" where
  "floyd_init g i j = (\<lambda>(A, Path). do {
     x \<leftarrow> rd2 (edges g) i j;
     A' \<leftarrow> wr2 A i j x;
     Path' \<leftarrow> wr2 Path i j (- 1);
     Some (A', Path') })"

definition floyd_relax :: "int \<Rightarrow> int \<Rightarrow> int \<Rightarrow> int list list \<times> int list list \<Rightarrow>
    (int list list \<times> int list list) option" where
  "floyd_relax k i j = (\<lambda>(A, Path). do {
     x \<leftarrow> rd2 A i j;
     y \<leftarrow> rd2 A i k;
     z \<leftarrow> rd2 A k j;
     w \<leftarrow> cadd y z;
     if x > w then do {
       A' \<leftarrow> wr2 A i j w;
       Path' \<leftarrow> wr2 Path i j k;
       Some (A', Path') }
     else Some (A, Path) })"

definition Floyd :: "MGraph \<Rightarrow> int list list \<Rightarrow> int list list \<Rightarrow> (int list list \<times> int list list) option" where
  "Floyd g A Path = do {
     s \<leftarrow> for_up 0 (gn g) (\<lambda>i. for_up 0 (gn g) (\<lambda>j. floyd_init g i j)) (A, Path);
     for_up 0 (gn g) (\<lambda>k. for_up 0 (gn g) (\<lambda>i. for_up 0 (gn g) (\<lambda>j. floyd_relax k i j))) s }"

section \<open>The recurrence\<close>

fun fw :: "(nat \<Rightarrow> nat \<Rightarrow> int) \<Rightarrow> nat \<Rightarrow> nat \<Rightarrow> nat \<Rightarrow> int" where
  "fw E 0 i j = E i j"
| "fw E (Suc k) i j = min (fw E k i j) (fw E k i k + fw E k k j)"

fun via :: "(nat \<Rightarrow> nat \<Rightarrow> int) \<Rightarrow> nat \<Rightarrow> nat \<Rightarrow> nat \<Rightarrow> int" where
  "via E 0 i j = - 1"
| "via E (Suc k) i j = (if fw E k i j > fw E k i k + fw E k k j then int k else via E k i j)"

text \<open>The walk that the second matrix describes.\<close>

inductive follows :: "(nat \<Rightarrow> nat \<Rightarrow> int) \<Rightarrow> nat \<Rightarrow> nat \<Rightarrow> nat list \<Rightarrow> bool" for P where
  direct: "P i j = - 1 \<Longrightarrow> follows P i j []"
| through: "P i j = int k \<Longrightarrow> follows P i k us \<Longrightarrow> follows P k j vs \<Longrightarrow> follows P i j (us @ k # vs)"

definition no_negative_cycle :: "nat \<Rightarrow> (nat \<Rightarrow> nat \<Rightarrow> int) \<Rightarrow> bool" where
  "no_negative_cycle m E \<longleftrightarrow> (\<forall>i < m. \<forall>vs. set vs \<subseteq> {..<m} \<longrightarrow> 0 \<le> wt E i vs i)"

lemma fw_attained: "\<exists>vs. set vs \<subseteq> {..<k} \<and> wt E i vs j = fw E k i j"
proof (induction k arbitrary: i j)
  case 0
  show ?case by (rule exI [of _ "[]"]) simp
next
  case (Suc k)
  obtain us where us: "set us \<subseteq> {..<k}" "wt E i us k = fw E k i k" using Suc by blast
  obtain vs where vs: "set vs \<subseteq> {..<k}" "wt E k vs j = fw E k k j" using Suc by blast
  obtain ws where ws: "set ws \<subseteq> {..<k}" "wt E i ws j = fw E k i j" using Suc by blast
  show ?case
  proof (cases "fw E k i j \<le> fw E k i k + fw E k k j")
    case True
    then show ?thesis using ws by (auto intro!: exI [of _ ws])
  next
    case False
    then show ?thesis using us vs by (auto simp: subset_iff less_Suc_eq intro!: exI [of _ "us @ k # vs"])
  qed
qed

lemma fw_loop:
  assumes "no_negative_cycle m E" "k \<le> m" "i < m"
  shows "0 \<le> fw E k i i"
proof -
  obtain vs where "set vs \<subseteq> {..<k}" "wt E i vs i = fw E k i i" using fw_attained by blast
  then show ?thesis using assms by (force simp: no_negative_cycle_def)
qed

lemma fw_via_itself [simp]:
  assumes "no_negative_cycle m E" "k < m"
  shows "fw E (Suc k) i k = fw E k i k" "fw E (Suc k) k j = fw E k k j"
  using fw_loop [OF assms(1), of k k] assms(2) by auto

lemma fw_least:
  assumes "no_negative_cycle m E" "k \<le> m" "set vs \<subseteq> {..<k}"
  shows "fw E k i j \<le> wt E i vs j"
  using assms(2,3)
proof (induction k arbitrary: i j vs)
  case (Suc k)
  have k: "k < m" using Suc.prems by simp
  show ?case using Suc.prems(2)
  proof (induction vs arbitrary: i rule: length_induct)
    case (1 vs)
    show ?case
    proof (cases "k \<in> set vs")
      case False
      then have "set vs \<subseteq> {..<k}" using 1(2) by (force simp: less_Suc_eq)
      then have "fw E k i j \<le> wt E i vs j" using Suc.IH k by simp
      then show ?thesis by simp
    next
      case True
      then obtain us ws where vs: "vs = us @ k # ws" "k \<notin> set us" by (meson split_list_first)
      have "set us \<subseteq> {..<k}" using 1(2) vs by (force simp: less_Suc_eq)
      then have "fw E k i k \<le> wt E i us k" using Suc.IH k by simp
      moreover have "fw E (Suc k) k j \<le> wt E k ws j" using 1 vs by simp
      ultimately show ?thesis using vs fw_via_itself(2) [OF assms(1) k, of j] by simp
    qed
  qed
qed simp

lemma fw_triangle:
  assumes "no_negative_cycle m E" "k \<le> m" "l < k"
  shows "fw E k i j \<le> fw E k i l + fw E k l j"
proof -
  obtain us where us: "set us \<subseteq> {..<k}" "wt E i us l = fw E k i l" using fw_attained by blast
  obtain vs where vs: "set vs \<subseteq> {..<k}" "wt E l vs j = fw E k l j" using fw_attained by blast
  show ?thesis using fw_least [OF assms(1,2), of "us @ l # vs" i j] us vs assms(3) by simp
qed

text \<open>A pair that step \<open>k\<close> does not improve keeps the whole walk that was recorded for it.\<close>

lemma follows_unchanged:
  assumes E: "no_negative_cycle m E" "k < m"
  shows "follows (via E k) i j vs \<Longrightarrow> set vs \<subseteq> {..<k} \<Longrightarrow> wt E i vs j = fw E k i j \<Longrightarrow>
    fw E k i j \<le> fw E k i k + fw E k k j \<Longrightarrow> follows (via E (Suc k)) i j vs"
proof (induction rule: follows.induct)
  case (direct i j)
  then show ?case by (auto intro!: follows.direct)
next
  case (through i j l us vs)
  have l: "l < k" and sets: "set us \<subseteq> {..<k}" "set vs \<subseteq> {..<k}" using through.prems by auto
  have le: "fw E k i l \<le> wt E i us l" "fw E k l j \<le> wt E l vs j" "fw E k i j \<le> fw E k i l + fw E k l j"
    using fw_least [OF E(1)] fw_triangle [OF E(1) _ l] sets E(2) by simp_all
  then have eq: "wt E i us l = fw E k i l" "wt E l vs j = fw E k l j" using through.prems by simp_all
  have "fw E k k j \<le> fw E k k l + fw E k l j" "fw E k i k \<le> fw E k i l + fw E k l k"
    using fw_triangle [OF E(1) _ l] E(2) by simp_all
  then have "fw E k i l \<le> fw E k i k + fw E k k l" "fw E k l j \<le> fw E k l k + fw E k k j"
    using eq through.prems by simp_all
  then have "follows (via E (Suc k)) i l us" "follows (via E (Suc k)) l j vs"
    using through.IH sets eq by blast+
  moreover have "via E (Suc k) i j = int l" using through by simp
  ultimately show ?case by (intro follows.through)
qed

lemma follows_fw:
  assumes E: "no_negative_cycle m E" "k \<le> m"
  shows "\<exists>vs. follows (via E k) i j vs \<and> set vs \<subseteq> {..<k} \<and> wt E i vs j = fw E k i j"
  using E(2)
proof (induction k arbitrary: i j)
  case 0
  show ?case by (rule exI [of _ "[]"]) (simp add: follows.direct)
next
  case (Suc k)
  then have k: "k < m" by simp
  show ?case
  proof (cases "fw E k i j \<le> fw E k i k + fw E k k j")
    case True
    obtain vs where vs: "follows (via E k) i j vs" "set vs \<subseteq> {..<k}" "wt E i vs j = fw E k i j"
      using Suc.IH k by (meson less_imp_le)
    then have "follows (via E (Suc k)) i j vs" using follows_unchanged [OF E(1) k] True by blast
    moreover have "set vs \<subseteq> {..<Suc k}" "wt E i vs j = fw E (Suc k) i j"
      using vs True by (auto simp: subset_iff less_Suc_eq)
    ultimately show ?thesis by blast
  next
    case False
    have loop: "0 \<le> fw E k k k" using fw_loop [OF E(1)] k by simp
    obtain us where us: "follows (via E k) i k us" "set us \<subseteq> {..<k}" "wt E i us k = fw E k i k"
      using Suc.IH k by (meson less_imp_le)
    obtain vs where vs: "follows (via E k) k j vs" "set vs \<subseteq> {..<k}" "wt E k vs j = fw E k k j"
      using Suc.IH k by (meson less_imp_le)
    have "follows (via E (Suc k)) i k us" "follows (via E (Suc k)) k j vs"
      using follows_unchanged [OF E(1) k us] follows_unchanged [OF E(1) k vs] loop by linarith+
    moreover have "via E (Suc k) i j = int k" using False by simp
    ultimately have "follows (via E (Suc k)) i j (us @ k # vs)" by (intro follows.through)
    moreover have "set (us @ k # vs) \<subseteq> {..<Suc k}" "wt E i (us @ k # vs) j = fw E (Suc k) i j"
      using us vs False by (auto simp: subset_iff less_Suc_eq)
    ultimately show ?thesis by blast
  qed
qed

section \<open>The loops\<close>

lemma follows_cong:
  assumes "\<And>i j. i < m \<Longrightarrow> j < m \<Longrightarrow> P i j = Q i j"
  shows "follows P i j vs \<Longrightarrow> i < m \<Longrightarrow> j < m \<Longrightarrow> set vs \<subseteq> {..<m} \<Longrightarrow> follows Q i j vs"
proof (induction rule: follows.induct)
  case (direct i j)
  then show ?case using assms by (auto intro: follows.direct)
next
  case (through i j k us vs)
  have "follows Q i k us" "follows Q k j vs" using through by simp_all
  moreover have "Q i j = int k" using assms [of i j] through by simp
  ultimately show ?case by (intro follows.through)
qed

definition fw_range :: "nat \<Rightarrow> (nat \<Rightarrow> nat \<Rightarrow> int) \<Rightarrow> (nat \<Rightarrow> int) \<Rightarrow> bool" where
  "fw_range m E p \<longleftrightarrow> (\<forall>i < m. 0 \<le> p i \<and> p i \<le> 2 ^ 30) \<and>
     (\<forall>i < m. \<forall>j < m. p j - p i \<le> E i j \<and> E i j < 2 ^ 30)"

lemma fw_range_cycle:
  assumes "fw_range m E p"
  shows "no_negative_cycle m E"
  unfolding no_negative_cycle_def
proof (intro allI impI)
  fix i vs assume "i < m" "set vs \<subseteq> {..<m}"
  then have "p i - p i \<le> wt E i vs i"
    using assms by (intro wt_potential [of "{..<m}"]) (auto simp: fw_range_def)
  then show "0 \<le> wt E i vs i" by simp
qed

lemma fw_le_edge: "fw E k i j \<le> E i j"
  by (induction k) auto

lemma fw_bounds:
  assumes "fw_range m E p" "k \<le> m" "i < m" "j < m"
  shows "- (2 ^ 30) \<le> fw E k i j" "fw E k i j < 2 ^ 30"
proof -
  obtain vs where vs: "set vs \<subseteq> {..<k}" "wt E i vs j = fw E k i j" using fw_attained by blast
  then have "p j - p i \<le> wt E i vs j"
    using assms by (intro wt_potential [of "{..<m}"]) (auto simp: fw_range_def)
  moreover have "0 \<le> p j" "p i \<le> 2 ^ 30" using assms by (auto simp: fw_range_def)
  ultimately show "- (2 ^ 30) \<le> fw E k i j" using vs by simp
  have "E i j < 2 ^ 30" using assms by (auto simp: fw_range_def)
  then show "fw E k i j < 2 ^ 30" using fw_le_edge [of E k i j] by simp
qed

definition fw_state :: "nat \<Rightarrow> (nat \<Rightarrow> nat \<Rightarrow> int) \<Rightarrow> nat \<Rightarrow> (nat \<times> nat) set \<Rightarrow>
    int list list \<times> int list list \<Rightarrow> bool" where
  "fw_state m E k X s \<longleftrightarrow>
     mat m (fst s) (\<lambda>i j. if (i, j) \<in> X then fw E (Suc k) i j else fw E k i j) \<and>
     mat m (snd s) (\<lambda>i j. if (i, j) \<in> X then via E (Suc k) i j else via E k i j)"

lemma floyd_relax_ok:
  assumes E: "fw_range m E p" and k: "k < m" and i: "i < m" and j: "j < m" and X: "(i, j) \<notin> X"
    and s: "fw_state m E k X s"
  shows "\<exists>t. floyd_relax (int k) (int i) (int j) s = Some t \<and> fw_state m E k (insert (i, j) X) t"
proof -
  obtain A P where [simp]: "s = (A, P)" by fastforce
  let ?f = "\<lambda>X i j. if (i, j) \<in> X then fw E (Suc k) i j else fw E k i j"
  let ?g = "\<lambda>X i j. if (i, j) \<in> X then via E (Suc k) i j else via E k i j"
  let ?w = "fw E k i k + fw E k k j"
  have A: "mat m A (?f X)" and P: "mat m P (?g X)" using s by (simp_all add: fw_state_def)
  note fix_k = fw_via_itself [OF fw_range_cycle [OF E] k]
  have "rd2 A (int i) (int k) = Some (fw E k i k)" "rd2 A (int k) (int j) = Some (fw E k k j)"
    "rd2 A (int i) (int j) = Some (fw E k i j)"
    using rd2_mat [OF A] i j k X fix_k by (simp_all del: fw.simps)
  moreover have "cadd (fw E k i k) (fw E k k j) = Some ?w"
    using fw_bounds [OF E _ i k, of k] fw_bounds [OF E _ k j, of k] k by (intro cadd_in) auto
  ultimately have run: "floyd_relax (int k) (int i) (int j) s = (if fw E k i j > ?w then do {
       A' \<leftarrow> wr2 A (int i) (int j) ?w; P' \<leftarrow> wr2 P (int i) (int j) (int k); Some (A', P') }
     else Some (A, P))"
    by (simp add: floyd_relax_def)
  show ?thesis
  proof (cases "fw E k i j > ?w")
    case True
    then have new: "fw E (Suc k) i j = ?w" "via E (Suc k) i j = int k" by auto
    obtain A' where A': "wr2 A (int i) (int j) ?w = Some A'"
        "mat m A' (\<lambda>i' j'. if (i', j') = (i, j) then ?w else ?f X i' j')"
      using wr2_mat [OF A i j] by blast
    obtain P' where P': "wr2 P (int i) (int j) (int k) = Some P'"
        "mat m P' (\<lambda>i' j'. if (i', j') = (i, j) then int k else ?g X i' j')"
      using wr2_mat [OF P i j] by blast
    have "mat m A' (?f (insert (i, j) X))" "mat m P' (?g (insert (i, j) X))"
      using mat_cong [OF A'(2)] mat_cong [OF P'(2)] new by (simp_all del: fw.simps via.simps)
    then show ?thesis using True run A' P' by (simp add: fw_state_def del: fw.simps via.simps)
  next
    case False
    then have "fw E (Suc k) i j = fw E k i j" "via E (Suc k) i j = via E k i j" by auto
    then have "?f (insert (i, j) X) = ?f X" "?g (insert (i, j) X) = ?g X"
      by (auto simp: fun_eq_iff simp del: fw.simps via.simps)
    then show ?thesis using False run A P by (simp add: fw_state_def del: fw.simps via.simps)
  qed
qed

lemma floyd_init_ok:
  assumes g: "square m (edges g)" and s: "square m (fst s)" "square m (snd s)"
  shows "\<exists>t. for_up 0 (int m) (\<lambda>i. for_up 0 (int m) (\<lambda>j. floyd_init g i j)) s = Some t \<and>
    mat m (fst t) (\<lambda>i j. edges g ! i ! j) \<and> mat m (snd t) (\<lambda>i j. - 1)"
proof -
  let ?E = "\<lambda>i j. edges g ! i ! j"
  let ?R = "\<lambda>X s. mat m (fst s) (\<lambda>i j. if (i, j) \<in> X then ?E i j else fst s ! i ! j) \<and>
    mat m (snd s) (\<lambda>i j. if (i, j) \<in> X then - (1 :: int) else snd s ! i ! j)"
  have "\<exists>t. for_up 0 (int m) (\<lambda>i. for_up 0 (int m) (\<lambda>j. floyd_init g i j)) s = Some t \<and>
      ?R ({..<m} \<times> {..<m}) t"
  proof (rule for_cells_rule [where R = ?R])
    fix i j X s assume ij: "i < m" "j < m" "(i, j) \<notin> X" and R: "?R X s"
    obtain A P where sAP [simp]: "s = (A, P)" by fastforce
    have A: "mat m A (\<lambda>i j. if (i, j) \<in> X then ?E i j else A ! i ! j)"
      and P: "mat m P (\<lambda>i j. if (i, j) \<in> X then - 1 else P ! i ! j)"
      using R unfolding sAP fst_conv snd_conv by blast+
    obtain A' where A': "wr2 A (int i) (int j) (?E i j) = Some A'"
        "mat m A' (\<lambda>i' j'. if (i', j') = (i, j) then ?E i j else if (i', j') \<in> X then ?E i' j' else A ! i' ! j')"
      using wr2_mat [OF A ij(1,2), of "?E i j"] by blast
    obtain P' where P': "wr2 P (int i) (int j) (- 1) = Some P'"
        "mat m P' (\<lambda>i' j'. if (i', j') = (i, j) then - 1 else if (i', j') \<in> X then - 1 else P ! i' ! j')"
      using wr2_mat [OF P ij(1,2), of "- 1"] by blast
    have "floyd_init g (int i) (int j) s = Some (A', P')"
      using A' P' rd2_mat [OF square_mat [OF g] ij(1,2)] by (simp add: floyd_init_def)
    moreover have "?R (insert (i, j) X) (A', P')" using A'(2) P'(2) by (auto simp: mat_def)
    ultimately show "\<exists>t. floyd_init g (int i) (int j) s = Some t \<and> ?R (insert (i, j) X) t" by blast
  qed (use s in \<open>simp add: square_mat\<close>)
  then show ?thesis by (auto simp: mat_def)
qed

text \<open>C13: Floyd's algorithm on a graph of \<open>m\<close> vertices that has no negative cycle, which a potential \<open>p\<close> shows,
  returns without overflow and without an access outside an array; then each \<open>A[i][j]\<close> is the length of a
  shortest walk of at least one edge, and following \<open>Path\<close> gives such a walk.\<close>

theorem Floyd_correct:
  fixes g :: MGraph and m :: nat and p :: "nat \<Rightarrow> int"
  defines "E \<equiv> \<lambda>i j. edges g ! i ! j"
  assumes "gn g = int m" "square m (edges g)" "square m A" "square m Path" "fw_range m E p"
  shows "\<exists>A' Path'. Floyd g A Path = Some (A', Path') \<and>
    (\<forall>i < m. \<forall>j < m. least_walk {..<m} E i j (A' ! i ! j) \<and>
      (\<exists>vs. follows (\<lambda>i j. Path' ! i ! j) i j vs \<and> set vs \<subseteq> {..<m} \<and> wt E i vs j = A' ! i ! j))"
proof -
  obtain s where s: "for_up 0 (int m) (\<lambda>i. for_up 0 (int m) (\<lambda>j. floyd_init g i j)) (A, Path) = Some s"
      "mat m (fst s) E" "mat m (snd s) (\<lambda>i j. - 1)"
    using floyd_init_ok [of m g "(A, Path)"] assms by auto
  let ?I = "\<lambda>k s. mat m (fst s) (fw E k) \<and> mat m (snd s) (via E k)"
  have "\<exists>t. for_up 0 (int m) (\<lambda>k. for_up 0 (int m) (\<lambda>i. for_up 0 (int m) (\<lambda>j. floyd_relax k i j))) s
      = Some t \<and> ?I m t"
  proof (rule for_up_nat_rule [where I = ?I])
    show "?I 0 s" using s by (auto simp: mat_def)
  next
    fix k s assume k: "k < m" and I: "?I k s"
    have "\<exists>t. for_up 0 (int m) (\<lambda>i. for_up 0 (int m) (floyd_relax (int k) i)) s = Some t \<and>
        fw_state m E k ({..<m} \<times> {..<m}) t"
      using floyd_relax_ok [OF assms(6) k] I
      by (intro for_cells_rule [where R = "fw_state m E k"]) (simp_all add: fw_state_def)
    then show "\<exists>t. for_up 0 (int m) (\<lambda>i. for_up 0 (int m) (\<lambda>j. floyd_relax (int k) i j)) s = Some t \<and>
        ?I (Suc k) t"
      by (auto simp: fw_state_def mat_def)
  qed
  then obtain A' P' where r: "Floyd g A Path = Some (A', P')" "mat m A' (fw E m)" "mat m P' (via E m)"
    using s assms(2) by (auto simp: Floyd_def)
  note E = fw_range_cycle [OF assms(6)]
  have "least_walk {..<m} E i j (A' ! i ! j)" "\<exists>vs. follows (\<lambda>i j. P' ! i ! j) i j vs \<and>
      set vs \<subseteq> {..<m} \<and> wt E i vs j = A' ! i ! j" if ij: "i < m" "j < m" for i j
  proof -
    have eq: "A' ! i ! j = fw E m i j" using r(2) ij by (simp add: mat_def)
    show "least_walk {..<m} E i j (A' ! i ! j)"
      unfolding eq least_walk_def using fw_attained [of m E i j] fw_least [OF E, of m _ i j] by blast
    obtain vs where vs: "follows (via E m) i j vs" "set vs \<subseteq> {..<m}" "wt E i vs j = fw E m i j"
      using follows_fw [OF E] by blast
    moreover have "follows (\<lambda>i j. P' ! i ! j) i j vs"
      using r(3) ij vs by (intro follows_cong [OF _ vs(1), of m]) (simp_all add: mat_def)
    ultimately show "\<exists>vs. follows (\<lambda>i j. P' ! i ! j) i j vs \<and> set vs \<subseteq> {..<m} \<and> wt E i vs j = A' ! i ! j"
      unfolding eq by blast
  qed
  then show ?thesis using r(1) by blast
qed

definition three_cities :: MGraph where
  "three_cities = \<lparr>edges = [[0, 4, 7], [100, 0, 2], [100, -1, 0]], gn = 3, ge = 0, ver = []\<rparr>"

lemma Floyd_correct_witness:
  "\<exists>A' Path'. Floyd three_cities (replicate 3 [9, 9, 9]) (replicate 3 [9, 9, 9]) = Some (A', Path') \<and>
    (\<forall>i < 3. \<forall>j < 3. least_walk {..<3} (\<lambda>i j. edges three_cities ! i ! j) i j (A' ! i ! j) \<and>
      (\<exists>vs. follows (\<lambda>i j. Path' ! i ! j) i j vs \<and> set vs \<subseteq> {..<3} \<and>
        wt (\<lambda>i j. edges three_cities ! i ! j) i vs j = A' ! i ! j))"
proof (rule Floyd_correct [where p = "\<lambda>i. [0, 1, 2] ! i"])
  show "fw_range 3 (\<lambda>i j. edges three_cities ! i ! j) (\<lambda>i. [0, 1, 2] ! i)"
    by (auto simp: fw_range_def three_cities_def numeral_eq_Suc less_Suc_eq)
qed (auto simp: three_cities_def square_def numeral_eq_Suc less_Suc_eq)

end
