(* ===== verification/Dijkstra.thy ===== *)
theory Dijkstra
  imports Graph
begin

text \<open>
  \<open>c++/algos/Dijkstra.cpp\<close>: shortest walks from one vertex of a graph whose vertices are numbered from 1.
  The local array \<open>set\<close> and the variable \<open>u\<close> are not initialised: their contents are \<open>None\<close> until they
  are assigned, and so is the result of a call that reads them before.  \<open>INF\<close> is the parameter \<open>INF'\<close>.
\<close>

section \<open>Definitions\<close>

definition dijkstra_init :: "MGraph \<Rightarrow> int \<Rightarrow> int \<Rightarrow> int \<Rightarrow> int list \<times> int option list \<times> int list \<Rightarrow>
    (int list \<times> int option list \<times> int list) option" where
  "dijkstra_init g v INF' i = (\<lambda>(dist, set', path). do {
     w \<leftarrow> rd2 (edges g) v i;
     dist' \<leftarrow> wr dist i w;
     set'' \<leftarrow> wr set' i (Some 0);
     path' \<leftarrow> wr path i (if w < INF' then v else - 1);
     Some (dist', set'', path') })"

definition dijkstra_min :: "int list \<Rightarrow> int option list \<Rightarrow> int \<Rightarrow> int \<times> int option \<Rightarrow> (int \<times> int option) option" where
  "dijkstra_min dist set' j = (\<lambda>(mn, u). do {
     s \<leftarrow> rd_init set' j;
     if s = 0 then do {
       d \<leftarrow> rd dist j;
       Some (if d < mn then (d, Some j) else (mn, u)) }
     else Some (mn, u) })"

definition dijkstra_relax :: "MGraph \<Rightarrow> int \<Rightarrow> int option list \<Rightarrow> int \<Rightarrow> int list \<times> int list \<Rightarrow>
    (int list \<times> int list) option" where
  "dijkstra_relax g u set' j = (\<lambda>(dist, path). do {
     s \<leftarrow> rd_init set' j;
     if s = 0 then do {
       d \<leftarrow> rd dist u;
       w \<leftarrow> rd2 (edges g) u j;
       x \<leftarrow> cadd d w;
       dj \<leftarrow> rd dist j;
       if x < dj then do {
         dist' \<leftarrow> wr dist j x;
         path' \<leftarrow> wr path j u;
         Some (dist', path') }
       else Some (dist, path) }
     else Some (dist, path) })"

definition dijkstra_round :: "MGraph \<Rightarrow> int \<Rightarrow> int list \<times> int option list \<times> int list \<times> int option \<Rightarrow>
    (int list \<times> int option list \<times> int list \<times> int option) option" where
  "dijkstra_round g INF' = (\<lambda>(dist, set', path, u0). do {
     (mn, u) \<leftarrow> for_up 1 (gn g + 1) (dijkstra_min dist set') (INF', u0);
     c \<leftarrow> u;
     set'' \<leftarrow> wr set' c (Some 1);
     (dist', path') \<leftarrow> for_up 1 (gn g + 1) (dijkstra_relax g c set'') (dist, path);
     Some (dist', set'', path', u) })"

definition Dijkstra :: "nat \<Rightarrow> int \<Rightarrow> MGraph \<Rightarrow> int \<Rightarrow> int list \<Rightarrow> int list \<Rightarrow> (int list \<times> int list) option" where
  "Dijkstra maxSize INF' g v dist path = do {
     (dist1, set1, path1) \<leftarrow>
       for_up 1 (gn g + 1) (dijkstra_init g v INF') (dist, replicate maxSize None, path);
     set2 \<leftarrow> wr set1 v (Some 1);
     path2 \<leftarrow> wr path1 v (- 1);
     (dist3, set3, path3, u) \<leftarrow> for_up 1 (gn g + 1) (\<lambda>i. dijkstra_round g INF') (dist1, set2, path2, None);
     Some (dist3, path3) }"

section \<open>The abstract step\<close>

text \<open>\<open>leads P v j vs\<close>: going back from \<open>j\<close> along \<open>P\<close> passes through \<open>vs\<close>, last first, and ends at \<open>v\<close>.\<close>

inductive leads :: "(nat \<Rightarrow> int) \<Rightarrow> nat \<Rightarrow> nat \<Rightarrow> nat list \<Rightarrow> bool" for P v where
  first: "P j = int v \<Longrightarrow> leads P v j []"
| later: "P j = int x \<Longrightarrow> x \<noteq> v \<Longrightarrow> leads P v x vs \<Longrightarrow> leads P v j (vs @ [x])"

lemma leads_cong:
  "leads P v j vs \<Longrightarrow> (\<And>x. x \<in> insert j (set vs) \<Longrightarrow> P x = Q x) \<Longrightarrow> leads Q v j vs"
proof (induction rule: leads.induct)
  case (first j)
  then show ?case by (auto intro: leads.first)
next
  case (later j x vs)
  have "leads Q v x vs" using later by simp
  then show ?case using later by (intro leads.later) auto
qed

definition dj_inv :: "nat \<Rightarrow> (nat \<Rightarrow> nat \<Rightarrow> int) \<Rightarrow> int \<Rightarrow> nat \<Rightarrow> (nat \<Rightarrow> int) \<Rightarrow> nat set \<Rightarrow> (nat \<Rightarrow> int) \<Rightarrow> bool" where
  "dj_inv k E INF' v D S P \<longleftrightarrow> v \<in> S \<and> S \<subseteq> {1..k} \<and>
     (\<forall>j \<in> {1..k}. 0 \<le> D j \<and> D j \<le> INF') \<and>
     (\<forall>j \<in> S - {v}. D j < INF' \<and> (\<forall>vs. set vs \<subseteq> {1..k} \<longrightarrow> D j \<le> wt E v vs j)) \<and>
     (\<forall>j \<in> {1..k} - {v}. D j \<le> E v j \<and> (\<forall>x \<in> S - {v}. D j \<le> D x + E x j)) \<and>
     (\<forall>j \<in> {1..k} - {v}. \<exists>vs. set vs \<subseteq> S \<and> wt E v vs j = D j \<and> (D j < INF' \<longrightarrow> leads P v j vs)) \<and>
     (\<forall>j \<in> {1..k} - {v}. D j = INF' \<longrightarrow> P j = - 1) \<and> P v = - 1"

lemma dj_invD:
  assumes "dj_inv k E INF' v D S P"
  shows "v \<in> S" "S \<subseteq> {1..k}"
    and "j \<in> {1..k} \<Longrightarrow> 0 \<le> D j" and "j \<in> {1..k} \<Longrightarrow> D j \<le> INF'"
    and "j \<in> S - {v} \<Longrightarrow> D j < INF'" and "j \<in> S - {v} \<Longrightarrow> set vs \<subseteq> {1..k} \<Longrightarrow> D j \<le> wt E v vs j"
    and "j \<in> {1..k} - {v} \<Longrightarrow> D j \<le> E v j"
    and "j \<in> {1..k} - {v} \<Longrightarrow> x \<in> S - {v} \<Longrightarrow> D j \<le> D x + E x j"
    and "j \<in> {1..k} - {v} \<Longrightarrow> D j = INF' \<Longrightarrow> P j = - 1" and "P v = - 1"
  using assms unfolding dj_inv_def by blast+

lemma dj_inv_walk:
  assumes "dj_inv k E INF' v D S P" "j \<in> {1..k} - {v}"
  obtains vs where "set vs \<subseteq> S" "wt E v vs j = D j" "D j < INF' \<Longrightarrow> leads P v j vs"
proof -
  have "\<forall>j \<in> {1..k} - {v}. \<exists>vs. set vs \<subseteq> S \<and> wt E v vs j = D j \<and> (D j < INF' \<longrightarrow> leads P v j vs)"
    using assms(1) unfolding dj_inv_def by (elim conjE)
  then show thesis using assms(2) that by blast
qed

definition weights_ok :: "nat \<Rightarrow> (nat \<Rightarrow> nat \<Rightarrow> int) \<Rightarrow> int \<Rightarrow> bool" where
  "weights_ok k E INF' \<longleftrightarrow> INF' \<le> 2 ^ 30 \<and> (\<forall>i \<in> {1..k}. \<forall>j \<in> {1..k}. 0 \<le> E i j \<and> E i j \<le> INF')"

lemma weights_okD:
  "weights_ok k E INF' \<Longrightarrow> i \<in> {1..k} \<Longrightarrow> j \<in> {1..k} \<Longrightarrow> 0 \<le> E i j"
  "weights_ok k E INF' \<Longrightarrow> i \<in> {1..k} \<Longrightarrow> j \<in> {1..k} \<Longrightarrow> E i j \<le> INF'"
  by (auto simp: weights_ok_def)

lemma wt_ok: "weights_ok k E INF' \<Longrightarrow> i \<in> {1..k} \<Longrightarrow> set vs \<subseteq> {1..k} \<Longrightarrow> j \<in> {1..k} \<Longrightarrow> 0 \<le> wt E i vs j"
  by (rule wt_nonneg [where V = "{1..k}"]) (auto simp: weights_ok_def)

text \<open>A walk that leaves the finished vertices has a first vertex outside, whose distance it exceeds.\<close>

lemma leaving_walk:
  assumes inv: "dj_inv k E INF' v D S P" and w: "weights_ok k E INF'" and j: "j \<in> {1..k} - S"
  shows "i \<in> S \<Longrightarrow> set vs \<subseteq> {1..k} \<Longrightarrow>
    \<exists>y \<in> {1..k} - S. D y \<le> (if i = v then 0 else D i) + wt E i vs j"
proof (induction vs arbitrary: i)
  case Nil
  have "D j \<le> (if i = v then 0 else D i) + E i j"
    using dj_invD(1) [OF inv] dj_invD(7,8) [OF inv, of j] j Nil by auto
  then show ?case using j by (auto intro!: bexI [of _ j])
next
  case (Cons x vs)
  let ?b = "\<lambda>i. if i = v then 0 else D i"
  have i: "i \<in> {1..k}" "x \<in> {1..k}" "set vs \<subseteq> {1..k}" using dj_invD(2) [OF inv] Cons.prems by auto
  have "0 \<le> D i" using dj_invD(3) [OF inv i(1)] .
  then have edge: "?b x \<le> ?b i + E i x"
    using dj_invD(7,8) [OF inv, of x] Cons.prems(1) i weights_okD [OF w i(1,2)] by auto
  show ?case
  proof (cases "x \<in> S")
    case True
    then obtain y where "y \<in> {1..k} - S" "D y \<le> ?b x + wt E x vs j" using Cons.IH i(3) by blast
    then show ?thesis using edge by (intro bexI [of _ y]) auto
  next
    case False
    then have "x \<noteq> v" using dj_invD(1) [OF inv] by auto
    moreover have "0 \<le> wt E x vs j" using wt_ok [OF w i(2,3)] j by blast
    ultimately show ?thesis using edge i False by (intro bexI [of _ x]) auto
  qed
qed

definition relaxed :: "(nat \<Rightarrow> nat \<Rightarrow> int) \<Rightarrow> nat set \<Rightarrow> nat \<Rightarrow> (nat \<Rightarrow> int) \<Rightarrow> nat \<Rightarrow> int" where
  "relaxed E S c D j = (if j \<notin> S \<and> D c + E c j < D j then D c + E c j else D j)"

definition redirected :: "(nat \<Rightarrow> nat \<Rightarrow> int) \<Rightarrow> nat set \<Rightarrow> nat \<Rightarrow> (nat \<Rightarrow> int) \<Rightarrow> (nat \<Rightarrow> int) \<Rightarrow> nat \<Rightarrow> int" where
  "redirected E S c D P j = (if j \<notin> S \<and> D c + E c j < D j then int c else P j)"

definition nearest :: "nat \<Rightarrow> int \<Rightarrow> (nat \<Rightarrow> int) \<Rightarrow> nat set \<Rightarrow> nat \<Rightarrow> bool" where
  "nearest k INF' D S c \<longleftrightarrow> c \<in> {1..k} - S \<and> D c < INF' \<and> (\<forall>j \<in> {1..k} - S. D c \<le> D j)"

lemma nearest_exact:
  assumes inv: "dj_inv k E INF' v D S P" and w: "weights_ok k E INF'" and c: "nearest k INF' D S c"
    and vs: "set vs \<subseteq> {1..k}"
  shows "D c \<le> wt E v vs c"
proof -
  have "c \<in> {1..k} - S" "v \<in> S" using c dj_invD(1) [OF inv] by (auto simp: nearest_def)
  then obtain y where "y \<in> {1..k} - S" "D y \<le> wt E v vs c" using leaving_walk [OF inv w _ _ vs] by force
  then show ?thesis using c by (force simp: nearest_def)
qed

lemma dj_inv_relax:
  assumes inv: "dj_inv k E INF' v D S P" and w: "weights_ok k E INF'" and c: "nearest k INF' D S c"
  defines "S' \<equiv> insert c S"
  shows "dj_inv k E INF' v (relaxed E S' c D) S' (redirected E S' c D P)"
proof -
  let ?D = "relaxed E S' c D" and ?P = "redirected E S' c D P"
  have cV: "c \<in> {1..k}" "c \<noteq> v" "c \<notin> S" "D c < INF'" "v \<in> S" "S \<subseteq> {1..k}" "v \<in> {1..k}"
    using c dj_invD(1,2) [OF inv] by (auto simp: nearest_def)
  then have cj: "c \<in> {1..k} - {v}" by blast
  note D = dj_invD(3,4) [OF inv]
  have same: "?D j = D j" "?P j = P j" if "j \<in> S'" for j
    using that by (simp_all add: relaxed_def redirected_def)
  have le: "?D j \<le> D j" for j by (simp add: relaxed_def)
  note old = dj_invD(7,8) [OF inv]
  obtain vc where vc: "set vc \<subseteq> S" "wt E v vc c = D c" "leads P v c vc"
    using dj_inv_walk [OF inv cj] cV(4) by metis
  have exact: "D j < INF' \<and> (\<forall>vs. set vs \<subseteq> {1..k} \<longrightarrow> D j \<le> wt E v vs j)" if "j \<in> S' - {v}" for j
  proof (cases "j = c")
    case True
    then show ?thesis using cV(4) nearest_exact [OF inv w c] by blast
  next
    case False
    then have "j \<in> S - {v}" using that by (simp add: S'_def)
    then show ?thesis using dj_invD(5,6) [OF inv] by blast
  qed
  have rel: "?D j \<le> ?D x + E x j" if j: "j \<in> {1..k} - {v}" and x: "x \<in> S' - {v}" for j x
  proof (cases "x = c")
    case True
    have "D j \<le> D c + E c j" if "j \<in> S'"
    proof -
      have "set (vc @ c # []) \<subseteq> {1..k}" using vc cV by auto
      then have "D j \<le> wt E v (vc @ c # []) j" using exact [of j] that j by blast
      then show ?thesis using vc by simp
    qed
    then show ?thesis using True by (auto simp: relaxed_def S'_def)
  next
    case False
    then have "?D j \<le> D x + E x j" using old(2) [OF j, of x] le [of j] x by (auto simp: S'_def)
    then show ?thesis using same(1) x by simp
  qed
  have keep: "leads ?P v j vs" if l: "leads P v j vs" and j: "?P j = P j" and vs: "set vs \<subseteq> S" for j vs
  proof (rule leads_cong [OF l])
    fix x assume "x \<in> insert j (set vs)"
    then have "x = j \<or> x \<in> S'" using vs by (auto simp: S'_def)
    then show "P x = ?P x" using j same(2) by auto
  qed
  have walk: "\<exists>vs. set vs \<subseteq> S' \<and> wt E v vs j = ?D j \<and> (?D j < INF' \<longrightarrow> leads ?P v j vs)"
    if j: "j \<in> {1..k} - {v}" for j
  proof (cases "j \<notin> S' \<and> D c + E c j < D j")
    case True
    have "leads ?P v c vc" using same(2) [of c] vc by (intro keep) (simp_all add: S'_def)
    moreover have "?P j = int c" using True by (simp add: redirected_def)
    ultimately have "leads ?P v j (vc @ [c])" using cV by (intro leads.later)
    then show ?thesis using True vc by (intro exI [of _ "vc @ [c]"]) (auto simp: relaxed_def S'_def)
  next
    case False
    obtain vs where vs: "set vs \<subseteq> S" "wt E v vs j = D j" "D j < INF' \<Longrightarrow> leads P v j vs"
      using dj_inv_walk [OF inv j] by blast
    have "?P j = P j" "?D j = D j" using False by (auto simp: relaxed_def redirected_def)
    moreover have "set vs \<subseteq> S'" using vs by (auto simp: S'_def)
    ultimately show ?thesis using vs keep [of j vs] by metis
  qed
  have range: "0 \<le> ?D j \<and> ?D j \<le> INF'" if "j \<in> {1..k}" for j
    using D [OF that] D [OF cV(1)] weights_okD(1) [OF w cV(1) that] by (auto simp: relaxed_def)
  have none: "?P j = - 1" if "j \<in> {1..k} - {v}" "?D j = INF'" for j
    using that dj_invD(9) [OF inv, of j] D(2) [of j] by (auto simp: relaxed_def redirected_def split: if_splits)
  have first: "?D j \<le> E v j" if "j \<in> {1..k} - {v}" for j using old(1) [OF that] le [of j] by simp
  have exact': "?D j < INF' \<and> (\<forall>vs. set vs \<subseteq> {1..k} \<longrightarrow> ?D j \<le> wt E v vs j)" if "j \<in> S' - {v}" for j
    using exact [OF that] same(1) that by simp
  show ?thesis unfolding dj_inv_def
  proof (intro conjI)
    show "v \<in> S'" "S' \<subseteq> {1..k}" using cV by (auto simp: S'_def)
    show "?P v = - 1" using dj_invD(10) [OF inv] same(2) [of v] cV by (simp add: S'_def)
    show "\<forall>j \<in> {1..k}. 0 \<le> ?D j \<and> ?D j \<le> INF'" using range by blast
    show "\<forall>j \<in> S' - {v}. ?D j < INF' \<and> (\<forall>vs. set vs \<subseteq> {1..k} \<longrightarrow> ?D j \<le> wt E v vs j)" using exact' by blast
    show "\<forall>j \<in> {1..k} - {v}. ?D j \<le> E v j \<and> (\<forall>x \<in> S' - {v}. ?D j \<le> ?D x + E x j)"
      using first rel by blast
    show "\<forall>j \<in> {1..k} - {v}. \<exists>vs. set vs \<subseteq> S' \<and> wt E v vs j = ?D j \<and> (?D j < INF' \<longrightarrow> leads ?P v j vs)"
      using walk by blast
    show "\<forall>j \<in> {1..k} - {v}. ?D j = INF' \<longrightarrow> ?P j = - 1" using none by blast
  qed
qed

text \<open>Relaxing once more from a finished vertex changes nothing.\<close>

lemma relax_again:
  assumes "dj_inv k E INF' v D S P" "c \<in> S - {v}" "j \<in> {1..k}"
  shows "relaxed E S c D j = D j" "redirected E S c D P j = P j"
proof -
  have "\<not> D c + E c j < D j" if "j \<notin> S"
    using dj_invD(8) [OF assms(1) _ assms(2), of j] dj_invD(1) [OF assms(1)] assms(3) that by (cases "j = v") auto
  then show "relaxed E S c D j = D j" "redirected E S c D P j = P j"
    by (auto simp: relaxed_def redirected_def)
qed

lemma dj_inv_final:
  assumes inv: "dj_inv k E INF' v D S P" and w: "weights_ok k E INF'"
    and far: "\<forall>j \<in> {1..k} - S. INF' \<le> D j" and j: "j \<in> {1..k} - {v}"
  shows "least_walk {1..k} E v j (D j)"
proof -
  have "D j \<le> wt E v vs j" if vs: "set vs \<subseteq> {1..k}" for vs
  proof (cases "j \<in> S")
    case True
    then show ?thesis using dj_invD(6) [OF inv _ vs] j by blast
  next
    case False
    then have "j \<in> {1..k} - S" "v \<in> S" using j dj_invD(1) [OF inv] by auto
    then obtain y where "y \<in> {1..k} - S" "D y \<le> wt E v vs j" using leaving_walk [OF inv w _ _ vs] by force
    moreover have "D j \<le> INF'" using dj_invD(4) [OF inv, of j] j by blast
    ultimately show ?thesis using far by force
  qed
  moreover have "\<exists>vs. set vs \<subseteq> {1..k} \<and> wt E v vs j = D j" using dj_inv_walk [OF inv j] dj_invD(2) [OF inv] by (metis subset_trans)
  ultimately show ?thesis by (simp add: least_walk_def)
qed

section \<open>The loops\<close>

lemma for_up1_nat_rule:
  assumes "I 1 s" "\<And>i s. i \<in> {1..k} \<Longrightarrow> I i s \<Longrightarrow> \<exists>t. body (int i) s = Some t \<and> I (Suc i) t"
  shows "\<exists>t. for_up 1 (int k + 1) body s = Some t \<and> I (Suc k) t"
proof -
  have "\<exists>t. for_up 1 (int k + 1) body s = Some t \<and> I (nat (int k + 1)) t"
  proof (rule for_up_rule)
    fix i s assume "1 \<le> i" "i < int k + 1" "I (nat i) s"
    then show "\<exists>t. body i s = Some t \<and> I (nat (i + 1)) t"
      using assms(2) [of "nat i" s] by (auto simp: nat_add_distrib nat_le_iff)
  qed (use assms(1) in auto)
  then show ?thesis by (simp add: nat_add_distrib)
qed

definition vec :: "nat \<Rightarrow> 'a list \<Rightarrow> (nat \<Rightarrow> 'a) \<Rightarrow> bool" where
  "vec k xs f \<longleftrightarrow> k < length xs \<and> (\<forall>i \<in> {1..k}. xs ! i = f i)"

definition flags :: "nat \<Rightarrow> int option list \<Rightarrow> nat set \<Rightarrow> bool" where
  "flags k xs S \<longleftrightarrow> vec k xs (\<lambda>j. Some (if j \<in> S then 1 else 0))"

lemma rd_vec: "vec k xs f \<Longrightarrow> i \<in> {1..k} \<Longrightarrow> rd xs (int i) = Some (f i)"
  by (auto simp: vec_def rd_def)

lemma wr_vec:
  assumes "vec k xs f" "i \<in> {1..k}"
  shows "\<exists>ys. wr xs (int i) x = Some ys \<and> vec k ys (\<lambda>j. if j = i then x else f j)"
  using assms by (auto simp: vec_def wr_def nth_list_update)

lemma vec_cong: "vec k xs f \<Longrightarrow> (\<And>i. i \<in> {1..k} \<Longrightarrow> f i = g i) \<Longrightarrow> vec k xs g"
  by (simp add: vec_def)

lemma rd_flags: "flags k xs S \<Longrightarrow> j \<in> {1..k} \<Longrightarrow> rd_init xs (int j) = Some (if j \<in> S then 1 else 0)"
  by (simp add: flags_def rd_init_def rd_vec)

lemma wr_flags:
  assumes "flags k xs S" "c \<in> {1..k}"
  shows "\<exists>ys. wr xs (int c) (Some 1) = Some ys \<and> flags k ys (insert c S)"
  using wr_vec [OF assms [unfolded flags_def], of "Some 1"]
  by (auto simp: flags_def elim!: vec_cong)

lemma dijkstra_min_ok:
  assumes D: "vec k dist D" and S: "flags k set' S"
  shows "\<exists>mn u. for_up 1 (int k + 1) (dijkstra_min dist set') (INF', u0) = Some (mn, u) \<and>
    ((\<forall>j \<in> {1..k} - S. INF' \<le> D j) \<and> u = u0 \<or> (\<exists>c. u = Some (int c) \<and> nearest k INF' D S c))"
proof -
  let ?I = "\<lambda>i (mn, u). (\<forall>j \<in> {1..<i} - S. mn \<le> D j) \<and>
    (mn = INF' \<and> u = u0 \<or> (\<exists>c. u = Some (int c) \<and> mn = D c \<and> D c < INF' \<and> c \<in> {1..k} - S))"
  have "\<exists>t. for_up 1 (int k + 1) (dijkstra_min dist set') (INF', u0) = Some t \<and> ?I (Suc k) t"
  proof (rule for_up1_nat_rule [where I = ?I])
    fix i s assume i: "i \<in> {1..k}" and I: "?I i s"
    obtain mn u where s: "s = (mn, u)" by fastforce
    have up: "{1..<Suc i} - S = (if i \<in> S then {1..<i} - S else insert i ({1..<i} - S))"
      using i by (auto simp: less_Suc_eq)
    show "\<exists>t. dijkstra_min dist set' (int i) s = Some t \<and> ?I (Suc i) t"
    proof (cases "i \<in> S \<or> mn \<le> D i")
      case True
      then have "dijkstra_min dist set' (int i) s = Some s"
        using rd_flags [OF S i] rd_vec [OF D i] by (auto simp: dijkstra_min_def s)
      moreover have "?I (Suc i) s" using I True unfolding s up by auto
      ultimately show ?thesis by blast
    next
      case False
      then have "dijkstra_min dist set' (int i) s = Some (D i, Some (int i))"
        using rd_flags [OF S i] rd_vec [OF D i] by (auto simp: dijkstra_min_def s)
      moreover have "?I (Suc i) (D i, Some (int i))"
      proof -
        have "\<forall>j \<in> {1..<i} - S. mn \<le> D j" "D i < mn" using I False unfolding s by auto
        then have "D i \<le> D j" if "j \<in> {1..<Suc i} - S" for j
          using that by (cases "j = i") (force simp: less_Suc_eq)+
        moreover have "D i < INF'" using I False unfolding s by auto
        ultimately show ?thesis using False i by blast
      qed
      ultimately show ?thesis by blast
    qed
  qed simp
  then obtain mn u where "for_up 1 (int k + 1) (dijkstra_min dist set') (INF', u0) = Some (mn, u)"
    "?I (Suc k) (mn, u)" by fastforce
  moreover have "{1..<Suc k} = {1..k}" by auto
  ultimately show ?thesis unfolding nearest_def by fastforce
qed

lemma dijkstra_relax_ok:
  assumes g: "mat (Suc k) (edges g) E" and S: "flags k set' S" and c: "c \<in> S" "c \<in> {1..k}"
    and D: "vec k dist D" and P: "vec k path P"
    and range: "\<And>j. j \<in> {1..k} \<Longrightarrow> - (2 ^ 31) \<le> D c + E c j \<and> D c + E c j < 2 ^ 31"
  shows "\<exists>dist' path'. for_up 1 (int k + 1) (dijkstra_relax g (int c) set') (dist, path) = Some (dist', path') \<and>
    vec k dist' (relaxed E S c D) \<and> vec k path' (redirected E S c D P)"
proof -
  let ?D = "\<lambda>i j. if j < i then relaxed E S c D j else D j"
  let ?P = "\<lambda>i j. if j < i then redirected E S c D P j else P j"
  let ?I = "\<lambda>i s. vec k (fst s) (?D i) \<and> vec k (snd s) (?P i)"
  have "\<exists>t. for_up 1 (int k + 1) (dijkstra_relax g (int c) set') (dist, path) = Some t \<and> ?I (Suc k) t"
  proof (rule for_up1_nat_rule [where I = ?I])
    show "?I 1 (dist, path)" using D P by (auto elim!: vec_cong)
  next
    fix i s assume i: "i \<in> {1..k}" and I: "?I i s"
    obtain d p where s [simp]: "s = (d, p)" by fastforce
    have d: "vec k d (?D i)" and p: "vec k p (?P i)" using I by simp_all
    have "?D i c = D c" using c by (simp add: relaxed_def)
    then have rds: "rd d (int c) = Some (D c)" "rd d (int i) = Some (D i)"
      "rd2 (edges g) (int c) (int i) = Some (E c i)" "cadd (D c) (E c i) = Some (D c + E c i)"
      using rd_vec [OF d c(2)] rd_vec [OF d i] rd2_mat [OF g, of c i] c i range [OF i]
      by (simp_all add: cadd_def)
    show "\<exists>t. dijkstra_relax g (int c) set' (int i) s = Some t \<and> ?I (Suc i) t"
    proof (cases "i \<notin> S \<and> D c + E c i < D i")
      case True
      obtain d' where d': "wr d (int i) (D c + E c i) = Some d'"
          "vec k d' (\<lambda>j. if j = i then D c + E c i else ?D i j)" using wr_vec [OF d i] by blast
      obtain p' where p': "wr p (int i) (int c) = Some p'"
          "vec k p' (\<lambda>j. if j = i then int c else ?P i j)" using wr_vec [OF p i] by blast
      have "dijkstra_relax g (int c) set' (int i) s = Some (d', p')"
        using True rds d' p' rd_flags [OF S i] by (simp add: dijkstra_relax_def)
      moreover have "vec k d' (?D (Suc i))" "vec k p' (?P (Suc i))"
        using True by (auto intro!: vec_cong [OF d'(2)] vec_cong [OF p'(2)] simp: relaxed_def redirected_def)
      ultimately show ?thesis by simp
    next
      case False
      then have "dijkstra_relax g (int c) set' (int i) s = Some s"
        using rds rd_flags [OF S i] by (auto simp: dijkstra_relax_def)
      moreover have "vec k d (?D (Suc i))" "vec k p (?P (Suc i))"
        using False by (auto intro!: vec_cong [OF d] vec_cong [OF p] simp: relaxed_def redirected_def less_Suc_eq)
      ultimately show ?thesis by simp
    qed
  qed
  then show ?thesis by (fastforce elim!: vec_cong)
qed

lemma dijkstra_init_ok:
  assumes g: "mat (Suc k) (edges g) E" and v: "v \<in> {1..k}"
    and dist: "k < length dist" "k < length set'" "k < length path"
  shows "\<exists>dist' set'' path'. for_up 1 (int k + 1) (dijkstra_init g (int v) INF') (dist, set', path) =
      Some (dist', set'', path') \<and> vec k dist' (E v) \<and> flags k set'' {} \<and>
    vec k path' (\<lambda>j. if E v j < INF' then int v else - 1)"
proof -
  let ?P = "\<lambda>j. if E v j < INF' then int v else - 1"
  let ?I = "\<lambda>i (d, s, p). vec k d (\<lambda>j. if j < i then E v j else d ! j) \<and>
    vec k s (\<lambda>j. if j < i then Some (0 :: int) else s ! j) \<and> vec k p (\<lambda>j. if j < i then ?P j else p ! j)"
  have "\<exists>t. for_up 1 (int k + 1) (dijkstra_init g (int v) INF') (dist, set', path) = Some t \<and> ?I (Suc k) t"
  proof (rule for_up1_nat_rule [where I = ?I])
    show "?I 1 (dist, set', path)" using dist by (auto simp: vec_def)
  next
    fix i t assume i: "i \<in> {1..k}" and I: "?I i t"
    obtain d s p where t [simp]: "t = (d, s, p)" using prod_cases3 by blast
    have len: "i < length d" "i < length s" "i < length p" using I i by (auto simp: vec_def)
    have "dijkstra_init g (int v) INF' (int i) t = Some (d[i := E v i], s[i := Some 0], p[i := ?P i])"
      using rd2_mat [OF g, of v i] v i len by (simp add: dijkstra_init_def wr_def)
    moreover have "?I (Suc i) (d[i := E v i], s[i := Some 0], p[i := ?P i])"
      using I len by (auto simp: vec_def nth_list_update less_Suc_eq)
    ultimately show "\<exists>t'. dijkstra_init g (int v) INF' (int i) t = Some t' \<and> ?I (Suc i) t'" by blast
  qed
  then obtain d s p where r: "for_up 1 (int k + 1) (dijkstra_init g (int v) INF') (dist, set', path) = Some (d, s, p)"
      "?I (Suc k) (d, s, p)" by fastforce
  then have "vec k d (E v)" "flags k s {}" "vec k p ?P" by (auto simp: vec_def flags_def)
  then show ?thesis using r(1) by blast
qed

definition dj_state :: "nat \<Rightarrow> (nat \<Rightarrow> nat \<Rightarrow> int) \<Rightarrow> int \<Rightarrow> nat \<Rightarrow> nat \<Rightarrow>
    int list \<times> int option list \<times> int list \<times> int option \<Rightarrow> bool" where
  "dj_state k E INF' v i s \<longleftrightarrow> (\<exists>D S P. vec k (fst s) D \<and> flags k (fst (snd s)) S \<and>
     vec k (fst (snd (snd s))) P \<and> dj_inv k E INF' v D S P \<and>
     ((\<forall>j \<in> {1..k} - S. INF' \<le> D j) \<or> i \<le> card S) \<and>
     (case snd (snd (snd s)) of None \<Rightarrow> \<exists>j \<in> {1..k} - S. D j < INF'
      | Some u \<Rightarrow> \<exists>c \<in> S - {v}. u = int c))"

lemma dj_stateI:
  "vec k d D \<Longrightarrow> flags k s S \<Longrightarrow> vec k p P \<Longrightarrow> dj_inv k E INF' v D S P \<Longrightarrow>
   (\<forall>j \<in> {1..k} - S. INF' \<le> D j) \<or> i \<le> card S \<Longrightarrow>
   (case u of None \<Rightarrow> \<exists>j \<in> {1..k} - S. D j < INF' | Some u \<Rightarrow> \<exists>c \<in> S - {v}. u = int c) \<Longrightarrow>
   dj_state k E INF' v i (d, s, p, u)"
  unfolding dj_state_def fst_conv snd_conv by blast

lemma dijkstra_round_ok:
  assumes g: "mat (Suc k) (edges g) E" "gn g = int k" and w: "weights_ok k E INF'"
    and s: "dj_state k E INF' v i s"
  shows "\<exists>t. dijkstra_round g INF' s = Some t \<and> dj_state k E INF' v (Suc i) t"
proof -
  obtain dist set' path u0 where s_eq: "s = (dist, set', path, u0)" using prod_cases4 by blast
  obtain D S P where D: "vec k dist D" and S: "flags k set' S" and P: "vec k path P"
    and inv: "dj_inv k E INF' v D S P" and i: "(\<forall>j \<in> {1..k} - S. INF' \<le> D j) \<or> i \<le> card S"
    and u0: "case u0 of None \<Rightarrow> \<exists>j \<in> {1..k} - S. D j < INF' | Some u \<Rightarrow> \<exists>c \<in> S - {v}. u = int c"
    using s unfolding dj_state_def s_eq by auto
  obtain mn u where m: "for_up 1 (int k + 1) (dijkstra_min dist set') (INF', u0) = Some (mn, u)"
    "(\<forall>j \<in> {1..k} - S. INF' \<le> D j) \<and> u = u0 \<or> (\<exists>c. u = Some (int c) \<and> nearest k INF' D S c)"
    using dijkstra_min_ok [OF D S] by blast
  note V = dj_invD(1,2) [OF inv]
  obtain c where u: "u = Some (int c)" and c: "c \<in> S - {v} \<and> (\<forall>j \<in> {1..k} - S. INF' \<le> D j) \<or> nearest k INF' D S c"
  proof (cases "\<exists>c. u = Some (int c) \<and> nearest k INF' D S c")
    case True
    then show thesis using that by blast
  next
    case False
    then have far: "\<forall>j \<in> {1..k} - S. INF' \<le> D j" "u = u0" using m(2) by blast+
    then obtain x where "u0 = Some x" using u0 by (cases u0) force+
    then show thesis using u0 far that by auto
  qed
  let ?S = "insert c S"
  have cV: "c \<in> {1..k}" "D c < INF'" "c \<noteq> v" using c V dj_invD(5) [OF inv, of c] by (auto simp: nearest_def)
  obtain set'' where f: "wr set' (int c) (Some 1) = Some set''" "flags k set'' ?S"
    using wr_flags [OF S cV(1)] by blast
  have range: "- (2 ^ 31) \<le> D c + E c j \<and> D c + E c j < 2 ^ 31" if "j \<in> {1..k}" for j
    using weights_okD [OF w cV(1) that] cV(2) dj_invD(3) [OF inv cV(1)] w by (auto simp: weights_ok_def)
  obtain d' p' where r: "for_up 1 (int k + 1) (dijkstra_relax g (int c) set'') (dist, path) = Some (d', p')"
    "vec k d' (relaxed E ?S c D)" "vec k p' (redirected E ?S c D P)"
    using dijkstra_relax_ok [OF g(1) f(2) _ cV(1) D P range] by blast
  have run: "dijkstra_round g INF' s = Some (d', set'', p', u)"
    using m(1) f r g(2) u by (simp add: dijkstra_round_def s_eq)
  have fin: "finite S" using V finite_subset by blast
  show ?thesis
  proof (cases "nearest k INF' D S c")
    case True
    then have "i \<le> card S" using i by (force simp: nearest_def)
    then have "Suc i \<le> card ?S" using fin True by (simp add: nearest_def)
    then have "dj_state k E INF' v (Suc i) (d', set'', p', u)"
      unfolding dj_state_def using dj_inv_relax [OF inv w True] r f u cV(3) by auto
    then show ?thesis using run by blast
  next
    case False
    then have cS: "c \<in> S - {v}" and far: "\<forall>j \<in> {1..k} - S. INF' \<le> D j" using c by auto
    then have "?S = S" by auto
    then have "vec k d' D" "vec k p' P"
      using r relax_again [OF inv cS] by (auto elim!: vec_cong)
    then have "dj_state k E INF' v (Suc i) (d', set'', p', u)"
      unfolding dj_state_def using inv f far cS u \<open>?S = S\<close> by auto
    then show ?thesis using run by blast
  qed
qed

lemma dj_inv_start:
  assumes v: "v \<in> {1..k}" and w: "weights_ok k E INF'"
  shows "dj_inv k E INF' v (E v) {v} (\<lambda>j. if j = v then - 1 else if E v j < INF' then int v else - 1)"
    (is "dj_inv k E INF' v _ _ ?P")
  unfolding dj_inv_def
proof (intro conjI)
  show "\<forall>j \<in> {1..k}. 0 \<le> E v j \<and> E v j \<le> INF'" using weights_okD [OF w v] by blast
  show "\<forall>j \<in> {1..k} - {v}. \<exists>vs. set vs \<subseteq> {v} \<and> wt E v vs j = E v j \<and> (E v j < INF' \<longrightarrow> leads ?P v j vs)"
    by (auto intro!: exI [of _ "[]"] leads.first)
qed (use v in auto)

text \<open>C11: when some vertex is nearer to \<open>v\<close> than \<open>INF\<close>, Dijkstra's algorithm returns without overflow and
  without reading an uninitialised variable; then \<open>dist[j]\<close> is the length of a shortest walk from \<open>v\<close> to
  each other vertex \<open>j\<close>, and \<open>path\<close> leads back from \<open>j\<close> to \<open>v\<close> along such a walk, or is -1
  where the distance is \<open>INF\<close>.\<close>

theorem Dijkstra_correct:
  fixes g :: MGraph and k v :: nat
  defines "E \<equiv> \<lambda>i j. edges g ! i ! j"
  assumes g: "gn g = int k" "square (Suc k) (edges g)" and v: "v \<in> {1..k}"
    and len: "k < length dist" "k < length path" "k < maxSize"
    and w: "weights_ok k E INF'" and near: "\<exists>j \<in> {1..k} - {v}. E v j < INF'"
  shows "\<exists>dist' path'. Dijkstra maxSize INF' g (int v) dist path = Some (dist', path') \<and>
    (\<forall>j \<in> {1..k} - {v}. least_walk {1..k} E v j (dist' ! j) \<and>
      (if dist' ! j < INF' then \<exists>vs. leads (\<lambda>j. path' ! j) v j vs \<and> set vs \<subseteq> {1..k} \<and> wt E v vs j = dist' ! j
       else path' ! j = - 1))"
proof -
  have E: "mat (Suc k) (edges g) E" using square_mat [OF g(2)] by (simp add: E_def)
  have "k < length (replicate maxSize (None :: int option))" using len(3) by simp
  then obtain d1 s1 p1 where i1: "for_up 1 (int k + 1) (dijkstra_init g (int v) INF') (dist, replicate maxSize None, path)
      = Some (d1, s1, p1)" "vec k d1 (E v)" "flags k s1 {}" "vec k p1 (\<lambda>j. if E v j < INF' then int v else - 1)"
    using dijkstra_init_ok [OF E v len(1) _ len(2), of _ INF'] by blast
  obtain s2 where s2: "wr s1 (int v) (Some 1) = Some s2" "flags k s2 {v}" using wr_flags [OF i1(3) v] by blast
  obtain p2 where p2: "wr p1 (int v) (- 1) = Some p2"
    "vec k p2 (\<lambda>j. if j = v then - 1 else if E v j < INF' then int v else - 1)"
    using wr_vec [OF i1(4) v] by blast
  have "dj_state k E INF' v 1 (d1, s2, p2, None)"
    using near by (intro dj_stateI [OF i1(2) s2(2) p2(2) dj_inv_start [OF v w]]) auto
  then have "\<exists>t. for_up 1 (int k + 1) (\<lambda>i. dijkstra_round g INF') (d1, s2, p2, None) = Some t \<and>
      dj_state k E INF' v (Suc k) t"
    using dijkstra_round_ok [OF E g(1) w] by (intro for_up1_nat_rule) blast+
  then obtain d s p u where r: "for_up 1 (int k + 1) (\<lambda>i. dijkstra_round g INF') (d1, s2, p2, None) = Some (d, s, p, u)"
    "dj_state k E INF' v (Suc k) (d, s, p, u)" using prod_cases4 by metis
  then obtain D S P where D: "vec k d D" and P: "vec k p P" and inv: "dj_inv k E INF' v D S P"
    and far: "(\<forall>j \<in> {1..k} - S. INF' \<le> D j) \<or> Suc k \<le> card S"
    unfolding dj_state_def by auto
  have "card S \<le> k" using card_mono [OF _ dj_invD(2) [OF inv]] by simp
  then have far: "\<forall>j \<in> {1..k} - S. INF' \<le> D j" using far by linarith
  have "least_walk {1..k} E v j (d ! j) \<and> (if d ! j < INF' then \<exists>vs. leads (\<lambda>j. p ! j) v j vs \<and>
      set vs \<subseteq> {1..k} \<and> wt E v vs j = d ! j else p ! j = - 1)" if j: "j \<in> {1..k} - {v}" for j
  proof -
    have dj: "d ! j = D j" and pj: "x \<in> {1..k} \<Longrightarrow> p ! x = P x" for x using D P j by (auto simp: vec_def)
    obtain vs where vs: "set vs \<subseteq> S" "wt E v vs j = D j" "D j < INF' \<Longrightarrow> leads P v j vs"
      using dj_inv_walk [OF inv j] by metis
    have sub: "set vs \<subseteq> {1..k}" using vs dj_invD(2) [OF inv] by blast
    have "leads (\<lambda>j. p ! j) v j vs" if "D j < INF'"
      using j sub pj by (intro leads_cong [OF vs(3) [OF that]]) auto
    moreover have "p ! j = - 1" if "\<not> D j < INF'"
      using that dj_invD(4,9) [OF inv, of j] j pj by auto
    ultimately show ?thesis using dj_inv_final [OF inv w far j] sub vs(2) unfolding dj by auto
  qed
  moreover have "Dijkstra maxSize INF' g (int v) dist path = Some (d, p)"
    using i1(1) s2(1) p2(1) r(1) g(1) by (simp add: Dijkstra_def)
  ultimately show ?thesis by blast
qed

definition four_cities :: MGraph where
  "four_cities = \<lparr>edges = [[0, 0, 0, 0, 0], [0, 100, 7, 100, 1], [0, 100, 100, 2, 100],
    [0, 100, 100, 100, 100], [0, 100, 3, 100, 100]], gn = 4, ge = 0, ver = []\<rparr>"

lemma Dijkstra_correct_witness:
  "\<exists>dist' path'. Dijkstra 10 100 four_cities 1 (replicate 10 0) (replicate 10 0) = Some (dist', path') \<and>
    (\<forall>j \<in> {1..4} - {1}. least_walk {1..4} (\<lambda>i j. edges four_cities ! i ! j) 1 j (dist' ! j) \<and>
      (if dist' ! j < 100 then \<exists>vs. leads (\<lambda>j. path' ! j) 1 j vs \<and> set vs \<subseteq> {1..4} \<and>
        wt (\<lambda>i j. edges four_cities ! i ! j) 1 vs j = dist' ! j else path' ! j = - 1))"
proof -
  have range: "{Suc 0..4} = {1, 2, 3, 4}" by auto
  have "weights_ok 4 (\<lambda>i j. edges four_cities ! i ! j) 100"
    by (simp add: weights_ok_def range four_cities_def)
  moreover have "\<exists>j \<in> {1..4} - {1}. edges four_cities ! 1 ! j < 100"
    by (intro bexI [of _ 2]) (auto simp: four_cities_def)
  moreover have "square (Suc 4) (edges four_cities)"
    by (simp add: square_def four_cities_def numeral_eq_Suc All_less_Suc)
  moreover have "gn four_cities = int 4" by (simp add: four_cities_def)
  ultimately show ?thesis
    using Dijkstra_correct [of four_cities 4 1 "replicate 10 0" "replicate 10 0" 10 100] by simp
qed

text \<open>When no vertex is nearer to \<open>v\<close> than \<open>INF\<close>, as in a graph of one vertex, the first round of Dijkstra's
  algorithm reads \<open>u\<close>, which nothing has assigned.\<close>

theorem Dijkstra_isolated:
  fixes g :: MGraph and k v :: nat
  assumes g: "gn g = int k" "square (Suc k) (edges g)" and v: "v \<in> {1..k}"
    and len: "k < length dist" "k < length path" "k < maxSize"
    and far: "\<forall>j \<in> {1..k} - {v}. INF' \<le> edges g ! v ! j"
  shows "Dijkstra maxSize INF' g (int v) dist path = None"
proof -
  let ?E = "\<lambda>i j. edges g ! i ! j"
  have "k < length (replicate maxSize (None :: int option))" using len(3) by simp
  then obtain d1 s1 p1 where i1: "for_up 1 (int k + 1) (dijkstra_init g (int v) INF') (dist, replicate maxSize None, path)
      = Some (d1, s1, p1)" "vec k d1 (?E v)" "flags k s1 {}" "vec k p1 (\<lambda>j. if ?E v j < INF' then int v else - 1)"
    using dijkstra_init_ok [OF square_mat [OF g(2)] v len(1) _ len(2), of _ INF'] by blast
  obtain s2 where s2: "wr s1 (int v) (Some 1) = Some s2" "flags k s2 {v}" using wr_flags [OF i1(3) v] by blast
  obtain p2 where p2: "wr p1 (int v) (- 1) = Some p2" using wr_vec [OF i1(4) v] by blast
  obtain mn u where "for_up 1 (int k + 1) (dijkstra_min d1 s2) (INF', None) = Some (mn, u)"
    "u = None \<or> (\<exists>c. u = Some (int c) \<and> nearest k INF' (?E v) {v} c)"
    using dijkstra_min_ok [OF i1(2) s2(2)] by blast
  moreover have "\<not> nearest k INF' (?E v) {v} c" for c using far by (force simp: nearest_def)
  ultimately have "dijkstra_round g INF' (d1, s2, p2, None) = None" using g(1) by (simp add: dijkstra_round_def)
  then show ?thesis using i1(1) s2(1) p2 g(1) v by (simp add: Dijkstra_def for_up.simps)
qed

lemma Dijkstra_isolated_witness:
  "Dijkstra 10 100 \<lparr>edges = [[0, 0], [0, 0]], gn = 1, ge = 0, ver = []\<rparr> 1 [0, 0] [0, 0] = None"
  using Dijkstra_isolated [of "\<lparr>edges = [[0, 0], [0, 0]], gn = 1, ge = 0, ver = []\<rparr>" 1 1 "[0, 0]" "[0, 0]" 10 100]
  by (simp add: square_def numeral_eq_Suc All_less_Suc)

end
