(* ===== verification/Spanning.thy ===== *)
theory Spanning
  imports Graph
begin

text \<open>
  The minimum spanning trees of \<open>c++/algos/Kruskal.cpp\<close> and \<open>c++/algos/prim.cpp\<close>.  Kruskal's algorithm
  works on the global union-find array \<open>v\<close>, which no function of the repository initialises; it is an
  argument and a result.  A search for a root that goes out of the array or does not end is \<open>None\<close>.
\<close>

section \<open>Kruskal\<close>

record Road =
  road_a :: int
  road_b :: int
  road_w :: int

partial_function (option) getRoot :: "int list \<Rightarrow> int \<Rightarrow> int option" where
  "getRoot v a = do { p \<leftarrow> rd v a; if a \<noteq> p then getRoot v p else Some a }"

definition kruskal_step :: "Road list \<Rightarrow> int \<Rightarrow> int \<times> int list \<Rightarrow> (int \<times> int list) option" where
  "kruskal_step road i = (\<lambda>(total, v). do {
     r \<leftarrow> rd road i;
     a \<leftarrow> getRoot v (road_a r);
     b \<leftarrow> getRoot v (road_b r);
     if a \<noteq> b then do {
       v' \<leftarrow> wr v a b;
       total' \<leftarrow> cadd total (road_w r);
       Some (total', v') }
     else Some (total, v) })"

definition Kruskal :: "MGraph \<Rightarrow> Road list \<Rightarrow> int list \<Rightarrow> (int \<times> int list) option" where
  "Kruskal g road v = for_up 1 (gn g) (kruskal_step road) (0, v)"

section \<open>Prim\<close>

text \<open>The inner loop tests \<open>i\<close>, which it does not change.\<close>

function prim_min :: "bool \<Rightarrow> int option list \<Rightarrow> int option list \<Rightarrow> int \<Rightarrow> int \<times> int option \<Rightarrow> (int \<times> int option) option" where
  "prim_min cont lowcost vset j s = (if cont then do {
     f \<leftarrow> rd_init vset j;
     s' \<leftarrow> (if f = 0 then do { c \<leftarrow> rd_init lowcost j; Some (if c < fst s then (c, Some j) else s) } else Some s);
     prim_min cont lowcost vset (j + 1) s' } else Some s)"
  by pat_completeness auto
termination
  by (relation "measure (\<lambda>(cont, lowcost, vset, j, s). nat (int (length vset) - j))")
    (auto simp: rd_init_def bind_eq_Some_conv rd_eq_Some)

declare prim_min.simps [simp del]

definition prim_init :: "MGraph \<Rightarrow> int \<Rightarrow> int \<Rightarrow> int option list \<times> int option list \<Rightarrow>
    (int option list \<times> int option list) option" where
  "prim_init g v0 i = (\<lambda>(lowcost, vset). do {
     w \<leftarrow> rd2 (edges g) v0 i;
     lowcost' \<leftarrow> wr lowcost i (Some w);
     vset' \<leftarrow> wr vset i (Some 0);
     Some (lowcost', vset') })"

definition prim_update :: "MGraph \<Rightarrow> int \<Rightarrow> int option list \<Rightarrow> int \<Rightarrow> int option list \<Rightarrow> int option list option" where
  "prim_update g v vset j lowcost = do {
     f \<leftarrow> rd_init vset j;
     if f = 0 then do {
       w \<leftarrow> rd2 (edges g) v j;
       c \<leftarrow> rd_init lowcost j;
       if w < c then wr lowcost j (Some w) else Some lowcost }
     else Some lowcost }"

definition Prim :: "nat \<Rightarrow> int \<Rightarrow> MGraph \<Rightarrow> int \<Rightarrow> int option" where
  "Prim maxSize INF' g v0 = do {
     (lowcost, vset) \<leftarrow> for_up 1 (gn g + 1) (prim_init g v0) (replicate maxSize None, replicate maxSize None);
     vset1 \<leftarrow> wr vset v0 (Some 1);
     (lowcost', vset', k, total) \<leftarrow> for_up 1 (gn g) (\<lambda>i (lowcost, vset, k, total). do {
       (mn, k') \<leftarrow> prim_min (i < gn g) lowcost vset 1 (INF', k);
       c \<leftarrow> k';
       vset' \<leftarrow> wr vset c (Some 1);
       total' \<leftarrow> cadd total mn;
       lowcost' \<leftarrow> for_up 1 (gn g + 1) (prim_update g c vset') lowcost;
       Some (lowcost', vset', k', total') }) (lowcost, vset1, None, 0);
     Some total }"

section \<open>The forest of the union-find array\<close>

definition conn :: "(int \<times> int) set \<Rightarrow> (int \<times> int) set" where
  "conn R = (R \<union> R\<inverse>)\<^sup>*"

definition road_pairs :: "Road list \<Rightarrow> (int \<times> int) set" where
  "road_pairs rs = {(road_a r, road_b r) | r. r \<in> set rs}"

text \<open>The roads that join two places which the roads before do not connect, and their length.\<close>

fun joining :: "Road list \<Rightarrow> Road list \<Rightarrow> Road list" where
  "joining seen [] = []"
| "joining seen (r # rs) = (if (road_a r, road_b r) \<in> conn (road_pairs seen) then joining (seen @ [r]) rs
     else r # joining (seen @ [r]) rs)"

definition forest :: "int list \<Rightarrow> bool" where
  "forest v \<longleftrightarrow> (\<forall>x. 0 \<le> x \<and> x < int (length v) \<longrightarrow> (\<exists>r. getRoot v x = Some r))"

lemma conn_refl [simp]: "(x, x) \<in> conn R"
  by (simp add: conn_def)

lemma conn_sym: "(x, y) \<in> conn R \<Longrightarrow> (y, x) \<in> conn R"
  unfolding conn_def by (meson sym_Un_converse sym_rtrancl symE)

lemma conn_trans: "(x, y) \<in> conn R \<Longrightarrow> (y, z) \<in> conn R \<Longrightarrow> (x, z) \<in> conn R"
  unfolding conn_def by simp

lemma conn_mono: "R \<subseteq> S \<Longrightarrow> conn R \<subseteq> conn S"
  unfolding conn_def by (intro rtrancl_mono) auto

lemma conn_insert:
  "(x, y) \<in> conn (insert (a, b) R) \<longleftrightarrow>
   (x, y) \<in> conn R \<or> (x, a) \<in> conn R \<and> (b, y) \<in> conn R \<or> (x, b) \<in> conn R \<and> (a, y) \<in> conn R"
    (is "?l \<longleftrightarrow> ?r x y")
proof
  assume ?l
  then show "?r x y" unfolding conn_def [of "insert _ _"]
  proof (induction rule: rtrancl_induct)
    case (step y z)
    from step(2) consider "(y, z) \<in> conn R" | "y = a" "z = b" | "y = b" "z = a"
      by (auto simp: conn_def)
    then show ?case using step.IH by cases (meson conn_trans conn_sym conn_refl)+
  qed simp
next
  assume r: "?r x y"
  have "(a, b) \<in> conn (insert (a, b) R)" by (auto simp: conn_def)
  moreover have "conn R \<subseteq> conn (insert (a, b) R)" by (rule conn_mono) auto
  ultimately show ?l using r by (meson conn_trans conn_sym subsetD)
qed

lemma conn_absorb:
  assumes "(a, b) \<in> conn R"
  shows "conn (insert (a, b) R) = conn R"
proof -
  have "(x, y) \<in> conn (insert (a, b) R) \<longleftrightarrow> (x, y) \<in> conn R" for x y
    unfolding conn_insert using assms by (meson conn_trans conn_sym)
  then show ?thesis by (auto simp: set_eq_iff)
qed

lemma getRoot_at_root: "rd v r = Some r \<Longrightarrow> getRoot v r = Some r"
  by (simp add: getRoot.simps)

lemma getRoot_induct [consumes 1, case_names root up]:
  assumes get: "getRoot v x = Some r"
    and root: "\<And>x. rd v x = Some x \<Longrightarrow> P x x"
    and up: "\<And>x p r. rd v x = Some p \<Longrightarrow> x \<noteq> p \<Longrightarrow> getRoot v p = Some r \<Longrightarrow> P p r \<Longrightarrow> P x r"
  shows "P x r"
proof -
  have "v = v \<longrightarrow> P x r \<and> getRoot v x = Some r"
  proof (rule getRoot.raw_induct [where P = "\<lambda>w x r. w = v \<longrightarrow> P x r \<and> getRoot v x = Some r", OF _ get])
    fix f w x r
    assume hyp: "\<And>w x r. f w x = Some r \<Longrightarrow> w = v \<longrightarrow> P x r \<and> getRoot v x = Some r"
      and body: "(do { p \<leftarrow> rd w x; if x \<noteq> p then f w p else Some x }) = Some r"
    show "w = v \<longrightarrow> P x r \<and> getRoot v x = Some r"
    proof
      assume w: "w = v"
      obtain p where p: "rd v x = Some p" "if x \<noteq> p then f v p = Some r else x = r"
        using body w by (auto simp: bind_eq_Some_conv split: if_splits)
      show "P x r \<and> getRoot v x = Some r"
      proof (cases "x = p")
        case True
        then show ?thesis using p root [of x] getRoot_at_root by auto
      next
        case False
        then have "P p r" "getRoot v p = Some r" using p hyp [of v p r] by simp_all
        then show ?thesis using up [OF p(1) False] p False by (simp add: getRoot.simps [of v x])
      qed
    qed
  qed
  then show ?thesis by simp
qed

lemma getRoot_root: "getRoot v x = Some r \<Longrightarrow> rd v r = Some r"
  by (induction rule: getRoot_induct)

text \<open>Linking the root \<open>a\<close> below the root \<open>b\<close>.\<close>

lemma getRoot_link:
  assumes "rd w b = Some b" "rd w a = Some a" "a \<noteq> b" "wr w a b = Some v'"
  shows "getRoot w x = Some r \<Longrightarrow> getRoot v' x = Some (if r = a then b else r)"
proof -
  have ab: "0 \<le> a" "a < int (length w)" "0 \<le> b" "b < int (length w)" using assms by (auto simp: rd_eq_Some)
  have rd': "rd v' y = (if y = a then Some b else rd w y)" for y
    using assms(4) ab by (auto simp: wr_def rd_def nth_list_update split: if_splits)
  have b: "getRoot v' b = Some b" using rd' assms(1,3) by (simp add: getRoot_at_root)
  show "getRoot w x = Some r \<Longrightarrow> getRoot v' x = Some (if r = a then b else r)"
  proof (induction rule: getRoot_induct)
    case (root x)
    have "getRoot v' a = Some b" using rd' b assms(3) by (simp add: getRoot.simps [of v' a])
    then show ?case using root rd' [of x] getRoot_at_root [of v' x] by auto
  next
    case (up x p r)
    then have "x \<noteq> a" using assms(2) by auto
    then show ?case using up rd' by (simp add: getRoot.simps [of v' x])
  qed
qed

section \<open>Correctness\<close>

definition kruskal_inv :: "nat \<Rightarrow> int list \<Rightarrow> (int \<times> int) set \<Rightarrow> bool" where
  "kruskal_inv m v R \<longleftrightarrow> length v = m \<and> forest v \<and>
     (\<forall>x y. 0 \<le> x \<and> x < int m \<and> 0 \<le> y \<and> y < int m \<longrightarrow> (getRoot v x = getRoot v y \<longleftrightarrow> (x, y) \<in> conn R))"

lemma kruskal_inv_start: "kruskal_inv m (map int [0..<m]) {}"
proof -
  have "getRoot (map int [0..<m]) x = Some x" if "0 \<le> x" "x < int m" for x
    using that by (intro getRoot_at_root) (auto simp: rd_def)
  then show ?thesis by (auto simp: kruskal_inv_def forest_def conn_def)
qed

lemma kruskal_inv_link:
  assumes inv: "kruskal_inv m v R" and x: "0 \<le> x" "x < int m" "0 \<le> y" "y < int m"
    and roots: "getRoot v x = Some a" "getRoot v y = Some b" "a \<noteq> b"
  shows "\<exists>v'. wr v a b = Some v' \<and> kruskal_inv m v' (insert (x, y) R)"
proof -
  note ab = getRoot_root [OF roots(1)] getRoot_root [OF roots(2)]
  define v' where "v' = v[nat a := b]"
  have wr: "wr v a b = Some v'" using ab(1) by (auto simp: rd_eq_Some wr_def v'_def)
  note link = getRoot_link [OF ab(2,1) roots(3) wr]
  have len: "length v = m" "forest v" using inv by (auto simp: kruskal_inv_def)
  have root: "\<exists>r. getRoot v z = Some r" if "0 \<le> z" "z < int m" for z using len that by (simp add: forest_def)
  have same: "getRoot v z = getRoot v z' \<longleftrightarrow> (z, z') \<in> conn R"
    if "0 \<le> z" "z < int m" "0 \<le> z'" "z' < int m" for z z' using inv that by (simp add: kruskal_inv_def)
  have "getRoot v' z = getRoot v' z' \<longleftrightarrow> (z, z') \<in> conn (insert (x, y) R)"
    if z: "0 \<le> z" "z < int m" "0 \<le> z'" "z' < int m" for z z'
  proof -
    obtain r r' where r: "getRoot v z = Some r" "getRoot v z' = Some r'" using root z by meson
    have "(z, x) \<in> conn R \<longleftrightarrow> r = a" "(z, y) \<in> conn R \<longleftrightarrow> r = b" "(x, z') \<in> conn R \<longleftrightarrow> a = r'"
      "(y, z') \<in> conn R \<longleftrightarrow> b = r'" "(z, z') \<in> conn R \<longleftrightarrow> r = r'"
      using same [symmetric] z x roots r by simp_all
    then show ?thesis using link [OF r(1)] link [OF r(2)] roots(3) unfolding conn_insert by auto
  qed
  moreover have "forest v'" using link root len unfolding forest_def by (metis length_list_update v'_def)
  ultimately show ?thesis using wr len by (auto simp: kruskal_inv_def v'_def)
qed

lemma sum_list_joining:
  assumes "\<forall>r \<in> set rs. 0 \<le> road_w r"
  shows "0 \<le> sum_list (map road_w (joining seen rs))"
    "sum_list (map road_w (joining seen rs)) \<le> sum_list (map road_w rs)"
  using assms by (induction seen rs rule: joining.induct) auto

lemma joining_snoc:
  "joining seen (rs @ [r]) = joining seen rs @
     (if (road_a r, road_b r) \<in> conn (road_pairs (seen @ rs)) then [] else [r])"
  by (induction seen rs rule: joining.induct) simp_all

text \<open>On an array \<open>v\<close> in which every place is its own root, Kruskal's algorithm returns without overflow and
  without an endless search; \<open>sum\<close> is then the length of those of the first \<open>N - 1\<close> roads, in their order,
  that join places not connected before, and \<open>v\<close> has the same root for two places exactly when these
  roads connect them.\<close>

theorem Kruskal_correct:
  assumes k: "gn g = int k" "1 \<le> k" "k \<le> length road"
  defines "rs \<equiv> take (k - 1) (drop 1 road)"
  assumes places: "\<forall>r \<in> set rs. 0 \<le> road_a r \<and> road_a r < int m \<and> 0 \<le> road_b r \<and> road_b r < int m"
    and lengths: "\<forall>r \<in> set rs. 0 \<le> road_w r" "sum_list (map road_w rs) < 2 ^ 31"
  shows "\<exists>v'. Kruskal g road (map int [0..<m]) = Some (sum_list (map road_w (joining [] rs)), v') \<and>
    (\<forall>x y. 0 \<le> x \<and> x < int m \<and> 0 \<le> y \<and> y < int m \<longrightarrow>
      (\<exists>r. getRoot v' x = Some r) \<and> (getRoot v' x = getRoot v' y \<longleftrightarrow> (x, y) \<in> conn (road_pairs rs)))"
proof -
  let ?rs = "\<lambda>i. take (nat (i - 1)) rs"
  let ?I = "\<lambda>i (total, v). total = sum_list (map road_w (joining [] (?rs i))) \<and>
    kruskal_inv m v (road_pairs (?rs i))"
  have "\<exists>t. for_up 1 (int k) (kruskal_step road) (0, map int [0..<m]) = Some t \<and> ?I (int k) t"
  proof (rule for_up_rule)
    show "?I 1 (0, map int [0..<m])" using kruskal_inv_start by (simp add: road_pairs_def)
  next
    fix i t assume i: "1 \<le> i" "i < int k" and "?I i t"
    then obtain total v where t: "t = (total, v)" "total = sum_list (map road_w (joining [] (?rs i)))"
      "kruskal_inv m v (road_pairs (?rs i))" by (auto split: prod.splits)
    define r where "r = road ! nat i"
    have idx: "nat (i - 1) < k - 1" "nat i = Suc (nat (i - 1))" "nat (i + 1 - 1) = Suc (nat (i - 1))" using i by auto
    then have r_at: "rs ! nat (i - 1) = r" "nat (i - 1) < length rs" using k by (auto simp: rs_def r_def)
    then have snoc: "?rs (i + 1) = ?rs i @ [r]" using idx by (simp add: take_Suc_conv_app_nth)
    have r_in: "r \<in> set rs" using r_at by (metis nth_mem)
    then have p: "0 \<le> road_a r" "road_a r < int m" "0 \<le> road_b r" "road_b r < int m" "0 \<le> road_w r"
      using places lengths by auto
    have rd: "rd road i = Some r" using i k by (simp add: rd_def r_def)
    obtain a b where roots: "getRoot v (road_a r) = Some a" "getRoot v (road_b r) = Some b"
      using t(3) p unfolding kruskal_inv_def forest_def by metis
    have same: "a = b \<longleftrightarrow> (road_a r, road_b r) \<in> conn (road_pairs (?rs i))"
      using t(3) p roots unfolding kruskal_inv_def by (metis option.inject)
    have pairs: "road_pairs (?rs (i + 1)) = insert (road_a r, road_b r) (road_pairs (?rs i))"
      unfolding snoc by (auto simp: road_pairs_def)
    show "\<exists>t'. kruskal_step road i t = Some t' \<and> ?I (i + 1) t'"
    proof (cases "a = b")
      case True
      have "conn (insert (road_a r, road_b r) (road_pairs (?rs i))) = conn (road_pairs (?rs i))"
        using True same by (intro conn_absorb) simp
      then have "?I (i + 1) t" using True same t pairs unfolding snoc
        by (simp add: joining_snoc kruskal_inv_def)
      then show ?thesis using rd roots True t(1) by (simp add: kruskal_step_def)
    next
      case False
      obtain v' where v': "wr v a b = Some v'" "kruskal_inv m v' (road_pairs (?rs (i + 1)))"
        using kruskal_inv_link [OF t(3) p(1-4) roots False] pairs by auto
      have new: "total + road_w r = sum_list (map road_w (joining [] (?rs (i + 1))))"
        using False same t(2) unfolding snoc by (simp add: joining_snoc)
      also have "\<dots> \<le> sum_list (map road_w (?rs (i + 1)))"
        using lengths(1) by (intro sum_list_joining) (auto dest: in_set_takeD)
      also have "\<dots> \<le> sum_list (map road_w rs)"
        using lengths(1) sum_list_append [of "map road_w (?rs (i + 1))" "map road_w (drop (nat (i + 1 - 1)) rs)"]
          sum_list_nonneg [of "map road_w (drop (nat (i + 1 - 1)) rs)"]
        by (auto simp flip: map_append dest: in_set_dropD)
      finally have small: "total + road_w r < 2 ^ 31" using lengths(2) by simp
      have "0 \<le> total" unfolding t(2) using lengths(1) by (intro sum_list_joining) (auto dest: in_set_takeD)
      then have "cadd total (road_w r) = Some (total + road_w r)" using small p(5) by (intro cadd_in) auto
      then have "kruskal_step road i t = Some (total + road_w r, v')"
        using rd roots False t(1) v'(1) by (simp add: kruskal_step_def)
      then show ?thesis using new v'(2) by simp
    qed
  qed (use k in simp)
  moreover have "?rs (int k) = rs" using k by (simp add: rs_def nat_diff_distrib)
  ultimately show ?thesis using k(1) by (fastforce simp: Kruskal_def kruskal_inv_def forest_def)
qed

lemma Kruskal_correct_witness:
  "\<exists>v'. Kruskal \<lparr>edges = [], gn = 3, ge = 0, ver = []\<rparr>
      [\<lparr>road_a = 0, road_b = 0, road_w = 9\<rparr>, \<lparr>road_a = 0, road_b = 1, road_w = 4\<rparr>,
       \<lparr>road_a = 1, road_b = 2, road_w = 5\<rparr>] (map int [0..<3]) =
    Some (sum_list (map road_w (joining [] [\<lparr>road_a = 0, road_b = 1, road_w = 4\<rparr>,
       \<lparr>road_a = 1, road_b = 2, road_w = 5\<rparr>])), v') \<and>
    (\<forall>x y. 0 \<le> x \<and> x < 3 \<and> 0 \<le> y \<and> y < 3 \<longrightarrow> (\<exists>r. getRoot v' x = Some r) \<and>
      (getRoot v' x = getRoot v' y \<longleftrightarrow> (x, y) \<in> conn (road_pairs [\<lparr>road_a = 0, road_b = 1, road_w = 4\<rparr>,
       \<lparr>road_a = 1, road_b = 2, road_w = 5\<rparr>])))"
  using Kruskal_correct [of "\<lparr>edges = [], gn = 3, ge = 0, ver = []\<rparr>" 3
      "[\<lparr>road_a = 0, road_b = 0, road_w = 9\<rparr>, \<lparr>road_a = 0, road_b = 1, road_w = 4\<rparr>,
        \<lparr>road_a = 1, road_b = 2, road_w = 5\<rparr>]" 3]
  by (simp add: numeral_eq_Suc)

lemma prim_min_never: "c \<Longrightarrow> prim_min c lowcost vset j s = None"
proof (induction c lowcost vset j s rule: prim_min.induct)
  case (1 c lowcost vset j s)
  show ?case
  proof (rule ccontr)
    assume "prim_min c lowcost vset j s \<noteq> None"
    then obtain t where "prim_min c lowcost vset j s = Some t" by blast
    then obtain f s' where "rd_init vset j = Some f"
      "(if f = 0 then do { x \<leftarrow> rd_init lowcost j; Some (if x < fst s then (x, Some j) else s) } else Some s) = Some s'"
      "prim_min c lowcost vset (j + 1) s' = Some t"
      using 1(2) by (subst (asm) prim_min.simps) (auto simp: bind_eq_Some_conv)
    then show False using 1 by simp
  qed
qed

text \<open>Two defects of the spanning tree programs.  On the array \<open>v\<close> as the program starts with it, all
  zero, Kruskal's algorithm joins nothing and the sum is 0; and for two or more vertices Prim's algorithm
  never returns, because its inner loop runs out of the arrays.\<close>

theorem spanning_trees_defective:
  fixes g h :: MGraph and m k :: nat
  assumes "k \<le> length road" "gn g = int k" "1 \<le> m"
    and places: "\<forall>r \<in> set road. 0 \<le> road_a r \<and> road_a r < int m \<and> 0 \<le> road_b r \<and> road_b r < int m"
    and two: "2 \<le> gn h"
  shows "Kruskal g road (replicate m 0) = Some (0, replicate m 0) \<and> Prim maxSize INF' h v0 = None"
proof -
  let ?v = "replicate m (0 :: int)"
  have root: "getRoot ?v x = Some 0" if "0 \<le> x" "x < int m" for x
  proof -
    have "getRoot ?v 0 = Some 0" using assms(3) by (intro getRoot_at_root) (simp add: rd_def)
    then show ?thesis using that by (simp add: getRoot.simps [of ?v x] rd_def)
  qed
  have "\<exists>t. for_up 1 (int k) (kruskal_step road) (0, ?v) = Some t \<and> t = (0, ?v)" if "1 \<le> k"
  proof (rule for_up_rule)
    fix i t assume i: "1 \<le> i" "i < int k" "t = (0 :: int, ?v)"
    then have r: "rd road i = Some (road ! nat i)" "road ! nat i \<in> set road" using assms(1) by (auto simp: rd_def)
    show "\<exists>t'. kruskal_step road i t = Some t' \<and> t' = (0, ?v)"
      using r places i root [of "road_a (road ! nat i)"] root [of "road_b (road ! nat i)"]
      by (simp add: kruskal_step_def)
  qed (use that in auto)
  then have "Kruskal g road ?v = Some (0, ?v)" using assms(2) by (cases "k = 0") (auto simp: Kruskal_def)
  moreover have "Prim maxSize INF' h v0 = None"
    using two by (auto simp: Prim_def for_up.simps [of 1 "gn h"] prim_min_never Option.bind_eq_None_conv)
  ultimately show ?thesis by blast
qed

lemma spanning_trees_defective_witness:
  "Kruskal \<lparr>edges = [], gn = 2, ge = 0, ver = []\<rparr> [\<lparr>road_a = 0, road_b = 0, road_w = 9\<rparr>,
     \<lparr>road_a = 0, road_b = 1, road_w = 4\<rparr>] (replicate 5 0) = Some (0, replicate 5 0) \<and>
   Prim 10 100 \<lparr>edges = [[0, 0, 0], [0, 0, 1], [0, 1, 0]], gn = 2, ge = 1, ver = []\<rparr> 1 = None"
  using spanning_trees_defective [of 2 "[\<lparr>road_a = 0, road_b = 0, road_w = 9\<rparr>,
      \<lparr>road_a = 0, road_b = 1, road_w = 4\<rparr>]" "\<lparr>edges = [], gn = 2, ge = 0, ver = []\<rparr>" 5
      "\<lparr>edges = [[0, 0, 0], [0, 0, 1], [0, 1, 0]], gn = 2, ge = 1, ver = []\<rparr>" 10 100 1]
  by simp

text \<open>The loop looks at the first \<open>N - 1\<close> roads only: here the third closes a circle, the fourth is
  never read, and place 3 is not reached.\<close>

lemma Kruskal_misses:
  "Kruskal \<lparr>edges = [], gn = 4, ge = 4, ver = []\<rparr> [\<lparr>road_a = 0, road_b = 0, road_w = 0\<rparr>,
     \<lparr>road_a = 0, road_b = 1, road_w = 1\<rparr>, \<lparr>road_a = 1, road_b = 2, road_w = 1\<rparr>,
     \<lparr>road_a = 0, road_b = 2, road_w = 1\<rparr>, \<lparr>road_a = 2, road_b = 3, road_w = 1\<rparr>] [0, 1, 2, 3] =
   Some (2, [1, 2, 2, 3])"
  by (simp add: Kruskal_def kruskal_step_def for_up.simps rd_def wr_def getRoot.simps cadd_def)

end
