(* ===== verification/Mongoose.thy ===== *)
theory Mongoose
  imports Url_Encode
begin

text \<open>
  The functions of \<open>c++/utils/web_server/common/mongoose.cc\<close> that the web server calls itself: comparison of
  counted strings, the variables of a form, chunks of a response and websocket frames.  The rest of that
  third-party file is not modelled.  A \<open>mg_str\<close> is the list of its bytes; so is a C string, without its
  final zero; a destination buffer is the list of its cells.
\<close>

section \<open>Definitions\<close>

definition tolower :: "byte \<Rightarrow> byte" where
  "tolower c = (if 65 \<le> c \<and> c \<le> 90 then c + 32 else c)"

definition isdigit :: "byte \<Rightarrow> bool" where
  "isdigit c \<longleftrightarrow> 48 \<le> c \<and> c \<le> 57"

definition isxdigit :: "byte \<Rightarrow> bool" where
  "isxdigit c \<longleftrightarrow> isdigit c \<or> 97 \<le> tolower c \<and> tolower c \<le> 102"

definition HEXTOI :: "byte \<Rightarrow> byte" where
  "HEXTOI x = (if isdigit x then x - 48 else x - 87)"

fun memcmp :: "byte list \<Rightarrow> byte list \<Rightarrow> nat \<Rightarrow> int" where
  "memcmp (a # s) (b # t) (Suc n) = (if a = b then memcmp s t n else uint a - uint b)"
| "memcmp s t n = 0"

definition mg_vcmp :: "byte list \<Rightarrow> byte list \<Rightarrow> int" where
  "mg_vcmp str1 str2 =
     (let n2 = length str2; n1 = length str1; r = memcmp str1 str2 (min n1 n2) in
      if r = 0 then int n1 - int n2 else r)"

text \<open>\<open>None\<close> is a read behind the end.\<close>

fun mg_ncasecmp :: "byte list \<Rightarrow> byte list \<Rightarrow> nat \<Rightarrow> int option" where
  "mg_ncasecmp s1 s2 0 = Some 0"
| "mg_ncasecmp (a # s1) (b # s2) (Suc len) =
     (let diff = uint (tolower a) - uint (tolower b) in
      if diff = 0 \<and> a \<noteq> 0 \<and> len > 0 then mg_ncasecmp s1 s2 len else Some diff)"
| "mg_ncasecmp _ _ (Suc len) = None"

text \<open>How the loop of \<open>mg_url_decode\<close> ends: at the end of the source, for want of room, or at a bad escape.\<close>

datatype decode_end = Consumed | Full | Malformed

fun url_decode_loop :: "bool \<Rightarrow> nat \<Rightarrow> byte list \<Rightarrow> byte list \<times> decode_end" where
  "url_decode_loop form room [] = ([], Consumed)"
| "url_decode_loop form 0 (c # r) = ([], Full)"
| "url_decode_loop form (Suc room) (c # r) =
     (if c = 37 then
        (case r of
           a # b # r' \<Rightarrow>
             (if isxdigit a \<and> isxdigit b
              then map_prod (Cons (push_bit 4 (HEXTOI (tolower a)) OR HEXTOI (tolower b))) id
                     (url_decode_loop form room r')
              else ([], Malformed))
         | _ \<Rightarrow> ([], Malformed))
      else map_prod (Cons (if form \<and> c = 43 then 32 else c)) id (url_decode_loop form room r))"

text \<open>The returned number and the contents of the destination.\<close>

definition mg_url_decode :: "byte list \<Rightarrow> byte list \<Rightarrow> bool \<Rightarrow> (int \<times> byte list) option" where
  "mg_url_decode src dst form =
     (let (out, fin) = url_decode_loop form (length dst - 1) src;
          j = length out;
          dst1 = out @ drop j dst in
      if fin = Malformed then Some (- 1, dst1)
      else do { dst2 \<leftarrow> wr dst1 (int j) 0; Some (if fin = Consumed then int j else - 1, dst2) })"

text \<open>The search for \<open>name=\<close>; \<open>at\<close> tells whether the position is the first or follows an ampersand.\<close>

fun find_var :: "byte list \<Rightarrow> bool \<Rightarrow> byte list \<Rightarrow> byte list option" where
  "find_var name at [] = None"
| "find_var name at (c # r) =
     (if length name < length (c # r) then
        (if at \<and> (c # r) ! length name = 61 \<and> mg_ncasecmp name (c # r) (length name) = Some 0
         then Some (takeWhile (\<lambda>c. c \<noteq> 38) (drop (length name + 1) (c # r)))
         else find_var name (c = 38) r)
      else None)"

definition mg_get_http_var :: "byte list \<Rightarrow> byte list \<Rightarrow> byte list \<Rightarrow> (int \<times> byte list) option" where
  "mg_get_http_var buf name dst =
     (if dst = [] then Some (- 2, dst)
      else if buf = [] then Some (- 1, dst[0 := 0])
      else (case find_var name True buf of
          None \<Rightarrow> Some (- 1, dst[0 := 0])
        | Some p \<Rightarrow> do {
            (len, dst') \<leftarrow> mg_url_decode p (dst[0 := 0]) True;
            Some (if len = - 1 then - 2 else len, dst') }))"

function hex_upper :: "nat \<Rightarrow> byte list" where
  "hex_upper n = (if n < 16 then [hex_chars ! n] else hex_upper (n div 16) @ [hex_chars ! (n mod 16)])"
  by pat_completeness auto
termination by (relation "measure id") auto

declare hex_upper.simps [simp del]

text \<open>The bytes given to \<open>mg_send\<close>, in order.\<close>

definition mg_send_http_chunk :: "byte list \<Rightarrow> byte list" where
  "mg_send_http_chunk buf = hex_upper (length buf) @ [13, 10] @ buf @ [13, 10]"

definition big_endian :: "nat \<Rightarrow> nat \<Rightarrow> byte list" where
  "big_endian k n = map (\<lambda>i. word_of_nat (n div 256 ^ (k - 1 - i))) [0..<k]"

text \<open>On a connection that the server has accepted, frames are not masked.  The operation codes of all calls
  are below 16 and without \<open>WEBSOCKET_DONT_FIN\<close>; \<open>size_t\<close> has 64 bits.\<close>

definition mg_send_ws_header :: "byte \<Rightarrow> nat \<Rightarrow> byte list" where
  "mg_send_ws_header op len =
     (if len < 126 then [128 + (op AND 15), word_of_nat len]
      else if len < 65535 then [128 + (op AND 15), 126] @ big_endian 2 len
      else [128 + (op AND 15), 127] @ big_endian 8 len)"

definition mg_send_websocket_frame :: "byte \<Rightarrow> byte list \<Rightarrow> byte list" where
  "mg_send_websocket_frame op data = mg_send_ws_header op (length data) @ data"

section \<open>Comparison\<close>

lemma memcmp_min_0: "memcmp s t (min (length s) (length t)) = 0 \<longleftrightarrow>
    take (min (length s) (length t)) s = take (min (length s) (length t)) t"
proof (induction s arbitrary: t)
  case (Cons a s)
  then show ?case by (cases t) (auto simp: word_uint_eq_iff)
qed simp

lemma mg_vcmp_eq: "mg_vcmp s t = 0 \<longleftrightarrow> s = t"
proof
  assume z: "mg_vcmp s t = 0"
  then have m: "memcmp s t (min (length s) (length t)) = 0" "length s = length t"
    by (auto simp: mg_vcmp_def Let_def split: if_splits)
  then show "s = t" using memcmp_min_0 [of s t] by simp
next
  assume "s = t"
  then show "mg_vcmp s t = 0" using memcmp_min_0 [of t t] by (simp add: mg_vcmp_def)
qed

lemma mg_ncasecmp_0:
  assumes "0 \<notin> set s" "length s \<le> length t"
  shows "mg_ncasecmp s t (length s) = Some 0 \<longleftrightarrow> map tolower s = map tolower (take (length s) t)"
  using assms
proof (induction s arbitrary: t)
  case (Cons a s)
  then obtain b t' where t: "t = b # t'" by (cases t) auto
  have "uint (tolower a) - uint (tolower b) = 0 \<longleftrightarrow> tolower a = tolower b" by (simp add: word_uint_eq_iff)
  then show ?case using Cons t by (cases s) (auto simp: Let_def)
qed simp

section \<open>Forms\<close>

lemma hex_char_value: "n < 16 \<Longrightarrow> isxdigit (hex_chars ! n) \<and> HEXTOI (tolower (hex_chars ! n)) = word_of_nat n"
proof -
  have "\<forall>n \<in> {..<16}. isxdigit (hex_chars ! n) \<and> HEXTOI (tolower (hex_chars ! n)) = word_of_nat n" by code_simp
  then show "n < 16 \<Longrightarrow> ?thesis" by blast
qed

lemma join_nibbles: "push_bit 4 (drop_bit 4 c) OR (c mod 16) = (c :: byte)"
proof -
  have "c mod 16 = take_bit 4 c" by (simp add: take_bit_eq_mod)
  then show ?thesis by (auto intro!: bit_eqI simp: bit_simps)
qed

lemma decode_percent:
  "url_decode_loop form (Suc room) (percent c @ r) = map_prod (Cons c) id (url_decode_loop form room r)"
  using hex_char_value [OF nibbles(1)] hex_char_value [OF nibbles(2)]
  by (simp add: percent_def join_nibbles)

lemma decode_urlEncode:
  assumes "\<forall>c \<in> set s. isspace c \<longrightarrow> c = 32" "length s \<le> room"
  shows "url_decode_loop form room (urlEncode s) = (s, Consumed)"
  using assms
proof (induction s arbitrary: room rule: urlEncode.induct)
  case (2 cc rest)
  then obtain k where room: "room = Suc k" by (cases room) auto
  have x: "isxdigit 50" "isxdigit 48" "HEXTOI (tolower 50) = 2" "HEXTOI (tolower 48) = 0" "isspace 32"
    by (simp_all add: isxdigit_def isdigit_def HEXTOI_def tolower_def isspace_def)
  consider "isalnum cc" | "\<not> isalnum cc" "isspace cc" | "\<not> isalnum cc" "\<not> isspace cc" "rest = []"
    | c_next rest' where "\<not> isalnum cc" "\<not> isspace cc" "rest = c_next # rest'" by (cases rest) auto
  then show ?case
  proof cases
    case 1
    then have "cc \<noteq> 37" "cc \<noteq> 43" by (auto simp: isalnum_def)
    then show ?thesis using 1 2 room by simp
  next
    case 2
    then show ?thesis using "2.IH"(2) "2.prems" room x by simp
  next
    case 3
    then show ?thesis using room decode_percent [of form k cc "[]"] by simp
  next
    case 4
    show ?thesis
    proof (cases "isGBKFirstPart cc")
      case True
      then obtain k' where "k = Suc k'" using "2.prems" room 4 by (cases k) auto
      then show ?thesis using "2.IH"(3) [OF 4 True] "2.prems" 4 True room by (simp add: decode_percent)
    next
      case False
      then show ?thesis using "2.IH"(4) [OF 4 False] "2.prems" 4 room by (simp add: decode_percent)
    qed
  qed
qed simp

text \<open>A form as a client sends it: \<open>name=value\<close> pairs between ampersands, the values encoded by
  \<open>urlEncode\<close>.\<close>

fun form_body :: "(byte list \<times> byte list) list \<Rightarrow> byte list" where
  "form_body [] = []"
| "form_body [(k, v)] = k @ 61 # urlEncode v"
| "form_body ((k, v) # fs) = k @ 61 # urlEncode v @ 38 # form_body fs"

definition plain_field :: "byte list \<times> byte list \<Rightarrow> bool" where
  "plain_field f \<longleftrightarrow> 38 \<notin> set (fst f) \<and> 61 \<notin> set (fst f) \<and> (\<forall>c \<in> set (snd f). isspace c \<longrightarrow> c = 32)"

definition same_name :: "byte list \<Rightarrow> byte list \<times> byte list \<Rightarrow> bool" where
  "same_name name f \<longleftrightarrow> map tolower name = map tolower (fst f)"

lemma urlEncode_no_amp: "38 \<notin> set (urlEncode v)"
  using urlEncode_safe [of 38 v] by (auto simp: isalnum_def)

lemma takeWhile_amp: "38 \<notin> set xs \<Longrightarrow> takeWhile (\<lambda>c. c \<noteq> 38) (xs @ 38 # r) = xs"
  "38 \<notin> set xs \<Longrightarrow> takeWhile (\<lambda>c. c \<noteq> 38) xs = (xs :: byte list)"
  by (induction xs) auto

text \<open>From a position inside a field the search goes on to the next one.\<close>

lemma find_var_short: "length s \<le> length name \<Longrightarrow> find_var name at s = None"
  by (cases s) auto

lemma find_var_skip:
  "38 \<notin> set s \<Longrightarrow> find_var name False (s @ 38 # r) = find_var name True r"
  "38 \<notin> set s \<Longrightarrow> find_var name False s = None"
proof -
  show "38 \<notin> set s \<Longrightarrow> find_var name False (s @ 38 # r) = find_var name True r"
    by (induction s) (auto simp: find_var_short)
  show "38 \<notin> set s \<Longrightarrow> find_var name False s = None" by (induction s) auto
qed

lemma field_matches:
  assumes "61 \<notin> set name" "0 \<notin> set name" "61 \<notin> set k"
  shows "length name < length (k @ 61 # r) \<and> (k @ 61 # r) ! length name = 61 \<and>
      mg_ncasecmp name (k @ 61 # r) (length name) = Some 0 \<longleftrightarrow> map tolower name = map tolower k" (is "?l \<longleftrightarrow> ?r")
proof
  assume r: ?r
  then have "length name = length k" by (metis length_map)
  then show ?l using r assms(2) mg_ncasecmp_0 [of name "k @ 61 # r"] by simp
next
  assume l: ?l
  then have eq: "map tolower name = map tolower (take (length name) (k @ 61 # r))"
    using mg_ncasecmp_0 [OF assms(2), of "k @ 61 # r"] by simp
  show ?r
  proof (cases "length name \<le> length k")
    case True
    have "length name = length k"
    proof (rule ccontr)
      assume "length name \<noteq> length k"
      then have "k ! length name = 61" "length name < length k" using l True by (simp_all add: nth_append)
      then show False using assms(3) by (metis nth_mem)
    qed
    then show ?thesis using eq by simp
  next
    case False
    then have "map tolower name ! length k = tolower 61" using eq by (simp add: nth_append)
    then have "tolower (name ! length k) = 61" using False by (simp add: tolower_def)
    then have "name ! length k = 61"
      by (auto simp: tolower_def word_le_nat_alt unat_word_ariths split: if_splits)
    then show ?thesis using assms(1) False by (metis not_le_imp_less nth_mem)
  qed
qed

lemma find_var_field:
  assumes "61 \<notin> set name" "0 \<notin> set name" "61 \<notin> set k" "38 \<notin> set k"
    and t: "t = [] \<or> t = 38 # r"
  shows "find_var name True (k @ 61 # urlEncode v @ t) =
    (if map tolower name = map tolower k then Some (urlEncode v)
     else if t = [] then None else find_var name True r)"
proof -
  let ?s = "k @ 61 # urlEncode v @ t"
  obtain c s where s: "?s = c # s" "c \<noteq> 38" using assms(4) by (cases k) auto
  show ?thesis
  proof (cases "map tolower name = map tolower k")
    case True
    then have "length name = length k" by (metis length_map)
    then have "drop (length name + 1) ?s = urlEncode v @ t" by simp
    then have "takeWhile (\<lambda>c. c \<noteq> 38) (drop (length name + 1) ?s) = urlEncode v"
      using t takeWhile_amp [OF urlEncode_no_amp] by auto
    then show ?thesis using True field_matches [OF assms(1-3), of "urlEncode v @ t"] s(1) by auto
  next
    case False
    then have "find_var name True ?s = (if length name < length ?s then find_var name False s else None)"
      using field_matches [OF assms(1-3), of "urlEncode v @ t"] s by auto
    moreover have "find_var name False s = None" if "\<not> length name < length ?s"
      using that s(1) find_var_short [of s name False] by simp
    ultimately have "find_var name True ?s = find_var name False s" by simp
    moreover define u where "u = (if k = [] then urlEncode v else tl k @ 61 # urlEncode v)"
    moreover have "s = u @ t" "38 \<notin> set u"
      using s(1) assms(4) urlEncode_no_amp [of v] by (cases k; simp add: u_def)+
    ultimately show ?thesis using False t find_var_skip [of u] by auto
  qed
qed

lemma find_var_form:
  assumes "61 \<notin> set name" "0 \<notin> set name" "\<forall>f \<in> set fs. plain_field f"
  shows "find_var name True (form_body fs) =
    map_option (\<lambda>f. urlEncode (snd f)) (find (same_name name) fs)"
  using assms(3)
proof (induction fs rule: form_body.induct)
  case (2 k v)
  then show ?case using find_var_field [OF assms(1,2), of k "[]" "[]" v] by (simp add: plain_field_def same_name_def)
next
  case (3 k v f fs)
  then show ?case
    using find_var_field [OF assms(1,2), of k "38 # form_body (f # fs)" "form_body (f # fs)" v]
    by (simp add: plain_field_def same_name_def)
qed simp

text \<open>A form whose values are encoded by \<open>urlEncode\<close> and read by \<open>mg_get_http_var\<close>, as the server does with
  the variables of a request: the buffer gets the value of the first field with the name, letter case
  aside, when it fits; no such field gives -1 and an empty string.\<close>

theorem form_roundtrip:
  assumes "61 \<notin> set name" "0 \<notin> set name" "\<forall>f \<in> set fs. plain_field f" "fs \<noteq> []" "dst \<noteq> []"
    and fits: "\<forall>f \<in> set fs. length (snd f) < length dst"
  shows "mg_get_http_var (form_body fs) name dst =
    (case find (same_name name) fs of
       None \<Rightarrow> Some (- 1, 0 # tl dst)
     | Some (k, v) \<Rightarrow> Some (int (length v), v @ 0 # drop (length v + 1) dst))"
proof -
  have "form_body fs \<noteq> []" using assms(4) by (induction fs rule: form_body.induct) auto
  moreover have zero: "dst[0 := 0] = 0 # tl dst" using assms(5) by (cases dst) auto
  moreover have "mg_url_decode (urlEncode v) (0 # tl dst) True = Some (int (length v), v @ 0 # drop (length v + 1) dst)"
    if "find (same_name name) fs = Some (k, v)" for k v
  proof -
    have f: "(k, v) \<in> set fs" using that by (auto simp: find_Some_iff in_set_conv_nth)
    then have v: "\<forall>c \<in> set v. isspace c \<longrightarrow> c = 32" "length v \<le> length (0 # tl dst) - 1" "length v < length dst"
      using assms(3) fits by (fastforce simp: plain_field_def)+
    have "(v @ drop (length v) (0 # tl dst))[length v := 0] = v @ 0 # drop (length v + 1) dst"
      using v(3) by (cases dst) (auto simp: list_update_append drop_Cons' neq_Nil_conv
          simp flip: Cons_nth_drop_Suc split: nat.splits)
    then show ?thesis using decode_urlEncode [OF v(1,2), of True] v(3) assms(5)
      by (simp add: mg_url_decode_def wr_def Let_def)
  qed
  ultimately show ?thesis
    using assms(5) find_var_form [OF assms(1-3)]
    by (auto simp: mg_get_http_var_def split: option.splits)
qed

lemma form_roundtrip_witness:
  "mg_get_http_var (form_body [([110, 49], [51, 32, 38]), ([110, 50], [55])]) [78, 49] [1, 1, 1, 1, 1] =
     Some (3, [51, 32, 38] @ 0 # [1])"
  using form_roundtrip [of "[78, 49]" "[([110, 49], [51, 32, 38]), ([110, 50], [55])]" "[1, 1, 1, 1, 1]"]
  by (simp add: plain_field_def isspace_def same_name_def tolower_def)

section \<open>Frames\<close>

text \<open>What a peer reads from the head of a frame: the operation, the length and the rest.\<close>

definition from_big_endian :: "byte list \<Rightarrow> nat" where
  "from_big_endian bs = foldl (\<lambda>n b. 256 * n + unat b) 0 bs"

fun read_frame :: "byte list \<Rightarrow> (byte \<times> byte list) option" where
  "read_frame (h # l # r) =
     (if l < 126 then Some (h AND 15, take (unat l) r)
      else if l = 126 then Some (h AND 15, take (from_big_endian (take 2 r)) (drop 2 r))
      else Some (h AND 15, take (from_big_endian (take 8 r)) (drop 8 r)))"
| "read_frame _ = None"

lemma big_endian_Suc: "big_endian (Suc k) n = big_endian k (n div 256) @ [word_of_nat n]"
proof -
  have "n div 256 ^ (k - i) = n div 256 div 256 ^ (k - 1 - i)" if "i < k" for i
  proof -
    have "k - i = Suc (k - 1 - i)" using that by simp
    then show ?thesis by (simp only: power_Suc div_mult2_eq)
  qed
  then show ?thesis by (simp add: big_endian_def)
qed

lemma length_big_endian [simp]: "length (big_endian k n) = k"
  by (simp add: big_endian_def)

lemma from_big_endian: "n < 256 ^ k \<Longrightarrow> from_big_endian (big_endian k n) = n"
proof (induction k arbitrary: n)
  case 0
  then show ?case by (simp add: from_big_endian_def big_endian_def)
next
  case (Suc k)
  then have "from_big_endian (big_endian k (n div 256)) = n div 256" by (simp add: less_mult_imp_div_less)
  then show ?case by (simp add: big_endian_Suc from_big_endian_def unsigned_of_nat take_bit_eq_mod)
qed

lemma frame_roundtrip:
  assumes "op < 16" "length data < 2 ^ 64"
  shows "read_frame (mg_send_websocket_frame op data) = Some (op, data)"
proof -
  have "\<forall>op \<in> set (map word_of_nat [0..<16]). op AND 15 = (op :: byte) \<and> (128 + op) AND 15 = op"
    by code_simp
  moreover have "op = word_of_nat (unat op)" "unat op < 16" using assms(1) by (simp_all add: word_less_nat_alt)
  then have "op \<in> set (map word_of_nat [0..<16])" by (metis atLeast_upt imageI lessThan_iff list.set_map)
  ultimately have op: "op AND 15 = op" and h: "(128 + op) AND 15 = op" by blast+
  show ?thesis
  proof (cases "length data < 126")
    case True
    then have "unat (word_of_nat (length data) :: byte) = length data"
      by (simp add: unsigned_of_nat take_bit_eq_mod)
    moreover from this have "(word_of_nat (length data) :: byte) < 126" using True by (simp add: word_less_nat_alt)
    ultimately show ?thesis using True op h by (simp add: mg_send_websocket_frame_def mg_send_ws_header_def)
  next
    case False
    then show ?thesis using op h assms(2)
      by (simp add: mg_send_websocket_frame_def mg_send_ws_header_def from_big_endian)
  qed
qed

section \<open>Chunks\<close>

text \<open>What a client reads from a chunked body: chunks up to the empty one.\<close>

definition from_hex :: "byte list \<Rightarrow> nat" where
  "from_hex ds = foldl (\<lambda>n d. 16 * n + unhex d) 0 ds"

function read_chunks :: "byte list \<Rightarrow> byte list option" where
  "read_chunks s =
     (let ds = takeWhile (\<lambda>c. c \<noteq> 13) s; len = from_hex ds; r = drop (length ds + 2) s in
      if s = [] then None
      else if len = 0 then Some []
      else map_option (\<lambda>t. take len r @ t) (read_chunks (drop (len + 2) r)))"
  by pat_completeness auto
termination by (relation "measure length") auto

declare read_chunks.simps [simp del]

lemma hex_upper_digits: "\<forall>c \<in> set (hex_upper n). c \<noteq> 13"
proof (induction n rule: hex_upper.induct)
  case (1 n)
  have "hex_chars ! k \<noteq> 13" if "k < 16" for k
    using hex_chars_digit [OF that] by (auto simp: isalnum_def)
  then show ?case using 1 by (subst hex_upper.simps) auto
qed

lemma from_hex_upper: "from_hex (hex_upper n) = n"
proof (induction n rule: hex_upper.induct)
  case (1 n)
  show ?case
  proof (cases "n < 16")
    case True
    then show ?thesis using hex_chars_digit by (simp add: hex_upper.simps [of n] from_hex_def)
  next
    case False
    then have "unhex (hex_chars ! (n mod 16)) = n mod 16" using hex_chars_digit by simp
    then show ?thesis using 1 False by (simp add: hex_upper.simps [of n] from_hex_def)
  qed
qed

lemma read_chunk:
  assumes "buf \<noteq> []"
  shows "read_chunks (mg_send_http_chunk buf @ r) = map_option (\<lambda>t. buf @ t) (read_chunks r)"
proof -
  let ?h = "hex_upper (length buf)"
  have "takeWhile (\<lambda>c. c \<noteq> 13) (?h @ 13 # t) = ?h" for t
    using hex_upper_digits [of "length buf"] by (subst takeWhile_append2) auto
  then show ?thesis using assms by (subst read_chunks.simps)
      (simp add: mg_send_http_chunk_def Let_def from_hex_upper numeral_2_eq_2)
qed

lemma read_last_chunk: "read_chunks (mg_send_http_chunk [] @ r) = Some []"
  using hex_chars_digit [of 0] hex_upper_digits [of 0]
  by (subst read_chunks.simps) (simp add: mg_send_http_chunk_def hex_upper.simps [of 0] from_hex_def Let_def)

end
