(* ===== verification/Http_Server.thy ===== *)
theory Http_Server
  imports Mongoose
begin

text \<open>
  The web server of \<open>c++/utils/web_server/httpserver\<close> (\<open>http_server.cc\<close>, \<open>http_server.h\<close>, \<open>main.cc\<close>): the
  table of handlers, the answers to a request, and the sessions of websocket connections.  The event loop of
  mongoose calls \<open>OnHttpWebsocketEvent\<close>; its calls are the list of events of \<open>serve\<close>.  An output is
  what the handler gives to mongoose: bytes to send on a connection, or a request that \<open>mg_serve_http\<close>
  answers from the file system.  The library's \<open>strtod\<close> and \<open>std::to_string\<close> are the parameter \<open>add\<close>,
  which gives the text of the sum of two texts; the contents of uninitialised arrays are the parameter
  \<open>junk\<close>.  \<open>None\<close> is an access outside an array.
\<close>

section \<open>Definitions\<close>

definition ascii :: "string \<Rightarrow> byte list" where
  "ascii s = map of_char s"

definition c_str :: "byte list \<Rightarrow> byte list" where
  "c_str s = takeWhile (\<lambda>c. c \<noteq> 0) s"

record http_message =
  message :: "byte list"
  uri :: "byte list"
  body :: "byte list"

record mg_connection =
  cid :: nat
  flags :: "64 word"

datatype sent = Send nat "byte list" | Serve nat http_message

type_synonym ReqHandler = "byte list \<Rightarrow> byte list \<Rightarrow> mg_connection \<Rightarrow> sent list"

record HttpServer =
  s_handler_map :: "byte list \<rightharpoonup> ReqHandler"
  s_websocket_session_set :: "nat set"

definition AddHandler :: "byte list \<Rightarrow> ReqHandler \<Rightarrow> HttpServer \<Rightarrow> HttpServer" where
  "AddHandler url req_handler s =
     (if s_handler_map s url \<noteq> None then s
      else s\<lparr>s_handler_map := (s_handler_map s)(url \<mapsto> req_handler)\<rparr>)"

definition RemoveHandler :: "byte list \<Rightarrow> HttpServer \<Rightarrow> HttpServer" where
  "RemoveHandler url s =
     (case s_handler_map s url of
        Some _ \<Rightarrow> s\<lparr>s_handler_map := (s_handler_map s)(url := None)\<rparr>
      | None \<Rightarrow> s)"

definition route_check :: "http_message \<Rightarrow> byte list \<Rightarrow> bool" where
  "route_check http_msg route_prefix \<longleftrightarrow> mg_vcmp (uri http_msg) route_prefix = 0"

definition crlf :: "byte list" where
  "crlf = [13, 10]"

definition SendHttpRsp :: "mg_connection \<Rightarrow> byte list \<Rightarrow> sent list" where
  "SendHttpRsp connection rsp =
     [Send (cid connection)
        (ascii ''HTTP/1.1 200 OK'' @ crlf @ ascii ''Transfer-Encoding: chunked'' @ crlf @ crlf),
      Send (cid connection)
        (mg_send_http_chunk (ascii ''{ '' @ [34] @ ascii ''result'' @ [34] @ ascii '': '' @ c_str rsp @ ascii '' }'')),
      Send (cid connection) (mg_send_http_chunk [])]"

text \<open>A variable of the form in a buffer of 100 bytes, as the string that \<open>strtod\<close> gets; a buffer without a
  final zero is \<open>None\<close>.\<close>

definition form_var :: "byte list \<Rightarrow> http_message \<Rightarrow> byte list \<Rightarrow> byte list option" where
  "form_var junk http_req name = do {
     (len, n) \<leftarrow> mg_get_http_var (body http_req) name junk;
     if 0 \<in> set n then Some (c_str n) else None }"

definition internal_error :: "byte list" where
  "internal_error = ascii ''{'' @ [34] @ ascii ''message'' @ [34] @ ascii '':'' @ [34] @ ascii ''500 Internal Error''
     @ [34] @ ascii '','' @ [34] @ ascii ''status'' @ [34] @ ascii '':500}''"

definition HandleHttpEvent :: "(byte list \<Rightarrow> byte list \<Rightarrow> byte list) \<Rightarrow> byte list \<times> byte list \<Rightarrow>
    mg_connection \<Rightarrow> http_message \<Rightarrow> HttpServer \<Rightarrow> sent list option" where
  "HandleHttpEvent add junk connection http_req s = do {
     let url = uri http_req;
     let handled = (case s_handler_map s url of
        Some handle_func \<Rightarrow> handle_func url (body http_req) connection
      | None \<Rightarrow> []);
     answer \<leftarrow>
       (if route_check http_req (ascii ''/'') then Some [Serve (cid connection) http_req]
        else if route_check http_req (ascii ''/api/hello'') then
          Some (SendHttpRsp connection (ascii ''welcome to httpserver''))
        else if route_check http_req (ascii ''/api/sum'') then do {
          n1 \<leftarrow> form_var (fst junk) http_req (ascii ''n1'');
          n2 \<leftarrow> form_var (snd junk) http_req (ascii ''n2'');
          Some (SendHttpRsp connection (add n1 n2)) }
        else Some (SendHttpRsp connection internal_error));
     Some (handled @ answer) }"

definition MG_F_IS_WEBSOCKET :: "64 word" where
  "MG_F_IS_WEBSOCKET = push_bit 8 1"

definition isWebsocket :: "mg_connection \<Rightarrow> bool" where
  "isWebsocket connection \<longleftrightarrow> flags connection AND MG_F_IS_WEBSOCKET \<noteq> 0"

definition WEBSOCKET_OP_TEXT :: byte where
  "WEBSOCKET_OP_TEXT = 1"

definition SendWebsocketMsg :: "nat \<Rightarrow> byte list \<Rightarrow> sent" where
  "SendWebsocketMsg c str = Send c (mg_send_websocket_frame WEBSOCKET_OP_TEXT (c_str str))"

text \<open>\<open>BroadcastWebsocketMsg\<close> visits the set in an order of the library's, \<open>order\<close>.\<close>

definition BroadcastWebsocketMsg :: "(nat set \<Rightarrow> nat list) \<Rightarrow> byte list \<Rightarrow> HttpServer \<Rightarrow> sent list" where
  "BroadcastWebsocketMsg order str s = map (\<lambda>c. SendWebsocketMsg c str) (order (s_websocket_session_set s))"

datatype mg_event =
    MG_EV_HTTP_REQUEST http_message
  | MG_EV_WEBSOCKET_HANDSHAKE_DONE
  | MG_EV_WEBSOCKET_FRAME "byte list"
  | MG_EV_CLOSE
  | MG_EV_OTHER

text \<open>\<open>strncpy (buff, p, len)\<close> into the zeroed array of 1024 bytes writes \<open>len\<close> cells: the bytes before a
  zero and zeros after it.\<close>

definition copy_frame :: "byte list \<Rightarrow> byte list option" where
  "copy_frame received = do {
     buff \<leftarrow> blit (replicate 1024 0) 0 (c_str received @ replicate (length received - length (c_str received)) 0);
     if 0 \<in> set buff then Some (c_str buff) else None }"

definition HandleWebsocketMessage :: "mg_connection \<Rightarrow> mg_event \<Rightarrow> HttpServer \<Rightarrow> (HttpServer \<times> sent list) option" where
  "HandleWebsocketMessage connection ev s =
     (case ev of
        MG_EV_WEBSOCKET_HANDSHAKE_DONE \<Rightarrow>
          Some (s\<lparr>s_websocket_session_set := insert (cid connection) (s_websocket_session_set s)\<rparr>,
            [SendWebsocketMsg (cid connection) (ascii ''client websocket connected'')])
      | MG_EV_WEBSOCKET_FRAME data \<Rightarrow> do {
          buff \<leftarrow> copy_frame data;
          Some (s, [SendWebsocketMsg (cid connection) (ascii ''send your msg back: '' @ buff)]) }
      | MG_EV_CLOSE \<Rightarrow>
          (if isWebsocket connection \<and> cid connection \<in> s_websocket_session_set s
           then Some (s\<lparr>s_websocket_session_set := s_websocket_session_set s - {cid connection}\<rparr>, [])
           else Some (s, []))
      | _ \<Rightarrow> Some (s, []))"

definition OnHttpWebsocketEvent :: "(byte list \<Rightarrow> byte list \<Rightarrow> byte list) \<Rightarrow> byte list \<times> byte list \<Rightarrow>
    mg_connection \<Rightarrow> mg_event \<Rightarrow> HttpServer \<Rightarrow> (HttpServer \<times> sent list) option" where
  "OnHttpWebsocketEvent add junk connection ev s =
     (case ev of
        MG_EV_HTTP_REQUEST http_req \<Rightarrow> do {
          out \<leftarrow> HandleHttpEvent add junk connection http_req s;
          Some (s, out) }
      | MG_EV_OTHER \<Rightarrow> Some (s, [])
      | _ \<Rightarrow> HandleWebsocketMessage connection ev s)"

text \<open>The loop of \<open>Start\<close>, for the events that mongoose reports, and the program of \<open>main.cc\<close>.\<close>

fun serve :: "(byte list \<Rightarrow> byte list \<Rightarrow> byte list) \<Rightarrow> byte list \<times> byte list \<Rightarrow>
    (mg_connection \<times> mg_event) list \<Rightarrow> HttpServer \<Rightarrow> (HttpServer \<times> sent list) option" where
  "serve add junk [] s = Some (s, [])"
| "serve add junk ((c, ev) # evs) s = do {
     (s1, out) \<leftarrow> OnHttpWebsocketEvent add junk c ev s;
     (s2, outs) \<leftarrow> serve add junk evs s1;
     Some (s2, out @ outs) }"

definition handle_fun1 :: ReqHandler where
  "handle_fun1 url req_body c = SendHttpRsp c (ascii ''rsp1'')"

definition handle_fun2 :: ReqHandler where
  "handle_fun2 url req_body c = SendHttpRsp c (ascii ''rsp2'')"

definition main_server :: HttpServer where
  "main_server = AddHandler (ascii ''/api/fun2'') handle_fun2 (AddHandler (ascii ''/api/fun1'') handle_fun1
     \<lparr>s_handler_map = Map.empty, s_websocket_session_set = {}\<rparr>)"

section \<open>Answers\<close>

lemma route_check_iff [simp]: "route_check r s \<longleftrightarrow> uri r = s"
  by (simp add: route_check_def mg_vcmp_eq)

text \<open>The bytes sent on a connection, in order.\<close>

definition sent_to :: "nat \<Rightarrow> sent list \<Rightarrow> byte list" where
  "sent_to c out = concat (map (\<lambda>p. case p of Send d bs \<Rightarrow> if d = c then bs else [] | _ \<Rightarrow> []) out)"

definition http_head :: "byte list" where
  "http_head = ascii ''HTTP/1.1 200 OK'' @ crlf @ ascii ''Transfer-Encoding: chunked'' @ crlf @ crlf"

definition result_json :: "byte list \<Rightarrow> byte list" where
  "result_json rsp = ascii ''{ '' @ [34] @ ascii ''result'' @ [34] @ ascii '': '' @ rsp @ ascii '' }''"

lemma sent_to_append [simp]: "sent_to c (a @ b) = sent_to c a @ sent_to c b"
  by (simp add: sent_to_def)

lemma SendHttpRsp_bytes:
  "\<exists>chunks. sent_to (cid c) (SendHttpRsp c rsp) = http_head @ chunks \<and>
    read_chunks chunks = Some (result_json (c_str rsp))"
proof -
  have "result_json (c_str rsp) \<noteq> []" by (simp add: result_json_def ascii_def)
  then have "read_chunks (mg_send_http_chunk (result_json (c_str rsp)) @ mg_send_http_chunk []) =
      Some (result_json (c_str rsp))"
    using read_last_chunk [of "[]"] by (simp add: read_chunk)
  then show ?thesis
    by (auto simp: SendHttpRsp_def sent_to_def http_head_def result_json_def)
qed

text \<open>A request for any other address than the three that are built in gets the answer 500 after
  whatever a registered handler has sent.  So for an address without handler there is one answer, and for
  the handlers that \<open>main\<close> registers there are two, of which only the first is the one that is meant.\<close>

theorem handler_then_500:
  fixes c :: mg_connection and r :: http_message
  assumes "uri r \<notin> {ascii ''/'', ascii ''/api/hello'', ascii ''/api/sum''}"
  shows "(case s_handler_map s (uri r) of
      None \<Rightarrow> HandleHttpEvent add junk c r s = Some (SendHttpRsp c internal_error)
    | Some h \<Rightarrow> HandleHttpEvent add junk c r s = Some (h (uri r) (body r) c @ SendHttpRsp c internal_error)) \<and>
    (uri r = ascii ''/api/fun1'' \<longrightarrow> (\<exists>out chunks1 chunks2. HandleHttpEvent add junk c r main_server = Some out \<and>
      sent_to (cid c) out = http_head @ chunks1 @ http_head @ chunks2 \<and>
      read_chunks chunks1 = Some (result_json (ascii ''rsp1'')) \<and>
      read_chunks chunks2 = Some (result_json internal_error)))"
proof -
  have two: "HandleHttpEvent add junk c r s =
      Some ((case s_handler_map s (uri r) of None \<Rightarrow> [] | Some h \<Rightarrow> h (uri r) (body r) c) @
        SendHttpRsp c internal_error)" for s
    using assms by (simp add: HandleHttpEvent_def Let_def)
  have "\<exists>out chunks1 chunks2. HandleHttpEvent add junk c r main_server = Some out \<and>
      sent_to (cid c) out = http_head @ chunks1 @ http_head @ chunks2 \<and>
      read_chunks chunks1 = Some (result_json (ascii ''rsp1'')) \<and>
      read_chunks chunks2 = Some (result_json internal_error)" if u: "uri r = ascii ''/api/fun1''"
  proof -
    have "s_handler_map main_server (ascii ''/api/fun1'') = Some handle_fun1"
      by (simp add: main_server_def AddHandler_def ascii_def)
    then have out: "HandleHttpEvent add junk c r main_server =
        Some (SendHttpRsp c (ascii ''rsp1'') @ SendHttpRsp c internal_error)"
      using two [of main_server] u by (simp add: handle_fun1_def)
    have "c_str (ascii ''rsp1'') = ascii ''rsp1''" "c_str internal_error = internal_error"
      by (simp_all add: c_str_def ascii_def internal_error_def)
    then obtain c1 c2 where
      "sent_to (cid c) (SendHttpRsp c (ascii ''rsp1'')) = http_head @ c1" "read_chunks c1 = Some (result_json (ascii ''rsp1''))"
      "sent_to (cid c) (SendHttpRsp c internal_error) = http_head @ c2" "read_chunks c2 = Some (result_json internal_error)"
      using SendHttpRsp_bytes [of c "ascii ''rsp1''"] SendHttpRsp_bytes [of c internal_error] by auto
    then have "sent_to (cid c) (SendHttpRsp c (ascii ''rsp1'') @ SendHttpRsp c internal_error) =
        http_head @ c1 @ http_head @ c2" "read_chunks c1 = Some (result_json (ascii ''rsp1''))"
        "read_chunks c2 = Some (result_json internal_error)" by simp_all
    then show ?thesis using out by blast
  qed
  then show ?thesis using two [of s] by (auto split: option.split)
qed

definition fun1_request :: http_message where
  "fun1_request = \<lparr>message = [], uri = ascii ''/api/fun1'', body = []\<rparr>"

lemma handler_then_500_witness:
  "\<exists>out chunks1 chunks2. HandleHttpEvent (\<lambda>a b. a) ([], []) \<lparr>cid = 1, flags = 0\<rparr> fun1_request main_server = Some out \<and>
    sent_to 1 out = http_head @ chunks1 @ http_head @ chunks2 \<and>
    read_chunks chunks1 = Some (result_json (ascii ''rsp1'')) \<and>
    read_chunks chunks2 = Some (result_json internal_error)"
  using handler_then_500 [of fun1_request "\<lambda>a b. a" "([], [])" "\<lparr>cid = 1, flags = 0\<rparr>" main_server]
  by (simp add: fun1_request_def ascii_def)


definition sum_request :: http_message where
  "sum_request = \<lparr>message = [], uri = ascii ''/api/sum'',
     body = form_body [(ascii ''n1'', ascii ''2''), (ascii ''N2'', ascii ''-3'')]\<rparr>"


section \<open>Websockets\<close>

lemma c_str_length: "length (c_str s) \<le> length s"
  by (simp add: c_str_def length_takeWhile_le)

lemma c_str_no_zero: "0 \<notin> set (c_str s)"
  unfolding c_str_def by (auto dest: set_takeWhileD)

lemma c_str_append_zero: "0 \<notin> set s \<Longrightarrow> c_str (s @ 0 # t) = s"
  by (induction s) (auto simp: c_str_def)

lemma frame_answer:
  "OnHttpWebsocketEvent add junk c (MG_EV_WEBSOCKET_FRAME data) s =
     (if length data < 1024 \<or> length data = 1024 \<and> 0 \<in> set data
      then Some (s, [Send (cid c) (mg_send_websocket_frame 1 (ascii ''send your msg back: '' @ c_str data))])
      else None)"
proof -
  let ?z = "c_str data @ replicate (length data - length (c_str data)) 0"
  have len: "length ?z = length data" using c_str_length [of data] by simp
  have pre: "c_str (ascii ''send your msg back: '' @ c_str data) = ascii ''send your msg back: '' @ c_str data"
    using c_str_no_zero [of data] by (auto simp: ascii_def c_str_def [of "_ @ _"] takeWhile_eq_all_conv c_str_def)
  have copy: "copy_frame data = (if length data < 1024 \<or> length data = 1024 \<and> 0 \<in> set data then Some (c_str data) else None)"
  proof (cases "length data \<le> 1024")
    case True
    define k where "k = 1024 - length (c_str data)"
    have "blit (replicate 1024 0) 0 ?z = Some (c_str data @ replicate k 0)"
      using True len by (simp add: blit_def k_def replicate_add [symmetric])
    moreover have "k = 0 \<longleftrightarrow> length data = 1024 \<and> 0 \<notin> set data"
    proof -
      have "length (c_str data) = length data \<longleftrightarrow> 0 \<notin> set data"
        unfolding c_str_def by (metis (mono_tags, lifting) length_takeWhile_le takeWhile_eq_all_conv
            takeWhile_eq_take take_all_iff take_all order_refl)
      then show ?thesis using True c_str_length [of data] by (auto simp: k_def)
    qed
    moreover have "c_str (c_str data @ replicate k 0) = c_str data"
      using c_str_no_zero [of data] c_str_append_zero [of "c_str data"] by (cases k) (auto simp: c_str_def)
    ultimately show ?thesis using True c_str_no_zero [of data] by (auto simp: copy_frame_def)
  qed (use len in \<open>simp add: copy_frame_def blit_def\<close>)
  show ?thesis
    by (simp add: OnHttpWebsocketEvent_def HandleWebsocketMessage_def copy SendWebsocketMsg_def pre WEBSOCKET_OP_TEXT_def)
qed

text \<open>C39: a frame comes back with the greeting in front when it is shorter than the buffer of 1024 bytes, or fills
  it and contains a zero; any other frame is copied beyond the buffer or read beyond it.\<close>

theorem frame_echo:
  "OnHttpWebsocketEvent add junk c (MG_EV_WEBSOCKET_FRAME data) s =
     (if length data < 1024 \<or> length data = 1024 \<and> 0 \<in> set data
      then Some (s, [Send (cid c) (mg_send_websocket_frame 1 (ascii ''send your msg back: '' @ c_str data))])
      else None)"
  by (rule frame_answer)

text \<open>The connections with a finished handshake that has not been followed by a close.\<close>

fun open_sockets :: "(mg_connection \<times> mg_event) list \<Rightarrow> nat set \<Rightarrow> nat set" where
  "open_sockets [] S = S"
| "open_sockets ((c, ev) # evs) S = open_sockets evs
     (case ev of MG_EV_WEBSOCKET_HANDSHAKE_DONE \<Rightarrow> insert (cid c) S | MG_EV_CLOSE \<Rightarrow> S - {cid c} | _ \<Rightarrow> S)"

text \<open>mongoose marks a connection as a websocket before it reports the handshake and keeps the mark.\<close>

definition marked :: "(mg_connection \<times> mg_event) list \<Rightarrow> bool" where
  "marked evs \<longleftrightarrow> (\<forall>c d. (c, MG_EV_CLOSE) \<in> set evs \<and> (d, MG_EV_WEBSOCKET_HANDSHAKE_DONE) \<in> set evs \<and> cid c = cid d
     \<longrightarrow> isWebsocket c)"

text \<open>C14: whatever events arrive, the session set holds exactly the open websockets, and the handlers stay; a
  broadcast reaches each of them once.\<close>

theorem sessions_open:
  assumes "serve add junk evs s = Some (s', out)" "marked evs" "s_websocket_session_set s = {}"
  shows "s_websocket_session_set s' = open_sockets evs {} \<and> s_handler_map s' = s_handler_map s \<and>
    (\<forall>order str. (\<forall>S. finite S \<longrightarrow> distinct (order S) \<and> set (order S) = S) \<longrightarrow>
      mset (BroadcastWebsocketMsg order str s') =
        image_mset (\<lambda>c. SendWebsocketMsg c str) (mset_set (open_sockets evs {})))"
proof -
  let ?hs = "\<lambda>evs. {cid d | d. (d, MG_EV_WEBSOCKET_HANDSHAKE_DONE) \<in> set evs}"
  have "s_websocket_session_set s' = open_sockets evs S \<and> s_handler_map s' = s_handler_map s \<and> finite (open_sockets evs S)"
    if "serve add junk evs s = Some (s', out)" "s_websocket_session_set s = S" "finite S"
      "\<forall>c. (c, MG_EV_CLOSE) \<in> set evs \<and> cid c \<in> S \<union> ?hs evs \<longrightarrow> isWebsocket c" for evs s out S
    using that
  proof (induction evs arbitrary: s out S)
    case (Cons e evs)
    obtain c ev where e: "e = (c, ev)" by fastforce
    obtain s1 o1 o2 where step: "OnHttpWebsocketEvent add junk c ev s = Some (s1, o1)" "serve add junk evs s1 = Some (s', o2)"
      using Cons.prems(1) unfolding e by (auto simp: bind_eq_Some_conv)
    let ?S = "case ev of MG_EV_WEBSOCKET_HANDSHAKE_DONE \<Rightarrow> insert (cid c) S | MG_EV_CLOSE \<Rightarrow> S - {cid c} | _ \<Rightarrow> S"
    have closing: "ev = MG_EV_CLOSE \<Longrightarrow> cid c \<in> S \<Longrightarrow> isWebsocket c" using Cons.prems(4) e by auto
    have s1: "s_websocket_session_set s1 = ?S" "s_handler_map s1 = s_handler_map s"
      using step(1) Cons.prems(2) closing
      by (auto simp: OnHttpWebsocketEvent_def HandleWebsocketMessage_def bind_eq_Some_conv
          split: mg_event.splits if_splits)
    have "finite ?S" using Cons.prems(3) by (simp split: mg_event.split)
    moreover have "\<forall>c. (c, MG_EV_CLOSE) \<in> set evs \<and> cid c \<in> ?S \<union> ?hs evs \<longrightarrow> isWebsocket c"
      using Cons.prems(4) unfolding e by (auto split: mg_event.splits)
    ultimately show ?case using Cons.IH [OF step(2) s1(1)] s1(2) unfolding e by simp
  qed simp
  note inv = this [OF assms(1,3) finite.emptyI]
  have hyp: "\<forall>c. (c, MG_EV_CLOSE) \<in> set evs \<and> cid c \<in> {} \<union> ?hs evs \<longrightarrow> isWebsocket c"
    using assms(2) unfolding marked_def by fastforce
  note s' = inv [OF hyp]
  have "mset (BroadcastWebsocketMsg order str s') =
        image_mset (\<lambda>c. SendWebsocketMsg c str) (mset_set (open_sockets evs {}))"
    if o: "\<forall>S. finite S \<longrightarrow> distinct (order S) \<and> set (order S) = S" for order str
    using s' mset_set_set [of "order (open_sockets evs {})"] o by (simp add: BroadcastWebsocketMsg_def)
  then show ?thesis using s' by blast
qed

definition two_clients :: "(mg_connection \<times> mg_event) list" where
  "two_clients = [(\<lparr>cid = 1, flags = 256\<rparr>, MG_EV_WEBSOCKET_HANDSHAKE_DONE),
     (\<lparr>cid = 2, flags = 256\<rparr>, MG_EV_WEBSOCKET_HANDSHAKE_DONE),
     (\<lparr>cid = 3, flags = 0\<rparr>, MG_EV_CLOSE), (\<lparr>cid = 1, flags = 256\<rparr>, MG_EV_CLOSE)]"

lemma sessions_open_witness:
  "\<exists>s' out. serve (\<lambda>a b. a) ([], []) two_clients main_server = Some (s', out) \<and>
    s_websocket_session_set s' = {2} \<and>
    BroadcastWebsocketMsg sorted_list_of_set (ascii ''hi'') s' = [SendWebsocketMsg 2 (ascii ''hi'')]"
proof -
  have "serve (\<lambda>a b. a) ([], []) two_clients main_server \<noteq> None"
    by (simp add: two_clients_def OnHttpWebsocketEvent_def HandleWebsocketMessage_def split: if_splits)
  then obtain s' out where run: "serve (\<lambda>a b. a) ([], []) two_clients main_server = Some (s', out)" by fastforce
  have "marked two_clients"
    by (auto simp: marked_def two_clients_def isWebsocket_def MG_F_IS_WEBSOCKET_def)
  moreover have "s_websocket_session_set main_server = {}" by (simp add: main_server_def AddHandler_def)
  ultimately have "s_websocket_session_set s' = open_sockets two_clients {} \<and> (\<forall>order str.
      (\<forall>S. finite S \<longrightarrow> distinct (order S) \<and> set (order S) = S) \<longrightarrow>
      mset (BroadcastWebsocketMsg order str s') =
        image_mset (\<lambda>c. SendWebsocketMsg c str) (mset_set (open_sockets two_clients {})))"
    using sessions_open [OF run] by blast
  moreover have "open_sockets two_clients {} = {2}" by (auto simp: two_clients_def)
  ultimately have "s_websocket_session_set s' = {2}"
    "mset (BroadcastWebsocketMsg sorted_list_of_set (ascii ''hi'') s') = {#SendWebsocketMsg 2 (ascii ''hi'')#}"
    by simp_all
  then show ?thesis using run by auto
qed

end
