(* ===== verification/Http_Client.thy ===== *)
theory Http_Client
  imports Bytes
begin

text \<open>
  The client of \<open>c++/utils/web_server/httpclient\<close>.  What mongoose reports in one call of \<open>mg_mgr_poll\<close> is
  a list of events; a client that still waits after the polls given is \<open>None\<close>, and so is the use of a
  null connection or of an empty callback.  Callbacks are labels; the calls made to them are the results.
\<close>

section \<open>Definitions\<close>

datatype client_event =
    MG_EV_CONNECT int
  | MG_EV_HTTP_REPLY "byte list"
  | MG_EV_CONN_CLOSE
  | MG_EV_UNUSED

record 'k HttpClient =
  s_exit_flag :: int
  s_req_callback :: "'k option"

definition client_start :: "'k HttpClient" where
  "client_start = \<lparr>s_exit_flag = 0, s_req_callback = None\<rparr>"

definition OnHttpEvent :: "client_event \<Rightarrow> 'k HttpClient \<Rightarrow> ('k HttpClient \<times> ('k \<times> byte list) list) option" where
  "OnHttpEvent ev s =
     (case ev of
        MG_EV_CONNECT connect_status \<Rightarrow>
          Some (if connect_status \<noteq> 0 then s\<lparr>s_exit_flag := 1\<rparr> else s, [])
      | MG_EV_HTTP_REPLY rsp \<Rightarrow> do {
          let s1 = s\<lparr>s_exit_flag := 1\<rparr>;
          k \<leftarrow> s_req_callback s1;
          Some (s1, [(k, rsp)]) }
      | MG_EV_CONN_CLOSE \<Rightarrow>
          Some (if s_exit_flag s = 0 then s\<lparr>s_exit_flag := 1\<rparr> else s, [])
      | MG_EV_UNUSED \<Rightarrow> Some (s, []))"

fun poll :: "client_event list \<Rightarrow> 'k HttpClient \<Rightarrow> ('k HttpClient \<times> ('k \<times> byte list) list) option" where
  "poll [] s = Some (s, [])"
| "poll (ev # evs) s = do {
     (s1, c1) \<leftarrow> OnHttpEvent ev s;
     (s2, c2) \<leftarrow> poll evs s1;
     Some (s2, c1 @ c2) }"

fun poll_loop :: "client_event list list \<Rightarrow> 'k HttpClient \<Rightarrow>
    ('k HttpClient \<times> ('k \<times> byte list) list \<times> client_event list list) option" where
  "poll_loop polls s =
     (if s_exit_flag s = 0 then
        (case polls of
           [] \<Rightarrow> None
         | evs # polls' \<Rightarrow> do {
             (s1, c1) \<leftarrow> poll evs s;
             (s2, c2, rest) \<leftarrow> poll_loop polls' s1;
             Some (s2, c1 @ c2, rest) })
      else Some (s, [], polls))"

declare poll_loop.simps [simp del]

text \<open>\<open>connected\<close> tells whether \<open>mg_connect_http\<close> accepts the address.\<close>

definition SendReq :: "(byte list \<Rightarrow> bool) \<Rightarrow> byte list \<Rightarrow> 'k \<Rightarrow> client_event list list \<Rightarrow> 'k HttpClient \<Rightarrow>
    ('k HttpClient \<times> ('k \<times> byte list) list \<times> client_event list list) option" where
  "SendReq connected url req_callback polls s = do {
     let s1 = s\<lparr>s_req_callback := Some req_callback\<rparr>;
     if connected url then poll_loop polls s1 else None }"

section \<open>Requests\<close>

definition ends_wait :: "client_event \<Rightarrow> bool" where
  "ends_wait ev \<longleftrightarrow> (case ev of MG_EV_CONNECT st \<Rightarrow> st \<noteq> 0 | MG_EV_HTTP_REPLY _ \<Rightarrow> True | MG_EV_CONN_CLOSE \<Rightarrow> True
     | MG_EV_UNUSED \<Rightarrow> False)"

fun replies :: "client_event list \<Rightarrow> byte list list" where
  "replies [] = []"
| "replies (MG_EV_HTTP_REPLY r # evs) = r # replies evs"
| "replies (_ # evs) = replies evs"

lemma replies_append [simp]: "replies (a @ b) = replies a @ replies b"
  by (induction a rule: replies.induct) auto

lemma poll_eq:
  "s_req_callback s = Some k \<Longrightarrow>
   poll evs s = Some (s\<lparr>s_exit_flag := if \<exists>ev \<in> set evs. ends_wait ev then
       (if s_exit_flag s = 0 \<or> (\<exists>ev \<in> set evs. ends_wait ev \<and> ev \<noteq> MG_EV_CONN_CLOSE) then 1 else s_exit_flag s)
       else s_exit_flag s\<rparr>, map (Pair k) (replies evs))"
proof (induction evs arbitrary: s)
  case (Cons ev evs)
  show ?case
    using Cons.IH [of s] Cons.IH [of "s\<lparr>s_exit_flag := 1\<rparr>"] Cons.prems
    by (cases ev) (auto simp: OnHttpEvent_def ends_wait_def Let_def)
qed simp

text \<open>The first request returns with the first poll that reports a reply, a failed connection or a close,
  after it has passed every reply to its own callback; it leaves the exit flag set, which nothing resets,
  so that every later request returns without polling and its callback is never called.\<close>

theorem second_request_dropped:
  assumes "s_exit_flag s = 0" "connected url"
    and quiet: "\<forall>ev \<in> set (concat before). \<not> ends_wait ev" and ending: "\<exists>ev \<in> set evs. ends_wait ev"
  shows "\<exists>s'. SendReq connected url k (before @ evs # polls) s = Some (s', map (Pair k) (replies evs), polls) \<and>
    (\<forall>url2 k2 polls2. connected url2 \<longrightarrow> (\<exists>s2. SendReq connected url2 k2 polls2 s' = Some (s2, [], polls2) \<and>
      s_exit_flag s2 = 1))"
proof -
  let ?s = "s\<lparr>s_req_callback := Some k\<rparr>"
  have "poll_loop (before @ evs # polls) s = Some (s\<lparr>s_exit_flag := 1\<rparr>, map (Pair k) (replies evs), polls)"
    if "s_exit_flag s = 0" "s_req_callback s = Some k" for s
    using quiet
  proof (induction before)
    case Nil
    have "poll evs s = Some (s\<lparr>s_exit_flag := 1\<rparr>, map (Pair k) (replies evs))"
      using that ending by (simp add: poll_eq)
    then show ?case using that by (simp add: poll_loop.simps)
  next
    case (Cons p before)
    have none: "replies p = []"
      using Cons.prems by (induction p rule: replies.induct) (auto simp: ends_wait_def)
    have "\<not> (\<exists>ev \<in> set p. ends_wait ev)" using Cons.prems by simp
    then have "poll p s = Some (s, [])" using that none by (simp add: poll_eq)
    then show ?case using Cons that by (simp add: poll_loop.simps [of "p # _"])
  qed
  then have "SendReq connected url k (before @ evs # polls) s =
      Some (?s\<lparr>s_exit_flag := 1\<rparr>, map (Pair k) (replies evs), polls)"
    using assms(1,2) by (simp add: SendReq_def Let_def)
  then show ?thesis by (simp add: SendReq_def Let_def poll_loop.simps)
qed

lemma second_request_dropped_witness:
  "\<exists>s'. SendReq (\<lambda>_. True) [] (1 :: nat) ([[MG_EV_CONNECT 0]] @ [MG_EV_HTTP_REPLY [104, 105], MG_EV_CONN_CLOSE] # [])
      client_start = Some (s', [(1, [104, 105])], []) \<and>
    (\<exists>s2. SendReq (\<lambda>_. True) [] 2 [[MG_EV_HTTP_REPLY [104]]] s' = Some (s2, [], [[MG_EV_HTTP_REPLY [104]]]))"
  using second_request_dropped [of client_start "\<lambda>_. True" "[]" "[[MG_EV_CONNECT 0]]"
      "[MG_EV_HTTP_REPLY [104, 105], MG_EV_CONN_CLOSE]" "1 :: nat" "[]"]
  by (simp add: client_start_def ends_wait_def) blast

end
