(* ===== verification/Barrier.thy ===== *)
theory Barrier
  imports Transition "HOL-Library.Multiset" "HOL-Library.Word"
begin

text \<open>
  The \<open>barrier\<close> of \<open>c++/CCiA_SourceCode/listing_8.13.cpp\<close> (in listing 8.12 without \<open>done_waiting\<close>): threads
  that work in rounds, wait for each other after each, and leave after their last one.  A step is one atomic
  operation of one thread, or one piece of its work on the shared data.  The counters are unbounded, as for
  fewer than \<open>2 ^ 32\<close> threads; the generation is a word, which wraps around.
\<close>

section \<open>Definitions\<close>

type_synonym unsigned = "32 word"

record 'd barrier =
  count :: int
  spaces :: int
  generation :: unsigned
  dat :: 'd

text \<open>The next operation of a call of \<open>wait\<close>: \<open>gen = generation\<close>, \<open>--spaces\<close>, \<open>count.load()\<close>,
  \<open>spaces = ...\<close>, \<open>++generation\<close>, the test of the loop; and of \<open>done_waiting\<close>: \<open>--count\<close>, \<open>--spaces\<close>,
  \<open>count.load()\<close>, \<open>spaces = ...\<close>, \<open>++generation\<close>.\<close>

datatype wait_pc = W_gen | W_dec unsigned | W_count | W_spaces int | W_bump | W_spin unsigned

datatype done_pc = D_count | D_dec | D_load | D_spaces int | D_bump

text \<open>\<open>None\<close>: the operation does not go on now.  A next operation of \<open>None\<close>: the call returns.\<close>

fun wait_step :: "wait_pc \<Rightarrow> 'd barrier \<Rightarrow> ('d barrier \<times> wait_pc option) option" where
  "wait_step W_gen b = Some (b, Some (W_dec (generation b)))"
| "wait_step (W_dec gen) b = Some (b\<lparr>spaces := spaces b - 1\<rparr>,
     Some (if spaces b - 1 = 0 then W_count else W_spin gen))"
| "wait_step W_count b = Some (b, Some (W_spaces (count b)))"
| "wait_step (W_spaces c) b = Some (b\<lparr>spaces := c\<rparr>, Some W_bump)"
| "wait_step W_bump b = Some (b\<lparr>generation := generation b + 1\<rparr>, None)"
| "wait_step (W_spin gen) b = (if generation b = gen then None else Some (b, None))"

fun done_step :: "done_pc \<Rightarrow> 'd barrier \<Rightarrow> 'd barrier \<times> done_pc option" where
  "done_step D_count b = (b\<lparr>count := count b - 1\<rparr>, Some D_dec)"
| "done_step D_dec b = (b\<lparr>spaces := spaces b - 1\<rparr>, if spaces b - 1 = 0 then Some D_load else None)"
| "done_step D_load b = (b, Some (D_spaces (count b)))"
| "done_step (D_spaces c) b = (b\<lparr>spaces := c\<rparr>, Some D_bump)"
| "done_step D_bump b = (b\<lparr>generation := generation b + 1\<rparr>, None)"

text \<open>A thread with the rounds it still has to work: it works, waits before the next round, or leaves after
  the last.\<close>

datatype 'd thread = Work "('d \<Rightarrow> 'd) list" | Wait wait_pc "('d \<Rightarrow> 'd) list" | Leave done_pc | Finished

fun advance :: "'d thread \<Rightarrow> 'd barrier \<Rightarrow> ('d barrier \<times> 'd thread) option" where
  "advance (Work []) b = None"
| "advance (Work (w # ws)) b = Some (b\<lparr>dat := w (dat b)\<rparr>, if ws = [] then Leave D_count else Wait W_gen ws)"
| "advance (Wait pc ws) b = map_option (\<lambda>(b', pc'). (b', case pc' of None \<Rightarrow> Work ws | Some pc'' \<Rightarrow> Wait pc'' ws))
     (wait_step pc b)"
| "advance (Leave pc) b = (case done_step pc b of (b', pc') \<Rightarrow>
     Some (b', case pc' of None \<Rightarrow> Finished | Some pc'' \<Rightarrow> Leave pc''))"
| "advance Finished b = None"

inductive barrier_step :: "'d barrier \<times> 'd thread list \<Rightarrow> 'd barrier \<times> 'd thread list \<Rightarrow> bool" where
  "i < length ts \<Longrightarrow> advance (ts ! i) b = Some (b', t) \<Longrightarrow> barrier_step (b, ts) (b', ts[i := t])"

inductive_cases barrier_stepE: "barrier_step (b, ts) s"

definition barrier_start :: "('d \<Rightarrow> 'd) list list \<Rightarrow> 'd \<Rightarrow> 'd barrier \<times> 'd thread list" where
  "barrier_start wss d =
     (\<lparr>count = int (length wss), spaces = int (length wss), generation = 0, dat = d\<rparr>, map Work wss)"

section \<open>Rounds\<close>

text \<open>The data after all threads that have a round \<open>r\<close> have worked it, in the order of their numbers.\<close>

definition workers :: "('d \<Rightarrow> 'd) list list \<Rightarrow> nat \<Rightarrow> nat list" where
  "workers wss r = filter (\<lambda>i. r < length (wss ! i)) [0..<length wss]"

fun lockstep :: "('d \<Rightarrow> 'd) list list \<Rightarrow> 'd \<Rightarrow> nat \<Rightarrow> 'd" where
  "lockstep wss d 0 = d"
| "lockstep wss d (Suc r) = fold (\<lambda>i. wss ! i ! r) (workers wss r) (lockstep wss d r)"

definition rounds :: "('d \<Rightarrow> 'd) list list \<Rightarrow> nat" where
  "rounds wss = Max (set (map length wss))"

definition independent :: "('d \<Rightarrow> 'd) list list \<Rightarrow> bool" where
  "independent wss \<longleftrightarrow> wss \<noteq> [] \<and> (\<forall>ws \<in> set wss. ws \<noteq> []) \<and>
     (\<forall>r. \<forall>i \<in> set (workers wss r). \<forall>j \<in> set (workers wss r). wss ! i ! r \<circ> wss ! j ! r = wss ! j ! r \<circ> wss ! i ! r)"

section \<open>The invariant\<close>

text \<open>Classes of threads in the generation \<open>g\<close>: those that still have to take a space, those that are
  counted, and the one that has taken the last space.\<close>

fun pending :: "unsigned \<Rightarrow> 'd thread \<Rightarrow> bool" where
  "pending g (Work ws) \<longleftrightarrow> True"
| "pending g (Wait W_gen ws) \<longleftrightarrow> True"
| "pending g (Wait (W_dec gen) ws) \<longleftrightarrow> True"
| "pending g (Wait (W_spin gen) ws) \<longleftrightarrow> gen \<noteq> g"
| "pending g (Leave D_count) \<longleftrightarrow> True"
| "pending g (Leave D_dec) \<longleftrightarrow> True"
| "pending g t \<longleftrightarrow> False"

fun counted :: "'d thread \<Rightarrow> bool" where
  "counted (Work ws) \<longleftrightarrow> True"
| "counted (Wait pc ws) \<longleftrightarrow> True"
| "counted (Leave D_count) \<longleftrightarrow> True"
| "counted t \<longleftrightarrow> False"

fun resetting :: "'d thread \<Rightarrow> bool" where
  "resetting (Wait W_count ws) \<longleftrightarrow> True"
| "resetting (Wait (W_spaces c) ws) \<longleftrightarrow> True"
| "resetting (Wait W_bump ws) \<longleftrightarrow> True"
| "resetting (Leave D_load) \<longleftrightarrow> True"
| "resetting (Leave (D_spaces c)) \<longleftrightarrow> True"
| "resetting (Leave D_bump) \<longleftrightarrow> True"
| "resetting t \<longleftrightarrow> False"

text \<open>What a resetting thread knows.\<close>

fun reset_ok :: "'d barrier \<Rightarrow> 'd thread \<Rightarrow> bool" where
  "reset_ok b (Wait W_count ws) \<longleftrightarrow> spaces b = 0"
| "reset_ok b (Wait (W_spaces c) ws) \<longleftrightarrow> c = count b"
| "reset_ok b (Wait W_bump ws) \<longleftrightarrow> spaces b = count b"
| "reset_ok b (Leave D_load) \<longleftrightarrow> spaces b = 0"
| "reset_ok b (Leave (D_spaces c)) \<longleftrightarrow> c = count b"
| "reset_ok b (Leave D_bump) \<longleftrightarrow> spaces b = count b"
| "reset_ok b t \<longleftrightarrow> True"

text \<open>A thread with the rounds \<open>ws\<close>, when \<open>r\<close> rounds are over.\<close>

fun in_round :: "nat \<Rightarrow> ('d \<Rightarrow> 'd) list \<Rightarrow> 'd thread \<Rightarrow> bool" where
  "in_round r ws (Work vs) \<longleftrightarrow> vs = drop r ws \<and> vs \<noteq> []"
| "in_round r ws (Wait (W_spin gen) vs) \<longleftrightarrow> vs \<noteq> [] \<and>
     (gen = of_nat r \<and> vs = drop (Suc r) ws \<or> gen = of_nat r - 1 \<and> vs = drop r ws)"
| "in_round r ws (Wait (W_dec gen) vs) \<longleftrightarrow> gen = of_nat r \<and> vs = drop (Suc r) ws \<and> vs \<noteq> []"
| "in_round r ws (Wait pc vs) \<longleftrightarrow> vs = drop (Suc r) ws \<and> vs \<noteq> []"
| "in_round r ws (Leave pc) \<longleftrightarrow> length ws = Suc r"
| "in_round r ws Finished \<longleftrightarrow> length ws \<le> Suc r"

text \<open>Whether a thread has still to work in this round.\<close>

fun fresh :: "unsigned \<Rightarrow> 'd thread \<Rightarrow> bool" where
  "fresh g (Work ws) \<longleftrightarrow> True"
| "fresh g (Wait (W_spin gen) ws) \<longleftrightarrow> gen \<noteq> g"
| "fresh g t \<longleftrightarrow> False"

definition how_many :: "('a \<Rightarrow> bool) \<Rightarrow> 'a list \<Rightarrow> int" where
  "how_many P xs = int (length (filter P xs))"

definition classes :: "'d barrier \<Rightarrow> 'd thread list \<Rightarrow> bool" where
  "classes b ts \<longleftrightarrow>
     how_many resetting ts = 0 \<and> spaces b = how_many (pending (generation b)) ts \<and>
       (spaces b = 0 \<longrightarrow> (\<forall>t \<in> set ts. t = Finished)) \<or>
     how_many resetting ts = 1 \<and> how_many (pending (generation b)) ts = 0 \<and> (\<forall>t \<in> set ts. reset_ok b t)"

definition worked :: "('d \<Rightarrow> 'd) list list \<Rightarrow> nat \<Rightarrow> unsigned \<Rightarrow> 'd thread list \<Rightarrow> nat set" where
  "worked wss r g ts = {i. i < length ts \<and> r < length (wss ! i) \<and> \<not> fresh g (ts ! i)}"

definition barrier_inv :: "('d \<Rightarrow> 'd) list list \<Rightarrow> 'd \<Rightarrow> nat \<Rightarrow> 'd barrier \<times> 'd thread list \<Rightarrow> bool" where
  "barrier_inv wss d r = (\<lambda>(b, ts).
     generation b = of_nat r \<and> length ts = length wss \<and>
     (\<forall>i < length ts. in_round r (wss ! i) (ts ! i)) \<and>
     count b = how_many counted ts \<and> classes b ts \<and>
     (\<exists>ks. distinct ks \<and> set ks = worked wss r (generation b) ts \<and>
       dat b = fold (\<lambda>i. wss ! i ! r) ks (lockstep wss d r)))"

lemma how_many_upd:
  "i < length xs \<Longrightarrow> how_many P (xs[i := y]) = how_many P xs + of_bool (P y) - of_bool (P (xs ! i))"
proof (induction xs arbitrary: i)
  case (Cons x xs)
  then show ?case by (cases i) (auto simp: how_many_def)
qed simp

lemma how_many_0: "how_many P xs = 0 \<longleftrightarrow> (\<forall>x \<in> set xs. \<not> P x)"
  by (auto simp: how_many_def filter_empty_conv)

lemma how_many_nonneg [simp]: "0 \<le> how_many P xs"
  by (simp add: how_many_def)

lemma how_many_cong: "(\<And>x. x \<in> set xs \<Longrightarrow> P x = Q x) \<Longrightarrow> how_many P xs = how_many Q xs"
  by (simp add: how_many_def cong: filter_cong)

lemma how_many_1:
  assumes "how_many P xs = 1" "i < length xs" "P (xs ! i)" "j < length xs" "j \<noteq> i"
  shows "\<not> P (xs ! j)"
proof
  assume P: "P (xs ! j)"
  have "card {k. k < length xs \<and> P (xs ! k)} = 1" using assms(1) by (simp add: how_many_def length_filter_conv_card)
  moreover have "{i, j} \<subseteq> {k. k < length xs \<and> P (xs ! k)}" using assms P by auto
  ultimately have "card {i, j} \<le> 1" by (metis card_mono card.infinite finite_subset one_neq_zero)
  then show False using assms(5) by simp
qed

lemma how_many_pos: "i < length xs \<Longrightarrow> P (xs ! i) \<Longrightarrow> 0 < how_many P xs"
  using how_many_0 [of P xs] how_many_nonneg [of P xs] by (metis nth_mem order_le_less)

lemma not_resetting: "\<not> resetting t \<Longrightarrow> reset_ok b t"
  by (cases "(b, t)" rule: reset_ok.cases) auto

lemma settled: "\<not> pending g t \<Longrightarrow> \<not> resetting t \<Longrightarrow> t = Finished \<or> (\<exists>ws. t = Wait (W_spin g) ws)"
  by (cases "(g, t)" rule: pending.cases) auto

lemma pending_not_resetting: "pending g t \<Longrightarrow> \<not> resetting t"
  by (cases t rule: resetting.cases) auto

subsection \<open>Changes of one thread\<close>

lemma in_set_upd: "t \<in> set (xs[i := y]) \<Longrightarrow> i < length xs \<Longrightarrow> t = y \<or> (\<exists>j < length xs. j \<noteq> i \<and> t = xs ! j)"
  by (auto simp: in_set_conv_nth nth_list_update split: if_splits)

lemma no_reset:
  assumes "classes b ts" "i < length ts" "pending (generation b) (ts ! i)"
  shows "how_many resetting ts = 0" "spaces b = how_many (pending (generation b)) ts"
  using assms how_many_pos [of i ts "pending (generation b)"] by (auto simp: classes_def)

lemma classes_keep:
  assumes c: "classes b ts" and i: "i < length ts" "pending (generation b) (ts ! i)" "pending (generation b) t'"
    and b': "generation b' = generation b" "spaces b' = spaces b"
  shows "classes b' (ts[i := t'])"
proof -
  have "0 < spaces b" using no_reset [OF c i(1,2)] how_many_pos [OF i(1), of "pending (generation b)"] i(2) by simp
  then show ?thesis
    using no_reset [OF c i(1,2)] i b' pending_not_resetting [OF i(2)] pending_not_resetting [OF i(3)]
    by (simp add: classes_def how_many_upd)
qed

lemma classes_take:
  assumes c: "classes b ts" and i: "i < length ts" "pending (generation b) (ts ! i)" "\<not> pending (generation b) t'"
    and b': "generation b' = generation b" "spaces b' = spaces b - 1"
    and t': "resetting t' \<longleftrightarrow> spaces b' = 0" "reset_ok b' t'"
  shows "classes b' (ts[i := t'])"
proof -
  note r = no_reset [OF c i(1,2)]
  have R: "how_many resetting (ts[i := t']) = of_bool (resetting t')"
    using r(1) i(1) pending_not_resetting [OF i(2)] by (simp add: how_many_upd)
  have P: "how_many (pending (generation b')) (ts[i := t']) = spaces b'"
    using r(2) i b' by (simp add: how_many_upd)
  have "\<forall>t \<in> set (ts[i := t']). reset_ok b' t"
    using t'(2) r(1) in_set_upd [OF _ i(1)] not_resetting by (metis how_many_0 nth_mem)
  then show ?thesis using R P t'(1) by (auto simp: classes_def)
qed

lemma classes_reset:
  assumes c: "classes b ts" and i: "i < length ts" "resetting (ts ! i)" "resetting t'" "\<not> pending (generation b) t'"
    and b': "generation b' = generation b" "reset_ok b' t'"
  shows "classes b' (ts[i := t'])"
proof -
  have r: "how_many resetting ts = 1" "how_many (pending (generation b)) ts = 0"
    using c how_many_pos [of i ts resetting] i by (auto simp: classes_def)
  have "\<not> pending (generation b) (ts ! i)" using r(2) i(1) by (simp add: how_many_0)
  then have "how_many resetting (ts[i := t']) = 1" "how_many (pending (generation b')) (ts[i := t']) = 0"
    using r i b' by (simp_all add: how_many_upd)
  moreover have "reset_ok b' t" if "t \<in> set (ts[i := t'])" for t
    using in_set_upd [OF that i(1)] b'(2) how_many_1 [OF r(1) i(1,2)] not_resetting by blast
  ultimately show ?thesis by (auto simp: classes_def)
qed

lemma inv_same_round:
  assumes inv: "barrier_inv wss d r (b, ts)" and i: "i < length ts"
    and gen: "generation b' = generation b" and rd: "in_round r (wss ! i) t'"
    and cnt: "count b' = count b + of_bool (counted t') - of_bool (counted (ts ! i))"
    and cls: "classes b' (ts[i := t'])"
    and dta: "fresh (generation b) t' = fresh (generation b) (ts ! i) \<and> dat b' = dat b \<or>
      fresh (generation b) (ts ! i) \<and> \<not> fresh (generation b) t' \<and> r < length (wss ! i) \<and> dat b' = (wss ! i ! r) (dat b)"
  shows "barrier_inv wss d r (b', ts[i := t'])"
proof -
  let ?g = "generation b"
  obtain ks where ks: "distinct ks" "set ks = worked wss r ?g ts" "dat b = fold (\<lambda>i. wss ! i ! r) ks (lockstep wss d r)"
    using inv by (auto simp: barrier_inv_def)
  have "\<exists>ks. distinct ks \<and> set ks = worked wss r ?g (ts[i := t']) \<and> dat b' = fold (\<lambda>i. wss ! i ! r) ks (lockstep wss d r)"
    using dta
  proof
    assume a: "fresh ?g t' = fresh ?g (ts ! i) \<and> dat b' = dat b"
    then have "worked wss r ?g (ts[i := t']) = worked wss r ?g ts"
      using i by (auto simp: worked_def nth_list_update split: if_splits)
    then show ?thesis using ks a by auto
  next
    assume a: "fresh ?g (ts ! i) \<and> \<not> fresh ?g t' \<and> r < length (wss ! i) \<and> dat b' = (wss ! i ! r) (dat b)"
    then have "worked wss r ?g (ts[i := t']) = insert i (worked wss r ?g ts)" "i \<notin> worked wss r ?g ts"
      using i by (auto simp: worked_def nth_list_update split: if_splits)
    then show ?thesis using ks a by (intro exI [of _ "ks @ [i]"]) auto
  qed
  moreover have "\<forall>j < length ts. in_round r (wss ! j) (ts[i := t'] ! j)"
    using inv rd i by (auto simp: barrier_inv_def nth_list_update)
  moreover have "count b' = how_many counted (ts[i := t'])"
    using inv cnt i by (simp add: barrier_inv_def how_many_upd)
  ultimately show ?thesis using inv gen cls by (simp add: barrier_inv_def)
qed

subsection \<open>The next round\<close>

lemma worked_all:
  assumes "how_many (pending g) ts = 0" "length ts = length wss"
  shows "worked wss r g ts = set (workers wss r)"
proof -
  have "\<not> fresh g t" if "t \<in> set ts" for t
    using assms(1) that by (cases "(g, t)" rule: fresh.cases) (auto simp: how_many_0)
  then show ?thesis using assms(2) by (auto simp: worked_def workers_def)
qed

lemma fold_commute:
  assumes "independent wss" "distinct ks" "set ks = set (workers wss r)"
  shows "fold (\<lambda>i. wss ! i ! r) ks d = fold (\<lambda>i. wss ! i ! r) (workers wss r) d"
proof -
  have "mset ks = mset (workers wss r)" using assms(2,3) set_eq_iff_mset_eq_distinct [of ks "workers wss r"]
    by (simp add: workers_def)
  then show ?thesis using assms(1,3)
    by (intro fun_cong [OF fold_multiset_equiv]) (auto simp: independent_def)
qed

lemma inv_next_round:
  assumes ind: "independent wss" and inv: "barrier_inv wss d r (b, ts)" and i: "i < length ts"
    and t: "ts ! i = Wait W_bump vs \<and> t' = Work vs \<or> ts ! i = Leave D_bump \<and> t' = Finished"
  shows "barrier_inv wss d (Suc r) (b\<lparr>generation := generation b + 1\<rparr>, ts[i := t'])"
proof -
  let ?g = "generation b"
  let ?b = "b\<lparr>generation := ?g + 1\<rparr>"
  let ?ts = "ts[i := t']"
  have res: "resetting (ts ! i)" using t by auto
  have g: "?g = of_nat r" and len: "length ts = length wss" and cls: "classes b ts"
    and rd: "\<And>j. j < length ts \<Longrightarrow> in_round r (wss ! j) (ts ! j)" and cnt: "count b = how_many counted ts"
    using inv by (auto simp: barrier_inv_def)
  have one: "how_many resetting ts = 1" and none: "how_many (pending ?g) ts = 0" and ok: "reset_ok b (ts ! i)"
    using cls how_many_pos [OF i, of resetting] res i by (auto simp: classes_def)
  have sp: "spaces b = count b" using ok t by auto
  have others: "ts ! j = Finished \<or> (\<exists>ws. ts ! j = Wait (W_spin ?g) ws)" if "j < length ts" "j \<noteq> i" for j
    using that none how_many_1 [OF one i res] by (intro settled) (auto simp: how_many_0)
  have neq: "?g \<noteq> ?g + 1" by simp
  have new: "t = t' \<or> t = Finished \<or> (\<exists>ws. t = Wait (W_spin ?g) ws)" if "t \<in> set ?ts" for t
    using in_set_upd [OF that i] others by metis
  have "in_round (Suc r) (wss ! j) (?ts ! j)" if j: "j < length ts" for j
  proof (cases "j = i")
    case True
    then show ?thesis using rd [OF i] t i by auto
  next
    case False
    have "in_round r (wss ! j) (ts ! j)" by (rule rd [OF j])
    then show ?thesis using others [OF j False] False g by auto
  qed
  moreover have cnt': "count ?b = how_many counted ?ts" using cnt t i by (auto simp: how_many_upd)
  moreover have "how_many (pending (?g + 1)) ?ts = how_many counted ?ts"
    by (rule how_many_cong) (use new t neq in force)
  then have "classes ?b ?ts"
  proof -
    assume p: "how_many (pending (?g + 1)) ?ts = how_many counted ?ts"
    have "how_many resetting ?ts = 0" using one res t i by (auto simp: how_many_upd)
    moreover have "\<forall>t \<in> set ?ts. t = Finished" if "how_many counted ?ts = 0"
      using that new t unfolding how_many_0 by fastforce
    ultimately show ?thesis using p sp cnt' by (auto simp: classes_def)
  qed
  moreover have "worked wss (Suc r) (?g + 1) ?ts = {}"
  proof -
    have "fresh (?g + 1) (?ts ! j) \<or> \<not> Suc r < length (wss ! j)" if j: "j < length ts" for j
    proof (cases "j = i")
      case True
      then show ?thesis using rd [OF i] t i by auto
    next
      case False
      then show ?thesis using others [OF j False] rd [OF j] neq by auto
    qed
    then show ?thesis unfolding worked_def length_list_update by blast
  qed
  moreover have "dat b = lockstep wss d (Suc r)"
    using inv worked_all [OF none len, of r] fold_commute [OF ind] by (auto simp: barrier_inv_def)
  ultimately show ?thesis using g len by (auto simp: barrier_inv_def)
qed

lemma barrier_inv_step:
  assumes ind: "independent wss" and inv: "barrier_inv wss d r s" and step: "barrier_step s s'"
  shows "\<exists>r'. barrier_inv wss d r' s'"
proof -
  obtain b ts where s: "s = (b, ts)" by fastforce
  obtain i b' t' where i: "i < length ts" "advance (ts ! i) b = Some (b', t')" and s': "s' = (b', ts[i := t'])"
    using step unfolding s by (rule barrier_stepE) blast
  have inv: "barrier_inv wss d r (b, ts)" using inv s by simp
  have g: "generation b = of_nat r" and cls: "classes b ts" and rd: "in_round r (wss ! i) (ts ! i)"
    using inv i by (auto simp: barrier_inv_def)
  note keep = classes_keep [OF cls i(1)]
  note take_space = classes_take [OF cls i(1)]
  note reset = classes_reset [OF cls i(1)]
  note same = inv_same_round [OF inv i(1)]
  have ok: "resetting (ts ! i) \<Longrightarrow> reset_ok b (ts ! i)"
    using cls i(1) by (auto simp: classes_def how_many_0)
  consider (work) w ws where "ts ! i = Work (w # ws)"
    | (gen) ws where "ts ! i = Wait W_gen ws"
    | (dec) gen ws where "ts ! i = Wait (W_dec gen) ws"
    | (count) ws where "ts ! i = Wait W_count ws"
    | (spaces) c ws where "ts ! i = Wait (W_spaces c) ws"
    | (spin) gen ws where "ts ! i = Wait (W_spin gen) ws" "generation b \<noteq> gen"
    | (bump) ws where "ts ! i = Wait W_bump ws"
    | (dcount) "ts ! i = Leave D_count" | (ddec) "ts ! i = Leave D_dec" | (dload) "ts ! i = Leave D_load"
    | (dspaces) c where "ts ! i = Leave (D_spaces c)" | (dbump) "ts ! i = Leave D_bump"
  proof (cases "ts ! i")
    case (Work ws)
    then show ?thesis using i(2) that by (cases ws) auto
  next
    case (Wait pc ws)
    then show ?thesis using i(2) that by (cases pc) (auto split: if_splits)
  next
    case (Leave pc)
    then show ?thesis using that by (cases pc) auto
  next
    case Finished
    then show ?thesis using i(2) by simp
  qed
  then show ?thesis
  proof cases
    case work
    have e: "w # ws = drop r (wss ! i)" using rd work by simp
    have "r < length (wss ! i)" using e by (metis drop_eq_Nil list.distinct(1) not_le)
    moreover have "wss ! i ! r = w" by (rule nth_via_drop [OF e [symmetric]])
    moreover have "ws = drop (Suc r) (wss ! i)" using arg_cong [OF e, of tl] by (simp add: drop_Suc tl_drop)
    ultimately have r: "r < length (wss ! i)" "wss ! i ! r = w" "ws = drop (Suc r) (wss ! i)" .
    have "barrier_inv wss d r (b', ts[i := t'])"
      using i work r keep by (intro same) (auto split: if_splits simp: Suc_leI)
    then show ?thesis unfolding s' by blast
  next
    case gen
    have "barrier_inv wss d r (b', ts[i := t'])"
      using i gen rd g keep by (intro same) auto
    then show ?thesis unfolding s' by blast
  next
    case dec
    have "barrier_inv wss d r (b', ts[i := t'])"
      using i dec rd g take_space by (intro same) (auto split: if_splits)
    then show ?thesis unfolding s' by blast
  next
    case count
    have "barrier_inv wss d r (b', ts[i := t'])"
      using i count rd g ok reset by (intro same) auto
    then show ?thesis unfolding s' by blast
  next
    case spaces
    have "barrier_inv wss d r (b', ts[i := t'])"
      using i spaces rd g ok reset by (intro same) auto
    then show ?thesis unfolding s' by blast
  next
    case spin
    have "barrier_inv wss d r (b', ts[i := t'])"
      using i spin rd g keep by (intro same) auto
    then show ?thesis unfolding s' by blast
  next
    case bump
    then have "barrier_inv wss d (Suc r) (b', ts[i := t'])"
      using i inv_next_round [OF ind inv i(1), of ws "Work ws"] by auto
    then show ?thesis unfolding s' by blast
  next
    case dcount
    have "barrier_inv wss d r (b', ts[i := t'])"
      using i dcount rd g keep by (intro same) auto
    then show ?thesis unfolding s' by blast
  next
    case ddec
    have "barrier_inv wss d r (b', ts[i := t'])"
      using i ddec rd g take_space by (intro same) (auto split: if_splits)
    then show ?thesis unfolding s' by blast
  next
    case dload
    have "barrier_inv wss d r (b', ts[i := t'])"
      using i dload rd g ok reset by (intro same) auto
    then show ?thesis unfolding s' by blast
  next
    case dspaces
    have "barrier_inv wss d r (b', ts[i := t'])"
      using i dspaces rd g ok reset by (intro same) auto
    then show ?thesis unfolding s' by blast
  next
    case dbump
    then have "barrier_inv wss d (Suc r) (b', ts[i := t'])"
      using i inv_next_round [OF ind inv i(1), of _ Finished] by auto
    then show ?thesis unfolding s' by blast
  qed
qed

lemma barrier_inv_start:
  assumes "independent wss"
  shows "barrier_inv wss d 0 (barrier_start wss d)"
proof -
  have "how_many P (map Work wss) = int (length wss)" if "\<And>ws. P (Work ws)" for P :: "'a thread \<Rightarrow> bool"
    using that by (simp add: how_many_def filter_True)
  moreover have "how_many resetting (map Work wss) = 0" by (auto simp: how_many_0)
  moreover have "worked wss 0 0 (map Work wss) = {}" by (auto simp: worked_def)
  ultimately show ?thesis using assms by (auto simp: barrier_inv_def barrier_start_def classes_def independent_def)
qed

interpretation br: invariant_of "(=) (barrier_start wss d)" barrier_step
    "\<lambda>s. independent wss \<longrightarrow> (\<exists>r. barrier_inv wss d r s)" for wss d
proof
  show "independent wss \<longrightarrow> (\<exists>r. barrier_inv wss d r s)" if "barrier_start wss d = s" for s
    using that barrier_inv_start [of wss d] by blast
  show "independent wss \<longrightarrow> (\<exists>r. barrier_inv wss d r s')"
    if "independent wss \<longrightarrow> (\<exists>r. barrier_inv wss d r s)" "barrier_step s s'" for s s'
    using that barrier_inv_step [of wss d _ s s'] by blast
qed

section \<open>All threads finish\<close>

fun to_do :: "'d thread \<Rightarrow> nat" where
  "to_do (Work ws) = 10 * length ws"
| "to_do (Wait W_gen ws) = 10 * length ws + 6"
| "to_do (Wait (W_dec gen) ws) = 10 * length ws + 5"
| "to_do (Wait W_count ws) = 10 * length ws + 4"
| "to_do (Wait (W_spaces c) ws) = 10 * length ws + 3"
| "to_do (Wait W_bump ws) = 10 * length ws + 2"
| "to_do (Wait (W_spin gen) ws) = 10 * length ws + 1"
| "to_do (Leave D_count) = 6"
| "to_do (Leave D_dec) = 5"
| "to_do (Leave D_load) = 4"
| "to_do (Leave (D_spaces c)) = 3"
| "to_do (Leave D_bump) = 2"
| "to_do Finished = 0"

lemma advance_to_do: "advance t b = Some (b', t') \<Longrightarrow> to_do t' < to_do t"
proof (cases t)
  case (Work ws)
  assume "advance t b = Some (b', t')"
  then show ?thesis using Work by (cases ws) auto
next
  case (Wait pc ws)
  assume "advance t b = Some (b', t')"
  then show ?thesis using Wait by (cases pc) (auto split: if_splits)
next
  case (Leave pc)
  assume "advance t b = Some (b', t')"
  then show ?thesis using Leave by (cases pc) (auto split: if_splits)
qed simp

lemma barrier_step_to_do:
  assumes "barrier_step s s'"
  shows "sum_list (map to_do (snd s')) < sum_list (map to_do (snd s))"
proof -
  obtain b ts i b' t where s: "s = (b, ts)" "s' = (b', ts[i := t])" and i: "i < length ts" "advance (ts ! i) b = Some (b', t)"
    using assms by (cases rule: barrier_step.cases) auto
  have "to_do (ts ! i) \<le> sum_list (map to_do ts)"
    using i(1) by (intro member_le_sum_list) auto
  then show ?thesis using s i advance_to_do [OF i(2)] by (simp add: map_update sum_list_update)
qed

lemma no_infinite_run: "\<not> (\<forall>n. barrier_step (f n) (f (Suc n)))"
proof
  assume "\<forall>n. barrier_step (f n) (f (Suc n))"
  then have "(f (Suc n), f n) \<in> measure (\<lambda>s. sum_list (map to_do (snd s)))" for n
    using barrier_step_to_do [of "f n" "f (Suc n)"] by simp
  then show False
    using wf_measure [of "\<lambda>s. sum_list (map to_do (snd s))"] unfolding wf_iff_no_infinite_down_chain by blast
qed

lemma pending_advances: "pending (generation b) t \<Longrightarrow> in_round r ws t \<Longrightarrow> advance t b \<noteq> None"
proof (cases t)
  case (Work vs)
  assume "in_round r ws t"
  then have "vs \<noteq> []" unfolding Work in_round.simps by blast
  then show ?thesis using Work by (cases vs) auto
next
  case (Wait pc vs)
  assume "pending (generation b) t"
  then show ?thesis using Wait by (cases pc) auto
next
  case (Leave pc)
  then show ?thesis by (auto split: prod.splits)
qed simp

lemma resetting_advances: "resetting t \<Longrightarrow> advance t b \<noteq> None"
  by (cases t rule: resetting.cases) auto

lemma stuck_finished:
  assumes inv: "barrier_inv wss d r (b, ts)" and stuck: "\<nexists>s'. barrier_step (b, ts) s'" and t: "t \<in> set ts"
  shows "t = Finished"
proof -
  have none: "advance (ts ! i) b = None" if "i < length ts" for i
    using stuck that barrier_step.intros [of i ts b] by (metis not_None_eq prod.exhaust)
  have c: "classes b ts" and rd: "\<And>i. i < length ts \<Longrightarrow> in_round r (wss ! i) (ts ! i)"
    using inv by (auto simp: barrier_inv_def)
  have "how_many resetting ts = 0" unfolding how_many_0
    using none resetting_advances by (metis in_set_conv_nth)
  moreover have "how_many (pending (generation b)) ts = 0" unfolding how_many_0
    using none pending_advances rd by (metis in_set_conv_nth)
  ultimately show ?thesis using c t by (auto simp: classes_def)
qed

lemma lockstep_beyond: "rounds wss \<le> r \<Longrightarrow> lockstep wss d r = lockstep wss d (rounds wss)"
proof (induction r rule: dec_induct)
  case (step n)
  have "length (wss ! i) \<le> n" if "i < length wss" for i
  proof -
    have "length (wss ! i) \<le> rounds wss" unfolding rounds_def using that by (intro Max_ge) auto
    then show ?thesis using step(1) by simp
  qed
  then have "workers wss n = []" by (auto simp: workers_def filter_empty_conv not_less)
  then show ?case using step(3) by simp
qed simp

lemma finished_data:
  assumes ind: "independent wss" and inv: "barrier_inv wss d r (b, ts)" and fin: "\<forall>t \<in> set ts. t = Finished"
  shows "dat b = lockstep wss d (rounds wss)"
proof -
  have len: "length ts = length wss" using inv by (simp add: barrier_inv_def)
  have "length (wss ! i) \<le> Suc r" if "i < length wss" for i
  proof -
    have "in_round r (wss ! i) (ts ! i)" "ts ! i = Finished" using inv fin that len by (auto simp: barrier_inv_def)
    then show ?thesis by simp
  qed
  then have "rounds wss \<le> Suc r"
    using ind by (auto simp: rounds_def independent_def in_set_conv_nth)
  moreover have "how_many (pending (generation b)) ts = 0" using fin by (auto simp: how_many_0)
  then have "dat b = lockstep wss d (Suc r)"
    using inv worked_all [OF _ len] fold_commute [OF ind] by (auto simp: barrier_inv_def)
  ultimately show ?thesis using lockstep_beyond by metis
qed

lemma lockstep_end:
  assumes "independent wss" "reach ((=) (barrier_start wss d)) barrier_step (b, ts)" "\<nexists>s'. barrier_step (b, ts) s'"
  shows "(\<forall>t \<in> set ts. t = Finished) \<and> dat b = lockstep wss d (rounds wss)"
proof -
  obtain r where "barrier_inv wss d r (b, ts)" using br.holds [OF assms(2)] assms(1) by blast
  then show ?thesis using stuck_finished [OF _ assms(3)] finished_data [OF assms(1)] by blast
qed

text \<open>A run given by the numbers of the threads that go on.\<close>

fun schedule :: "nat list \<Rightarrow> 'd barrier \<times> 'd thread list \<Rightarrow> ('d barrier \<times> 'd thread list) option" where
  "schedule [] s = Some s"
| "schedule (k # ks) (b, ts) = (if k < length ts then (case advance (ts ! k) b of
     None \<Rightarrow> None | Some (b', t) \<Rightarrow> schedule ks (b', ts[k := t])) else None)"

lemma schedule_reach: "schedule ks s = Some s' \<Longrightarrow> reach ((=) s) barrier_step s'"
proof (induction ks s rule: schedule.induct)
  case (2 k ks b ts)
  then obtain b' t where t: "k < length ts" "advance (ts ! k) b = Some (b', t)" "schedule ks (b', ts[k := t]) = Some s'"
    by (auto split: if_splits option.splits)
  have "reach ((=) (b, ts)) barrier_step (b', ts[k := t])"
    using t by (intro reach.move [OF reach_here] barrier_step.intros)
  moreover have "reach ((=) (b', ts[k := t])) barrier_step s'" using "2.IH" t by auto
  ultimately show ?case by (rule reach_trans)
qed (simp add: reach_here)

lemma finished_stuck: "\<forall>t \<in> set ts. t = Finished \<Longrightarrow> \<nexists>s'. barrier_step (b, ts) s'"
  by (auto elim!: barrier_stepE dest!: bspec [OF _ nth_mem])

text \<open>C27: The barrier of listing 8.13 keeps any number of threads in step, the ones included that leave early:
  when the works of one round commute, there is no infinite run, and a state where no thread can go on is one
  where all threads have returned and the data is that of the rounds done one after the other.\<close>

theorem barrier_lockstep:
  assumes "independent wss"
  shows "\<not> (\<exists>f. f (0::nat) = barrier_start wss d \<and> (\<forall>n. barrier_step (f n) (f (Suc n)))) \<and>
    (\<forall>b ts. reach ((=) (barrier_start wss d)) barrier_step (b, ts) \<longrightarrow> (\<nexists>s'. barrier_step (b, ts) s') \<longrightarrow>
      (\<forall>t \<in> set ts. t = Finished) \<and> dat b = lockstep wss d (rounds wss))"
  using no_infinite_run lockstep_end [OF assms] by blast

theorem barrier_lockstep_witness:
  "\<exists>b ts. reach ((=) (barrier_start [[(+) 1, (+) 2], [(+) 3 :: int \<Rightarrow> int]] 0)) barrier_step (b, ts) \<and>
     (\<forall>t \<in> set ts. t = Finished) \<and> dat b = 6"
proof -
  let ?w = "[[(+) 1, (+) 2], [(+) 3 :: int \<Rightarrow> int]]"
  have "independent ?w" by (auto simp: independent_def workers_def nth_Cons fun_eq_iff split: nat.splits)
  moreover obtain b ts where s: "schedule [0, 0, 1, 0, 1, 1, 1, 1, 1, 0, 0, 0, 0, 0, 0, 0] (barrier_start ?w 0) = Some (b, ts)"
      and f: "\<forall>t \<in> set ts. t = Finished"
    by (simp add: barrier_start_def)
  moreover have "lockstep ?w 0 (rounds ?w) = 6" by (simp add: rounds_def workers_def numeral_2_eq_2)
  ultimately show ?thesis
    using barrier_lockstep [of ?w 0] schedule_reach [OF s] finished_stuck [OF f] by (intro exI [of _ b] exI [of _ ts]) simp
qed

section \<open>\<open>parallel_partial_sum\<close>\<close>

text \<open>The elements and the \<open>buffer\<close>.  Within a round a thread writes one cell of one of the two that nobody
  else reads or writes before the next round, so a round is one step of its work.\<close>

record 'v sums =
  elems :: "'v list"
  buf :: "'v list"

definition element_step :: "('v \<Rightarrow> 'v \<Rightarrow> 'v) \<Rightarrow> nat \<Rightarrow> nat \<Rightarrow> nat \<Rightarrow> 'v sums \<Rightarrow> 'v sums" where
  "element_step f i step stride s =
     (if step mod 2 = 1 then s\<lparr>elems := (elems s)[i := f (buf s ! i) (buf s ! (i - stride))]\<rparr>
      else s\<lparr>buf := (buf s)[i := f (elems s ! i) (elems s ! (i - stride))]\<rparr>)"

definition copy_back :: "nat \<Rightarrow> 'v sums \<Rightarrow> 'v sums" where
  "copy_back i s = s\<lparr>elems := (elems s)[i := buf s ! i]\<rparr>"

function steps_from :: "('v \<Rightarrow> 'v \<Rightarrow> 'v) \<Rightarrow> nat \<Rightarrow> nat \<Rightarrow> nat \<Rightarrow> bool \<Rightarrow> ('v sums \<Rightarrow> 'v sums) list" where
  "steps_from f i step stride update_source =
     (if 0 < stride \<and> stride \<le> i
      then element_step f i step stride # steps_from f i (step + 1) (stride * 2) (step mod 2 \<noteq> 1)
      else [if update_source then copy_back i else id])"
  by pat_completeness auto
termination by (relation "measure (\<lambda>(f, i, step, stride, u). i + 1 - stride)") auto

declare steps_from.simps [simp del]

definition process_element :: "('v \<Rightarrow> 'v \<Rightarrow> 'v) \<Rightarrow> nat \<Rightarrow> ('v sums \<Rightarrow> 'v sums) list" where
  "process_element f i = steps_from f i 0 1 False"

definition partial_sum_works :: "('v \<Rightarrow> 'v \<Rightarrow> 'v) \<Rightarrow> nat \<Rightarrow> ('v sums \<Rightarrow> 'v sums) list list" where
  "partial_sum_works f n = (if n \<le> 1 then [] else map (process_element f) [0..<n])"

definition parallel_partial_sum_start :: "('v \<Rightarrow> 'v \<Rightarrow> 'v) \<Rightarrow> 'v \<Rightarrow> 'v list \<Rightarrow> 'v sums barrier \<times> 'v sums thread list" where
  "parallel_partial_sum_start f z xs = barrier_start (partial_sum_works f (length xs))
     \<lparr>elems = xs, buf = replicate (length xs) z\<rparr>"

lemma steps_from_nth:
  "k < length (steps_from f i step stride u) \<Longrightarrow>
   steps_from f i step stride u ! k = element_step f i (step + k) (stride * 2 ^ k) \<and> stride * 2 ^ k \<le> i \<or>
   steps_from f i step stride u ! k = id \<or>
   steps_from f i step stride u ! k = copy_back i \<and> (if k = 0 then u else (step + k) mod 2 = 1)"
proof (induction f i step stride u arbitrary: k rule: steps_from.induct)
  case (1 f i step stride u)
  show ?case
  proof (cases "0 < stride \<and> stride \<le> i")
    case True
    have e: "steps_from f i step stride u =
        element_step f i step stride # steps_from f i (step + 1) (stride * 2) (step mod 2 \<noteq> 1)"
      using True by (subst steps_from.simps) simp
    show ?thesis
    proof (cases k)
      case 0
      then show ?thesis using True by (simp add: e)
    next
      case (Suc j)
      then have "j < length (steps_from f i (step + 1) (stride * 2) (step mod 2 \<noteq> 1))" using "1.prems" by (simp add: e)
      from "1.IH" [OF True this] show ?thesis
        using Suc by (auto simp: e ac_simps split: if_splits) presburger+
    qed
  next
    case False
    then have "steps_from f i step stride u = [if u then copy_back i else id]" by (subst steps_from.simps) auto
    then show ?thesis using "1.prems" by auto
  qed
qed

lemma process_element_nth:
  "k < length (process_element f i) \<Longrightarrow>
   process_element f i ! k = element_step f i k (2 ^ k) \<and> 2 ^ k \<le> i \<or> process_element f i ! k = id \<or>
   process_element f i ! k = copy_back i \<and> k mod 2 = 1"
  using steps_from_nth [of k f i 0 1 False] by (auto simp: process_element_def split: if_splits)

lemma sums_commute:
  assumes "i \<noteq> j" "p = element_step f i k x \<or> p = id \<or> p = copy_back i \<and> k mod 2 = 1"
    "q = element_step f j k y \<or> q = id \<or> q = copy_back j \<and> k mod 2 = 1"
  shows "p \<circ> q = q \<circ> p"
  using assms by (auto simp: element_step_def copy_back_def fun_eq_iff list_update_swap)

lemma partial_sum_independent: "1 < n \<Longrightarrow> independent (partial_sum_works f n)"
proof -
  assume n: "1 < n"
  have "process_element f i \<noteq> []" for i unfolding process_element_def by (subst steps_from.simps) simp
  moreover have "process_element f i ! r \<circ> process_element f j ! r = process_element f j ! r \<circ> process_element f i ! r"
    if "r < length (process_element f i)" "r < length (process_element f j)" for i j r
  proof (cases "i = j")
    case False
    then show ?thesis
      using process_element_nth [OF that(1)] process_element_nth [OF that(2)] by (intro sums_commute [OF False]) blast+
  qed simp
  ultimately show ?thesis using n
    by (auto simp: independent_def partial_sum_works_def workers_def)
qed

lemma partial_sum_works_3:
  "partial_sum_works f 3 =
     [[id], [element_step f 1 0 1, copy_back 1], [element_step f 2 0 1, element_step f 2 1 2, id]]"
proof -
  have u: "[0..<3] = [0, 1, 2::nat]" by (simp add: upt_rec)
  have "process_element f 0 = [id]" by (simp add: process_element_def steps_from.simps)
  moreover have "process_element f 1 = [element_step f 1 0 1, copy_back 1]"
    by (simp add: process_element_def steps_from.simps)
  moreover have "process_element f 2 = [element_step f 2 0 1, element_step f 2 1 2, id]"
    by (simp add: process_element_def steps_from.simps)
  ultimately show ?thesis by (simp add: partial_sum_works_def u)
qed

lemma partial_sum_workers_3:
  "workers (partial_sum_works f 3) 0 = [0, 1, 2]" "workers (partial_sum_works f 3) (Suc 0) = [1, 2]"
  "workers (partial_sum_works f 3) (Suc (Suc 0)) = [2]" "rounds (partial_sum_works f 3) = Suc (Suc (Suc 0))"
  by (simp_all add: partial_sum_works_3 workers_def rounds_def upt_rec)

lemma partial_sum_lockstep_3:
  "elems (lockstep (partial_sum_works f 3) \<lparr>elems = [x0, x1, x2], buf = [z, z, z]\<rparr> (Suc (Suc (Suc 0)))) =
     [x0, f x1 x0, f (f x2 x1) z]"
  unfolding lockstep.simps partial_sum_workers_3
  by (simp add: partial_sum_works_3 element_step_def copy_back_def)

text \<open>\<open>parallel_partial_sum\<close> of three elements is wrong in every interleaving: thread 0 has no step to do and
  leaves its cell of the buffer as it was, and thread 2 adds that cell, not the first element.\<close>

theorem parallel_partial_sum_stale:
  assumes "reach ((=) (parallel_partial_sum_start f z [x0, x1, x2])) barrier_step (b, ts)"
    and "\<nexists>s'. barrier_step (b, ts) s'"
  shows "elems (dat b) = [x0, f x1 x0, f (f x2 x1) z]"
proof -
  have e: "length [x0, x1, x2] = 3" "replicate 3 z = [z, z, z]" by (simp_all add: numeral_3_eq_3)
  have "dat b = lockstep (partial_sum_works f 3) \<lparr>elems = [x0, x1, x2], buf = [z, z, z]\<rparr> (rounds (partial_sum_works f 3))"
    using lockstep_end [OF partial_sum_independent [of 3 f] _ assms(2)] assms(1)
    unfolding parallel_partial_sum_start_def e by simp
  then show ?thesis using partial_sum_lockstep_3 unfolding partial_sum_workers_3 by metis
qed

theorem parallel_partial_sum_stale_witness:
  "\<exists>b ts. reach ((=) (parallel_partial_sum_start (+) (0 :: int) [5, 6, 7])) barrier_step (b, ts) \<and> elems (dat b) = [5, 11, 13]"
proof -
  obtain b ts where s: "schedule [0, 0, 0, 1, 1, 1, 2, 2, 2, 2, 2, 2, 1, 1, 1, 1, 2, 2, 2, 2, 2, 2, 2, 2, 2, 2, 2, 2]
      (parallel_partial_sum_start (+) (0 :: int) [5, 6, 7]) = Some (b, ts)" and f: "\<forall>t \<in> set ts. t = Finished"
    by (simp add: element_step_def copy_back_def parallel_partial_sum_start_def barrier_start_def
      partial_sum_works_3 [unfolded numeral_3_eq_3] numeral_3_eq_3)
  show ?thesis
    using parallel_partial_sum_stale [OF schedule_reach [OF s] finished_stuck [OF f]] schedule_reach [OF s] by auto
qed

end
