(* ===== verification/Hash_Map.thy ===== *)
theory Hash_Map
  imports Hash_List Transition Complex_Main "HOL-Library.Word"
begin

text \<open>
  \<open>c++/utils/cache/concurrent_hashmap_element_lock.h\<close>: the hash map whose buckets are the lists of
  \<open>Hash_List\<close> and whose nodes come from its manager.  An operation runs alone, as there.  An iterator is the
  address of a node, 0 at the end.  The operations to erase do not compile and are not modelled.
\<close>

section \<open>Definitions\<close>

record ('k, 'v) hash_map =
  manager_of :: manager
  cells :: "nat \<Rightarrow> ('k \<times> 'v) option"
  buckets :: "hash_list list"

text \<open>\<open>IsPrime\<close>: the loop stops at the first \<open>i\<close> that divides \<open>n\<close>, or beyond \<open>k\<close>.\<close>

function is_prime_loop :: "nat \<Rightarrow> nat \<Rightarrow> nat \<Rightarrow> nat" where
  "is_prime_loop n k i = (if i \<le> k then if n mod i = 0 then i else is_prime_loop n k (i + 1) else i)"
  by pat_completeness auto
termination by (relation "measure (\<lambda>(n, k, i). k + 1 - i)") auto

declare is_prime_loop.simps [simp del]

definition IsPrime :: "nat \<Rightarrow> bool" where
  "IsPrime n = (let k = nat \<lfloor>sqrt (real n)\<rfloor> in is_prime_loop n k 2 > k)"

partial_function (option) prime_from :: "nat \<Rightarrow> nat option" where
  "prime_from hint = (if \<not> IsPrime hint then prime_from (hint + 1) else Some hint)"

definition FindAPrime :: "nat \<Rightarrow> nat option" where
  "FindAPrime hint = (if hint \<ge> 500009 then Some 500009 else map_option (\<lambda>h. min h 500009) (prime_from hint))"

text \<open>The sentinels of the bucket \<open>i\<close> lie after the nodes of the manager.\<close>

definition bucket_at :: "nat \<Rightarrow> nat \<Rightarrow> hash_list" where
  "bucket_at base i = \<lparr>begin_node = base + 2 * i, end_node = base + 2 * i + 1\<rparr>"

text \<open>The default member initialisers of a node, for the two sentinels of a new bucket.\<close>

definition new_bucket :: "hash_list \<Rightarrow> nodes \<Rightarrow> nodes" where
  "new_bucket l h = (let b = begin_node l; e = end_node l in
     ConcurrentHashList \<lparr>nx = (nx h)(b := 0, e := 0), pv = (pv h)(b := 0, e := 0),
       mode = (mode h)(b := False, e := False), mtx = (mtx h)(b := False, e := False),
       timeout = (timeout h)(b := 2 ^ 63, e := 2 ^ 63)\<rparr> l)"

definition ConcurrentHashMap :: "nat \<Rightarrow> ('k, 'v) hash_map option" where
  "ConcurrentHashMap bucket_hint = do {
     n \<leftarrow> FindAPrime bucket_hint;
     m \<leftarrow> NodeManager (bucket_hint * 2) 60;
     let bs = map (bucket_at (fresh m)) [0..<n];
     Some \<lparr>manager_of = m\<lparr>heap := fold new_bucket bs (heap m), fresh := fresh m + 2 * n\<rparr>,
       cells = \<lambda>_. None, buckets = bs\<rparr> }"

text \<open>The remainder of a division by zero is \<open>None\<close>.\<close>

definition HashResult :: "('k \<Rightarrow> 64 word) \<Rightarrow> ('k, 'v) hash_map \<Rightarrow> 'k \<Rightarrow> nat option" where
  "HashResult hasher m key = (if buckets m = [] then None else Some (unat (hasher key) mod length (buckets m)))"

partial_function (option) find_loop :: "('k, 'v) hash_map \<Rightarrow> 'k \<Rightarrow> nat \<Rightarrow> nat option" where
  "find_loop m key cursor = (if cursor = 0 then Some 0
     else if (case cells m cursor of None \<Rightarrow> False | Some kv \<Rightarrow> key = fst kv) then Some cursor
     else find_loop m key (nx (heap (manager_of m)) cursor))"

definition Find :: "('k, 'v) hash_map \<Rightarrow> 'k \<Rightarrow> nat \<Rightarrow> nat option" where
  "Find m key idx = find_loop m key (nx (heap (manager_of m)) (begin_node (buckets m ! idx)))"

definition find_key :: "('k \<Rightarrow> 64 word) \<Rightarrow> ('k, 'v) hash_map \<Rightarrow> 'k \<Rightarrow> nat option" where
  "find_key hasher m key = do { idx \<leftarrow> HashResult hasher m key; Find m key idx }"

definition InsertNode :: "('k, 'v) hash_map \<Rightarrow> nat \<Rightarrow> nat \<Rightarrow> (nat \<times> ('k, 'v) hash_map) option" where
  "InsertNode m node idx = do {
     h \<leftarrow> PushBack (heap (manager_of m)) (buckets m ! idx) node;
     Some (node, m\<lparr>manager_of := (manager_of m)\<lparr>heap := h\<rparr>\<rparr>) }"

definition insert_pair ::
  "('k \<Rightarrow> 64 word) \<Rightarrow> ('k, 'v) hash_map \<Rightarrow> 'k \<times> 'v \<Rightarrow> ((nat \<times> bool) \<times> ('k, 'v) hash_map) option" where
  "insert_pair hasher m v = do {
     idx \<leftarrow> HashResult hasher m (fst v);
     found \<leftarrow> Find m (fst v) idx;
     if found \<noteq> 0 then Some ((found, False), m)
     else do {
       (node, mgr) \<leftarrow> GetOne (manager_of m);
       let m1 = m\<lparr>manager_of := mgr, cells := (cells m)(node := Some v)\<rparr>;
       (it, m2) \<leftarrow> InsertNode m1 node idx;
       Some ((it, True), m2) } }"

definition emplace :: "('k \<Rightarrow> 64 word) \<Rightarrow> ('k, 'v) hash_map \<Rightarrow> 'k \<Rightarrow> 'v \<Rightarrow>
  ((nat \<times> bool) \<times> ('k, 'v) hash_map) option" where
  "emplace hasher m k v = do {
     idx \<leftarrow> HashResult hasher m k;
     found \<leftarrow> Find m k idx;
     if found \<noteq> 0 then Some ((found, False), m)
     else do {
       (node, mgr) \<leftarrow> GetOne (manager_of m);
       let m1 = m\<lparr>manager_of := mgr, cells := (cells m)(node := Some (k, v))\<rparr>;
       (it, m2) \<leftarrow> InsertNode m1 node idx;
       Some ((it, True), m2) } }"

lemma emplace_insert: "emplace hasher m k v = insert_pair hasher m (k, v)"
  by (simp add: emplace_def insert_pair_def)

section \<open>Prime numbers\<close>

lemma sqrt_le: "i \<le> nat \<lfloor>sqrt (real n)\<rfloor> \<longleftrightarrow> i * i \<le> n"
proof -
  have "i \<le> nat \<lfloor>sqrt (real n)\<rfloor> \<longleftrightarrow> real i \<le> sqrt (real n)" by (simp add: le_nat_floor le_nat_iff le_floor_iff)
  also have "\<dots> \<longleftrightarrow> (real i)\<^sup>2 \<le> real n"
    using power_mono [of "real i" "sqrt (real n)" 2] real_le_rsqrt [of "real i" "real n"] by auto
  also have "\<dots> \<longleftrightarrow> real (i * i) \<le> real n" by (simp add: power2_eq_square)
  finally show ?thesis by (simp only: of_nat_le_iff)
qed

lemma is_prime_loop_gt:
  "is_prime_loop n k i > k \<longleftrightarrow> (\<forall>j. i \<le> j \<and> j \<le> k \<longrightarrow> \<not> j dvd n)"
proof (induction n k i rule: is_prime_loop.induct)
  case (1 n k i)
  show ?case
  proof (cases "i \<le> k \<and> n mod i \<noteq> 0")
    case True
    then have "is_prime_loop n k i = is_prime_loop n k (i + 1)" by (subst is_prime_loop.simps) simp
    then show ?thesis using 1 True by (metis Suc_eq_plus1 Suc_leD Suc_leI dvd_imp_mod_0 le_eq_less_or_eq)
  next
    case False
    then show ?thesis by (subst is_prime_loop.simps) (auto simp: dvd_eq_mod_eq_0)
  qed
qed

definition no_divisor :: "nat \<Rightarrow> bool" where
  "no_divisor n \<longleftrightarrow> (\<forall>d. d dvd n \<longrightarrow> d = 1 \<or> d = n) \<or> n = 0"

lemma IsPrime_iff: "IsPrime n \<longleftrightarrow> no_divisor n"
proof -
  have "IsPrime n \<longleftrightarrow> (\<forall>j. 2 \<le> j \<and> j * j \<le> n \<longrightarrow> \<not> j dvd n)"
    unfolding IsPrime_def Let_def is_prime_loop_gt by (simp add: sqrt_le)
  also have "\<dots> \<longleftrightarrow> no_divisor n"
  proof
    assume small: "\<forall>j. 2 \<le> j \<and> j * j \<le> n \<longrightarrow> \<not> j dvd n"
    have "d = 1 \<or> d = n" if d: "d dvd n" "n \<noteq> 0" for d
    proof (rule ccontr)
      assume neg: "\<not> (d = 1 \<or> d = n)"
      obtain e where e: "n = d * e" using d by auto
      then have "2 \<le> d" "2 \<le> e" using neg d(2) by (cases d; cases e; auto simp: not_less_eq_eq)+
      moreover have "d * d \<le> n \<or> e * e \<le> n" using e by (metis mult_le_mono nat_le_linear)
      ultimately show False using small e by (metis dvd_triv_left dvd_triv_right)
    qed
    then show "no_divisor n" by (auto simp: no_divisor_def)
  next
    assume nd: "no_divisor n"
    show "\<forall>j. 2 \<le> j \<and> j * j \<le> n \<longrightarrow> \<not> j dvd n"
    proof (intro allI impI notI)
      fix j assume j: "2 \<le> j \<and> j * j \<le> n" "j dvd n"
      then have "n \<noteq> 0" by auto
      then have "j = n" using nd j by (auto simp: no_divisor_def)
      then show False using j(1) by (cases n) auto
    qed
  qed
  finally show ?thesis .
qed

lemma exists_prime: "\<exists>p \<ge> h. no_divisor p"
proof -
  define n :: nat where "n = fact h + 1"
  have n: "n \<noteq> 1" "n dvd n" "n \<noteq> 0" by (simp_all add: n_def)
  define p where "p = (LEAST d. d \<noteq> 1 \<and> d dvd n)"
  have p: "p \<noteq> 1 \<and> p dvd n" unfolding p_def by (rule LeastI [of _ n]) (use n in simp)
  have "d = 1 \<or> d = p" if d: "d dvd p" for d
  proof -
    have "d = 1 \<or> p \<le> d" using p d Least_le [of "\<lambda>d. d \<noteq> 1 \<and> d dvd n" d] unfolding p_def
      by (metis dvd_trans)
    moreover have "p \<noteq> 0" using p n(3) by auto
    ultimately show ?thesis using dvd_imp_le [OF d] by auto
  qed
  then have "no_divisor p" by (simp add: no_divisor_def)
  moreover have "h \<le> p"
  proof (rule ccontr)
    assume "\<not> h \<le> p"
    moreover have "p \<noteq> 0" using p n(3) by auto
    ultimately have "p dvd fact h" by (intro dvd_fact) auto
    then have "p dvd 1" using p unfolding n_def by (metis dvd_add_right_iff)
    then show False using p by simp
  qed
  ultimately show ?thesis by blast
qed

lemma prime_from_spec:
  assumes "hint \<le> q" "no_divisor q" "\<forall>d. hint \<le> d \<and> d < q \<longrightarrow> \<not> no_divisor d"
  shows "prime_from hint = Some q"
  using assms
proof (induction hint rule: inc_induct)
  case base
  then show ?case by (simp add: prime_from.simps [of q] IsPrime_iff)
next
  case (step h)
  then show ?case by (simp add: prime_from.simps [of h] IsPrime_iff)
qed

lemma prime_from_total:
  obtains q where "prime_from hint = Some q" "hint \<le> q" "no_divisor q" "\<forall>d. hint \<le> d \<and> d < q \<longrightarrow> \<not> no_divisor d"
proof -
  define q where "q = (LEAST d. hint \<le> d \<and> no_divisor d)"
  have q: "hint \<le> q \<and> no_divisor q"
    unfolding q_def using exists_prime [of hint] by (metis (mono_tags, lifting) LeastI)
  moreover have "\<forall>d. hint \<le> d \<and> d < q \<longrightarrow> \<not> no_divisor d"
    unfolding q_def using not_less_Least by blast
  ultimately show ?thesis using that prime_from_spec by blast
qed

lemma prime_500009: "no_divisor 500009"
proof -
  have "list_all (\<lambda>j. (500009 :: int) mod j \<noteq> 0) [2..707]" by simp
  then have "(500009 :: int) mod j \<noteq> 0" if "j \<in> set [2..707]" for j
    using that by (simp add: list_all_iff del: upto_rec_numeral)
  then have "int 500009 mod int j \<noteq> 0" if "2 \<le> j" "j \<le> 707" for j :: nat
    using that by (simp del: upto_rec_numeral)
  then have "\<not> j dvd 500009" if "2 \<le> j" "j \<le> 707" for j :: nat
    using that by (metis dvd_eq_mod_eq_0 int_dvd_int_iff)
  moreover have "j \<le> 707" if "j * j \<le> 500009" for j :: nat
  proof (rule ccontr)
    assume "\<not> j \<le> 707"
    then have "708 * 708 \<le> j * j" by (intro mult_le_mono) auto
    then show False using that by simp
  qed
  ultimately show ?thesis unfolding IsPrime_iff [symmetric] IsPrime_def Let_def is_prime_loop_gt sqrt_le by blast
qed

lemma FindAPrime_spec:
  obtains p where "FindAPrime hint = Some p" "no_divisor p" "min hint 500009 \<le> p" "p \<le> 500009"
    "\<forall>d. hint \<le> d \<and> d < p \<longrightarrow> \<not> no_divisor d"
proof (cases "hint \<ge> 500009")
  case True
  then have "\<forall>d. hint \<le> d \<and> d < 500009 \<longrightarrow> \<not> no_divisor d" by auto
  then show ?thesis using that [of 500009] prime_500009 True by (simp add: FindAPrime_def)
next
  case False
  obtain q where q: "prime_from hint = Some q" "hint \<le> q" "no_divisor q" "\<forall>d. hint \<le> d \<and> d < q \<longrightarrow> \<not> no_divisor d"
    by (rule prime_from_total)
  then have "q \<le> 500009" using prime_500009 False by (meson linorder_not_le nat_le_linear)
  then show ?thesis using that [of q] q False by (simp add: FindAPrime_def)
qed

lemma FindAPrime_pos: "FindAPrime hint = Some p \<Longrightarrow> p = 0 \<longleftrightarrow> hint = 0"
proof -
  assume p: "FindAPrime hint = Some p"
  have "prime_from 0 = Some 0" by (intro prime_from_spec) (auto simp: no_divisor_def)
  then have "FindAPrime 0 = Some 0" by (simp add: FindAPrime_def)
  moreover have "min hint 500009 \<le> p" using FindAPrime_spec [of hint] p by (metis option.inject)
  ultimately show ?thesis using p by (cases "hint = 0") auto
qed

section \<open>The map\<close>

definition blk :: "('k, 'v) hash_map \<Rightarrow> nat list list \<Rightarrow> nat \<Rightarrow> nat list" where
  "blk m xss i = begin_node (buckets m ! i) # xss ! i @ [end_node (buckets m ! i)]"

definition index_for :: "('k \<Rightarrow> 64 word) \<Rightarrow> ('k, 'v) hash_map \<Rightarrow> 'k \<Rightarrow> nat" where
  "index_for hasher m k = unat (hasher k) mod length (buckets m)"

definition entries_of :: "('k, 'v) hash_map \<Rightarrow> nat list \<Rightarrow> ('k \<times> 'v) list" where
  "entries_of m xs = map (\<lambda>a. the (cells m a)) xs"

definition buckets_ok :: "('k, 'v) hash_map \<Rightarrow> nat list list \<Rightarrow> bool" where
  "buckets_ok m xss \<longleftrightarrow> buckets m \<noteq> [] \<and> length xss = length (buckets m) \<and>
     (\<forall>i < length xss. dlist (heap (manager_of m)) (buckets m ! i) (xss ! i) \<and>
        nx (heap (manager_of m)) (end_node (buckets m ! i)) = 0 \<and> cells m (end_node (buckets m ! i)) = None \<and>
        (\<forall>a \<in> set (xss ! i). cells m a \<noteq> None)) \<and>
     (\<forall>i < length xss. \<forall>j < length xss. i \<noteq> j \<longrightarrow> set (blk m xss i) \<inter> set (blk m xss j) = {})"

definition map_rep :: "('k \<Rightarrow> 64 word) \<Rightarrow> ('k, 'v) hash_map \<Rightarrow> nat list \<Rightarrow> nat list list \<Rightarrow> ('k \<Rightarrow> 'v option) \<Rightarrow> bool" where
  "map_rep hasher m as xss M \<longleftrightarrow> holds (manager_of m) as [] \<and> buckets_ok m xss \<and> finite (dom M) \<and>
     (\<forall>i < length xss. set (blk m xss i) \<inter> ({0, 1, 2, 3, 4} \<union> set as) = {}) \<and>
     (\<forall>k. M k = map_of (entries_of m (xss ! index_for hasher m k)) k)"

subsection \<open>Searching\<close>

fun first_at :: "('k, 'v) hash_map \<Rightarrow> 'k \<Rightarrow> nat list \<Rightarrow> nat" where
  "first_at m k [] = 0"
| "first_at m k (a # as) = (if fst (the (cells m a)) = k then a else first_at m k as)"

lemma first_at_map:
  "0 \<notin> set xs \<Longrightarrow> (if first_at m k xs = 0 then None else Some (snd (the (cells m (first_at m k xs))))) = map_of (entries_of m xs) k"
  by (induction xs) (auto simp: entries_of_def)

lemma first_at_in: "first_at m k xs = 0 \<or> first_at m k xs \<in> set xs"
  by (induction xs) auto

lemma find_loop_spec:
  assumes "chain (nx (heap (manager_of m))) p (xs @ [e])" "nx (heap (manager_of m)) e = 0"
    "cells m e = None" "0 \<notin> set (xs @ [e])" "\<forall>a \<in> set xs. cells m a \<noteq> None"
  shows "find_loop m k (hd (xs @ [e])) = Some (first_at m k xs)"
  using assms
proof (induction xs)
  case Nil
  then show ?case by (simp add: find_loop.simps [of m k e] find_loop.simps [of m k 0])
next
  case (Cons x xs)
  obtain n ys where n: "xs @ [e] = n # ys" by (cases xs) auto
  have "chain (nx (heap (manager_of m))) p (x # n # ys)" using Cons(2) unfolding n [symmetric] by simp
  then have "nx (heap (manager_of m)) x = hd (xs @ [e])" using n by simp
  moreover have "chain (nx (heap (manager_of m))) p (xs @ [e])"
    using chain_suffix [of _ _ "[x]"] Cons(2) by auto
  ultimately show ?case using Cons by (auto simp: find_loop.simps [of m k x] split: option.splits)
qed

lemma Find_spec:
  assumes "buckets_ok m xss" "idx < length xss"
  shows "Find m k idx = Some (first_at m k (xss ! idx))"
proof -
  let ?l = "buckets m ! idx"
  have d: "dlist (heap (manager_of m)) ?l (xss ! idx)" "nx (heap (manager_of m)) (end_node ?l) = 0"
      "cells m (end_node ?l) = None" "\<forall>a \<in> set (xss ! idx). cells m a \<noteq> None"
    using assms by (auto simp: buckets_ok_def)
  have "chain (nx (heap (manager_of m))) (pv (heap (manager_of m))) (xss ! idx @ [end_node ?l])"
    using d(1) chain_suffix [of _ _ "[begin_node ?l]"] by (auto simp: dlist_def)
  then show ?thesis using d dlist_first [OF d(1)] find_loop_spec [of m _ "xss ! idx" "end_node ?l" k]
    by (auto simp: Find_def dlist_def)
qed

lemma bucket_index_less: "buckets m \<noteq> [] \<Longrightarrow> index_for hasher m k < length (buckets m)"
  by (simp add: index_for_def)

lemma find_key_spec:
  assumes "map_rep hasher m as xss M"
  shows "find_key hasher m k = Some (first_at m k (xss ! index_for hasher m k))"
  using assms Find_spec [of m xss] bucket_index_less [of m hasher k]
  by (auto simp: map_rep_def find_key_def HashResult_def index_for_def [symmetric] buckets_ok_def)

subsection \<open>Inserting\<close>

lemma GetOne_heap:
  assumes "holds m (x # xs) ys"
  shows "\<exists>f. GetOne m = Some (x, m\<lparr>heap := (heap m)\<lparr>nx := (nx (heap m))(1 := hd (xs @ [2]), x := 0),
    pv := (pv (heap m))(hd (xs @ [2]) := 1), mode := f\<rparr>\<rparr>)"
proof -
  have h: "dlist (heap m) resouce (x # xs)" using assms by (simp add: holds_def)
  note p = hash_pop_spec [OF h, unfolded resouce_sel]
  have "x \<noteq> 0" using h by (auto simp: dlist_def)
  then show ?thesis using p(1,3)
    by (intro exI [of _ "(mode (heap m))(x := False)"]) (simp add: GetOne_def set_nx_def)
qed

definition all_blks :: "('k, 'v) hash_map \<Rightarrow> nat list list \<Rightarrow> nat set" where
  "all_blks m xss = (\<Union>i < length xss. set (blk m xss i))"

lemma blk_in: "i < length xss \<Longrightarrow> a \<in> set (blk m xss i) \<Longrightarrow> a \<in> all_blks m xss"
  by (auto simp: all_blks_def)

lemma buckets_frame:
  assumes ok: "buckets_ok m xss" and b: "buckets m' = buckets m"
    and h: "nx (heap (manager_of m')) = (nx (heap (manager_of m)))(a := b, c := d)"
      "pv (heap (manager_of m')) = (pv (heap (manager_of m)))(e := f, g := k)"
      "mtx (heap (manager_of m')) = mtx (heap (manager_of m))"
    and out: "{a, c, e, g} \<inter> all_blks m xss = {}"
    and cells: "\<forall>a \<in> all_blks m xss. cells m' a = cells m a"
  shows "buckets_ok m' xss"
proof -
  have "dlist (heap (manager_of m')) (buckets m ! i) (xss ! i) \<and> nx (heap (manager_of m')) (end_node (buckets m ! i)) = 0 \<and>
      cells m' (end_node (buckets m ! i)) = None \<and> (\<forall>a \<in> set (xss ! i). cells m' a \<noteq> None)" if i: "i < length xss" for i
  proof -
    have o: "dlist (heap (manager_of m)) (buckets m ! i) (xss ! i)" "nx (heap (manager_of m)) (end_node (buckets m ! i)) = 0"
        "cells m (end_node (buckets m ! i)) = None" "\<forall>a \<in> set (xss ! i). cells m a \<noteq> None"
      using ok i by (auto simp: buckets_ok_def)
    have "{a, c, e, g} \<inter> set (begin_node (buckets m ! i) # xss ! i @ [end_node (buckets m ! i)]) = {}"
      using out blk_in [OF i, of _ m] unfolding blk_def by blast
    note fr = dlist_frame [OF o(1) h this]
    have "end_node (buckets m ! i) \<in> all_blks m xss" "\<forall>x \<in> set (xss ! i). x \<in> all_blks m xss"
      using blk_in [OF i, of _ m] by (auto simp: blk_def)
    then show ?thesis using o fr out cells h(1) by auto
  qed
  moreover have "blk m' xss = blk m xss" by (simp add: blk_def b fun_eq_iff)
  ultimately show ?thesis using ok b by (simp add: buckets_ok_def)
qed

lemma bucket_push:
  assumes ok: "buckets_ok m xss" and i: "i < length xss" and x: "x \<notin> all_blks m xss" "x \<noteq> 0" "cells m x \<noteq> None"
  shows "\<exists>h'. PushBack (heap (manager_of m)) (buckets m ! i) x = Some h' \<and>
    buckets_ok (m\<lparr>manager_of := (manager_of m)\<lparr>heap := h'\<rparr>\<rparr>) (xss[i := xss ! i @ [x]]) \<and>
    (\<forall>l ys. dlist (heap (manager_of m)) l ys \<longrightarrow> set (begin_node l # ys @ [end_node l]) \<inter> (all_blks m xss \<union> {x}) = {} \<longrightarrow>
      dlist h' l ys)"
proof -
  let ?h = "heap (manager_of m)"
  let ?l = "buckets m ! i"
  let ?ys = "xss[i := xss ! i @ [x]]"
  have d: "dlist ?h ?l (xss ! i)" using ok i by (auto simp: buckets_ok_def)
  have "x \<notin> set (blk m xss i)" using x(1) blk_in [OF i] by blast
  then have "x \<notin> set (0 # begin_node ?l # xss ! i @ [end_node ?l])" using x(2) by (auto simp: blk_def)
  from dlist_push [OF d this] obtain h' where h': "PushBack ?h ?l x = Some h'" "dlist h' ?l (xss ! i @ [x])" by blast
  define p where "p = last (begin_node ?l # xss ! i)"
  have p: "p \<in> set (begin_node ?l # xss ! i)" unfolding p_def by (rule last_in_set) simp
  then have pin: "p \<in> set (blk m xss i)" by (auto simp: blk_def)
  have e: "nx h' = (nx ?h)(p := x, x := end_node ?l)" "pv h' = (pv ?h)(x := p, end_node ?l := x)" "mtx h' = mtx ?h"
    using h'(1) hash_push_spec [OF d, of x] by (auto simp: p_def)
  have fr: "dlist h' l ys" if "dlist ?h l ys" "set (begin_node l # ys @ [end_node l]) \<inter> (set (blk m xss i) \<union> {x}) = {}" for l ys
    by (rule dlist_frame [OF that(1) e(1,2)]) (use that(2) pin e(3) in \<open>auto simp: blk_def\<close>)
  let ?m = "m\<lparr>manager_of := (manager_of m)\<lparr>heap := h'\<rparr>\<rparr>"
  have bl: "set (blk ?m ?ys j) = (if j = i then insert x (set (blk m xss i)) else set (blk m xss j))" if "j < length xss" for j
    using that i by (auto simp: blk_def)
  have sep: "set (blk m xss j) \<inter> set (blk m xss k) = {}" if "j < length xss" "k < length xss" "j \<noteq> k" for j k
    using ok that unfolding buckets_ok_def by blast
  have "dlist h' (buckets m ! j) (?ys ! j) \<and> nx h' (end_node (buckets m ! j)) = 0 \<and>
      cells m (end_node (buckets m ! j)) = None \<and> (\<forall>a \<in> set (?ys ! j). cells m a \<noteq> None)" if j: "j < length xss" for j
  proof -
    have o: "dlist ?h (buckets m ! j) (xss ! j)" "nx ?h (end_node (buckets m ! j)) = 0"
        "cells m (end_node (buckets m ! j)) = None" "\<forall>a \<in> set (xss ! j). cells m a \<noteq> None"
      using ok j by (auto simp: buckets_ok_def)
    have ej: "end_node (buckets m ! j) \<in> set (blk m xss j)" by (simp add: blk_def)
    then have xe: "end_node (buckets m ! j) \<noteq> x" using x(1) blk_in [OF j] by blast
    have "p \<noteq> end_node (buckets m ! i)" using p d by (auto simp: dlist_def)
    then have pe: "end_node (buckets m ! j) \<noteq> p" using ej pin sep [OF i j] by (cases "j = i") auto
    show ?thesis
    proof (cases "j = i")
      case True
      then show ?thesis using o h'(2) x(3) i xe pe by (simp add: e(1))
    next
      case False
      have "x \<notin> set (blk m xss j)" using x(1) blk_in [OF j] by blast
      then have "dlist h' (buckets m ! j) (xss ! j)"
        using sep [OF i j] False by (intro fr [OF o(1)]) (auto simp: blk_def)
      then show ?thesis using o False xe pe by (simp add: e(1))
    qed
  qed
  moreover have "set (blk ?m ?ys j) \<inter> set (blk ?m ?ys k) = {}" if "j < length xss" "k < length xss" "j \<noteq> k" for j k
    using sep [OF that] x(1) blk_in [OF that(1), of x m] blk_in [OF that(2), of x m] that(3) bl [OF that(1)] bl [OF that(2)]
    by (auto split: if_splits)
  ultimately have "buckets_ok ?m ?ys" using ok by (simp add: buckets_ok_def)
  moreover have "set (blk m xss i) \<subseteq> all_blks m xss" using blk_in [OF i] by blast
  then have "dlist h' l ys" if "dlist ?h l ys" "set (begin_node l # ys @ [end_node l]) \<inter> (all_blks m xss \<union> {x}) = {}" for l ys
    using fr [OF that(1)] that(2) by blast
  ultimately show ?thesis using h'(1) by blast
qed

lemma first_at_cong: "(\<And>a. a \<in> set xs \<Longrightarrow> cells m' a = cells m a) \<Longrightarrow> first_at m' k xs = first_at m k xs"
  by (induction xs) auto

lemma entries_cong: "(\<And>a. a \<in> set xs \<Longrightarrow> cells m' a = cells m a) \<Longrightarrow> entries_of m' xs = entries_of m xs"
  by (simp add: entries_of_def)

lemma entries_of_append: "entries_of m (xs @ [x]) = entries_of m xs @ [the (cells m x)]"
  by (simp add: entries_of_def)

lemma not_found:
  assumes "map_rep hasher m as xss M" "M k = None"
  shows "first_at m k (xss ! index_for hasher m k) = 0"
proof -
  have i: "index_for hasher m k < length xss" using assms(1) bucket_index_less [of m hasher k]
    by (auto simp: map_rep_def buckets_ok_def)
  then have "set (blk m xss (index_for hasher m k)) \<inter> {0} = {}" using assms(1) unfolding map_rep_def by blast
  then have "0 \<notin> set (xss ! index_for hasher m k)" by (auto simp: blk_def)
  from first_at_map [OF this, of m k] show ?thesis
    using assms by (auto simp: map_rep_def split: if_splits)
qed

lemma insert_pair_new:
  assumes "map_rep hasher m as xss M" "M (fst v) = None"
    "GetOne (manager_of m) = Some (node, mgr)"
    "PushBack (heap mgr) (buckets m ! index_for hasher m (fst v)) node = Some h"
  shows "insert_pair hasher m v = Some ((node, True),
    m\<lparr>manager_of := mgr\<lparr>heap := h\<rparr>, cells := (cells m)(node := Some v)\<rparr>)"
proof -
  have b: "buckets m \<noteq> []" using assms(1) by (simp add: map_rep_def buckets_ok_def)
  have "Find m (fst v) (index_for hasher m (fst v)) = Some 0"
    using find_key_spec [OF assms(1), of "fst v"] not_found [OF assms(1,2)] b
    by (simp add: find_key_def HashResult_def index_for_def [symmetric])
  then show ?thesis using assms(3,4) b
    by (simp add: insert_pair_def HashResult_def index_for_def [symmetric] InsertNode_def)
qed

lemma map_rep_insert:
  assumes rep: "map_rep hasher m (x # as) xss M" and new: "M (fst v) = None"
  shows "\<exists>m' xss'. insert_pair hasher m v = Some ((x, True), m') \<and> map_rep hasher m' as xss' (M(fst v \<mapsto> snd v)) \<and>
    cells m' x = Some v \<and> x \<noteq> 0"
proof -
  let ?i = "index_for hasher m (fst v)"
  let ?mgr = "manager_of m"
  let ?n = "hd (as @ [2])"
  have hold: "holds ?mgr (x # as) []" and ok: "buckets_ok m xss"
    and out: "\<And>i. i < length xss \<Longrightarrow> set (blk m xss i) \<inter> ({0, 1, 2, 3, 4} \<union> set (x # as)) = {}"
    and M: "\<And>k. M k = map_of (entries_of m (xss ! index_for hasher m k)) k"
    using rep by (auto simp: map_rep_def)
  have i: "?i < length xss" using ok bucket_index_less [of m hasher "fst v"] by (auto simp: buckets_ok_def)
  have allb: "all_blks m xss \<inter> ({0, 1, 2, 3, 4} \<union> set (x # as)) = {}" using out by (auto simp: all_blks_def)
  obtain f where g: "GetOne ?mgr = Some (x, ?mgr\<lparr>heap := (heap ?mgr)\<lparr>nx := (nx (heap ?mgr))(1 := ?n, x := 0),
      pv := (pv (heap ?mgr))(?n := 1), mode := f\<rparr>\<rparr>)" (is "_ = Some (x, ?mgr1)")
    using GetOne_heap [OF hold] by blast
  have hold1: "holds ?mgr1 as []" using GetOne_first [OF hold] g by auto
  have n: "?n \<in> {2} \<union> set as" using hd_in_set [of "as @ [2]"] by auto
  define m1 where "m1 = m\<lparr>manager_of := ?mgr1, cells := (cells m)(x := Some v)\<rparr>"
  have xout: "x \<notin> all_blks m xss" "x \<noteq> 0" using allb hold by (auto simp: holds_def dlist_def)
  have bk: "all_blks m1 xss = all_blks m xss" by (simp add: all_blks_def blk_def m1_def)
  have ok1: "buckets_ok m1 xss"
    by (rule buckets_frame [OF ok, of m1 1 ?n x 0 ?n 1 ?n 1]) (use n allb xout in \<open>auto simp: m1_def\<close>)
  have "x \<notin> all_blks m1 xss" "cells m1 x \<noteq> None" using xout bk by (auto simp: m1_def)
  from bucket_push [OF ok1 i this(1) xout(2) this(2)] obtain h where
    h: "PushBack (heap ?mgr1) (buckets m ! ?i) x = Some h"
      "buckets_ok (m1\<lparr>manager_of := ?mgr1\<lparr>heap := h\<rparr>\<rparr>) (xss[?i := xss ! ?i @ [x]])"
      "\<And>l ys. dlist (heap ?mgr1) l ys \<Longrightarrow> set (begin_node l # ys @ [end_node l]) \<inter> (all_blks m xss \<union> {x}) = {} \<Longrightarrow> dlist h l ys"
    unfolding bk by (auto simp: m1_def)
  define m2 where "m2 = m1\<lparr>manager_of := ?mgr1\<lparr>heap := h\<rparr>\<rparr>"
  let ?ys = "xss[?i := xss ! ?i @ [x]]"
  have xas: "x \<notin> set (1 # as @ [2])" "x \<noteq> 3" "x \<noteq> 4" using hold by (auto simp: holds_def dlist_def)
  have "holds (?mgr1\<lparr>heap := h\<rparr>) as []"
  proof -
    have "dlist h resouce as" by (rule h(3)) (use hold1 allb xas in \<open>auto simp: holds_def\<close>)
    moreover have "dlist h reclaimer []" by (rule h(3)) (use hold1 allb xas in \<open>auto simp: holds_def\<close>)
    ultimately show ?thesis using hold1 by (simp add: holds_def)
  qed
  moreover have idx: "index_for hasher m2 k = index_for hasher m k" for k by (simp add: index_for_def m2_def m1_def)
  moreover have "(M(fst v \<mapsto> snd v)) k = map_of (entries_of m2 (?ys ! index_for hasher m k)) k" for k
  proof -
    have k: "index_for hasher m k < length xss" using ok bucket_index_less [of m hasher k] by (auto simp: buckets_ok_def)
    have "x \<notin> set (xss ! index_for hasher m k)" using xout(1) blk_in [OF k, of x m] by (auto simp: blk_def)
    then have e: "entries_of m2 (xss ! index_for hasher m k) = entries_of m (xss ! index_for hasher m k)"
      by (intro entries_cong) (auto simp: m2_def m1_def)
    have "map_of (entries_of m2 (?ys ! index_for hasher m k)) k =
        (if index_for hasher m k = ?i then (map_of [v] ++ map_of (entries_of m (xss ! index_for hasher m k))) k
         else map_of (entries_of m (xss ! index_for hasher m k)) k)"
    proof (cases "index_for hasher m k = ?i")
      case True
      moreover have "the (cells m2 x) = v" by (simp add: m2_def m1_def)
      ultimately show ?thesis using e i by (simp add: entries_of_append)
    qed (simp add: e)
    then show ?thesis using M [of k] new by (cases v) (auto simp: map_add_def split: option.splits)
  qed
  moreover have "set (blk m2 ?ys j) \<inter> ({0, 1, 2, 3, 4} \<union> set as) = {}" if "j < length xss" for j
  proof -
    have "set (blk m2 ?ys j) \<subseteq> insert x (set (blk m xss j))" using that i by (auto simp: blk_def m2_def m1_def nth_list_update)
    then show ?thesis using out [OF that] xas xout(2) by auto
  qed
  moreover have "finite (dom M)" using rep by (simp add: map_rep_def)
  ultimately have "map_rep hasher m2 as ?ys (M(fst v \<mapsto> snd v))"
    using h(2) by (simp add: map_rep_def m2_def)
  moreover have "insert_pair hasher m v = Some ((x, True), m2)"
    using insert_pair_new [OF rep new g h(1)] by (simp add: m2_def m1_def)
  ultimately show ?thesis using xout(2) by (intro exI [of _ m2] exI [of _ ?ys]) (simp add: m2_def m1_def)
qed

subsection \<open>The constructor\<close>

lemma new_bucket_frame:
  assumes "dlist h l ys" "set (begin_node l # ys @ [end_node l]) \<inter> {begin_node k, end_node k} = {}"
  shows "dlist (new_bucket k h) l ys"
proof -
  have "chain (nx (new_bucket k h)) (pv (new_bucket k h)) (begin_node l # ys @ [end_node l]) =
      chain (nx h) (pv h) (begin_node l # ys @ [end_node l])"
    by (rule chain_cong)
      (use assms(2) in \<open>auto simp: new_bucket_def ConcurrentHashList_def node_defs Let_def dest!: in_set_butlastD in_tl\<close>)
  moreover have "mtx (new_bucket k h) = mtx h"
    using assms(1) by (auto simp: new_bucket_def ConcurrentHashList_def node_defs Let_def dlist_def fun_eq_iff)
  ultimately show ?thesis using assms(1) by (simp add: dlist_def)
qed

lemma new_buckets_frame:
  "dlist h l ys \<Longrightarrow> set (begin_node l # ys @ [end_node l]) \<inter> (\<Union>k \<in> set ks. {begin_node k, end_node k}) = {} \<Longrightarrow>
   dlist (fold new_bucket ks h) l ys"
proof (induction ks arbitrary: h)
  case (Cons k ks)
  then show ?case using new_bucket_frame [OF Cons(2), of k] by (simp add: Int_Un_distrib)
qed simp

lemma new_buckets_nx:
  "e \<notin> (\<Union>k \<in> set ks. {begin_node k, end_node k}) \<Longrightarrow> nx (fold new_bucket ks h) e = nx h e"
proof (induction ks arbitrary: h)
  case (Cons k ks)
  then show ?case by (simp add: new_bucket_def ConcurrentHashList_def node_defs Let_def)
qed simp

lemma new_buckets_made:
  assumes "mtx h = (\<lambda>_. False)" "l \<in> set ks" "distinct (concat (map (\<lambda>k. [begin_node k, end_node k]) ks))" 
    "begin_node l \<noteq> 0" "end_node l \<noteq> 0"
  shows "dlist (fold new_bucket ks h) l [] \<and> nx (fold new_bucket ks h) (end_node l) = 0"
proof -
  obtain us ws where ks: "ks = us @ l # ws" using assms(2) by (meson split_list)
  let ?h = "fold new_bucket us h"
  have "mtx (fold new_bucket us h) = (\<lambda>_. False)" for us
    using assms(1) by (induction us arbitrary: h)
      (auto simp: new_bucket_def ConcurrentHashList_def node_defs Let_def fun_eq_iff)
  then have d: "dlist (new_bucket l ?h) l []" "nx (new_bucket l ?h) (end_node l) = 0"
    using assms(3-5) unfolding ks
    by (auto simp: new_bucket_def ConcurrentHashList_def node_defs Let_def dlist_def fun_eq_iff)
  have o: "{begin_node l, end_node l} \<inter> (\<Union>k \<in> set ws. {begin_node k, end_node k}) = {}"
    using assms(3) unfolding ks by auto
  show ?thesis using new_buckets_frame [OF d(1), of ws] new_buckets_nx [of "end_node l" ws "new_bucket l ?h"] d(2) o
    by (simp add: ks)
qed

lemma ConcurrentHashMap_spec:
  assumes "0 < hint"
  shows "\<exists>m as xss. ConcurrentHashMap hint = Some m \<and> map_rep hasher m as xss (\<lambda>_. None) \<and> length as = 2 * hint"
proof -
  obtain n where n: "FindAPrime hint = Some n" by (rule FindAPrime_spec)
  then have npos: "0 < n" using FindAPrime_pos [OF n] assms by simp
  obtain mg where mg: "NodeManager (hint * 2) 60 = Some mg" "holds mg [5..<5 + hint * 2] []" "fresh mg = 5 + hint * 2"
    using NodeManager_spec [of "hint * 2" 60] by blast
  let ?bs = "map (bucket_at (fresh mg)) [0..<n]"
  let ?h = "fold new_bucket ?bs (heap mg)"
  define m :: "('a, 'b) hash_map" where
    "m = \<lparr>manager_of = mg\<lparr>heap := ?h, fresh := fresh mg + 2 * n\<rparr>, cells = \<lambda>_. None, buckets = ?bs\<rparr>"
  have m: "ConcurrentHashMap hint = Some m" using n mg(1) by (simp add: ConcurrentHashMap_def m_def Let_def)
  have hold: "holds (manager_of m) [5..<5 + hint * 2] []"
  proof -
    have "dlist ?h resouce [5..<5 + hint * 2]" "dlist ?h reclaimer []"
      using mg(2,3) by (auto simp: holds_def bucket_at_def intro!: new_buckets_frame)
    then show ?thesis using mg(2) by (auto simp: holds_def m_def)
  qed
  have dis: "distinct (concat (map (\<lambda>k. [begin_node k, end_node k]) ?bs))"
  proof -
    have "concat (map (\<lambda>k. [begin_node k, end_node k]) ?bs) = [fresh mg..<fresh mg + 2 * n]"
      by (induction n) (simp_all add: bucket_at_def)
    then show ?thesis by simp
  qed
  have b: "dlist ?h (?bs ! i) [] \<and> nx ?h (end_node (?bs ! i)) = 0" if "i < n" for i
    using that mg(2,3) dis by (intro new_buckets_made) (auto simp: holds_def dlist_def bucket_at_def)
  let ?xss = "replicate n []"
  have "buckets_ok m ?xss"
    using npos b by (auto simp: buckets_ok_def m_def blk_def bucket_at_def) 
  moreover have "set (blk m ?xss i) \<inter> ({0, 1, 2, 3, 4} \<union> set [5..<5 + hint * 2]) = {}" if "i < n" for i
    using that mg(3) by (auto simp: blk_def m_def bucket_at_def)
  moreover have "index_for hasher m k < n" for k using npos by (simp add: index_for_def m_def)
  ultimately have "map_rep hasher m [5..<5 + hint * 2] ?xss (\<lambda>_. None)"
    using hold by (simp add: map_rep_def entries_of_def)
  then show ?thesis using m by (intro exI [of _ m] exI [of _ "[5..<5 + hint * 2]"] exI [of _ ?xss]) simp
qed

section \<open>Runs\<close>

text \<open>Calls, with what the caller reads through the iterator: the value, and whether it is new.\<close>

datatype ('k, 'v) hash_call = Find_call 'k | Insert_call 'k 'v | Emplace_call 'k 'v

definition value_at :: "('k, 'v) hash_map \<Rightarrow> nat \<Rightarrow> 'v option" where
  "value_at m it = (if it = 0 then None else map_option snd (cells m it))"

fun map_call :: "('k \<Rightarrow> 64 word) \<Rightarrow> ('k, 'v) hash_map \<Rightarrow> ('k, 'v) hash_call \<Rightarrow>
  (('v option \<times> bool) \<times> ('k, 'v) hash_map) option" where
  "map_call hasher m (Find_call k) = do { it \<leftarrow> find_key hasher m k; Some ((value_at m it, False), m) }"
| "map_call hasher m (Insert_call k v) = do {
     ((it, new), m') \<leftarrow> insert_pair hasher m (k, v); Some ((value_at m' it, new), m') }"
| "map_call hasher m (Emplace_call k v) = do {
     ((it, new), m') \<leftarrow> emplace hasher m k v; Some ((value_at m' it, new), m') }"

text \<open>The specification: insertions keep the first value of a key.\<close>

definition insert_spec :: "('k \<Rightarrow> 'v option) \<Rightarrow> 'k \<Rightarrow> 'v \<Rightarrow> ('v option \<times> bool) \<times> ('k \<Rightarrow> 'v option)" where
  "insert_spec M k v = (case M k of Some w \<Rightarrow> ((Some w, False), M) | None \<Rightarrow> ((Some v, True), M(k \<mapsto> v)))"

fun map_call_spec :: "('k \<Rightarrow> 'v option) \<Rightarrow> ('k, 'v) hash_call \<Rightarrow> ('v option \<times> bool) \<times> ('k \<Rightarrow> 'v option)" where
  "map_call_spec M (Find_call k) = ((M k, False), M)"
| "map_call_spec M (Insert_call k v) = insert_spec M k v"
| "map_call_spec M (Emplace_call k v) = insert_spec M k v"

lemma value_found:
  assumes "map_rep hasher m as xss M"
  shows "value_at m (first_at m k (xss ! index_for hasher m k)) = M k"
proof -
  let ?xs = "xss ! index_for hasher m k"
  have i: "index_for hasher m k < length xss" and ok: "buckets_ok m xss"
    using assms bucket_index_less [of m hasher k] by (auto simp: map_rep_def buckets_ok_def)
  then have "set (blk m xss (index_for hasher m k)) \<inter> {0} = {}" using assms unfolding map_rep_def by blast
  then have z: "0 \<notin> set ?xs" by (auto simp: blk_def)
  have "\<forall>a \<in> set ?xs. cells m a \<noteq> None" using ok i by (auto simp: buckets_ok_def)
  then have "first_at m k ?xs = 0 \<or> cells m (first_at m k ?xs) \<noteq> None" using first_at_in [of m k ?xs] by auto
  then show ?thesis using first_at_map [OF z, of m k] assms
    by (auto simp: value_at_def map_rep_def split: if_splits)
qed

lemma insert_refines:
  assumes rep: "map_rep hasher m as xss M" and room: "M k \<noteq> None \<or> as \<noteq> []"
  shows "\<exists>it new m' as' xss'. insert_pair hasher m (k, v) = Some ((it, new), m') \<and>
    (value_at m' it, new) = fst (insert_spec M k v) \<and> map_rep hasher m' as' xss' (snd (insert_spec M k v)) \<and>
    length as' + card (dom (snd (insert_spec M k v))) = length as + card (dom M)"
proof (cases "M k")
  case None
  then obtain x as' where as: "as = x # as'" using room by (cases as) auto
  have "finite (dom M)" using rep by (simp add: map_rep_def)
  then have "card (dom (M(k \<mapsto> v))) = Suc (card (dom M))" using None by (simp add: card_insert_if domIff)
  then show ?thesis using map_rep_insert [OF rep [unfolded as], of "(k, v)"] None as
    by (fastforce simp: insert_spec_def value_at_def)
next
  case (Some w)
  let ?a = "first_at m k (xss ! index_for hasher m k)"
  have v: "value_at m ?a = Some w" using value_found [OF rep] Some by simp
  then have "?a \<noteq> 0" by (metis value_at_def option.distinct(1))
  then have "insert_pair hasher m (k, v) = Some ((?a, False), m)"
    using find_key_spec [OF rep, of k] by (auto simp: insert_pair_def find_key_def split: Option.bind_splits)
  then show ?thesis using v rep Some by (auto simp: insert_spec_def)
qed

lemma insert_spec_grows: "dom M \<subseteq> dom (snd (insert_spec M k v))"
  by (auto simp: insert_spec_def split: option.splits)

lemma map_call_spec_dom: "finite (dom M) \<Longrightarrow> finite (dom (snd (map_call_spec M op))) \<and> dom M \<subseteq> dom (snd (map_call_spec M op))"
  by (cases op) (auto simp: insert_spec_def split: option.splits)

lemma run_model_dom:
  "finite (dom M) \<Longrightarrow> finite (dom (snd (run_model map_call_spec M ops))) \<and> dom M \<subseteq> dom (snd (run_model map_call_spec M ops))"
proof (induction ops arbitrary: M)
  case (Cons op ops)
  then show ?case using map_call_spec_dom [OF Cons(2), of op]
    by (simp add: split_beta) (meson order_trans)
qed simp

lemma map_call_refines:
  assumes rep: "map_rep hasher m as xss M" and room: "card (dom (snd (map_call_spec M op))) \<le> length as + card (dom M)"
  shows "\<exists>m' as' xss'. map_call hasher m op = Some (fst (map_call_spec M op), m') \<and>
    map_rep hasher m' as' xss' (snd (map_call_spec M op)) \<and>
    length as' + card (dom (snd (map_call_spec M op))) = length as + card (dom M)"
proof -
  have "M k \<noteq> None \<or> as \<noteq> []" if "card (dom (snd (insert_spec M k v))) \<le> length as + card (dom M)" for k v
  proof -
    have "finite (dom M)" using rep by (simp add: map_rep_def)
    then show ?thesis using that by (cases "M k") (auto simp: insert_spec_def card_insert_if domIff)
  qed
  note rm = this
  have ins: "\<exists>it new m' as' xss'. insert_pair hasher m (k, v) = Some ((it, new), m') \<and>
      (value_at m' it, new) = fst (insert_spec M k v) \<and> map_rep hasher m' as' xss' (snd (insert_spec M k v)) \<and>
      length as' + card (dom (snd (insert_spec M k v))) = length as + card (dom M)"
    if "snd (map_call_spec M op) = snd (insert_spec M k v)" for k v
    using insert_refines [OF rep rm [of k v]] room that by simp
  show ?thesis
  proof (cases op)
    case (Find_call k)
    then show ?thesis using find_key_spec [OF rep, of k] value_found [OF rep, of k] rep by auto
  next
    case (Insert_call k v)
    then show ?thesis using ins [of k v] by fastforce
  next
    case (Emplace_call k v)
    then show ?thesis using ins [of k v] by (fastforce simp: emplace_insert)
  qed
qed

lemma hash_run_refines:
  "map_rep hasher m as xss M \<Longrightarrow> card (dom (snd (run_model map_call_spec M ops))) \<le> length as + card (dom M) \<Longrightarrow>
   \<exists>m'. run_calls (map_call hasher) m ops = Some (fst (run_model map_call_spec M ops), m') \<and>
     (\<exists>as' xss'. map_rep hasher m' as' xss' (snd (run_model map_call_spec M ops)) \<and>
       length as' + card (dom (snd (run_model map_call_spec M ops))) = length as + card (dom M))"
proof (induction ops arbitrary: m as xss M)
  case (Cons op ops)
  let ?M = "snd (map_call_spec M op)"
  have "finite (dom M)" using Cons(2) by (simp add: map_rep_def)
  then have "finite (dom ?M)" using map_call_spec_dom by blast
  then have "card (dom ?M) \<le> card (dom (snd (run_model map_call_spec ?M ops)))"
    using run_model_dom [of ?M ops] by (intro card_mono) auto
  then have c: "card (dom ?M) \<le> length as + card (dom M)" using Cons(3) by (simp add: split_beta)
  obtain m' as' xss' where 1: "map_call hasher m op = Some (fst (map_call_spec M op), m')"
      "map_rep hasher m' as' xss' ?M" "length as' + card (dom ?M) = length as + card (dom M)"
    using map_call_refines [OF Cons(2) c] by blast
  have "card (dom (snd (run_model map_call_spec ?M ops))) \<le> length as' + card (dom ?M)"
    using Cons(3) 1(3) by (simp add: split_beta)
  from Cons(1) [OF 1(2) this] show ?case using 1 by (auto simp: split_beta)
qed auto



section \<open>Beyond the capacity\<close>

lemma GetOne_sentinel:
  assumes "nx (heap m) 1 = 2" "mtx (heap m) = (\<lambda>_. False)"
  shows "GetOne m = Some (2, m\<lparr>heap := set_nx (heap m) 2 0\<rparr>)"
  using assms free_lock(2) [of 2 1] by (simp add: GetOne_def PopHead_def node_defs fun_upd_twist)

lemma PushBack_self:
  assumes "pv h (end_node l) = a" "a \<noteq> 0" "end_node l \<noteq> 0" "end_node l \<noteq> a" "mtx h = (\<lambda>_. False)"
  shows "\<exists>f. PushBack h l a = Some (h\<lparr>nx := (nx h)(a := end_node l), pv := (pv h)(a := a, end_node l := a), mode := f\<rparr>)"
  using assms free_lock(1) [of "end_node l" a] 
  by (intro exI [of _ "(mode h)(a := True)"]) (simp add: PushBack_def node_defs fun_upd_twist)

text \<open>The state after one key too many: the sentinel 2 of the manager is the last node of its bucket.\<close>

lemma insert_full:
  assumes rep: "map_rep hasher m [] xss M" and new: "M (fst v) = None"
  defines "i \<equiv> index_for hasher m (fst v)"
  shows "\<exists>m'. insert_pair hasher m v = Some ((2, True), m') \<and> buckets m' = buckets m \<and>
    cells m' = (cells m)(2 := Some v) \<and> buckets_ok m' (xss[i := xss ! i @ [2]]) \<and>
    nx (heap (manager_of m')) 1 = 2"
proof -
  let ?mgr = "manager_of m"
  have hold: "holds ?mgr [] []" and ok: "buckets_ok m xss"
    and out: "\<And>i. i < length xss \<Longrightarrow> set (blk m xss i) \<inter> {0, 1, 2, 3, 4} = {}"
    using rep by (auto simp: map_rep_def)
  have i: "i < length xss" using ok bucket_index_less [of m hasher "fst v"] by (auto simp: buckets_ok_def i_def)
  have allb: "all_blks m xss \<inter> {0, 1, 2, 3, 4} = {}" using out by (auto simp: all_blks_def)
  have nx1: "nx (heap ?mgr) 1 = 2" "mtx (heap ?mgr) = (\<lambda>_. False)" using hold by (auto simp: holds_def dlist_def)
  let ?mgr1 = "?mgr\<lparr>heap := set_nx (heap ?mgr) 2 0\<rparr>"
  define m1 where "m1 = m\<lparr>manager_of := ?mgr1, cells := (cells m)(2 := Some v)\<rparr>"
  have bk: "all_blks m1 xss = all_blks m xss" by (simp add: all_blks_def blk_def m1_def)
  have ok1: "buckets_ok m1 xss"
    by (rule buckets_frame [OF ok, of m1 2 0 2 0 2 "pv (heap ?mgr) 2" 2 "pv (heap ?mgr) 2"])
      (use allb in \<open>auto simp: m1_def set_nx_def\<close>)
  have "2 \<notin> all_blks m1 xss" "cells m1 2 \<noteq> None" using allb bk by (auto simp: m1_def)
  from bucket_push [OF ok1 i this(1) _ this(2)] obtain h where
    h: "PushBack (heap ?mgr1) (buckets m ! i) 2 = Some h"
      "buckets_ok (m1\<lparr>manager_of := ?mgr1\<lparr>heap := h\<rparr>\<rparr>) (xss[i := xss ! i @ [2]])"
    by (auto simp: m1_def)
  have d: "dlist (heap ?mgr1) (buckets m ! i) (xss ! i)" using ok1 i by (auto simp: buckets_ok_def m1_def)
  have "last (begin_node (buckets m ! i) # xss ! i) \<in> set (blk m xss i)"
    by (auto simp: blk_def)
  then have "last (begin_node (buckets m ! i) # xss ! i) \<noteq> 1" using out [OF i] by auto
  then have "nx h 1 = 2" using hash_push_spec [OF d, of 2] h(1) nx1(1) by (auto simp: set_nx_def)
  moreover have "insert_pair hasher m v = Some ((2, True), m1\<lparr>manager_of := ?mgr1\<lparr>heap := h\<rparr>\<rparr>)"
    using insert_pair_new [OF rep new GetOne_sentinel [OF nx1] h(1) [unfolded i_def]] by (simp add: m1_def)
  ultimately show ?thesis using h(2)
    by (intro exI [of _ "m1\<lparr>manager_of := ?mgr1\<lparr>heap := h\<rparr>\<rparr>"]) (simp add: m1_def)
qed

text \<open>A second key moves the sentinel to the end of its own bucket.\<close>

lemma move_sentinel:
  assumes ok: "buckets_ok m (xss[i := xss ! i @ [2]])" and i: "i < length xss" and j: "j < length xss"
    and nx1: "nx (heap (manager_of m)) 1 = 2"
  shows "\<exists>h p. PushBack (set_nx (heap (manager_of m)) 2 0) (buckets m ! j) 2 = Some h \<and>
    nx h (begin_node (buckets m ! i)) = hd (xss ! i @ [2]) \<and>
    chain (nx h) p (xss ! i @ [2, end_node (buckets m ! j)]) \<and> nx h (end_node (buckets m ! j)) = 0"
proof -
  let ?h = "heap (manager_of m)"
  let ?b = "buckets m"
  let ?ys = "xss[i := xss ! i @ [2]]"
  have di: "dlist ?h (?b ! i) (xss ! i @ [2])" and e0: "\<And>k. k < length xss \<Longrightarrow> nx ?h (end_node (?b ! k)) = 0"
    using ok i by (auto simp: buckets_ok_def)
  have free: "mtx ?h = (\<lambda>_. False)" using di by (simp add: dlist_def)
  have ci: "chain (nx ?h) (pv ?h) (xss ! i @ [2, end_node (?b ! i)])"
    using di chain_suffix [of _ _ "[begin_node (?b ! i)]"] by (auto simp: dlist_def)
  have bi: "nx ?h (begin_node (?b ! i)) = hd (xss ! i @ [2])" using dlist_first [OF di] by (cases "xss ! i") auto
  show ?thesis
  proof (cases "j = i")
    case True
    have "pv ?h (end_node (?b ! i)) = 2" using dlist_pred [OF di] by simp
    then obtain f where "PushBack (set_nx ?h 2 0) (?b ! i) 2 = Some ((set_nx ?h 2 0)\<lparr>nx := (nx (set_nx ?h 2 0))(2 := end_node (?b ! i)),
        pv := (pv ?h)(2 := 2, end_node (?b ! i) := 2), mode := f\<rparr>)"
      using PushBack_self [of "set_nx ?h 2 0" "?b ! i" 2] free di by (auto simp: set_nx_def dlist_def)
    moreover have "(nx (set_nx ?h 2 0))(2 := end_node (?b ! i)) = nx ?h"
      using chain_suffix [OF ci] by (auto simp: set_nx_def fun_eq_iff)
    ultimately show ?thesis using ci bi e0 [OF i] True by auto
  next
    case False
    have dj: "dlist ?h (?b ! j) (xss ! j)" using ok j False by (auto simp: buckets_ok_def)
    have sep: "set (blk m ?ys i) \<inter> set (blk m ?ys j) = {}" using ok i j False by (auto simp: buckets_ok_def)
    have two: "2 \<notin> set (blk m ?ys j)" using sep i by (auto simp: blk_def)
    have dj': "dlist (set_nx ?h 2 0) (?b ! j) (xss ! j)"
      by (rule dlist_frame [OF dj, of _ 2 0 2 0 2 "pv ?h 2" 2 "pv ?h 2"])
        (use two False in \<open>auto simp: set_nx_def blk_def\<close>)
    define p where "p = last (begin_node (?b ! j) # xss ! j)"
    have pj: "p \<in> set (blk m ?ys j)" using False unfolding p_def by (auto simp: blk_def)
    obtain h where h: "PushBack (set_nx ?h 2 0) (?b ! j) 2 = Some h"
      and n: "nx h = (nx ?h)(p := 2, 2 := end_node (?b ! j))"
      using hash_push_spec [OF dj', of 2] by (auto simp: set_nx_def p_def fun_upd_twist)
    have pi: "p \<notin> set (blk m ?ys i)" using pj sep by auto
    have in_i: "set (begin_node (?b ! i) # xss ! i @ [2]) \<subseteq> set (blk m ?ys i)" using i by (auto simp: blk_def)
    have "begin_node (?b ! i) \<noteq> 2" using di by (auto simp: dlist_def)
    then have "nx h (begin_node (?b ! i)) = hd (xss ! i @ [2])" using bi n pi in_i by auto
    moreover have "chain (nx h) ((pv ?h)(end_node (?b ! j) := 2)) (xss ! i @ [2, end_node (?b ! j)])"
    proof -
      have d2: "2 \<notin> set (xss ! i)" using di by (auto simp: dlist_def)
      have "end_node (?b ! j) \<in> set (blk m ?ys j)" by (auto simp: blk_def)
      then have ej: "end_node (?b ! j) \<notin> set (xss ! i)" "end_node (?b ! j) \<noteq> 2"
        using sep in_i two by auto
      have "chain (nx h) ((pv ?h)(end_node (?b ! j) := 2)) (xss ! i @ [2]) = chain (nx ?h) (pv ?h) (xss ! i @ [2])"
        by (rule chain_cong) (use n pi in_i d2 ej in \<open>auto dest!: in_tl\<close>)
      moreover have "chain (nx ?h) (pv ?h) ((xss ! i @ [2]) @ [end_node (?b ! i)])" using ci by simp
      ultimately have "chain (nx h) ((pv ?h)(end_node (?b ! j) := 2)) (xss ! i @ [2])" using chain_prefix by blast
      from chain_join [OF this, of "end_node (?b ! j)" "[]"] show ?thesis by (simp add: n)
    qed
    moreover have "p \<in> set (begin_node (?b ! j) # xss ! j)" unfolding p_def by (rule last_in_set) simp
    then have "p \<noteq> end_node (?b ! j)" using dlist_notin [OF dj] by blast
    then have "nx h (end_node (?b ! j)) = 0" using two e0 [OF j] n by (auto simp: blk_def)
    ultimately show ?thesis using h by blast
  qed
qed

lemma run_calls_append:
  "run_calls call s ops = Some (rs, s') \<Longrightarrow> run_calls call s' ops' = Some (rs', s'') \<Longrightarrow>
   run_calls call s (ops @ ops') = Some (rs @ rs', s'')"
  by (induction ops arbitrary: s rs) (fastforce split: option.splits prod.splits)+

lemma two_too_many:
  assumes rep: "map_rep hasher m [] xss M" and new: "M k1 = None" "M k2 = None" "k1 \<noteq> k2"
  shows "\<exists>m'. run_calls (map_call hasher) m [Insert_call k1 v1, Insert_call k2 v2, Find_call k1] =
    Some ([(Some v1, True), (Some v2, True), (None, False)], m')"
proof -
  let ?i = "index_for hasher m k1" and ?j = "index_for hasher m k2"
  let ?ys = "xss[?i := xss ! ?i @ [2]]"
  have ok: "buckets_ok m xss" using rep by (simp add: map_rep_def)
  have i: "?i < length xss" and j: "?j < length xss" and ne: "buckets m \<noteq> []"
    using ok bucket_index_less [of m hasher k1] bucket_index_less [of m hasher k2] by (auto simp: buckets_ok_def)
  obtain m1 where m1: "insert_pair hasher m (k1, v1) = Some ((2, True), m1)" "buckets m1 = buckets m"
      "cells m1 = (cells m)(2 := Some (k1, v1))" "buckets_ok m1 ?ys" "nx (heap (manager_of m1)) 1 = 2"
    using insert_full [OF rep, of "(k1, v1)"] new(1) by auto
  have two: "2 \<notin> set (xss ! k)" if "k < length xss" for k
  proof -
    have "set (blk m xss k) \<inter> ({0, 1, 2, 3, 4} \<union> set []) = {}" using rep that unfolding map_rep_def by blast
    then show ?thesis by (auto simp: blk_def)
  qed
  have e0: "0 \<noteq> end_node (buckets m ! ?j)" using ok j by (auto simp: buckets_ok_def dlist_def)
  have same: "first_at m' k (xss ! l) = first_at m k (xss ! l)"
    if "l < length xss" "\<And>a. a \<noteq> 2 \<Longrightarrow> cells m' a = cells m a" for m' :: "('a, 'b) hash_map" and k l
    by (rule first_at_cong) (use two [OF that(1)] that(2) in metis)
  have app: "first_at m' k (xss ! l @ [2]) = 0"
    if "first_at m' k (xss ! l) = 0" "fst (the (cells m' 2)) \<noteq> k" "0 \<notin> set (xss ! l)" for m' :: "('a, 'b) hash_map" and k l
  proof -
    have "first_at m' k (xs @ [2]) = 0" if "first_at m' k xs = 0" "0 \<notin> set xs" for xs
      using that \<open>fst (the (cells m' 2)) \<noteq> k\<close> by (induction xs) (auto split: if_splits)
    then show ?thesis using that by blast
  qed
  have z: "0 \<notin> set (xss ! l)" if "l < length xss" for l
    using ok that by (auto simp: buckets_ok_def dlist_def)
  have ij: "index_for hasher m1 k = index_for hasher m k" for k by (simp add: index_for_def m1(2))
  have "first_at m1 k2 (?ys ! ?j) = 0"
  proof (cases "?j = ?i")
    case True
    have "first_at m1 k2 (xss ! ?i) = 0" using same [OF i, of m1 k2] not_found [OF rep new(2)] m1(3) True by simp
    then show ?thesis using app [of m1 k2 ?i] m1(3) new(3) z [OF i] True i by simp
  next
    case False
    then show ?thesis using same [OF j, of m1 k2] not_found [OF rep new(2)] m1(3) by simp
  qed
  then have f2: "Find m1 k2 ?j = Some 0" using Find_spec [OF m1(4), of ?j k2] j by simp
  have free: "mtx (heap (manager_of m1)) = (\<lambda>_. False)" using m1(4) i by (auto simp: buckets_ok_def dlist_def)
  obtain h p where h: "PushBack (set_nx (heap (manager_of m1)) 2 0) (buckets m1 ! ?j) 2 = Some h"
      "nx h (begin_node (buckets m1 ! ?i)) = hd (xss ! ?i @ [2])"
      "chain (nx h) p (xss ! ?i @ [2, end_node (buckets m1 ! ?j)])" "nx h (end_node (buckets m1 ! ?j)) = 0"
    using move_sentinel [OF m1(4) i j m1(5)] by blast
  define m2 where "m2 = m1\<lparr>manager_of := (manager_of m1)\<lparr>heap := h\<rparr>, cells := (cells m1)(2 := Some (k2, v2))\<rparr>"
  have ins2: "insert_pair hasher m1 (k2, v2) = Some ((2, True), m2)"
    using f2 h(1) ne GetOne_sentinel [OF m1(5) free]
    by (simp add: insert_pair_def HashResult_def index_for_def [symmetric] ij m1(2) InsertNode_def m2_def)
  have cells2: "cells m2 = (cells m)(2 := Some (k2, v2))" by (simp add: m2_def m1(3))
  have b2: "buckets m2 = buckets m" by (simp add: m2_def m1(2))
  have ej: "end_node (buckets m ! ?j) \<noteq> 2 \<and> cells m (end_node (buckets m ! ?j)) = None"
  proof -
    have "set (blk m xss ?j) \<inter> ({0, 1, 2, 3, 4} \<union> set []) = {}" using rep j unfolding map_rep_def by blast
    then show ?thesis using ok j by (auto simp: blk_def buckets_ok_def)
  qed
  have "find_loop m2 k1 (hd ((xss ! ?i @ [2]) @ [end_node (buckets m ! ?j)])) = Some (first_at m2 k1 (xss ! ?i @ [2]))"
  proof (rule find_loop_spec [of _ p])
    show "\<forall>a \<in> set (xss ! ?i @ [2]). cells m2 a \<noteq> None"
      using ok i cells2 by (auto simp: buckets_ok_def)
  qed (use h(3,4) ej z [OF i] e0 cells2 m1(2) in \<open>auto simp: m2_def\<close>)
  moreover have "first_at m2 k1 (xss ! ?i @ [2]) = 0"
    using app [of m2 k1 ?i] same [OF i, of m2 k1] not_found [OF rep new(1)] cells2 new(3) z [OF i] by simp
  moreover have "nx (heap (manager_of m2)) (begin_node (buckets m ! ?i)) = hd ((xss ! ?i @ [2]) @ [end_node (buckets m ! ?j)])"
    using h(2) m1(2) by (cases "xss ! ?i") (auto simp: m2_def)
  ultimately have "find_key hasher m2 k1 = Some 0"
    using ne b2 by (simp add: find_key_def Find_def HashResult_def index_for_def)
  then show ?thesis using m1(1,3) ins2 cells2 by (simp add: value_at_def)
qed

text \<open>C40: once the map holds twice the hint of keys, the manager hands out the sentinel of its own list: of two
  further keys that are inserted, with the answer that they are new, the first is lost; and a map made with
  hint 0 divides by zero.\<close>

theorem hash_map_loses_keys:
  fixes hasher :: "'k \<Rightarrow> 64 word" and ops :: "('k, 'v) hash_call list"
  defines "run \<equiv> run_model map_call_spec (\<lambda>_. None) ops"
  assumes "card (dom (snd run)) = 2 * hint" "k1 \<notin> dom (snd run)" "k2 \<notin> dom (snd run)" "k1 \<noteq> k2"
  shows "\<exists>m. ConcurrentHashMap hint = Some m \<and> (if hint = 0 then insert_pair hasher m (k1, v1) = None
    else \<exists>m'. run_calls (map_call hasher) m (ops @ [Insert_call k1 v1, Insert_call k2 v2, Find_call k1]) =
      Some (fst run @ [(Some v1, True), (Some v2, True), (None, False)], m'))"
proof (cases "hint = 0")
  case True
  have "FindAPrime 0 = Some 0"
    using FindAPrime_spec [of 0] FindAPrime_pos [of 0] by (metis)
  then show ?thesis using True NodeManager_spec [of 0 60]
    by (auto simp: ConcurrentHashMap_def insert_pair_def HashResult_def Let_def)
next
  case False
  obtain m :: "('k, 'v) hash_map" and as xss where
    m: "ConcurrentHashMap hint = Some m" "map_rep hasher m as xss (\<lambda>_. None)" "length as = 2 * hint"
    using ConcurrentHashMap_spec [of hint hasher] False by blast
  from hash_run_refines [OF m(2), of ops] obtain m' as' xss' where
    m': "run_calls (map_call hasher) m ops = Some (fst run, m')" "map_rep hasher m' as' xss' (snd run)"
      "length as' + card (dom (snd run)) = length as"
    using assms(2) m(3) by (auto simp: run_def)
  then have "as' = []" using assms(2) m(3) by simp
  then show ?thesis using two_too_many [of hasher m' xss' "snd run" k1 k2 v1 v2] run_calls_append [OF m'(1)] m(1) m'(2) assms(3-5) False
    by (fastforce simp: domIff)
qed

lemma hash_map_loses_keys_witness:
  "\<exists>m m'. ConcurrentHashMap 1 = Some m \<and> run_calls (map_call (of_nat :: nat \<Rightarrow> 64 word)) m
     [Insert_call 1 ''a'', Insert_call 2 ''b'', Insert_call 3 ''c'', Insert_call 4 ''d'', Find_call 3] =
   Some ([(Some ''a'', True), (Some ''b'', True), (Some ''c'', True), (Some ''d'', True), (None, False)], m')"
  using hash_map_loses_keys [of "[Insert_call 1 ''a'', Insert_call 2 ''b'']" 1 3 4 of_nat "''c''" "''d''"]
  by (simp add: insert_spec_def card_insert_if)

end
