(* ===== verification/Absorb.thy ===== *)
theory Absorb
  imports Bytes
begin

text \<open>
  Hashes that absorb a message in pieces: what registers, buffer and bit counter of such a context hold after
  a message, for any compression function on blocks of 64 bytes.  The digests of \<open>mongoose.cc\<close> share it.
\<close>

definition holds_msg :: "('s \<Rightarrow> byte list \<Rightarrow> 's) \<Rightarrow> 's \<Rightarrow> byte list \<Rightarrow> 's \<Rightarrow> byte list \<Rightarrow> bool" where
  "holds_msg f start msg st buf \<longleftrightarrow> length buf = 64 \<and> st = run f start msg \<and>
     take (length msg mod 64) buf = drop (length msg div 64 * 64) msg"

definition counts :: "byte list \<Rightarrow> uint4 \<Rightarrow> uint4 \<Rightarrow> bool" where
  "counts msg c0 c1 \<longleftrightarrow> unat c0 + 2 ^ 32 * unat c1 = 8 * length msg mod 2 ^ 64"

lemma holds_msg_start: "length buf = 64 \<Longrightarrow> holds_msg f start [] start buf"
  by (simp add: holds_msg_def)

lemma counts_start: "counts [] 0 0"
  by (simp add: counts_def)

lemma counts_index: "counts msg c0 c1 \<Longrightarrow> unat (drop_bit 3 c0 AND 63) = length msg mod 64"
proof -
  assume c: "counts msg c0 c1"
  have "unat c0 = (unat c0 + 2 ^ 32 * unat c1) mod 2 ^ 32" using unat_32 [of c0] by simp
  also have "\<dots> = 8 * length msg mod 2 ^ 32" using c unfolding counts_def by (simp add: mod_mod_cancel)
  finally have "unat c0 = 8 * (length msg mod 2 ^ 29)" by (simp add: mult_mod_right)
  then have "unat c0 div 8 mod 64 = length msg mod 64" by (simp add: mod_mod_cancel)
  moreover have "(63 :: uint4) = mask 6" by (simp add: mask_eq_exp_minus_1)
  then have "unat (drop_bit 3 c0 AND 63) = unat c0 div 8 mod 64"
    by (simp only: flip: take_bit_eq_mask) (simp add: take_bit_eq_mod drop_bit_eq_div unat_div unat_mod)
  ultimately show ?thesis by simp
qed

lemma carry_old: "a + x < a \<longleftrightarrow> a + x < (x :: uint4)"
  using unat_32 [of a] unat_32 [of x] by (auto simp: word_less_nat_alt unat_plus_if')

lemma counts_add:
  assumes "counts msg c0 c1" "length d < 2 ^ 32"
  defines "l \<equiv> of_nat (length d) :: uint4"
  shows "counts (msg @ d) (c0 + push_bit 3 l)
    ((if c0 + push_bit 3 l < c0 then c1 + 1 else c1) + drop_bit 29 l)"
  using count_add [of c0 c1 "length msg" l] assms carry_old [of c0 "push_bit 3 l"]
  by (simp add: counts_def unat_small)

lemma counts_words:
  assumes "counts msg c0 c1"
  shows "c0 = of_nat (8 * length msg)" "c1 = of_nat (8 * length msg div 2 ^ 32)"
  by (rule counter_words(1) [of c0 c1], use assms in \<open>simp add: counts_def\<close>)
    (rule counter_words(2) [of c0 c1], use assms in \<open>simp add: counts_def\<close>)

lemma holds_msg_small:
  assumes h: "holds_msg f start msg st buf" and d: "length msg mod 64 + length d < 64"
  shows "holds_msg f start (msg @ d) st (take (length msg mod 64) buf @ d @ drop (length msg mod 64 + length d) buf)"
proof -
  let ?r = "length msg mod 64"
  have l: "length (msg @ d) div 64 = length msg div 64" "length (msg @ d) mod 64 = ?r + length d"
  proof -
    have "length (msg @ d) = length msg div 64 * 64 + (?r + length d)" by simp
    then show "length (msg @ d) div 64 = length msg div 64" "length (msg @ d) mod 64 = ?r + length d"
      using d by (simp_all only: div_mult_self3 mod_mult_self3) simp_all
  qed
  have le: "length msg div 64 * 64 \<le> length msg" by simp
  have "run f start (msg @ d) = run f start msg"
    using run_rest [of f start "msg @ d"] run_rest [of f start msg] l(1) le by simp
  moreover have "drop (length msg div 64 * 64) (msg @ d) = drop (length msg div 64 * 64) msg @ d" using le by simp
  moreover have "length msg - length msg div 64 * 64 = length msg mod 64" by (simp add: minus_div_mult_eq_mod)
  ultimately show ?thesis using h d l by (simp add: holds_msg_def)
qed

text \<open>Filling the buffer, then whole blocks.\<close>

lemma run_filled:
  assumes h: "holds_msg f start msg st buf" and d: "64 \<le> length msg mod 64 + length d"
  defines "k \<equiv> 64 - length msg mod 64"
  shows "run f start (msg @ d) = run f (f st (take (length msg mod 64) buf @ take k d)) (drop k d)"
    and "length (take (length msg mod 64) buf @ take k d) = 64"
proof -
  let ?full = "take (length msg div 64 * 64) msg" and ?rest = "drop (length msg div 64 * 64) msg"
  let ?b = "take (length msg mod 64) buf @ take k d"
  have r: "length msg mod 64 < 64" by simp
  have le: "length msg div 64 * 64 \<le> length msg" by simp
  have dv: "64 dvd length ?full" using le by simp
  show lb: "length ?b = 64" using h d r by (simp add: holds_msg_def k_def)
  have "?full @ take (length msg mod 64) buf = msg" using h by (simp add: holds_msg_def)
  then have "msg @ d = ?full @ ?b @ drop k d" by (metis append.assoc append_take_drop_id)
  then have "run f start (msg @ d) = run f (run f start ?full) (?b @ drop k d)" using run_append [OF dv] by metis
  also have "run f start ?full = st" using h run_rest [of f start msg] by (simp add: holds_msg_def)
  finally show "run f start (msg @ d) = run f (f st ?b) (drop k d)" using run_block [OF lb] by metis
qed

lemma holds_msg_large:
  assumes h: "holds_msg f start msg st buf" and d: "64 \<le> length msg mod 64 + length d"
  defines "k \<equiv> 64 - length msg mod 64"
  defines "q \<equiv> (length d - k) div 64 * 64 + k"
  assumes st: "st' = run f (f st (take (length msg mod 64) buf @ take k d)) (drop k d)"
    and buf': "buf' = drop q d @ drop (length d - q) b" "length b = 64"
  shows "holds_msg f start (msg @ d) st' buf'"
proof -
  have k: "k \<le> length d" "k \<le> 64" using d by (simp_all add: k_def)
  have l: "length (msg @ d) = length msg div 64 * 64 + 64 + (length d - k)"
    using k d by (simp add: k_def)
  have "(m * 64 + 64 + x) mod 64 = x mod 64" "(m * 64 + 64 + x) div 64 * 64 = m * 64 + 64 + x div 64 * 64" for m x :: nat
  proof -
    have "m * 64 + 64 + x = x + (m + 1) * 64" by simp
    then show "(m * 64 + 64 + x) mod 64 = x mod 64" "(m * 64 + 64 + x) div 64 * 64 = m * 64 + 64 + x div 64 * 64"
      by (simp_all only: mod_mult_self1 div_mult_self1) (simp add: add_mult_distrib)
  qed
  then have m: "length (msg @ d) mod 64 = (length d - k) mod 64"
    "length (msg @ d) div 64 * 64 = length msg div 64 * 64 + 64 + (length d - k) div 64 * 64"
    unfolding l by blast+
  have q: "length d - q = (length d - k) mod 64" by (simp add: q_def flip: minus_div_mult_eq_mod)
  have "length msg div 64 * 64 + length msg mod 64 = length msg" "length msg mod 64 < 64" by simp_all
  then have "length msg div 64 * 64 + 64 = length msg + k" unfolding k_def by linarith
  then have "drop (length (msg @ d) div 64 * 64) (msg @ d) = drop q d"
    unfolding m q_def by (simp add: add.commute)
  note tail = this
  have lq: "length (drop q d) = (length d - k) mod 64" "(length d - k) mod 64 < 64" using q by simp_all
  have "length buf' = 64" unfolding buf'(1) length_append lq(1) length_drop buf'(2) q using lq(2) by simp
  moreover have "take ((length d - k) mod 64) buf' = drop q d" unfolding buf'(1) lq(1) [symmetric] by simp
  moreover have "st' = run f start (msg @ d)" unfolding st k_def by (rule run_filled(1) [OF h d, symmetric])
  ultimately show ?thesis unfolding holds_msg_def tail m(1) by blast
qed

end
