(* ===== verification/Mg_Md5.thy ===== *)
theory Mg_Md5
  imports Absorb Md5
begin

text \<open>
  MD5 of \<open>mongoose.cc\<close> (\<open>MD5_Init\<close>, \<open>MD5_Update\<close>, \<open>MD5_Final\<close>, \<open>cs_md5\<close>) and its agreement with the
  class of \<open>c++/utils/hash/md5.cpp\<close>.  The machine is little-endian, so that \<open>byteReverse\<close> does nothing.
\<close>

section \<open>Definitions\<close>

record md5_ctx =
  md_buf :: quad
  md_bits0 :: uint4
  md_bits1 :: uint4
  md_in :: "byte list"

definition F1 :: "uint4 \<Rightarrow> uint4 \<Rightarrow> uint4 \<Rightarrow> uint4" where
  "F1 x y z = z XOR (x AND (y XOR z))"

definition F2 :: "uint4 \<Rightarrow> uint4 \<Rightarrow> uint4 \<Rightarrow> uint4" where
  "F2 x y z = F1 z x y"

definition F3 :: "uint4 \<Rightarrow> uint4 \<Rightarrow> uint4 \<Rightarrow> uint4" where
  "F3 x y z = x XOR y XOR z"

definition F4 :: "uint4 \<Rightarrow> uint4 \<Rightarrow> uint4 \<Rightarrow> uint4" where
  "F4 x y z = y XOR (x OR NOT z)"

definition MD5STEP :: "(uint4 \<Rightarrow> uint4 \<Rightarrow> uint4 \<Rightarrow> uint4) \<Rightarrow> uint4 \<Rightarrow> uint4 \<Rightarrow> uint4 \<Rightarrow> uint4 \<Rightarrow> uint4 \<Rightarrow> nat \<Rightarrow> uint4" where
  "MD5STEP f w x y z data s = (let w1 = w + (f x y z + data); w2 = push_bit s w1 OR drop_bit (32 - s) w1 in w2 + x)"

definition MD5_Init :: "md5_ctx \<Rightarrow> md5_ctx" where
  "MD5_Init c = c\<lparr>md_buf := (0x67452301, 0xefcdab89, 0x98badcfe, 0x10325476), md_bits0 := 0, md_bits1 := 0\<rparr>"

definition steps1 :: "uint4 list \<Rightarrow> quad \<Rightarrow> quad" where
  "steps1 inp s = (case s of (a, b, c, d) \<Rightarrow>
    (let a = MD5STEP F1 a b c d (inp ! 0 + 0xd76aa478) 7;
         d = MD5STEP F1 d a b c (inp ! 1 + 0xe8c7b756) 12;
         c = MD5STEP F1 c d a b (inp ! 2 + 0x242070db) 17;
         b = MD5STEP F1 b c d a (inp ! 3 + 0xc1bdceee) 22;
         a = MD5STEP F1 a b c d (inp ! 4 + 0xf57c0faf) 7;
         d = MD5STEP F1 d a b c (inp ! 5 + 0x4787c62a) 12;
         c = MD5STEP F1 c d a b (inp ! 6 + 0xa8304613) 17;
         b = MD5STEP F1 b c d a (inp ! 7 + 0xfd469501) 22;
         a = MD5STEP F1 a b c d (inp ! 8 + 0x698098d8) 7;
         d = MD5STEP F1 d a b c (inp ! 9 + 0x8b44f7af) 12;
         c = MD5STEP F1 c d a b (inp ! 10 + 0xffff5bb1) 17;
         b = MD5STEP F1 b c d a (inp ! 11 + 0x895cd7be) 22;
         a = MD5STEP F1 a b c d (inp ! 12 + 0x6b901122) 7;
         d = MD5STEP F1 d a b c (inp ! 13 + 0xfd987193) 12;
         c = MD5STEP F1 c d a b (inp ! 14 + 0xa679438e) 17;
         b = MD5STEP F1 b c d a (inp ! 15 + 0x49b40821) 22
     in (a, b, c, d)))"

definition steps2 :: "uint4 list \<Rightarrow> quad \<Rightarrow> quad" where
  "steps2 inp s = (case s of (a, b, c, d) \<Rightarrow>
    (let a = MD5STEP F2 a b c d (inp ! 1 + 0xf61e2562) 5;
         d = MD5STEP F2 d a b c (inp ! 6 + 0xc040b340) 9;
         c = MD5STEP F2 c d a b (inp ! 11 + 0x265e5a51) 14;
         b = MD5STEP F2 b c d a (inp ! 0 + 0xe9b6c7aa) 20;
         a = MD5STEP F2 a b c d (inp ! 5 + 0xd62f105d) 5;
         d = MD5STEP F2 d a b c (inp ! 10 + 0x2441453) 9;
         c = MD5STEP F2 c d a b (inp ! 15 + 0xd8a1e681) 14;
         b = MD5STEP F2 b c d a (inp ! 4 + 0xe7d3fbc8) 20;
         a = MD5STEP F2 a b c d (inp ! 9 + 0x21e1cde6) 5;
         d = MD5STEP F2 d a b c (inp ! 14 + 0xc33707d6) 9;
         c = MD5STEP F2 c d a b (inp ! 3 + 0xf4d50d87) 14;
         b = MD5STEP F2 b c d a (inp ! 8 + 0x455a14ed) 20;
         a = MD5STEP F2 a b c d (inp ! 13 + 0xa9e3e905) 5;
         d = MD5STEP F2 d a b c (inp ! 2 + 0xfcefa3f8) 9;
         c = MD5STEP F2 c d a b (inp ! 7 + 0x676f02d9) 14;
         b = MD5STEP F2 b c d a (inp ! 12 + 0x8d2a4c8a) 20
     in (a, b, c, d)))"

definition steps3 :: "uint4 list \<Rightarrow> quad \<Rightarrow> quad" where
  "steps3 inp s = (case s of (a, b, c, d) \<Rightarrow>
    (let a = MD5STEP F3 a b c d (inp ! 5 + 0xfffa3942) 4;
         d = MD5STEP F3 d a b c (inp ! 8 + 0x8771f681) 11;
         c = MD5STEP F3 c d a b (inp ! 11 + 0x6d9d6122) 16;
         b = MD5STEP F3 b c d a (inp ! 14 + 0xfde5380c) 23;
         a = MD5STEP F3 a b c d (inp ! 1 + 0xa4beea44) 4;
         d = MD5STEP F3 d a b c (inp ! 4 + 0x4bdecfa9) 11;
         c = MD5STEP F3 c d a b (inp ! 7 + 0xf6bb4b60) 16;
         b = MD5STEP F3 b c d a (inp ! 10 + 0xbebfbc70) 23;
         a = MD5STEP F3 a b c d (inp ! 13 + 0x289b7ec6) 4;
         d = MD5STEP F3 d a b c (inp ! 0 + 0xeaa127fa) 11;
         c = MD5STEP F3 c d a b (inp ! 3 + 0xd4ef3085) 16;
         b = MD5STEP F3 b c d a (inp ! 6 + 0x4881d05) 23;
         a = MD5STEP F3 a b c d (inp ! 9 + 0xd9d4d039) 4;
         d = MD5STEP F3 d a b c (inp ! 12 + 0xe6db99e5) 11;
         c = MD5STEP F3 c d a b (inp ! 15 + 0x1fa27cf8) 16;
         b = MD5STEP F3 b c d a (inp ! 2 + 0xc4ac5665) 23
     in (a, b, c, d)))"

definition steps4 :: "uint4 list \<Rightarrow> quad \<Rightarrow> quad" where
  "steps4 inp s = (case s of (a, b, c, d) \<Rightarrow>
    (let a = MD5STEP F4 a b c d (inp ! 0 + 0xf4292244) 6;
         d = MD5STEP F4 d a b c (inp ! 7 + 0x432aff97) 10;
         c = MD5STEP F4 c d a b (inp ! 14 + 0xab9423a7) 15;
         b = MD5STEP F4 b c d a (inp ! 5 + 0xfc93a039) 21;
         a = MD5STEP F4 a b c d (inp ! 12 + 0x655b59c3) 6;
         d = MD5STEP F4 d a b c (inp ! 3 + 0x8f0ccc92) 10;
         c = MD5STEP F4 c d a b (inp ! 10 + 0xffeff47d) 15;
         b = MD5STEP F4 b c d a (inp ! 1 + 0x85845dd1) 21;
         a = MD5STEP F4 a b c d (inp ! 8 + 0x6fa87e4f) 6;
         d = MD5STEP F4 d a b c (inp ! 15 + 0xfe2ce6e0) 10;
         c = MD5STEP F4 c d a b (inp ! 6 + 0xa3014314) 15;
         b = MD5STEP F4 b c d a (inp ! 13 + 0x4e0811a1) 21;
         a = MD5STEP F4 a b c d (inp ! 4 + 0xf7537e82) 6;
         d = MD5STEP F4 d a b c (inp ! 11 + 0xbd3af235) 10;
         c = MD5STEP F4 c d a b (inp ! 2 + 0x2ad7d2bb) 15;
         b = MD5STEP F4 b c d a (inp ! 9 + 0xeb86d391) 21
     in (a, b, c, d)))"

definition MD5Transform :: "quad \<Rightarrow> uint4 list \<Rightarrow> quad" where
  "MD5Transform s inp = (case (s, steps4 inp (steps3 inp (steps2 inp (steps1 inp s)))) of
     ((b0, b1, b2, b3), (a, b, c, d)) \<Rightarrow> (b0 + a, b1 + b, b2 + c, b3 + d))"

text \<open>\<open>(uint32_t *) ctx->in\<close>.\<close>

definition as_words :: "byte list \<Rightarrow> uint4 list" where
  "as_words b = map (\<lambda>i. word4 (take 4 (drop (4 * i) b))) [0..<16]"

text \<open>The loop over whole blocks, and the copy of the rest.\<close>

function md5_blocks :: "md5_ctx \<Rightarrow> byte list \<Rightarrow> nat \<Rightarrow> md5_ctx option" where
  "md5_blocks c data len =
     (if len \<ge> 64 then do {
        d \<leftarrow> slice data 0 64;
        b \<leftarrow> blit (md_in c) 0 d;
        md5_blocks (c\<lparr>md_in := b, md_buf := MD5Transform (md_buf c) (as_words b)\<rparr>) (drop 64 data) (len - 64) }
      else do {
        d \<leftarrow> slice data 0 len;
        b \<leftarrow> blit (md_in c) 0 d;
        Some (c\<lparr>md_in := b\<rparr>) })"
  by pat_completeness auto
termination by (relation "measure (\<lambda>(c, data, len). len)") auto

declare md5_blocks.simps [simp del]

definition MD5_Update :: "md5_ctx \<Rightarrow> byte list \<Rightarrow> nat \<Rightarrow> md5_ctx option" where
  "MD5_Update c data len =
     (let t = md_bits0 c;
          b0 = t + push_bit 3 (of_nat len);
          b1 = (if b0 < t then md_bits1 c + 1 else md_bits1 c) + drop_bit 29 (of_nat len);
          c1 = c\<lparr>md_bits0 := b0, md_bits1 := b1\<rparr>;
          t1 = unat (drop_bit 3 t AND 0x3f)
      in if t1 \<noteq> 0 then
           (let t2 = 64 - t1 in
            if len < t2 then do {
              d \<leftarrow> slice data 0 len;
              b \<leftarrow> blit (md_in c1) t1 d;
              Some (c1\<lparr>md_in := b\<rparr>) }
            else do {
              d \<leftarrow> slice data 0 t2;
              b \<leftarrow> blit (md_in c1) t1 d;
              md5_blocks (c1\<lparr>md_in := b, md_buf := MD5Transform (md_buf c1) (as_words b)\<rparr>) (drop t2 data) (len - t2) })
         else md5_blocks c1 data len)"

definition MD5_Final :: "md5_ctx \<Rightarrow> (byte list \<times> md5_ctx) option" where
  "MD5_Final c = do {
     let count = unat (drop_bit 3 (md_bits0 c) AND 0x3F);
     b1 \<leftarrow> blit (md_in c) count [0x80];
     let p = count + 1;
     let count1 = 64 - 1 - count;
     (st, b2) \<leftarrow> (if count1 < 8 then do {
         b \<leftarrow> blit b1 p (replicate count1 0);
         b' \<leftarrow> blit b 0 (replicate 56 0);
         Some (MD5Transform (md_buf c) (as_words b), b') }
       else do {
         b \<leftarrow> blit b1 p (replicate (count1 - 8) 0);
         Some (md_buf c, b) });
     b3 \<leftarrow> blit b2 56 (bytes4 (md_bits0 c) @ bytes4 (md_bits1 c));
     let st' = MD5Transform st (as_words b3);
     Some (concat (map bytes4 (words_of st')),
       \<lparr>md_buf = (0, 0, 0, 0), md_bits0 = 0, md_bits1 = 0, md_in = replicate 64 0\<rparr>) }"

fun cs_to_hex :: "byte list \<Rightarrow> string" where
  "cs_to_hex [] = []"
| "cs_to_hex (p # ps) = hex_digit (unat (drop_bit 4 p)) # hex_digit (unat (p AND 0x0f)) # cs_to_hex ps"

text \<open>The pointers and lengths up to the null pointer are the pieces of the message.\<close>

fun md5_pieces :: "md5_ctx \<Rightarrow> byte list list \<Rightarrow> md5_ctx option" where
  "md5_pieces c [] = Some c"
| "md5_pieces c (p # ps) = do { c' \<leftarrow> MD5_Update c p (length p); md5_pieces c' ps }"

definition cs_md5 :: "md5_ctx \<Rightarrow> byte list list \<Rightarrow> string option" where
  "cs_md5 c ps = do {
     c1 \<leftarrow> md5_pieces (MD5_Init c) ps;
     (digest, _) \<leftarrow> MD5_Final c1;
     Some (cs_to_hex digest) }"

section \<open>The transformation\<close>

lemma F_eqs: "F1 = F" "F2 = G" "F3 = H" "F4 = I"
proof -
  show f: "F1 = F" by (intro ext bit_word_eqI) (auto simp: F1_def F_def bit_simps)
  show "F2 = G" by (intro ext bit_word_eqI) (auto simp: F2_def F1_def G_def bit_simps)
qed (simp_all add: fun_eq_iff F3_def H_def F4_def I_def)

lemma STEP_eqs:
  "MD5STEP F w x y z (d + k) s = FF w x y z d s k" "MD5STEP G w x y z (d + k) s = GG w x y z d s k"
  "MD5STEP H w x y z (d + k) s = HH w x y z d s k" "MD5STEP I w x y z (d + k) s = II w x y z d s k"
  by (simp_all only: MD5STEP_def FF_def GG_def HH_def II_def rotate_left_def Let_def add.assoc)

lemma steps_rounds: "steps1 = round1" "steps2 = round2" "steps3 = round3" "steps4 = round4"
  unfolding fun_eq_iff steps1_def steps2_def steps3_def steps4_def round1_def round2_def round3_def round4_def
    F_eqs STEP_eqs by (rule allI, rule allI, rule refl)+

lemma as_words_decode:
  assumes "length b = 64"
  shows "decode b 0 64 = Some (as_words b)"
proof -
  have "decode b (4 * i) 64 = Some (map (\<lambda>i. word4 (take 4 (drop (4 * i) b))) [i..<16])" if "i \<le> 16" for i
    using that
  proof (induction i rule: inc_induct)
    case base
    then show ?case by (simp add: decode.simps)
  next
    case (step i)
    then have "slice b (4 * i) 4 = Some (take 4 (drop (4 * i) b))" using assms by (simp add: slice_in)
    then show ?case using step by (simp add: decode.simps [of b "4 * i"] upt_conv_Cons add.commute del: upt_rec_numeral)
  qed
  from this [of 0] show ?thesis by (simp add: as_words_def)
qed

lemma transform_compress: "length b = 64 \<Longrightarrow> MD5Transform s (as_words b) = compress s b"
  by (cases s) (simp add: compress_def as_words_decode MD5Transform_def md5_block_def add4_def steps_rounds split: prod.split)

section \<open>Updates\<close>

definition md_holds :: "byte list \<Rightarrow> md5_ctx \<Rightarrow> bool" where
  "md_holds msg c \<longleftrightarrow> holds_msg compress start msg (md_buf c) (md_in c) \<and> counts msg (md_bits0 c) (md_bits1 c)"

lemma md_holds_init: "length (md_in c) = 64 \<Longrightarrow> md_holds [] (MD5_Init c)"
  by (simp add: md_holds_def MD5_Init_def counts_start holds_msg_start flip: start_def)

lemma md5_blocks_spec:
  "length data = len \<Longrightarrow> length (md_in c) = 64 \<Longrightarrow>
   \<exists>b. length b = 64 \<and> md5_blocks c data len =
     Some (c\<lparr>md_buf := run compress (md_buf c) data, md_in := drop (len div 64 * 64) data @ drop (len mod 64) b\<rparr>)"
proof (induction c data len rule: md5_blocks.induct)
  case (1 c data len)
  show ?case
  proof (cases "len \<ge> 64")
    case True
    let ?b = "take 64 data"
    let ?c = "c\<lparr>md_in := ?b, md_buf := compress (md_buf c) ?b\<rparr>"
    have b: "slice data 0 64 = Some ?b" "blit (md_in c) 0 ?b = Some ?b" "length ?b = 64"
      using True 1(2,3) by (simp_all add: slice_in blit_in)
    have "\<exists>b. length b = 64 \<and> md5_blocks ?c (drop 64 data) (len - 64) =
        Some (?c\<lparr>md_buf := run compress (md_buf ?c) (drop 64 data),
          md_in := drop ((len - 64) div 64 * 64) (drop 64 data) @ drop ((len - 64) mod 64) b\<rparr>)"
      using 1(1) [OF True b(1,2)] b(3) 1(2) transform_compress [OF b(3)] by auto
    moreover have "run compress (md_buf c) data = run compress (compress (md_buf c) ?b) (drop 64 data)"
      using True 1(2) by (subst run.simps) simp
    moreover have "(len - 64) mod 64 = len mod 64" using True by (simp add: le_mod_geq [symmetric])
    moreover have "(len - 64) div 64 * 64 + 64 = len div 64 * 64" using True by (simp add: le_div_geq)
    ultimately show ?thesis using True b transform_compress [OF b(3)]
      by (subst md5_blocks.simps) (auto simp: add.commute)
  next
    case False
    then show ?thesis using 1(2,3)
      by (subst md5_blocks.simps) (auto simp: slice_in blit_in intro!: exI [of _ "md_in c"])
  qed
qed

lemma MD5_Update_spec:
  assumes c: "md_holds msg c" and n: "length d < 2 ^ 32"
  shows "\<exists>c'. MD5_Update c d (length d) = Some c' \<and> md_holds (msg @ d) c'"
proof -
  let ?r = "length msg mod 64" and ?n = "length d"
  have h: "holds_msg compress start msg (md_buf c) (md_in c)" and ct: "counts msg (md_bits0 c) (md_bits1 c)"
    using c by (simp_all add: md_holds_def)
  have lb: "length (md_in c) = 64" using h by (simp add: holds_msg_def)
  have t: "unat (drop_bit 3 (md_bits0 c) AND 0x3f) = ?r" by (rule counts_index [OF ct])
  define b0 where "b0 = md_bits0 c + push_bit 3 (of_nat ?n)"
  define b1 where "b1 = (if b0 < md_bits0 c then md_bits1 c + 1 else md_bits1 c) + drop_bit 29 (of_nat ?n :: uint4)"
  define c1 where "c1 = c\<lparr>md_bits0 := b0, md_bits1 := b1\<rparr>"
  have ct': "counts (msg @ d) b0 b1" using counts_add [OF ct n] by (simp add: b0_def b1_def)
  note unf = MD5_Update_def [of c d ?n, unfolded Let_def t, folded b0_def, folded b1_def, folded c1_def]
  have lc1: "length (md_in c1) = 64" "md_in c1 = md_in c" "md_buf c1 = md_buf c" using lb by (simp_all add: c1_def)
  have r: "?r < 64" by simp
  show ?thesis
  proof (cases "64 \<le> ?r + ?n")
    case False
    let ?b = "take ?r (md_in c) @ d @ drop (?r + ?n) (md_in c)"
    have "MD5_Update c d ?n = Some (c1\<lparr>md_in := ?b\<rparr>)"
    proof (cases "?r = 0")
      case True
      then have "?n div 64 = 0" using False by simp
      then show ?thesis using True False lb unfolding unf
        by (subst md5_blocks.simps) (simp add: slice_in blit_in lc1)
    next
      case nz: False
      have "?n < 64 - ?r" using False by simp
      then show ?thesis using nz lb unfolding unf by (simp add: slice_in blit_in lc1)
    qed
    moreover have "holds_msg compress start (msg @ d) (md_buf c) ?b"
      using holds_msg_small [OF h, of d] False by simp
    ultimately show ?thesis using ct' by (simp add: md_holds_def c1_def)
  next
    case True
    let ?k = "64 - ?r"
    define q where "q = (?n - ?k) div 64 * 64 + ?k"
    define b where "b = take ?r (md_in c) @ take ?k d"
    have kn: "?k \<le> ?n" using True by simp
    have lb': "length b = 64" using kn lb r by (simp add: b_def)
    define st' where "st' = run compress (compress (md_buf c) b) (drop ?k d)"
    have "\<exists>b'. length b' = 64 \<and> MD5_Update c d ?n = Some (c1\<lparr>md_buf := st', md_in := drop q d @ drop (?n - q) b'\<rparr>)"
    proof (cases "?r = 0")
      case z: True
      then have b: "b = take 64 d" using lb by (simp add: b_def)
      have n64: "64 \<le> ?n" using True z by simp
      have "q = ?n div 64 * 64" using n64 z by (simp add: q_def le_div_geq)
      moreover have "run compress (md_buf c) d = st'"
        using n64 z unfolding st'_def b by (subst run.simps) simp
      moreover have "?n - ?n div 64 * 64 = ?n mod 64" by (simp add: minus_div_mult_eq_mod)
      ultimately show ?thesis using md5_blocks_spec [of d ?n c1] lc1 z unfolding unf by auto
    next
      case nz: False
      have s1: "slice d 0 ?k = Some (take ?k d)" using kn by (simp add: slice_in)
      have s2: "blit (md_in c1) ?r (take ?k d) = Some b" using kn lb r by (simp add: blit_in b_def lc1)
      have m: "(?n - ?k) mod 64 = ?n - q" 
      proof -
        have "(?n - ?k) mod 64 = ?n - ?k - (?n - ?k) div 64 * 64" by (rule minus_div_mult_eq_mod [symmetric])
        also have "\<dots> = ?n - q" unfolding q_def by (simp only: diff_diff_left add.commute)
        finally show ?thesis .
      qed
      have "drop ((?n - ?k) div 64 * 64) (drop ?k d) = drop q d" by (simp add: q_def)
      then show ?thesis
        using md5_blocks_spec [of "drop ?k d" "?n - ?k" "c1\<lparr>md_in := b, md_buf := compress (md_buf c) b\<rparr>"] kn nz lb' s1 s2
          transform_compress [OF lb'] lc1 unfolding unf st'_def m by (auto simp: not_less)
    qed
    then obtain b' where b': "length b' = 64"
      "MD5_Update c d ?n = Some (c1\<lparr>md_buf := st', md_in := drop q d @ drop (?n - q) b'\<rparr>)" by blast
    have "holds_msg compress start (msg @ d) st' (drop q d @ drop (?n - q) b')"
      by (rule holds_msg_large [OF h _ _ _ b'(1)]) (use True in \<open>simp_all add: st'_def b_def q_def\<close>)
    then show ?thesis using ct' b'(2) by (simp add: md_holds_def c1_def)
  qed
qed

lemma md5_pieces_spec:
  "md_holds msg c \<Longrightarrow> \<forall>p \<in> set ps. length p < 2 ^ 32 \<Longrightarrow>
   \<exists>c'. md5_pieces c ps = Some c' \<and> md_holds (msg @ concat ps) c'"
proof (induction ps arbitrary: msg c)
  case (Cons p ps)
  obtain c1 where "MD5_Update c p (length p) = Some c1" "md_holds (msg @ p) c1"
    using MD5_Update_spec [OF Cons(2), of p] Cons(3) by auto
  then show ?case using Cons(1) [of "msg @ p" c1] Cons(3) by auto
qed simp

section \<open>The digest\<close>

lemma MD5_Final_spec:
  assumes c: "md_holds msg c"
  shows "\<exists>c'. MD5_Final c = Some (md5_digest msg, c')"
proof -
  let ?r = "length msg mod 64"
  let ?full = "take (length msg div 64 * 64) msg" and ?rest = "drop (length msg div 64 * 64) msg"
  have h: "holds_msg compress start msg (md_buf c) (md_in c)" and ct: "counts msg (md_bits0 c) (md_bits1 c)"
    using c by (simp_all add: md_holds_def)
  have lb: "length (md_in c) = 64" and rest: "take ?r (md_in c) = ?rest" and st: "md_buf c = run compress start ?full"
    using h run_rest [of compress start msg] by (simp_all add: holds_msg_def)
  have t: "unat (drop_bit 3 (md_bits0 c) AND 0x3F) = ?r" by (rule counts_index [OF ct])
  have r: "?r < 64" by simp
  have lr: "length ?rest = ?r" by (simp add: minus_div_mult_eq_mod)
  have le: "length msg div 64 * 64 \<le> length msg" by simp
  have dv: "64 dvd length ?full" using le by simp
  define bits where "bits = bytes4 (md_bits0 c) @ bytes4 (md_bits1 c)"
  have lbits: "length bits = 8" by (simp add: bits_def bytes4_def)
  have pad: "md5_pad msg = ?full @ ?rest @ 0x80 # replicate ((119 - ?r) mod 64) 0 @ bits"
    using counts_words [OF ct] by (simp add: md5_pad_def bits_def)
  have b1: "blit (md_in c) ?r [0x80] = Some (?rest @ 0x80 # drop (?r + 1) (md_in c))"
    using lb r by (simp add: blit_in rest)
  show ?thesis
  proof (cases "?r \<le> 55")
    case True
    define b where "b = ?rest @ 0x80 # replicate (55 - ?r) 0 @ bits"
    have z: "(119 - ?r) mod 64 = 55 - ?r"
    proof -
      have "119 - ?r = 55 - ?r + 64" using True by simp
      then have "(119 - ?r) mod 64 = (55 - ?r) mod 64" by (simp only: mod_add_self2)
      then show ?thesis by (simp only: mod_less)
    qed
    have l: "length b = 64" using True lr lbits by (simp add: b_def)
    have "blit (?rest @ 0x80 # drop (?r + 1) (md_in c)) (?r + 1) (replicate (64 - 1 - ?r - 8) 0) =
        Some (?rest @ 0x80 # replicate (55 - ?r) 0 @ drop 56 (md_in c))"
    proof -
      have "56 - ?r = Suc (55 - ?r)" using True by simp
      then show ?thesis using True lb lr by (simp add: blit_in)
    qed
    moreover have "blit (?rest @ 0x80 # replicate (55 - ?r) 0 @ drop 56 (md_in c)) 56 bits = Some b"
    proof -
      have "56 - ?r = Suc (55 - ?r)" "64 - ?r = Suc (63 - ?r)" using True by simp_all
      moreover have "length msg \<le> 64 + length msg div 64 * 64" using div_mult_mod_eq [of "length msg" 64] r by linarith
      ultimately show ?thesis using True lb lr lbits by (simp add: blit_in b_def)
    qed
    moreover have "run compress start (md5_pad msg) = compress (md_buf c) b"
      unfolding pad z st using run_append [OF dv, of compress start b] run_one [OF l] by (simp add: b_def)
    moreover have "\<not> 64 - 1 - ?r < 8" using True by simp
    ultimately show ?thesis using b1 transform_compress [OF l, of "md_buf c"] unfolding MD5_Final_def t Let_def bits_def [symmetric]
      by (simp add: md5_digest_def)
  next
    case False
    define b where "b = ?rest @ 0x80 # replicate (63 - ?r) 0"
    define b' where "b' = replicate 56 0 @ bits"
    have z: "(119 - ?r) mod 64 = 63 - ?r + 56" using False r by (subst mod_less) simp_all
    have l: "length b = 64" "length b' = 64" using r lr lbits by (simp_all add: b_def b'_def)
    have "blit (?rest @ 0x80 # drop (?r + 1) (md_in c)) (?r + 1) (replicate (64 - 1 - ?r) 0) = Some b"
      using r lb lr by (simp add: blit_in b_def)
    moreover have "blit b 0 (replicate 56 0) = Some (replicate 56 0 @ drop 56 b)" using l by (simp add: blit_in)
    moreover have "blit (replicate 56 0 @ drop 56 b) 56 bits = Some b'" using l lbits by (simp add: blit_in b'_def)
    moreover have "run compress start (md5_pad msg) = compress (compress (md_buf c) b) b'"
    proof -
      have "md5_pad msg = ?full @ b @ b'" unfolding pad z b_def b'_def replicate_add by simp
      then show ?thesis using run_append [OF dv, of compress start "b @ b'"]
        by (simp only: st run_block [OF l(1)] run_one [OF l(2)])
    qed
    moreover have "64 - 1 - ?r < 8" using False by simp
    ultimately show ?thesis using b1 transform_compress [OF l(1)] transform_compress [OF l(2)]
      unfolding MD5_Final_def t Let_def bits_def [symmetric] by (simp add: md5_digest_def)
  qed
qed

lemma cs_to_hex_bytes: "cs_to_hex bs = concat (map (\<lambda>b. hex 2 (uint b)) bs)"
proof (induction bs)
  case (Cons b bs)
  have "unat (drop_bit 4 b) = nat (uint b div 16)" 
    by (simp add: drop_bit_eq_div unat_div nat_div_distrib)
  moreover have "(0x0f :: byte) = mask 4" by (simp add: mask_eq_exp_minus_1)
  then have "unat (b AND 0x0f) = nat (uint b mod 16)"
    by (simp only: flip: take_bit_eq_mask) (simp add: take_bit_eq_mod unat_mod nat_mod_distrib)
  moreover have "uint b div 16 mod 16 = uint b div 16"
    using uint_bounded [of b] by (intro mod_pos_pos_trivial) (simp_all add: pos_imp_zdiv_nonneg_iff)
  ultimately show ?case using Cons by (simp add: numeral_2_eq_2)
qed simp

section \<open>Properties\<close>

text \<open>C24: the two MD5 of the repository agree: \<open>cs_md5\<close> of any pieces, from any uninitialised context, is the
  \<open>hexdigest\<close> that the class \<open>MD5\<close> computes of the whole message.\<close>

theorem md5_implementations_agree:
  assumes "length (md_in c) = 64" "length (buffer m) = 64" "length (concat ps) < 2 ^ 32 - 64"
  shows "\<exists>m'. MD5 m (concat ps) = Some m' \<and> cs_md5 c ps = Some (hexdigest m')"
proof -
  have "length p \<le> length (concat ps)" if "p \<in> set ps" for p
    using that by (induction ps) auto
  then have "\<forall>p \<in> set ps. length p < 2 ^ 32" using assms(3) by fastforce
  then obtain c1 where "md5_pieces (MD5_Init c) ps = Some c1" "md_holds (concat ps) c1"
    using md5_pieces_spec [OF md_holds_init [OF assms(1)], of ps] by auto
  then have "cs_md5 c ps = Some (concat (map (\<lambda>b. hex 2 (uint b)) (md5_digest (concat ps))))"
    using MD5_Final_spec by (fastforce simp: cs_md5_def cs_to_hex_bytes)
  then show ?thesis using MD5_spec [OF assms(2,3)] by auto
qed

lemma md5_implementations_agree_witness:
  "\<exists>m'. MD5 \<lparr>finalized = True, buffer = replicate 64 7, count0 = 1, count1 = 2, state = (0, 0, 0, 0), digest = []\<rparr>
      (concat [[97], [98, 99]]) = Some m' \<and>
    cs_md5 \<lparr>md_buf = (0, 0, 0, 0), md_bits0 = 9, md_bits1 = 9, md_in = replicate 64 1\<rparr> [[97], [98, 99]] = Some (hexdigest m')"
  by (rule md5_implementations_agree) simp_all

end
