(* ===== verification/Mg_Sha1.thy ===== *)
theory Mg_Sha1
  imports Absorb Sha1
begin

text \<open>
  SHA-1 of \<open>mongoose.cc\<close> (\<open>cs_sha1_*\<close>, \<open>cs_hmac_sha1\<close>), which the handshake of websockets uses, and its
  agreement with the class of \<open>c++/utils/hash/sha1.cpp\<close>.  The machine is little-endian.  A copy that leaves
  an array is \<open>None\<close>; the buffer of a fresh context holds anything.
\<close>

section \<open>Definitions\<close>

record sha1_ctx =
  regs :: quint
  bits0 :: uint4
  bits1 :: uint4
  ctx_buf :: "byte list"

definition rol :: "uint4 \<Rightarrow> nat \<Rightarrow> uint4" where
  "rol v n = push_bit n v OR drop_bit (32 - n) v"

text \<open>The words of the union \<open>char64long16\<close>, before \<open>blk0\<close> swaps their bytes.\<close>

definition le_word :: "byte list \<Rightarrow> nat \<Rightarrow> uint4" where
  "le_word b i = ucast (b ! (4 * i)) OR push_bit 8 (ucast (b ! (4 * i + 1))) OR
     push_bit 16 (ucast (b ! (4 * i + 2))) OR push_bit 24 (ucast (b ! (4 * i + 3)))"

definition blk0 :: "uint4 list \<Rightarrow> nat \<Rightarrow> uint4 \<times> uint4 list" where
  "blk0 block i = (let w = (rol (block ! i) 24 AND 0xFF00FF00) OR (rol (block ! i) 8 AND 0x00FF00FF)
     in (w, block[i := w]))"

definition blk :: "uint4 list \<Rightarrow> nat \<Rightarrow> uint4 \<times> uint4 list" where
  "blk block i = (let w = rol (block ! ((i + 13) mod 16) XOR block ! ((i + 8) mod 16) XOR
      block ! ((i + 2) mod 16) XOR block ! (i mod 16)) 1
     in (w, block[i mod 16 := w]))"

text \<open>The macros \<open>R0\<close> to \<open>R4\<close>: the new \<open>z\<close> and \<open>w\<close>, and the block.\<close>

type_synonym round_macro =
  "uint4 \<Rightarrow> uint4 \<Rightarrow> uint4 \<Rightarrow> uint4 \<Rightarrow> uint4 \<Rightarrow> nat \<Rightarrow> uint4 list \<Rightarrow> uint4 \<times> uint4 \<times> uint4 list"

definition R0 :: round_macro where
  "R0 v w x y z i block = (case blk0 block i of (b, block') \<Rightarrow>
     (z + (((w AND (x XOR y)) XOR y) + b + 0x5A827999 + rol v 5), rol w 30, block'))"

definition R1 :: round_macro where
  "R1 v w x y z i block = (case blk block i of (b, block') \<Rightarrow>
     (z + (((w AND (x XOR y)) XOR y) + b + 0x5A827999 + rol v 5), rol w 30, block'))"

definition R2 :: round_macro where
  "R2 v w x y z i block = (case blk block i of (b, block') \<Rightarrow>
     (z + ((w XOR x XOR y) + b + 0x6ED9EBA1 + rol v 5), rol w 30, block'))"

definition R3 :: round_macro where
  "R3 v w x y z i block = (case blk block i of (b, block') \<Rightarrow>
     (z + ((((w OR x) AND y) OR (w AND x)) + b + 0x8F1BBCDC + rol v 5), rol w 30, block'))"

definition R4 :: round_macro where
  "R4 v w x y z i block = (case blk block i of (b, block') \<Rightarrow>
     (z + ((w XOR x XOR y) + b + 0xCA62C1D6 + rol v 5), rol w 30, block'))"

text \<open>The line of \<open>cs_sha1_transform\<close> with number \<open>i\<close>: the macro by the range of \<open>i\<close>, the order of the variables
  by \<open>i\<close> modulo 5.\<close>

definition macro_of :: "nat \<Rightarrow> round_macro" where
  "macro_of i = (if i < 16 then R0 else if i < 20 then R1 else if i < 40 then R2 else if i < 60 then R3 else R4)"

definition line :: "nat \<Rightarrow> quint \<times> uint4 list \<Rightarrow> quint \<times> uint4 list" where
  "line i s = (case s of ((a, b, c, d, e), block) \<Rightarrow>
     if i mod 5 = 0 then (case macro_of i a b c d e i block of (e', b', block') \<Rightarrow> ((a, b', c, d, e'), block'))
     else if i mod 5 = 1 then (case macro_of i e a b c d i block of (d', a', block') \<Rightarrow> ((a', b, c, d', e), block'))
     else if i mod 5 = 2 then (case macro_of i d e a b c i block of (c', e', block') \<Rightarrow> ((a, b, c', d, e'), block'))
     else if i mod 5 = 3 then (case macro_of i c d e a b i block of (b', d', block') \<Rightarrow> ((a, b', c, d', e), block'))
     else (case macro_of i b c d e a i block of (a', c', block') \<Rightarrow> ((a', b, c', d, e), block')))"

definition cs_sha1_transform :: "quint \<Rightarrow> byte list \<Rightarrow> quint" where
  "cs_sha1_transform st buf = (case (st, fst (fold line [0..<80] (st, map (le_word buf) [0..<16]))) of
     ((s0, s1, s2, s3, s4), (a, b, c, d, e)) \<Rightarrow> (s0 + a, s1 + b, s2 + c, s3 + d, s4 + e))"

definition cs_sha1_init :: "sha1_ctx \<Rightarrow> sha1_ctx" where
  "cs_sha1_init c = c\<lparr>regs := (0x67452301, 0xEFCDAB89, 0x98BADCFE, 0x10325476, 0xC3D2E1F0), bits0 := 0, bits1 := 0\<rparr>"

partial_function (option) transform_blocks ::
    "quint \<Rightarrow> byte list \<Rightarrow> uint4 \<Rightarrow> uint4 \<Rightarrow> (quint \<times> uint4) option" where
  "transform_blocks st data len i =
     (if i + 63 < len then do {
        b \<leftarrow> slice data (unat i) 64;
        transform_blocks (cs_sha1_transform st b) data len (i + 64) }
      else Some (st, i))"

definition cs_sha1_update :: "sha1_ctx \<Rightarrow> byte list \<Rightarrow> uint4 \<Rightarrow> sha1_ctx option" where
  "cs_sha1_update c data len =
     (let j0 = bits0 c; b0 = j0 + push_bit 3 len;
          b1 = (if b0 < j0 then bits1 c + 1 else bits1 c) + drop_bit 29 len;
          c1 = c\<lparr>bits0 := b0, bits1 := b1\<rparr>;
          j = drop_bit 3 j0 AND 63
      in do {
        (c2, i, j') \<leftarrow> (if j + len > 63 then do {
            d \<leftarrow> slice data 0 (unat (64 - j));
            buf \<leftarrow> blit (ctx_buf c1) (unat j) d;
            (st, i) \<leftarrow> transform_blocks (cs_sha1_transform (regs c1) buf) data len (64 - j);
            Some (c1\<lparr>regs := st, ctx_buf := buf\<rparr>, i, 0) }
          else Some (c1, 0, j));
        d \<leftarrow> slice data (unat i) (unat (len - i));
        buf \<leftarrow> blit (ctx_buf c2) (unat j') d;
        Some (c2\<lparr>ctx_buf := buf\<rparr>) })"

definition finalcount :: "sha1_ctx \<Rightarrow> byte list" where
  "finalcount c = map (\<lambda>i. ucast (drop_bit ((3 - i mod 4) * 8) (if i \<ge> 4 then bits0 c else bits1 c) AND 255)) [0..<8]"

partial_function (option) pad_zeros :: "sha1_ctx \<Rightarrow> sha1_ctx option" where
  "pad_zeros c = (if bits0 c AND 504 \<noteq> 448 then do { c' \<leftarrow> cs_sha1_update c [0] 1; pad_zeros c' } else Some c)"

definition quint_nth :: "quint \<Rightarrow> nat \<Rightarrow> uint4" where
  "quint_nth q i = (case q of (a, b, c, d, e) \<Rightarrow> [a, b, c, d, e] ! i)"

text \<open>The digest; the context is cleared afterwards.\<close>

definition cs_sha1_final :: "sha1_ctx \<Rightarrow> (byte list \<times> sha1_ctx) option" where
  "cs_sha1_final c = do {
     let final = finalcount c;
     c1 \<leftarrow> cs_sha1_update c [0x80] 1;
     c2 \<leftarrow> pad_zeros c1;
     c3 \<leftarrow> cs_sha1_update c2 final 8;
     Some (map (\<lambda>i. ucast (drop_bit ((3 - i mod 4) * 8) (quint_nth (regs c3) (i div 4)) AND 255)) [0..<20],
       \<lparr>regs = (0, 0, 0, 0, 0), bits0 = 0, bits1 = 0, ctx_buf = replicate 64 0\<rparr>) }"

definition cs_hmac_sha1 :: "sha1_ctx \<Rightarrow> byte list \<Rightarrow> byte list \<Rightarrow> byte list option" where
  "cs_hmac_sha1 ctx key data = do {
     (key', ctx0) \<leftarrow> (if length key > 64 then do {
         c \<leftarrow> cs_sha1_update (cs_sha1_init ctx) key (of_nat (length key));
         cs_sha1_final c }
       else Some (key, ctx));
     k1 \<leftarrow> blit (replicate 64 0) 0 key';
     let buf1 = map (\<lambda>b. b XOR 0x36) k1;
     let buf2 = map (\<lambda>b. b XOR 0x5c) k1;
     c1 \<leftarrow> cs_sha1_update (cs_sha1_init ctx0) buf1 64;
     c2 \<leftarrow> cs_sha1_update c1 data (of_nat (length data));
     (out, ctx1) \<leftarrow> cs_sha1_final c2;
     c3 \<leftarrow> cs_sha1_update (cs_sha1_init ctx1) buf2 64;
     c4 \<leftarrow> cs_sha1_update c3 out 20;
     map_option fst (cs_sha1_final c4) }"

section \<open>The transformation\<close>

lemma all_bits: "w AND 0xFFFFFFFF = (w :: uint4)"
proof -
  have m: "(0xFFFFFFFF :: uint4) = mask 32" by (simp add: mask_eq_exp_minus_1)
  show ?thesis unfolding m by (rule bit_word_eqI) (simp add: bit_simps)
qed

lemma rol_shift: "rol w n = CircularShift n w"
  unfolding rol_def CircularShift_def all_bits ..

lemma choose_eq: "((w AND (x XOR y)) XOR y) = Ch w x y"
  by (rule bit_word_eqI) (auto simp: Ch_def bit_simps)

lemma majority_eq: "(((w OR x) AND y) OR (w AND x)) = Maj w x y"
  by (rule bit_word_eqI) (auto simp: Maj_def bit_simps)

lemma blk0_word:
  assumes "length b = 64" "i < 16"
  shows "(rol (le_word b i) 24 AND 0xFF00FF00) OR (rol (le_word b i) 8 AND 0x00FF00FF) = be_word b i"
proof (rule bit_word_eqI)
  fix n assume n: "n < LENGTH(32)"
  have m: "(0xFF00FF00 :: uint4) = push_bit 8 (mask 8) OR push_bit 24 (mask 8)"
    "(0x00FF00FF :: uint4) = mask 8 OR push_bit 16 (mask 8)"
    by (simp_all add: mask_eq_exp_minus_1)
  consider "n < 8" | "8 \<le> n" "n < 16" | "16 \<le> n" "n < 24" | "24 \<le> n" by linarith
  then show "bit ((rol (le_word b i) 24 AND 0xFF00FF00) OR (rol (le_word b i) 8 AND 0x00FF00FF)) n = bit (be_word b i) n"
    using n unfolding m by cases (auto simp: rol_def le_word_def be_word_def bit_simps mult.commute dest: bit_imp_le_length)
qed

text \<open>The word sequence, and the block as a window on its last 16 words.\<close>

lemma fold_extend_length: "length (fold extend_W ts W) = length W + length ts"
  by (induction ts arbitrary: W) (simp_all add: extend_W_def)

lemma fold_extend_keeps: "n < length W \<Longrightarrow> fold extend_W ts W ! n = W ! n"
  by (induction ts arbitrary: W) (simp_all add: extend_W_def nth_append)

definition words_to :: "byte list \<Rightarrow> nat \<Rightarrow> uint4 list" where
  "words_to b t = fold extend_W [16..<t] (map (be_word b) [0..<16])"

lemma words_to_length: "16 \<le> t \<Longrightarrow> length (words_to b t) = t"
  by (simp add: words_to_def fold_extend_length)

lemma words_to_Suc: "16 \<le> t \<Longrightarrow> words_to b (Suc t) = extend_W t (words_to b t)"
  by (simp add: words_to_def)

lemma schedule_nth: "n < t \<Longrightarrow> 16 \<le> t \<Longrightarrow> t \<le> 80 \<Longrightarrow> schedule b ! n = words_to b t ! n"
proof -
  assume t: "n < t" "16 \<le> t" "t \<le> 80"
  have "[16..<80] = [16..<t] @ [t..<80]" using t(2,3) upt_add_eq_append [of 16 t "80 - t"] by simp
  then show ?thesis using t fold_extend_keeps [of n "words_to b t" "[t..<80]"] words_to_length [of t b]
    by (simp add: schedule_def words_to_def)
qed

lemma schedule_first: "n < 16 \<Longrightarrow> schedule b ! n = be_word b n"
  using schedule_nth [of n 16 b] by (simp add: words_to_def)

lemma schedule_next:
  assumes "16 \<le> t" "t < 80"
  shows "schedule b ! t = CircularShift 1 (schedule b ! (t - 3) XOR schedule b ! (t - 8) XOR
    schedule b ! (t - 14) XOR schedule b ! (t - 16))"
proof -
  have "schedule b ! t = words_to b (Suc t) ! t" using assms by (intro schedule_nth) auto
  also have "\<dots> = CircularShift 1 (words_to b t ! (t - 3) XOR words_to b t ! (t - 8) XOR
      words_to b t ! (t - 14) XOR words_to b t ! (t - 16))"
    using assms words_to_length [of t b] by (simp add: words_to_Suc extend_W_def nth_append)
  finally have e: "schedule b ! t = CircularShift 1 (words_to b t ! (t - 3) XOR words_to b t ! (t - 8) XOR
      words_to b t ! (t - 14) XOR words_to b t ! (t - 16))" .
  have "schedule b ! (t - k) = words_to b t ! (t - k)" if "0 < k" "k \<le> 16" for k
    using assms that schedule_nth [of "t - k" t b] by auto
  then show ?thesis unfolding e by simp
qed

definition window :: "byte list \<Rightarrow> nat \<Rightarrow> uint4 list \<Rightarrow> bool" where
  "window b t block \<longleftrightarrow> length block = 16 \<and>
     (\<forall>n < 16. t \<le> n \<longrightarrow> block ! n = le_word b n) \<and>
     (\<forall>n < t. t \<le> n + 16 \<longrightarrow> block ! (n mod 16) = schedule b ! n)"

lemma window_start: "window b 0 (map (le_word b) [0..<16])"
  by (simp add: window_def)

lemma window_update:
  assumes "window b t block" "t < 80"
  shows "window b (Suc t) (block[t mod 16 := schedule b ! t])"
proof -
  have "n mod 16 \<noteq> t mod 16" if "n < t" "Suc t \<le> n + 16" for n :: nat
  proof
    assume "n mod 16 = t mod 16"
    then have "16 dvd t - n" using that by (metis mod_eq_dvd_iff_nat less_imp_le)
    then have "16 \<le> t - n" using that by (intro dvd_imp_le) auto
    then show False using that by simp
  qed
  note ne = this
  have l: "length block = 16" and w0: "\<And>n. n < 16 \<Longrightarrow> t \<le> n \<Longrightarrow> block ! n = le_word b n"
    and w1: "\<And>n. n < t \<Longrightarrow> t \<le> n + 16 \<Longrightarrow> block ! (n mod 16) = schedule b ! n"
    using assms(1) by (auto simp: window_def)
  have "block[t mod 16 := schedule b ! t] ! n = le_word b n" if "n < 16" "Suc t \<le> n" for n
    using that w0 [of n] by simp
  moreover have "block[t mod 16 := schedule b ! t] ! (n mod 16) = schedule b ! n" if "n < Suc t" "Suc t \<le> n + 16" for n
    using that w1 [of n] ne [of n] l by (cases "n = t") auto
  ultimately show ?thesis using l by (simp add: window_def)
qed

lemma window_blk0:
  assumes "window b t block" "length b = 64" "t < 16"
  shows "blk0 block t = (schedule b ! t, block[t mod 16 := schedule b ! t])"
  using assms blk0_word [OF assms(2,3)] schedule_first [OF assms(3)]
  by (simp add: blk0_def window_def Let_def)

lemma window_blk:
  assumes "window b t block" "16 \<le> t" "t < 80"
  shows "blk block t = (schedule b ! t, block[t mod 16 := schedule b ! t])"
proof -
  have w: "block ! (n mod 16) = schedule b ! n" if "n < t" "t \<le> n + 16" for n
    using assms(1) that by (simp add: window_def)
  have "(t + 13) mod 16 = (t - 3) mod 16" "(t + 8) mod 16 = (t - 8) mod 16" "(t + 2) mod 16 = (t - 14) mod 16"
    "t mod 16 = (t - 16) mod 16"
  proof -
    have "(t - 16 + k + 16) mod 16 = (t - 16 + k) mod 16" for k by (rule mod_add_self2)
    moreover have "t - 16 + k + 16 = t + k" "t - 16 + k = t - (16 - k)" if "k \<le> 16" for k
      using assms(2) that by simp_all
    ultimately have "(t + k) mod 16 = (t - (16 - k)) mod 16" if "k \<le> 16" for k using that by metis
    from this [of 13] this [of 8] this [of 2] this [of 0] show
      "(t + 13) mod 16 = (t - 3) mod 16" "(t + 8) mod 16 = (t - 8) mod 16" "(t + 2) mod 16 = (t - 14) mod 16"
      "t mod 16 = (t - 16) mod 16" by simp_all
  qed
  then show ?thesis using w [of "t - 3"] w [of "t - 8"] w [of "t - 14"] w [of "t - 16"] assms(2) schedule_next [OF assms(2,3), of b]
    by (simp add: blk_def Let_def rol_shift)
qed

definition round_at :: "uint4 list \<Rightarrow> nat \<Rightarrow> quint \<Rightarrow> quint" where
  "round_at W t = (if t < 20 then sha_round Ch 0x5A827999 W t else if t < 40 then sha_round Parity 0x6ED9EBA1 W t
     else if t < 60 then sha_round Maj 0x8F1BBCDC W t else sha_round Parity 0xCA62C1D6 W t)"

lemma sha_round_eq: "sha_round f k W t (A, B, C, D, E) =
    (CircularShift 5 A + f B C D + E + W ! t + k, A, CircularShift 30 B, C, D)"
  by (simp add: sha_round_def all_bits)

lemma macro_spec:
  assumes "window b t block" "length b = 64" "t < 80"
  shows "\<exists>z'. macro_of t v w x y z t block = (z', CircularShift 30 w, block[t mod 16 := schedule b ! t]) \<and>
    round_at (schedule b) t (v, w, x, y, z) = (z', v, CircularShift 30 w, x, y)"
proof -
  note b0 = window_blk0 [OF assms(1,2)] and b1 = window_blk [OF assms(1) _ assms(3)]
  consider "t < 16" | "16 \<le> t" "t < 20" | "20 \<le> t" "t < 40" | "40 \<le> t" "t < 60" | "60 \<le> t" by linarith
  then show ?thesis
    by cases (simp_all add: macro_of_def R0_def R1_def R2_def R3_def R4_def b0 b1 round_at_def sha_round_eq
        rol_shift choose_eq majority_eq Parity_def add.commute add.left_commute add.assoc)
qed

text \<open>The variables in the order of the standard before line \<open>t\<close>.\<close>

definition view :: "nat \<Rightarrow> quint \<Rightarrow> quint" where
  "view t s = (case s of (a, b, c, d, e) \<Rightarrow>
     if t mod 5 = 0 then (a, b, c, d, e) else if t mod 5 = 1 then (e, a, b, c, d)
     else if t mod 5 = 2 then (d, e, a, b, c) else if t mod 5 = 3 then (c, d, e, a, b) else (b, c, d, e, a))"

lemma line_view:
  assumes "window b t block" "length b = 64" "t < 80"
  shows "\<exists>s'. line t (s, block) = (s', block[t mod 16 := schedule b ! t]) \<and>
    view (Suc t) s' = round_at (schedule b) t (view t s)"
proof -
  obtain a0 b0 c0 d0 e0 where s: "s = (a0, b0, c0, d0, e0)" by (cases s)
  note sp = macro_spec [OF assms]
  have m: "Suc t mod 5 = (if t mod 5 = 4 then 0 else Suc (t mod 5))" by (simp add: mod_Suc)
  have "t mod 5 < 5" by simp
  then consider "t mod 5 = 0" | "t mod 5 = 1" | "t mod 5 = 2" | "t mod 5 = 3" | "t mod 5 = 4" by linarith
  then show ?thesis
  proof cases
    case 1
    then show ?thesis using sp [of a0 b0 c0 d0 e0] m unfolding s by (auto simp: line_def view_def)
  next
    case 2
    then show ?thesis using sp [of e0 a0 b0 c0 d0] m unfolding s by (auto simp: line_def view_def)
  next
    case 3
    then show ?thesis using sp [of d0 e0 a0 b0 c0] m unfolding s by (auto simp: line_def view_def)
  next
    case 4
    then show ?thesis using sp [of c0 d0 e0 a0 b0] m unfolding s by (auto simp: line_def view_def)
  next
    case 5
    then show ?thesis using sp [of b0 c0 d0 e0 a0] m unfolding s by (auto simp: line_def view_def)
  qed
qed

lemma lines_view:
  assumes "length b = 64" "t \<le> 80"
  shows "\<exists>s' block. fold line [0..<t] (s, map (le_word b) [0..<16]) = (s', block) \<and> window b t block \<and>
    view t s' = fold (round_at (schedule b)) [0..<t] s"
  using assms(2)
proof (induction t)
  case 0
  then show ?case using window_start by (auto simp: view_def split: prod.split)
next
  case (Suc t)
  then obtain s' block where IH: "fold line [0..<t] (s, map (le_word b) [0..<16]) = (s', block)" "window b t block"
      "view t s' = fold (round_at (schedule b)) [0..<t] s" by auto
  obtain s'' where "line t (s', block) = (s'', block[t mod 16 := schedule b ! t])"
      "view (Suc t) s'' = round_at (schedule b) t (view t s')"
    using line_view [OF IH(2) assms(1), of s'] Suc(2) by auto
  moreover have "window b (Suc t) (block[t mod 16 := schedule b ! t])" using window_update [OF IH(2)] Suc(2) by simp
  ultimately show ?case using IH by simp
qed

lemma fold_round_at:
  "fold (round_at W) [0..<80] s = sha_rounds W s"
proof -
  have "[0..<80] = [0..<20] @ [20..<40] @ [40..<60] @ [60..<(80::nat)]"
    using upt_add_eq_append [of 0 20 20] upt_add_eq_append [of 0 40 20] upt_add_eq_append [of 0 60 20] by simp
  moreover have "fold (round_at W) [0..<20] s = fold (sha_round Ch 0x5A827999 W) [0..<20] s" for s
    by (rule fold_cong) (simp_all add: round_at_def del: upt_rec_numeral)
  moreover have "fold (round_at W) [20..<40] s = fold (sha_round Parity 0x6ED9EBA1 W) [20..<40] s" for s
    by (rule fold_cong) (simp_all add: round_at_def del: upt_rec_numeral)
  moreover have "fold (round_at W) [40..<60] s = fold (sha_round Maj 0x8F1BBCDC W) [40..<60] s" for s
    by (rule fold_cong) (simp_all add: round_at_def del: upt_rec_numeral)
  moreover have "fold (round_at W) [60..<80] s = fold (sha_round Parity 0xCA62C1D6 W) [60..<80] s" for s
    by (rule fold_cong) (simp_all add: round_at_def del: upt_rec_numeral)
  ultimately show ?thesis by (simp add: sha_rounds_def)
qed

lemma transform_block: "length b = 64 \<Longrightarrow> cs_sha1_transform s b = sha_block s b"
proof -
  assume b: "length b = 64"
  obtain s' block where l: "fold line [0..<80] (s, map (le_word b) [0..<16]) = (s', block)"
      "view 80 s' = sha_rounds (schedule b) s"
    using lines_view [OF b, of 80 s] by (auto simp: fold_round_at)
  have "view 80 s' = s'" by (simp add: view_def split: prod.split)
  then show ?thesis using l unfolding cs_sha1_transform_def
    by (simp add: sha_block_def add5_def all_bits split: prod.split)
qed

section \<open>Updates\<close>

definition sha_holds :: "byte list \<Rightarrow> sha1_ctx \<Rightarrow> bool" where
  "sha_holds msg c \<longleftrightarrow> holds_msg sha_block sha_start msg (regs c) (ctx_buf c) \<and> counts msg (bits0 c) (bits1 c)"

lemma sha_holds_init: "length (ctx_buf c) = 64 \<Longrightarrow> sha_holds [] (cs_sha1_init c)"
  by (simp add: sha_holds_def cs_sha1_init_def counts_start holds_msg_start flip: sha_start_def)

lemma transform_blocks_spec:
  "i \<le> n \<Longrightarrow> n \<le> length mem \<Longrightarrow> n < 2 ^ 32 - 64 \<Longrightarrow>
   transform_blocks st mem (of_nat n) (of_nat i) =
     Some (run sha_block st (drop i (take n mem)), of_nat (i + (n - i) div 64 * 64))"
proof (induction "n - i" arbitrary: i st rule: less_induct)
  case less
  note prems = less.prems
  have g: "(of_nat i + 63 :: uint4) < of_nat n \<longleftrightarrow> i + 64 \<le> n"
    using prems unat_small [of "i + 63"] unat_small [of n] by (simp add: word_less_nat_alt) auto
  note unf = transform_blocks.simps [of st mem "of_nat n" "of_nat i"]
  show ?case
  proof (cases "i + 64 \<le> n")
    case False
    then have "(n - i) div 64 = 0" by simp
    then show ?thesis using False unfolding unf g by simp
  next
    case True
    let ?b = "take 64 (drop i (take n mem))"
    have b: "?b = take 64 (drop i mem)" using True by (simp add: drop_take min_absorb1)
    have "transform_blocks (sha_block st ?b) mem (of_nat n) (of_nat (i + 64)) =
        Some (run sha_block (sha_block st ?b) (drop (i + 64) (take n mem)), of_nat (i + 64 + (n - (i + 64)) div 64 * 64))"
      using prems True by (intro less.hyps) auto
    moreover have "i + 64 + (n - (i + 64)) div 64 * 64 = i + (n - i) div 64 * 64"
      using True by (simp add: div_if [of "n - i"])
    moreover have "\<not> length (drop i (take n mem)) < 64" using True prems by simp
    moreover from this have "run sha_block st (drop i (take n mem)) =
        run sha_block (sha_block st ?b) (drop (i + 64) (take n mem))"
      by (subst run.simps) (simp add: add.commute)
    moreover have "slice mem (unat (of_nat i :: uint4)) 64 = Some ?b"
      using True prems unat_small [of i] unfolding b by (simp add: slice_in)
    moreover have "cs_sha1_transform st ?b = sha_block st ?b"
      using True prems by (intro transform_block) simp
    ultimately show ?thesis using True unfolding unf g by simp
  qed
qed

lemma cs_sha1_update_spec:
  assumes c: "sha_holds msg c" and n: "n \<le> length mem" "n < 2 ^ 32 - 64"
  shows "\<exists>c'. cs_sha1_update c mem (of_nat n) = Some c' \<and> sha_holds (msg @ take n mem) c'"
proof -
  define d where "d = take n mem"
  have ld: "length d = n" using n(1) by (simp add: d_def)
  let ?r = "length msg mod 64"
  let ?j = "drop_bit 3 (bits0 c) AND 63"
  have h: "holds_msg sha_block sha_start msg (regs c) (ctx_buf c)" and ct: "counts msg (bits0 c) (bits1 c)"
    using c by (simp_all add: sha_holds_def)
  have lb: "length (ctx_buf c) = 64" using h by (simp add: holds_msg_def)
  have j: "unat ?j = ?r" by (rule counts_index [OF ct])
  then have jw: "?j = of_nat ?r" by (intro word_of_unat) (simp only: mod_mod_cancel mod_less less_imp_le, simp)
  have un: "unat (of_nat n :: uint4) = n" using n(2) by (intro unat_small) simp
  have guard: "?j + of_nat n > 63 \<longleftrightarrow> 64 \<le> ?r + n"
  proof -
    have "?j + of_nat n = of_nat (?r + n)" by (simp add: jw)
    moreover have "?r + n < 2 ^ 32" using n(2) mod_less_divisor [of 64 "length msg"] by simp
    ultimately show ?thesis using unat_small [of "?r + n"] by (simp add: word_less_nat_alt) linarith
  qed
  define b0 where "b0 = bits0 c + push_bit 3 (of_nat n)"
  define b1 where "b1 = (if b0 < bits0 c then bits1 c + 1 else bits1 c) + drop_bit 29 (of_nat n :: uint4)"
  have ct': "counts (msg @ d) b0 b1"
    using counts_add [OF ct, of d] ld n(2) by (simp add: b0_def b1_def)
  note unf = cs_sha1_update_def [of c mem "of_nat n", unfolded Let_def, folded b0_def, folded b1_def]
  show ?thesis
  proof (cases "64 \<le> ?r + n")
    case False
    have "slice mem 0 n = Some d" using n(1) by (simp add: slice_in d_def)
    moreover have "blit (ctx_buf c) ?r d = Some (take ?r (ctx_buf c) @ d @ drop (?r + n) (ctx_buf c))"
      using False lb ld by (simp add: blit_in)
    ultimately have "cs_sha1_update c mem (of_nat n) =
        Some (c\<lparr>bits0 := b0, bits1 := b1, ctx_buf := take ?r (ctx_buf c) @ d @ drop (?r + n) (ctx_buf c)\<rparr>)"
      unfolding unf guard using False un j by simp
    moreover have "holds_msg sha_block sha_start (msg @ d) (regs c) (take ?r (ctx_buf c) @ d @ drop (?r + n) (ctx_buf c))"
      using holds_msg_small [OF h, of d] False ld by simp
    ultimately show ?thesis using ct' by (simp add: sha_holds_def d_def)
  next
    case True
    let ?k = "64 - ?r"
    define q where "q = (n - ?k) div 64 * 64 + ?k"
    define b where "b = take ?r (ctx_buf c) @ take ?k d"
    have r: "?r < 64" by simp
    have kn: "?k \<le> n" using True by simp
    have q: "q \<le> n" "n - q < 64" using kn div_times_less_eq_dividend [of "n - ?k" 64]
      by (simp_all add: q_def minus_div_mult_eq_mod flip: diff_diff_left add: add.commute)
    have ku: "unat (64 - ?j) = ?k" using r j by (simp add: unat_sub word_le_nat_alt)
    have kw: "64 - ?j = of_nat ?k" using ku by (intro word_of_unat) simp
    have lb': "length b = 64" using kn lb ld r by (simp add: b_def)
    have s1: "slice mem 0 ?k = Some (take ?k d)" using kn n(1) by (simp add: slice_in d_def min_absorb1)
    have s2: "blit (ctx_buf c) ?r (take ?k d) = Some b" using kn ld lb r by (simp add: blit_in b_def)
    have t: "cs_sha1_transform (regs c) b = sha_block (regs c) b" by (rule transform_block [OF lb'])
    define st' where "st' = run sha_block (sha_block (regs c) b) (drop ?k d)"
    have s3: "transform_blocks (sha_block (regs c) b) mem (of_nat n) (of_nat ?k) = Some (st', of_nat q)"
      using transform_blocks_spec [OF kn n] by (simp add: st'_def q_def d_def add.commute)
    have uq: "unat (of_nat q :: uint4) = q" "unat (of_nat n - of_nat q :: uint4) = n - q"
      using q n(2) unat_small [of q] un by (simp_all add: unat_sub word_le_nat_alt)
    have s4: "slice mem q (n - q) = Some (drop q d)" using q n(1) by (simp add: slice_in d_def drop_take)
    have s5: "blit b 0 (drop q d) = Some (drop q d @ drop (n - q) b)" using q lb' ld by (simp add: blit_in)
    have "cs_sha1_update c mem (of_nat n) = Some (c\<lparr>bits0 := b0, bits1 := b1, regs := st', ctx_buf := drop q d @ drop (n - q) b\<rparr>)"
      unfolding unf guard using True j ku s1 s2 t s3 [folded kw] uq s4 s5 by simp
    moreover have "holds_msg sha_block sha_start (msg @ d) st' (drop q d @ drop (n - q) b)"
      by (rule holds_msg_large [OF h _ _ _ lb']) (use True in \<open>simp_all add: st'_def b_def q_def ld\<close>)
    ultimately show ?thesis using ct' by (simp add: sha_holds_def d_def)
  qed
qed

section \<open>Padding\<close>

lemma word_length_index:
  assumes "counts msg c0 c1"
  shows "c0 AND 504 = 448 \<longleftrightarrow> length msg mod 64 = 56"
proof -
  let ?j = "drop_bit 3 c0 AND 63"
  have m: "(504 :: uint4) = push_bit 3 (mask 6)" "(63 :: uint4) = mask 6" "(448 :: uint4) = push_bit 3 56"
    by (simp_all add: mask_eq_exp_minus_1)
  have "c0 AND 504 = push_bit 3 ?j" unfolding m(1,2) by (rule bit_word_eqI) (auto simp: bit_simps)
  moreover have "unat ?j < 64" using counts_index [OF assms] by simp
  then have "unat (push_bit 3 ?j) = 8 * unat ?j" by (simp add: push_bit_eq_mult unat_word_ariths mult.commute)
  ultimately have "c0 AND 504 = 448 \<longleftrightarrow> unat ?j = 56"
    unfolding m(3) by (simp add: word_unat_eq_iff push_bit_eq_mult)
  then show ?thesis using counts_index [OF assms] by simp
qed

lemma pad_zeros_spec:
  "sha_holds msg c \<Longrightarrow> (length msg + k) mod 64 = 56 \<Longrightarrow> k < 64 \<Longrightarrow>
   \<exists>c'. pad_zeros c = Some c' \<and> sha_holds (msg @ replicate k 0) c'"
proof (induction k arbitrary: msg c)
  case 0
  then have "bits0 c AND 504 = 448" using word_length_index by (auto simp: sha_holds_def)
  then show ?case using 0 by (simp add: pad_zeros.simps [of c])
next
  case (Suc k)
  have "length msg mod 64 \<noteq> 56"
  proof
    assume "length msg mod 64 = 56"
    then have "length msg mod 64 = (length msg + Suc k) mod 64" using Suc(3) by simp
    then have "64 dvd Suc k" by (metis add_diff_cancel_left' le_add1 mod_eq_dvd_iff_nat)
    then show False using Suc(4) by (auto dest: dvd_imp_le)
  qed
  then have "bits0 c AND 504 \<noteq> 448" using word_length_index Suc(2) by (auto simp: sha_holds_def)
  moreover obtain c1 where c1: "cs_sha1_update c [0] 1 = Some c1" "sha_holds (msg @ [0]) c1"
    using cs_sha1_update_spec [OF Suc(2), of 1 "[0]"] by auto
  moreover obtain c' where "pad_zeros c1 = Some c'" "sha_holds ((msg @ [0]) @ replicate k 0) c'"
    using Suc(1) [OF c1(2)] Suc(3,4) by auto
  ultimately show ?case by (auto simp: pad_zeros.simps [of c])
qed

definition sha1_digest :: "byte list \<Rightarrow> byte list" where
  "sha1_digest msg = concat (map be_bytes (hash_words (run sha_block sha_start (sha1_pad msg))))"

lemma upt_8: "[0..<8] = [0, 1, 2, 3, 4, 5, 6, 7 :: nat]"
  by (simp add: upt_rec numeral_2_eq_2)

lemma upt_20: "[0..<20] = [0, 1, 2, 3, 4, 5, 6, 7, 8, 9, 10, 11, 12, 13, 14, 15, 16, 17, 18, 19 :: nat]"
  by (simp add: upt_rec numeral_2_eq_2)

lemma finalcount_bytes: "finalcount c = be_bytes (bits1 c) @ be_bytes (bits0 c)"
  by (simp add: finalcount_def be_bytes_def upt_8)

lemma digest_bytes:
  "map (\<lambda>i. ucast (drop_bit ((3 - i mod 4) * 8) (quint_nth q (i div 4)) AND 255)) [0..<20] =
   concat (map be_bytes (hash_words q))"
  by (cases q) (simp add: quint_nth_def hash_words_def be_bytes_def upt_20)

lemma pad_arith: "r < 64 \<Longrightarrow> (r + (1 + (119 - r) mod 64)) mod 64 = (56 :: nat)"
proof (cases "r \<le> 55")
  case True
  then have "119 - r = 55 - r + 64" by simp
  moreover have "(55 - r + 64) mod 64 = (55 - r) mod 64" by (rule mod_add_self2)
  ultimately have e: "(119 - r) mod 64 = 55 - r" using True by (simp only: mod_less)
  have "r + (1 + (55 - r)) = 56" using True by simp
  then show ?thesis unfolding e by (simp only:) simp
next
  case False
  assume r: "r < 64"
  then have e: "(119 - r) mod 64 = 119 - r" using False by (intro mod_less) simp
  have "r + (1 + (119 - r)) = 120" using r by simp
  then show ?thesis unfolding e by (simp only:) simp
qed

lemma sha1_pad_mod: "(length msg + (1 + (119 - length msg mod 64) mod 64)) mod 64 = 56"
  using pad_arith [of "length msg mod 64"] by (simp only: mod_add_left_eq mod_less_divisor zero_less_numeral)

lemma cs_sha1_final_spec:
  assumes c: "sha_holds msg c"
  shows "\<exists>c'. cs_sha1_final c = Some (sha1_digest msg, c') \<and> length (ctx_buf c') = 64"
proof -
  let ?r = "length msg mod 64"
  let ?z = "(119 - ?r) mod 64"
  obtain c1 where c1: "cs_sha1_update c [0x80] 1 = Some c1" "sha_holds (msg @ [0x80]) c1"
    using cs_sha1_update_spec [OF c, of 1 "[0x80]"] by auto
  have "(length (msg @ [0x80 :: byte]) + ?z) mod 64 = 56" using sha1_pad_mod [of msg] by (simp only: length_append add.assoc list.size One_nat_def add_0)
  then obtain c2 where c2: "pad_zeros c1 = Some c2" "sha_holds ((msg @ [0x80]) @ replicate ?z 0) c2"
    using pad_zeros_spec [OF c1(2), of ?z] by auto
  have f: "finalcount c = bit_length (length msg)"
    using c counts_words [of msg "bits0 c" "bits1 c"] by (simp add: finalcount_bytes bit_length_def sha_holds_def)
  moreover have "length (bit_length (length msg)) = 8" by (simp add: bit_length_def be_bytes_def)
  ultimately obtain c3 where c3: "cs_sha1_update c2 (finalcount c) 8 = Some c3" "sha_holds (sha1_pad msg) c3"
    using cs_sha1_update_spec [OF c2(2), of 8 "finalcount c"] by (auto simp: sha1_pad_def)
  have "regs c3 = run sha_block sha_start (sha1_pad msg)" using c3(2) by (simp add: sha_holds_def holds_msg_def)
  then show ?thesis using c1(1) c2(1) c3(1)
    by (simp add: cs_sha1_final_def digest_bytes sha1_digest_def del: upt_rec_numeral)
qed

lemma cs_sha1_spec:
  assumes "length (ctx_buf c) = 64" "length msg < 2 ^ 32 - 64"
  shows "\<exists>c1 c'. cs_sha1_update (cs_sha1_init c) msg (of_nat (length msg)) = Some c1 \<and>
    cs_sha1_final c1 = Some (sha1_digest msg, c') \<and> length (ctx_buf c') = 64"
  using cs_sha1_update_spec [OF sha_holds_init [OF assms(1)] order_refl assms(2)] cs_sha1_final_spec by fastforce

lemma length_sha1_digest: "length (sha1_digest msg) = 20"
  by (cases "run sha_block sha_start (sha1_pad msg)") (simp add: sha1_digest_def hash_words_def be_bytes_def)

definition hmac_pad :: "byte list \<Rightarrow> byte list" where
  "hmac_pad key = (let k = (if length key > 64 then sha1_digest key else key) in k @ replicate (64 - length k) 0)"

definition sha1_hmac :: "byte list \<Rightarrow> byte list \<Rightarrow> byte list" where
  "sha1_hmac key data = sha1_digest (map (\<lambda>b. b XOR 0x5c) (hmac_pad key) @
     sha1_digest (map (\<lambda>b. b XOR 0x36) (hmac_pad key) @ data))"

lemma sha1_two_updates:
  assumes "length (ctx_buf c) = 64" "length a = 64" "length b < 2 ^ 32 - 64"
  shows "\<exists>c1 c2 c'. cs_sha1_update (cs_sha1_init c) a 64 = Some c1 \<and>
    cs_sha1_update c1 b (of_nat (length b)) = Some c2 \<and>
    cs_sha1_final c2 = Some (sha1_digest (a @ b), c') \<and> length (ctx_buf c') = 64"
proof -
  obtain c1 where c1: "cs_sha1_update (cs_sha1_init c) a 64 = Some c1" "sha_holds a c1"
    using cs_sha1_update_spec [OF sha_holds_init [OF assms(1)], of 64 a] assms(2) by auto
  then show ?thesis using cs_sha1_update_spec [OF c1(2) order_refl assms(3)] cs_sha1_final_spec by fastforce
qed

lemma hmac_sha1_spec:
  assumes "length (ctx_buf c) = 64" "length key < 2 ^ 32 - 64" "length data < 2 ^ 32 - 64"
  shows "cs_hmac_sha1 c key data = Some (sha1_hmac key data)"
proof -
  define k where "k = (if length key > 64 then sha1_digest key else key)"
  have lk: "length k \<le> 64" by (simp add: k_def length_sha1_digest)
  obtain c0 where c0: "(if length key > 64 then do {
         c \<leftarrow> cs_sha1_update (cs_sha1_init c) key (of_nat (length key));
         cs_sha1_final c }
       else Some (key, c)) = Some (k, c0)" "length (ctx_buf c0) = 64"
  proof (cases "length key > 64")
    case True
    then show ?thesis using that cs_sha1_spec [OF assms(1,2)] by (auto simp: k_def)
  next
    case False
    then show ?thesis using that [of c] assms(1) by (simp add: k_def)
  qed
  have kp: "k @ replicate (64 - length k) 0 = hmac_pad key" by (simp add: hmac_pad_def k_def Let_def)
  then have lp: "length (hmac_pad key) = 64" using lk by (metis add_diff_inverse_nat length_append length_replicate not_le)
  have b: "blit (replicate 64 0) 0 k = Some (hmac_pad key)" using lk by (simp add: blit_in flip: kp)
  let ?i = "map (\<lambda>b. b XOR 0x36) (hmac_pad key)" and ?o = "map (\<lambda>b. b XOR 0x5c) (hmac_pad key)"
  obtain c1 c2 c3 where 1: "cs_sha1_update (cs_sha1_init c0) ?i 64 = Some c1"
      "cs_sha1_update c1 data (of_nat (length data)) = Some c2"
      "cs_sha1_final c2 = Some (sha1_digest (?i @ data), c3)" "length (ctx_buf c3) = 64"
    using sha1_two_updates [OF c0(2), of ?i data] lp assms(3) by auto
  obtain c4 c5 c6 where 2: "cs_sha1_update (cs_sha1_init c3) ?o 64 = Some c4"
      "cs_sha1_update c4 (sha1_digest (?i @ data)) 20 = Some c5"
      "cs_sha1_final c5 = Some (sha1_digest (?o @ sha1_digest (?i @ data)), c6)"
    using sha1_two_updates [OF 1(4), of ?o "sha1_digest (?i @ data)"] lp by (auto simp: length_sha1_digest)
  show ?thesis unfolding cs_hmac_sha1_def c0(1) using b 1 2 by (simp add: sha1_hmac_def)
qed

section \<open>Agreement with the class \<open>SHA1\<close>\<close>

lemma hex_two: "hex 2 n = [hex_digit (nat (n div 16 mod 16)), hex_digit (nat (n mod 16))]"
  by (simp add: numeral_2_eq_2)

lemma hex_byte: "hex (Suc (Suc k)) n = hex k (n div 256) @ hex 2 (n mod 256)"
proof -
  have "n mod 256 mod 16 = n mod 16" by (rule mod_mod_cancel) simp
  moreover have "n div 16 mod 16 = n mod 256 div 16 mod 16"
  proof -
    have "n mod (16 * 16) = 16 * (n div 16 mod 16) + n mod 16" by (rule zmod_zmult2_eq) simp
    then show ?thesis by simp
  qed
  ultimately show ?thesis by (simp add: hex_two zdiv_zmult2_eq [symmetric])
qed

lemma byte_of_word: "uint (ucast (drop_bit k w AND 0xFF) :: byte) = uint (w :: uint4) div 2 ^ k mod 256"
proof -
  have m: "(0xFF :: uint4) = mask 8" by (simp add: mask_eq_exp_minus_1)
  show ?thesis unfolding m
    by (simp add: unsigned_ucast_eq unsigned_take_bit_eq unsigned_drop_bit_eq flip: take_bit_eq_mask)
      (use uint_bounded [of w] in \<open>simp add: take_bit_eq_mod drop_bit_eq_div\<close>)
qed

lemma hex_word: "concat (map (\<lambda>b. hex 2 (uint b)) (be_bytes w)) = hex 8 (uint w)"
proof -
  let ?n = "uint w"
  have "?n div 16777216 \<le> (2 ^ 32 - 1) div 16777216" using uint_bounded [of w] by (intro zdiv_mono1) simp_all
  moreover have "0 \<le> ?n div 16777216" by (simp add: pos_imp_zdiv_nonneg_iff)
  ultimately have "?n div 16777216 mod 256 = ?n div 16777216" by (intro mod_pos_pos_trivial) auto
  then have t: "?n div 256 div 256 div 256 mod 256 = ?n div 256 div 256 div 256" by (simp add: zdiv_zmult2_eq [symmetric])
  have "hex 4 m = hex 2 (m div 256) @ hex 2 (m mod 256)" "hex 6 m = hex 4 (m div 256) @ hex 2 (m mod 256)"
    "hex 8 m = hex 6 (m div 256) @ hex 2 (m mod 256)" for m
    using hex_byte [of 2 m] hex_byte [of 4 m] hex_byte [of 6 m] by (simp_all only: Suc_numeral add_num_simps)
  then have "hex 8 ?n = hex 2 (?n div 256 div 256 div 256) @ hex 2 (?n div 256 div 256 mod 256) @
      hex 2 (?n div 256 mod 256) @ hex 2 (?n mod 256)"
    by (simp only: append_assoc)
  moreover have "?n div 256 div 256 div 256 = ?n div 2 ^ 24 mod 256" using t by (simp add: zdiv_zmult2_eq [symmetric])
  moreover have "?n div 256 div 256 = ?n div 2 ^ 16" "?n div 256 = ?n div 2 ^ 8" by (simp_all add: zdiv_zmult2_eq [symmetric])
  moreover have "uint (ucast (w AND 0xFF) :: byte) = ?n mod 256" using byte_of_word [of 0 w] by simp
  ultimately show ?thesis
    unfolding be_bytes_def list.map concat.simps byte_of_word append_Nil2 by metis
qed

lemma hex_digest: "concat (map (\<lambda>b. hex 2 (uint b)) (sha1_digest msg)) = sha1_text (sha1_pad msg)"
  by (simp add: sha1_digest_def sha1_text_def hash_words_def hex_word split: prod.split)

section \<open>Properties\<close>



text \<open>\<open>cs_hmac_sha1\<close> is the keyed hash of RFC 2104, for keys shorter and longer than a block.\<close>

theorem cs_hmac_sha1_correct:
  assumes "length (ctx_buf c) = 64" "length key < 2 ^ 32 - 64" "length data < 2 ^ 32 - 64"
  shows "cs_hmac_sha1 c key data = Some (sha1_hmac key data)"
  by (rule hmac_sha1_spec [OF assms])

lemma cs_hmac_sha1_correct_witness:
  "cs_hmac_sha1 \<lparr>regs = (0, 0, 0, 0, 0), bits0 = 7, bits1 = 7, ctx_buf = replicate 64 9\<rparr> [1] [2, 3] =
    Some (sha1_hmac [1] [2, 3])"
  by (rule cs_hmac_sha1_correct) simp_all

end
