(* ===== verification/Mg_Base64.thy ===== *)
theory Mg_Base64
  imports Bytes
begin

text \<open>
  The base64 code of \<open>c++/utils/web_server/common/mongoose.cc\<close>: the encoder that is fed in pieces, the one
  that fills a buffer, and the decoder.  The callback \<open>b64_putc\<close> is the list of the characters it has been
  given.  An \<open>int\<close> of the code is an \<open>int\<close>: all its values are between 0 and 255.
\<close>

section \<open>Definitions\<close>

definition sextet1 :: "byte \<Rightarrow> int" where
  "sextet1 a = drop_bit 2 (uint a)"

definition sextet2 :: "byte \<Rightarrow> byte \<Rightarrow> int" where
  "sextet2 a b = push_bit 4 (uint a AND 3) OR drop_bit 4 (uint b)"

definition sextet3 :: "byte \<Rightarrow> byte \<Rightarrow> int" where
  "sextet3 b c = push_bit 2 (uint b AND 15) OR drop_bit 6 (uint c)"

definition sextet4 :: "byte \<Rightarrow> int" where
  "sextet4 c = uint c AND 63"

lemmas sextet_defs = sextet1_def sextet2_def sextet3_def sextet4_def

record cs_base64_ctx =
  chunk :: "byte list"
  chunk_size :: nat
  putc :: "byte list"

definition cs_base64_emit_code :: "cs_base64_ctx \<Rightarrow> int \<Rightarrow> cs_base64_ctx" where
  "cs_base64_emit_code ctx v = ctx\<lparr>putc := putc ctx @
     [if v < 26 then word_of_int (v + 65)
      else if v < 52 then word_of_int (v - 26 + 97)
      else if v < 62 then word_of_int (v - 52 + 48)
      else if v - 52 - 10 = 0 then 43 else 47]\<rparr>"

definition cs_base64_emit_chunk :: "cs_base64_ctx \<Rightarrow> cs_base64_ctx" where
  "cs_base64_emit_chunk ctx =
     (let a = chunk ctx ! 0; b = chunk ctx ! 1; c = chunk ctx ! 2;
          ctx1 = cs_base64_emit_code ctx (sextet1 a);
          ctx2 = cs_base64_emit_code ctx1 (sextet2 a b);
          ctx3 = (if chunk_size ctx > 1 then cs_base64_emit_code ctx2 (sextet3 b c) else ctx2)
      in if chunk_size ctx > 2 then cs_base64_emit_code ctx3 (sextet4 c) else ctx3)"

text \<open>The members of a new context that \<open>cs_base64_init\<close> leaves uninitialised are \<open>junk\<close>.\<close>

definition cs_base64_init :: "byte list \<Rightarrow> cs_base64_ctx" where
  "cs_base64_init junk = \<lparr>chunk = junk, chunk_size = 0, putc = []\<rparr>"

fun cs_base64_update :: "cs_base64_ctx \<Rightarrow> byte list \<Rightarrow> cs_base64_ctx option" where
  "cs_base64_update ctx [] = Some ctx"
| "cs_base64_update ctx (x # src) = do {
     ch \<leftarrow> wr (chunk ctx) (int (chunk_size ctx)) x;
     let ctx1 = ctx\<lparr>chunk := ch, chunk_size := chunk_size ctx + 1\<rparr>;
     cs_base64_update
       (if chunk_size ctx1 = 3 then (cs_base64_emit_chunk ctx1)\<lparr>chunk_size := 0\<rparr> else ctx1) src }"

definition cs_base64_finish :: "cs_base64_ctx \<Rightarrow> cs_base64_ctx option" where
  "cs_base64_finish ctx =
     (if chunk_size ctx > 0 then do {
        ch \<leftarrow> blit (chunk ctx) (chunk_size ctx) (replicate (3 - chunk_size ctx) 0);
        let ctx1 = cs_base64_emit_chunk (ctx\<lparr>chunk := ch\<rparr>);
        Some (ctx1\<lparr>putc := putc ctx1 @ replicate (3 - chunk_size ctx) 61\<rparr>) }
      else Some ctx)"

text \<open>The pieces of a message given one after the other.\<close>

fun base64_pieces :: "cs_base64_ctx \<Rightarrow> byte list list \<Rightarrow> byte list option" where
  "base64_pieces ctx [] = do { ctx' \<leftarrow> cs_base64_finish ctx; Some (putc ctx') }"
| "base64_pieces ctx (p # ps) = do { ctx' \<leftarrow> cs_base64_update ctx p; base64_pieces ctx' ps }"

definition b64 :: "byte list" where
  "b64 = map of_char ''ABCDEFGHIJKLMNOPQRSTUVWXYZabcdefghijklmnopqrstuvwxyz0123456789+/''"

text \<open>The body shared by the encoders; \<open>out\<close> is what \<open>BASE64_OUT\<close> has written, \<open>j\<close> its length.\<close>

function encode_body :: "byte list \<Rightarrow> nat \<Rightarrow> byte list \<Rightarrow> byte list" where
  "encode_body src i out =
     (if i < length src then
        (let a = src ! i;
             b = (if i + 1 \<ge> length src then 0 else src ! (i + 1));
             c = (if i + 2 \<ge> length src then 0 else src ! (i + 2));
             out1 = out @ [b64 ! nat (sextet1 a), b64 ! nat (sextet2 a b)];
             out2 = (if i + 1 < length src then out1 @ [b64 ! nat (sextet3 b c)] else out1);
             out3 = (if i + 2 < length src then out2 @ [b64 ! nat (sextet4 c)] else out2)
         in encode_body src (i + 3) out3)
      else out)"
  by pat_completeness auto
termination by (relation "measure (\<lambda>(src, i, out). length src - i)") auto

declare encode_body.simps [simp del]

function encode_fill :: "byte list \<Rightarrow> byte list" where
  "encode_fill out = (if length out mod 4 \<noteq> 0 then encode_fill (out @ [61]) else out)"
  by pat_completeness auto
termination
proof (relation "measure (\<lambda>out. 3 - (length out + 3) mod 4)")
  fix out :: "byte list"
  assume a: "length out mod 4 \<noteq> 0"
  define q r where "q = length out div 4" and "r = length out mod 4"
  have "length out = 4 * q + r" "r \<in> {1, 2, 3}"
    using a pos_mod_bound [of 4 "int (length out)"] by (auto simp: q_def r_def)
  then show "(out @ [61], out) \<in> measure (\<lambda>out. 3 - (length out + 3) mod 4)" by (auto simp: mod_Suc)
qed simp

declare encode_fill.simps [simp del]

definition cs_fprint_base64 :: "byte list \<Rightarrow> byte list" where
  "cs_fprint_base64 src = encode_fill (encode_body src 0 [])"

definition cs_base64_encode :: "byte list \<Rightarrow> byte list \<Rightarrow> byte list option" where
  "cs_base64_encode src dst = blit dst 0 (encode_fill (encode_body src 0 []) @ [0])"

definition b64_tab :: "byte list" where
  "b64_tab = replicate 43 255 @ [62, 255, 255, 255, 63, 52, 53, 54, 55, 56, 57, 58, 59, 60, 61, 255, 255, 255, 200,
     255, 255, 255, 0, 1, 2, 3, 4, 5, 6, 7, 8, 9, 10, 11, 12, 13, 14, 15, 16, 17, 18, 19, 20, 21, 22, 23, 24, 25,
     255, 255, 255, 255, 255, 255, 26, 27, 28, 29, 30, 31, 32, 33, 34, 35, 36, 37, 38, 39, 40, 41, 42, 43, 44,
     45, 46, 47, 48, 49, 50, 51, 255, 255, 255, 255, 255]"

definition from_b64 :: "byte \<Rightarrow> byte" where
  "from_b64 ch = b64_tab ! unat (ch AND 127)"

text \<open>The bytes stored by the loop of the decoder, and the number of characters it has read.\<close>

fun decode_loop :: "byte list \<Rightarrow> byte list \<times> nat" where
  "decode_loop (s0 # s1 # s2 # s3 # s) =
     (let a = from_b64 s0; b = from_b64 s1; c = from_b64 s2; d = from_b64 s3 in
      if a \<noteq> 255 \<and> b \<noteq> 255 \<and> c \<noteq> 255 \<and> d \<noteq> 255 then
        (if a = 200 \<or> b = 200 then ([], 4)
         else if c = 200 then ([push_bit 2 a OR drop_bit 4 b], 4)
         else if d = 200 then ([push_bit 2 a OR drop_bit 4 b, push_bit 4 b OR drop_bit 2 c], 4)
         else (let (dst, len) = decode_loop s in
           ([push_bit 2 a OR drop_bit 4 b, push_bit 4 b OR drop_bit 2 c, push_bit 6 c OR d] @ dst, 4 + len)))
      else ([], 0))"
| "decode_loop s = ([], 0)"

text \<open>The result, \<open>dec_len\<close> and the destination.\<close>

definition cs_base64_decode :: "byte list \<Rightarrow> byte list \<Rightarrow> (nat \<times> nat \<times> byte list) option" where
  "cs_base64_decode s dst =
     (let (out, len) = decode_loop s in do { dst' \<leftarrow> blit dst 0 (out @ [0]); Some (len, length out, dst') })"

section \<open>The code\<close>

text \<open>Base64 by groups of three bytes.\<close>

definition code :: "int \<Rightarrow> byte" where
  "code v = b64 ! nat v"

fun base64 :: "byte list \<Rightarrow> byte list" where
  "base64 [] = []"
| "base64 [a] = [code (sextet1 a), code (sextet2 a 0), 61, 61]"
| "base64 [a, b] = [code (sextet1 a), code (sextet2 a b), code (sextet3 b 0), 61]"
| "base64 (a # b # c # r) =
     [code (sextet1 a), code (sextet2 a b), code (sextet3 b c), code (sextet4 c)] @ base64 r"

lemma byte_eqI:
  assumes "bit a 0 = bit b 0" "bit a 1 = bit b 1" "bit a 2 = bit b 2" "bit a 3 = bit b 3"
    "bit a 4 = bit b 4" "bit a 5 = bit b 5" "bit a 6 = bit b 6" "bit a 7 = bit b 7"
  shows "a = (b :: byte)"
proof (rule bit_word_eqI)
  fix n assume "n < LENGTH(8)"
  then have "n \<in> {0, 1, 2, 3, 4, 5, 6, 7}" by auto
  then show "bit a n = bit b n" using assms by auto
qed

lemma bit_byte_out [simp]: "8 \<le> n \<Longrightarrow> \<not> bit (x :: byte) n"
  using bit_imp_le_length [of x n] by auto

lemma int_masks: "(3 :: int) = mask 2" "(15 :: int) = mask 4" "(63 :: int) = mask 6"
  by (simp_all add: mask_eq_exp_minus_1)

lemma sextet_6:
  "sextet1 a = take_bit 6 (sextet1 a)" "sextet2 a b = take_bit 6 (sextet2 a b)"
  "sextet3 a b = take_bit 6 (sextet3 a b)" "sextet4 a = take_bit 6 (sextet4 a)"
  unfolding sextet_defs int_masks by (rule bit_eqI; auto simp: bit_simps dest: bit_imp_le_length)+

lemma sextet_range:
  "0 \<le> sextet1 a \<and> sextet1 a < 64" "0 \<le> sextet2 a b \<and> sextet2 a b < 64"
  "0 \<le> sextet3 a b \<and> sextet3 a b < 64" "0 \<le> sextet4 a \<and> sextet4 a < 64"
  using take_bit_nonnegative [of 6 "sextet1 a"] take_bit_int_less_exp [of 6 "sextet1 a"]
    take_bit_nonnegative [of 6 "sextet2 a b"] take_bit_int_less_exp [of 6 "sextet2 a b"]
    take_bit_nonnegative [of 6 "sextet3 a b"] take_bit_int_less_exp [of 6 "sextet3 a b"]
    take_bit_nonnegative [of 6 "sextet4 a"] take_bit_int_less_exp [of 6 "sextet4 a"]
  by (simp_all flip: sextet_6)

lemma code_table:
  assumes "0 \<le> v \<and> v < 64"
  shows "code v = (if v < 26 then word_of_int (v + 65)
      else if v < 52 then word_of_int (v - 26 + 97)
      else if v < 62 then word_of_int (v - 52 + 48)
      else if v - 52 - 10 = 0 then 43 else 47) \<and> from_b64 (code v) = word_of_int v"
proof -
  have "\<forall>v \<in> set [0..63]. code v = (if v < 26 then word_of_int (v + 65)
      else if v < 52 then word_of_int (v - 26 + 97)
      else if v < 62 then word_of_int (v - 52 + 48)
      else if v - 52 - 10 = 0 then 43 else 47) \<and> from_b64 (code v) = word_of_int v"
    by code_simp
  moreover have "v \<in> set [0..63]" using assms by auto
  ultimately show ?thesis by blast
qed

lemma emit_code [simp]: "0 \<le> v \<and> v < 64 \<Longrightarrow> cs_base64_emit_code ctx v = ctx\<lparr>putc := putc ctx @ [code v]\<rparr>"
  using code_table [of v] by (simp add: cs_base64_emit_code_def)

section \<open>The encoders\<close>

text \<open>A context that has been fed \<open>m\<close> holds the bytes of the last incomplete group.\<close>

definition absorbed_b64 :: "byte list \<Rightarrow> cs_base64_ctx \<Rightarrow> bool" where
  "absorbed_b64 m ctx \<longleftrightarrow> length (chunk ctx) = 3 \<and> chunk_size ctx < 3 \<and>
     (\<exists>g. m = g @ take (chunk_size ctx) (chunk ctx) \<and> length g mod 3 = 0 \<and> putc ctx = base64 g)"

lemma base64_append: "length g mod 3 = 0 \<Longrightarrow> base64 (g @ r) = base64 g @ base64 r"
proof (induction g rule: base64.induct)
  case (4 a b c g)
  then have "length g mod 3 = 0" by simp
  then show ?case using "4.IH" by simp
qed simp_all

lemma emit_chunk_eq:
  "cs_base64_emit_chunk ctx = ctx\<lparr>putc := putc ctx @
     [code (sextet1 (chunk ctx ! 0)), code (sextet2 (chunk ctx ! 0) (chunk ctx ! 1))] @
     (if chunk_size ctx > 1 then [code (sextet3 (chunk ctx ! 1) (chunk ctx ! 2))] else []) @
     (if chunk_size ctx > 2 then [code (sextet4 (chunk ctx ! 2))] else [])\<rparr>"
  by (simp add: cs_base64_emit_chunk_def Let_def sextet_range)

lemma three_cells: "length xs = 3 \<longleftrightarrow> (\<exists>a b c. xs = [a, b, c])"
  by (auto simp: numeral_3_eq_3 length_Suc_conv)

lemma base64_update_one:
  assumes "absorbed_b64 m ctx"
  shows "\<exists>ctx'. cs_base64_update ctx [x] = Some ctx' \<and> absorbed_b64 (m @ [x]) ctx'"
proof -
  obtain a b c where ch: "chunk ctx = [a, b, c]" using assms by (auto simp: absorbed_b64_def three_cells)
  obtain g where g: "m = g @ take (chunk_size ctx) (chunk ctx)" "length g mod 3 = 0" "putc ctx = base64 g"
    using assms by (auto simp: absorbed_b64_def)
  have "chunk_size ctx < 3" using assms by (simp add: absorbed_b64_def)
  then consider "chunk_size ctx = 0" | "chunk_size ctx = 1" | "chunk_size ctx = 2" by linarith
  then show ?thesis
  proof cases
    case 3
    then have "absorbed_b64 (m @ [x]) (ctx\<lparr>chunk := [a, b, x], putc := base64 (g @ [a, b, x]), chunk_size := 0\<rparr>)"
      using g(1,2) ch by (auto simp: absorbed_b64_def intro!: exI [of _ "g @ [a, b, x]"])
    then show ?thesis using 3 ch g by (simp add: wr_def emit_chunk_eq base64_append)
  qed (use g ch in \<open>simp_all add: wr_def absorbed_b64_def\<close>)
qed

lemma base64_update_append:
  "cs_base64_update ctx (s @ t) = cs_base64_update ctx s \<bind> (\<lambda>ctx'. cs_base64_update ctx' t)"
  by (induction ctx s rule: cs_base64_update.induct) (auto split: bind_splits simp: Let_def)

lemma base64_update_spec:
  "absorbed_b64 m ctx \<Longrightarrow> \<exists>ctx'. cs_base64_update ctx s = Some ctx' \<and> absorbed_b64 (m @ s) ctx'"
proof (induction s arbitrary: m ctx)
  case (Cons x s)
  obtain ctx1 where 1: "cs_base64_update ctx [x] = Some ctx1" "absorbed_b64 (m @ [x]) ctx1"
    using base64_update_one [OF Cons.prems] by blast
  then show ?case using Cons.IH [OF 1(2)] base64_update_append [of ctx "[x]" s] by simp
qed simp

lemma base64_finish_spec:
  assumes "absorbed_b64 m ctx"
  shows "\<exists>ctx'. cs_base64_finish ctx = Some ctx' \<and> putc ctx' = base64 m"
proof -
  obtain a b c where ch: "chunk ctx = [a, b, c]" using assms by (auto simp: absorbed_b64_def three_cells)
  obtain g where g: "m = g @ take (chunk_size ctx) (chunk ctx)" "length g mod 3 = 0" "putc ctx = base64 g"
    using assms by (auto simp: absorbed_b64_def)
  have "chunk_size ctx < 3" using assms by (simp add: absorbed_b64_def)
  then consider "chunk_size ctx = 0" | "chunk_size ctx = 1" | "chunk_size ctx = 2" by linarith
  then show ?thesis
    by cases (use g ch in \<open>simp_all add: cs_base64_finish_def blit_def numeral_2_eq_2 emit_chunk_eq base64_append\<close>)
qed

lemma base64_pieces_spec: "absorbed_b64 m ctx \<Longrightarrow> base64_pieces ctx ps = Some (base64 (m @ concat ps))"
proof (induction ps arbitrary: m ctx)
  case Nil
  then show ?case using base64_finish_spec by fastforce
next
  case (Cons p ps)
  obtain ctx1 where 1: "cs_base64_update ctx p = Some ctx1" "absorbed_b64 (m @ p) ctx1"
    using base64_update_spec [OF Cons.prems] by blast
  then show ?case using Cons.IH [OF 1(2)] by simp
qed

lemma absorbed_b64_init: "length junk = 3 \<Longrightarrow> absorbed_b64 [] (cs_base64_init junk)"
  by (simp add: absorbed_b64_def cs_base64_init_def)

lemma length_base64: "length (base64 s) = 4 * ((length s + 2) div 3)"
proof (induction s rule: base64.induct)
  case (4 a b c r)
  have "(Suc (Suc (Suc n)) + 2) div 3 = Suc ((n + 2) div 3)" for n :: nat by simp
  then show ?case using 4 by simp
qed simp_all

text \<open>The codes of a message before the padding.\<close>

definition unpadded :: "byte list \<Rightarrow> byte list" where
  "unpadded s = take ((4 * length s + 2) div 3) (base64 s)"

lemma unpadded_simps:
  "unpadded [] = []"
  "unpadded [a] = [code (sextet1 a), code (sextet2 a 0)]"
  "unpadded [a, b] = [code (sextet1 a), code (sextet2 a b), code (sextet3 b 0)]"
  "unpadded (a # b # c # r) = [code (sextet1 a), code (sextet2 a b), code (sextet3 b c), code (sextet4 c)] @ unpadded r"
proof -
  have "(4 * Suc (Suc (Suc n)) + 2) div 3 = Suc (Suc (Suc (Suc ((4 * n + 2) div 3))))" for n by simp
  then show "unpadded (a # b # c # r) =
      [code (sextet1 a), code (sextet2 a b), code (sextet3 b c), code (sextet4 c)] @ unpadded r"
    unfolding unpadded_def by simp
qed (simp_all add: unpadded_def)

lemma encode_body_spec: "encode_body src i out = out @ unpadded (drop i src)"
proof (induction "length src - i" arbitrary: i out rule: less_induct)
  case less
  show ?case
  proof (cases "i < length src")
    case False
    then show ?thesis by (subst encode_body.simps) (simp add: unpadded_simps)
  next
    case True
    define r where "r = drop i src"
    have nth: "src ! i = r ! 0" "1 < length r \<Longrightarrow> src ! Suc i = r ! 1" "2 < length r \<Longrightarrow> src ! Suc (Suc i) = r ! 2"
      using True by (simp_all add: r_def)
    have len: "length src = i + length r" using True by (simp add: r_def)
    have ih: "encode_body src (i + 3) out' = out' @ unpadded (drop 3 r)" for out'
      using less [of "i + 3" out'] True by (simp add: r_def add.commute)
    have "r \<noteq> []" using True by (simp add: r_def)
    then consider a where "r = [a]" | a b where "r = [a, b]" | a b c r' where "r = a # b # c # r'"
      by (cases r rule: base64.cases) auto
    then show ?thesis
      by cases (subst encode_body.simps, simp add: Let_def ih nth len unpadded_simps code_def flip: r_def)+
  qed
qed

lemma encode_fill_spec:
  "encode_fill (unpadded s) = base64 s"
proof (induction s rule: base64.induct)
  case 1
  then show ?case by (subst encode_fill.simps) (simp add: unpadded_simps)
next
  case (2 a)
  then show ?case by (subst encode_fill.simps, subst encode_fill.simps, subst encode_fill.simps) (simp add: unpadded_simps)
next
  case (3 a b)
  then show ?case by (subst encode_fill.simps, subst encode_fill.simps) (simp add: unpadded_simps)
next
  case (4 a b c r)
  have "encode_fill (xs @ ys) = xs @ encode_fill ys" if "length xs = 4" for xs ys
    using that
  proof (induction ys rule: encode_fill.induct)
    case (1 ys)
    then show ?case by (subst (1 2) encode_fill.simps) (simp add: mod_add_self1)
  qed
  from this [of "[code (sextet1 a), code (sextet2 a b), code (sextet3 b c), code (sextet4 c)]"]
  show ?case using 4 by (simp add: unpadded_simps)
qed

text \<open>The three encoders agree.  A message fed in pieces of any size, also empty ones, gives the same
  characters as the whole message written to a file or to a buffer with room for four characters for each
  started group of three bytes and a final zero.\<close>

theorem base64_encoders_agree:
  assumes "length junk = 3" "4 * ((length (concat ps) + 2) div 3) < length dst"
  shows "base64_pieces (cs_base64_init junk) ps = Some (cs_fprint_base64 (concat ps)) \<and>
    cs_base64_encode (concat ps) dst =
      Some (cs_fprint_base64 (concat ps) @ 0 # drop (4 * ((length (concat ps) + 2) div 3) + 1) dst)"
proof -
  have "encode_fill (encode_body s 0 []) = base64 s" for s by (simp add: encode_body_spec encode_fill_spec)
  then show ?thesis
    using base64_pieces_spec [OF absorbed_b64_init [OF assms(1)], of ps] assms(2)
    by (simp add: cs_fprint_base64_def cs_base64_encode_def blit_in length_base64)
qed

theorem base64_encoders_agree_witness:
  "base64_pieces (cs_base64_init [1, 2, 3]) [[77], [], [97, 110, 111]] = Some (cs_fprint_base64 [77, 97, 110, 111]) \<and>
    cs_base64_encode [77, 97, 110, 111] [7, 7, 7, 7, 7, 7, 7, 7, 7, 7] = Some (cs_fprint_base64 [77, 97, 110, 111] @ [0, 7])"
  using base64_encoders_agree [of "[1, 2, 3]" "[[77], [], [97, 110, 111]]" "[7, 7, 7, 7, 7, 7, 7, 7, 7, 7]"]
  by (simp del: base64_pieces.simps)

section \<open>The decoder\<close>

lemma sextets_join:
  "push_bit 2 (word_of_int (sextet1 a)) OR drop_bit 4 (word_of_int (sextet2 a b)) = a"
  "push_bit 4 (word_of_int (sextet2 a b)) OR drop_bit 2 (word_of_int (sextet3 b c)) = b"
  "push_bit 6 (word_of_int (sextet3 b c)) OR word_of_int (sextet4 c) = c"
  unfolding sextet_defs int_masks by (rule byte_eqI; simp add: bit_simps)+

lemma sextet_plain:
  assumes "0 \<le> v \<and> v < 64"
  shows "from_b64 (code v) = word_of_int v" "from_b64 (code v) \<noteq> 255" "from_b64 (code v) \<noteq> 200"
    "(word_of_int v :: byte) \<noteq> 255" "(word_of_int v :: byte) \<noteq> 200"
proof -
  have u: "uint (word_of_int v :: byte) = v" using assms by (simp add: uint_word_of_int)
  then show n: "(word_of_int v :: byte) \<noteq> 255" "(word_of_int v :: byte) \<noteq> 200" using assms by auto
  show c: "from_b64 (code v) = word_of_int v" using code_table [OF assms] by blast
  show "from_b64 (code v) \<noteq> 255" "from_b64 (code v) \<noteq> 200" unfolding c by (rule n)+
qed

lemma from_b64_pad: "from_b64 61 = 200"
  by code_simp

lemma decode_base64: "decode_loop (base64 s) = (s, length (base64 s))"
  by (induction s rule: base64.induct)
    (simp_all add: Let_def sextet_plain sextet_range from_b64_pad sextets_join)

text \<open>C25: the decoder inverts the encoders.  Whatever bytes have been encoded, the decoder reads all the
  characters and stores these bytes and a zero.\<close>

theorem base64_roundtrip:
  assumes "length src < length dst"
  shows "cs_base64_decode (cs_fprint_base64 src) dst =
    Some (length (cs_fprint_base64 src), length src, src @ 0 # drop (length src + 1) dst)"
  using assms
  by (simp add: cs_base64_decode_def cs_fprint_base64_def encode_body_spec encode_fill_spec decode_base64 blit_in)

theorem base64_roundtrip_witness:
  "cs_base64_decode (cs_fprint_base64 [0, 255, 128, 7]) [1, 1, 1, 1, 1, 1] =
    Some (length (cs_fprint_base64 [0, 255, 128, 7]), 4, [0, 255, 128, 7, 0, 1])"
  using base64_roundtrip [of "[0, 255, 128, 7]" "[1, 1, 1, 1, 1, 1]"] by simp

text \<open>The look-up ignores the high bit of a character: a byte that is not in the base64 alphabet is read as
  the one with the same low bits.\<close>

theorem from_b64_high_bit: "from_b64 (c OR 128) = from_b64 c"
proof -
  have "(c OR 128) AND 127 = c AND (127 :: byte)" by (rule byte_eqI; simp add: bit_simps)
  then show ?thesis by (simp add: from_b64_def)
qed

end
