(* ===== verification/Mg_Mbuf.thy ===== *)
theory Mg_Mbuf
  imports Mongoose
begin

text \<open>
  The growing buffers and the counted strings of \<open>c++/utils/web_server/common/mongoose.cc\<close>.  A \<open>mbuf\<close> is the
  list of its allocated cells, whose length is the member \<open>size\<close>, and the number of cells in use.
  \<open>realloc\<close> is a function of a \<open>heap\<close>: what is found in fresh cells, and the largest array that can be
  had.  Two things of \<open>mbuf_insert\<close> are not in the model: the test whether the address of the buffer plus the length
  passes the end of the address space, which is false for memory that exists, and the rounding of
  \<open>(len + n) * 1.5\<close>, which is exact below \<open>2 ^ 52\<close>.  An assertion that fails is \<open>None\<close>.
\<close>

section \<open>Definitions\<close>

record heap_state =
  fresh_byte :: "nat \<Rightarrow> byte"
  largest :: nat

definition MBUF_REALLOC :: "heap_state \<Rightarrow> byte list \<Rightarrow> nat \<Rightarrow> byte list option" where
  "MBUF_REALLOC hp b n =
     (if n \<le> largest hp then Some (take n b @ map (fresh_byte hp) [length b..<n]) else None)"

record mbuf =
  buf :: "byte list"
  len :: nat

definition mbuf_size :: "mbuf \<Rightarrow> nat" where
  "mbuf_size a = length (buf a)"

definition mbuf_resize :: "heap_state \<Rightarrow> mbuf \<Rightarrow> nat \<Rightarrow> mbuf" where
  "mbuf_resize hp a new_size =
     (if new_size > mbuf_size a \<or> (new_size < mbuf_size a \<and> new_size \<ge> len a) then
        (case MBUF_REALLOC hp (buf a) new_size of
           None \<Rightarrow> a
         | Some b \<Rightarrow> a\<lparr>buf := b\<rparr>)
      else a)"

definition mbuf_init :: "heap_state \<Rightarrow> nat \<Rightarrow> mbuf" where
  "mbuf_init hp initial_size = mbuf_resize hp \<lparr>buf = [], len = 0\<rparr> initial_size"

definition mbuf_free :: "heap_state \<Rightarrow> mbuf \<Rightarrow> mbuf" where
  "mbuf_free hp a = (if buf a \<noteq> [] then mbuf_init hp 0 else a)"

definition mbuf_trim :: "heap_state \<Rightarrow> mbuf \<Rightarrow> mbuf" where
  "mbuf_trim hp a = mbuf_resize hp a (len a)"

text \<open>\<open>memmove\<close> of \<open>n\<close> cells from index \<open>src\<close> to index \<open>dst\<close>.\<close>

definition memmove :: "byte list \<Rightarrow> nat \<Rightarrow> nat \<Rightarrow> nat \<Rightarrow> byte list option" where
  "memmove b dst src n = do { cells \<leftarrow> slice b src n; blit b dst cells }"

text \<open>The new bytes are \<open>Some bs\<close>, or \<open>None\<close> for a null pointer, which leaves a gap of \<open>n\<close> cells.  The
  result is the buffer and the number of bytes inserted.\<close>

definition mbuf_insert :: "heap_state \<Rightarrow> mbuf \<Rightarrow> nat \<Rightarrow> byte list option \<Rightarrow> nat \<Rightarrow> (mbuf \<times> nat) option" where
  "mbuf_insert hp a off bs n =
     (if len a \<le> mbuf_size a \<and> off \<le> len a then
        (let fill = (\<lambda>b. do {
           b1 \<leftarrow> memmove b (off + n) off (len a - off);
           (case bs of Some s \<Rightarrow> blit b1 off (take n s) | None \<Rightarrow> Some b1) })
         in
         if len a + n \<le> mbuf_size a then do {
           b \<leftarrow> fill (buf a);
           Some (\<lparr>buf = b, len = len a + n\<rparr>, n) }
         else
           (case MBUF_REALLOC hp (buf a) ((len a + n) * 3 div 2) of
              Some p \<Rightarrow> do {
                b \<leftarrow> fill p;
                Some (\<lparr>buf = b, len = len a + n\<rparr>, n) }
            | None \<Rightarrow> Some (a, 0)))
      else None)"

definition mbuf_append :: "heap_state \<Rightarrow> mbuf \<Rightarrow> byte list \<Rightarrow> (mbuf \<times> nat) option" where
  "mbuf_append hp a bs = mbuf_insert hp a (len a) (Some bs) (length bs)"

definition mbuf_remove :: "mbuf \<Rightarrow> nat \<Rightarrow> mbuf option" where
  "mbuf_remove mb n =
     (if n > 0 \<and> n \<le> len mb then do {
        b \<leftarrow> memmove (buf mb) 0 n (len mb - n);
        Some (mb\<lparr>buf := b, len := len mb - n\<rparr>) }
      else Some mb)"

definition mg_vcasecmp :: "byte list \<Rightarrow> byte list \<Rightarrow> int option" where
  "mg_vcasecmp str1 str2 = do {
     let n2 = length str2;
     let n1 = length str1;
     r \<leftarrow> mg_ncasecmp str1 str2 (if n1 < n2 then n1 else n2);
     Some (if r = 0 then int n1 - int n2 else r) }"

text \<open>A string that does not fit into the memory is not copied.\<close>

definition mg_strdup :: "heap_state \<Rightarrow> byte list \<Rightarrow> byte list" where
  "mg_strdup hp s =
     (if length s > 0 then (case MBUF_REALLOC hp [] (length s) of Some p \<Rightarrow> s | None \<Rightarrow> []) else [])"

text \<open>The characters are signed.\<close>

fun mg_strcmp :: "byte list \<Rightarrow> byte list \<Rightarrow> int" where
  "mg_strcmp (a # s) (b # t) =
     (if sint a < sint b then - 1 else if sint a > sint b then 1 else mg_strcmp s t)"
| "mg_strcmp (a # s) [] = 1"
| "mg_strcmp [] (b # t) = - 1"
| "mg_strcmp [] [] = 0"

definition mg_strncmp :: "byte list \<Rightarrow> byte list \<Rightarrow> nat \<Rightarrow> int" where
  "mg_strncmp str1 str2 n =
     (let s1 = (if length str1 > n then take n str1 else str1);
          s2 = (if length str2 > n then take n str2 else str2)
      in mg_strcmp s1 s2)"

section \<open>Buffers\<close>

text \<open>What a buffer stands for: the bytes in use.\<close>

definition in_use :: "mbuf \<Rightarrow> byte list" where
  "in_use a = take (len a) (buf a)"

definition mbuf_ok :: "mbuf \<Rightarrow> bool" where
  "mbuf_ok a \<longleftrightarrow> len a \<le> length (buf a)"

text \<open>The contract of a buffer that its users rely on: it stands for a sequence of bytes, to which bytes are
  appended, unless memory is short, and from whose front bytes are removed.\<close>

locale byte_queue =
  fixes ok :: "'b \<Rightarrow> bool" and bytes :: "'b \<Rightarrow> byte list"
    and append :: "'b \<Rightarrow> byte list \<Rightarrow> ('b \<times> nat) option" and remove :: "'b \<Rightarrow> nat \<Rightarrow> 'b option"
  assumes append_law: "ok a \<Longrightarrow> \<exists>a' k. append a s = Some (a', k) \<and> ok a' \<and>
      (k = length s \<and> bytes a' = bytes a @ s \<or> k = 0 \<and> a' = a)"
    and remove_law: "ok a \<Longrightarrow> n \<le> length (bytes a) \<Longrightarrow>
      \<exists>a'. remove a n = Some a' \<and> ok a' \<and> bytes a' = drop n (bytes a)"
begin

text \<open>Appending pieces until one does not fit.\<close>

fun append_all :: "'b \<Rightarrow> byte list list \<Rightarrow> ('b \<times> bool) option" where
  "append_all a [] = Some (a, True)"
| "append_all a (s # ss) = do {
     (a', k) \<leftarrow> append a s;
     if k = length s then append_all a' ss else Some (a', False) }"

lemma append_all_bytes:
  "ok a \<Longrightarrow> \<exists>a' whole done. append_all a ss = Some (a', whole) \<and> ok a' \<and>
    bytes a' = bytes a @ concat (take done ss) \<and> (whole \<longrightarrow> done = length ss)"
proof (induction ss arbitrary: a)
  case (Cons s ss)
  obtain a1 k where 1: "append a s = Some (a1, k)" "ok a1"
      "k = length s \<and> bytes a1 = bytes a @ s \<or> k = 0 \<and> a1 = a"
    using append_law [OF Cons.prems] by blast
  show ?case
  proof (cases "k = length s")
    case True
    then have b: "bytes a1 = bytes a @ s" using 1(3) by auto
    obtain a' whole d where "append_all a1 ss = Some (a', whole)" "ok a'"
        "bytes a' = bytes a1 @ concat (take d ss)" "whole \<longrightarrow> d = length ss"
      using Cons.IH [OF 1(2)] by blast
    then show ?thesis using 1(1) True b by (intro exI [of _ a'] exI [of _ whole] exI [of _ "Suc d"]) simp
  next
    case False
    then show ?thesis using 1 Cons.prems by (intro exI [of _ a1] exI [of _ False] exI [of _ 0]) auto
  qed
qed auto

lemma append_remove:
  assumes "ok a" "append a s = Some (a1, length s)" "s \<noteq> []"
  shows "\<exists>a2. remove a1 (length (bytes a)) = Some a2 \<and> ok a2 \<and> bytes a2 = s"
proof -
  have "ok a1" "bytes a1 = bytes a @ s" using append_law [OF assms(1), of s] assms(2,3) by auto
  then show ?thesis using remove_law [of a1 "length (bytes a)"] by simp
qed

end

lemma length_realloc: "MBUF_REALLOC hp b n = Some b' \<Longrightarrow> length b' = n"
  by (auto simp: MBUF_REALLOC_def split: if_splits)

lemma take_realloc: "MBUF_REALLOC hp b n = Some b' \<Longrightarrow> k \<le> length b \<Longrightarrow> k \<le> n \<Longrightarrow> take k b' = take k b"
  by (auto simp: MBUF_REALLOC_def min_def split: if_splits)

lemma length_in_use [simp]: "mbuf_ok a \<Longrightarrow> length (in_use a) = len a"
  by (simp add: in_use_def mbuf_ok_def)

lemma memmove_in:
  assumes "src + n \<le> length b" "dst + n \<le> length b"
  shows "memmove b dst src n = Some (take dst b @ take n (drop src b) @ drop (dst + n) b)"
  using assms by (simp add: memmove_def slice_in blit_in)

lemma insert_cells:
  assumes "off \<le> l" "l + n \<le> length b" "length s = n"
  shows "memmove b (off + n) off (l - off) \<bind> (\<lambda>b1. blit b1 off s) =
    Some (take off b @ s @ take (l - off) (drop off b) @ drop (l + n) b)"
  using assms by (simp add: memmove_in blit_in add.commute)

lemma mbuf_insert_spec:
  assumes "mbuf_ok a" "off \<le> len a"
  shows "\<exists>a' k. mbuf_insert hp a off (Some s) (length s) = Some (a', k) \<and> mbuf_ok a' \<and>
    (k = length s \<and> in_use a' = take off (in_use a) @ s @ drop off (in_use a) \<or> k = 0 \<and> a' = a)"
proof -
  let ?cells = "\<lambda>b. take off b @ s @ take (len a - off) (drop off b) @ drop (len a + length s) b"
  have fill: "memmove b (off + length s) off (len a - off) \<bind> (\<lambda>b1. blit b1 off s) = Some (?cells b) \<and>
      in_use \<lparr>buf = ?cells b, len = len a + length s\<rparr> = take off (in_use a) @ s @ drop off (in_use a) \<and>
      mbuf_ok \<lparr>buf = ?cells b, len = len a + length s\<rparr>"
    if "len a + length s \<le> length b" "take (len a) b = take (len a) (buf a)" for b
  proof -
    have "take off (in_use a) = take off b" "drop off (in_use a) = take (len a - off) (drop off b)"
      using assms(2) by (simp_all add: in_use_def drop_take min_def flip: that(2))
    then show ?thesis using insert_cells [OF assms(2) that(1)] that(1) assms(2) by (simp add: in_use_def mbuf_ok_def)
  qed
  have asserted: "len a \<le> mbuf_size a \<and> off \<le> len a" using assms by (simp add: mbuf_ok_def mbuf_size_def)
  show ?thesis
  proof (cases "len a + length s \<le> mbuf_size a")
    case True
    then show ?thesis using fill [of "buf a"] asserted
      by (simp add: mbuf_insert_def mbuf_size_def Let_def del: memmove_def)
  next
    case False
    show ?thesis
    proof (cases "MBUF_REALLOC hp (buf a) ((len a + length s) * 3 div 2)")
      case None
      then show ?thesis using False asserted assms by (simp add: mbuf_insert_def Let_def)
    next
      case (Some p)
      have l: "len a + length s \<le> length p" using length_realloc [OF Some] by simp
      have "take (len a) p = take (len a) (buf a)"
        using take_realloc [OF Some, of "len a"] asserted by (simp add: mbuf_size_def)
      from fill [OF l this] show ?thesis using False Some asserted
        by (simp add: mbuf_insert_def Let_def)
    qed
  qed
qed

lemma mbuf_remove_spec:
  assumes "mbuf_ok a"
  shows "\<exists>a'. mbuf_remove a n = Some a' \<and> mbuf_ok a' \<and>
    in_use a' = (if n \<le> len a then drop n (in_use a) else in_use a)"
proof (cases "0 < n \<and> n \<le> len a")
  case True
  then show ?thesis using assms
    by (simp add: mbuf_remove_def memmove_in mbuf_ok_def in_use_def drop_take)
next
  case False
  then show ?thesis using assms by (auto simp: mbuf_remove_def)
qed

lemma mbuf_resize_spec:
  assumes "mbuf_ok a"
  shows "mbuf_ok (mbuf_resize hp a n) \<and> in_use (mbuf_resize hp a n) = in_use a"
proof (cases "MBUF_REALLOC hp (buf a) n")
  case (Some b)
  then show ?thesis using assms length_realloc [OF Some] take_realloc [OF Some, of "len a"]
    by (auto simp: mbuf_resize_def mbuf_ok_def in_use_def mbuf_size_def)
qed (use assms in \<open>simp add: mbuf_resize_def\<close>)

interpretation mb: byte_queue mbuf_ok in_use "mbuf_append hp" mbuf_remove for hp
proof
  show "\<exists>a' k. mbuf_append hp a s = Some (a', k) \<and> mbuf_ok a' \<and>
      (k = length s \<and> in_use a' = in_use a @ s \<or> k = 0 \<and> a' = a)" if "mbuf_ok a" for a s
    using mbuf_insert_spec [OF that, of "len a" hp s] that by (simp add: mbuf_append_def)
  show "\<exists>a'. mbuf_remove a n = Some a' \<and> mbuf_ok a' \<and> in_use a' = drop n (in_use a)"
    if "mbuf_ok a" "n \<le> length (in_use a)" for a n
    using mbuf_remove_spec [OF that(1), of n] that by simp
qed

text \<open>A sequence of operations on one buffer.\<close>

datatype mbuf_op = Insert nat "byte list" | Append "byte list" | Remove nat | Resize nat | Trim

fun mbuf_do :: "heap_state \<Rightarrow> mbuf \<Rightarrow> mbuf_op \<Rightarrow> mbuf option" where
  "mbuf_do hp a (Insert off s) = map_option fst (mbuf_insert hp a off (Some s) (length s))"
| "mbuf_do hp a (Append s) = map_option fst (mbuf_append hp a s)"
| "mbuf_do hp a (Remove n) = mbuf_remove a n"
| "mbuf_do hp a (Resize n) = Some (mbuf_resize hp a n)"
| "mbuf_do hp a Trim = Some (mbuf_trim hp a)"

fun mbuf_run :: "heap_state \<Rightarrow> mbuf \<Rightarrow> mbuf_op list \<Rightarrow> mbuf option" where
  "mbuf_run hp a [] = Some a"
| "mbuf_run hp a (c # cs) = mbuf_do hp a c \<bind> (\<lambda>a'. mbuf_run hp a' cs)"

text \<open>The same on a sequence of bytes; \<open>granted\<close> tells whether there was memory.\<close>

fun bytes_do :: "bool \<Rightarrow> byte list \<Rightarrow> mbuf_op \<Rightarrow> byte list option" where
  "bytes_do granted v (Insert off s) =
     (if off \<le> length v then Some (if granted then take off v @ s @ drop off v else v) else None)"
| "bytes_do granted v (Append s) = Some (if granted then v @ s else v)"
| "bytes_do granted v (Remove n) = Some (if n \<le> length v then drop n v else v)"
| "bytes_do granted v (Resize n) = Some v"
| "bytes_do granted v Trim = Some v"

fun bytes_run :: "bool list \<Rightarrow> byte list \<Rightarrow> mbuf_op list \<Rightarrow> byte list option" where
  "bytes_run (g # gs) v (c # cs) = bytes_do g v c \<bind> (\<lambda>v'. bytes_run gs v' cs)"
| "bytes_run _ v _ = Some v"

fun added :: "mbuf_op \<Rightarrow> nat" where
  "added (Insert off s) = length s"
| "added (Append s) = length s"
| "added _ = 0"

lemma mbuf_insert_granted:
  assumes "mbuf_ok a" "(len a + length s) * 3 div 2 \<le> largest hp" "mbuf_insert hp a off (Some s) (length s) = Some (a', k)"
  shows "k = length s"
  using assms by (auto simp: mbuf_insert_def Let_def MBUF_REALLOC_def split: if_splits bind_splits)

lemma mbuf_insert_step:
  assumes "mbuf_ok a"
  shows "\<exists>g. map_option in_use (map_option fst (mbuf_insert hp a off (Some s) (length s))) =
      (if off \<le> len a then Some (if g then take off (in_use a) @ s @ drop off (in_use a) else in_use a) else None) \<and>
    (\<forall>a' k. mbuf_insert hp a off (Some s) (length s) = Some (a', k) \<longrightarrow> mbuf_ok a' \<and> len a' \<le> len a + length s) \<and>
    ((len a + length s) * 3 div 2 \<le> largest hp \<longrightarrow> g)"
proof (cases "off \<le> len a")
  case True
  obtain a' k where i: "mbuf_insert hp a off (Some s) (length s) = Some (a', k)" "mbuf_ok a'"
      "k = length s \<and> in_use a' = take off (in_use a) @ s @ drop off (in_use a) \<or> k = 0 \<and> a' = a"
    using mbuf_insert_spec [OF assms True] by blast
  have l: "len a' = length (in_use a')" "len a = length (in_use a)" using i(2) assms by simp_all
  show ?thesis
  proof (cases "k = length s")
    case k: True
    then have v: "in_use a' = take off (in_use a) @ s @ drop off (in_use a)" using i(3) by auto
    then have "len a' \<le> len a + length s" using True assms i(2) unfolding l(1) by simp
    then show ?thesis using True i v by (intro exI [of _ True]) auto
  next
    case False
    then have "\<not> (len a + length s) * 3 div 2 \<le> largest hp" using mbuf_insert_granted [OF assms _ i(1)] by auto
    moreover have "a' = a" using False i(3) by simp
    ultimately show ?thesis using True i by (intro exI [of _ False]) auto
  qed
qed (use assms in \<open>auto simp: mbuf_insert_def\<close>)

lemma mbuf_step:
  assumes "mbuf_ok a"
  shows "\<exists>g. map_option in_use (mbuf_do hp a c) = bytes_do g (in_use a) c \<and>
    (\<forall>a'. mbuf_do hp a c = Some a' \<longrightarrow> mbuf_ok a' \<and> len a' \<le> len a + added c) \<and>
    ((len a + added c) * 3 div 2 \<le> largest hp \<longrightarrow> g)"
proof (cases c)
  case (Insert off s)
  then show ?thesis using mbuf_insert_step [OF assms, of hp off s] assms by (auto simp: all_conj_distrib)
next
  case (Append s)
  then show ?thesis using mbuf_insert_step [OF assms, of hp "len a" s] assms
    by (auto simp: mbuf_append_def all_conj_distrib)
next
  case (Remove n)
  obtain a' where a': "mbuf_remove a n = Some a'" "mbuf_ok a'"
      "in_use a' = (if n \<le> len a then drop n (in_use a) else in_use a)"
    using mbuf_remove_spec [OF assms] by blast
  then have "len a' \<le> len a" using length_in_use [OF a'(2)] assms by (auto split: if_splits)
  then show ?thesis using Remove a' assms by (intro exI [of _ True]) auto
next
  case (Resize n)
  then show ?thesis using mbuf_resize_spec [OF assms, of hp n] assms length_in_use [of "mbuf_resize hp a n"]
    by (intro exI [of _ True]) auto
next
  case Trim
  then show ?thesis using mbuf_resize_spec [OF assms, of hp "len a"] assms length_in_use [of "mbuf_resize hp a (len a)"]
    by (intro exI [of _ True]) (auto simp: mbuf_trim_def)
qed

text \<open>C17: a buffer stands for a sequence of bytes.  A run of operations never touches a cell that is not
  allocated, leaves the bytes that the same operations on a sequence leave, where an insertion without
  memory leaves things as they are, and stops exactly at an insertion behind the end, where the assertion
  fails.  When an array of one and a half times all the bytes can be had, no insertion fails.\<close>

theorem mbuf_refines:
  assumes "mbuf_ok a"
  shows "\<exists>gs. length gs = length cs \<and>
    map_option in_use (mbuf_run hp a cs) = bytes_run gs (in_use a) cs \<and>
    ((len a + sum_list (map added cs)) * 3 div 2 \<le> largest hp \<longrightarrow> gs = replicate (length cs) True)"
  using assms
proof (induction cs arbitrary: a)
  case (Cons c cs)
  obtain g where g: "map_option in_use (mbuf_do hp a c) = bytes_do g (in_use a) c"
      "\<And>a'. mbuf_do hp a c = Some a' \<Longrightarrow> mbuf_ok a' \<and> len a' \<le> len a + added c"
      "(len a + added c) * 3 div 2 \<le> largest hp \<longrightarrow> g"
    using mbuf_step [OF Cons.prems, of hp c] by blast
  have mono: "(len a + added c) * 3 div 2 \<le> largest hp"
    if "(len a + sum_list (map added (c # cs))) * 3 div 2 \<le> largest hp"
    using that div_le_mono [of "(len a + added c) * 3" "(len a + sum_list (map added (c # cs))) * 3" 2] by simp
  show ?case
  proof (cases "mbuf_do hp a c")
    case None
    then have "bytes_do g (in_use a) c = None" using g(1) by simp
    then show ?thesis using None g(3) mono by (intro exI [of _ "g # replicate (length cs) True"]) auto
  next
    case (Some a')
    obtain gs where gs: "length gs = length cs" "map_option in_use (mbuf_run hp a' cs) = bytes_run gs (in_use a') cs"
        "(len a' + sum_list (map added cs)) * 3 div 2 \<le> largest hp \<longrightarrow> gs = replicate (length cs) True"
      using Cons.IH g(2) [OF Some] by blast
    have "(len a' + sum_list (map added cs)) * 3 div 2 \<le> (len a + sum_list (map added (c # cs))) * 3 div 2"
      using g(2) [OF Some] by (intro div_le_mono) simp
    then have "g \<and> gs = replicate (length cs) True"
      if "(len a + sum_list (map added (c # cs))) * 3 div 2 \<le> largest hp"
      using that gs(3) g(3) mono by simp
    moreover have "bytes_do g (in_use a) c = Some (in_use a')" using g(1) Some by simp
    ultimately show ?thesis using Some gs(1,2) by (intro exI [of _ "g # gs"]) auto
  qed
qed simp

theorem mbuf_refines_witness:
  "map_option in_use (mbuf_run \<lparr>fresh_byte = \<lambda>_. 0, largest = 9\<rparr> \<lparr>buf = [1, 2, 9], len = 2\<rparr>
      [Append [3, 4], Insert 1 [7], Remove 2]) = Some [2, 3, 4]"
proof -
  have ok: "mbuf_ok \<lparr>buf = [1, 2, 9], len = 2\<rparr>" by (simp add: mbuf_ok_def)
  show ?thesis using mbuf_refines [OF ok, of "[Append [3, 4], Insert 1 [7], Remove 2]" "\<lparr>fresh_byte = \<lambda>_. 0, largest = 9\<rparr>"]
    by (auto simp: in_use_def simp del: mbuf_run.simps)
qed

section \<open>Strings\<close>

lemma mg_strcmp_eq [simp]: "mg_strcmp s t = 0 \<longleftrightarrow> s = t"
  by (induction s t rule: mg_strcmp.induct) (auto simp: signed_word_eqI)

text \<open>The comparison of strings is that of a dictionary in which a byte from 128 on, a negative character,
  comes before all ASCII characters.\<close>

theorem mg_strcmp_order: "mg_strcmp s t < 0 \<longleftrightarrow> (map sint s, map sint t) \<in> lexord {(x, y). x < y}"
  by (induction s t rule: mg_strcmp.induct) auto

theorem mg_strncmp_prefix: "mg_strncmp s t n = 0 \<longleftrightarrow> take n s = take n t"
  by (auto simp: mg_strncmp_def Let_def)

lemma mg_ncasecmp_prefix:
  "n \<le> length s \<Longrightarrow> n \<le> length t \<Longrightarrow> 0 \<notin> set s \<Longrightarrow>
    \<exists>r. mg_ncasecmp s t n = Some r \<and> (r = 0 \<longleftrightarrow> map tolower (take n s) = map tolower (take n t))"
proof (induction s t n rule: mg_ncasecmp.induct)
  case (2 a s1 b s2 len)
  have "uint (tolower a) - uint (tolower b) = 0 \<longleftrightarrow> tolower a = tolower b" by (simp add: word_uint_eq_iff)
  then show ?case using 2 by (cases len) (auto simp: Let_def)
qed auto

theorem mg_vcasecmp_eq:
  assumes "0 \<notin> set s"
  shows "mg_vcasecmp s t = Some 0 \<longleftrightarrow> map tolower s = map tolower t"
proof -
  define n where "n = (if length s < length t then length s else length t)"
  then have n: "n \<le> length s" "n \<le> length t" by auto
  obtain r where r: "mg_ncasecmp s t n = Some r" "r = 0 \<longleftrightarrow> map tolower (take n s) = map tolower (take n t)"
    using mg_ncasecmp_prefix [OF n assms] by blast
  have "mg_vcasecmp s t = Some (if r = 0 then int (length s) - int (length t) else r)"
    using r(1) by (simp add: mg_vcasecmp_def n_def)
  moreover have "length s = length t" if "map tolower s = map tolower t" using that by (metis length_map)
  moreover have "take n s = s" "take n t = t" if "length s = length t" using that by (simp_all add: n_def)
  ultimately show ?thesis using r(2) by (cases "length s = length t") fastforce+
qed

text \<open>\<open>mg_vcmp\<close> compares unsigned bytes, \<open>mg_strcmp\<close> signed ones: they disagree on which is smaller.\<close>

theorem mg_compare_disagree: "mg_strcmp [200] [65] < 0 \<and> mg_vcmp [200] [65] > 0"
  by code_simp

end
