(* ===== verification/Mg_Websocket.thy ===== *)
theory Mg_Websocket
  imports Md5 Http_Server Mg_Sha1 Mg_Base64 Mg_Mbuf
begin

text \<open>
  Websockets in \<open>c++/utils/web_server/common/mongoose.cc\<close>: how frames are sent by either side, how they are
  found in the receive buffer, unmasked, put together from fragments and given to the handler, and the
  answer to the request for a websocket.  \<open>realloc\<close> is as in \<open>Mg_Mbuf\<close>; the parameter \<open>in_place\<close>
  tells whether it extends an array where it is, because \<open>mg_deliver_websocket_data\<close> goes on using
  pointers into the old array.  A use of memory that is not there is \<open>None\<close>, also when it is the memory of
  the message that the handler gets.  The handler does not change the receive buffer.  The machine is
  little-endian.  What is sent is appended to \<open>send_mbuf\<close>, here a list.
\<close>

section \<open>Definitions\<close>

definition MG_F_SEND_AND_CLOSE :: "64 word" where
  "MG_F_SEND_AND_CLOSE = push_bit 10 1"

definition MG_F_WEBSOCKET_NO_DEFRAG :: "64 word" where
  "MG_F_WEBSOCKET_NO_DEFRAG = push_bit 12 1"

definition WEBSOCKET_DONT_FIN :: uint4 where
  "WEBSOCKET_DONT_FIN = 0x100"

definition WEBSOCKET_OP_CLOSE :: uint4 where
  "WEBSOCKET_OP_CLOSE = 8"

definition WEBSOCKET_OP_PING :: uint4 where
  "WEBSOCKET_OP_PING = 9"

text \<open>\<open>accepted\<close> stands for \<open>listener != NULL\<close>: the connection is one that the server has accepted.\<close>

record ws_connection = mg_connection +
  recv_mbuf :: mbuf
  send_mbuf :: "byte list"
  accepted :: bool
  last_io_time :: int

record websocket_message =
  data :: "byte list"
  wsm_flags :: byte

datatype ws_call =
    CALL_WEBSOCKET_FRAME websocket_message
  | CALL_WEBSOCKET_CONTROL_FRAME websocket_message
  | CALL_EV ws_input
and ws_input = MG_EV_RECV | MG_EV_POLL int | MG_EV_ANY

definition mg_is_ws_fragment :: "byte \<Rightarrow> bool" where
  "mg_is_ws_fragment flgs \<longleftrightarrow> flgs AND 0x80 = 0 \<or> flgs AND 0x0f = 0"

definition mg_is_ws_first_fragment :: "byte \<Rightarrow> bool" where
  "mg_is_ws_first_fragment flgs \<longleftrightarrow> flgs AND 0x80 = 0 \<and> flgs AND 0x0f \<noteq> 0"

definition mg_handle_incoming_websocket_frame :: "websocket_message \<Rightarrow> ws_call list" where
  "mg_handle_incoming_websocket_frame wsm =
     (if wsm_flags wsm AND 0x8 \<noteq> 0 then [CALL_WEBSOCKET_CONTROL_FRAME wsm] else [CALL_WEBSOCKET_FRAME wsm])"

text \<open>The lengths of the header, of the data and of the mask, from the bytes in the buffer.\<close>

definition ws_lengths :: "byte list \<Rightarrow> nat \<times> 64 word \<times> nat" where
  "ws_lengths b =
     (if length b \<ge> 2 then
        (let l = b ! 1 AND 127; mask_len = (if b ! 1 AND 128 \<noteq> 0 then 4 else 0) in
         if l < 126 \<and> length b \<ge> mask_len then (2 + mask_len, ucast l, mask_len)
         else if l = 126 \<and> length b \<ge> 4 + mask_len then
           (4 + mask_len, of_nat (from_big_endian (take 2 (drop 2 b))), mask_len)
         else if length b \<ge> 10 + mask_len then
           (10 + mask_len,
            push_bit 32 (of_nat (from_big_endian (take 4 (drop 2 b)))) + of_nat (from_big_endian (take 4 (drop 6 b))),
            mask_len)
         else (0, 0, mask_len))
      else (0, 0, 0))"

text \<open>The data with the bytes of the mask in turn.\<close>

definition ws_xor :: "byte list \<Rightarrow> byte list \<Rightarrow> byte list" where
  "ws_xor key d = map (\<lambda>i. d ! i XOR key ! (i mod 4)) [0..<length d]"

definition sizep :: "byte list \<Rightarrow> uint4" where
  "sizep m = word4 (take 4 (drop 1 m))"

text \<open>The first fragment: room for the counter, which is then cleared.  The result is the memory.\<close>

definition start_reassembly :: "heap_state \<Rightarrow> bool \<Rightarrow> byte list \<Rightarrow> nat \<Rightarrow> byte list option" where
  "start_reassembly hp in_place m buf_len = do {
     let r = buf (mbuf_resize hp \<lparr>buf = m, len = buf_len\<rparr> (length m + 4));
     m1 \<leftarrow> (if length r = length m \<or> in_place then Some r else None);
     b0 \<leftarrow> rd m1 0;
     m2 \<leftarrow> wr m1 0 (b0 AND 0xf0);
     blit m2 1 [0, 0, 0, 0] }"

definition mg_deliver_websocket_data :: "heap_state \<Rightarrow> bool \<Rightarrow> ws_connection \<Rightarrow>
    (bool \<times> ws_connection \<times> ws_call list) option" where
  "mg_deliver_websocket_data hp in_place nc =
     (let p = buf (recv_mbuf nc); buf_len = len (recv_mbuf nc);
          reass = (buf_len > 0 \<and> mg_is_ws_fragment (p ! 0) \<and> flags nc AND MG_F_WEBSOCKET_NO_DEFRAG = 0);
          first = mg_is_ws_first_fragment (p ! 0);
          off = (if reass \<and> \<not> first \<and> buf_len \<ge> 5 \<and> buf_len \<ge> 5 + unat (sizep p) then 5 + unat (sizep p) else 0);
          b = take (buf_len - off) (drop off p);
          (header_len, data_len, mask_len) = ws_lengths b;
          frame_len = of_nat header_len + data_len;
          dat = off + header_len
      in
      if frame_len > 0 \<and> unat frame_len \<le> length b then do {
        let flgs = p ! off;
        m \<leftarrow> (if mask_len > 0 then do {
            d \<leftarrow> slice p dat (unat data_len);
            key \<leftarrow> slice p (dat - mask_len) 4;
            blit p dat (ws_xor key d) }
          else Some p);
        (m', len', pos, calls) \<leftarrow>
          (if reass then do {
             let first' = mg_is_ws_first_fragment flgs;
             m1 \<leftarrow> (if first' then start_reassembly hp in_place m buf_len else Some m);
             let pos = (if first' then 5 else off);
             m2 \<leftarrow> memmove m1 pos dat (buf_len - dat);
             m3 \<leftarrow> blit m2 1 (bytes4 (sizep m2 + ucast data_len));
             let len1 = buf_len + pos - dat;
             (if flgs AND 0x80 \<noteq> 0 then do {
                d \<leftarrow> slice m3 5 (unat (sizep m3));
                r \<leftarrow> mbuf_remove \<lparr>buf = m3, len = len1\<rparr> (5 + unat (sizep m3));
                Some (buf r, len r, pos, mg_handle_incoming_websocket_frame \<lparr>data = d, wsm_flags = flgs\<rparr>) }
              else Some (m3, len1, pos, [])) }
           else do {
             d \<leftarrow> slice m dat (unat data_len);
             r \<leftarrow> mbuf_remove \<lparr>buf = m, len = buf_len\<rparr> (unat frame_len);
             Some (buf r, len r, off, mg_handle_incoming_websocket_frame \<lparr>data = d, wsm_flags = flgs\<rparr>) });
        c \<leftarrow> rd m' (int pos);
        Some (True,
          nc\<lparr>recv_mbuf := \<lparr>buf = m', len = len'\<rparr>,
             flags := (if c AND 0x0f = ucast WEBSOCKET_OP_CLOSE then flags nc OR MG_F_SEND_AND_CLOSE else flags nc)\<rparr>,
          calls) }
      else Some (False, nc, []))"

record ws_mask_ctx =
  pos :: nat
  mask :: uint4

definition mg_send :: "ws_connection \<Rightarrow> byte list \<Rightarrow> ws_connection" where
  "mg_send nc bs = nc\<lparr>send_mbuf := send_mbuf nc @ bs\<rparr>"

text \<open>The header of a frame; \<open>size_t\<close> has 64 bits.\<close>

definition ws_header :: "uint4 \<Rightarrow> nat \<Rightarrow> byte list" where
  "ws_header op n =
     (let h = ucast ((if op AND WEBSOCKET_DONT_FIN \<noteq> 0 then 0 else 0x80) + (op AND 0x0f)) in
      if n < 126 then [h, of_nat n]
      else if n < 65535 then [h, 126] @ big_endian 2 n
      else [h, 127] @ big_endian 4 (n div 2 ^ 32) @ big_endian 4 (n mod 2 ^ 32))"

text \<open>\<open>rand\<close> is what \<open>mg_ws_random_mask\<close> returns.\<close>

definition mg_send_ws_header_on :: "uint4 \<Rightarrow> ws_connection \<Rightarrow> uint4 \<Rightarrow> nat \<Rightarrow> ws_connection \<times> ws_mask_ctx" where
  "mg_send_ws_header_on rand nc op n =
     (let header = ws_header op n in
      if \<not> accepted nc then
        (let nc1 = mg_send nc (header[1 := header ! 1 OR push_bit 7 1]); nc2 = mg_send nc1 (bytes4 rand)
         in (nc2, \<lparr>pos = length (send_mbuf nc2), mask = rand\<rparr>))
      else (mg_send nc header, \<lparr>pos = 0, mask = rand\<rparr>))"

definition mg_ws_mask_frame :: "byte list \<Rightarrow> ws_mask_ctx \<Rightarrow> byte list" where
  "mg_ws_mask_frame b ctx =
     (if pos ctx = 0 then b
      else take (pos ctx) b @
        map (\<lambda>i. b ! (pos ctx + i) XOR bytes4 (mask ctx) ! (i mod 4)) [0..<length b - pos ctx])"

definition ws_send_masked :: "ws_connection \<times> ws_mask_ctx \<Rightarrow> byte list list \<Rightarrow> uint4 \<Rightarrow> ws_connection" where
  "ws_send_masked = (\<lambda>(nc, ctx) ds op.
     (let nc1 = fold (\<lambda>d c. mg_send c d) ds nc;
          nc2 = nc1\<lparr>send_mbuf := mg_ws_mask_frame (send_mbuf nc1) ctx\<rparr>
      in if op = WEBSOCKET_OP_CLOSE then nc2\<lparr>flags := flags nc2 OR MG_F_SEND_AND_CLOSE\<rparr> else nc2))"

definition mg_send_websocket_frame_on :: "uint4 \<Rightarrow> ws_connection \<Rightarrow> uint4 \<Rightarrow> byte list \<Rightarrow> ws_connection" where
  "mg_send_websocket_frame_on rand nc op d = ws_send_masked (mg_send_ws_header_on rand nc op (length d)) [d] op"

text \<open>The sum of the lengths is an \<open>int\<close>, which is converted to \<open>size_t\<close>.\<close>

definition mg_send_websocket_framev :: "uint4 \<Rightarrow> ws_connection \<Rightarrow> uint4 \<Rightarrow> byte list list \<Rightarrow> ws_connection" where
  "mg_send_websocket_framev rand nc op strv =
     (let n = fold (\<lambda>s l. l + of_nat (length s)) strv (0 :: uint4)
      in ws_send_masked (mg_send_ws_header_on rand nc op (unat (scast n :: 64 word))) strv op)"

text \<open>The loop over the frames of the buffer; a loop that does not end is also \<open>None\<close>.\<close>

partial_function (option) ws_receive ::
    "heap_state \<Rightarrow> bool \<Rightarrow> ws_connection \<Rightarrow> (ws_connection \<times> ws_call list) option" where
  "ws_receive hp in_place nc = do {
     (ok, nc1, calls) \<leftarrow> mg_deliver_websocket_data hp in_place nc;
     if ok then do {
       (nc2, more) \<leftarrow> ws_receive hp in_place nc1;
       Some (nc2, calls @ more) }
     else Some (nc1, calls) }"

definition mg_ws_handler :: "heap_state \<Rightarrow> bool \<Rightarrow> uint4 \<Rightarrow> ws_connection \<Rightarrow> ws_input \<Rightarrow>
    (ws_connection \<times> ws_call list) option" where
  "mg_ws_handler hp in_place rand nc ev =
     (case ev of
        MG_EV_RECV \<Rightarrow> do { (nc1, calls) \<leftarrow> ws_receive hp in_place nc; Some (nc1, CALL_EV ev # calls) }
      | MG_EV_POLL now \<Rightarrow>
          Some (if flags nc AND MG_F_IS_WEBSOCKET \<noteq> 0 \<and> now > last_io_time nc + 5
                then mg_send_websocket_frame_on rand nc WEBSOCKET_OP_PING [] else nc, [CALL_EV ev])
      | MG_EV_ANY \<Rightarrow> Some (nc, [CALL_EV ev]))"

text \<open>The answer to a websocket request.  \<open>junk\<close> is the contents of fresh local variables.\<close>

definition mg_hash_sha1_v :: "sha1_ctx \<Rightarrow> byte list list \<Rightarrow> byte list option" where
  "mg_hash_sha1_v junk msgs = do {
     c \<leftarrow> fold (\<lambda>m c. c \<bind> (\<lambda>c. cs_sha1_update c m (of_nat (length m)))) msgs (Some (cs_sha1_init junk));
     map_option fst (cs_sha1_final c) }"

definition ws_magic :: "byte list" where
  "ws_magic = ascii ''258EAFA5-E914-47DA-95CA-C5AB0DC85B11''"

definition mg_ws_handshake :: "sha1_ctx \<Rightarrow> byte list \<Rightarrow> ws_connection \<Rightarrow> byte list \<Rightarrow> ws_connection option" where
  "mg_ws_handshake junk b64_junk nc key = do {
     sha \<leftarrow> mg_hash_sha1_v junk [key, ws_magic];
     b64_sha \<leftarrow> cs_base64_encode sha b64_junk;
     if 0 \<in> set b64_sha then
       Some (mg_send nc (ascii ''HTTP/1.1 101 Switching Protocols'' @ crlf @ ascii ''Upgrade: websocket'' @ crlf @
         ascii ''Connection: Upgrade'' @ crlf @ ascii ''Sec-WebSocket-Accept: '' @ c_str b64_sha @ crlf @ crlf))
     else None }"

section \<open>Frames on the wire\<close>

definition frame_byte :: "uint4 \<Rightarrow> byte" where
  "frame_byte op = ucast ((if op AND WEBSOCKET_DONT_FIN \<noteq> 0 then 0 else 0x80) + (op AND 0x0f))"

definition len_code :: "nat \<Rightarrow> byte" where
  "len_code n = (if n < 126 then of_nat n else if n < 65535 then 126 else 127)"

definition len_ext :: "nat \<Rightarrow> byte list" where
  "len_ext n = (if n < 126 then [] else if n < 65535 then big_endian 2 n
     else big_endian 4 (n div 2 ^ 32) @ big_endian 4 (n mod 2 ^ 32))"

definition ws_wire :: "bool \<Rightarrow> uint4 \<Rightarrow> uint4 \<Rightarrow> byte list \<Rightarrow> byte list" where
  "ws_wire masked rand op d = frame_byte op #
     (if masked then len_code (length d) OR 128 else len_code (length d)) # len_ext (length d) @
     (if masked then bytes4 rand @ ws_xor (bytes4 rand) d else d)"

lemma ws_header_eq: "ws_header op n = frame_byte op # len_code n # len_ext n"
  by (simp add: ws_header_def frame_byte_def len_code_def len_ext_def Let_def)

lemma length_bytes4 [simp]: "length (bytes4 w) = 4"
  by (simp add: bytes4_def)

lemma length_ws_xor [simp]: "length (ws_xor key d) = length d"
  by (simp add: ws_xor_def)

lemma ws_xor_twice [simp]: "ws_xor key (ws_xor key d) = d"
  by (rule nth_equalityI) (simp_all add: ws_xor_def xor.assoc)

lemma mask_frame_append:
  "a \<noteq> [] \<Longrightarrow> mg_ws_mask_frame (a @ d) \<lparr>pos = length a, mask = r\<rparr> = a @ ws_xor (bytes4 r) d"
  by (simp add: mg_ws_mask_frame_def ws_xor_def nth_append)

lemma send_frame_wire:
  "send_mbuf (mg_send_websocket_frame_on rand nc op d) = send_mbuf nc @ ws_wire (\<not> accepted nc) rand op d"
proof -
  have s: "send_mbuf (ws_send_masked (nc1, ctx) [d] op) = mg_ws_mask_frame (send_mbuf nc1 @ d) ctx" for nc1 ctx
    by (simp add: ws_send_masked_def mg_send_def Let_def)
  have m: "mg_ws_mask_frame b \<lparr>pos = 0, mask = rand\<rparr> = b" for b by (simp add: mg_ws_mask_frame_def)
  define a where "a = send_mbuf nc @ frame_byte op # (len_code (length d) OR 128) # len_ext (length d) @ bytes4 rand"
  have "a \<noteq> []" by (simp add: a_def)
  from mask_frame_append [OF this, of d rand]
  have "mg_ws_mask_frame (a @ d) \<lparr>pos = length a, mask = rand\<rparr> =
      send_mbuf nc @ frame_byte op # (len_code (length d) OR 128) # len_ext (length d) @ bytes4 rand @ ws_xor (bytes4 rand) d"
    by (simp add: a_def)
  moreover have "mg_send_ws_header_on rand nc op (length d) =
      (if accepted nc then (mg_send nc (ws_header op (length d)), \<lparr>pos = 0, mask = rand\<rparr>)
       else (nc\<lparr>send_mbuf := a\<rparr>, \<lparr>pos = length a, mask = rand\<rparr>))"
    by (simp add: mg_send_ws_header_on_def ws_header_eq mg_send_def a_def Let_def)
  ultimately show ?thesis
    by (simp add: mg_send_websocket_frame_on_def s m ws_wire_def mg_send_def ws_header_eq)
qed

lemma send_framev_wire:
  assumes "length (concat strv) < 2 ^ 31"
  shows "mg_send_websocket_framev rand nc op strv = mg_send_websocket_frame_on rand nc op (concat strv)"
proof -
  have n: "fold (\<lambda>s l. l + of_nat (length s)) strv (w :: uint4) = w + of_nat (length (concat strv))" for w
    by (induction strv arbitrary: w) (simp_all add: add.assoc)
  have f: "fold (\<lambda>d c. mg_send c d) strv c = mg_send c (concat strv)" for c
    by (induction strv arbitrary: c) (simp_all add: mg_send_def)
  have "unat (scast (of_nat k :: uint4) :: 64 word) = k" if "k < 2 ^ 31" for k
  proof -
    have "sint (of_nat k :: uint4) = int k" using that by (simp add: signed_of_nat signed_take_bit_int_eq_self)
    then have "(scast (of_nat k :: uint4) :: 64 word) = of_nat k" by (metis of_int_of_nat_eq of_int_sint)
    then show ?thesis using that by (simp add: unsigned_of_nat take_bit_nat_eq_self)
  qed
  then show ?thesis using assms
    by (simp add: mg_send_websocket_framev_def n mg_send_websocket_frame_on_def ws_send_masked_def f split: prod.splits)
qed

lemma nibble_cases: "(op :: uint4) AND 0x0f \<in> set (map of_nat [0..<16])"
proof -
  have "op AND 0x0f = of_nat (unat (op AND 0x0f))" by simp
  moreover have "op AND 0x0f = take_bit 4 op" by (simp add: take_bit_eq_mask mask_eq_exp_minus_1)
  then have "unat (op AND 0x0f) < 16"
    using take_bit_nat_less_exp [of 4 "unat op"] by (simp add: unsigned_take_bit_eq)
  ultimately show ?thesis by (metis atLeast_upt imageI lessThan_iff list.set_map)
qed

lemma frame_byte_bits:
  "frame_byte op AND 0x80 = 0 \<longleftrightarrow> op AND WEBSOCKET_DONT_FIN \<noteq> 0"
  "frame_byte op AND 0x0f = 0 \<longleftrightarrow> op AND 0x0f = 0"
  "op AND WEBSOCKET_DONT_FIN \<noteq> 0 \<Longrightarrow> frame_byte op AND 0xf0 = 0"
  "op AND WEBSOCKET_DONT_FIN \<noteq> 0 \<Longrightarrow> op AND 0x0f = 0 \<Longrightarrow> frame_byte op = 0"
proof -
  have "\<forall>v \<in> set (map of_nat [0..<16]). (ucast (0x80 + v :: uint4) :: byte) AND 0x80 \<noteq> 0 \<and>
      (ucast v :: byte) AND 0x80 = 0 \<and> ((ucast (0x80 + v) :: byte) AND 0x0f = 0 \<longleftrightarrow> v = 0) \<and>
      ((ucast v :: byte) AND 0x0f = 0 \<longleftrightarrow> v = 0) \<and> (ucast v :: byte) AND 0xf0 = 0 \<and> (v = 0 \<longrightarrow> (ucast v :: byte) = 0)"
    by code_simp
  from bspec [OF this nibble_cases [of op]]
  have v: "(ucast (0x80 + (op AND 0x0f)) :: byte) AND 0x80 \<noteq> 0" "(ucast (op AND 0x0f) :: byte) AND 0x80 = 0"
      "(ucast (0x80 + (op AND 0x0f)) :: byte) AND 0x0f = 0 \<longleftrightarrow> op AND 0x0f = 0"
      "(ucast (op AND 0x0f) :: byte) AND 0x0f = 0 \<longleftrightarrow> op AND 0x0f = 0"
      "(ucast (op AND 0x0f) :: byte) AND 0xf0 = 0" "op AND 0x0f = 0 \<longrightarrow> (ucast (op AND 0x0f) :: byte) = 0"
    by blast+
  have f: "frame_byte op = (if op AND WEBSOCKET_DONT_FIN \<noteq> 0 then ucast (op AND 0x0f) else ucast (0x80 + (op AND 0x0f)))"
    by (auto simp: frame_byte_def)
  show "frame_byte op AND 0x80 = 0 \<longleftrightarrow> op AND WEBSOCKET_DONT_FIN \<noteq> 0"
    unfolding f by (split if_split) (use v(1,2) in blast)
  show "frame_byte op AND 0x0f = 0 \<longleftrightarrow> op AND 0x0f = 0"
    unfolding f by (split if_split) (use v(3,4) in blast)
  show "frame_byte op AND 0xf0 = 0" if "op AND WEBSOCKET_DONT_FIN \<noteq> 0"
    unfolding f if_P [OF that] by (rule v(5))
  show "frame_byte op = 0" if "op AND WEBSOCKET_DONT_FIN \<noteq> 0" "op AND 0x0f = 0"
    unfolding f if_P [OF that(1)] using v(6) that(2) by blast
qed

section \<open>Finding a frame\<close>

lemma len_code_bits:
  "len_code n AND 127 = len_code n" "(len_code n OR 128) AND 127 = len_code n"
  "len_code n AND 128 = 0" "(len_code n OR 128) AND 128 \<noteq> 0"
proof -
  define m where "m = (if n < 126 then n else if n < 65535 then 126 else 127)"
  have "len_code n = of_nat m" "m \<in> set [0..<128]" by (auto simp: len_code_def m_def)
  then have "len_code n \<in> set (map of_nat [0..<128])" by (simp only: list.set_map imageI)
  moreover have "\<forall>l \<in> set (map of_nat [0..<128]). l AND 127 = (l :: byte) \<and> (l OR 128) AND 127 = l \<and> l AND 128 = 0 \<and>
      (l OR 128) AND 128 \<noteq> 0" by code_simp
  ultimately show "len_code n AND 127 = len_code n" "(len_code n OR 128) AND 127 = len_code n"
    "len_code n AND 128 = 0" "(len_code n OR 128) AND 128 \<noteq> 0" by blast+
qed

lemma len_code_small: "len_code n < 126 \<longleftrightarrow> n < 126" "len_code n = 126 \<longleftrightarrow> 126 \<le> n \<and> n < 65535"
proof -
  have "unat (of_nat n :: byte) = n" if "n < 126" using that by (simp add: unsigned_of_nat take_bit_nat_eq_self)
  then show "len_code n < 126 \<longleftrightarrow> n < 126" "len_code n = 126 \<longleftrightarrow> 126 \<le> n \<and> n < 65535"
    by (auto simp: len_code_def word_less_nat_alt)
qed

definition complete :: "byte list \<Rightarrow> bool" where
  "complete b = (case ws_lengths b of (h, d, _) \<Rightarrow>
     of_nat h + d > (0 :: 64 word) \<and> unat (of_nat h + d) \<le> length b)"

abbreviation mask_bytes :: "bool \<Rightarrow> nat" where
  "mask_bytes masked \<equiv> (if masked then 4 else 0)"

lemma unat_frame_len: "h < 100 \<Longrightarrow> n < 2 ^ 63 \<Longrightarrow> unat (of_nat h + of_nat n :: 64 word) = h + n"
  by (simp add: unsigned_of_nat take_bit_nat_eq_self flip: of_nat_add)

lemma ws_lengths_whole:
  assumes "n < 2 ^ 63" "mask_bytes masked \<le> length rest"
  shows "ws_lengths (x # (if masked then len_code n OR 128 else len_code n) # len_ext n @ rest) =
    (2 + length (len_ext n) + mask_bytes masked, of_nat n, mask_bytes masked)"
proof -
  have small: "ucast (of_nat n :: byte) = (of_nat n :: 64 word)" if "n < 126"
    using that by (simp add: word_unat_eq_iff unsigned_of_nat unsigned_ucast_eq take_bit_nat_eq_self)
  then have code: "(ucast (len_code n) :: 64 word) = of_nat n" if "n < 126" using that by (simp add: len_code_def)
  have "n div 4294967296 < 4294967296" using assms(1) by (simp add: less_mult_imp_div_less)
  then have be: "from_big_endian (big_endian 4 (n div 4294967296)) = n div 4294967296"
      "from_big_endian (big_endian 4 (n mod 4294967296)) = n mod 4294967296"
    by (simp_all add: from_big_endian)
  have "(of_nat (n div 4294967296) * 4294967296 + of_nat (n mod 4294967296) :: 64 word) =
      of_nat (n div 4294967296 * 4294967296 + n mod 4294967296)"
    by (simp only: of_nat_add of_nat_mult of_nat_numeral)
  also have "\<dots> = of_nat n" by (simp only: div_mult_mod_eq)
  finally have large: "push_bit 32 (of_nat (n div 4294967296)) + of_nat (n mod 4294967296) = (of_nat n :: 64 word)"
    by (simp add: push_bit_eq_mult)
  show ?thesis using assms(2)
    by (cases masked; cases "n < 126"; cases "n < 65535")
      (simp_all add: ws_lengths_def Let_def len_code_bits len_code_small len_ext_def code large be from_big_endian)
qed

lemma incomplete_frame:
  assumes "n < 2 ^ 63" "length rest = mask_bytes masked + n" "k < 2 + length (len_ext n) + mask_bytes masked + n"
  shows "\<not> complete (take k (x # (if masked then len_code n OR 128 else len_code n) # len_ext n @ rest))"
    (is "\<not> complete (take k ?w)")
proof (cases "2 + length (len_ext n) + mask_bytes masked \<le> k")
  case True
  then have "take k ?w = x # (if masked then len_code n OR 128 else len_code n) # len_ext n @
      take (k - 2 - length (len_ext n)) rest"
    by (simp add: take_Cons' numeral_2_eq_2)
  moreover have "mask_bytes masked \<le> length (take (k - 2 - length (len_ext n)) rest)" using True assms(2,3) by auto
  ultimately have w: "ws_lengths (take k ?w) = (2 + length (len_ext n) + mask_bytes masked, of_nat n, mask_bytes masked)"
    using ws_lengths_whole [OF assms(1)] by simp
  have "length (len_ext n) \<le> 8" by (simp add: len_ext_def)
  then have "unat (of_nat (2 + length (len_ext n) + mask_bytes masked) + of_nat n :: 64 word) =
      2 + length (len_ext n) + mask_bytes masked + n"
    using unat_frame_len [OF _ assms(1), of "2 + length (len_ext n) + mask_bytes masked"] by simp
  moreover have "length (take k ?w) = k" using assms(2,3) by simp
  ultimately show ?thesis using assms(3) by (simp only: complete_def w prod.case) linarith
next
  case False
  define b where "b = take k ?w"
  have b: "length b = k" using False assms(2) by (simp add: b_def)
  have b1: "b ! 1 = (if masked then len_code n OR 128 else len_code n)" if "2 \<le> k"
    using that by (simp add: b_def)
  have code: "n < 126 \<Longrightarrow> (ucast (len_code n) :: 64 word) = of_nat n"
    by (simp add: len_code_def word_unat_eq_iff unsigned_of_nat unsigned_ucast_eq take_bit_nat_eq_self)
  have u: "unat (of_nat h + of_nat n :: 64 word) = h + n" if "h < 100" for h using unat_frame_len [OF that assms(1)] .
  have "\<not> complete b"
  proof (cases "2 \<le> k")
    case k: True
    show ?thesis
      using False b b1 [OF k] k u [of 2] u [of 6]
      by (cases masked; cases "n < 126"; cases "n < 65535")
        (simp_all add: complete_def ws_lengths_def Let_def len_code_bits len_code_small len_ext_def code)
  qed (use b in \<open>simp add: complete_def ws_lengths_def\<close>)
  then show ?thesis by (simp add: b_def)
qed

end
