(* ===== verification/Ws_Stream.thy ===== *)
theory Ws_Stream
  imports Mg_Websocket
begin

text \<open>
  What \<open>Mg_Websocket\<close> does with a stream of bytes: each frame that a peer has sent is found in the receive
  buffer, unmasked, kept or delivered, whatever pieces the network cuts the stream into.
\<close>

section \<open>One frame\<close>

lemma slice_mid: "length a = i \<Longrightarrow> length x = n \<Longrightarrow> slice (a @ x @ z) i n = Some x"
  by (simp add: slice_def)

lemma blit_mid: "length a = i \<Longrightarrow> length x = length y \<Longrightarrow> blit (a @ x @ z) i y = Some (a @ y @ z)"
  by (simp add: blit_def)

lemma memmove_mid:
  assumes "length a = i" "length (a @ x) = j" "length y = n"
  shows "memmove (a @ x @ y @ z) i j n = Some (a @ y @ drop n (x @ y @ z))"
proof -
  have "memmove (a @ x @ y @ z) i j n = Some (take i (a @ x @ y @ z) @ take n (drop j (a @ x @ y @ z)) @ drop (i + n) (a @ x @ y @ z))"
    using assms by (intro memmove_in) auto
  moreover have "take n (drop j (a @ x @ y @ z)) = y" using assms by simp
  ultimately show ?thesis using assms by simp
qed

lemma remove_front:
  assumes "length x = n" "length (x @ r) = l"
  shows "\<exists>r'. mbuf_remove \<lparr>buf = x @ r @ z, len = l\<rparr> n = Some \<lparr>buf = r @ r', len = length r\<rparr> \<and>
    length (r @ r') = length (x @ r @ z)"
proof (cases "n = 0")
  case False
  then show ?thesis using assms memmove_mid [of "[]" 0 x n r "length r" z]
    by (auto simp: mbuf_remove_def intro!: exI [of _ "drop (length r) (x @ r @ z)"])
qed (use assms in \<open>simp add: mbuf_remove_def\<close>)

text \<open>A frame that a peer has sent.\<close>

record ws_frame =
  from_client :: bool
  rand :: uint4
  fop :: uint4
  pay :: "byte list"

definition wire :: "ws_frame \<Rightarrow> byte list" where
  "wire f = ws_wire (from_client f) (rand f) (fop f) (pay f)"

definition fin :: "ws_frame \<Rightarrow> bool" where
  "fin f \<longleftrightarrow> fop f AND WEBSOCKET_DONT_FIN = 0"

definition continues :: "ws_frame \<Rightarrow> bool" where
  "continues f \<longleftrightarrow> fop f AND 0x0f = 0"

definition head :: "ws_frame \<Rightarrow> byte list" where
  "head f = frame_byte (fop f) # (if from_client f then len_code (length (pay f)) OR 128 else len_code (length (pay f)))
     # len_ext (length (pay f)) @ (if from_client f then bytes4 (rand f) else [])"

definition masked_pay :: "ws_frame \<Rightarrow> byte list" where
  "masked_pay f = (if from_client f then ws_xor (bytes4 (rand f)) (pay f) else pay f)"

lemma wire_head: "wire f = head f @ masked_pay f"
  by (simp add: wire_def ws_wire_def head_def masked_pay_def)

lemma length_head: "length (head f) = 2 + length (len_ext (length (pay f))) + mask_bytes (from_client f)"
  by (simp add: head_def)

lemma length_head_bounds: "2 \<le> length (head f)" "length (head f) \<le> 14" "from_client f \<Longrightarrow> 6 \<le> length (head f)"
  by (simp_all add: length_head len_ext_def)

lemma head_not_Nil [simp]: "head f \<noteq> []"
  by (simp add: head_def)

lemma length_masked_pay [simp]: "length (masked_pay f) = length (pay f)"
  by (simp add: masked_pay_def)

lemma ws_lengths_wire:
  assumes "length (pay f) < 2 ^ 63"
  shows "ws_lengths (head f @ r) = (length (head f), of_nat (length (pay f)), mask_bytes (from_client f))"
  using ws_lengths_whole [OF assms, of "from_client f" "(if from_client f then bytes4 (rand f) else []) @ r" "frame_byte (fop f)"]
  by (auto simp: head_def)

lemma incomplete_wire:
  assumes "length (pay f) < 2 ^ 63" "k < length (wire f)"
  shows "\<not> complete (take k (wire f))"
proof -
  define key where "key = (if from_client f then bytes4 (rand f) else [])"
  have w: "wire f = frame_byte (fop f) # (if from_client f then len_code (length (pay f)) OR 128
      else len_code (length (pay f))) # len_ext (length (pay f)) @ (key @ masked_pay f)"
    by (simp add: wire_head head_def key_def)
  have l: "length key = mask_bytes (from_client f)" by (simp add: key_def)
  show ?thesis unfolding w
    by (rule incomplete_frame [OF assms(1)]) (use assms(2) l in \<open>simp_all add: w\<close>)
qed

text \<open>Removing the mask in memory.\<close>

definition unmask :: "byte list \<Rightarrow> nat \<Rightarrow> nat \<Rightarrow> nat \<Rightarrow> byte list option" where
  "unmask p dat mask_len n =
     (if mask_len > 0 then do {
        d \<leftarrow> slice p dat n;
        key \<leftarrow> slice p (dat - mask_len) 4;
        blit p dat (ws_xor key d) }
      else Some p)"

lemma unmask_wire:
  "unmask (a @ wire f @ r) (length a + length (head f)) (mask_bytes (from_client f)) (length (pay f)) =
    Some (a @ head f @ pay f @ r)"
proof (cases "from_client f")
  case True
  define h where "h = frame_byte (fop f) # (len_code (length (pay f)) OR 128) # len_ext (length (pay f))"
  have h: "head f = h @ bytes4 (rand f)" using True by (simp add: head_def h_def)
  show ?thesis using True slice_mid [of "a @ h @ bytes4 (rand f)" _ "masked_pay f" _ r]
      slice_mid [of "a @ h" _ "bytes4 (rand f)" 4 "masked_pay f @ r"]
      blit_mid [of "a @ h @ bytes4 (rand f)" _ "masked_pay f" "pay f" r]
    by (simp add: unmask_def wire_head h masked_pay_def)
qed (simp add: unmask_def wire_head masked_pay_def)

lemmas deliver_def = mg_deliver_websocket_data_def [folded unmask_def]

lemma frame_len_wire:
  assumes "length (pay f) < 2 ^ 63"
  shows "unat (of_nat (length (head f)) + of_nat (length (pay f)) :: 64 word) = length (wire f)"
    "(of_nat (length (head f)) + of_nat (length (pay f)) :: 64 word) > 0"
    "unat (of_nat (length (pay f)) :: 64 word) = length (pay f)"
proof -
  show u: "unat (of_nat (length (head f)) + of_nat (length (pay f)) :: 64 word) = length (wire f)"
    using unat_frame_len [OF _ assms, of "length (head f)"] length_head_bounds [of f] by (simp add: wire_head)
  have "length (wire f) \<noteq> 0" using length_head_bounds(1) [of f] by (simp add: wire_head)
  then show "(of_nat (length (head f)) + of_nat (length (pay f)) :: 64 word) > 0"
    using u by (metis unat_0 word_gt_0)
  show "unat (of_nat (length (pay f)) :: 64 word) = length (pay f)"
    using assms by (simp add: unsigned_of_nat take_bit_nat_eq_self)
qed

lemma head_first [simp]: "(head f @ r) ! 0 = frame_byte (fop f)"
  by (simp add: head_def)

lemma fragment_bits:
  "mg_is_ws_fragment (frame_byte (fop f)) \<longleftrightarrow> \<not> fin f \<or> continues f"
  "mg_is_ws_first_fragment (frame_byte (fop f)) \<longleftrightarrow> \<not> fin f \<and> \<not> continues f"
  "frame_byte (fop f) AND 0x80 = 0 \<longleftrightarrow> \<not> fin f"
  by (simp_all add: mg_is_ws_fragment_def mg_is_ws_first_fragment_def frame_byte_bits fin_def continues_def)

lemma rd_some: "0 \<le> i \<Longrightarrow> i < int (length m) \<Longrightarrow> \<exists>c. rd m i = Some c"
  by (simp add: rd_def)

definition goes_on :: "ws_connection \<Rightarrow> ws_connection \<Rightarrow> bool" where
  "goes_on nc nc' \<longleftrightarrow> cid nc' = cid nc \<and> flags nc' \<in> {flags nc, flags nc OR MG_F_SEND_AND_CLOSE} \<and>
     send_mbuf nc' = send_mbuf nc \<and> accepted nc' = accepted nc \<and> last_io_time nc' = last_io_time nc"

lemma deliver_plain:
  assumes "recv_mbuf nc = \<lparr>buf = wire f @ r @ z, len = length (wire f @ r)\<rparr>" "fin f" "\<not> continues f"
    "length (pay f) < 2 ^ 63"
  shows "\<exists>nc' z'. mg_deliver_websocket_data hp in_place nc = Some (True, nc',
        mg_handle_incoming_websocket_frame \<lparr>data = pay f, wsm_flags = frame_byte (fop f)\<rparr>) \<and>
    recv_mbuf nc' = \<lparr>buf = r @ z', len = length r\<rparr> \<and> goes_on nc nc'"
proof -
  obtain z' where z': "mbuf_remove \<lparr>buf = (head f @ pay f) @ r @ z, len = length (wire f @ r)\<rparr> (length (wire f)) =
      Some \<lparr>buf = r @ z', len = length r\<rparr>" "length (r @ z') = length ((head f @ pay f) @ r @ z)"
    using remove_front [of "head f @ pay f" "length (wire f)" r "length (wire f @ r)" z] by (auto simp: wire_head)
  have b: "take (length (wire f @ r)) (wire f @ r @ z) = head f @ masked_pay f @ r"
    by (simp add: wire_head)
  have u: "unmask (wire f @ r @ z) (length (head f)) (mask_bytes (from_client f)) (length (pay f)) = Some (head f @ pay f @ r @ z)"
    using unmask_wire [of "[]" f "r @ z"] by simp
  have s: "slice (head f @ pay f @ r @ z) (length (head f)) (length (pay f)) = Some (pay f)"
    by (rule slice_mid) simp_all
  have "0 < int (length (r @ z'))" unfolding z'(2) using length_head_bounds(1) [of f] by simp
  then obtain c where c: "rd (r @ z') 0 = Some c" using rd_some [of 0] by blast
  show ?thesis
    using assms z'(1) b u s c
    by (simp add: deliver_def wire_head fragment_bits ws_lengths_wire frame_len_wire goes_on_def Let_def)
qed

text \<open>The buffer of a connection that puts fragments together: the first byte, a counter, and the data so far.\<close>

definition kept :: "byte list \<Rightarrow> byte list" where
  "kept acc = 0 # bytes4 (of_nat (length acc)) @ acc"

lemma length_kept [simp]: "length (kept acc) = 5 + length acc"
  by (simp add: kept_def)

lemma sizep_kept: "sizep (x # bytes4 w @ r) = w"
  using word4_bytes4 [of w] by (simp add: sizep_def)

lemma fragment_0 [simp]: "mg_is_ws_fragment 0" "\<not> mg_is_ws_first_fragment 0"
  by (simp_all add: mg_is_ws_fragment_def mg_is_ws_first_fragment_def)

lemma ucast_count: "(ucast (of_nat n :: 64 word) :: uint4) = of_nat n"
  by (simp add: word_unat_eq_iff unsigned_ucast_eq unsigned_of_nat)

lemma resize_grows: "\<exists>e. buf (mbuf_resize hp \<lparr>buf = m, len = l\<rparr> (length m + 4)) = m @ e"
  by (auto simp: mbuf_resize_def MBUF_REALLOC_def mbuf_size_def)

lemma start_reassembly_spec:
  assumes "5 \<le> length m" "m ! 0 AND 0xf0 = 0"
  shows "\<exists>e. start_reassembly hp True m l = Some (0 # [0, 0, 0, 0] @ drop 5 (m @ e))"
proof -
  obtain e where e: "buf (mbuf_resize hp \<lparr>buf = m, len = l\<rparr> (length m + 4)) = m @ e"
    using resize_grows by blast
  obtain x y where xy: "m = x # y" "4 \<le> length y" using assms(1) by (cases m) auto
  obtain y1 y2 where y: "y = y1 @ y2" "length y1 = 4"
    using xy(2) by (metis append_take_drop_id length_take min.absorb2)
  have "blit (0 # y @ e) 1 [0, 0, 0, 0] = Some (0 # [0, 0, 0, 0] @ drop 4 (y @ e))"
    using blit_mid [of "[0]" 1 y1 "[0, 0, 0, 0]" "y2 @ e"] y by simp
  then show ?thesis using e assms(2) xy by (intro exI [of _ e]) (simp add: start_reassembly_def rd_def wr_def)
qed

lemma deliver_first:
  assumes "recv_mbuf nc = \<lparr>buf = wire f @ r @ z, len = length (wire f @ r)\<rparr>" "\<not> fin f" "\<not> continues f"
    "from_client f" "length (pay f) < 2 ^ 63" "flags nc AND MG_F_WEBSOCKET_NO_DEFRAG = 0"
  shows "\<exists>nc' z'. mg_deliver_websocket_data hp True nc = Some (True, nc', []) \<and>
    recv_mbuf nc' = \<lparr>buf = kept (pay f) @ r @ z', len = length (kept (pay f) @ r)\<rparr> \<and> goes_on nc nc'"
proof -
  let ?m = "head f @ pay f @ r @ z"
  have six: "6 \<le> length (head f)" using length_head_bounds(3) [OF assms(4)] .
  have "?m ! 0 AND 0xf0 = 0"
    using frame_byte_bits(3) [of "fop f"] assms(2) by (simp add: fin_def head_def)
  then obtain e where e: "start_reassembly hp True ?m (length (wire f @ r)) = Some (0 # [0, 0, 0, 0] @ drop 5 (?m @ e))"
    using start_reassembly_spec [of ?m] six by auto
  have d5: "drop 5 (?m @ e) = drop 5 (head f) @ pay f @ r @ z @ e" using six by simp
  note e = e [unfolded d5]
  define z' where "z' = drop (length (pay f @ r)) (drop 5 (head f) @ (pay f @ r) @ z @ e)"
  have mv: "memmove (0 # [0, 0, 0, 0] @ drop 5 (head f) @ pay f @ r @ z @ e) 5 (length (head f))
      (length (wire f @ r) - length (head f)) = Some (0 # [0, 0, 0, 0] @ (pay f @ r) @ z')"
    using memmove_mid [of "0 # [0, 0, 0, 0]" 5 "drop 5 (head f)" "length (head f)" "pay f @ r" _ "z @ e"] six
    by (simp add: wire_head z'_def)
  have bl: "blit (0 # [0, 0, 0, 0] @ (pay f @ r) @ z') 1 (bytes4 w) = Some (0 # bytes4 w @ (pay f @ r) @ z')" for w
    using blit_mid [of "[0]" 1 "[0, 0, 0, 0]" "bytes4 w" "(pay f @ r) @ z'"] by simp
  have sz: "sizep (0 # [0, 0, 0, 0] @ x) = 0" for x :: "byte list" by (simp add: sizep_def word4_def)
  have b: "take (length (wire f @ r)) (wire f @ r @ z) = head f @ masked_pay f @ r"
    by (simp add: wire_head)
  have u: "unmask (wire f @ r @ z) (length (head f)) (mask_bytes (from_client f)) (length (pay f)) = Some ?m"
    using unmask_wire [of "[]" f "r @ z"] by simp
  have "5 < int (length (0 # bytes4 (of_nat (length (pay f))) @ (pay f @ r) @ z'))"
    using six by (simp add: z'_def)
  then obtain c where c: "rd (0 # bytes4 (of_nat (length (pay f))) @ (pay f @ r) @ z') 5 = Some c"
    using rd_some [of 5] by fastforce
  have l: "length (wire f @ r) + 5 - length (head f) = length (kept (pay f) @ r)" by (simp add: wire_head)
  show ?thesis
    using assms b u e mv bl sz c l
    by (simp add: deliver_def wire_head fragment_bits ws_lengths_wire frame_len_wire goes_on_def Let_def ucast_count kept_def)
qed

lemma deliver_next:
  assumes "recv_mbuf nc = \<lparr>buf = kept acc @ wire f @ r @ z, len = length (kept acc @ wire f @ r)\<rparr>"
    "continues f" "length (acc @ pay f) < 2 ^ 32" "flags nc AND MG_F_WEBSOCKET_NO_DEFRAG = 0"
  shows "\<exists>nc' z'. mg_deliver_websocket_data hp in_place nc = Some (True, nc',
      if fin f then mg_handle_incoming_websocket_frame \<lparr>data = acc @ pay f, wsm_flags = frame_byte (fop f)\<rparr> else []) \<and>
    recv_mbuf nc' = (if fin f then \<lparr>buf = r @ z', len = length r\<rparr>
      else \<lparr>buf = kept (acc @ pay f) @ r @ z', len = length (kept (acc @ pay f) @ r)\<rparr>) \<and> goes_on nc nc'"
proof -
  let ?m = "kept acc @ head f @ pay f @ r @ z" and ?off = "5 + length acc"
  have small: "length acc < 2 ^ 32" "length (pay f) < 2 ^ 63" using assms(3) by auto
  have count: "unat (of_nat (length acc) :: uint4) = length acc"
    using small(1) by (simp add: unsigned_of_nat take_bit_nat_eq_self)
  have count': "unat (of_nat (length acc) + of_nat (length (pay f)) :: uint4) = length acc + length (pay f)"
    using assms(3) by (simp add: unsigned_of_nat take_bit_nat_eq_self flip: of_nat_add)
  have k0: "(kept acc @ x) ! 0 = 0" "sizep (kept acc @ x) = of_nat (length acc)" for x
    by (simp_all add: kept_def sizep_kept)
  have b: "take (length (wire f @ r)) (wire f @ r @ z) = head f @ masked_pay f @ r"
    by (simp add: wire_head)
  have u: "unmask (kept acc @ wire f @ r @ z) (?off + length (head f)) (mask_bytes (from_client f)) (length (pay f)) = Some ?m"
    using unmask_wire [of "kept acc" f "r @ z"] by (simp add: add.assoc)
  define z' where "z' = drop (length (pay f @ r)) (head f @ (pay f @ r) @ z)"
  have lz: "length z' = length (head f) + length z" by (simp add: z'_def)
  have mv: "memmove ?m ?off (?off + length (head f)) (length (pay f) + length r) = Some (kept acc @ (pay f @ r) @ z')"
    using memmove_mid [of "kept acc" ?off "head f" "?off + length (head f)" "pay f @ r" _ z] by (simp add: z'_def)
  have bl: "blit (kept acc @ (pay f @ r) @ z') 1 (bytes4 (of_nat (length acc) + of_nat (length (pay f)))) =
      Some (kept (acc @ pay f) @ r @ z')"
    using blit_mid [of "[0]" 1 "bytes4 (of_nat (length acc))" "bytes4 (of_nat (length (acc @ pay f)))" "acc @ pay f @ r @ z'"]
    by (simp add: kept_def)
  have sl: "slice (kept (acc @ pay f) @ r @ z') 5 (length acc + length (pay f)) = Some (acc @ pay f)"
    using slice_mid [of "0 # bytes4 (of_nat (length (acc @ pay f)))" 5 "acc @ pay f" _ "r @ z'"] by (simp add: kept_def)
  have sz: "sizep (kept (acc @ pay f) @ x) = of_nat (length acc) + of_nat (length (pay f))" for x
    by (simp add: kept_def sizep_kept)
  obtain z'' where z'': "mbuf_remove \<lparr>buf = kept (acc @ pay f) @ r @ z', len = length (kept (acc @ pay f) @ r)\<rparr>
      (length (kept (acc @ pay f))) = Some \<lparr>buf = r @ z'', len = length r\<rparr>"
      "length (r @ z'') = length (kept (acc @ pay f) @ r @ z')"
    using remove_front [of "kept (acc @ pay f)" "length (kept (acc @ pay f))" r _ z'] by auto
  have pos: "int ?off < int (length (kept (acc @ pay f) @ r @ z'))" using length_head_bounds(1) [of f] lz by simp
  obtain c1 where c1: "rd (kept (acc @ pay f) @ r @ z') (int ?off) = Some c1"
    using rd_some [OF _ pos] by auto
  obtain c2 where c2: "rd (r @ z'') (int ?off) = Some c2"
    using rd_some [OF _ pos [folded z''(2)]] by auto
  have fb: "(kept acc @ head f @ x) ! ?off = frame_byte (fop f)" for x
    using nth_append_length_plus [of "kept acc" "head f @ x" 0] by simp
  have "length (kept (acc @ pay f) @ r) = length (pay f) + (length r + (5 + length acc))"
    "length (kept (acc @ pay f)) = 5 + (length acc + length (pay f))" by simp_all
  note rm = z''(1) [unfolded this]
  show ?thesis
    using assms b u mv bl sl sz rm c1 c2 small
    by (simp add: deliver_def wire_head k0 count count' fb fragment_bits ws_lengths_wire frame_len_wire goes_on_def
        Let_def ucast_count)
qed

definition MG_F_CLOSE_IMMEDIATELY :: "64 word" where
  "MG_F_CLOSE_IMMEDIATELY = push_bit 11 1"

text \<open>What is in the buffer between two deliveries: the kept data, if any, and the bytes of the next frames.\<close>

definition buffered :: "byte list option \<Rightarrow> byte list \<Rightarrow> ws_connection \<Rightarrow> bool" where
  "buffered st r nc \<longleftrightarrow> mbuf_ok (recv_mbuf nc) \<and>
     flags nc AND MG_F_WEBSOCKET_NO_DEFRAG = 0 \<and> flags nc AND MG_F_CLOSE_IMMEDIATELY = 0 \<and>
     in_use (recv_mbuf nc) = (case st of None \<Rightarrow> r | Some acc \<Rightarrow> kept acc @ r)"

definition legal :: "byte list option \<Rightarrow> ws_frame \<Rightarrow> bool" where
  "legal st f \<longleftrightarrow> (case st of
     None \<Rightarrow> \<not> continues f \<and> (fin f \<or> from_client f) \<and> length (pay f) < 2 ^ 32
   | Some acc \<Rightarrow> continues f \<and> length (acc @ pay f) < 2 ^ 32)"

definition reassemble :: "byte list option \<Rightarrow> ws_frame \<Rightarrow> byte list option \<times> ws_call list" where
  "reassemble st f =
     (let d = (case st of None \<Rightarrow> [] | Some acc \<Rightarrow> acc) @ pay f in
      if fin f then (None, mg_handle_incoming_websocket_frame \<lparr>data = d, wsm_flags = frame_byte (fop f)\<rparr>)
      else (Some d, []))"

lemma goes_on_flags:
  assumes "goes_on nc nc'"
  shows "flags nc AND MG_F_WEBSOCKET_NO_DEFRAG = 0 \<Longrightarrow> flags nc' AND MG_F_WEBSOCKET_NO_DEFRAG = 0"
    "flags nc AND MG_F_CLOSE_IMMEDIATELY = 0 \<Longrightarrow> flags nc' AND MG_F_CLOSE_IMMEDIATELY = 0"
  using assms by (auto simp: goes_on_def MG_F_WEBSOCKET_NO_DEFRAG_def MG_F_CLOSE_IMMEDIATELY_def MG_F_SEND_AND_CLOSE_def
      bit.conj_disj_distrib2)

lemma buffered_mem:
  assumes "buffered st r nc"
  shows "\<exists>z. recv_mbuf nc = \<lparr>buf = (case st of None \<Rightarrow> [] | Some acc \<Rightarrow> kept acc) @ r @ z,
    len = length ((case st of None \<Rightarrow> [] | Some acc \<Rightarrow> kept acc) @ r)\<rparr>"
proof -
  let ?u = "(case st of None \<Rightarrow> [] | Some acc \<Rightarrow> kept acc) @ r"
  have u: "take (len (recv_mbuf nc)) (buf (recv_mbuf nc)) = ?u" and l: "len (recv_mbuf nc) \<le> length (buf (recv_mbuf nc))"
    using assms by (auto simp: buffered_def in_use_def mbuf_ok_def split: option.splits)
  then have "buf (recv_mbuf nc) = ?u @ drop (len (recv_mbuf nc)) (buf (recv_mbuf nc))" by (metis append_take_drop_id)
  moreover have "len (recv_mbuf nc) = length ?u" using l by (metis u length_take min.absorb2)
  ultimately show ?thesis by (intro exI [of _ "drop (len (recv_mbuf nc)) (buf (recv_mbuf nc))"]) (simp add: mbuf.equality)
qed

lemma deliver_step:
  assumes "buffered st (wire f @ r) nc" "legal st f" "reassemble st f = (st', calls)"
  shows "\<exists>nc'. mg_deliver_websocket_data hp True nc = Some (True, nc', calls) \<and> buffered st' r nc'"
proof -
  have nd: "flags nc AND MG_F_WEBSOCKET_NO_DEFRAG = 0" and nc: "flags nc AND MG_F_CLOSE_IMMEDIATELY = 0"
    using assms(1) by (simp_all add: buffered_def)
  have "\<exists>nc' z'. mg_deliver_websocket_data hp True nc = Some (True, nc', calls) \<and>
      recv_mbuf nc' = \<lparr>buf = (case st' of None \<Rightarrow> [] | Some acc \<Rightarrow> kept acc) @ r @ z',
        len = length ((case st' of None \<Rightarrow> [] | Some acc \<Rightarrow> kept acc) @ r)\<rparr> \<and> goes_on nc nc'"
  proof (cases st)
    case None
    obtain z where z: "recv_mbuf nc = \<lparr>buf = wire f @ r @ z, len = length (wire f @ r)\<rparr>"
      using buffered_mem [OF assms(1)] None by auto
    have l: "\<not> continues f" "fin f \<or> from_client f" "length (pay f) < 2 ^ 63" using assms(2) None by (auto simp: legal_def)
    show ?thesis
      using deliver_plain [OF z _ l(1,3), of hp True] deliver_first [OF z _ l(1) _ l(3) nd, of hp] l(2) assms(3) None
      by (cases "fin f") (auto simp: reassemble_def)
  next
    case (Some acc)
    obtain z where z: "recv_mbuf nc = \<lparr>buf = kept acc @ wire f @ r @ z, len = length (kept acc @ wire f @ r)\<rparr>"
      using buffered_mem [OF assms(1)] Some by auto
    have l: "continues f" "length (acc @ pay f) < 2 ^ 32" using assms(2) Some by (auto simp: legal_def)
    show ?thesis using deliver_next [OF z l nd, of hp True] assms(3) Some
      by (cases "fin f") (auto simp: reassemble_def)
  qed
  then show ?thesis using goes_on_flags(1) [OF _ nd] goes_on_flags(2) [OF _ nc]
    by (force simp: buffered_def mbuf_ok_def in_use_def split: option.splits)
qed

text \<open>Nothing happens before the rest of a frame has come.\<close>

definition waits :: "byte list option \<Rightarrow> byte list \<Rightarrow> bool" where
  "waits st r \<longleftrightarrow> r = [] \<or> (\<exists>f k. legal st f \<and> k < length (wire f) \<and> r = take k (wire f))"

lemma deliver_waits:
  assumes "buffered st r nc" "waits st r" "case st of None \<Rightarrow> True | Some acc \<Rightarrow> length acc < 2 ^ 32"
  shows "mg_deliver_websocket_data hp True nc = Some (False, nc, [])"
proof -
  have "\<not> complete r"
  proof (cases "r = []")
    case True
    then show ?thesis by (simp add: complete_def ws_lengths_def)
  next
    case False
    then obtain f k where "legal st f" "k < length (wire f)" "r = take k (wire f)" using assms(2) by (auto simp: waits_def)
    then show ?thesis using incomplete_wire [of f k] by (auto simp: legal_def split: option.splits)
  qed
  then obtain h d m where w: "ws_lengths r = (h, d, m)" "\<not> (of_nat h + d > 0 \<and> unat (of_nat h + d) \<le> length r)"
    by (cases "ws_lengths r") (auto simp: complete_def)
  show ?thesis
  proof (cases st)
    case None
    obtain z where z: "recv_mbuf nc = \<lparr>buf = r @ z, len = length r\<rparr>" using buffered_mem [OF assms(1)] None by auto
    have "\<not> (0 < length r \<and> mg_is_ws_fragment ((r @ z) ! 0) \<and> \<not> mg_is_ws_first_fragment ((r @ z) ! 0))"
    proof (cases r)
      case (Cons x r')
      then obtain f k where f: "legal None f" "r = take k (wire f)" using assms(2) None by (auto simp: waits_def)
      then have "x = frame_byte (fop f)" using Cons by (cases k) (auto simp: wire_head head_def)
      then show ?thesis using f(1) Cons by (auto simp: fragment_bits legal_def)
    qed simp
    then show ?thesis using z w by (auto simp: deliver_def Let_def)
  next
    case (Some acc)
    obtain z where z: "recv_mbuf nc = \<lparr>buf = kept acc @ r @ z, len = length (kept acc @ r)\<rparr>"
      using buffered_mem [OF assms(1)] Some by auto
    have "unat (of_nat (length acc) :: uint4) = length acc"
      using assms(3) Some by (simp add: unsigned_of_nat take_bit_nat_eq_self)
    moreover have "(kept acc @ x) ! 0 = 0" "sizep (kept acc @ x) = of_nat (length acc)" for x
      by (simp_all add: kept_def sizep_kept)
    ultimately show ?thesis using z w assms(1) by (auto simp: deliver_def Let_def buffered_def)
  qed
qed

section \<open>The stream\<close>

fun reassemble_all :: "byte list option \<Rightarrow> ws_frame list \<Rightarrow> byte list option \<times> ws_call list" where
  "reassemble_all st [] = (st, [])"
| "reassemble_all st (f # fs) =
     (let (st1, calls) = reassemble st f; (st2, more) = reassemble_all st1 fs in (st2, calls @ more))"

fun legal_all :: "byte list option \<Rightarrow> ws_frame list \<Rightarrow> bool" where
  "legal_all st [] \<longleftrightarrow> (case st of None \<Rightarrow> True | Some acc \<Rightarrow> length acc < 2 ^ 32)"
| "legal_all st (f # fs) \<longleftrightarrow> legal st f \<and> legal_all (fst (reassemble st f)) fs"

definition wires :: "ws_frame list \<Rightarrow> byte list" where
  "wires fs = concat (map wire fs)"

lemma legal_small: "legal_all st fs \<Longrightarrow> case st of None \<Rightarrow> True | Some acc \<Rightarrow> length acc < 2 ^ 32"
  by (cases fs) (auto simp: legal_def split: option.splits)

lemma legal_all_append: "legal_all st (fs @ gs) \<longleftrightarrow>
    legal_all st fs \<and> legal_all (fst (reassemble_all st fs)) gs"
proof (induction fs arbitrary: st)
  case Nil
  then show ?case using legal_small [of st gs] by auto
next
  case (Cons f fs)
  then show ?case by (auto simp: Let_def split: prod.splits)
qed

lemma reassemble_append: "reassemble_all st (fs @ gs) =
    (let (st1, calls) = reassemble_all st fs; (st2, more) = reassemble_all st1 gs in (st2, calls @ more))"
  by (induction fs arbitrary: st) (auto simp: Let_def split: prod.splits)

lemma receive_frames:
  assumes "buffered st (wires fs @ r) nc" "legal_all st fs" "reassemble_all st fs = (st', calls)" "waits st' r"
  shows "\<exists>nc'. ws_receive hp True nc = Some (nc', calls) \<and> buffered st' r nc'"
  using assms
proof (induction fs arbitrary: st nc calls)
  case Nil
  then show ?case using deliver_waits [OF _ _ legal_small, of st r nc "[]" hp]
    by (subst ws_receive.simps) (simp add: wires_def)
next
  case (Cons f fs)
  obtain st1 calls1 where f: "reassemble st f = (st1, calls1)" by (cases "reassemble st f")
  obtain more where m: "reassemble_all st1 fs = (st', more)" "calls = calls1 @ more"
    using Cons.prems(3) f by (auto simp: Let_def split: prod.splits)
  obtain nc1 where n: "mg_deliver_websocket_data hp True nc = Some (True, nc1, calls1)" "buffered st1 (wires fs @ r) nc1"
    using deliver_step [OF _ _ f, of "wires fs @ r" nc hp] Cons.prems(1,2) by (auto simp: wires_def)
  obtain nc' where "ws_receive hp True nc1 = Some (nc', more)" "buffered st' r nc'"
    using Cons.IH [OF n(2) _ m(1) Cons.prems(4)] Cons.prems(2) f by auto
  then show ?case using n(1) m(2) by (subst ws_receive.simps) simp
qed

definition begun :: "byte list \<Rightarrow> ws_frame list \<Rightarrow> bool" where
  "begun q fs \<longleftrightarrow> q = [] \<or> (\<exists>f fs' k. fs = f # fs' \<and> k < length (wire f) \<and> q = take k (wire f))"

text \<open>A run of bytes is a number of whole frames and the beginning of another.\<close>

lemma split_stream:
  assumes "s @ t = wires fs"
  shows "\<exists>fs1 fs2 q. fs = fs1 @ fs2 \<and> s = wires fs1 @ q \<and> q @ t = wires fs2 \<and> begun q fs2"
  using assms
proof (induction fs arbitrary: s)
  case Nil
  then show ?case by (auto simp: wires_def begun_def)
next
  case (Cons f fs)
  have e: "s @ t = wire f @ wires fs" using Cons.prems by (simp add: wires_def)
  show ?case
  proof (cases "length s < length (wire f)")
    case True
    then have "s = take (length s) (wire f)" using e by (metis append_eq_append_conv_if less_imp_le take_all_iff order_refl take_append)
    then show ?thesis using True Cons.prems
      by (intro exI [of _ "[]"] exI [of _ "f # fs"] exI [of _ s]) (auto simp: wires_def begun_def)
  next
    case False
    then have "take (length (wire f)) s = wire f" using arg_cong [OF e, of "take (length (wire f))"] by simp
    then obtain s' where s': "s = wire f @ s'" by (metis append_take_drop_id)
    then have "s' @ t = wires fs" using e by simp
    from Cons.IH [OF this] show ?thesis
      by (elim exE conjE) (rule exI [of _ "f # fs1" for fs1], auto simp: s' wires_def)
  qed
qed

text \<open>\<open>mg_recv_common\<close> at time \<open>now\<close>: the bytes that a socket has read go to the receive buffer, which adopts
  the array of the reader when it is empty and owned.\<close>

definition mg_recv_common :: "heap_state \<Rightarrow> uint4 \<Rightarrow> int \<Rightarrow> ws_connection \<Rightarrow> byte list \<Rightarrow> bool \<Rightarrow>
    (ws_connection \<times> ws_call list) option" where
  "mg_recv_common hp rnd now nc bs own =
     (if flags nc AND MG_F_CLOSE_IMMEDIATELY \<noteq> 0 then Some (nc, [])
      else do {
        mb \<leftarrow> (if \<not> own then map_option fst (mbuf_append hp (recv_mbuf nc) bs)
               else if len (recv_mbuf nc) = 0 then Some \<lparr>buf = bs, len = length bs\<rparr>
               else map_option fst (mbuf_append hp (recv_mbuf nc) bs));
        mg_ws_handler hp True rnd (nc\<lparr>last_io_time := now, recv_mbuf := mb\<rparr>) MG_EV_RECV })"

fun mg_recv_all :: "heap_state \<Rightarrow> uint4 \<Rightarrow> ws_connection \<Rightarrow> (int \<times> byte list \<times> bool) list \<Rightarrow>
    (ws_connection \<times> ws_call list) option" where
  "mg_recv_all hp rnd nc [] = Some (nc, [])"
| "mg_recv_all hp rnd nc ((now, bs, own) # segs) = do {
     (nc1, calls) \<leftarrow> mg_recv_common hp rnd now nc bs own;
     (nc2, more) \<leftarrow> mg_recv_all hp rnd nc1 segs;
     Some (nc2, calls @ more) }"

definition messages :: "ws_call list \<Rightarrow> ws_call list" where
  "messages calls = filter (\<lambda>c. case c of CALL_EV _ \<Rightarrow> False | _ \<Rightarrow> True) calls"

definition room :: "byte list option \<Rightarrow> nat" where
  "room st = (case st of None \<Rightarrow> 5 | Some acc \<Rightarrow> 5 + length acc)"

lemma messages_append [simp]: "messages (a @ b) = messages a @ messages b"
  by (simp add: messages_def)

lemma messages_reassembled: "messages (snd (reassemble_all st fs)) = snd (reassemble_all st fs)"
proof (induction fs arbitrary: st)
  case (Cons f fs)
  have "messages (snd (reassemble st f)) = snd (reassemble st f)"
    by (simp add: messages_def reassemble_def mg_handle_incoming_websocket_frame_def Let_def)
  then show ?case using Cons [of "fst (reassemble st f)"] by (simp add: Let_def split_beta)
qed (simp add: messages_def)

lemma room_reassembled: "room (fst (reassemble_all st fs)) \<le> room st + length (wires fs)"
proof (induction fs arbitrary: st)
  case (Cons f fs)
  have "room (fst (reassemble st f)) \<le> room st + length (wire f)"
    by (auto simp: room_def reassemble_def Let_def wire_head split: option.splits)
  then show ?case using Cons [of "fst (reassemble st f)"] by (auto simp: wires_def Let_def split: prod.splits)
qed (simp add: wires_def)

lemma recv_common_step:
  assumes "buffered st p nc" "p @ s @ t = wires fs" "legal_all st fs"
    and mem: "(room st + length (wires fs)) * 3 div 2 \<le> largest hp"
  shows "\<exists>fs1 fs2 q nc' calls. fs = fs1 @ fs2 \<and> mg_recv_common hp rnd now nc s own = Some (nc', calls) \<and>
    messages calls = snd (reassemble_all st fs1) \<and> buffered (fst (reassemble_all st fs1)) q nc' \<and>
    q @ t = wires fs2 \<and> begun q fs2"
proof -
  obtain fs1 fs2 q where sp: "fs = fs1 @ fs2" "p @ s = wires fs1 @ q" "q @ t = wires fs2"
      "begun q fs2"
    using split_stream [of "p @ s" t fs] assms(2) by auto
  have ok: "mbuf_ok (recv_mbuf nc)" using assms(1) by (simp add: buffered_def)
  have "len (recv_mbuf nc) = length (in_use (recv_mbuf nc))" using ok by simp
  also have "\<dots> \<le> room st + length p" using assms(1) by (auto simp: buffered_def room_def split: option.splits)
  finally have "len (recv_mbuf nc) + length s \<le> room st + length (wires fs)" using arg_cong [OF assms(2), of length] by simp
  then have "(len (recv_mbuf nc) + length s) * 3 div 2 \<le> (room st + length (wires fs)) * 3 div 2"
    by (intro div_le_mono) simp
  then have fits: "(len (recv_mbuf nc) + length s) * 3 div 2 \<le> largest hp" using mem by simp
  obtain mb k where a: "mbuf_append hp (recv_mbuf nc) s = Some (mb, k)" "mbuf_ok mb"
      "k = length s \<and> in_use mb = in_use (recv_mbuf nc) @ s \<or> k = 0 \<and> mb = recv_mbuf nc"
    using mb.append_law [OF ok] by blast
  have "k = length s" using mbuf_insert_granted [OF ok fits] a(1) by (simp add: mbuf_append_def)
  then have a3: "in_use mb = in_use (recv_mbuf nc) @ s" using a(3) by auto
  define mb' where "mb' = (if own \<and> len (recv_mbuf nc) = 0 then \<lparr>buf = s, len = length s\<rparr> else mb)"
  have mb': "mbuf_ok mb'" "in_use mb' = in_use (recv_mbuf nc) @ s"
    using a(2) a3 by (auto simp: mb'_def mbuf_ok_def in_use_def)
  let ?nc = "nc\<lparr>last_io_time := now, recv_mbuf := mb'\<rparr>"
  have "buffered st (p @ s) ?nc" using assms(1) mb' by (auto simp: buffered_def split: option.splits)
  then have b: "buffered st (wires fs1 @ q) ?nc" by (simp add: sp(2))
  have l: "legal_all st fs1" "legal_all (fst (reassemble_all st fs1)) fs2"
    using assms(3) by (simp_all add: sp(1) legal_all_append)
  have "waits (fst (reassemble_all st fs1)) q" using sp(4) l(2) by (auto simp: waits_def begun_def)
  then obtain nc' where n: "ws_receive hp True ?nc = Some (nc', snd (reassemble_all st fs1))"
      "buffered (fst (reassemble_all st fs1)) q nc'"
    using receive_frames [OF b l(1), of "fst (reassemble_all st fs1)" "snd (reassemble_all st fs1)" hp] by auto
  have "mg_recv_common hp rnd now nc s own = mg_ws_handler hp True rnd ?nc MG_EV_RECV"
    using assms(1) a(1) by (auto simp: mg_recv_common_def mb'_def buffered_def)
  also have "\<dots> = Some (nc', CALL_EV MG_EV_RECV # snd (reassemble_all st fs1))" using n(1) by (simp add: mg_ws_handler_def)
  finally show ?thesis using sp(1,3,4) n(2)
    by (intro exI [of _ fs1] exI [of _ fs2] exI [of _ q] exI [of _ nc'] exI [of _ "CALL_EV MG_EV_RECV # snd (reassemble_all st fs1)"])
      (simp add: messages_reassembled, simp add: messages_def messages_reassembled [unfolded messages_def])
qed

lemma wires_Nil: "wires fs = [] \<longleftrightarrow> fs = []"
  by (cases fs) (simp_all add: wires_def wire_head)

lemma begun_all: "begun (wires fs) fs \<Longrightarrow> fs = []"
proof (rule ccontr)
  assume "begun (wires fs) fs" "fs \<noteq> []"
  then obtain f fs' k where "fs = f # fs'" "k < length (wire f)" "wire f @ wires fs' = take k (wire f)"
    by (auto simp: begun_def wires_Nil) (auto simp: wires_def)
  then have "length (wire f @ wires fs') = min (length (wire f)) k" by (metis length_take)
  then show False using \<open>k < length (wire f)\<close> by simp
qed

lemma recv_all_stream:
  assumes "buffered st p nc" "p @ concat (map (\<lambda>(_, bs, _). bs) segs) = wires fs" "begun p fs" "legal_all st fs"
    "(room st + length (wires fs)) * 3 div 2 \<le> largest hp"
  shows "\<exists>nc' calls. mg_recv_all hp rnd nc segs = Some (nc', calls) \<and>
    messages calls = snd (reassemble_all st fs) \<and> buffered (fst (reassemble_all st fs)) [] nc'"
  using assms
proof (induction segs arbitrary: st p nc fs)
  case Nil
  then have "fs = []" using begun_all by simp
  then show ?case using Nil by (simp add: messages_def wires_def)
next
  case (Cons seg segs)
  obtain now s own where seg: "seg = (now, s, own)" by (cases seg)
  let ?t = "concat (map (\<lambda>(_, bs, _). bs) segs)"
  have "p @ s @ ?t = wires fs" using Cons.prems(2) seg by simp
  from recv_common_step [OF Cons.prems(1) this Cons.prems(4,5), of rnd now own]
  obtain fs1 fs2 q nc1 calls where 1: "fs = fs1 @ fs2" "mg_recv_common hp rnd now nc s own = Some (nc1, calls)"
      "messages calls = snd (reassemble_all st fs1)" "buffered (fst (reassemble_all st fs1)) q nc1"
      "q @ ?t = wires fs2" "begun q fs2"
    by (elim exE conjE) (rule that)
  let ?st = "fst (reassemble_all st fs1)"
  have l: "legal_all ?st fs2" using Cons.prems(4) by (simp add: 1(1) legal_all_append)
  have "room ?st + length (wires fs2) \<le> room st + length (wires fs)"
    using room_reassembled [of st fs1] by (simp add: 1(1) wires_def)
  then have "(room ?st + length (wires fs2)) * 3 div 2 \<le> (room st + length (wires fs)) * 3 div 2"
    by (intro div_le_mono mult_le_mono1)
  then have "(room ?st + length (wires fs2)) * 3 div 2 \<le> largest hp" using Cons.prems(5) by simp
  from Cons.IH [OF 1(4-6) l this] obtain nc' more where 2: "mg_recv_all hp rnd nc1 segs = Some (nc', more)"
      "messages more = snd (reassemble_all ?st fs2)" "buffered (fst (reassemble_all ?st fs2)) [] nc'" by blast
  have eq: "reassemble_all st fs = (fst (reassemble_all ?st fs2), snd (reassemble_all st fs1) @ snd (reassemble_all ?st fs2))"
    by (simp add: 1(1) reassemble_append Let_def split_beta)
  have "mg_recv_all hp rnd nc (seg # segs) = Some (nc', calls @ more)" by (simp add: seg 1(2) 2(1))
  moreover have "messages (calls @ more) = snd (reassemble_all st fs)"
    by (simp only: messages_append 1(3) 2(2) eq snd_conv)
  moreover have "buffered (fst (reassemble_all st fs)) [] nc'" using 2(3) by (simp only: eq fst_conv)
  ultimately show ?case by blast
qed

section \<open>Properties\<close>

text \<open>The sender of a list of frames, which may use another mask for each.\<close>

definition send_all :: "ws_connection \<Rightarrow> (uint4 \<times> uint4 \<times> byte list) list \<Rightarrow> ws_connection" where
  "send_all nc ms = fold (\<lambda>(rnd, op, d) c. mg_send_websocket_frame_on rnd c op d) ms nc"

definition frames_of :: "bool \<Rightarrow> (uint4 \<times> uint4 \<times> byte list) list \<Rightarrow> ws_frame list" where
  "frames_of client ms = map (\<lambda>(rnd, op, d). \<lparr>from_client = client, rand = rnd, fop = op, pay = d\<rparr>) ms"

lemma send_keeps: "accepted (mg_send_websocket_frame_on rnd nc op d) = accepted nc"
  by (simp add: mg_send_websocket_frame_on_def ws_send_masked_def mg_send_ws_header_on_def mg_send_def Let_def)

lemma send_all_wires: "send_mbuf (send_all nc ms) = send_mbuf nc @ wires (frames_of (\<not> accepted nc) ms)"
proof (induction ms arbitrary: nc)
  case (Cons m ms)
  obtain rnd op d where m: "m = (rnd, op, d)" by (cases m)
  have "send_all nc (m # ms) = send_all (mg_send_websocket_frame_on rnd nc op d) ms" by (simp add: send_all_def m)
  then show ?case using Cons [of "mg_send_websocket_frame_on rnd nc op d"]
    by (simp add: send_frame_wire send_keeps frames_of_def wires_def wire_def m)
qed (simp add: send_all_def frames_of_def wires_def)

lemma stream_delivered:
  assumes "\<not> accepted client" "send_mbuf client = []"
    and "concat (map (\<lambda>(_, bs, _). bs) segs) = send_mbuf (send_all client ms)"
    and "legal_all None (frames_of True ms)" "fst (reassemble_all None (frames_of True ms)) = None"
    and "recv_mbuf nc = \<lparr>buf = [], len = 0\<rparr>"
    and "flags nc AND MG_F_WEBSOCKET_NO_DEFRAG = 0" "flags nc AND MG_F_CLOSE_IMMEDIATELY = 0"
    and "(5 + length (send_mbuf (send_all client ms))) * 3 div 2 \<le> largest hp"
  shows "\<exists>nc' calls. mg_recv_all hp rnd nc segs = Some (nc', calls) \<and>
    messages calls = snd (reassemble_all None (frames_of True ms)) \<and> in_use (recv_mbuf nc') = []"
proof -
  have w: "send_mbuf (send_all client ms) = wires (frames_of True ms)" using assms(1,2) by (simp add: send_all_wires)
  have "buffered None [] nc" using assms(6-8) by (simp add: buffered_def mbuf_ok_def in_use_def)
  from recv_all_stream [OF this _ _ assms(4), of segs hp rnd] show ?thesis
    using assms(3,5,9) by (auto simp: w begun_def room_def buffered_def)
qed


definition test_conn :: "bool \<Rightarrow> byte list \<Rightarrow> ws_connection" where
  "test_conn acc bs = \<lparr>cid = 1, flags = 0, recv_mbuf = \<lparr>buf = bs, len = length bs\<rparr>, send_mbuf = [], accepted = acc,
     last_io_time = 0\<rparr>"

definition test_heap :: heap_state where
  "test_heap = \<lparr>fresh_byte = \<lambda>_. 0, largest = 40\<rparr>"

definition test_frames :: "(uint4 \<times> uint4 \<times> byte list) list" where
  "test_frames = [(7, 0x101, [72]), (9, 0, [105, 33]), (1, 2, [9])]"

definition test_bytes :: "byte list" where
  "test_bytes = send_mbuf (send_all (test_conn False []) test_frames)"

lemma test_legal: "legal_all None (frames_of True test_frames)"
  by (simp add: test_frames_def frames_of_def legal_def continues_def fin_def reassemble_def WEBSOCKET_DONT_FIN_def)

lemma test_calls: "reassemble_all None (frames_of True test_frames) =
    (None, [CALL_WEBSOCKET_FRAME \<lparr>data = [72, 105, 33], wsm_flags = 128\<rparr>, CALL_WEBSOCKET_FRAME \<lparr>data = [9], wsm_flags = 130\<rparr>])"
  by (simp add: test_frames_def frames_of_def fin_def reassemble_def WEBSOCKET_DONT_FIN_def frame_byte_def
      mg_handle_incoming_websocket_frame_def)

lemma test_length: "length test_bytes = 22"
  by (simp add: test_bytes_def send_all_wires test_conn_def test_frames_def frames_of_def wires_def wire_def
      ws_wire_def len_ext_def)


text \<open>A vector of strings is sent as their concatenation.\<close>

theorem framev_concat:
  "length (concat strv) < 2 ^ 31 \<Longrightarrow>
   mg_send_websocket_framev rnd nc op strv = mg_send_websocket_frame_on rnd nc op (concat strv)"
  by (rule send_framev_wire)


end
