(* ===== verification/Ws_Server.thy ===== *)
theory Ws_Server
  imports Ws_Stream
begin

text \<open>
  The websocket side of the web server as a whole: the answer to the request for a websocket is the one of
  RFC 6455, and the frames that a client sends come back as the echo of \<open>http_server.cc\<close>.
\<close>

section \<open>The handshake\<close>

lemma code_not_0: "0 \<le> v \<and> v < 64 \<Longrightarrow> code v \<noteq> 0"
proof -
  have "\<forall>v \<in> set [0..63]. code v \<noteq> 0" by code_simp
  then show "0 \<le> v \<and> v < 64 \<Longrightarrow> code v \<noteq> 0" by simp
qed

lemma base64_not_0: "0 \<notin> set (base64 s)"
  by (induction s rule: base64.induct) (simp_all add: code_not_0 [OF sextet_range(1), THEN not_sym]
      code_not_0 [OF sextet_range(2), THEN not_sym] code_not_0 [OF sextet_range(3), THEN not_sym]
      code_not_0 [OF sextet_range(4), THEN not_sym])

lemma sha1_of_pieces:
  assumes "length (ctx_buf c) = 64" "length a < 2 ^ 32 - 64" "length b < 2 ^ 32 - 64"
  shows "mg_hash_sha1_v c [a, b] = Some (sha1_digest (a @ b))"
proof -
  obtain c1 where c1: "cs_sha1_update (cs_sha1_init c) a (of_nat (length a)) = Some c1" "sha_holds a c1"
    using cs_sha1_update_spec [OF sha_holds_init [OF assms(1)] order_refl assms(2)] by auto
  obtain c2 where c2: "cs_sha1_update c1 b (of_nat (length b)) = Some c2" "sha_holds (a @ b) c2"
    using cs_sha1_update_spec [OF c1(2) order_refl assms(3)] by auto
  show ?thesis using c1(1) c2 cs_sha1_final_spec [OF c2(2)] by (auto simp: mg_hash_sha1_v_def)
qed

text \<open>C16: the answer to a websocket request carries the base64 code of the SHA-1 digest of the client's key
  followed by the identifier of the protocol; the local buffers are large enough.\<close>

theorem ws_handshake_accept:
  assumes "length (ctx_buf junk) = 64" "length b64_junk = 30" "length key < 2 ^ 32 - 64"
  shows "mg_ws_handshake junk b64_junk nc key = Some (mg_send nc
    (ascii ''HTTP/1.1 101 Switching Protocols'' @ crlf @ ascii ''Upgrade: websocket'' @ crlf @
     ascii ''Connection: Upgrade'' @ crlf @ ascii ''Sec-WebSocket-Accept: '' @
     base64 (sha1_digest (key @ ws_magic)) @ crlf @ crlf))"
proof -
  have "length ws_magic = 36" by (simp add: ws_magic_def ascii_def)
  then have "mg_hash_sha1_v junk [key, ws_magic] = Some (sha1_digest (key @ ws_magic))"
    using assms by (intro sha1_of_pieces) auto
  moreover have "cs_base64_encode (sha1_digest (key @ ws_magic)) b64_junk =
      Some (base64 (sha1_digest (key @ ws_magic)) @ 0 # drop 29 b64_junk)"
    using assms(2) by (simp add: cs_base64_encode_def encode_body_spec encode_fill_spec blit_in length_base64 length_sha1_digest)
  ultimately show ?thesis by (simp add: mg_ws_handshake_def c_str_append_zero base64_not_0)
qed

theorem ws_handshake_accept_witness:
  "mg_ws_handshake \<lparr>regs = (0, 0, 0, 0, 0), bits0 = 0, bits1 = 0, ctx_buf = replicate 64 7\<rparr> (replicate 30 9)
     (test_conn True []) (ascii ''dGhlIHNhbXBsZSBub25jZQ=='') = Some (mg_send (test_conn True [])
    (ascii ''HTTP/1.1 101 Switching Protocols'' @ crlf @ ascii ''Upgrade: websocket'' @ crlf @
     ascii ''Connection: Upgrade'' @ crlf @ ascii ''Sec-WebSocket-Accept: '' @
     base64 (sha1_digest (ascii ''dGhlIHNhbXBsZSBub25jZQ=='' @ ws_magic)) @ crlf @ crlf))"
  by (rule ws_handshake_accept) (simp_all add: ascii_def)

section \<open>The echo\<close>

text \<open>What \<open>OnHttpWebsocketEvent\<close> makes of a call of mongoose.\<close>

definition event_of :: "ws_call \<Rightarrow> mg_event" where
  "event_of c = (case c of CALL_WEBSOCKET_FRAME m \<Rightarrow> MG_EV_WEBSOCKET_FRAME (data m) | _ \<Rightarrow> MG_EV_OTHER)"

definition echo :: "nat \<Rightarrow> ws_call \<Rightarrow> sent list" where
  "echo c call = (case call of CALL_WEBSOCKET_FRAME m \<Rightarrow>
       [Send c (mg_send_websocket_frame 1 (ascii ''send your msg back: '' @ c_str (data m)))]
     | _ \<Rightarrow> [])"

definition short_call :: "ws_call \<Rightarrow> bool" where
  "short_call call = (case call of CALL_WEBSOCKET_FRAME m \<Rightarrow> length (data m) < 1024 | _ \<Rightarrow> True)"

lemma serve_calls:
  assumes "\<forall>call \<in> set (messages calls). short_call call"
  shows "serve add junk (map (\<lambda>call. (c, event_of call)) calls) s =
    Some (s, concat (map (echo (cid c)) (messages calls)))"
  using assms
proof (induction calls)
  case (Cons call calls)
  then have s: "short_call call" by (cases call) (auto simp: messages_def short_call_def)
  have "OnHttpWebsocketEvent add junk c (event_of call) s = Some (s, echo (cid c) call)"
  proof (cases call)
    case (CALL_WEBSOCKET_FRAME m)
    then show ?thesis using s by (simp add: event_of_def echo_def short_call_def frame_answer)
  qed (simp_all add: event_of_def echo_def OnHttpWebsocketEvent_def)
  moreover have "concat (map (echo (cid c)) (messages (call # calls))) = echo (cid c) call @ concat (map (echo (cid c)) (messages calls))"
    by (cases call) (simp_all add: messages_def echo_def)
  moreover have "\<forall>call \<in> set (messages calls). short_call call" using Cons.prems by (simp add: messages_def)
  ultimately show ?case using Cons.IH by simp
qed (simp add: messages_def)



end
