(* ===== verification/Mg_Http.thy ===== *)
theory Mg_Http
  imports Ws_Server
begin

text \<open>
  The HTTP parser of \<open>c++/utils/web_server/common/mongoose.cc\<close> and the part of \<open>mg_http_handler\<close> that takes
  requests from the receive buffer.  A \<open>mg_str\<close> is the index of its first byte in the buffer and its
  length.  The platform is the one of \<open>CS_P_UNIX\<close>: \<open>to64\<close> is \<open>strtoll\<close>, there are 20 entries for headers,
  and a request line with its headers has less than 1024 bytes.  A read behind the buffer is \<open>None\<close>.
\<close>

section \<open>Definitions\<close>

type_synonym mg_str = "nat \<times> nat"

definition str_at :: "byte list \<Rightarrow> mg_str \<Rightarrow> byte list" where
  "str_at s v = take (snd v) (drop (fst v) s)"

definition isprint :: "byte \<Rightarrow> bool" where
  "isprint c \<longleftrightarrow> 32 \<le> c \<and> c \<le> 126"

text \<open>The scan for the empty line that ends the headers, from index \<open>i\<close> on.\<close>

fun request_len_from :: "nat \<Rightarrow> byte list \<Rightarrow> int" where
  "request_len_from i [] = 0"
| "request_len_from i (c # r) =
     (if \<not> isprint c \<and> c \<noteq> 13 \<and> c \<noteq> 10 \<and> c < 128 then - 1
      else if c = 10 \<and> length r \<ge> 1 \<and> r ! 0 = 10 then int i + 2
      else if c = 10 \<and> length r \<ge> 2 \<and> r ! 0 = 13 \<and> r ! 1 = 10 then int i + 3
      else request_len_from (i + 1) r)"

definition mg_http_get_request_len :: "byte list \<Rightarrow> int" where
  "mg_http_get_request_len s = request_len_from 0 s"

text \<open>\<open>strchr\<close> also finds the zero that ends the delimiters.  The result is the string and the next index.\<close>

definition mg_skip :: "byte list \<Rightarrow> nat \<Rightarrow> nat \<Rightarrow> byte list \<Rightarrow> mg_str \<times> nat" where
  "mg_skip s i e delims =
     (let r = take (e - i) (drop i s);
          v = takeWhile (\<lambda>c. c \<notin> set (delims @ [0])) r;
          d = takeWhile (\<lambda>c. c \<in> set (delims @ [0])) (drop (length v) r)
      in ((i, length v), i + length v + length d))"

fun digits_value :: "int \<Rightarrow> byte list \<Rightarrow> int" where
  "digits_value n [] = n"
| "digits_value n (c # r) = (if isdigit c then digits_value (10 * n + uint (c - 48)) r else n)"

text \<open>\<open>strtoll (x, NULL, 10)\<close>, and \<open>atoi\<close>, which is \<open>strtol\<close> converted to \<open>int\<close>.\<close>

definition strtoll :: "byte list \<Rightarrow> 64 word" where
  "strtoll x =
     (let r = dropWhile isspace x;
          (neg, ds) = (case r of c # r' \<Rightarrow> if c = 45 then (True, r') else if c = 43 then (False, r') else (False, r)
            | [] \<Rightarrow> (False, []));
          n = digits_value 0 ds; v = (if neg then - n else n)
      in word_of_int (max (- (2 ^ 63)) (min (2 ^ 63 - 1) v)))"

definition atoi :: "byte list \<Rightarrow> 32 word" where
  "atoi x = ucast (strtoll x)"

record http_parsed =
  hm_method :: mg_str
  hm_uri :: mg_str
  proto :: mg_str
  query_string :: mg_str
  resp_code :: int
  resp_status_msg :: mg_str
  headers :: "(mg_str \<times> mg_str) list"
  body_p :: nat
  body_len :: "64 word"
  message_len :: "64 word"

definition trim_spaces :: "byte list \<Rightarrow> mg_str \<Rightarrow> mg_str" where
  "trim_spaces s v = (fst v, length (dropWhile (\<lambda>c. c = 32) (rev (str_at s v))))"

lemma mg_skip_bounds: "mg_skip s i e delims = (v, j) \<Longrightarrow> i + snd v \<le> j \<and> (j \<le> e \<or> j = i) \<and> fst v = i"
proof -
  define r where "r = take (e - i) (drop i s)"
  define v' where "v' = takeWhile (\<lambda>c. c \<notin> set (delims @ [0])) r"
  define d where "d = takeWhile (\<lambda>c. c \<in> set (delims @ [0])) (drop (length v') r)"
  assume "mg_skip s i e delims = (v, j)"
  then have v: "v = (i, length v')" "j = i + length v' + length d"
    by (auto simp: mg_skip_def Let_def r_def v'_def d_def)
  have "length d \<le> length (drop (length v') r)" unfolding d_def by (rule length_takeWhile_le)
  then have "length d \<le> length r - length v'" by simp
  moreover have "length v' \<le> length r" unfolding v'_def by (rule length_takeWhile_le)
  moreover have "length r \<le> e - i" by (simp add: r_def)
  ultimately have "length v' + length d \<le> e - i" by linarith
  then show ?thesis unfolding v by (cases "i \<le> e") auto
qed

text \<open>The headers of the buffer \<open>s\<close> from \<open>i\<close> to \<open>e\<close>; \<open>n\<close> is the length of the request line and the headers.
  Headers without value are left out.\<close>

function mg_http_parse_headers :: "byte list \<Rightarrow> nat \<Rightarrow> nat \<Rightarrow> nat \<Rightarrow> http_parsed \<Rightarrow> (nat \<times> http_parsed) option" where
  "mg_http_parse_headers s i e n hm =
     (if length (headers hm) < 19 then
        (let (k, i1) = mg_skip s i e [58, 32];
             (v0, i2) = mg_skip s i1 e [13, 10];
             v = trim_spaces s v0
         in
         if snd k \<noteq> 0 \<and> snd v = 0 then mg_http_parse_headers s i2 e n hm
         else if snd k = 0 \<or> snd v = 0 then Some (i2, hm)
         else do {
           c \<leftarrow> mg_ncasecmp (drop (fst k) s) (ascii ''Content-Length'') 14;
           let hm1 = (if c = 0 then
               (let b = strtoll (drop (fst v) s) in hm\<lparr>body_len := b, message_len := of_nat n + b\<rparr>) else hm);
           mg_http_parse_headers s i2 e n (hm1\<lparr>headers := headers hm1 @ [(k, v)]\<rparr>) })
      else Some (i, hm))"
  by pat_completeness auto
termination
proof (relation "measure (\<lambda>(s, i, e, n, hm). e - i)", goal_cases)
  case (2 s i e n hm x k i1 y v0 i2 v)
  then show ?case using mg_skip_bounds [of s i e "[58, 32]" k i1] mg_skip_bounds [of s i1 e "[13, 10]" v0 i2]
    by auto
next
  case (3 s i e n hm x k i1 y v0 i2 v c hm1)
  then show ?case using mg_skip_bounds [of s i e "[58, 32]" k i1] mg_skip_bounds [of s i1 e "[13, 10]" v0 i2]
    by auto
qed simp

declare mg_http_parse_headers.simps [simp del]

definition memchr :: "byte list \<Rightarrow> mg_str \<Rightarrow> byte \<Rightarrow> nat option" where
  "memchr s v c = (let r = takeWhile (\<lambda>x. x \<noteq> c) (str_at s v) in
     if length r < length (str_at s v) then Some (fst v + length r) else None)"

definition new_message :: "nat \<Rightarrow> http_parsed" where
  "new_message n = \<lparr>hm_method = (0, 0), hm_uri = (0, 0), proto = (0, 0), query_string = (0, 0), resp_code = 0,
     resp_status_msg = (0, 0), headers = [], body_p = n, body_len = - 1, message_len = - 1\<rparr>"

text \<open>The index after the first line, or \<open>None\<close> for a line that is refused.\<close>

definition parse_request_line :: "byte list \<Rightarrow> nat \<Rightarrow> nat \<Rightarrow> http_parsed \<Rightarrow> (nat \<times> http_parsed) option" where
  "parse_request_line s i e hm =
     (let (m, i1) = mg_skip s i e [32]; (u, i2) = mg_skip s i1 e [32]; (p, i3) = mg_skip s i2 e [13, 10] in
      if fst u \<le> fst m \<or> fst p \<le> fst u then None
      else Some (i3, (case memchr s u 63 of
          Some q \<Rightarrow> hm\<lparr>hm_method := m, hm_uri := (fst u, q - fst u), proto := p,
            query_string := (q + 1, fst u + snd u - (q + 1))\<rparr>
        | None \<Rightarrow> hm\<lparr>hm_method := m, hm_uri := u, proto := p\<rparr>)))"

definition parse_status_line :: "byte list \<Rightarrow> nat \<Rightarrow> nat \<Rightarrow> http_parsed \<Rightarrow> (nat \<times> http_parsed) option" where
  "parse_status_line s i e hm =
     (let (p, i1) = mg_skip s i e [32]; code = sint (atoi (drop i1 s)) in
      if int e - int i1 < 4 \<or> s ! (i1 + 3) \<noteq> 32 then None
      else if code < 100 \<or> code \<ge> 600 then None
      else (let (m, i2) = mg_skip s (i1 + 4) e [13, 10] in
        Some (i2, hm\<lparr>proto := p, resp_code := code, resp_status_msg := m\<rparr>)))"

text \<open>The returned number, and the message when it is positive.\<close>

definition mg_parse_http :: "byte list \<Rightarrow> bool \<Rightarrow> (int \<times> http_parsed) option" where
  "mg_parse_http s is_req =
     (let l = mg_http_get_request_len s; n = nat l in
      if l \<le> 0 then Some (l, new_message 0)
      else
        (let i = length (takeWhile isspace (take n s)) in
         case (if is_req then parse_request_line s i n (new_message n) else parse_status_line s i n (new_message n)) of
           None \<Rightarrow> Some (- 1, new_message n)
         | Some (i1, hm) \<Rightarrow> do {
             (i2, hm1) \<leftarrow> mg_http_parse_headers s i1 n n hm;
             put \<leftarrow> mg_vcasecmp (str_at s (hm_method hm1)) (ascii ''PUT'');
             post \<leftarrow> mg_vcasecmp (str_at s (hm_method hm1)) (ascii ''POST'');
             Some (l, if body_len hm1 = - 1 \<and> is_req \<and> put \<noteq> 0 \<and> post \<noteq> 0
                      then hm1\<lparr>body_len := 0, message_len := of_nat n\<rparr> else hm1) }))"

text \<open>The value of the first header with this name.\<close>

fun find_header :: "byte list \<Rightarrow> byte list \<Rightarrow> (mg_str \<times> mg_str) list \<Rightarrow> mg_str option option" where
  "find_header s name [] = Some None"
| "find_header s name ((h, v) # hs) =
     (if snd h = length name then do {
        c \<leftarrow> mg_ncasecmp (drop (fst h) s) name (length name);
        if c = 0 then Some (Some v) else find_header s name hs }
      else find_header s name hs)"

definition mg_get_http_header :: "byte list \<Rightarrow> http_parsed \<Rightarrow> byte list \<Rightarrow> mg_str option option" where
  "mg_get_http_header s hm name = find_header s name (headers hm)"

section \<open>The parser reads its buffer only\<close>

lemma mg_ncasecmp_within: "n \<le> length s \<Longrightarrow> n \<le> length t \<Longrightarrow> \<exists>r. mg_ncasecmp s t n = Some r"
  by (induction s t n rule: mg_ncasecmp.induct) (auto simp: Let_def)

lemma mg_vcasecmp_some: "\<exists>r. mg_vcasecmp s t = Some r"
proof -
  have "\<exists>r. mg_ncasecmp s t (if length s < length t then length s else length t) = Some r"
    by (rule mg_ncasecmp_within) auto
  then show ?thesis by (auto simp: mg_vcasecmp_def)
qed

lemma tolower_10: "tolower c = 10 \<Longrightarrow> c = 10"
proof -
  assume a: "tolower c = 10"
  have "\<not> (65 \<le> c \<and> c \<le> 90)"
  proof
    assume b: "65 \<le> c \<and> c \<le> 90"
    then have "c + 32 = 10" using a by (simp add: tolower_def)
    then have "c + 32 - 32 = 10 - 32" by (simp only:)
    then have "c = 10 - 32" by (simp only: add_diff_cancel_right')
    with b show False by simp
  qed
  with a show "c = 10" by (simp add: tolower_def split: if_splits)
qed

text \<open>A comparison with a name ends at the latest at a line end.\<close>

lemma mg_ncasecmp_line: "10 \<in> set s \<Longrightarrow> 10 \<notin> set t \<Longrightarrow> n \<le> length t \<Longrightarrow> \<exists>r. mg_ncasecmp s t n = Some r"
proof (induction s t n rule: mg_ncasecmp.induct)
  case (2 a s1 b s2 n)
  have "tolower a \<noteq> tolower b" if "a = 10"
    using 2(3) tolower_10 [of b] that by (auto simp: tolower_def)
  then have "a = 10 \<Longrightarrow> uint (tolower a) - uint (tolower b) \<noteq> 0"
    by (metis word_uint_eqI right_minus_eq)
  then show ?case using 2 by (cases "a = 10") (auto simp: Let_def)
qed auto

lemma request_len_spec:
  "request_len_from i s > 0 \<Longrightarrow> \<exists>k. request_len_from i s = int i + int k \<and> 0 < k \<and> k \<le> length s \<and> s ! (k - 1) = 10"
proof (induction i s rule: request_len_from.induct)
  case (2 i c r)
  let ?bad = "\<not> isprint c \<and> c \<noteq> 13 \<and> c \<noteq> 10 \<and> c < 128"
  let ?lf = "c = 10 \<and> length r \<ge> 1 \<and> r ! 0 = 10"
  let ?crlf = "c = 10 \<and> length r \<ge> 2 \<and> r ! 0 = 13 \<and> r ! 1 = 10"
  have nb: "\<not> ?bad" using "2.prems" by auto
  show ?case
  proof (cases "?lf \<or> ?crlf")
    case True
    then show ?thesis using nb by (auto intro: exI [of _ 2] exI [of _ 3])
  next
    case False
    then have e: "request_len_from i (c # r) = request_len_from (i + 1) r" using nb by (simp only: request_len_from.simps) auto
    then obtain k where "request_len_from (i + 1) r = int (i + 1) + int k \<and> 0 < k \<and> k \<le> length r \<and> r ! (k - 1) = 10"
      using "2.IH" "2.prems" nb False by auto
    then show ?thesis unfolding e by (intro exI [of _ "k + 1"]) auto
  qed
qed simp

lemma get_request_len_spec:
  assumes "mg_http_get_request_len s > 0"
  shows "nat (mg_http_get_request_len s) \<le> length s" "s ! (nat (mg_http_get_request_len s) - 1) = 10"
  using request_len_spec [of 0 s] assms by (auto simp: mg_http_get_request_len_def)

definition inside :: "nat \<Rightarrow> mg_str \<Rightarrow> bool" where
  "inside n v \<longleftrightarrow> fst v + snd v \<le> n"

definition parsed_inside :: "nat \<Rightarrow> http_parsed \<Rightarrow> bool" where
  "parsed_inside n hm \<longleftrightarrow> inside n (hm_method hm) \<and> inside n (hm_uri hm) \<and> inside n (proto hm) \<and> inside n (query_string hm) \<and>
     inside n (resp_status_msg hm) \<and> list_all (\<lambda>(k, v). inside n k \<and> inside n v) (headers hm) \<and> length (headers hm) \<le> 19"

lemma trim_inside: "snd (trim_spaces s v) \<le> snd v" "fst (trim_spaces s v) = fst v"
proof -
  have "length (dropWhile (\<lambda>c. c = 32) (rev (str_at s v))) \<le> length (str_at s v)"
    using length_dropWhile_le [of "\<lambda>c. c = 32" "rev (str_at s v)"] by simp
  then show "snd (trim_spaces s v) \<le> snd v" by (simp add: trim_spaces_def str_at_def)
qed (simp add: trim_spaces_def)

lemma parse_headers_inside:
  assumes "parsed_inside n hm" "i \<le> n" "e = n" "0 < n" "n \<le> length s" "s ! (n - 1) = 10"
  shows "\<exists>j hm'. mg_http_parse_headers s i e m hm = Some (j, hm') \<and> parsed_inside n hm'"
  using assms
proof (induction s i e m hm rule: mg_http_parse_headers.induct)
  case (1 s i e m hm)
  obtain k i1 where k: "mg_skip s i e [58, 32] = (k, i1)" by (cases "mg_skip s i e [58, 32]")
  obtain v0 i2 where v0: "mg_skip s i1 e [13, 10] = (v0, i2)" by (cases "mg_skip s i1 e [13, 10]")
  let ?v = "trim_spaces s v0"
  have b: "i + snd k \<le> i1" "i1 \<le> n" "fst k = i" "i1 + snd v0 \<le> i2" "i2 \<le> n" "fst v0 = i1"
    using mg_skip_bounds [OF k] mg_skip_bounds [OF v0] 1(3-5) by auto
  have kv: "inside n k" "inside n ?v" using b trim_inside [of s v0] by (simp_all add: inside_def)
  show ?case
  proof (cases "length (headers hm) < 19")
    case False
    then show ?thesis using 1(3) by (subst mg_http_parse_headers.simps) simp
  next
    case True
    consider "snd k \<noteq> 0" "snd ?v = 0" | "snd k = 0" | "snd k \<noteq> 0" "snd ?v \<noteq> 0" by blast
    then show ?thesis
    proof cases
      case 1
      then show ?thesis using "1.IH"(1) [OF True refl k [symmetric] refl v0 [symmetric] refl] "1.prems" b True k v0
        by (subst mg_http_parse_headers.simps) (simp add: Let_def)
    next
      case 2
      then show ?thesis using "1.prems" True k v0 by (subst mg_http_parse_headers.simps) (simp add: Let_def)
    next
      case 3
      have "10 \<in> set (drop (fst k) s)"
      proof -
        have "drop (fst k) s ! (n - 1 - i) = 10" "n - 1 - i < length (drop (fst k) s)"
          using "1.prems" b 3(1) by auto
        then show ?thesis by (metis nth_mem)
      qed
      then obtain c where c: "mg_ncasecmp (drop (fst k) s) (ascii ''Content-Length'') 14 = Some c"
        using mg_ncasecmp_line [of "drop (fst k) s" "ascii ''Content-Length''" 14] by (auto simp: ascii_def)
      let ?hm1 = "if c = 0 then (let b = strtoll (drop (fst ?v) s) in hm\<lparr>body_len := b, message_len := of_nat m + b\<rparr>) else hm"
      have "parsed_inside n (?hm1\<lparr>headers := headers ?hm1 @ [(k, ?v)]\<rparr>)"
        using "1.prems"(1) True kv by (auto simp: parsed_inside_def Let_def)
      then show ?thesis
        using "1.IH"(2) [OF True refl k [symmetric] refl v0 [symmetric] refl, of c ?hm1] 3 "1.prems" b True k v0 c
        by (subst mg_http_parse_headers.simps) (simp add: Let_def)
    qed
  qed
qed

lemma mg_skip_inside: "mg_skip s i n delims = (v, j) \<Longrightarrow> i \<le> n \<Longrightarrow> i \<le> j \<and> j \<le> n \<and> inside n v \<and> inside j v"
  using mg_skip_bounds [of s i n delims v j] by (auto simp: inside_def)

lemma request_line_inside:
  assumes "parse_request_line s i n hm = Some (j, hm')" "i \<le> n" "parsed_inside n hm"
  shows "j \<le> n \<and> parsed_inside n hm'"
proof -
  obtain m i1 where m: "mg_skip s i n [32] = (m, i1)" by (cases "mg_skip s i n [32]")
  obtain u i2 where u: "mg_skip s i1 n [32] = (u, i2)" by (cases "mg_skip s i1 n [32]")
  obtain p i3 where p: "mg_skip s i2 n [13, 10] = (p, i3)" by (cases "mg_skip s i2 n [13, 10]")
  have b: "i1 \<le> n" "inside n m" "i2 \<le> n" "inside n u" "i3 \<le> n" "inside n p"
    using mg_skip_inside [OF m] mg_skip_inside [OF u] mg_skip_inside [OF p] assms(2) by auto
  have q: "inside n (fst u, q - fst u) \<and> inside n (q + 1, fst u + snd u - (q + 1))" if "memchr s u 63 = Some q" for q
    using that b(4) by (auto simp: memchr_def Let_def str_at_def inside_def split: if_splits)
  show ?thesis using assms(1,3) m u p b q
    by (auto simp: parse_request_line_def parsed_inside_def split: if_splits option.splits)
qed

lemma status_line_inside:
  assumes "parse_status_line s i n hm = Some (j, hm')" "i \<le> n" "parsed_inside n hm"
  shows "j \<le> n \<and> parsed_inside n hm'"
proof -
  obtain p i1 where p: "mg_skip s i n [32] = (p, i1)" by (cases "mg_skip s i n [32]")
  obtain m i2 where m: "mg_skip s (i1 + 4) n [13, 10] = (m, i2)" by (cases "mg_skip s (i1 + 4) n [13, 10]")
  show ?thesis using assms p m mg_skip_inside [OF p] mg_skip_inside [OF m]
    by (auto simp: parse_status_line_def Let_def parsed_inside_def split: if_splits)
qed

lemma new_message_inside: "parsed_inside n (new_message k)"
  by (simp add: parsed_inside_def new_message_def inside_def)

lemma request_len_cases: "request_len_from i s \<ge> - 1"
  by (induction i s rule: request_len_from.induct) auto

lemma parse_http_inside:
  "\<exists>l hm. mg_parse_http s is_req = Some (l, hm) \<and> - 1 \<le> l \<and> l \<le> int (length s) \<and>
    parsed_inside (nat l) hm"
proof (cases "mg_http_get_request_len s \<le> 0")
  case True
  then show ?thesis using request_len_cases [of 0 s] new_message_inside
    by (simp add: mg_parse_http_def Let_def mg_http_get_request_len_def)
next
  case False
  define n where "n = nat (mg_http_get_request_len s)"
  define i where "i = length (takeWhile isspace (take n s))"
  have n: "mg_http_get_request_len s = int n" "0 < n" "n \<le> length s" "s ! (n - 1) = 10"
    using False get_request_len_spec [of s] by (auto simp: n_def)
  have i: "i \<le> n" unfolding i_def using length_takeWhile_le [of isspace "take n s"] n(3) by simp
  define ln where "ln = (if is_req then parse_request_line s i n (new_message n) else parse_status_line s i n (new_message n))"
  have eq: "mg_parse_http s is_req = (case ln of
      None \<Rightarrow> Some (- 1, new_message n)
    | Some (i1, hm) \<Rightarrow> do {
        (i2, hm1) \<leftarrow> mg_http_parse_headers s i1 n n hm;
        put \<leftarrow> mg_vcasecmp (str_at s (hm_method hm1)) (ascii ''PUT'');
        post \<leftarrow> mg_vcasecmp (str_at s (hm_method hm1)) (ascii ''POST'');
        Some (mg_http_get_request_len s, if body_len hm1 = - 1 \<and> is_req \<and> put \<noteq> 0 \<and> post \<noteq> 0
             then hm1\<lparr>body_len := 0, message_len := of_nat n\<rparr> else hm1) })"
    using False unfolding mg_parse_http_def Let_def ln_def i_def n_def by (simp only: if_False)
  show ?thesis
  proof (cases ln)
    case None
    then show ?thesis unfolding eq using new_message_inside by simp
  next
    case (Some r)
    then obtain i1 hm where r: "ln = Some (i1, hm)" by (cases r) auto
    then have "i1 \<le> n \<and> parsed_inside n hm"
      using request_line_inside [OF _ i new_message_inside] status_line_inside [OF _ i new_message_inside]
      unfolding ln_def by (auto split: if_splits)
    then obtain j hm1 where h: "mg_http_parse_headers s i1 n n hm = Some (j, hm1)" "parsed_inside n hm1"
      using parse_headers_inside [of n hm i1 n s n] n by auto
    obtain a b where ab: "mg_vcasecmp (str_at s (hm_method hm1)) (ascii ''PUT'') = Some a"
      "mg_vcasecmp (str_at s (hm_method hm1)) (ascii ''POST'') = Some b" using mg_vcasecmp_some by meson
    then have "mg_parse_http s is_req = Some (int n, if body_len hm1 = - 1 \<and> is_req \<and> a \<noteq> 0 \<and> b \<noteq> 0
        then hm1\<lparr>body_len := 0, message_len := of_nat n\<rparr> else hm1)"
      unfolding eq r by (simp add: h(1) n(1))
    then show ?thesis using n h(2) by (auto simp: parsed_inside_def)
  qed
qed


end
