(* ===== verification/Mg_Http_Text.thy ===== *)
theory Mg_Http_Text
  imports Mg_Http
begin

text \<open>
  What the HTTP parser of mongoose makes of a request that is written as RFC 7230 says: a request line, any
  number of header lines, an empty line, and what follows.
\<close>

section \<open>Definitions\<close>

definition good :: "byte \<Rightarrow> bool" where
  "good c \<longleftrightarrow> isprint c \<or> 128 \<le> c"

definition field_line :: "byte list \<times> byte list \<Rightarrow> byte list" where
  "field_line h = fst h @ [58, 32] @ snd h @ crlf"

definition request_text :: "byte list \<Rightarrow> byte list \<Rightarrow> byte list \<Rightarrow> (byte list \<times> byte list) list \<Rightarrow> byte list" where
  "request_text m u p hs = m @ [32] @ u @ [32] @ p @ crlf @ concat (map field_line hs) @ crlf"

definition good_word :: "byte list \<Rightarrow> bool" where
  "good_word x \<longleftrightarrow> x \<noteq> [] \<and> (\<forall>c \<in> set x. good c \<and> c \<noteq> 32)"

definition good_header :: "byte list \<times> byte list \<Rightarrow> bool" where
  "good_header h \<longleftrightarrow> good_word (fst h) \<and> 58 \<notin> set (fst h) \<and> (\<forall>c \<in> set (snd h). good c) \<and>
     (snd h \<noteq> [] \<longrightarrow> hd (snd h) \<noteq> 32 \<and> hd (snd h) \<noteq> 58 \<and> last (snd h) \<noteq> 32)"

definition good_request :: "byte list \<Rightarrow> byte list \<Rightarrow> byte list \<Rightarrow> (byte list \<times> byte list) list \<Rightarrow> bool" where
  "good_request m u p hs \<longleftrightarrow> good_word m \<and> good_word u \<and> p \<noteq> [] \<and> hd p \<noteq> 32 \<and> (\<forall>c \<in> set p. good c) \<and> list_all good_header hs"

text \<open>The headers that the parser keeps, and the length that the last of them with this name declares.\<close>

definition kept :: "(byte list \<times> byte list) list \<Rightarrow> (byte list \<times> byte list) list" where
  "kept hs = take 19 (filter (\<lambda>h. snd h \<noteq> []) hs)"

definition is_content_length :: "byte list \<Rightarrow> bool" where
  "is_content_length k \<longleftrightarrow> map tolower (take 14 k) = map tolower (ascii ''Content-Length'')"

fun declared :: "(byte list \<times> byte list) list \<Rightarrow> 64 word option" where
  "declared [] = None"
| "declared (h # hs) = (case declared hs of Some b \<Rightarrow> Some b
     | None \<Rightarrow> if is_content_length (fst h) then Some (strtoll (snd h)) else None)"

definition has_body :: "byte list \<Rightarrow> bool" where
  "has_body m \<longleftrightarrow> map tolower m \<in> {ascii ''put'', ascii ''post''}"

definition body_length :: "byte list \<Rightarrow> (byte list \<times> byte list) list \<Rightarrow> 64 word" where
  "body_length m hs = (let b = (case declared (kept hs) of Some b \<Rightarrow> b | None \<Rightarrow> - 1)
     in if b = - 1 \<and> \<not> has_body m then 0 else b)"

definition path :: "byte list \<Rightarrow> byte list" where
  "path u = takeWhile (\<lambda>c. c \<noteq> 63) u"

definition query :: "byte list \<Rightarrow> byte list" where
  "query u = tl (dropWhile (\<lambda>c. c \<noteq> 63) u)"

definition fields_of :: "byte list \<Rightarrow> http_parsed \<Rightarrow> (byte list \<times> byte list) list" where
  "fields_of s hm = map (\<lambda>(k, v). (str_at s k, str_at s v)) (headers hm)"

section \<open>The end of the headers\<close>

lemma good_not: "good c \<Longrightarrow> c \<noteq> 0 \<and> c \<noteq> 10 \<and> c \<noteq> 13"
  by (auto simp: good_def isprint_def)

lemma good_not_set: "\<forall>c \<in> set x. good c \<Longrightarrow> 0 \<notin> set x \<and> 10 \<notin> set x \<and> 13 \<notin> set x"
  using good_not by blast

lemma request_len_good: "\<forall>c \<in> set x. good c \<Longrightarrow> request_len_from i (x @ r) = request_len_from (i + length x) r"
proof (induction x arbitrary: i)
  case (Cons c x)
  then show ?case using good_not [of c] by (auto simp: good_def not_less)
qed simp

lemma request_len_crlf: "good c \<Longrightarrow> request_len_from i (crlf @ c # r) = request_len_from (i + 2) (c # r)"
  using good_not [of c] by (simp add: crlf_def del: request_len_from.simps(2)) (simp add: request_len_from.simps(2) [of _ 13] request_len_from.simps(2) [of _ 10])

lemma request_len_end: "request_len_from i (crlf @ crlf @ r) = int i + 4"
  by (simp add: crlf_def)

lemma request_len_lines:
  assumes "list_all (\<lambda>x. x \<noteq> [] \<and> (\<forall>c \<in> set x. good c)) ls" "ls \<noteq> []"
  shows "request_len_from i (concat (map (\<lambda>x. x @ crlf) ls) @ crlf @ r) =
    int i + int (length (concat (map (\<lambda>x. x @ crlf) ls))) + 2"
  using assms
proof (induction ls arbitrary: i)
  case (Cons x ls)
  then have x: "\<forall>c \<in> set x. good c" by simp
  show ?case
  proof (cases ls)
    case Nil
    then show ?thesis using x by (simp add: request_len_good request_len_end crlf_def)
  next
    case (Cons y ys)
    then obtain c z where y: "y = c # z" "good c" using Cons.prems by (cases y) auto
    have "request_len_from i (concat (map (\<lambda>x. x @ crlf) (x # ls)) @ crlf @ r) =
        request_len_from (i + length x + 2) (concat (map (\<lambda>x. x @ crlf) ls) @ crlf @ r)"
      using x y Cons by (simp add: request_len_good request_len_crlf del: request_len_from.simps)
    then show ?thesis using Cons.IH Cons.prems Cons by (simp add: crlf_def)
  qed
qed simp

section \<open>The fields\<close>

lemma mg_skip_at:
  assumes "drop i (take e s) = v @ d @ r" "\<forall>c \<in> set v. c \<notin> set (delims @ [0])" "\<forall>c \<in> set d. c \<in> set delims"
    and "d \<noteq> [] \<or> r = []" "r = [] \<or> hd r \<notin> set (delims @ [0])"
  shows "mg_skip s i e delims = ((i, length v), i + length v + length d)"
proof -
  have t: "take (e - i) (drop i s) = v @ d @ r" using assms(1) by (simp add: drop_take)
  have "takeWhile (\<lambda>c. c \<notin> set (delims @ [0])) (d @ r) = []" using assms(3,4) by (cases d) auto
  then have v: "takeWhile (\<lambda>c. c \<notin> set (delims @ [0])) (v @ d @ r) = v"
    using assms(2) by (subst takeWhile_append2) auto
  have "takeWhile (\<lambda>c. c \<in> set (delims @ [0])) r = []" using assms(5) by (cases r) auto
  then have d: "takeWhile (\<lambda>c. c \<in> set (delims @ [0])) (d @ r) = d"
    using assms(3) by (subst takeWhile_append2) auto
  show ?thesis using v d by (simp add: mg_skip_def t Let_def)
qed

lemma drop_at: "drop i (take e s) = v @ w \<Longrightarrow> drop (i + length v) (take e s) = w"
  by (metis add.commute append_eq_conv_conj drop_drop)

lemma str_at_here: assumes "drop i (take e s) = v @ w" shows "str_at s (i, length v) = v"
proof -
  have t: "take (e - i) (drop i s) = v @ w" using assms by (simp add: drop_take)
  have "length (v @ w) \<le> e - i" using t by (metis length_take min.cobounded2)
  then have "take (length v) (take (e - i) (drop i s)) = take (length v) (drop i s)" by (simp add: min_def)
  then show ?thesis using t by (simp add: str_at_def)
qed

lemma rest_here: "drop i (take e s) = v @ w \<Longrightarrow> v @ w \<noteq> [] \<Longrightarrow> drop i s = v @ w @ drop e s"
  by (metis append.assoc append_take_drop_id drop_append drop_eq_Nil diff_is_0_eq drop0 length_take min.absorb2 nat_le_linear drop_all)

lemma tolower_below: "tolower b < 97 \<Longrightarrow> tolower b = b"
proof -
  have "97 \<le> b + 32" if "65 \<le> b" "b \<le> 90"
  proof -
    have "65 \<le> unat b" "unat b \<le> 90" using that by (simp_all add: word_le_nat_alt)
    then have "unat (b + 32) = unat b + 32" by (simp add: unat_word_ariths)
    then show ?thesis using \<open>65 \<le> unat b\<close> by (simp add: word_le_nat_alt)
  qed
  then show "tolower b < 97 \<Longrightarrow> ?thesis" by (simp add: tolower_def leD split: if_splits)
qed

lemma compare_name:
  assumes "58 \<notin> set t" "0 \<notin> set t" "n \<le> length t"
  shows "\<exists>c. mg_ncasecmp (k @ 58 # w) t n = Some c \<and>
    (c = 0 \<longleftrightarrow> n \<le> length k \<and> map tolower (take n k) = map tolower (take n t))"
  using assms
proof (induction k arbitrary: t n)
  case Nil
  show ?case
  proof (cases n)
    case (Suc m)
    then obtain b t' where t: "t = b # t'" using Nil by (cases t) auto
    have "tolower b \<noteq> 58" using t Nil(1) tolower_below [of b] by auto
    moreover have "tolower 58 = 58" by (simp add: tolower_def)
    ultimately have "uint (tolower 58) - uint (tolower b) \<noteq> 0" by (metis word_uint_eqI right_minus_eq)
    then show ?thesis using t Suc by (simp add: Let_def)
  qed simp
next
  case (Cons a k)
  show ?case
  proof (cases n)
    case (Suc m)
    then obtain b t' where t: "t = b # t'" using Cons by (cases t) auto
    have d: "uint (tolower a) - uint (tolower b) = 0 \<longleftrightarrow> tolower a = tolower b" by (simp add: word_uint_eq_iff)
    have z: "tolower a \<noteq> tolower b" if "a = 0"
      using that t Cons.prems(2) tolower_below [of b] by (auto simp: tolower_def [of 0])
    have IH: "\<exists>c. mg_ncasecmp (k @ 58 # w) t' m = Some c \<and>
        (c = 0 \<longleftrightarrow> m \<le> length k \<and> map tolower (take m k) = map tolower (take m t'))"
      by (rule Cons.IH) (use Cons.prems t Suc in auto)
    show ?thesis using d z IH t Suc by (cases m) (auto simp: Let_def)
  qed simp
qed

section \<open>The headers\<close>

definition header_text :: "(byte list \<times> byte list) list \<Rightarrow> byte list" where
  "header_text hs = (if hs = [] then [] else concat (map field_line hs) @ crlf)"

lemma header_text_Cons: "header_text (h # hs) =
    fst h @ [58, 32] @ snd h @ (crlf @ (if hs = [] then crlf else [])) @ header_text hs"
  by (simp add: header_text_def field_line_def)

lemma header_text_Nil [simp]: "header_text [] = []"
  by (simp add: header_text_def)

lemma header_text_hd: "list_all good_header hs \<Longrightarrow> header_text hs = [] \<or> good (hd (header_text hs)) \<and> hd (header_text hs) \<noteq> 32"
  by (cases hs) (auto simp: header_text_Cons good_header_def good_word_def hd_append)

lemma strtoll_line:
  assumes "\<forall>c \<in> set v. good c" "v \<noteq> []" "hd v \<noteq> 32"
  shows "strtoll (v @ 13 # w) = strtoll v"
proof -
  have d: "digits_value n (x @ 13 # w) = digits_value n x" for n x
    by (induction x arbitrary: n) (simp_all add: isdigit_def)
  obtain c r where v: "v = c # r" using assms(2) by (cases v) auto
  have "\<not> isspace c"
    using assms(1,3) v order_trans [of 32 c 13] order_trans [of 128 c 13] by (auto simp: good_def isprint_def isspace_def)
  then show ?thesis using v d [of 0 "c # r"] d [of 0 r] by (simp add: strtoll_def Let_def del: digits_value.simps)
qed

lemma trim_nothing: "v \<noteq> [] \<longrightarrow> last v \<noteq> 32 \<Longrightarrow> str_at s x = v \<Longrightarrow> snd x = length v \<Longrightarrow> trim_spaces s x = x"
  by (cases v rule: rev_cases) (auto simp: trim_spaces_def prod_eq_iff)

definition with_headers :: "nat \<Rightarrow> (mg_str \<times> mg_str) list \<Rightarrow> 64 word option \<Rightarrow> http_parsed \<Rightarrow> http_parsed" where
  "with_headers n ps d hm = (let hm1 = (case d of Some b \<Rightarrow> hm\<lparr>body_len := b, message_len := of_nat n + b\<rparr> | None \<Rightarrow> hm)
     in hm1\<lparr>headers := headers hm @ ps\<rparr>)"

text \<open>The first header of the text.\<close>

lemma first_header:
  assumes t: "drop i (take e s) = header_text (h # hs)" and g: "list_all good_header (h # hs)"
  shows "\<exists>k i1 v i2. mg_skip s i e [58, 32] = (k, i1) \<and> mg_skip s i1 e [13, 10] = (v, i2) \<and> trim_spaces s v = v \<and>
    drop i2 (take e s) = header_text hs \<and> str_at s k = fst h \<and> str_at s v = snd h \<and> snd k = length (fst h) \<and> snd v = length (snd h) \<and>
    (\<exists>w. drop (fst k) s = fst h @ 58 # w) \<and> (\<exists>w. drop (fst v) s = snd h @ 13 # w)"
proof -
  let ?d = "crlf @ (if hs = [] then crlf else [])"
  let ?r = "snd h @ ?d @ header_text hs"
  have k: "good_word (fst h)" "58 \<notin> set (fst h)" and v: "\<forall>c \<in> set (snd h). good c"
    and e: "snd h \<noteq> [] \<longrightarrow> hd (snd h) \<noteq> 32 \<and> hd (snd h) \<noteq> 58 \<and> last (snd h) \<noteq> 32"
    and gs: "list_all good_header hs" using g by (auto simp: good_header_def)
  have t1: "drop i (take e s) = fst h @ [58, 32] @ ?r" using t by (simp add: header_text_Cons)
  then have t2: "drop (i + length (fst h) + 2) (take e s) = ?r" using drop_at [OF drop_at [OF t1]] by simp
  have t3: "drop (i + length (fst h) + 2 + length (snd h) + length ?d) (take e s) = header_text hs"
    using drop_at [OF drop_at [OF t2]] .
  have "?r = [] \<or> hd ?r \<notin> set ([58, 32] @ [0])" using v e good_not_set [OF v] by (cases "snd h") (auto simp: crlf_def)
  then have s1: "mg_skip s i e [58, 32] = ((i, length (fst h)), i + length (fst h) + 2)"
    using mg_skip_at [OF t1, of "[58, 32]"] k good_not_set [of "fst h"] by (auto simp: good_word_def)
  have hd: "header_text hs = [] \<or> hd (header_text hs) \<notin> set ([13, 10] @ [0])"
    using header_text_hd [OF gs] good_not [of "hd (header_text hs)"] by auto
  have s2: "mg_skip s (i + length (fst h) + 2) e [13, 10] =
      ((i + length (fst h) + 2, length (snd h)), i + length (fst h) + 2 + length (snd h) + length ?d)"
  proof (rule mg_skip_at [OF t2])
    show "\<forall>c \<in> set (snd h). c \<notin> set ([13, 10] @ [0])" using good_not_set [OF v] by auto
  qed (use hd in \<open>simp_all add: crlf_def\<close>)
  have tr: "trim_spaces s (i + length (fst h) + 2, length (snd h)) = (i + length (fst h) + 2, length (snd h))"
    using e by (intro trim_nothing [OF _ str_at_here [OF t2]]) auto
  obtain w1 where w1: "drop i s = fst h @ 58 # w1" using rest_here [OF t1] by auto
  obtain w2 where w2: "drop (i + length (fst h) + 2) s = snd h @ 13 # w2" using rest_here [OF t2] by (auto simp: crlf_def)
  show ?thesis using s1 s2 tr t3 str_at_here [OF t1] str_at_here [OF t2] w1 w2 by (intro exI conjI) auto
qed

lemma parse_headers_step:
  assumes "length (headers hm) < 19" "drop i (take e s) = header_text (h # hs)" "list_all good_header (h # hs)"
  shows "\<exists>k v i2. str_at s k = fst h \<and> str_at s v = snd h \<and> drop i2 (take e s) = header_text hs \<and>
    mg_http_parse_headers s i e n hm = mg_http_parse_headers s i2 e n
      (if snd h = [] then hm
       else with_headers n [(k, v)] (if is_content_length (fst h) then Some (strtoll (snd h)) else None) hm)"
proof -
  obtain k i1 v i2 where m: "mg_skip s i e [58, 32] = (k, i1)" "mg_skip s i1 e [13, 10] = (v, i2)" "trim_spaces s v = v"
    and r: "drop i2 (take e s) = header_text hs" "str_at s k = fst h" "str_at s v = snd h"
    and l: "snd k = length (fst h)" "snd v = length (snd h)"
    and w: "\<exists>w. drop (fst k) s = fst h @ 58 # w" "\<exists>w. drop (fst v) s = snd h @ 13 # w"
    using first_header [OF assms(2,3)] by metis
  have g: "fst h \<noteq> []" "\<forall>c \<in> set (snd h). good c" "snd h \<noteq> [] \<longrightarrow> hd (snd h) \<noteq> 32"
    using assms(3) by (auto simp: good_header_def good_word_def)
  have "58 \<notin> set (ascii ''Content-Length'')" "0 \<notin> set (ascii ''Content-Length'')" "14 \<le> length (ascii ''Content-Length'')"
    by (simp_all add: ascii_def)
  from compare_name [OF this] w(1)
  obtain c where c: "mg_ncasecmp (drop (fst k) s) (ascii ''Content-Length'') 14 = Some c"
    "c = 0 \<longleftrightarrow> 14 \<le> length (fst h) \<and> map tolower (take 14 (fst h)) = map tolower (take 14 (ascii ''Content-Length''))"
    by metis
  have cl: "c = 0 \<longleftrightarrow> is_content_length (fst h)"
  proof -
    have "14 \<le> length (fst h)" if "map tolower (take 14 (fst h)) = map tolower (ascii ''Content-Length'')"
      using arg_cong [OF that, of length] by (simp add: ascii_def)
    then show ?thesis using c(2) by (auto simp: is_content_length_def ascii_def)
  qed
  have st: "snd h \<noteq> [] \<Longrightarrow> strtoll (drop (fst v) s) = strtoll (snd h)" using strtoll_line g w(2) by metis
  show ?thesis
  proof (intro exI conjI)
    show "mg_http_parse_headers s i e n hm = mg_http_parse_headers s i2 e n
      (if snd h = [] then hm
       else with_headers n [(k, v)] (if is_content_length (fst h) then Some (strtoll (snd h)) else None) hm)"
      using assms(1) g(1) m l c(1) cl st
      by (subst mg_http_parse_headers.simps) (simp add: Let_def with_headers_def)
  qed (use r in auto)
qed

lemma parse_headers_text:
  assumes "drop i (take e s) = header_text hs" "list_all good_header hs"
    and "kh = take (19 - length (headers hm)) (filter (\<lambda>h. snd h \<noteq> []) hs)"
  shows "\<exists>j ps. mg_http_parse_headers s i e n hm = Some (j, with_headers n ps (declared kh) hm) \<and>
    map (\<lambda>(k, v). (str_at s k, str_at s v)) ps = kh"
  using assms
proof (induction hs arbitrary: i hm kh)
  case Nil
  have "mg_skip s i e d = ((i, 0), i)" for d using mg_skip_at [of i e s "[]" "[]" "[]" d] Nil(1) by simp
  then have "mg_http_parse_headers s i e n hm = Some (i, hm)"
    by (subst mg_http_parse_headers.simps) (simp add: Let_def trim_spaces_def str_at_def)
  then show ?case using Nil by (intro exI [of _ i] exI [of _ "[]"]) (simp add: with_headers_def)
next
  case (Cons h hs)
  show ?case
  proof (cases "length (headers hm) < 19")
    case False
    then have "mg_http_parse_headers s i e n hm = Some (i, hm)"
      by (subst mg_http_parse_headers.simps) simp
    then show ?thesis using Cons.prems False by (intro exI [of _ i] exI [of _ "[]"]) (simp add: with_headers_def)
  next
    case True
    obtain k v i2 where s: "str_at s k = fst h" "str_at s v = snd h" "drop i2 (take e s) = header_text hs"
      and p: "mg_http_parse_headers s i e n hm = mg_http_parse_headers s i2 e n
      (if snd h = [] then hm
       else with_headers n [(k, v)] (if is_content_length (fst h) then Some (strtoll (snd h)) else None) hm)"
      using parse_headers_step [OF True Cons.prems(1,2)] by metis
    show ?thesis
    proof (cases "snd h = []")
      case True
      then show ?thesis using Cons.IH [of i2 kh hm] s(3) Cons.prems p by simp
    next
      case False
      let ?hm = "with_headers n [(k, v)] (if is_content_length (fst h) then Some (strtoll (snd h)) else None) hm"
      let ?H = "take (19 - length (headers ?hm)) (filter (\<lambda>h. snd h \<noteq> []) hs)"
      have kh: "kh = h # ?H" using True False Cons.prems(3) by (simp add: with_headers_def Let_def take_Cons' split: option.split)
      obtain j ps where "mg_http_parse_headers s i2 e n ?hm = Some (j, with_headers n ps (declared ?H) ?hm)"
          "map (\<lambda>(k, v). (str_at s k, str_at s v)) ps = ?H"
        using Cons.IH [OF s(3) _ refl, of ?hm] Cons.prems by auto
      moreover have "with_headers n ps (declared ?H) ?hm = with_headers n ((k, v) # ps) (declared kh) hm"
        unfolding kh by (simp add: with_headers_def Let_def split: option.split)
      ultimately show ?thesis using p False s kh by (intro exI [of _ j] exI [of _ "(k, v) # ps"]) simp
    qed
  qed
qed

section \<open>The request line\<close>

lemma request_text_parts: "request_text m u p hs =
    m @ [32] @ u @ [32] @ p @ (crlf @ (if hs = [] then crlf else [])) @ header_text hs"
  by (simp add: request_text_def header_text_def)

lemma length_request: assumes "good_request m u p hs"
  shows "mg_http_get_request_len (request_text m u p hs @ rest) = int (length (request_text m u p hs))"
proof -
  let ?l = "m @ [32] @ u @ [32] @ p"
  let ?ls = "?l # map (\<lambda>h. fst h @ [58, 32] @ snd h) hs"
  have "good 32" "good 58" by (simp_all add: good_def isprint_def)
  then have g: "list_all (\<lambda>x. x \<noteq> [] \<and> (\<forall>c \<in> set x. good c)) ?ls"
    using assms by (auto simp: good_request_def good_word_def good_header_def list_all_iff)
  have t: "request_text m u p hs = concat (map (\<lambda>x. x @ crlf) ?ls) @ crlf"
    by (simp add: request_text_def field_line_def [abs_def] o_def)
  show ?thesis using request_len_lines [OF g, of 0 rest] unfolding t mg_http_get_request_len_def by (simp add: crlf_def)
qed

lemma path_split: "63 \<notin> set a \<Longrightarrow> path (a @ 63 # b) = a" "63 \<notin> set a \<Longrightarrow> query (a @ 63 # b) = b"
proof -
  assume "63 \<notin> set a"
  then have "\<And>c. c \<in> set a \<Longrightarrow> c \<noteq> 63" by auto
  then show "path (a @ 63 # b) = a" "query (a @ 63 # b) = b" by (simp_all add: path_def query_def)
qed

lemma path_whole: "63 \<notin> set a \<Longrightarrow> path a = a" "63 \<notin> set a \<Longrightarrow> query a = []"
proof -
  assume "63 \<notin> set a"
  then have a: "\<And>c. c \<in> set a \<Longrightarrow> c \<noteq> 63" by auto
  have "takeWhile (\<lambda>c. c \<noteq> 63) a = a" by (rule takeWhile_eq_all_conv [THEN iffD2]) (use a in blast)
  moreover have "dropWhile (\<lambda>c. c \<noteq> 63) a = []" by (rule dropWhile_eq_Nil_conv [THEN iffD2]) (use a in blast)
  ultimately show "path a = a" "query a = []" by (simp_all only: path_def query_def list.sel)
qed

lemma memchr_at: assumes "str_at s v = x"
  shows "memchr s v 63 = (if 63 \<in> set x then Some (fst v + length (path x)) else None)"
proof (cases "63 \<in> set x")
  case True
  then obtain a b where "x = a @ 63 # b" "63 \<notin> set a" by (meson split_list_first)
  then show ?thesis using path_split [of a b] by (simp add: memchr_def assms Let_def path_def)
next
  case False
  then have "length (takeWhile (\<lambda>c. c \<noteq> 63) x) = length x" using path_whole(1) [OF False] by (simp only: path_def)
  then show ?thesis using False by (simp add: memchr_def assms Let_def)
qed

lemma str_at_path: "str_at s (i, n) = x \<Longrightarrow> str_at s (i, length (path x)) = path x"
proof -
  assume x: "str_at s (i, n) = x"
  have "take (length (path x)) x = path x" unfolding path_def by (rule takeWhile_eq_take [symmetric])
  moreover have "length (path x) \<le> n"
    using length_takeWhile_le [of "\<lambda>c. c \<noteq> 63" x] x by (auto simp: path_def str_at_def)
  ultimately show ?thesis using x by (auto simp: str_at_def min_def)
qed

lemma str_at_query: assumes "str_at s (i, length x) = x" "63 \<in> set x"
  shows "str_at s (i + length (path x) + 1, length x - (length (path x) + 1)) = query x"
proof -
  obtain a b where x: "x = a @ 63 # b" "63 \<notin> set a" using assms(2) by (meson split_list_first)
  have "drop (length a + 1) (take (length x) (drop i s)) = b" using assms(1) x by (simp add: str_at_def)
  then show ?thesis using x path_split [OF x(2)] by (simp add: str_at_def drop_take add.commute add.left_commute)
qed

lemma request_line_text:
  assumes g: "good_request m u p hs" and t: "take e s = request_text m u p hs"
  shows "\<exists>i3 vm vu vq vp. parse_request_line s 0 e hm = Some (i3, hm\<lparr>hm_method := vm, hm_uri := vu, query_string := vq, proto := vp\<rparr>) \<and>
    drop i3 (take e s) = header_text hs \<and> str_at s vm = m \<and> str_at s vu = path u \<and>
    (if 63 \<in> set u then str_at s vq = query u else vq = query_string hm) \<and> str_at s vp = p"
proof -
  let ?d = "crlf @ (if hs = [] then crlf else [])"
  have m: "m \<noteq> []" "\<forall>c \<in> set m. good c \<and> c \<noteq> 32" and u: "u \<noteq> []" "\<forall>c \<in> set u. good c \<and> c \<noteq> 32"
    and p: "p \<noteq> []" "hd p \<noteq> 32" "\<forall>c \<in> set p. good c" and gs: "list_all good_header hs"
    using g by (auto simp: good_request_def good_word_def)
  have t0: "drop 0 (take e s) = m @ [32] @ u @ [32] @ p @ ?d @ header_text hs" using t by (simp add: request_text_parts)
  define i1 i2 where "i1 = length m + 1" and "i2 = i1 + length u + 1"
  have t1: "drop i1 (take e s) = u @ [32] @ p @ ?d @ header_text hs"
    using drop_at [OF drop_at [OF t0]] by (simp add: i1_def)
  have t2: "drop i2 (take e s) = p @ ?d @ header_text hs"
    using drop_at [OF drop_at [OF t1]] by (simp add: i2_def)
  have t3: "drop (i2 + length p + length ?d) (take e s) = header_text hs" using drop_at [OF drop_at [OF t2]] .
  have z: "good c \<Longrightarrow> c \<notin> {0, 10, 13}" for c using good_not by auto
  have s0: "mg_skip s 0 e [32] = ((0, length m), i1)"
    using mg_skip_at [OF t0, of "[32]"] m u z by (cases u) (auto simp: i1_def)
  have "\<forall>c \<in> set u. c \<notin> set ([32] @ [0])" using u z by auto
  moreover have "hd (p @ ?d @ header_text hs) \<notin> set ([32] @ [0])" using p z [of "hd p"] by (cases p) auto
  ultimately have s1: "mg_skip s i1 e [32] = ((i1, length u), i2)"
    using mg_skip_at [OF t1, of "[32]"] by (simp add: i2_def)
  have hd: "header_text hs = [] \<or> hd (header_text hs) \<notin> set ([13, 10] @ [0])"
    using header_text_hd [OF gs] z [of "hd (header_text hs)"] by auto
  have s2: "mg_skip s i2 e [13, 10] = ((i2, length p), i2 + length p + length ?d)"
  proof (rule mg_skip_at [OF t2])
    show "\<forall>c \<in> set p. c \<notin> set ([13, 10] @ [0])" using p(3) z by auto
  qed (use hd in \<open>simp_all add: crlf_def\<close>)
  have uu: "str_at s (i1, length u) = u" by (rule str_at_here [OF t1])
  define q where "q = i1 + length (path u)"
  have lt: "0 < i1" "i1 < i2" by (simp_all add: i1_def i2_def)
  have l: "parse_request_line s 0 e hm = Some (i2 + length p + length ?d, (case memchr s (i1, length u) 63 of
      Some q \<Rightarrow> hm\<lparr>hm_method := (0, length m), hm_uri := (i1, q - i1), proto := (i2, length p),
        query_string := (q + 1, i1 + length u - (q + 1))\<rparr>
    | None \<Rightarrow> hm\<lparr>hm_method := (0, length m), hm_uri := (i1, length u), proto := (i2, length p)\<rparr>))"
    using s0 s1 s2 lt by (simp add: parse_request_line_def split: option.split)
  have "parse_request_line s 0 e hm = Some (i2 + length p + length ?d, hm\<lparr>hm_method := (0, length m),
      hm_uri := (i1, length (path u)),
      query_string := (if 63 \<in> set u then (q + 1, length u - (length (path u) + 1)) else query_string hm), proto := (i2, length p)\<rparr>)"
    unfolding l memchr_at [OF uu] using path_whole(1) [of u] by (simp add: q_def)
  moreover have "str_at s (0, length m) = m" "str_at s (i2, length p) = p" using str_at_here [OF t0] str_at_here [OF t2] by auto
  moreover have "str_at s (i1, length (path u)) = path u" by (rule str_at_path [OF uu])
  moreover have "63 \<in> set u \<Longrightarrow> str_at s (q + 1, length u - (length (path u) + 1)) = query u"
    unfolding q_def by (rule str_at_query [OF uu])
  ultimately show ?thesis using t3 by (intro exI conjI) auto
qed

lemma request_text_parsed:
  assumes g: "good_request m u p hs" and s: "s = request_text m u p hs @ rest"
  shows "\<exists>hm. mg_parse_http s True = Some (int (length (request_text m u p hs)), hm) \<and>
    str_at s (hm_method hm) = m \<and> str_at s (hm_uri hm) = path u \<and> str_at s (query_string hm) = query u \<and>
    str_at s (proto hm) = p \<and> fields_of s hm = kept hs \<and> body_p hm = length (request_text m u p hs) \<and>
    body_len hm = body_length m hs \<and>
    message_len hm = (if declared (kept hs) = None \<and> has_body m then - 1
      else of_nat (length (request_text m u p hs)) + body_length m hs)"
proof -
  define n where "n = length (request_text m u p hs)"
  have n: "mg_http_get_request_len s = int n" unfolding s n_def by (rule length_request [OF g])
  have t: "take n s = request_text m u p hs" by (simp add: s n_def)
  have n0: "0 < n" by (simp add: n_def request_text_def)
  have m: "m \<noteq> []" "good (hd m) \<and> hd m \<noteq> 32" "\<forall>c \<in> set m. good c" using g by (auto simp: good_request_def good_word_def)
  have "\<not> isspace (hd m)"
    using m(2) order_trans [of 32 "hd m" 13] order_trans [of 128 "hd m" 13] by (auto simp: good_def isprint_def isspace_def)
  then have i: "takeWhile isspace (take n s) = []" using m(1) by (cases m) (simp_all add: t request_text_def)
  obtain i3 vm vu vq vp where l: "parse_request_line s 0 n (new_message n) =
        Some (i3, (new_message n)\<lparr>hm_method := vm, hm_uri := vu, query_string := vq, proto := vp\<rparr>)"
      "drop i3 (take n s) = header_text hs" "str_at s vm = m" "str_at s vu = path u"
      "if 63 \<in> set u then str_at s vq = query u else vq = query_string (new_message n)" "str_at s vp = p"
    using request_line_text [OF g t] by blast
  let ?hm = "(new_message n)\<lparr>hm_method := vm, hm_uri := vu, query_string := vq, proto := vp\<rparr>"
  have gs: "list_all good_header hs" using g by (simp add: good_request_def)
  have k: "kept hs = take (19 - length (headers ?hm)) (filter (\<lambda>h. snd h \<noteq> []) hs)" by (simp add: kept_def new_message_def)
  obtain j ps where h: "mg_http_parse_headers s i3 n n ?hm = Some (j, with_headers n ps (declared (kept hs)) ?hm)"
      "map (\<lambda>(k, v). (str_at s k, str_at s v)) ps = kept hs"
    using parse_headers_text [OF l(2) gs k] by blast
  have z: "0 \<notin> set m" using m(3) good_not_set by blast
  obtain a b where ab: "mg_vcasecmp m (ascii ''PUT'') = Some a" "mg_vcasecmp m (ascii ''POST'') = Some b" using mg_vcasecmp_some by meson
  have hb: "a \<noteq> 0 \<and> b \<noteq> 0 \<longleftrightarrow> \<not> has_body m"
    using mg_vcasecmp_eq [OF z, of "ascii ''PUT''"] mg_vcasecmp_eq [OF z, of "ascii ''POST''"] ab
    by (auto simp: has_body_def ascii_def tolower_def)
  let ?hm1 = "with_headers n ps (declared (kept hs)) ?hm"
  have mt: "hm_method ?hm1 = vm" by (simp add: with_headers_def Let_def split: option.split)
  have "mg_parse_http s True = Some (int n, if body_len ?hm1 = - 1 \<and> \<not> has_body m then ?hm1\<lparr>body_len := 0, message_len := of_nat n\<rparr> else ?hm1)"
    using n n0 h(1) l(1) ab hb mt l(3) unfolding mg_parse_http_def Let_def by (simp add: i)
  moreover have "str_at s vq = query u" using l(5) path_whole(2) [of u] by (auto simp: new_message_def str_at_def split: if_splits)
  ultimately show ?thesis using l(3,4,6) h(2) unfolding n_def [symmetric]
    by (auto simp: with_headers_def Let_def fields_of_def body_length_def new_message_def split: option.split)
qed

text \<open>C18: the parser reads what is written.  From a request line and header lines in the form of RFC 7230,
  followed by anything, it returns their length and the method, the path, the query behind the first
  question mark, the protocol, and the first 19 headers that have a value; the length of the body is the
  number in the last of these whose name begins with \<open>Content-Length\<close>, in any case, and without one it is 0, or
  unknown for \<open>PUT\<close> and \<open>POST\<close>.\<close>

theorem parse_request_roundtrip:
  assumes "good_request m u p hs" and "s = request_text m u p hs @ rest"
  shows "\<exists>hm. mg_parse_http s True = Some (int (length (request_text m u p hs)), hm) \<and>
    str_at s (hm_method hm) = m \<and> str_at s (hm_uri hm) = path u \<and> str_at s (query_string hm) = query u \<and>
    str_at s (proto hm) = p \<and> fields_of s hm = kept hs \<and> body_p hm = length (request_text m u p hs) \<and>
    body_len hm = body_length m hs \<and>
    message_len hm = (if declared (kept hs) = None \<and> has_body m then - 1
      else of_nat (length (request_text m u p hs)) + body_length m hs)"
  by (rule request_text_parsed [OF assms])

definition test_fields :: "(byte list \<times> byte list) list" where
  "test_fields = [(ascii ''Host'', ascii ''a b''), (ascii ''X'', []), (ascii ''content-length'', ascii ''3'')]"

theorem parse_request_roundtrip_witness:
  "\<exists>s hm. s = request_text (ascii ''POST'') (ascii ''/p?q=1'') (ascii ''HTTP/1.1'') test_fields @ ascii ''abc'' \<and>
    mg_parse_http s True = Some (59, hm) \<and> str_at s (hm_uri hm) = ascii ''/p'' \<and> str_at s (query_string hm) = ascii ''q=1'' \<and>
    fields_of s hm = [(ascii ''Host'', ascii ''a b''), (ascii ''content-length'', ascii ''3'')] \<and>
    body_len hm = 3 \<and> message_len hm = 62"
proof -
  define s where "s = request_text (ascii ''POST'') (ascii ''/p?q=1'') (ascii ''HTTP/1.1'') test_fields @ ascii ''abc''"
  have g: "good_request (ascii ''POST'') (ascii ''/p?q=1'') (ascii ''HTTP/1.1'') test_fields"
    by (simp add: good_request_def good_header_def good_word_def good_def isprint_def ascii_def test_fields_def)
  have l: "length (request_text (ascii ''POST'') (ascii ''/p?q=1'') (ascii ''HTTP/1.1'') test_fields) = 59"
    by (simp add: request_text_def field_line_def ascii_def crlf_def test_fields_def)
  have k: "kept test_fields = [(ascii ''Host'', ascii ''a b''), (ascii ''content-length'', ascii ''3'')]"
    by (simp add: kept_def test_fields_def ascii_def)
  have d: "declared [(ascii ''Host'', ascii ''a b''), (ascii ''content-length'', ascii ''3'')] = Some 3"
    by (simp add: is_content_length_def ascii_def strtoll_def isspace_def isdigit_def tolower_def)
  have "path (ascii ''/p?q=1'') = ascii ''/p''" "query (ascii ''/p?q=1'') = ascii ''q=1''"
    by (simp_all add: path_def query_def ascii_def)
  moreover have "body_length (ascii ''POST'') test_fields = 3" unfolding body_length_def k d by simp
  ultimately show ?thesis using parse_request_roundtrip [OF g s_def] unfolding l k d s_def [symmetric] by auto
qed

end
