(* ===== verification/Mg_Http_Recv.thy ===== *)
theory Mg_Http_Recv
  imports Mg_Http_Text
begin

text \<open>
  How \<open>c++/utils/web_server/common/mongoose.cc\<close> takes HTTP messages from the receive buffer of a connection:
  the events \<open>MG_EV_RECV\<close> and \<open>MG_EV_CLOSE\<close> of \<open>mg_http_handler\<close>, the decoding of chunked bodies in place,
  and the change to the websocket protocol.  The handler of the application is the parameter \<open>user\<close>, which
  gives the flags after the call and the bytes it sends; it does not change the receive buffer.  What it
  gets of a message are the strings; a string with a byte behind the buffer is \<open>None\<close>.  No endpoints
  are registered, as in the programs of the repository, and no file is being sent.  An assertion that
  fails, and an access outside the buffer, is \<open>None\<close>.
\<close>

section \<open>Definitions\<close>

text \<open>The hexadecimal digits: the number, which wraps, and how many there are.\<close>

fun scan_hex :: "64 word \<Rightarrow> byte list \<Rightarrow> 64 word \<times> nat" where
  "scan_hex n [] = (n, 0)"
| "scan_hex n (c # r) =
     (if isxdigit c then
        map_prod id Suc (scan_hex (n * 16 + (if isdigit c then ucast (c - 48) else ucast (tolower c - 97) + 10)) r)
      else (n, 0))"

definition at_crlf :: "byte list \<Rightarrow> 64 word \<Rightarrow> bool option" where
  "at_crlf s i = do {
     c \<leftarrow> rd s (uint i);
     if c \<noteq> 13 then Some False else do { d \<leftarrow> rd s (uint (i + 1)); Some (d = 10) } }"

text \<open>The length of the chunk with its frame, or 0; the index and the length of its data.  \<open>s\<close> is the memory
  from the pointer on.\<close>

definition mg_http_parse_chunk :: "byte list \<Rightarrow> nat \<Rightarrow> (64 word \<times> 64 word \<times> 64 word) option" where
  "mg_http_parse_chunk s l =
     (let (n, digits) = scan_hex 0 (take l s); i = of_nat digits in
      if i = 0 \<or> i + 2 > of_nat l then Some (0, 0, 0)
      else do {
        b \<leftarrow> at_crlf s i;
        if \<not> b then Some (0, 0, 0)
        else
          (let i1 = i + 2; i2 = i1 + n in
           if i2 = 0 \<or> i2 + 2 > of_nat l then Some (0, i1, n)
           else do {
             b \<leftarrow> at_crlf s i2;
             Some (if b then i2 + 2 else 0, i1, n) }) })"

text \<open>The loop over the chunks that are in the buffer: the memory, the index behind the last of them, the length
  of the body, and whether the empty chunk was there.  A loop that does not end is \<open>None\<close>.\<close>

partial_function (option) collapse_chunks ::
    "nat \<Rightarrow> byte list \<Rightarrow> nat \<Rightarrow> nat \<Rightarrow> (byte list \<times> nat \<times> nat \<times> bool) option" where
  "collapse_chunks blen m i got = do {
     (n, dat, data_len) \<leftarrow> mg_http_parse_chunk (drop i m) (blen - i);
     if n = 0 then Some (m, i, got, False)
     else do {
       m1 \<leftarrow> memmove m got (i + unat dat) (unat data_len);
       if data_len = 0 then Some (m1, i + unat n, got, True)
       else collapse_chunks blen m1 (i + unat n) (got + unat data_len) } }"

definition MG_F_DELETE_CHUNK :: "64 word" where
  "MG_F_DELETE_CHUNK = push_bit 13 1"

text \<open>\<open>_MG_CALLBACK_MODIFIABLE_FLAGS_MASK\<close>: the six flags of the user, and the bits 8 and 10 to 13.\<close>

definition MG_CALLBACK_MODIFIABLE_FLAGS_MASK :: "64 word" where
  "MG_CALLBACK_MODIFIABLE_FLAGS_MASK = push_bit 20 0x3f OR MG_F_WEBSOCKET_NO_DEFRAG OR MG_F_SEND_AND_CLOSE OR
     MG_F_CLOSE_IMMEDIATELY OR MG_F_IS_WEBSOCKET OR MG_F_DELETE_CHUNK"

datatype http_call =
    CALL_RECV
  | CALL_CLOSE
  | CALL_HTTP_CHUNK "byte list option"
  | CALL_HTTP_REQUEST "http_message option"
  | CALL_HTTP_REPLY "http_message option"
  | CALL_WEBSOCKET_HANDSHAKE_REQUEST
  | CALL_WEBSOCKET_HANDSHAKE_DONE
  | CALL_WS ws_call

type_synonym http_user = "http_call \<Rightarrow> ws_connection \<Rightarrow> 64 word \<times> byte list"

record http_connection =
  conn :: ws_connection
  chunk_body_len :: nat
  ws_proto :: bool

text \<open>A call of the handler of the application.\<close>

definition mg_call :: "http_user \<Rightarrow> http_call \<Rightarrow> http_connection \<Rightarrow> http_connection" where
  "mg_call user c h =
     (let nc = conn h; (f, bs) = user c nc; m = MG_CALLBACK_MODIFIABLE_FLAGS_MASK
      in h\<lparr>conn := nc\<lparr>flags := (flags nc AND NOT m) OR (f AND m), send_mbuf := send_mbuf nc @ bs\<rparr>\<rparr>)"

definition mg_handle_chunked :: "http_user \<Rightarrow> http_connection \<Rightarrow> http_parsed \<Rightarrow> nat \<Rightarrow>
    (http_connection \<times> http_parsed \<times> http_call list) option" where
  "mg_handle_chunked user h hm off =
     (let io = recv_mbuf (conn h); blen = len io - off; set_io = (\<lambda>io h. h\<lparr>conn := (conn h)\<lparr>recv_mbuf := io\<rparr>\<rparr>) in
      if chunk_body_len h \<le> blen then do {
        (m, i, got, zero) \<leftarrow> collapse_chunks blen (drop off (buf io)) (chunk_body_len h) (chunk_body_len h);
        if i > got then
          (if i \<le> blen then do {
             m1 \<leftarrow> memmove m got i (blen - i);
             m2 \<leftarrow> blit m1 (got + blen - i) (replicate (i - got) 0);
             let l = len io - (i - got);
             let h1 = set_io \<lparr>buf = take off (buf io) @ m2, len = l\<rparr> h;
             let h2 = h1\<lparr>chunk_body_len := got, conn := (conn h1)\<lparr>flags := flags (conn h1) AND NOT MG_F_DELETE_CHUNK\<rparr>\<rparr>;
             let call = CALL_HTTP_CHUNK (slice m2 0 got);
             let h3 = mg_call user call h2;
             (h4, hm1) \<leftarrow>
               (if flags (conn h3) AND MG_F_DELETE_CHUNK \<noteq> 0 then do {
                  m3 \<leftarrow> blit m2 0 (replicate got 0);
                  m4 \<leftarrow> memmove m3 0 got (blen - i);
                  Some ((set_io \<lparr>buf = take off (buf io) @ m4, len = l - got\<rparr> h3)\<lparr>chunk_body_len := 0\<rparr>,
                    hm\<lparr>body_len := 0\<rparr>) }
                else Some (h3, hm\<lparr>body_len := of_nat got\<rparr>));
             Some (h4, if zero then hm1\<lparr>message_len := of_nat (chunk_body_len h4 + blen - i + body_p hm)\<rparr> else hm1, [call]) }
           else None)
        else Some (h, hm, []) }
      else None)"

text \<open>What the application gets of a message in the buffer \<open>m\<close>.\<close>

definition view :: "byte list \<Rightarrow> http_parsed \<Rightarrow> http_message option" where
  "view m hm = do {
     msg \<leftarrow> slice m 0 (unat (message_len hm));
     b \<leftarrow> slice m (body_p hm) (unat (body_len hm));
     Some \<lparr>message = msg, uri = str_at m (hm_uri hm), body = b\<rparr> }"

definition is_chunked :: "byte list \<Rightarrow> http_parsed \<Rightarrow> bool option" where
  "is_chunked s hm = do {
     v \<leftarrow> mg_get_http_header s hm (ascii ''Transfer-Encoding'');
     (case v of
        Some v \<Rightarrow> map_option (\<lambda>r. r = 0) (mg_vcasecmp (str_at s v) (ascii ''chunked''))
      | None \<Rightarrow> Some False) }"

text \<open>The machine around the connection: the memory, what is in fresh variables, and the random mask.\<close>

record machine =
  mem :: heap_state
  sha_junk :: sha1_ctx
  b64_junk :: "byte list"
  rnd :: uint4

text \<open>The rest of the buffer goes to the handler for websockets.\<close>

definition switch_protocol :: "machine \<Rightarrow> http_connection \<Rightarrow> (http_connection \<times> http_call list) option" where
  "switch_protocol mc h = do {
     (nc, calls) \<leftarrow> mg_ws_handler (mem mc) True (rnd mc) (conn h) MG_EV_RECV;
     Some (h\<lparr>conn := nc\<rparr>, map CALL_WS calls) }"

definition mg_http_recv :: "machine \<Rightarrow> http_user \<Rightarrow> http_connection \<Rightarrow> (http_connection \<times> http_call list) option" where
  "mg_http_recv mc user h0 = do {
     let h1 = mg_call user CALL_RECV h0;
     let is_req = accepted (conn h1);
     let s = in_use (recv_mbuf (conn h1));
     (req_len, hm1) \<leftarrow> mg_parse_http s is_req;
     chunked \<leftarrow> (if req_len > 0 then is_chunked s hm1 else Some False);
     (h2, hm, calls) \<leftarrow> (if chunked then mg_handle_chunked user h1 hm1 (nat req_len) else Some (h1, hm1, []));
     let io = recv_mbuf (conn h2);
     if req_len < 0 \<or> req_len = 0 \<and> len io \<ge> 1024 then
       Some (h2\<lparr>conn := (conn h2)\<lparr>flags := flags (conn h2) OR MG_F_CLOSE_IMMEDIATELY\<rparr>\<rparr>, CALL_RECV # calls)
     else if req_len = 0 then Some (h2, CALL_RECV # calls)
     else do {
       acc \<leftarrow> (if is_req then Some None else mg_get_http_header (buf io) hm (ascii ''Sec-WebSocket-Accept''));
       key \<leftarrow> (if is_req then mg_get_http_header (buf io) hm (ascii ''Sec-WebSocket-Key'') else Some None);
       if acc \<noteq> None \<or> key \<noteq> None then do {
         io1 \<leftarrow> mbuf_remove io (nat req_len);
         let h3 = h2\<lparr>conn := (conn h2)\<lparr>recv_mbuf := io1, flags := flags (conn h2) OR MG_F_IS_WEBSOCKET\<rparr>, ws_proto := True\<rparr>;
         (case key of
            None \<Rightarrow> do {
              (h4, more) \<leftarrow> switch_protocol mc (mg_call user CALL_WEBSOCKET_HANDSHAKE_DONE h3);
              Some (h4, CALL_RECV # calls @ CALL_WEBSOCKET_HANDSHAKE_DONE # more) }
          | Some vec \<Rightarrow> do {
              let h4 = mg_call user CALL_WEBSOCKET_HANDSHAKE_REQUEST h3;
              if flags (conn h4) AND (MG_F_CLOSE_IMMEDIATELY OR MG_F_SEND_AND_CLOSE) = 0 then do {
                nc \<leftarrow> (if send_mbuf (conn h4) = [] then
                    mg_ws_handshake (sha_junk mc) (machine.b64_junk mc) (conn h4) (str_at (buf io1) vec)
                  else Some (conn h4));
                (h5, more) \<leftarrow> switch_protocol mc (mg_call user CALL_WEBSOCKET_HANDSHAKE_DONE (h4\<lparr>conn := nc\<rparr>));
                Some (h5, CALL_RECV # calls @ [CALL_WEBSOCKET_HANDSHAKE_REQUEST, CALL_WEBSOCKET_HANDSHAKE_DONE] @ more) }
              else Some (h4, CALL_RECV # calls @ [CALL_WEBSOCKET_HANDSHAKE_REQUEST]) }) }
       else if message_len hm \<le> of_nat (len io) then do {
         let call = (if is_req then CALL_HTTP_REQUEST else CALL_HTTP_REPLY) (view (buf io) hm);
         let h3 = mg_call user call h2;
         io1 \<leftarrow> mbuf_remove io (unat (message_len hm));
         Some (h3\<lparr>conn := (conn h3)\<lparr>recv_mbuf := io1\<rparr>\<rparr>, CALL_RECV # calls @ [call]) }
       else Some (h2, CALL_RECV # calls) } }"

definition mg_http_close :: "http_user \<Rightarrow> http_connection \<Rightarrow> (http_connection \<times> http_call list) option" where
  "mg_http_close user h = do {
     let io = recv_mbuf (conn h);
     let is_req = accepted (conn h);
     (h1, calls) \<leftarrow>
       (if len io > 0 then do {
          (l, hm) \<leftarrow> mg_parse_http (in_use io) is_req;
          if l > 0 then do {
            let hm1 = hm\<lparr>message_len := of_nat (len io), body_len := of_nat (len io - body_p hm)\<rparr>;
            let call = (if is_req then CALL_HTTP_REQUEST else CALL_HTTP_REPLY) (view (buf io) hm1);
            Some (mg_call user call h, [call]) }
          else Some (h, []) }
        else Some (h, []));
     Some (mg_call user CALL_CLOSE h1, calls @ [CALL_CLOSE]) }"

text \<open>The bytes that a socket has read, as in \<open>Ws_Stream\<close>, for a connection of either protocol.\<close>

definition recv_bytes :: "heap_state \<Rightarrow> mbuf \<Rightarrow> byte list \<Rightarrow> bool \<Rightarrow> mbuf option" where
  "recv_bytes hp io bs own =
     (if \<not> own then map_option fst (mbuf_append hp io bs)
      else if len io = 0 then Some \<lparr>buf = bs, len = length bs\<rparr>
      else map_option fst (mbuf_append hp io bs))"

definition mg_recv_http :: "machine \<Rightarrow> http_user \<Rightarrow> int \<Rightarrow> http_connection \<Rightarrow> byte list \<Rightarrow> bool \<Rightarrow>
    (http_connection \<times> http_call list) option" where
  "mg_recv_http mc user now h bs own =
     (if flags (conn h) AND MG_F_CLOSE_IMMEDIATELY \<noteq> 0 then Some (h, [])
      else do {
        io \<leftarrow> recv_bytes (mem mc) (recv_mbuf (conn h)) bs own;
        let h1 = h\<lparr>conn := (conn h)\<lparr>last_io_time := now, recv_mbuf := io\<rparr>\<rparr>;
        if ws_proto h1 then switch_protocol mc h1 else mg_http_recv mc user h1 })"

fun mg_recv_segments :: "machine \<Rightarrow> http_user \<Rightarrow> http_connection \<Rightarrow> (int \<times> byte list \<times> bool) list \<Rightarrow>
    (http_connection \<times> http_call list) option" where
  "mg_recv_segments mc user h [] = Some (h, [])"
| "mg_recv_segments mc user h ((now, bs, own) # segs) = do {
     (h1, calls) \<leftarrow> mg_recv_http mc user now h bs own;
     (h2, more) \<leftarrow> mg_recv_segments mc user h1 segs;
     Some (h2, calls @ more) }"

section \<open>Chunks\<close>

lemma unat_64: "a < 2 ^ 64 \<Longrightarrow> unat (of_nat a :: 64 word) = a"
  by (simp add: unsigned_of_nat take_bit_nat_eq_self)

lemma less_64_63: "(2 :: nat) ^ 63 < 2 ^ 64"
  by simp

lemma less_64: "a < 2 ^ 64 \<Longrightarrow> b < 2 ^ 64 \<Longrightarrow> (of_nat a :: 64 word) < of_nat b \<longleftrightarrow> a < b"
  by (simp only: word_less_nat_alt unat_64)

lemma uint_64: "a < 2 ^ 64 \<Longrightarrow> uint (of_nat a :: 64 word) = int a"
  by (metis unat_64 of_nat_unat)

lemma zero_64: "a < 2 ^ 64 \<Longrightarrow> (of_nat a :: 64 word) = 0 \<longleftrightarrow> a = 0"
proof
  assume "a < 2 ^ 64" "(of_nat a :: 64 word) = 0"
  then have "unat (0 :: 64 word) = a" using unat_64 [of a] by (simp only:)
  then show "a = 0" by simp
qed simp

lemma hex_digit_64: "n < 16 \<Longrightarrow> isxdigit (hex_chars ! n) \<and>
    (if isdigit (hex_chars ! n) then ucast (hex_chars ! n - 48) else ucast (tolower (hex_chars ! n) - 97) + 10) =
      (word_of_nat n :: 64 word)"
proof -
  assume "n < 16"
  then have "n \<in> set [0..<16]" by simp
  then show ?thesis
    by (simp add: upt_rec del: set_upt)
      (elim disjE; simp add: hex_chars_def isxdigit_def isdigit_def tolower_def)
qed

lemma scan_hex_upper: "scan_hex v (hex_upper n @ t) =
    map_prod id (\<lambda>k. length (hex_upper n) + k) (scan_hex (v * 16 ^ length (hex_upper n) + of_nat n) t)"
proof (induction n arbitrary: v t rule: hex_upper.induct)
  case (1 n)
  show ?case
  proof (cases "n < 16")
    case True
    then show ?thesis using hex_digit_64 [OF True] by (simp add: hex_upper.simps [of n] id_def)
  next
    case False
    have h: "hex_upper n = hex_upper (n div 16) @ [hex_chars ! (n mod 16)]" using False by (subst hex_upper.simps) simp
    have "(of_nat n :: 64 word) = of_nat (16 * (n div 16) + n mod 16)" by simp
    also have "\<dots> = of_nat (n div 16) * 16 + of_nat (n mod 16)" by (simp only: of_nat_add of_nat_mult) simp
    finally have n: "v * 16 ^ length (hex_upper n) + of_nat n =
        (v * 16 ^ length (hex_upper (n div 16)) + of_nat (n div 16)) * 16 + (of_nat (n mod 16) :: 64 word)"
      by (simp add: h algebra_simps)
    have "scan_hex v (hex_upper n @ t) = map_prod id (\<lambda>k. length (hex_upper (n div 16)) + k)
        (scan_hex (v * 16 ^ length (hex_upper (n div 16)) + of_nat (n div 16)) (hex_chars ! (n mod 16) # t))"
      using 1 [OF False] by (simp add: h id_def)
    also have "\<dots> = map_prod id (\<lambda>k. length (hex_upper n) + k) (scan_hex (v * 16 ^ length (hex_upper n) + of_nat n) t)"
      using hex_digit_64 [of "n mod 16"] unfolding n by (simp add: h map_prod.compositionality o_def id_def)
    finally show ?thesis .
  qed
qed

lemma scan_digits: "\<forall>c \<in> set x. isxdigit c \<Longrightarrow> snd (scan_hex v x) = length x"
  by (induction x arbitrary: v) simp_all

lemma hex_upper_xdigits: "\<forall>c \<in> set (hex_upper n). isxdigit c"
proof (induction n rule: hex_upper.induct)
  case (1 n)
  then show ?case using hex_digit_64 [of n] hex_digit_64 [of "n mod 16"] by (subst hex_upper.simps) auto
qed

lemma hex_upper_not_Nil [simp]: "hex_upper n \<noteq> []"
  by (subst hex_upper.simps) simp

lemma scan_chunk: "scan_hex 0 (hex_upper n @ 13 # t) = (of_nat n, length (hex_upper n))"
proof -
  have "\<not> isxdigit 13" by code_simp
  then show ?thesis by (simp add: scan_hex_upper)
qed

lemma at_crlf_mid: "length a = i \<Longrightarrow> i < 2 ^ 63 \<Longrightarrow> at_crlf (a @ 13 # 10 # r) (of_nat i) = Some True"
proof -
  assume a: "length a = i" "i < 2 ^ 63"
  have "uint (of_nat i :: 64 word) = int i" "uint (of_nat i + 1 :: 64 word) = int i + 1"
    using uint_64 [of i] uint_64 [of "i + 1"] a(2) by (simp_all add: add.commute)
  then show ?thesis using a(1) by (simp add: at_crlf_def rd_def nth_append nat_add_distrib)
qed

lemma parse_chunk_whole:
  assumes "length (mg_send_http_chunk bs) \<le> l" "l < 2 ^ 63"
  shows "mg_http_parse_chunk (mg_send_http_chunk bs @ r) l =
    Some (of_nat (length (mg_send_http_chunk bs)), of_nat (length (hex_upper (length bs)) + 2), of_nat (length bs))"
proof -
  define d where "d = length (hex_upper (length bs))"
  have l: "d + 4 + length bs \<le> l" "0 < d" using assms(1) by (auto simp: mg_send_http_chunk_def d_def)
  then have "take l (mg_send_http_chunk bs @ r) = hex_upper (length bs) @ 13 # take (l - d - 1) (10 # bs @ [13, 10] @ r)"
    by (simp add: mg_send_http_chunk_def d_def [symmetric] take_Cons' min_def)
  then have sc: "scan_hex 0 (take l (mg_send_http_chunk bs @ r)) = (of_nat (length bs), d)" by (simp add: scan_chunk d_def)
  have c1: "at_crlf (mg_send_http_chunk bs @ r) (of_nat d) = Some True"
    using at_crlf_mid [of "hex_upper (length bs)" d "bs @ [13, 10] @ r"] l assms(2) by (simp add: mg_send_http_chunk_def d_def)
  have c2: "at_crlf (mg_send_http_chunk bs @ r) (of_nat (d + 2 + length bs)) = Some True"
    using at_crlf_mid [of "hex_upper (length bs) @ [13, 10] @ bs" "d + 2 + length bs" r] l assms(2)
    by (simp add: mg_send_http_chunk_def d_def)
  have w: "(of_nat d :: 64 word) + 2 = of_nat (d + 2)" "of_nat (d + 2) + of_nat (length bs) = (of_nat (d + 2 + length bs) :: 64 word)"
    "(of_nat (d + 2 + length bs) :: 64 word) + 2 = of_nat (d + 4 + length bs)" by simp_all
  have z: "(of_nat d :: 64 word) \<noteq> 0" "\<not> (of_nat (d + 2) :: 64 word) > of_nat l"
    "(of_nat (d + 2 + length bs) :: 64 word) \<noteq> 0" "\<not> (of_nat (d + 4 + length bs) :: 64 word) > of_nat l"
    using zero_64 [of d] less_64 [of l "d + 2"] zero_64 [of "d + 2 + length bs"] less_64 [of l "d + 4 + length bs"] l assms(2)
    by auto
  have len: "length (mg_send_http_chunk bs) = d + 4 + length bs" by (simp add: mg_send_http_chunk_def d_def)
  show ?thesis unfolding mg_http_parse_chunk_def sc Let_def prod.case w len d_def [symmetric]
    using z c1 c2 by simp
qed

lemma parse_chunk_part:
  assumes "k < length (mg_send_http_chunk bs)" "length (mg_send_http_chunk bs) < 2 ^ 63"
  shows "\<exists>a b. mg_http_parse_chunk (take k (mg_send_http_chunk bs) @ r) k = Some (0, a, b)"
proof -
  define x where "x = hex_upper (length bs)"
  define d where "d = length x"
  have C: "mg_send_http_chunk bs = x @ [13, 10] @ bs @ [13, 10]" by (simp add: mg_send_http_chunk_def x_def)
  have k: "k < d + 4 + length bs" "d + 4 + length bs < 2 ^ 63" using assms by (simp_all add: C d_def)
  have t: "take k (take k (mg_send_http_chunk bs) @ r) = take k (mg_send_http_chunk bs)" using assms(1) by simp
  show ?thesis
  proof (cases "k \<le> d + 1")
    case True
    have "snd (scan_hex 0 (take k (mg_send_http_chunk bs))) = min k d"
    proof (cases "k \<le> d")
      case True
      then have "take k (mg_send_http_chunk bs) = take k x" by (simp add: C d_def)
      moreover have "\<forall>c \<in> set (take k x). isxdigit c" using hex_upper_xdigits [of "length bs"] in_set_takeD by (fastforce simp: x_def)
      ultimately show ?thesis using True by (simp add: scan_digits d_def)
    next
      case False
      then have "take k (mg_send_http_chunk bs) = x @ 13 # []" using \<open>k \<le> d + 1\<close> by (simp add: C d_def take_Cons')
      then show ?thesis using False scan_chunk [of "length bs" "[]"] by (simp add: x_def d_def)
    qed
    then obtain v where sc: "scan_hex 0 (take k (take k (mg_send_http_chunk bs) @ r)) = (v, min k d)"
      unfolding t by (metis prod.collapse)
    have w: "(of_nat (min k d) :: 64 word) + 2 = of_nat (min k d + 2)" by simp
    have "(of_nat (min k d) :: 64 word) + 2 > of_nat k" unfolding w
      using less_64 [of k "min k d + 2"] k True by auto
    then show ?thesis unfolding mg_http_parse_chunk_def sc Let_def prod.case by simp
  next
    case False
    have t2: "take k (mg_send_http_chunk bs) @ r = x @ 13 # 10 # take (k - d - 2) (bs @ [13, 10]) @ r"
      using False by (simp add: C d_def take_Cons')
    have "take k (mg_send_http_chunk bs) = x @ 13 # take (k - d - 1) (10 # bs @ [13, 10])"
      using False by (simp add: C d_def take_Cons')
    then have sc: "scan_hex 0 (take k (take k (mg_send_http_chunk bs) @ r)) = (of_nat (length bs), d)"
      unfolding t using scan_chunk [of "length bs"] by (simp add: x_def d_def)
    have c1: "at_crlf (take k (mg_send_http_chunk bs) @ r) (of_nat d) = Some True"
      unfolding t2 by (rule at_crlf_mid) (use k in \<open>simp_all add: d_def\<close>)
    have w: "(of_nat d :: 64 word) + 2 = of_nat (d + 2)" "of_nat (d + 2) + of_nat (length bs) = (of_nat (d + 2 + length bs) :: 64 word)"
      "(of_nat (d + 2 + length bs) :: 64 word) + 2 = of_nat (d + 4 + length bs)" by simp_all
    have "0 < d" by (simp add: d_def x_def)
    then have z: "(of_nat d :: 64 word) \<noteq> 0" "\<not> (of_nat (d + 2) :: 64 word) > of_nat k"
      "(of_nat (d + 4 + length bs) :: 64 word) > of_nat k"
      using zero_64 [of d] less_64 [of k "d + 2"] less_64 [of k "d + 4 + length bs"] k False by auto
    show ?thesis unfolding mg_http_parse_chunk_def sc Let_def prod.case w using z c1 by simp
  qed
qed

lemma memmove_back:
  assumes "length B = g" "length (B @ gp) = j" "length x = n"
  shows "memmove (B @ gp @ x @ z) g j n = Some (B @ x @ drop n (gp @ x @ z))"
  using memmove_mid [of B g gp j x n z] assms by simp

text \<open>The chunks \<open>cs\<close> behind a gap \<open>gp\<close>: their data comes to the body \<open>B\<close>.\<close>

lemma collapse_run:
  assumes "[] \<notin> set cs" "length (B @ gp @ concat (map mg_send_http_chunk cs)) \<le> blen" "blen < 2 ^ 63"
  shows "\<exists>G'. length (B @ gp @ concat (map mg_send_http_chunk cs)) = length (B @ concat cs @ G') \<and>
    collapse_chunks blen (B @ gp @ concat (map mg_send_http_chunk cs) @ x) (length (B @ gp)) (length B) =
    collapse_chunks blen (B @ concat cs @ G' @ x) (length (B @ concat cs @ G')) (length (B @ concat cs))"
  using assms
proof (induction cs arbitrary: B gp)
  case (Cons c cs)
  let ?e = "mg_send_http_chunk c" and ?h = "hex_upper (length c) @ [13, 10]"
  let ?r = "concat (map mg_send_http_chunk cs)"
  have e: "?e = ?h @ c @ [13, 10]" by (simp add: mg_send_http_chunk_def)
  define G1 where "G1 = drop (length c) (gp @ ?h @ c @ [13, 10])"
  have G1: "length c + length G1 = length gp + length ?e" by (simp add: G1_def e)
  have l: "length ?e \<le> blen - length (B @ gp)" using Cons.prems(2) by simp
  have c: "c \<noteq> []" "length c < 2 ^ 63" "length ?e < 2 ^ 63" "length ?h < 2 ^ 63" using Cons.prems by (auto simp: e)
  have p: "mg_http_parse_chunk (drop (length (B @ gp)) (B @ gp @ ?e @ ?r @ x)) (blen - length (B @ gp)) =
      Some (of_nat (length ?e), of_nat (length ?h), of_nat (length c))"
    using parse_chunk_whole [OF l, of "?r @ x"] Cons.prems(3) by simp
  have u: "unat (of_nat (length ?e) :: 64 word) = length ?e" "unat (of_nat (length ?h) :: 64 word) = length ?h"
      "unat (of_nat (length c) :: 64 word) = length c"
    using unat_64 [of "length ?e"] unat_64 [of "length ?h"] unat_64 [of "length c"] c
    by (simp_all only: less_trans [OF _ less_64_63])
  have z: "(of_nat (length ?e) :: 64 word) \<noteq> 0" "(of_nat (length c) :: 64 word) \<noteq> 0"
    using zero_64 [of "length ?e"] zero_64 [of "length c"] c by (auto simp: e)
  have dd: "drop (length c) ((gp @ ?h @ c @ [13, 10]) @ ?r @ x) = G1 @ ?r @ x"
    unfolding G1_def by (subst drop_append) simp
  have "memmove (B @ (gp @ ?h) @ c @ ([13, 10] @ ?r @ x)) (length B) (length (B @ gp @ ?h)) (length c) =
      Some (B @ c @ drop (length c) ((gp @ ?h) @ c @ ([13, 10] @ ?r @ x)))"
    by (rule memmove_back) simp_all
  moreover have "(gp @ ?h) @ c @ ([13, 10] @ ?r @ x) = (gp @ ?h @ c @ [13, 10]) @ ?r @ x" by simp
  moreover have "B @ (gp @ ?h) @ c @ ([13, 10] @ ?r @ x) = B @ gp @ ?e @ ?r @ x" by (simp add: e)
  moreover have "length (B @ gp @ ?h) = length (B @ gp) + length ?h" by simp
  ultimately have m: "memmove (B @ gp @ ?e @ ?r @ x) (length B) (length (B @ gp) + length ?h) (length c) =
      Some ((B @ c) @ G1 @ ?r @ x)"
    by (simp only: dd [unfolded append.assoc] append.assoc)
  have i: "length (B @ c @ G1) = length (B @ gp) + length ?e" "length (B @ c) = length B + length c"
    using G1 by simp_all
  have "collapse_chunks blen (B @ gp @ ?e @ ?r @ x) (length (B @ gp)) (length B) =
      collapse_chunks blen ((B @ c) @ G1 @ ?r @ x) (length ((B @ c) @ G1)) (length (B @ c))"
    unfolding collapse_chunks.simps [of blen "B @ gp @ ?e @ ?r @ x"] p
    using z m by (simp add: u i del: length_append)
  moreover have "length ((B @ c) @ G1 @ ?r) \<le> blen" using Cons.prems(2) G1 by simp
  moreover obtain G' where "length ((B @ c) @ G1 @ ?r) = length ((B @ c) @ concat cs @ G')"
      "collapse_chunks blen ((B @ c) @ G1 @ ?r @ x) (length ((B @ c) @ G1)) (length (B @ c)) =
       collapse_chunks blen ((B @ c) @ concat cs @ G' @ x) (length ((B @ c) @ concat cs @ G')) (length ((B @ c) @ concat cs))"
    using Cons.IH [of "B @ c" G1] Cons.prems(1,3) calculation(2) by auto
  ultimately show ?case using G1 by (intro exI [of _ G']) simp
qed (auto intro: exI [of _ gp])

text \<open>An application that leaves these two flags alone.\<close>

definition keeps :: "http_user \<Rightarrow> bool" where
  "keeps user \<longleftrightarrow> (\<forall>c nc. fst (user c nc) AND MG_F_DELETE_CHUNK = flags nc AND MG_F_DELETE_CHUNK \<and>
     fst (user c nc) AND MG_F_CLOSE_IMMEDIATELY = flags nc AND MG_F_CLOSE_IMMEDIATELY)"

lemma masked_flag: "D AND m = D \<Longrightarrow> f AND D = x AND D \<Longrightarrow> ((x AND NOT m) OR (f AND m)) AND D = x AND (D :: 64 word)"
  by (simp add: bit_eq_iff bit_simps) blast

lemma cleared_flag: "(x AND NOT D) AND D = (0 :: 64 word)" "x AND C = 0 \<Longrightarrow> (x AND NOT D) AND C = (0 :: 64 word)"
  by (auto simp: bit_eq_iff bit_simps)

lemma modifiable: "MG_F_DELETE_CHUNK AND MG_CALLBACK_MODIFIABLE_FLAGS_MASK = MG_F_DELETE_CHUNK"
  "MG_F_CLOSE_IMMEDIATELY AND MG_CALLBACK_MODIFIABLE_FLAGS_MASK = MG_F_CLOSE_IMMEDIATELY"
  by code_simp+

lemma mg_call_simps [simp]:
  "recv_mbuf (conn (mg_call user c h)) = recv_mbuf (conn h)" "accepted (conn (mg_call user c h)) = accepted (conn h)"
  "chunk_body_len (mg_call user c h) = chunk_body_len h" "ws_proto (mg_call user c h) = ws_proto h"
  by (simp_all add: mg_call_def Let_def split: prod.split)

lemma mg_call_flags:
  assumes "keeps user"
  shows "flags (conn (mg_call user c h)) AND MG_F_DELETE_CHUNK = flags (conn h) AND MG_F_DELETE_CHUNK"
    "flags (conn (mg_call user c h)) AND MG_F_CLOSE_IMMEDIATELY = flags (conn h) AND MG_F_CLOSE_IMMEDIATELY"
  using assms masked_flag [OF modifiable(1)] masked_flag [OF modifiable(2)]
  by (auto simp: mg_call_def keeps_def Let_def split: prod.split) (metis fst_conv)+

text \<open>A connection whose buffer is in order.\<close>

definition open_http :: "http_connection \<Rightarrow> bool" where
  "open_http h \<longleftrightarrow> mbuf_ok (recv_mbuf (conn h)) \<and> flags (conn h) AND MG_F_CLOSE_IMMEDIATELY = 0 \<and> \<not> ws_proto h"

definition buffered_bytes :: "http_connection \<Rightarrow> byte list" where
  "buffered_bytes h = in_use (recv_mbuf (conn h))"

definition chunk_calls :: "http_call list \<Rightarrow> bool" where
  "chunk_calls calls \<longleftrightarrow> (\<forall>c \<in> set calls. \<exists>b. c = CALL_HTTP_CHUNK b)"

lemma handle_result:
  assumes ok: "open_http h" "keeps user"
    and x: "buffered_bytes h = T @ X" "chunk_body_len h = length B" "length B \<le> length X"
    and c: "collapse_chunks (length X) (X @ drop (len (recv_mbuf (conn h))) (buf (recv_mbuf (conn h)))) (length B) (length B) =
      Some (B @ D @ gp @ rs @ junk, length (B @ D @ gp), length (B @ D), zero)"
    and l: "length (B @ D @ gp @ rs) = length X" "gp = [] \<longrightarrow> B @ D @ rs = X \<and> D = [] \<and> \<not> zero"
    and n: "length (T @ X) < 2 ^ 63" "body_p hm = length T"
  shows "\<exists>h' hm' calls. mg_handle_chunked user h hm (length T) = Some (h', hm', calls) \<and> open_http h' \<and>
    buffered_bytes h' = T @ B @ D @ rs \<and> chunk_body_len h' = length (B @ D) \<and> accepted (conn h') = accepted (conn h) \<and>
    chunk_calls calls \<and> headers hm' = headers hm \<and> body_p hm' = body_p hm \<and> hm_uri hm' = hm_uri hm \<and>
    message_len hm' = (if zero then of_nat (length (T @ B @ D @ rs)) else message_len hm) \<and>
    (zero \<longrightarrow> body_len hm' = of_nat (length (B @ D)))"
proof -
  let ?io = "recv_mbuf (conn h)"
  let ?J = "drop (len ?io) (buf ?io)"
  have io: "mbuf_ok ?io" using ok(1) by (simp add: open_http_def)
  have b: "buf ?io = T @ X @ ?J" using x(1) unfolding buffered_bytes_def in_use_def by (metis append.assoc append_take_drop_id)
  have len: "len ?io = length (T @ X)" using x(1) io length_in_use [OF io] by (simp add: buffered_bytes_def)
  have d: "drop (length T) (buf ?io) = X @ ?J" by (subst b) simp
  have t: "take (length T) (buf ?io) = T" by (subst b) simp
  show ?thesis
  proof (cases "gp = []")
    case True
    then have "mg_handle_chunked user h hm (length T) = Some (h, hm, [])"
      using x(2,3) c by (simp add: mg_handle_chunked_def Let_def len d)
    then show ?thesis using True l(2) x ok(1) by (intro exI [of _ h] exI [of _ hm] exI [of _ "[]"]) (auto simp: chunk_calls_def)
  next
    case False
    define m2 where "m2 = (B @ D @ rs) @ replicate (length gp) 0 @ drop (length gp) (drop (length rs) (gp @ rs @ junk))"
    have mm: "memmove (B @ D @ gp @ rs @ junk) (length (B @ D)) (length (B @ D @ gp)) (length rs) =
        Some ((B @ D @ rs) @ drop (length rs) (gp @ rs @ junk))"
      using memmove_back [of "B @ D" "length (B @ D)" gp "length (B @ D @ gp)" rs "length rs" junk] by simp
    have i: "length X - length (B @ D @ gp) = length rs" "length (B @ D @ gp) \<le> length X" using l(1) by simp_all
    have bl: "blit ((B @ D @ rs) @ drop (length rs) (gp @ rs @ junk)) (length (B @ D @ rs)) (replicate (length gp) 0) = Some m2"
    proof -
      have "drop (length rs) (gp @ rs @ junk) = take (length gp) (drop (length rs) (gp @ rs @ junk)) @
          drop (length gp) (drop (length rs) (gp @ rs @ junk))" by simp
      moreover have "length (take (length gp) (drop (length rs) (gp @ rs @ junk))) = length gp" by simp
      ultimately show ?thesis unfolding m2_def
        using blit_mid [of "B @ D @ rs" "length (B @ D @ rs)" "take (length gp) (drop (length rs) (gp @ rs @ junk))" "replicate (length gp) 0"
            "drop (length gp) (drop (length rs) (gp @ rs @ junk))"] by (metis length_replicate)
    qed
    have sl: "slice m2 0 (length (B @ D)) = Some (B @ D)" by (simp add: m2_def slice_def)
    define h2 where "h2 = h\<lparr>chunk_body_len := length (B @ D),
      conn := (conn h)\<lparr>recv_mbuf := \<lparr>buf = T @ m2, len = length (T @ B @ D @ rs)\<rparr>, flags := flags (conn h) AND NOT MG_F_DELETE_CHUNK\<rparr>\<rparr>"
    define h3 where "h3 = mg_call user (CALL_HTTP_CHUNK (Some (B @ D))) h2"
    have f: "flags (conn h3) AND MG_F_DELETE_CHUNK = 0" "flags (conn h3) AND MG_F_CLOSE_IMMEDIATELY = 0"
      using ok(1) cleared_flag unfolding h3_def mg_call_flags [OF ok(2)] by (auto simp: h2_def open_http_def)
    have r: "recv_mbuf (conn h3) = \<lparr>buf = T @ m2, len = length (T @ B @ D @ rs)\<rparr>" "chunk_body_len h3 = length (B @ D)"
      by (simp_all add: h3_def h2_def)
    let ?hm = "hm\<lparr>body_len := of_nat (length (B @ D))\<rparr>"
    have len2: "len ?io - (length (B @ D @ gp) - length (B @ D)) = length (T @ B @ D @ rs)" using l(1) by (simp add: len)
    have "mg_handle_chunked user h hm (length T) = Some (h3,
        if zero then ?hm\<lparr>message_len := of_nat (length (B @ D) + length X - length (B @ D @ gp) + body_p hm)\<rparr> else ?hm,
        [CALL_HTTP_CHUNK (Some (B @ D))])"
    proof -
      have s1: "chunk_body_len h \<le> len ?io - length T" "len ?io - length T = length X" using x by (simp_all add: len)
      have s2: "length (B @ D @ gp) > length (B @ D)" using False by simp
      have s3: "length (B @ D) + length X - length (B @ D @ gp) = length (B @ D @ rs)"
        "length (B @ D @ gp) - length (B @ D) = length gp" using l(1) by simp_all
      show ?thesis unfolding mg_handle_chunked_def Let_def s1(2) d x(2) t
        using x(3) c i mm bl sl s2 f(1) r(2) len2 s3 by (simp add: h3_def h2_def t del: length_append)
    qed
    moreover have "of_nat (length (B @ D) + length X - length (B @ D @ gp) + body_p hm) = (of_nat (length (T @ B @ D @ rs)) :: 64 word)"
      by (rule arg_cong [of _ _ of_nat]) (use l(1) n(2) in simp)
    moreover have "open_http h3" "buffered_bytes h3 = T @ B @ D @ rs" "accepted (conn h3) = accepted (conn h)"
      using ok(1) f(2) r by (simp_all add: open_http_def mbuf_ok_def buffered_bytes_def in_use_def m2_def h3_def h2_def)
    ultimately show ?thesis using r(2) by (auto simp: chunk_calls_def)
  qed
qed

lemma length_chunks: "length (concat cs) + 4 * length cs \<le> length (concat (map mg_send_http_chunk cs))"
proof (induction cs)
  case (Cons c cs)
  then show ?case by (simp add: mg_send_http_chunk_def)
qed simp

text \<open>What the chunks \<open>cs\<close> and a part of another one do to a connection.\<close>

lemma handle_part:
  assumes ok: "open_http h" "keeps user"
    and x: "buffered_bytes h = T @ B @ concat (map mg_send_http_chunk cs) @ q" "chunk_body_len h = length B"
    and q: "[] \<notin> set cs" "q = take k (mg_send_http_chunk bs)" "k < length (mg_send_http_chunk bs)" "length (mg_send_http_chunk bs) < 2 ^ 63"
    and n: "length (buffered_bytes h) < 2 ^ 63" "body_p hm = length T"
  shows "\<exists>h' hm' calls. mg_handle_chunked user h hm (length T) = Some (h', hm', calls) \<and> open_http h' \<and>
    buffered_bytes h' = T @ B @ concat cs @ q \<and> chunk_body_len h' = length (B @ concat cs) \<and> accepted (conn h') = accepted (conn h) \<and>
    chunk_calls calls \<and> headers hm' = headers hm \<and> message_len hm' = message_len hm"
proof -
  let ?e = "concat (map mg_send_http_chunk cs)" and ?J = "drop (len (recv_mbuf (conn h))) (buf (recv_mbuf (conn h)))"
  let ?X = "B @ ?e @ q"
  have lq: "length q = k" using q(2,3) by simp
  obtain G' where g: "length (B @ ?e) = length (B @ concat cs @ G')"
      "collapse_chunks (length ?X) (B @ ?e @ q @ ?J) (length B) (length B) =
       collapse_chunks (length ?X) (B @ concat cs @ G' @ q @ ?J) (length (B @ concat cs @ G')) (length (B @ concat cs))"
    using collapse_run [of cs B "[]" "length ?X" "q @ ?J"] q(1) n(1) by (auto simp: x(1))
  obtain a b where p: "mg_http_parse_chunk (q @ ?J) k = Some (0, a, b)"
    using parse_chunk_part [OF q(3,4)] q(2) by blast
  have "length ?X - length (B @ concat cs @ G') = k" "drop (length (B @ concat cs @ G')) (B @ concat cs @ G' @ q @ ?J) = q @ ?J"
    using g(1) lq by simp_all
  then have "collapse_chunks (length ?X) (B @ concat cs @ G' @ q @ ?J) (length (B @ concat cs @ G')) (length (B @ concat cs)) =
      Some (B @ concat cs @ G' @ q @ ?J, length (B @ concat cs @ G'), length (B @ concat cs), False)"
    by (subst collapse_chunks.simps) (simp only: p bind.simps prod.case simp_thms if_True)
  then have c: "collapse_chunks (length ?X) (?X @ ?J) (length B) (length B) =
      Some (B @ concat cs @ G' @ q @ ?J, length (B @ concat cs @ G'), length (B @ concat cs), False)"
    using g(2) by simp
  have z: "G' = [] \<longrightarrow> B @ concat cs @ q = ?X \<and> concat cs = [] \<and> \<not> False"
    using g(1) length_chunks [of cs] by (cases cs) auto
  have l: "length (B @ concat cs @ G' @ q) = length ?X" using g(1) by simp
  have b: "length B \<le> length ?X" "length (T @ ?X) < 2 ^ 63" using n(1) by (simp_all add: x(1))
  show ?thesis using handle_result [OF ok x b(1) c l z b(2) n(2)] by auto
qed

lemma handle_last:
  assumes ok: "open_http h" "keeps user"
    and x: "buffered_bytes h = T @ B @ concat (map mg_send_http_chunk cs) @ mg_send_http_chunk [] @ t" "chunk_body_len h = length B"
    and q: "[] \<notin> set cs"
    and n: "length (buffered_bytes h) < 2 ^ 63" "body_p hm = length T"
  shows "\<exists>h' hm' calls. mg_handle_chunked user h hm (length T) = Some (h', hm', calls) \<and> open_http h' \<and>
    buffered_bytes h' = T @ B @ concat cs @ t \<and> chunk_body_len h' = length (B @ concat cs) \<and> accepted (conn h') = accepted (conn h) \<and>
    chunk_calls calls \<and> headers hm' = headers hm \<and> body_p hm' = body_p hm \<and> hm_uri hm' = hm_uri hm \<and>
    message_len hm' = of_nat (length (T @ B @ concat cs @ t)) \<and> body_len hm' = of_nat (length (B @ concat cs))"
proof -
  let ?e = "concat (map mg_send_http_chunk cs)" and ?J = "drop (len (recv_mbuf (conn h))) (buf (recv_mbuf (conn h)))"
  let ?X = "B @ ?e @ mg_send_http_chunk [] @ t"
  have nX: "length ?X < 2 ^ 63" using n(1) by (simp add: x(1))
  obtain G' where g: "length (B @ ?e) = length (B @ concat cs @ G')"
      "collapse_chunks (length ?X) (B @ ?e @ mg_send_http_chunk [] @ t @ ?J) (length B) (length B) =
       collapse_chunks (length ?X) (B @ concat cs @ G' @ mg_send_http_chunk [] @ t @ ?J) (length (B @ concat cs @ G')) (length (B @ concat cs))"
    using collapse_run [of cs B "[]" "length ?X" "mg_send_http_chunk [] @ t @ ?J"] q nX by auto
  let ?m = "B @ concat cs @ G' @ mg_send_http_chunk [] @ t @ ?J"
  have d: "length ?X - length (B @ concat cs @ G') = length (mg_send_http_chunk [] @ t)"
    "drop (length (B @ concat cs @ G')) ?m = mg_send_http_chunk [] @ t @ ?J"
    using g(1) by simp_all
  have "length (mg_send_http_chunk [] @ t) < 2 ^ 63" using nX by simp
  then have p: "mg_http_parse_chunk (mg_send_http_chunk [] @ t @ ?J) (length (mg_send_http_chunk [] @ t)) =
      Some (of_nat (length (mg_send_http_chunk [])), of_nat (length (hex_upper 0) + 2), 0)"
    using parse_chunk_whole [of "[]" "length (mg_send_http_chunk [] @ t)" "t @ ?J"] by simp
  have hx: "length (hex_upper 0) = 1" "length (mg_send_http_chunk []) = 5"
    by (simp_all add: hex_upper.simps [of 0] mg_send_http_chunk_def)
  have u: "(5 :: 64 word) \<noteq> 0" "unat (5 :: 64 word) = 5" "unat (3 :: 64 word) = 3" "unat (0 :: 64 word) = 0" by simp_all
  have "memmove ?m (length (B @ concat cs)) (length (B @ concat cs @ G') + 3) 0 = Some ?m"
    by (simp add: memmove_def slice_def blit_def hx)
  then have "collapse_chunks (length ?X) ?m (length (B @ concat cs @ G')) (length (B @ concat cs)) =
      Some (?m, length (B @ concat cs @ G') + 5, length (B @ concat cs), True)"
    unfolding collapse_chunks.simps [of "length ?X" ?m] d p using u by (simp add: hx del: length_append)
  moreover have "length (B @ concat cs @ G') + 5 = length (B @ concat cs @ G' @ mg_send_http_chunk [])" by (simp add: hx)
  ultimately have c: "collapse_chunks (length ?X) (?X @ ?J) (length B) (length B) =
      Some (B @ concat cs @ (G' @ mg_send_http_chunk []) @ t @ ?J, length (B @ concat cs @ G' @ mg_send_http_chunk []),
        length (B @ concat cs), True)"
    using g(2) by simp
  have z: "G' @ mg_send_http_chunk [] = [] \<longrightarrow> B @ concat cs @ t = ?X \<and> concat cs = [] \<and> \<not> True"
    by (simp add: mg_send_http_chunk_def)
  have l: "length (B @ concat cs @ (G' @ mg_send_http_chunk []) @ t) = length ?X" using g(1) by simp
  have b: "length B \<le> length ?X" "length (T @ ?X) < 2 ^ 63" using n(1) by (simp_all add: x(1))
  show ?thesis using handle_result [OF ok x b(1) c l z b(2) n(2)] by auto
qed

end
