(* ===== verification/Http_Reply.thy ===== *)
theory Http_Reply
  imports Mg_Http_Recv Http_Client
begin

text \<open>
  Requests and answers from end to end: what \<open>Mg_Http_Recv\<close> makes of the bytes of a request, and of the chunked
  answer of \<open>http_server.cc\<close>, however the network cuts them into pieces.
\<close>

section \<open>Looking up headers\<close>

definition lookup :: "byte list \<Rightarrow> (byte list \<times> byte list) list \<Rightarrow> byte list option" where
  "lookup name fs = map_option snd (find (\<lambda>(k, v). map tolower k = map tolower name) fs)"

lemma compare_stop:
  "n \<le> length s \<Longrightarrow> n \<le> length t \<Longrightarrow> 0 \<notin> set t \<Longrightarrow>
    \<exists>r. mg_ncasecmp s t n = Some r \<and> (r = 0 \<longleftrightarrow> map tolower (take n s) = map tolower (take n t))"
proof (induction s t n rule: mg_ncasecmp.induct)
  case (2 a s1 b s2 n)
  have d: "uint (tolower a) - uint (tolower b) = 0 \<longleftrightarrow> tolower a = tolower b" by (simp add: word_uint_eq_iff)
  have "tolower a \<noteq> tolower b" if "a = 0"
    using that 2(4) tolower_below [of b] by (auto simp: tolower_def [of 0])
  then show ?case using 2 d by (cases n) (auto simp: Let_def)
qed auto

lemma length_str_at: "inside (length s) v \<Longrightarrow> length (str_at s v) = snd v"
  by (auto simp: inside_def str_at_def)

lemma str_at_prefix: "inside n v \<Longrightarrow> take n m = take n m' \<Longrightarrow> str_at m v = str_at m' v"
proof -
  assume a: "inside n v" "take n m = take n m'"
  have "str_at x v = take (snd v) (drop (fst v) (take n x))" for x
    using a(1) by (simp add: str_at_def inside_def drop_take min_def)
  then show ?thesis using a(2) by simp
qed

definition headers_inside :: "nat \<Rightarrow> http_parsed \<Rightarrow> bool" where
  "headers_inside n hm \<longleftrightarrow> list_all (\<lambda>(k, v). inside n k \<and> inside n v) (headers hm)"

lemma fields_prefix:
  assumes "headers_inside n hm" "take n m = take n m'"
  shows "fields_of m hm = fields_of m' hm"
  unfolding fields_of_def
proof (rule map_cong [OF refl])
  fix x assume "x \<in> set (headers hm)"
  then obtain k v where x: "x = (k, v)" "(k, v) \<in> set (headers hm)" by (metis surj_pair)
  from x(2) have "inside n k" "inside n v" using assms(1) unfolding headers_inside_def list_all_iff by blast+
  then show "(case x of (k, v) \<Rightarrow> (str_at m k, str_at m v)) = (case x of (k, v) \<Rightarrow> (str_at m' k, str_at m' v))"
    using assms(2) x(1) str_at_prefix [of n k m m'] str_at_prefix [of n v m m'] by simp
qed

lemma find_header_spec:
  assumes "list_all (\<lambda>(k, v). inside (length s) k) hs" "0 \<notin> set name"
  shows "\<exists>r. find_header s name hs = Some r \<and>
    map_option (str_at s) r = lookup name (map (\<lambda>(k, v). (str_at s k, str_at s v)) hs)"
  using assms(1)
proof (induction hs)
  case (Cons h hs)
  obtain k v where h: "h = (k, v)" by (cases h)
  have k: "inside (length s) k" using Cons.prems h by simp
  obtain r where IH: "find_header s name hs = Some r"
      "map_option (str_at s) r = lookup name (map (\<lambda>(k, v). (str_at s k, str_at s v)) hs)"
    using Cons by auto
  show ?case
  proof (cases "snd k = length name")
    case True
    then have "length name \<le> length (drop (fst k) s)" using k by (auto simp: inside_def)
    then obtain c where "mg_ncasecmp (drop (fst k) s) name (length name) = Some c"
        "c = 0 \<longleftrightarrow> map tolower (take (length name) (drop (fst k) s)) = map tolower (take (length name) name)"
      using compare_stop [of "length name" "drop (fst k) s" name] assms(2) by auto
    moreover have "str_at s k = take (length name) (drop (fst k) s)" using True by (simp add: str_at_def)
    ultimately show ?thesis using IH True by (cases v) (auto simp: h lookup_def)
  next
    case False
    then have "length (str_at s k) \<noteq> length name" using length_str_at [OF k] by simp
    then have "map tolower (str_at s k) \<noteq> map tolower name" by (metis length_map)
    then show ?thesis using IH False by (simp add: h lookup_def)
  qed
qed (simp add: lookup_def)

lemma get_header:
  assumes "headers_inside n hm" "n \<le> length s" "0 \<notin> set name"
  shows "\<exists>r. mg_get_http_header s hm name = Some r \<and> map_option (str_at s) r = lookup name (fields_of s hm)"
proof -
  have "list_all (\<lambda>(k, v). inside (length s) k) (headers hm)"
    using assms(1,2) by (auto simp: headers_inside_def list_all_iff inside_def)
  from find_header_spec [OF this assms(3)] show ?thesis by (simp add: mg_get_http_header_def fields_of_def)
qed

lemma parsed_headers:
  assumes "mg_parse_http s is_req = Some (l, hm)" "l > 0"
  shows "headers_inside (nat l) hm" "nat l \<le> length s" "inside (nat l) (hm_uri hm)"
  using parse_http_inside [of s is_req] assms by (auto simp: parsed_inside_def headers_inside_def)

lemma is_chunked_spec:
  assumes "mg_parse_http s is_req = Some (l, hm)" "l > 0" "\<forall>(k, v) \<in> set (fields_of s hm). 0 \<notin> set v"
  shows "is_chunked s hm = Some (case lookup (ascii ''Transfer-Encoding'') (fields_of s hm) of
      Some v \<Rightarrow> map tolower v = ascii ''chunked'' | None \<Rightarrow> False)"
proof -
  have "0 \<notin> set (ascii ''Transfer-Encoding'')" by (simp add: ascii_def)
  then obtain r where r: "mg_get_http_header s hm (ascii ''Transfer-Encoding'') = Some r"
      "map_option (str_at s) r = lookup (ascii ''Transfer-Encoding'') (fields_of s hm)"
    using get_header [OF parsed_headers(1,2) [OF assms(1,2)]] by blast
  show ?thesis
  proof (cases r)
    case (Some v)
    then have l: "lookup (ascii ''Transfer-Encoding'') (fields_of s hm) = Some (str_at s v)" using r(2) by simp
    then have "0 \<notin> set (str_at s v)" using assms(3) by (auto simp: lookup_def find_Some_iff) (metis nth_mem split_conv)
    then have "mg_vcasecmp (str_at s v) (ascii ''chunked'') = Some 0 \<longleftrightarrow> map tolower (str_at s v) = map tolower (ascii ''chunked'')"
      by (rule mg_vcasecmp_eq)
    moreover have "map tolower (ascii ''chunked'') = ascii ''chunked''" by (simp add: ascii_def tolower_def)
    moreover obtain c where "mg_vcasecmp (str_at s v) (ascii ''chunked'') = Some c" using mg_vcasecmp_some by blast
    ultimately show ?thesis using r l Some by (simp add: is_chunked_def)
  qed (use r in \<open>simp add: is_chunked_def\<close>)
qed

section \<open>The answer of the server at the client\<close>

lemma request_len_more:
  "request_len_from i s \<noteq> 0 \<Longrightarrow> request_len_from i (s @ r) = request_len_from i s"
proof (induction i s rule: request_len_from.induct)
  case (2 i c x)
  show ?case
  proof (cases "length x < 2")
    case False
    then have "(x @ r) ! 0 = x ! 0" "(x @ r) ! 1 = x ! 1" by (auto simp: nth_append)
    then show ?thesis using 2 False by (auto simp del: One_nat_def)
  next
    case True
    then consider "x = []" | y where "x = [y]" by (cases x) (auto simp: Suc_le_eq)
    then show ?thesis using 2(2) by cases (auto split: if_splits)
  qed
qed simp

lemma request_len_part:
  assumes "mg_http_get_request_len s = int n" "k < n" "n \<le> length s"
  shows "mg_http_get_request_len (take k s) = 0"
proof (rule ccontr)
  assume nz: "mg_http_get_request_len (take k s) \<noteq> 0"
  then have "mg_http_get_request_len (take k s) = mg_http_get_request_len s"
    using request_len_more [of 0 "take k s" "drop k s"] by (simp add: mg_http_get_request_len_def)
  then show False using get_request_len_spec(1) [of "take k s"] assms by simp
qed

definition response_fields :: "(byte list \<times> byte list) list" where
  "response_fields = [(ascii ''Transfer-Encoding'', ascii ''chunked'')]"

lemma http_head_text: "http_head = ascii ''HTTP/1.1'' @ [32] @ ascii ''200 OK'' @ crlf @ header_text response_fields"
  by (simp add: http_head_def header_text_def response_fields_def field_line_def ascii_def)

lemma response_fields_good: "list_all good_header response_fields"
  by (simp add: response_fields_def good_header_def good_word_def good_def isprint_def ascii_def)

lemma length_http_head: "length http_head = 47"
  by (simp add: http_head_def ascii_def crlf_def)

lemma response_len: "mg_http_get_request_len (http_head @ r) = 47"
proof -
  let ?ls = "[ascii ''HTTP/1.1 200 OK'', ascii ''Transfer-Encoding: chunked'']"
  have "list_all (\<lambda>x. x \<noteq> [] \<and> (\<forall>c \<in> set x. good c)) ?ls"
    by (simp add: good_def isprint_def ascii_def)
  from request_len_lines [OF this, of 0 r] show ?thesis
    by (simp add: mg_http_get_request_len_def http_head_def ascii_def crlf_def)
qed

lemma response_parsed:
  assumes s: "s = http_head @ r"
  shows "\<exists>hm. mg_parse_http s False = Some (47, hm) \<and> fields_of s hm = response_fields \<and> body_p hm = 47 \<and>
    body_len hm = - 1 \<and> message_len hm = - 1 \<and> hm_uri hm = (0, 0)"
proof -
  have n: "mg_http_get_request_len s = 47" unfolding s by (rule response_len)
  have t: "take 47 s = http_head" by (simp add: s length_http_head)
  have t0: "drop 0 (take 47 s) = ascii ''HTTP/1.1'' @ [32] @ ascii ''200 OK'' @ crlf @ header_text response_fields"
    using t by (simp add: http_head_text)
  have t1: "drop 13 (take 47 s) = ascii ''OK'' @ crlf @ header_text response_fields"
    by (simp add: t http_head_text ascii_def)
  have t2: "drop 17 (take 47 s) = header_text response_fields" by (simp add: t http_head_text ascii_def crlf_def)
  have w: "isspace 72 = False" by (simp add: isspace_def)
  have i: "takeWhile isspace (take 47 s) = []" using w by (simp add: t http_head_text ascii_def)
  have s1: "mg_skip s 0 47 [32] = ((0, 8), 9)"
    using mg_skip_at [OF t0, of "[32]"] by (simp add: ascii_def)
  have s2: "mg_skip s 13 47 [13, 10] = ((13, 2), 17)"
    using mg_skip_at [OF t1, of "[13, 10]"] by (simp add: ascii_def crlf_def response_fields_def header_text_def field_line_def)
  have d9: "drop 9 s = ascii ''200 OK'' @ drop 15 http_head @ r" by (simp add: s http_head_def ascii_def)
  have w2: "isspace 50 = False" "isdigit 50" "isdigit 48" "\<not> isdigit 32" by (simp_all add: isspace_def isdigit_def)
  have "strtoll (drop 9 s) = 200" unfolding d9 using w2 by (simp add: strtoll_def ascii_def)
  then have a: "sint (atoi (drop 9 s)) = 200" by (simp add: atoi_def)
  have c: "s ! 12 = 32" by (simp add: s http_head_def ascii_def)
  let ?hm = "(new_message 47)\<lparr>proto := (0, 8), resp_code := 200, resp_status_msg := (13, 2)\<rparr>"
  have l: "parse_status_line s 0 47 (new_message 47) = Some (17, ?hm)"
    using s1 s2 a c by (simp add: parse_status_line_def)
  have k: "response_fields = take (19 - length (headers ?hm)) (filter (\<lambda>h. snd h \<noteq> []) response_fields)"
    by (simp add: response_fields_def new_message_def ascii_def)
  have nd: "declared response_fields = None"
    by (simp add: response_fields_def is_content_length_def ascii_def tolower_def)
  obtain j ps where h: "mg_http_parse_headers s 17 47 47 ?hm = Some (j, with_headers 47 ps None ?hm)"
      "map (\<lambda>(k, v). (str_at s k, str_at s v)) ps = response_fields"
    using parse_headers_text [OF t2 response_fields_good k, of 47] unfolding nd by blast
  obtain a b where ab: "mg_vcasecmp (str_at s (hm_method (with_headers 47 ps None ?hm))) (ascii ''PUT'') = Some a"
      "mg_vcasecmp (str_at s (hm_method (with_headers 47 ps None ?hm))) (ascii ''POST'') = Some b" using mg_vcasecmp_some by meson
  have "mg_parse_http s False = Some (47, with_headers 47 ps None ?hm)"
    using n l h(1) ab unfolding mg_parse_http_def Let_def by (simp add: i)
  then show ?thesis using h(2) by (simp add: with_headers_def fields_of_def new_message_def)
qed

section \<open>Segments\<close>

lemma recv_bytes_spec:
  assumes ok: "mbuf_ok io" and m: "(len io + length bs) * 3 div 2 \<le> largest hp"
  shows "\<exists>io'. recv_bytes hp io bs own = Some io' \<and> mbuf_ok io' \<and> in_use io' = in_use io @ bs"
proof -
  obtain mb k where a: "mbuf_append hp io bs = Some (mb, k)" "mbuf_ok mb"
      "k = length bs \<and> in_use mb = in_use io @ bs \<or> k = 0 \<and> mb = io"
    using mb.append_law [OF ok] by blast
  have "k = length bs" using mbuf_insert_granted [OF ok m] a(1) by (simp add: mbuf_append_def)
  then have "in_use mb = in_use io @ bs" using a(3) by auto
  then show ?thesis using a(1,2) by (auto simp: recv_bytes_def mbuf_ok_def in_use_def)
qed

definition enc :: "byte list list \<Rightarrow> byte list" where
  "enc cs = concat (map mg_send_http_chunk cs)"

text \<open>Where a stream of chunks is cut.\<close>

lemma split_chunks:
  assumes "p @ t = enc xs"
  shows "\<exists>xs1 xs2 q. xs = xs1 @ xs2 \<and> p = enc xs1 @ q \<and> q @ t = enc xs2 \<and>
    (xs2 = [] \<and> q = [] \<or> (\<exists>x xs' k. xs2 = x # xs' \<and> k < length (mg_send_http_chunk x) \<and> q = take k (mg_send_http_chunk x)))"
  using assms
proof (induction xs arbitrary: p)
  case (Cons x xs)
  show ?case
  proof (cases "length p < length (mg_send_http_chunk x)")
    case True
    then have "p = take (length p) (mg_send_http_chunk x)" using Cons.prems
      by (simp add: enc_def) (metis append_eq_append_conv_if append_eq_conv_conj less_imp_le_nat)
    then show ?thesis using True Cons.prems
      by (intro exI [of _ "[]"] exI [of _ "x # xs"] exI [of _ p]) (auto simp: enc_def)
  next
    case False
    then obtain p' where p: "p = mg_send_http_chunk x @ p'" "p' @ t = enc xs" using Cons.prems
      by (simp add: enc_def) (metis append_eq_append_conv_if append_eq_conv_conj append_take_drop_id not_less)
    obtain xs1 xs2 q where "xs = xs1 @ xs2" "p' = enc xs1 @ q" "q @ t = enc xs2"
      "xs2 = [] \<and> q = [] \<or> (\<exists>x xs' k. xs2 = x # xs' \<and> k < length (mg_send_http_chunk x) \<and> q = take k (mg_send_http_chunk x))"
      using Cons.IH [OF p(2)] by blast
    then show ?thesis using p(1) by (intro exI [of _ "x # xs1"] exI [of _ xs2] exI [of _ q]) (auto simp: enc_def)
  qed
qed (simp add: enc_def)

definition deliveries :: "http_call list \<Rightarrow> http_call list" where
  "deliveries calls = filter (\<lambda>c. case c of CALL_RECV \<Rightarrow> False | CALL_HTTP_CHUNK _ \<Rightarrow> False | _ \<Rightarrow> True) calls"

lemma deliveries_append [simp]: "deliveries (a @ b) = deliveries a @ deliveries b"
  by (simp add: deliveries_def)

lemma deliveries_RECV [simp]: "deliveries (CALL_RECV # calls) = deliveries calls"
  by (simp add: deliveries_def)

lemma deliveries_chunks: "chunk_calls calls \<Longrightarrow> deliveries calls = []"
  by (induction calls) (auto simp: deliveries_def chunk_calls_def)

lemma mg_call_open: "open_http h \<Longrightarrow> keeps user \<Longrightarrow> open_http (mg_call user c h)"
  by (simp add: open_http_def mg_call_flags)

lemma mg_call_buffered [simp]: "buffered_bytes (mg_call user c h) = buffered_bytes h"
  by (simp add: buffered_bytes_def)

lemma buf_buffered: "mbuf_ok (recv_mbuf (conn h)) \<Longrightarrow> buffered_bytes h = x \<Longrightarrow> \<exists>j. buf (recv_mbuf (conn h)) = x @ j \<and> len (recv_mbuf (conn h)) = length x"
  unfolding buffered_bytes_def by (metis append_take_drop_id in_use_def length_in_use)

lemma short_buffer:
  assumes "mg_http_get_request_len (buffered_bytes h) = 0" "length (buffered_bytes h) < 1024" "open_http h" "keeps user"
  shows "\<exists>h'. mg_http_recv mc user h = Some (h', [CALL_RECV]) \<and> open_http h' \<and> buffered_bytes h' = buffered_bytes h \<and>
    chunk_body_len h' = chunk_body_len h \<and> accepted (conn h') = accepted (conn h)"
proof -
  have "len (recv_mbuf (conn h)) < 1024" using assms(2,3) length_in_use [of "recv_mbuf (conn h)"]
    by (simp add: buffered_bytes_def open_http_def)
  then have "mg_http_recv mc user h = Some (mg_call user CALL_RECV h, [CALL_RECV])"
    using assms(1) by (simp add: mg_http_recv_def mg_parse_http_def buffered_bytes_def Let_def)
  then show ?thesis using mg_call_open [OF assms(3,4)] by simp
qed

section \<open>A chunked answer\<close>

lemma response_lookup:
  "lookup (ascii ''Transfer-Encoding'') response_fields = Some (ascii ''chunked'')"
  "lookup (ascii ''Sec-WebSocket-Accept'') response_fields = None"
  by (simp_all add: lookup_def response_fields_def ascii_def tolower_def)

lemma response_chunked:
  assumes "s = http_head @ r" "mg_parse_http s False = Some (47, hm)" "fields_of s hm = response_fields"
  shows "is_chunked s hm = Some True"
proof -
  have "\<forall>(k, v) \<in> set (fields_of s hm). 0 \<notin> set v" by (simp add: assms(3) response_fields_def ascii_def)
  moreover have "map tolower (ascii ''chunked'') = ascii ''chunked''" by (simp add: ascii_def tolower_def)
  ultimately show ?thesis using is_chunked_spec [OF assms(2)] assms(3) by (simp add: response_lookup)
qed

lemma no_accept:
  assumes "mg_parse_http (http_head @ r) False = Some (47, hm)" "fields_of (http_head @ r) hm = response_fields"
    and "headers hm' = headers hm"
  shows "mg_get_http_header (http_head @ r') hm' (ascii ''Sec-WebSocket-Accept'') = Some None"
proof -
  have hi: "headers_inside 47 hm'" using parsed_headers(1) [OF assms(1)] assms(3) by (simp add: headers_inside_def)
  have "fields_of (http_head @ r') hm' = fields_of (http_head @ r) hm'"
    by (rule fields_prefix [OF hi]) (simp add: length_http_head)
  also have "\<dots> = response_fields" using assms(2,3) by (simp add: fields_of_def)
  finally have f: "fields_of (http_head @ r') hm' = response_fields" .
  have "0 \<notin> set (ascii ''Sec-WebSocket-Accept'')" by (simp add: ascii_def)
  then obtain x where "mg_get_http_header (http_head @ r') hm' (ascii ''Sec-WebSocket-Accept'') = Some x"
      "map_option (str_at (http_head @ r')) x = lookup (ascii ''Sec-WebSocket-Accept'') (fields_of (http_head @ r') hm')"
    using get_header [OF hi, of "http_head @ r'"] by (auto simp: length_http_head)
  then show ?thesis by (simp add: f response_lookup)
qed

lemma not_minus_1: "n < 2 ^ 63 \<Longrightarrow> (of_nat n :: 64 word) \<noteq> - 1"
proof
  assume "n < 2 ^ 63" "(of_nat n :: 64 word) = - 1"
  moreover from this have "unat (of_nat n :: 64 word) = unat (- 1 :: 64 word)" by (simp only:)
  moreover have "unat (- 1 :: 64 word) = 2 ^ 64 - 1" by (simp add: unsigned_minus_1_eq_mask mask_eq_exp_minus_1)
  ultimately show False using unat_64 [of n] by simp
qed

lemma reply_more:
  assumes ok: "open_http h" "keeps user" "\<not> accepted (conn h)"
    and b: "buffered_bytes h = http_head @ B @ enc cs @ q" "chunk_body_len h = length B"
    and q: "[] \<notin> set cs" "q = take k (mg_send_http_chunk bs)" "k < length (mg_send_http_chunk bs)" "length (mg_send_http_chunk bs) < 2 ^ 63"
    and n: "length (buffered_bytes h) < 2 ^ 63"
  shows "\<exists>h' calls. mg_http_recv mc user h = Some (h', calls) \<and> deliveries calls = [] \<and> open_http h' \<and> \<not> accepted (conn h') \<and>
    buffered_bytes h' = http_head @ B @ concat cs @ q \<and> chunk_body_len h' = length (B @ concat cs)"
proof -
  let ?h = "mg_call user CALL_RECV h"
  obtain hm where hm: "mg_parse_http (buffered_bytes h) False = Some (47, hm)" "fields_of (buffered_bytes h) hm = response_fields"
      "body_p hm = 47" "body_len hm = - 1" "message_len hm = - 1" "hm_uri hm = (0, 0)"
    using response_parsed [OF b(1)] by blast
  have c: "is_chunked (buffered_bytes h) hm = Some True" by (rule response_chunked [OF b(1) hm(1,2)])
  have h: "open_http ?h" by (rule mg_call_open [OF ok(1,2)])
  have b2: "buffered_bytes ?h = http_head @ B @ concat (map mg_send_http_chunk cs) @ q" "length (buffered_bytes ?h) < 2 ^ 63"
      "body_p hm = length http_head" "chunk_body_len ?h = length B"
    using b n hm(3) by (simp_all add: enc_def length_http_head)
  obtain h' hm' calls where r: "mg_handle_chunked user ?h hm (length http_head) = Some (h', hm', calls)" "open_http h'"
      "buffered_bytes h' = http_head @ B @ concat cs @ q" "chunk_body_len h' = length (B @ concat cs)"
      "accepted (conn h') = accepted (conn ?h)" "chunk_calls calls" "headers hm' = headers hm" "message_len hm' = message_len hm"
    using handle_part [OF h ok(2) b2(1,4) q b2(2,3)] by blast
  obtain j where j: "buf (recv_mbuf (conn h')) = http_head @ (B @ concat cs @ q) @ j"
      "len (recv_mbuf (conn h')) = length (http_head @ B @ concat cs @ q)"
    using buf_buffered [of h', OF _ r(3)] r(2) by (auto simp: open_http_def)
  have a: "mg_get_http_header (buf (recv_mbuf (conn h'))) hm' (ascii ''Sec-WebSocket-Accept'') = Some None"
    unfolding j(1) by (rule no_accept [OF hm(1,2) [unfolded b(1)] r(7)])
  have sm: "length (http_head @ B @ concat cs @ q) < 2 ^ 63"
    using n length_chunks [of cs] by (simp add: b(1) enc_def)
  have "(of_nat (length (http_head @ B @ concat cs @ q)) :: 64 word) \<noteq> - 1" by (rule not_minus_1 [OF sm])
  then have m: "\<not> message_len hm' \<le> of_nat (len (recv_mbuf (conn h')))"
    using r(8) hm(5) unfolding j(2) by (metis word_order.extremum_uniqueI)
  have "mg_http_recv mc user h = Some (h', CALL_RECV # calls)"
    unfolding mg_http_recv_def Let_def buffered_bytes_def [symmetric]
    using ok(3) hm(1) c r(1) a m by (simp add: length_http_head)
  then show ?thesis using r ok(3) deliveries_chunks [OF r(6)] by (intro exI [of _ h'] exI [of _ "CALL_RECV # calls"]) simp
qed

lemma reply_done:
  assumes ok: "open_http h" "keeps user" "\<not> accepted (conn h)"
    and b: "buffered_bytes h = http_head @ B @ enc (cs @ [[]])" "chunk_body_len h = length B"
    and q: "[] \<notin> set cs" and n: "length (buffered_bytes h) < 2 ^ 63"
  shows "\<exists>h' calls. mg_http_recv mc user h = Some (h', calls) \<and>
    deliveries calls = [CALL_HTTP_REPLY (Some \<lparr>message = http_head @ B @ concat cs, uri = [], body = B @ concat cs\<rparr>)] \<and>
    open_http h' \<and> \<not> accepted (conn h') \<and> buffered_bytes h' = [] \<and> chunk_body_len h' = length (B @ concat cs)"
proof -
  let ?h = "mg_call user CALL_RECV h"
  obtain hm where hm: "mg_parse_http (buffered_bytes h) False = Some (47, hm)" "fields_of (buffered_bytes h) hm = response_fields"
      "body_p hm = 47" "body_len hm = - 1" "message_len hm = - 1" "hm_uri hm = (0, 0)"
    using response_parsed [OF b(1)] by blast
  have c: "is_chunked (buffered_bytes h) hm = Some True" by (rule response_chunked [OF b(1) hm(1,2)])
  have h: "open_http ?h" by (rule mg_call_open [OF ok(1,2)])
  have b2: "buffered_bytes ?h = http_head @ B @ concat (map mg_send_http_chunk cs) @ mg_send_http_chunk [] @ []"
      "length (buffered_bytes ?h) < 2 ^ 63" "body_p hm = length http_head" "chunk_body_len ?h = length B"
    using b n hm(3) by (simp_all add: enc_def length_http_head)
  let ?m = "http_head @ B @ concat cs"
  obtain h' hm' calls where r: "mg_handle_chunked user ?h hm (length http_head) = Some (h', hm', calls)" "open_http h'"
      "buffered_bytes h' = ?m" "chunk_body_len h' = length (B @ concat cs)"
      "accepted (conn h') = accepted (conn ?h)" "chunk_calls calls" "headers hm' = headers hm"
      "message_len hm' = of_nat (length ?m)" "body_len hm' = of_nat (length (B @ concat cs))"
      "body_p hm' = 47" "hm_uri hm' = (0, 0)"
    using handle_last [OF h ok(2) b2(1,4) q b2(2,3)] hm(3,6) by (simp add: length_http_head) blast
  obtain j where j: "buf (recv_mbuf (conn h')) = http_head @ (B @ concat cs) @ j" "len (recv_mbuf (conn h')) = length ?m"
    using buf_buffered [of h', OF _ r(3)] r(2) by (auto simp: open_http_def)
  have a: "mg_get_http_header (buf (recv_mbuf (conn h'))) hm' (ascii ''Sec-WebSocket-Accept'') = Some None"
    unfolding j(1) by (rule no_accept [OF hm(1,2) [unfolded b(1)] r(7)])
  have sm: "length ?m < 2 ^ 63" using n length_chunks [of cs] by (simp add: b(1) enc_def)
  have u: "unat (of_nat (length ?m) :: 64 word) = length ?m" "unat (of_nat (length (B @ concat cs)) :: 64 word) = length (B @ concat cs)"
    by (rule unat_64, use sm in simp)+
  have v: "view (buf (recv_mbuf (conn h'))) hm' = Some \<lparr>message = ?m, uri = [], body = B @ concat cs\<rparr>"
    unfolding view_def r(8,9,10,11) j(1) u by (simp add: slice_def str_at_def length_http_head)
  obtain io where io: "mbuf_remove (recv_mbuf (conn h')) (length ?m) = Some io" "mbuf_ok io" "in_use io = []"
    using mbuf_remove_spec [of "recv_mbuf (conn h')" "length ?m"] r(2,3) j(2) by (auto simp: open_http_def buffered_bytes_def)
  let ?call = "CALL_HTTP_REPLY (Some \<lparr>message = ?m, uri = [], body = B @ concat cs\<rparr>)"
  let ?h2 = "mg_call user ?call h'"
  have "mg_http_recv mc user h = Some (?h2\<lparr>conn := (conn ?h2)\<lparr>recv_mbuf := io\<rparr>\<rparr>, CALL_RECV # calls @ [?call])"
    unfolding mg_http_recv_def Let_def buffered_bytes_def [symmetric]
    using ok(3) hm(1) c r(1,8) a io(1) u(1) v r(5) by (simp add: length_http_head j(2))
  moreover have "open_http (?h2\<lparr>conn := (conn ?h2)\<lparr>recv_mbuf := io\<rparr>\<rparr>)"
    using mg_call_open [OF r(2) ok(2), of ?call] io(2) by (simp add: open_http_def)
  ultimately show ?thesis using r(4,5) ok(3) io(3) deliveries_chunks [OF r(6)]
    by (simp add: buffered_bytes_def) (simp add: deliveries_def)
qed

text \<open>A client that waits for the rest \<open>u\<close> of an answer with the chunks \<open>cs\<close>.\<close>

definition awaits :: "byte list list \<Rightarrow> http_connection \<Rightarrow> byte list \<Rightarrow> bool" where
  "awaits cs h u \<longleftrightarrow> open_http h \<and> \<not> accepted (conn h) \<and>
     (length (buffered_bytes h) < 47 \<and> buffered_bytes h @ u = http_head @ enc (cs @ [[]]) \<and> chunk_body_len h = 0 \<or>
      (\<exists>got todo q. cs @ [[]] = got @ todo \<and> [] \<notin> set got \<and> buffered_bytes h = http_head @ concat got @ q \<and>
        chunk_body_len h = length (concat got) \<and> q @ u = enc todo))"

definition finished :: "byte list list \<Rightarrow> http_connection \<Rightarrow> bool" where
  "finished cs h \<longleftrightarrow> open_http h \<and> \<not> accepted (conn h) \<and> buffered_bytes h = [] \<and> chunk_body_len h = length (concat cs)"

lemma enc_append [simp]: "enc (a @ b) = enc a @ enc b"
  by (simp add: enc_def)

lemma length_enc: "length (concat cs) \<le> length (enc cs)"
  using length_chunks [of cs] by (simp add: enc_def)

lemma awaits_length: "awaits cs h u \<Longrightarrow> length (buffered_bytes h @ u) \<le> length (http_head @ enc (cs @ [[]]))"
proof -
  assume a: "awaits cs h u"
  show ?thesis
  proof (cases "length (buffered_bytes h) < 47 \<and> buffered_bytes h @ u = http_head @ enc (cs @ [[]])")
    case False
    then obtain got todo q where g: "cs @ [[]] = got @ todo" "buffered_bytes h = http_head @ concat got @ q" "q @ u = enc todo"
      using a by (auto simp: awaits_def)
    have "length (q @ u) = length (enc todo)" by (simp only: g(3))
    then show ?thesis unfolding g(1,2) using length_enc [of got] by simp
  qed simp
qed

text \<open>One event with the bytes \<open>s\<close> appended to the buffer.\<close>

lemma awaits_chunks:
  assumes h: "open_http h" "keeps user" "\<not> accepted (conn h)"
    and g: "cs @ [[]] = got @ todo" "[] \<notin> set got" "[] \<notin> set cs" "buffered_bytes h = http_head @ concat got @ q"
      "chunk_body_len h = length (concat got)" "q @ t = enc todo"
    and n: "length (http_head @ enc (cs @ [[]])) < 2 ^ 63"
  shows "\<exists>h' calls. mg_http_recv mc user h = Some (h', calls) \<and>
    (if t = [] then deliveries calls = [CALL_HTTP_REPLY (Some \<lparr>message = http_head @ concat cs, uri = [], body = concat cs\<rparr>)] \<and>
        finished cs h'
     else deliveries calls = [] \<and> awaits cs h' t)"
proof -
  obtain xs1 xs2 q' where x: "todo = xs1 @ xs2" "q = enc xs1 @ q'" "q' @ t = enc xs2"
      "xs2 = [] \<and> q' = [] \<or> (\<exists>x xs' k. xs2 = x # xs' \<and> k < length (mg_send_http_chunk x) \<and> q' = take k (mg_send_http_chunk x))"
    using split_chunks [OF g(6)] by blast
  have "length (q @ t) = length (enc todo)" by (simp only: g(6))
  moreover have "length (enc (cs @ [[]])) = length (enc got) + length (enc todo)" by (simp only: g(1)) simp
  ultimately have n1: "length (buffered_bytes h) < 2 ^ 63" using n length_enc [of got] unfolding g(4) by simp
  show ?thesis
  proof (cases "xs2 = []")
    case True
    then have t: "q' = []" "t = []" using x(3,4) by (auto simp: enc_def)
    have e: "cs @ [[]] = got @ xs1" using g(1) x(1) True by simp
    obtain ys where ys: "xs1 = ys @ [[]]"
    proof (cases xs1 rule: rev_cases)
      case Nil
      then have "[] \<in> set got" using arg_cong [OF e, of set] by auto
      then show ?thesis using g(2) by simp
    qed (use e in auto)
    then have cs: "cs = got @ ys" using g(1) x(1) True by simp
    have "buffered_bytes h = http_head @ concat got @ enc (ys @ [[]])" using g(4) x(2) t(1) ys by simp
    from reply_done [OF h this g(5) _ n1] show ?thesis using g(3) t(2) by (simp add: cs finished_def)
  next
    case False
    then obtain x xs' k where k: "xs2 = x # xs'" "k < length (mg_send_http_chunk x)" "q' = take k (mg_send_http_chunk x)"
      using x(4) by blast
    have t: "t \<noteq> []"
    proof
      assume "t = []"
      then have "length q' = length (enc xs2)" using x(3) by simp
      then show False using k by (simp add: enc_def)
    qed
    have "length (mg_send_http_chunk x) \<le> length (enc (cs @ [[]]))" unfolding g(1) x(1) k(1) by (simp add: enc_def)
    then have lx: "length (mg_send_http_chunk x) < 2 ^ 63" using n by simp
    have "cs @ [[]] = (got @ xs1) @ x # xs'" using g(1) x(1) k(1) by simp
    from arg_cong [OF this, of butlast] have "cs = (got @ xs1) @ butlast (x # xs')"
      by (simp add: butlast_append)
    then have ne: "[] \<notin> set (got @ xs1)" "[] \<notin> set xs1" using g(3) by (metis UnCI set_append)+
    have b: "buffered_bytes h = http_head @ concat got @ enc xs1 @ q'" using g(4) x(2) by simp
    obtain h' calls where r: "mg_http_recv mc user h = Some (h', calls)" "deliveries calls = []" "open_http h'"
        "\<not> accepted (conn h')" "buffered_bytes h' = http_head @ concat got @ concat xs1 @ q'"
        "chunk_body_len h' = length (concat got @ concat xs1)"
      using reply_more [OF h b g(5) ne(2) k(3,2) lx n1, of mc] by blast
    have "awaits cs h' t" unfolding awaits_def
      using r(3-6) g(1) x(1,3) ne(1) by (intro conjI disjI2 exI [of _ "got @ xs1"] exI [of _ xs2] exI [of _ q']) auto
    then show ?thesis using r(1,2) t by auto
  qed
qed

definition reply_call :: "byte list list \<Rightarrow> http_call" where
  "reply_call cs = CALL_HTTP_REPLY (Some \<lparr>message = http_head @ concat cs, uri = [], body = concat cs\<rparr>)"

lemma with_recv:
  assumes h: "open_http h" and f: "(len (recv_mbuf (conn h)) + length s) * 3 div 2 \<le> largest (mem mc)"
  shows "\<exists>h1. mg_recv_http mc user now h s own = mg_http_recv mc user h1 \<and> open_http h1 \<and>
    buffered_bytes h1 = buffered_bytes h @ s \<and> chunk_body_len h1 = chunk_body_len h \<and> accepted (conn h1) = accepted (conn h)"
proof -
  obtain io where io: "recv_bytes (mem mc) (recv_mbuf (conn h)) s own = Some io" "mbuf_ok io"
      "in_use io = in_use (recv_mbuf (conn h)) @ s"
    using recv_bytes_spec [OF _ f] h by (auto simp: open_http_def)
  let ?h = "h\<lparr>conn := (conn h)\<lparr>last_io_time := now, recv_mbuf := io\<rparr>\<rparr>"
  have "mg_recv_http mc user now h s own = mg_http_recv mc user ?h"
    using h io(1) by (simp add: mg_recv_http_def open_http_def)
  then show ?thesis using h io(2,3) by (intro exI [of _ ?h]) (simp add: open_http_def buffered_bytes_def)
qed

lemma client_segment:
  assumes a: "awaits cs h (s @ t)" "keeps user" "[] \<notin> set cs"
    and n: "length (http_head @ enc (cs @ [[]])) < 2 ^ 63" "length (http_head @ enc (cs @ [[]])) * 3 div 2 \<le> largest (mem mc)"
  shows "\<exists>h' calls. mg_recv_http mc user now h s own = Some (h', calls) \<and>
    (if t = [] then deliveries calls = [reply_call cs] \<and> finished cs h'
     else deliveries calls = [] \<and> awaits cs h' t)"
proof -
  let ?S = "http_head @ enc (cs @ [[]])"
  have h: "open_http h" "\<not> accepted (conn h)" using a(1) by (auto simp: awaits_def)
  have "len (recv_mbuf (conn h)) + length s \<le> length ?S"
    using awaits_length [OF a(1)] h(1) length_in_use [of "recv_mbuf (conn h)"] by (simp add: open_http_def buffered_bytes_def)
  then have "(len (recv_mbuf (conn h)) + length s) * 3 div 2 \<le> length ?S * 3 div 2" by (intro div_le_mono) simp
  then have "(len (recv_mbuf (conn h)) + length s) * 3 div 2 \<le> largest (mem mc)" using n(2) by simp
  then obtain h1 where h1: "mg_recv_http mc user now h s own = mg_http_recv mc user h1" "open_http h1"
      "buffered_bytes h1 = buffered_bytes h @ s" "chunk_body_len h1 = chunk_body_len h" "\<not> accepted (conn h1)"
    using with_recv [OF h(1)] h(2) by blast
  note chunks = awaits_chunks [OF h1(2) a(2) h1(5) _ _ a(3) _ _ _ n(1), of _ _ _ t mc, folded reply_call_def]
  show ?thesis
  proof (cases "length (buffered_bytes h) < 47 \<and> buffered_bytes h @ s @ t = ?S \<and> chunk_body_len h = 0")
    case False
    then obtain got todo q where g: "cs @ [[]] = got @ todo" "[] \<notin> set got" "buffered_bytes h = http_head @ concat got @ q"
        "chunk_body_len h = length (concat got)" "q @ s @ t = enc todo"
      using a(1) by (auto simp: awaits_def)
    show ?thesis unfolding h1(1) by (rule chunks [OF g(1,2)]) (use g(3-5) h1(3,4) in auto)
  next
    case True
    then have S: "buffered_bytes h1 @ t = ?S" "chunk_body_len h1 = 0" using h1(3,4) by simp_all
    show ?thesis
    proof (cases "length (buffered_bytes h1) < 47")
      case short: True
      have "mg_http_get_request_len (take (length (buffered_bytes h1)) ?S) = 0"
        by (rule request_len_part [where n = 47]) (use response_len [of "enc (cs @ [[]])"] short in \<open>simp_all add: length_http_head\<close>)
      then have z: "mg_http_get_request_len (buffered_bytes h1) = 0" by (simp only: S(1) [symmetric]) simp
      have "length (buffered_bytes h1) < 1024" using short by simp
      from short_buffer [OF z this h1(2) a(2), of mc]
      obtain h' where r: "mg_http_recv mc user h1 = Some (h', [CALL_RECV])" "open_http h'" "buffered_bytes h' = buffered_bytes h1"
          "chunk_body_len h' = 0" "\<not> accepted (conn h')" using S(2) h1(5) by auto
      have "t \<noteq> []" using short arg_cong [OF S(1), of length] by (auto simp: length_http_head)
      then show ?thesis unfolding h1(1) using r S(1) short by (simp add: awaits_def deliveries_def)
    next
      case False
      define y where "y = drop 47 (buffered_bytes h1)"
      have y: "buffered_bytes h1 = http_head @ y" "y @ t = enc (cs @ [[]])"
      proof -
        have "take 47 (buffered_bytes h1 @ t) = http_head" "drop 47 (buffered_bytes h1 @ t) = enc (cs @ [[]])"
          unfolding S(1) by (simp_all add: length_http_head)
        then show "buffered_bytes h1 = http_head @ y" "y @ t = enc (cs @ [[]])"
          using False append_take_drop_id [of 47 "buffered_bytes h1"] by (simp_all add: y_def)
      qed
      show ?thesis unfolding h1(1) by (rule chunks [of "[]" "cs @ [[]]" y]) (use y S(2) in auto)
    qed
  qed
qed

lemma client_segments:
  assumes "awaits cs h (concat (map (\<lambda>(_, bs, _). bs) segs))" "segs \<noteq> []" "\<forall>(_, bs, _) \<in> set segs. bs \<noteq> []"
    and k: "keeps user" "[] \<notin> set cs"
    and n: "length (http_head @ enc (cs @ [[]])) < 2 ^ 63" "length (http_head @ enc (cs @ [[]])) * 3 div 2 \<le> largest (mem mc)"
  shows "\<exists>h' calls. mg_recv_segments mc user h segs = Some (h', calls) \<and> deliveries calls = [reply_call cs] \<and> finished cs h'"
  using assms(1-3)
proof (induction segs arbitrary: h)
  case (Cons g segs)
  obtain now s own where g: "g = (now, s, own)" by (cases g)
  let ?t = "concat (map (\<lambda>(_, bs, _). bs) segs)"
  have "awaits cs h (s @ ?t)" using Cons.prems(1) g by simp
  from client_segment [OF this k n, of now own]
  obtain h' calls where r: "mg_recv_http mc user now h s own = Some (h', calls)"
    "if ?t = [] then deliveries calls = [reply_call cs] \<and> finished cs h'
     else deliveries calls = [] \<and> awaits cs h' ?t" by blast
  show ?case
  proof (cases "segs = []")
    case True
    then show ?thesis using r by (simp add: g)
  next
    case False
    then have t: "?t \<noteq> []" using Cons.prems(3) by (cases segs) auto
    then have d: "deliveries calls = [] \<and> awaits cs h' ?t" using r(2) by (simp only: if_False)
    then have "\<exists>h2 calls. mg_recv_segments mc user h' segs = Some (h2, calls) \<and> deliveries calls = [reply_call cs] \<and> finished cs h2"
      using Cons.IH [of h'] False Cons.prems(3) by auto
    then show ?thesis using r(1) d by (auto simp: g)
  qed
qed simp

section \<open>The client of the repository\<close>

text \<open>What \<open>OnHttpEvent\<close> of \<open>http_client.cc\<close> makes of a call of mongoose, and the flags it sets.\<close>

definition client_event_of :: "http_call \<Rightarrow> client_event option" where
  "client_event_of c = (case c of
     CALL_HTTP_REPLY v \<Rightarrow> map_option (\<lambda>m. MG_EV_HTTP_REPLY (body m)) v
   | CALL_CLOSE \<Rightarrow> Some MG_EV_CONN_CLOSE
   | _ \<Rightarrow> Some MG_EV_UNUSED)"

definition client_user :: http_user where
  "client_user c nc = (case c of CALL_HTTP_REPLY _ \<Rightarrow> flags nc OR MG_F_SEND_AND_CLOSE | _ \<Rightarrow> flags nc, [])"

fun client_events :: "http_call list \<Rightarrow> client_event list option" where
  "client_events [] = Some []"
| "client_events (c # calls) = do { ev \<leftarrow> client_event_of c; evs \<leftarrow> client_events calls; Some (ev # evs) }"

lemma keeps_client: "keeps client_user"
proof -
  have "MG_F_SEND_AND_CLOSE AND MG_F_DELETE_CHUNK = 0" "MG_F_SEND_AND_CLOSE AND MG_F_CLOSE_IMMEDIATELY = 0" by code_simp+
  then show ?thesis by (auto simp: keeps_def client_user_def bit.conj_disj_distrib2 split: http_call.split)
qed

lemma client_replies:
  assumes "list_all (\<lambda>c. \<exists>m. c = CALL_HTTP_REPLY (Some m)) (deliveries calls)"
  shows "\<exists>evs. client_events calls = Some evs \<and>
    map (CALL_HTTP_REPLY o Some) (map (\<lambda>b. \<lparr>message = [], uri = [], body = b\<rparr>) (replies evs)) =
    map (\<lambda>c. case c of CALL_HTTP_REPLY (Some m) \<Rightarrow> CALL_HTTP_REPLY (Some \<lparr>message = [], uri = [], body = body m\<rparr>) | _ \<Rightarrow> c) (deliveries calls)"
  using assms
proof (induction calls)
  case (Cons c calls)
  then show ?case by (cases c) (auto simp: deliveries_def client_event_of_def)
qed (simp add: deliveries_def)

lemma reply_events:
  assumes "deliveries calls = [reply_call cs]" "s_req_callback s = Some k"
  shows "\<exists>evs. client_events calls = Some evs \<and> poll evs s = Some (s\<lparr>s_exit_flag := 1\<rparr>, [(k, concat cs)])"
proof -
  obtain evs where e: "client_events calls = Some evs" and r: "map (CALL_HTTP_REPLY o Some) (map (\<lambda>b. \<lparr>message = [], uri = [], body = b\<rparr>) (replies evs)) =
      [CALL_HTTP_REPLY (Some \<lparr>message = [], uri = [], body = concat cs\<rparr>)]"
    using client_replies [of calls] assms(1) by (auto simp: reply_call_def)
  have p: "replies evs = [concat cs]" using r by auto
  have "\<exists>ev \<in> set evs. ends_wait ev \<and> ev \<noteq> MG_EV_CONN_CLOSE" if "replies evs \<noteq> []" for evs
    using that by (induction evs rule: replies.induct) (auto simp: ends_wait_def)
  then have "\<exists>ev \<in> set evs. ends_wait ev \<and> ev \<noteq> MG_EV_CONN_CLOSE" using p by simp
  then show ?thesis using poll_eq [OF assms(2), of evs] e p by (auto split: if_splits)
qed

definition answer_chunks :: "byte list \<Rightarrow> byte list list" where
  "answer_chunks rsp = [result_json (c_str rsp)]"

lemma answer_bytes: "sent_to (cid c) (SendHttpRsp c rsp) = http_head @ enc (answer_chunks rsp @ [[]])"
  by (simp add: SendHttpRsp_def sent_to_def http_head_def result_json_def enc_def answer_chunks_def)

definition idle :: "http_connection \<Rightarrow> bool" where
  "idle h \<longleftrightarrow> open_http h \<and> buffered_bytes h = [] \<and> chunk_body_len h = 0"

lemma answer_delivered:
  assumes h: "idle h" "\<not> accepted (conn h)"
    and seg: "concat (map (\<lambda>(_, bs, _). bs) segs) = sent_to (cid c) (SendHttpRsp c rsp)" "\<forall>(_, bs, _) \<in> set segs. bs \<noteq> []"
    and n: "length (sent_to (cid c) (SendHttpRsp c rsp)) < 2 ^ 63"
      "length (sent_to (cid c) (SendHttpRsp c rsp)) * 3 div 2 \<le> largest (mem mc)"
    and k: "s_req_callback s = Some k"
  shows "\<exists>h' calls evs. mg_recv_segments mc client_user h segs = Some (h', calls) \<and> client_events calls = Some evs \<and>
    poll evs s = Some (s\<lparr>s_exit_flag := 1\<rparr>, [(k, result_json (c_str rsp))]) \<and> buffered_bytes h' = []"
proof -
  let ?cs = "answer_chunks rsp"
  have ne: "[] \<notin> set ?cs" by (simp add: answer_chunks_def result_json_def ascii_def)
  have a: "awaits ?cs h (concat (map (\<lambda>(_, bs, _). bs) segs))"
    using h seg(1) by (simp add: awaits_def idle_def answer_bytes)
  have "segs \<noteq> []" using seg(1) by (auto simp: answer_bytes http_head_def ascii_def)
  then obtain h' calls where "mg_recv_segments mc client_user h segs = Some (h', calls)" "deliveries calls = [reply_call ?cs]"
      "finished ?cs h'"
    using client_segments [OF a _ seg(2) keeps_client ne n [unfolded answer_bytes]] by blast
  moreover from reply_events [OF this(2) k] obtain evs where "client_events calls = Some evs"
      "poll evs s = Some (s\<lparr>s_exit_flag := 1\<rparr>, [(k, concat ?cs)])" by blast
  ultimately show ?thesis by (simp add: answer_chunks_def finished_def)
qed

end
