(* ===== verification/Http_Exchange.thy ===== *)
theory Http_Exchange
  imports Http_Reply
begin

text \<open>
  What mongoose reports to the web server for the bytes of a request, however the network cuts them into
  pieces, and the way of a request to the server and of its answer to the client.
\<close>

section \<open>One request in the buffer\<close>

definition plain_request :: "byte list \<Rightarrow> byte list \<Rightarrow> byte list \<Rightarrow> (byte list \<times> byte list) list \<Rightarrow> bool" where
  "plain_request m u p hs \<longleftrightarrow> good_request m u p hs \<and> length (request_text m u p hs) \<le> 1024 \<and>
     (case lookup (ascii ''Transfer-Encoding'') (kept hs) of Some v \<Rightarrow> map tolower v \<noteq> ascii ''chunked'' | None \<Rightarrow> True) \<and>
     lookup (ascii ''Sec-WebSocket-Key'') (kept hs) = None"

text \<open>The headers announce a body of this length.\<close>

definition announces :: "byte list \<Rightarrow> (byte list \<times> byte list) list \<Rightarrow> nat \<Rightarrow> bool" where
  "announces m hs n \<longleftrightarrow> \<not> (declared (kept hs) = None \<and> has_body m) \<and> body_length m hs = of_nat n"

definition deliver_request :: "http_user \<Rightarrow> http_connection \<Rightarrow> http_parsed \<Rightarrow> (http_connection \<times> http_call list) option" where
  "deliver_request user h hm =
     (let h1 = mg_call user CALL_RECV h; io = recv_mbuf (conn h); call = CALL_HTTP_REQUEST (view (buf io) hm);
          h2 = mg_call user call h1
      in if message_len hm \<le> of_nat (length (buffered_bytes h)) then do {
           io1 \<leftarrow> mbuf_remove io (unat (message_len hm));
           Some (h2\<lparr>conn := (conn h2)\<lparr>recv_mbuf := io1\<rparr>\<rparr>, [CALL_RECV, call]) }
         else Some (h1, [CALL_RECV]))"

lemma request_event:
  assumes ok: "open_http h" "keeps user" "accepted (conn h)"
    and b: "buffered_bytes h = request_text m u p hs @ r" and p: "plain_request m u p hs"
  shows "\<exists>hm. body_p hm = length (request_text m u p hs) \<and> body_len hm = body_length m hs \<and>
    message_len hm = (if declared (kept hs) = None \<and> has_body m then - 1
      else of_nat (length (request_text m u p hs)) + body_length m hs) \<and>
    str_at (buf (recv_mbuf (conn h))) (hm_uri hm) = path u \<and>
    mg_http_recv mc user h = deliver_request user h hm"
proof -
  let ?T = "request_text m u p hs" and ?s = "buffered_bytes h" and ?io = "recv_mbuf (conn h)"
  have g: "good_request m u p hs" using p by (simp add: plain_request_def)
  obtain hm where hm: "mg_parse_http ?s True = Some (int (length ?T), hm)" "str_at ?s (hm_uri hm) = path u"
      "fields_of ?s hm = kept hs" "body_p hm = length ?T" "body_len hm = body_length m hs"
      "message_len hm = (if declared (kept hs) = None \<and> has_body m then - 1 else of_nat (length ?T) + body_length m hs)"
    using request_text_parsed [OF g b] by blast
  have T: "int (length ?T) > 0" by (simp add: request_text_def)
  have hi: "headers_inside (length ?T) hm" "inside (length ?T) (hm_uri hm)" using parsed_headers [OF hm(1) T] by simp_all
  have iok: "mbuf_ok ?io" using ok(1) by (simp add: open_http_def)
  obtain j where j: "buf ?io = ?s @ j" "len ?io = length ?s" using buf_buffered [OF iok refl] by blast
  have pre: "take (length ?T) (buf ?io) = take (length ?T) ?s" by (simp add: j b)
  have "\<forall>(k, v) \<in> set (kept hs). 0 \<notin> set v"
  proof -
    have "set (kept hs) \<subseteq> set hs" by (auto simp: kept_def dest: in_set_takeD)
    moreover have "0 \<notin> set (snd x)" if "x \<in> set hs" for x
      using g that good_not_set [of "snd x"] by (auto simp: good_request_def good_header_def list_all_iff)
    ultimately show ?thesis by fastforce
  qed
  then have c: "is_chunked ?s hm = Some False"
    using is_chunked_spec [OF hm(1) T] p unfolding hm(3) plain_request_def by (auto split: option.splits)
  have "0 \<notin> set (ascii ''Sec-WebSocket-Key'')" by (simp add: ascii_def)
  then obtain x where "mg_get_http_header (buf ?io) hm (ascii ''Sec-WebSocket-Key'') = Some x"
      "map_option (str_at (buf ?io)) x = lookup (ascii ''Sec-WebSocket-Key'') (fields_of (buf ?io) hm)"
    using get_header [OF hi(1), of "buf ?io"] by (auto simp: j b)
  moreover have "fields_of (buf ?io) hm = kept hs" using fields_prefix [OF hi(1) pre] hm(3) by simp
  ultimately have k: "mg_get_http_header (buf ?io) hm (ascii ''Sec-WebSocket-Key'') = Some None"
    using p by (simp add: plain_request_def)
  have "str_at (buf ?io) (hm_uri hm) = path u" using str_at_prefix [OF hi(2) pre] hm(2) by simp
  moreover have "mg_http_recv mc user h = deliver_request user h hm"
    using ok(3) hm(1) c k T unfolding mg_http_recv_def deliver_request_def Let_def by (simp add: buffered_bytes_def [symmetric] j(2))
  ultimately show ?thesis using hm(4-6) unfolding Let_def by blast
qed

lemma request_done:
  assumes ok: "open_http h" "keeps user" "accepted (conn h)"
    and b: "buffered_bytes h = request_text m u p hs @ x @ r" and p: "plain_request m u p hs" "announces m hs (length x)"
    and n: "length (buffered_bytes h) < 2 ^ 63"
  shows "\<exists>h'. mg_http_recv mc user h = Some (h', [CALL_RECV,
      CALL_HTTP_REQUEST (Some \<lparr>message = request_text m u p hs @ x, uri = path u, body = x\<rparr>)]) \<and>
    open_http h' \<and> accepted (conn h') \<and> buffered_bytes h' = r"
proof -
  let ?T = "request_text m u p hs" and ?io = "recv_mbuf (conn h)"
  obtain hm where hm: "body_p hm = length ?T" "body_len hm = body_length m hs"
      "message_len hm = (if declared (kept hs) = None \<and> has_body m then - 1 else of_nat (length ?T) + body_length m hs)"
      "str_at (buf ?io) (hm_uri hm) = path u"
      "mg_http_recv mc user h = deliver_request user h hm"
    using request_event [OF ok b p(1), of mc] by blast
  have iok: "mbuf_ok ?io" using ok(1) by (simp add: open_http_def)
  obtain j where j: "buf ?io = (?T @ x @ r) @ j" "len ?io = length (?T @ x @ r)" using buf_buffered [OF iok b] by blast
  have ml: "message_len hm = of_nat (length (?T @ x))" "body_len hm = of_nat (length x)"
    using hm(2,3) p(2) by (auto simp: announces_def)
  have sm: "length (?T @ x) < 2 ^ 63" "length x < 2 ^ 63" "length (?T @ x @ r) < 2 ^ 63" using n by (simp_all add: b)
  have u: "unat (of_nat (length (?T @ x)) :: 64 word) = length (?T @ x)" "unat (of_nat (length x) :: 64 word) = length x"
    by (rule unat_64, use sm in simp)+
  have v: "view (buf ?io) hm = Some \<lparr>message = ?T @ x, uri = path u, body = x\<rparr>"
    unfolding view_def ml u hm(1,4) by (simp add: slice_def j(1))
  obtain io1 where io: "mbuf_remove ?io (length (?T @ x)) = Some io1" "mbuf_ok io1" "in_use io1 = r"
    using mbuf_remove_spec [OF iok, of "length (?T @ x)"] b j(2) by (auto simp: buffered_bytes_def)
  have le: "message_len hm \<le> of_nat (length (buffered_bytes h))"
    unfolding ml(1) b using less_64 [of "length (?T @ x @ r)" "length (?T @ x)"] sm by (simp add: not_less [symmetric] del: of_nat_add)
  let ?call = "CALL_HTTP_REQUEST (Some \<lparr>message = ?T @ x, uri = path u, body = x\<rparr>)"
  let ?h2 = "mg_call user ?call (mg_call user CALL_RECV h)"
  have "mg_http_recv mc user h = Some (?h2\<lparr>conn := (conn ?h2)\<lparr>recv_mbuf := io1\<rparr>\<rparr>, [CALL_RECV, ?call])"
    unfolding hm(5) deliver_request_def Let_def using le v io(1) u(1) by (simp add: ml(1))
  moreover have "open_http (?h2\<lparr>conn := (conn ?h2)\<lparr>recv_mbuf := io1\<rparr>\<rparr>)"
    using mg_call_open [OF mg_call_open [OF ok(1,2)] ok(2), of ?call] io(2) by (simp add: open_http_def)
  ultimately show ?thesis using ok(3) io(3) by (simp add: buffered_bytes_def)
qed

lemma request_more:
  assumes ok: "open_http h" "keeps user" "accepted (conn h)"
    and b: "buffered_bytes h = request_text m u p hs @ r" and p: "plain_request m u p hs" "announces m hs n" "length r < n"
    and n: "length (request_text m u p hs) + n < 2 ^ 63"
  shows "mg_http_recv mc user h = Some (mg_call user CALL_RECV h, [CALL_RECV])"
proof -
  let ?T = "request_text m u p hs"
  obtain hm where hm: "message_len hm = (if declared (kept hs) = None \<and> has_body m then - 1 else of_nat (length ?T) + body_length m hs)"
      "mg_http_recv mc user h = deliver_request user h hm"
    using request_event [OF ok b p(1), of mc] by blast
  have ml: "message_len hm = of_nat (length ?T + n)" using hm(1) p(2) by (auto simp: announces_def)
  have "of_nat (length (buffered_bytes h)) < message_len hm"
    unfolding ml b using less_64 [of "length (?T @ r)" "length ?T + n"] p(3) n by simp
  then have "\<not> message_len hm \<le> of_nat (length (buffered_bytes h))" by (simp only: not_le)
  then show ?thesis unfolding hm(2) deliver_request_def Let_def by (rule if_not_P)
qed

section \<open>A request in pieces\<close>

definition request_call :: "byte list \<Rightarrow> byte list \<Rightarrow> byte list \<Rightarrow> (byte list \<times> byte list) list \<Rightarrow> byte list \<Rightarrow> http_call" where
  "request_call m u p hs x = CALL_HTTP_REQUEST (Some \<lparr>message = request_text m u p hs @ x, uri = path u, body = x\<rparr>)"

lemma server_segment:
  assumes h: "open_http h" "accepted (conn h)" "buffered_bytes h @ s @ t = request_text m u p hs @ x"
    and k: "keeps user" "plain_request m u p hs" "announces m hs (length x)"
    and n: "length (request_text m u p hs @ x) < 2 ^ 63" "length (request_text m u p hs @ x) * 3 div 2 \<le> largest (mem mc)"
  shows "\<exists>h' calls. mg_recv_http mc user now h s own = Some (h', calls) \<and> open_http h' \<and> accepted (conn h') \<and>
    (if t = [] then deliveries calls = [request_call m u p hs x] \<and> buffered_bytes h' = []
     else deliveries calls = [] \<and> buffered_bytes h' = buffered_bytes h @ s)"
proof -
  let ?T = "request_text m u p hs"
  have "len (recv_mbuf (conn h)) + length s \<le> length (?T @ x)"
    using arg_cong [OF h(3), of length] h(1) length_in_use [of "recv_mbuf (conn h)"] by (simp add: open_http_def buffered_bytes_def)
  then have "(len (recv_mbuf (conn h)) + length s) * 3 div 2 \<le> length (?T @ x) * 3 div 2" by (intro div_le_mono) simp
  then have "(len (recv_mbuf (conn h)) + length s) * 3 div 2 \<le> largest (mem mc)" using n(2) by simp
  then obtain h1 where h1: "mg_recv_http mc user now h s own = mg_http_recv mc user h1" "open_http h1"
      "buffered_bytes h1 = buffered_bytes h @ s" "accepted (conn h1)"
    using with_recv [OF h(1)] h(2) by blast
  have S: "buffered_bytes h1 @ t = ?T @ x" using h(3) h1(3) by simp
  have tb: "take (length (buffered_bytes h1)) (?T @ x) = buffered_bytes h1" unfolding S [symmetric] by simp
  show ?thesis
  proof (cases "length (buffered_bytes h1) < length ?T")
    case short: True
    have g: "good_request m u p hs" "length ?T \<le> 1024" using k(2) by (simp_all add: plain_request_def)
    have "mg_http_get_request_len (take (length (buffered_bytes h1)) (?T @ x)) = 0"
      by (rule request_len_part [OF length_request [OF g(1)] short]) simp
    then have z: "mg_http_get_request_len (buffered_bytes h1) = 0" by (simp only: tb)
    have "length (buffered_bytes h1) < 1024" using short g(2) by simp
    from short_buffer [OF z this h1(2) k(1), of mc]
    obtain h' where r: "mg_http_recv mc user h1 = Some (h', [CALL_RECV])" "open_http h'" "buffered_bytes h' = buffered_bytes h1"
        "accepted (conn h')" using h1(4) by auto
    have "t \<noteq> []" using short arg_cong [OF S, of length] by auto
    then show ?thesis unfolding h1(1) using r h1(3) by (simp add: deliveries_def)
  next
    case False
    define r where "r = drop (length ?T) (buffered_bytes h1)"
    have "take (length ?T) (buffered_bytes h1 @ t) = ?T" "drop (length ?T) (buffered_bytes h1 @ t) = x" unfolding S by simp_all
    then have r: "buffered_bytes h1 = ?T @ r" "r @ t = x"
      using False append_take_drop_id [of "length ?T" "buffered_bytes h1"] by (simp_all add: r_def)
    show ?thesis
    proof (cases "t = []")
      case True
      have b: "buffered_bytes h1 = ?T @ x @ []" "length (buffered_bytes h1) < 2 ^ 63" using r True n(1) by simp_all
      obtain h' where "mg_http_recv mc user h1 = Some (h', [CALL_RECV, request_call m u p hs x])" "open_http h'"
          "accepted (conn h')" "buffered_bytes h' = []"
        using request_done [OF h1(2) k(1) h1(4) b(1) k(2,3) b(2)] unfolding request_call_def by blast
      then show ?thesis unfolding h1(1) using True by (simp add: deliveries_def request_call_def)
    next
      case False
      have l: "length r < length x" "length ?T + length x < 2 ^ 63" using r(2) False n(1) by auto
      have "mg_http_recv mc user h1 = Some (mg_call user CALL_RECV h1, [CALL_RECV])"
        by (rule request_more [OF h1(2) k(1) h1(4) r(1) k(2,3) l])
      then show ?thesis unfolding h1(1) using False mg_call_open [OF h1(2) k(1)] h1(3,4) by (simp add: deliveries_def)
    qed
  qed
qed

lemma server_segments:
  assumes "open_http h" "accepted (conn h)"
    "buffered_bytes h @ concat (map (\<lambda>(_, bs, _). bs) segs) = request_text m u p hs @ x" "segs \<noteq> []" "\<forall>(_, bs, _) \<in> set segs. bs \<noteq> []"
    and k: "keeps user" "plain_request m u p hs" "announces m hs (length x)"
    and n: "length (request_text m u p hs @ x) < 2 ^ 63" "length (request_text m u p hs @ x) * 3 div 2 \<le> largest (mem mc)"
  shows "\<exists>h' calls. mg_recv_segments mc user h segs = Some (h', calls) \<and> deliveries calls = [request_call m u p hs x] \<and>
    buffered_bytes h' = []"
  using assms(1-5)
proof (induction segs arbitrary: h)
  case (Cons g segs)
  obtain now s own where g: "g = (now, s, own)" by (cases g)
  let ?t = "concat (map (\<lambda>(_, bs, _). bs) segs)"
  have "buffered_bytes h @ s @ ?t = request_text m u p hs @ x" using Cons.prems(3) g by simp
  from server_segment [OF Cons.prems(1,2) this k n, of now own]
  obtain h' calls where r: "mg_recv_http mc user now h s own = Some (h', calls)" "open_http h'" "accepted (conn h')"
    "if ?t = [] then deliveries calls = [request_call m u p hs x] \<and> buffered_bytes h' = []
     else deliveries calls = [] \<and> buffered_bytes h' = buffered_bytes h @ s" by blast
  show ?case
  proof (cases "segs = []")
    case True
    then show ?thesis using r by (simp add: g)
  next
    case False
    then have "?t \<noteq> []" using Cons.prems(5) by (cases segs) auto
    then have d: "deliveries calls = [] \<and> buffered_bytes h' = buffered_bytes h @ s" using r(4) by (simp only: if_False)
    then have "\<exists>h2 calls. mg_recv_segments mc user h' segs = Some (h2, calls) \<and> deliveries calls = [request_call m u p hs x] \<and>
        buffered_bytes h2 = []"
      using Cons.IH [of h'] r(2,3) False Cons.prems(3,5) by (auto simp: g)
    then show ?thesis using r(1) d by (auto simp: g)
  qed
qed simp

section \<open>From the client to the server and back\<close>

text \<open>What \<open>OnHttpWebsocketEvent\<close> of \<open>http_server.cc\<close> makes of a call; it cannot make strings of bytes that are
  not there.\<close>

definition server_event_of :: "http_call \<Rightarrow> mg_event option" where
  "server_event_of c = (case c of
     CALL_HTTP_REQUEST v \<Rightarrow> map_option MG_EV_HTTP_REQUEST v
   | CALL_WEBSOCKET_HANDSHAKE_DONE \<Rightarrow> Some MG_EV_WEBSOCKET_HANDSHAKE_DONE
   | CALL_WS call \<Rightarrow> Some (event_of call)
   | CALL_CLOSE \<Rightarrow> Some MG_EV_CLOSE
   | _ \<Rightarrow> Some MG_EV_OTHER)"

fun server_events :: "mg_connection \<Rightarrow> http_call list \<Rightarrow> (mg_connection \<times> mg_event) list option" where
  "server_events c [] = Some []"
| "server_events c (call # calls) = do {
     ev \<leftarrow> server_event_of call; evs \<leftarrow> server_events c calls; Some ((c, ev) # evs) }"

lemma silent_call: "deliveries [call] = [] \<Longrightarrow> server_event_of call = Some MG_EV_OTHER"
  by (auto simp: deliveries_def server_event_of_def split: http_call.splits if_splits)

lemma serve_request:
  assumes "deliveries calls = [CALL_HTTP_REQUEST (Some msg)]" "HandleHttpEvent add junk c msg s = Some out"
  shows "\<exists>evs. server_events c calls = Some evs \<and> serve add junk evs s = Some (s, out)"
proof -
  have quiet: "\<exists>evs. server_events c calls = Some evs \<and> serve add junk evs s = Some (s, [])" if "deliveries calls = []" for calls
    using that
  proof (induction calls)
    case (Cons call calls)
    have "deliveries [call] = []" "deliveries calls = []"
      using Cons.prems deliveries_append [of "[call]" calls] by simp_all
    then have "server_event_of call = Some MG_EV_OTHER" "deliveries calls = []" using silent_call by auto
    then show ?case using Cons.IH by (auto simp: OnHttpWebsocketEvent_def)
  qed simp
  show ?thesis using assms(1)
  proof (induction calls)
    case (Cons call calls)
    show ?case
    proof (cases "deliveries [call] = []")
      case True
      then have "server_event_of call = Some MG_EV_OTHER" by (rule silent_call)
      moreover have "deliveries calls = [CALL_HTTP_REQUEST (Some msg)]"
        using Cons.prems True deliveries_append [of "[call]" calls] by simp
      ultimately show ?thesis using Cons.IH by (auto simp: OnHttpWebsocketEvent_def)
    next
      case False
      then have "deliveries [call] = [call]" by (simp add: deliveries_def split: if_splits)
      then have "call = CALL_HTTP_REQUEST (Some msg)" "deliveries calls = []"
        using Cons.prems deliveries_append [of "[call]" calls] by simp_all
      then show ?thesis using quiet [of calls] assms(2) by (auto simp: server_event_of_def OnHttpWebsocketEvent_def)
    qed
  qed (simp add: deliveries_def)
qed

lemma exchange:
  assumes "idle hs" "accepted (conn hs)" "idle hc" "\<not> accepted (conn hc)"
    and r: "plain_request m u p fs" "announces m fs (length x)" "length (request_text m u p fs @ x) < 2 ^ 63"
      "length (request_text m u p fs @ x) * 3 div 2 \<le> largest (mem mc)" "keeps user"
    and g: "concat (map (\<lambda>(_, bs, _). bs) segs) = request_text m u p fs @ x" "\<forall>(_, bs, _) \<in> set segs. bs \<noteq> []"
    and a: "HandleHttpEvent add junk c \<lparr>message = request_text m u p fs @ x, uri = path u, body = x\<rparr> srv = Some (SendHttpRsp c rsp)"
    and b: "concat (map (\<lambda>(_, bs, _). bs) back) = sent_to (cid c) (SendHttpRsp c rsp)" "\<forall>(_, bs, _) \<in> set back. bs \<noteq> []"
      "length (sent_to (cid c) (SendHttpRsp c rsp)) < 2 ^ 63"
      "length (sent_to (cid c) (SendHttpRsp c rsp)) * 3 div 2 \<le> largest (mem mc')"
    and k: "s_req_callback cl = Some k"
  shows "\<exists>hs' calls evs hc' calls' evs'. mg_recv_segments mc user hs segs = Some (hs', calls) \<and>
    server_events c calls = Some evs \<and> serve add junk evs srv = Some (srv, SendHttpRsp c rsp) \<and>
    mg_recv_segments mc' client_user hc back = Some (hc', calls') \<and> client_events calls' = Some evs' \<and>
    poll evs' cl = Some (cl\<lparr>s_exit_flag := 1\<rparr>, [(k, result_json (c_str rsp))]) \<and>
    buffered_bytes hs' = [] \<and> buffered_bytes hc' = []"
proof -
  have "segs \<noteq> []" using g(1) by (auto simp: request_text_def)
  moreover have "buffered_bytes hs @ concat (map (\<lambda>(_, bs, _). bs) segs) = request_text m u p fs @ x"
    using assms(1) g(1) by (simp add: idle_def)
  ultimately obtain hs' calls where s: "mg_recv_segments mc user hs segs = Some (hs', calls)"
      "deliveries calls = [request_call m u p fs x]" "buffered_bytes hs' = []"
    using server_segments [of hs segs m u p fs x user mc] assms(1,2) r g(2) unfolding idle_def by blast
  obtain evs where e: "server_events c calls = Some evs" "serve add junk evs srv = Some (srv, SendHttpRsp c rsp)"
    using serve_request [OF s(2) [unfolded request_call_def] a] by blast
  obtain hc' calls' evs' where "mg_recv_segments mc' client_user hc back = Some (hc', calls')" "client_events calls' = Some evs'"
      "poll evs' cl = Some (cl\<lparr>s_exit_flag := 1\<rparr>, [(k, result_json (c_str rsp))])" "buffered_bytes hc' = []"
    using answer_delivered [OF assms(3,4) b k] by blast
  then show ?thesis using s e by blast
qed

text \<open>C5: the way of a request and of its answer.  A request in the form of RFC 7230, whose headers announce the
  length of its body, reaches the server in any pieces, and the server gives it to the handler of the
  application once, when it is complete, with its strings.  When the handler sends one answer with \<open>SendHttpRsp\<close>
  and its bytes reach the client in any pieces, the callback of the client is called once, with the JSON
  text.  Both receive buffers are empty at the end.\<close>

theorem http_exchange:
  fixes c :: mg_connection
  assumes "idle hs" "accepted (conn hs)" "idle hc" "\<not> accepted (conn hc)"
    and "plain_request m u p fs" "announces m fs (length x)" "length (request_text m u p fs @ x) < 2 ^ 63"
      "length (request_text m u p fs @ x) * 3 div 2 \<le> largest (mem mc)" "keeps user"
    and "concat (map (\<lambda>(_, bs, _). bs) segs) = request_text m u p fs @ x" "\<forall>(_, bs, _) \<in> set segs. bs \<noteq> []"
    and "HandleHttpEvent add junk c \<lparr>message = request_text m u p fs @ x, uri = path u, body = x\<rparr> srv = Some (SendHttpRsp c rsp)"
    and "concat (map (\<lambda>(_, bs, _). bs) back) = sent_to (cid c) (SendHttpRsp c rsp)" "\<forall>(_, bs, _) \<in> set back. bs \<noteq> []"
      "length (sent_to (cid c) (SendHttpRsp c rsp)) < 2 ^ 63"
      "length (sent_to (cid c) (SendHttpRsp c rsp)) * 3 div 2 \<le> largest (mem mc')"
    and "s_req_callback cl = Some k"
  shows "\<exists>hs' calls evs hc' calls' evs'. mg_recv_segments mc user hs segs = Some (hs', calls) \<and>
    server_events c calls = Some evs \<and> serve add junk evs srv = Some (srv, SendHttpRsp c rsp) \<and>
    mg_recv_segments mc' client_user hc back = Some (hc', calls') \<and> client_events calls' = Some evs' \<and>
    poll evs' cl = Some (cl\<lparr>s_exit_flag := 1\<rparr>, [(k, result_json (c_str rsp))]) \<and>
    buffered_bytes hs' = [] \<and> buffered_bytes hc' = []"
  by (rule exchange [OF assms])

definition test_http :: "bool \<Rightarrow> http_connection" where
  "test_http acc = \<lparr>conn = test_conn acc [], chunk_body_len = 0, ws_proto = False\<rparr>"

definition test_machine :: machine where
  "test_machine = \<lparr>mem = \<lparr>fresh_byte = \<lambda>_. 0, largest = 400\<rparr>,
     sha_junk = \<lparr>regs = (0, 0, 0, 0, 0), bits0 = 0, bits1 = 0, ctx_buf = []\<rparr>, b64_junk = [], rnd = 1\<rparr>"

definition quiet_user :: http_user where
  "quiet_user c nc = (flags nc, [])"

definition hello_request :: "byte list" where
  "hello_request = request_text (ascii ''GET'') (ascii ''/api/hello'') (ascii ''HTTP/1.1'') []"

lemma test_idle: "idle (test_http a)" "accepted (conn (test_http a)) = a" "keeps quiet_user"
  by (simp_all add: idle_def open_http_def test_http_def test_conn_def mbuf_ok_def buffered_bytes_def in_use_def keeps_def quiet_user_def)

lemma hello_plain: "plain_request (ascii ''GET'') (ascii ''/api/hello'') (ascii ''HTTP/1.1'') []"
  "announces (ascii ''GET'') [] 0" "path (ascii ''/api/hello'') = ascii ''/api/hello''"
proof -
  show "plain_request (ascii ''GET'') (ascii ''/api/hello'') (ascii ''HTTP/1.1'') []"
    by (simp add: plain_request_def good_request_def good_word_def good_def isprint_def ascii_def request_text_def
        crlf_def kept_def lookup_def)
  show "announces (ascii ''GET'') [] 0"
    by (simp add: announces_def kept_def has_body_def body_length_def ascii_def tolower_def)
  show "path (ascii ''/api/hello'') = ascii ''/api/hello''" by (simp add: path_def ascii_def)
qed

theorem http_exchange_witness:
  "\<exists>hs' calls evs hc' calls' evs'.
    mg_recv_segments test_machine quiet_user (test_http True) [(0, take 9 hello_request, True), (1, drop 9 hello_request, False)] = Some (hs', calls) \<and>
    server_events \<lparr>cid = 1, flags = 0\<rparr> calls = Some evs \<and>
    serve (@) ([], []) evs main_server = Some (main_server, SendHttpRsp \<lparr>cid = 1, flags = 0\<rparr> (ascii ''welcome to httpserver'')) \<and>
    mg_recv_segments test_machine client_user (test_http False)
      [(2, sent_to 1 (SendHttpRsp \<lparr>cid = 1, flags = 0\<rparr> (ascii ''welcome to httpserver'')), True)] = Some (hc', calls') \<and>
    client_events calls' = Some evs' \<and>
    poll evs' \<lparr>s_exit_flag = 0, s_req_callback = Some (5 :: nat)\<rparr> =
      Some (\<lparr>s_exit_flag = 1, s_req_callback = Some 5\<rparr>, [(5, result_json (c_str (ascii ''welcome to httpserver'')))]) \<and>
    buffered_bytes hs' = [] \<and> buffered_bytes hc' = []"
proof -
  let ?c = "\<lparr>cid = 1, flags = 0\<rparr> :: mg_connection" and ?rsp = "ascii ''welcome to httpserver''"
  have l: "length hello_request = 27" by (simp add: hello_request_def request_text_def ascii_def crlf_def)
  have ne: "take 9 hello_request \<noteq> []" "drop 9 hello_request \<noteq> []" using l by auto
  have h: "hello_request = request_text (ascii ''GET'') (ascii ''/api/hello'') (ascii ''HTTP/1.1'') [] @ []"
    by (simp add: hello_request_def)
  have ev: "HandleHttpEvent (@) ([], []) ?c \<lparr>message = hello_request, uri = path (ascii ''/api/hello''), body = []\<rparr> main_server =
      Some (SendHttpRsp ?c ?rsp)"
    unfolding hello_plain(3) by (simp add: HandleHttpEvent_def Let_def main_server_def AddHandler_def ascii_def)
  have b: "sent_to 1 (SendHttpRsp ?c ?rsp) \<noteq> []" "length (sent_to 1 (SendHttpRsp ?c ?rsp)) < 2 ^ 63"
    "length (sent_to 1 (SendHttpRsp ?c ?rsp)) * 3 div 2 \<le> 400"
    by (simp_all add: SendHttpRsp_def sent_to_def mg_send_http_chunk_def hex_upper.simps ascii_def crlf_def c_str_def)
  let ?cl = "\<lparr>s_exit_flag = 0, s_req_callback = Some (5 :: nat)\<rparr>"
  have "\<exists>hs' calls evs hc' calls' evs'.
    mg_recv_segments test_machine quiet_user (test_http True) [(0, take 9 hello_request, True), (1, drop 9 hello_request, False)] = Some (hs', calls) \<and>
    server_events ?c calls = Some evs \<and> serve (@) ([], []) evs main_server = Some (main_server, SendHttpRsp ?c ?rsp) \<and>
    mg_recv_segments test_machine client_user (test_http False) [(2, sent_to 1 (SendHttpRsp ?c ?rsp), True)] = Some (hc', calls') \<and>
    client_events calls' = Some evs' \<and>
    poll evs' ?cl = Some (?cl\<lparr>s_exit_flag := 1\<rparr>, [(5, result_json (c_str ?rsp))]) \<and>
    buffered_bytes hs' = [] \<and> buffered_bytes hc' = []"
  proof (rule http_exchange [where m = "ascii ''GET''" and u = "ascii ''/api/hello''" and p = "ascii ''HTTP/1.1''" and fs = "[]" and x = "[]"])
    show "HandleHttpEvent (@) ([], []) ?c \<lparr>message = request_text (ascii ''GET'') (ascii ''/api/hello'') (ascii ''HTTP/1.1'') [] @ [],
        uri = path (ascii ''/api/hello''), body = []\<rparr> main_server = Some (SendHttpRsp ?c ?rsp)"
      using ev unfolding h .
  qed (use test_idle hello_plain ne b l in \<open>simp_all add: hello_request_def [symmetric] test_machine_def\<close>)
  then show ?thesis by simp
qed

section \<open>What goes wrong\<close>

lemma chunk_wraps: "collapse_chunks 18 (ascii ''FFFFFFFFFFFFFFFE'' @ crlf) 0 0 = None"
proof -
  have "mg_http_parse_chunk (ascii ''FFFFFFFFFFFFFFFE'' @ crlf) 18 = Some (18, 18, - 2)"
    by (simp add: mg_http_parse_chunk_def ascii_def crlf_def isxdigit_def isdigit_def tolower_def at_crlf_def rd_def Let_def)
  then show ?thesis by (subst collapse_chunks.simps) (simp add: memmove_def slice_def ascii_def crlf_def)
qed

lemma second_aborts:
  assumes "finished cs h" "concat cs \<noteq> []" "47 * 3 div 2 \<le> largest (mem mc)"
  shows "mg_recv_http mc user now h http_head own = None"
proof -
  have h: "open_http h" "buffered_bytes h = []" "\<not> accepted (conn h)" "chunk_body_len h = length (concat cs)"
    using assms(1) by (auto simp: finished_def)
  have "len (recv_mbuf (conn h)) = 0" using h(1,2) length_in_use [of "recv_mbuf (conn h)"] by (simp add: open_http_def buffered_bytes_def)
  then have "(len (recv_mbuf (conn h)) + length http_head) * 3 div 2 \<le> largest (mem mc)" using assms(3) by (simp add: length_http_head)
  then obtain h1 where h1: "mg_recv_http mc user now h http_head own = mg_http_recv mc user h1" "open_http h1"
      "buffered_bytes h1 = http_head" "chunk_body_len h1 = length (concat cs)" "\<not> accepted (conn h1)"
    using with_recv [OF h(1)] h(2-4) by (metis append_Nil)
  obtain hm where hm: "mg_parse_http http_head False = Some (47, hm)" "fields_of http_head hm = response_fields"
    using response_parsed [of http_head "[]"] by auto
  have c: "is_chunked http_head hm = Some True" by (rule response_chunked [of _ "[]", OF _ hm]) simp
  have "len (recv_mbuf (conn h1)) = 47"
    using h1(2,3) length_in_use [of "recv_mbuf (conn h1)"] by (simp add: open_http_def buffered_bytes_def length_http_head)
  moreover have "\<not> length (concat cs) \<le> 0" using assms(2) by (simp only: le_0_eq length_0_conv not_False_eq_True)
  ultimately have "mg_handle_chunked user (mg_call user CALL_RECV h1) hm 47 = None"
    unfolding mg_handle_chunked_def Let_def by (intro if_not_P) (simp only: mg_call_simps h1(4) diff_self_eq_0 not_False_eq_True)
  then show ?thesis unfolding h1(1) mg_http_recv_def Let_def using h1(3,5) hm(1) c by (simp add: buffered_bytes_def)
qed

lemma request_negative:
  assumes ok: "open_http h" "keeps user" "accepted (conn h)"
    and b: "buffered_bytes h = request_text m u p hs @ r" and p: "plain_request m u p hs"
    and k: "declared (kept hs) = Some d" "body_length m hs = - of_nat k" "0 < k" "k \<le> length (request_text m u p hs)"
    and n: "length (buf (recv_mbuf (conn h))) < 2 ^ 63"
  shows "\<exists>h'. mg_http_recv mc user h = Some (h', [CALL_RECV, CALL_HTTP_REQUEST None])"
proof -
  let ?T = "request_text m u p hs" and ?io = "recv_mbuf (conn h)"
  obtain hm where hm: "body_p hm = length ?T" "body_len hm = body_length m hs"
      "message_len hm = (if declared (kept hs) = None \<and> has_body m then - 1 else of_nat (length ?T) + body_length m hs)"
      "mg_http_recv mc user h = deliver_request user h hm"
    using request_event [OF ok b p, of mc] by blast
  have iok: "mbuf_ok ?io" using ok(1) by (simp add: open_http_def)
  obtain j where j: "buf ?io = (?T @ r) @ j" "len ?io = length (?T @ r)" using buf_buffered [OF iok b] by blast
  have sm: "length (?T @ r) < 2 ^ 63" "k < 2 ^ 63" using n k(4) by (simp_all add: j(1))
  have ml: "message_len hm = of_nat (length ?T - k)" using hm(3) k by (simp add: of_nat_diff)
  have "of_nat (2 ^ 64 - k) + of_nat k = (of_nat (2 ^ 64) :: 64 word)"
    using sm(2) by (simp only: of_nat_add [symmetric]) simp
  moreover have "(of_nat (2 ^ 64) :: 64 word) = 0" by simp
  ultimately have "of_nat k + of_nat (2 ^ 64 - k) = (0 :: 64 word)" by (simp only: add.commute)
  then have "(- of_nat k :: 64 word) = of_nat (2 ^ 64 - k)" by (rule minus_unique)
  then have "unat (- of_nat k :: 64 word) = 2 ^ 64 - k" using unat_64 [of "2 ^ 64 - k"] k(3) by simp
  then have "slice (buf ?io) (length ?T) (unat (body_len hm)) = None" using n sm(2) by (simp add: hm(2) k(2) slice_def)
  then have v: "view (buf ?io) hm = None" by (simp add: view_def hm(1) split: Option.bind_splits)
  have "message_len hm \<le> of_nat (length (buffered_bytes h))"
    unfolding ml b using less_64 [of "length (?T @ r)" "length ?T - k"] sm by (simp add: not_less [symmetric])
  moreover obtain io1 where "mbuf_remove ?io (unat (message_len hm)) = Some io1" using mbuf_remove_spec [OF iok] by blast
  ultimately show ?thesis using v by (simp add: hm(4) deliver_request_def Let_def)
qed

lemma close_incomplete:
  assumes ok: "open_http h" "accepted (conn h)" and b: "buffered_bytes h = request_text m u p hs @ r"
    and g: "good_request m u p hs" and n: "length (buffered_bytes h) < 2 ^ 63"
  shows "\<exists>h'. mg_http_close user h = Some (h', [CALL_HTTP_REQUEST
      (Some \<lparr>message = request_text m u p hs @ r, uri = path u, body = r\<rparr>), CALL_CLOSE])"
proof -
  let ?T = "request_text m u p hs" and ?io = "recv_mbuf (conn h)"
  obtain hm where hm: "mg_parse_http (buffered_bytes h) True = Some (int (length ?T), hm)"
      "str_at (buffered_bytes h) (hm_uri hm) = path u" "body_p hm = length ?T"
    using request_text_parsed [OF g b] by blast
  have iok: "mbuf_ok ?io" using ok(1) by (simp add: open_http_def)
  obtain j where j: "buf ?io = (?T @ r) @ j" "len ?io = length (?T @ r)" using buf_buffered [OF iok b] by blast
  have T: "int (length ?T) > 0" by (simp add: request_text_def)
  have "inside (length ?T) (hm_uri hm)" using parsed_headers(3) [OF hm(1) T] by simp
  then have u: "str_at (buf ?io) (hm_uri hm) = path u"
    using str_at_prefix [of "length ?T" "hm_uri hm" "buf ?io" "buffered_bytes h"] hm(2) by (simp add: j(1) b)
  have w: "unat (of_nat (len ?io) :: 64 word) = length (?T @ r)" "unat (of_nat (len ?io - body_p hm) :: 64 word) = length r"
    using n by (simp_all add: j(2) hm(3) b unat_64 del: of_nat_add)
  have v: "view (buf ?io) (hm\<lparr>message_len := of_nat (len ?io), body_len := of_nat (len ?io - body_p hm)\<rparr>) =
      Some \<lparr>message = ?T @ r, uri = path u, body = r\<rparr>"
    using w u hm(3) by (simp add: view_def slice_def j(1))
  have "len ?io > 0" using T by (simp add: j(2))
  then show ?thesis using ok(2) hm(1) v T
    unfolding mg_http_close_def Let_def by (simp add: buffered_bytes_def [symmetric])
qed

definition negative_request :: "byte list" where
  "negative_request = request_text (ascii ''GET'') (ascii ''/'') (ascii ''HTTP/1.1'') [(ascii ''Content-Length'', ascii ''-5'')]"

definition sum_request :: "byte list" where
  "sum_request = request_text (ascii ''POST'') (ascii ''/api/sum'') (ascii ''HTTP/1.1'') [(ascii ''Content-Length'', ascii ''9'')]"

lemma negative_plain:
  "plain_request (ascii ''GET'') (ascii ''/'') (ascii ''HTTP/1.1'') [(ascii ''Content-Length'', ascii ''-5'')]"
  "kept [(ascii ''Content-Length'', ascii ''-5'')] = [(ascii ''Content-Length'', ascii ''-5'')]"
  "declared [(ascii ''Content-Length'', ascii ''-5'')] = Some (- 5)"
proof -
  show k: "kept [(ascii ''Content-Length'', ascii ''-5'')] = [(ascii ''Content-Length'', ascii ''-5'')]"
    by (simp add: kept_def ascii_def)
  show "plain_request (ascii ''GET'') (ascii ''/'') (ascii ''HTTP/1.1'') [(ascii ''Content-Length'', ascii ''-5'')]"
    unfolding plain_request_def k
    by (simp add: good_request_def good_header_def good_word_def good_def isprint_def ascii_def request_text_def
        field_line_def crlf_def lookup_def tolower_def)
  show "declared [(ascii ''Content-Length'', ascii ''-5'')] = Some (- 5)"
    by (simp add: is_content_length_def ascii_def strtoll_def isspace_def isdigit_def tolower_def)
qed

lemma recv_owned:
  "mg_recv_segments mc user (test_http a) [(now, bs, True)] = mg_http_recv mc user
     \<lparr>conn = \<lparr>cid = 1, flags = 0, recv_mbuf = \<lparr>buf = bs, len = length bs\<rparr>, send_mbuf = [], accepted = a, last_io_time = now\<rparr>,
       chunk_body_len = 0, ws_proto = False\<rparr>"
  by (simp add: mg_recv_http_def test_http_def test_conn_def recv_bytes_def split: option.split)


end
