(* ===== verification/Spec2Isabelle.thy ===== *)
theory Spec2Isabelle
  imports Bubble_Select Insertion_Shell Heap_Sort Quick_Merge Kmp Charactor Md5 Sha1 Bst Custom_Heap Lru_Queue
    Rw_Lock Thread_Queue Cache_Pool Hash_List Url_Encode Atm Lru_Cache Lock_Free_List
    Parallel_Find Hierarchical_Mutex Lookup_Table Radix_Sort Floyd Dijkstra Spanning Http_Server Http_Client Barrier Hash_Map
    Mg_Md5 Http_Exchange
begin

text \<open>
  A verification library for the C++ code of the repository: the algorithms of \<open>c++/algos\<close>, the
  utilities of \<open>c++/utils\<close> and the concurrent programs of \<open>c++/CCiA_SourceCode\<close>.  All definitions are
  executable translations of the functions they name; \<open>PROJECT.json\<close> maps each of them to its lines.

  \<^bold>\<open>Parts and how they interact.\<close>

  \<^item> Sorting (\<open>c++/algos/sort\<close>): \<open>Bubble_Select\<close>, \<open>Insertion_Shell\<close>, \<open>Heap_Sort\<close>, \<open>Quick_Merge\<close>,
    \<open>Radix_Sort\<close>.  Each routine is a function on a checked array of \<open>Prelude\<close>; all but the last two meet the
    contract \<open>array_sorter\<close>, which is interpreted for each, so that they agree (\<open>sorts_agree\<close> below).
  \<^item> String search: \<open>Kmp\<close> (\<open>kmp.cpp\<close>) and \<open>Charactor\<close> (\<open>dumpKMP\<close>), which cuts a string into ASCII or GBK
    characters and searches with the table of the borders that \<open>Kmp\<close> proves right.
  \<^item> Graphs: \<open>Graph\<close> holds the adjacency matrix of \<open>prim.cpp\<close>, the rules for loops over its cells, and walks;
    \<open>Floyd\<close>, \<open>Dijkstra\<close> and \<open>Spanning\<close> (\<open>Kruskal.cpp\<close>, \<open>prim.cpp\<close>) use it.
  \<^item> Trees and heaps: \<open>Bst\<close> (\<open>BST.cpp\<close>, an explicit memory of nodes) and \<open>Custom_Heap\<close>
    (\<open>custom_heap.hpp\<close>, \<open>custom_max_heap.hpp\<close> and the merge of its test).
  \<^item> Bytes: \<open>Bytes\<close> holds bytes, copies with bounds and the iteration over blocks that \<open>Md5\<close> and \<open>Sha1\<close>
    (\<open>c++/utils/hash\<close>) are specified by; \<open>Absorb\<close> is the filling of their blocks in pieces; \<open>Url_Encode\<close> is
    \<open>convert_to_encoded.cpp\<close>.
  \<^item> Web (\<open>c++/utils/web_server\<close>): \<open>Http_Server\<close> holds the handlers of requests, frames and sessions,
    \<open>Http_Client\<close> the client.  Both run on the library \<open>common/mongoose.cc\<close>, of which \<open>Mongoose\<close> has the
    functions on texts and forms, \<open>Mg_Sha1\<close> and \<open>Mg_Md5\<close> the digests and their agreement with \<open>sha1.cpp\<close> and
    \<open>md5.cpp\<close>, \<open>Mg_Base64\<close> the code base64, \<open>Mg_Mbuf\<close> the growing buffers (contract \<open>byte_queue\<close>) and
    counted strings, \<open>Mg_Websocket\<close> the frames and the handshake, \<open>Mg_Http\<close> the HTTP parser, and
    \<open>Mg_Http_Recv\<close> the receiver of messages with chunked bodies and the change to websockets.
    \<open>Ws_Stream\<close> and \<open>Mg_Http_Text\<close> show what these make of frames and requests in the form of the standards.
    \<open>Ws_Server\<close>, \<open>Http_Reply\<close> and \<open>Http_Exchange\<close> compose them with the server and the client: the bytes of
    one side, cut into any pieces, reach the handler of the other and come back as its answer.
    \<open>Http_Server.api_sum\<close> adds \<open>Url_Encode\<close>: a form that one side encodes the other decodes.
  \<^item> Caches (\<open>c++/utils\<close>, \<open>c++/utils/cache\<close>): \<open>Dlinked\<close> is the theory of doubly linked lists in memory;
    \<open>Linked_Queue\<close> (\<open>threadsafe_listed_queue.h\<close>) gives the contract \<open>fifo\<close> of queues; \<open>Lru_Queue\<close>
    (\<open>lru_cache_lockfree_queued.h\<close>) is a client of it; \<open>Hash_List\<close> (\<open>concurrent_hashlist.h\<close>) provides it too
    and has the manager that recycles nodes; \<open>Hash_Map\<close> (\<open>concurrent_hashmap_element_lock.h\<close>) is a map over
    these nodes; \<open>Lru_Cache\<close> is \<open>lru_cache.h\<close> over \<open>cache.h\<close>;
    \<open>Lock_Free_List\<close> is \<open>lock_free_linked_list.h\<close>.
  \<^item> Locks and pools: \<open>Transition\<close> has reachability, the contracts \<open>invariant_of\<close> and \<open>simulates\<close>, and runs
    of sequences of operations; \<open>Rw_Lock\<close> (\<open>rwlock.h\<close>, \<open>spinlock.h\<close>), \<open>Thread_Queue\<close>
    (\<open>c++/utils/thread_pool\<close>), \<open>Cache_Pool\<close> (\<open>cache/thread_pool.h\<close>) and \<open>Hierarchical_Mutex\<close> (listing 3.8)
    are step relations over all interleavings of their atomic operations.
  \<^item> Listings of \<open>CCiA_SourceCode\<close>: \<open>Atm\<close> (c.1 to c.10) is the cash machine of three message loops,
    \<open>Parallel_Algos\<close> (2.8, 4.12, 4.13, 8.3, 8.5, 8.11) and \<open>Parallel_Find\<close> (8.7, 8.8, 8.9) the parallel
    algorithms, \<open>Lookup_Table\<close> (6.11) the hash table with a lock for each bucket,
    and \<open>Barrier\<close> (8.12, 8.13) the barrier and the partial sums that use it.

  \<^bold>\<open>Conventions.\<close>  An access outside an array, through a null or dangling pointer, of an uninitialised
  cell, a lock that is never free, a signed overflow where the code is near it, and a loop that does not end
  all give \<open>None\<close>; that a function returns \<open>Some\<close> is part of the properties.  Loops are recursive functions
  with a termination proof, the counting loops of \<open>Prelude\<close>, or \<open>partial_function\<close>s where they may not end.
  Concurrent programs are inductive step relations whose steps are single atomic operations; a property of them
  is an invariant of all reachable states, and their ends are shown by a measure that every step decreases.
  Where operations hold their locks from beginning to end they are single functions.

  \<^bold>\<open>What the lemmas show.\<close>  For the functions on arrays and strings: that they return, and with what result,
  on every branch.  For the data structures: a representation predicate that ties the memory to a list, a tree
  or a map, its preservation, and the refinement of the abstract operation.  For the concurrent programs: mutual
  exclusion, conservation of tasks and money, absence of deadlock, or the interleaving in which the code
  deadlocks or loses work.  The defects that the models show are listed as findings in \<open>PROJECT.json\<close>.

  \<^bold>\<open>Bounds.\<close>  Indices and lengths are unbounded integers; this is exact for arrays below \<open>2 ^ 30\<close> cells, whose
  indices stay within twice the length.  Digests, locks and hashes use machine words.  The sums of the
  graph algorithms are checked against 32 bits (\<open>cadd\<close>), and their theorems assume weights below \<open>2 ^ 30\<close>.
  The merging loop of \<open>Custom_Heap\<close> has fuel 12, one more than the elements of its input.  The number of
  threads is below \<open>2 ^ 31\<close> in \<open>Rw_Lock\<close>.  Times are numbers, or 64-bit words in \<open>Lru_Cache\<close>.

  \<^bold>\<open>Not modelled.\<close>  Output to the terminal and programs that only print; the event loop, sockets,
  endpoints, file server, TLS, DNS, MQTT and CoAP of \<open>mongoose\<close>; \<open>boost\<close>, and the operating system,
  whose results are parameters; memory orders
  weaker than sequential consistency; exceptions of the allocator; the hash maps
  \<open>concurrent_hashmap.h\<close> and \<open>lru_cache_concurrent_hashmap.h\<close> and the operation to erase of
  \<open>concurrent_hashmap_element_lock.h\<close>, which do not compile; the listings of \<open>CCiA_SourceCode\<close> not named above, most of them
  fragments or one-line uses of the standard library; and the experiments with the language in \<open>tests\<close>,
  \<open>c++/macros\<close>, \<open>c++/heap\<close>, \<open>c++/utils/aop\<close> and \<open>c++/utils/callable\<close>, the scripts and the Java file.
\<close>

section \<open>Properties across components\<close>

text \<open>C30: the ten in-place sorting routines agree: on every array and for every \<open>n\<close> up to its length
  each of them returns, without an access outside the array, with the first \<open>n\<close> cells sorted and
  the others as they were.\<close>

theorem sorts_agree:
  fixes a :: "int list"
  assumes "n \<le> length a" "f \<in> {BubbleSort, BubbleSort2, Selectsort, Insertsort1, Insertsort2, Insertsort3,
    shellsort1, shellsort2, shellsort3, \<lambda>a n. quicksort a 0 (n - 1)}"
  shows "f a (int n) = Some (sort (take n a) @ drop n a)"
  using assms(2) bubble.prefix [OF assms(1)] bubble2.prefix [OF assms(1)] select.prefix [OF assms(1)]
    insert1.prefix [OF assms(1)] insert2.prefix [OF assms(1)] insert3.prefix [OF assms(1)]
    shell1.prefix [OF assms(1)] shell2.prefix [OF assms(1)] shell3.prefix [OF assms(1)]
    quick.prefix [OF assms(1)]
  by (elim insertE) simp_all

lemma sorts_agree_witness: "shellsort2 [3, 1, 2, 1 :: int] 3 = Some ([1, 2, 3] @ [1])"
  using sorts_agree [of 3 "[3, 1, 2, 1]" shellsort2] by simp

end
